(* ===== verification/Prelude.thy ===== *)
theory Prelude
  imports Main "HOL-Library.Word" "HOL-Library.Monad_Syntax"
begin

text \<open>
  Shared vocabulary of the development: machine integers at their width, byte buffers
  with the panicking reads, writes and slices of Rust, big-endian conversions, Rust
  strings as their UTF-8 bytes, and the lemmas about them that every component uses.

  \<^item> \<open>'a rust\<close> is the outcome of running a function: \<open>panic\<close> when the code
    would panic (an index or a slice out of range), \<open>ret x\<close> when it returns \<open>x\<close>.
    A Rust \<open>Option\<close> is an \<open>option\<close> inside it, so an early \<open>return None\<close> is
    \<open>ret None\<close> and never confused with a panic.
  \<^item> \<open>bytes\<close> is a \<open>&[u8]\<close> or a \<open>Vec<u8>\<close>. Positions are \<open>nat\<close>: a Rust buffer is
    shorter than \<open>2 ^ 63\<close> bytes and every position computed from it exceeds its length
    by less than \<open>2 ^ 17\<close>, so \<open>usize\<close> arithmetic does not wrap.
  \<^item> a \<open>String\<close> or \<open>&str\<close> is an Isabelle \<open>string\<close> whose characters are its UTF-8 bytes,
    so \<open>length\<close> is Rust's \<open>len()\<close>.
\<close>

unbundle bit_operations_syntax

section \<open>Machine integers, buffers and outcomes\<close>

type_synonym u8 = "8 word"
type_synonym u16 = "16 word"
type_synonym u32 = "32 word"
type_synonym u64 = "64 word"
type_synonym bytes = "u8 list"
type_synonym 'a rust = "'a option"
type_synonym instant = nat

abbreviation (input) ret :: "'a \<Rightarrow> 'a rust" where "ret \<equiv> Some"
abbreviation (input) panic :: "'a rust" where "panic \<equiv> None"

named_theorems wire_read \<open>reads, writes and slices that stay inside the buffer\<close>
named_theorems wire_defs \<open>definitions of the byte-level vocabulary\<close>

definition rd :: "bytes \<Rightarrow> nat \<Rightarrow> u8 rust" where
  "rd buf i = (if i < length buf then ret (buf ! i) else panic)"

definition slice :: "bytes \<Rightarrow> nat \<Rightarrow> nat \<Rightarrow> bytes rust" where
  "slice buf a b = (if a \<le> b \<and> b \<le> length buf then ret (take (b - a) (drop a buf)) else panic)"

definition wr :: "bytes \<Rightarrow> nat \<Rightarrow> bytes \<Rightarrow> bytes rust" where
  "wr buf i v = (if i + length v \<le> length buf
                 then ret (take i buf @ v @ drop (i + length v) buf) else panic)"

definition be16 :: "u8 \<Rightarrow> u8 \<Rightarrow> u16" where
  "be16 a b = push_bit 8 (ucast a) OR ucast b"

definition be32 :: "u8 \<Rightarrow> u8 \<Rightarrow> u8 \<Rightarrow> u8 \<Rightarrow> u32" where
  "be32 a b c d = push_bit 24 (ucast a) OR push_bit 16 (ucast b) OR push_bit 8 (ucast c) OR ucast d"

definition to_be16 :: "u16 \<Rightarrow> bytes" where
  "to_be16 v = [ucast (drop_bit 8 v), ucast v]"

definition to_be32 :: "u32 \<Rightarrow> bytes" where
  "to_be32 v = [ucast (drop_bit 24 v), ucast (drop_bit 16 v), ucast (drop_bit 8 v), ucast v]"

definition rd16 :: "bytes \<Rightarrow> nat \<Rightarrow> u16 rust" where
  "rd16 buf i = do { a \<leftarrow> rd buf i; b \<leftarrow> rd buf (i + 1); ret (be16 a b) }"

definition rd32 :: "bytes \<Rightarrow> nat \<Rightarrow> u32 rust" where
  "rd32 buf i = do { a \<leftarrow> rd buf i; b \<leftarrow> rd buf (i + 1); c \<leftarrow> rd buf (i + 2);
                     d \<leftarrow> rd buf (i + 3); ret (be32 a b c d) }"

text \<open>The same reads on a buffer known to be long enough, for statements.\<close>

definition get16 :: "bytes \<Rightarrow> nat \<Rightarrow> u16" where
  "get16 buf i = be16 (buf ! i) (buf ! (i + 1))"

definition get32 :: "bytes \<Rightarrow> nat \<Rightarrow> u32" where
  "get32 buf i = be32 (buf ! i) (buf ! (i + 1)) (buf ! (i + 2)) (buf ! (i + 3))"

definition unwrap_or :: "'a \<Rightarrow> 'a option \<Rightarrow> 'a" where
  "unwrap_or d m = (case m of None \<Rightarrow> d | Some x \<Rightarrow> x)"

lemma unwrap_or_simps [simp]: "unwrap_or d None = d" "unwrap_or d (Some x) = x"
  by (simp_all add: unwrap_or_def)

lemma rd_ok [simp, wire_read]: "i < length buf \<Longrightarrow> rd buf i = Some (buf ! i)"
  by (simp add: rd_def)

lemma rd16_ok [simp, wire_read]: "i + 1 < length buf \<Longrightarrow> rd16 buf i = Some (get16 buf i)"
  by (simp add: rd16_def get16_def)

lemma rd32_ok [simp, wire_read]: "i + 3 < length buf \<Longrightarrow> rd32 buf i = Some (get32 buf i)"
  by (simp add: rd32_def get32_def)

lemma slice_ok [simp, wire_read]:
  "a \<le> b \<Longrightarrow> b \<le> length buf \<Longrightarrow> slice buf a b = Some (take (b - a) (drop a buf))"
  by (simp add: slice_def)

lemma wr_ok [simp, wire_read]:
  "i + length v \<le> length buf \<Longrightarrow> wr buf i v = Some (take i buf @ v @ drop (i + length v) buf)"
  by (simp add: wr_def)

lemma length_to_be16 [simp]: "length (to_be16 v) = 2"
  by (simp add: to_be16_def)

lemma length_to_be32 [simp]: "length (to_be32 v) = 4"
  by (simp add: to_be32_def)

lemma length_wr: "wr buf i v = Some buf' \<Longrightarrow> length buf' = length buf"
  by (auto simp: wr_def split: if_splits)

lemma be16_to_be16 [simp]: "be16 (ucast (drop_bit 8 v)) (ucast (v :: u16)) = v"
  unfolding be16_def by (rule bit_word_eqI) (auto simp: bit_simps)

lemma to_be16_be16 [simp]: "to_be16 (be16 a b) = [a, b]"
proof -
  have "ucast (drop_bit 8 (be16 a b)) = a"
    unfolding be16_def by (rule bit_word_eqI) (auto simp: bit_simps dest: bit_imp_le_length)
  moreover have "ucast (be16 a b) = b"
    unfolding be16_def by (rule bit_word_eqI) (auto simp: bit_simps)
  ultimately show ?thesis by (simp add: to_be16_def)
qed

lemma be32_to_be32 [simp]:
  "be32 (ucast (drop_bit 24 v)) (ucast (drop_bit 16 v)) (ucast (drop_bit 8 v)) (ucast (v :: u32)) = v"
  unfolding be32_def
proof (rule bit_word_eqI)
  fix n assume "n < LENGTH(32)"
  then show "bit (push_bit 24 (ucast (ucast (drop_bit 24 v) :: u8)) OR
      push_bit 16 (ucast (ucast (drop_bit 16 v) :: u8)) OR
      push_bit 8 (ucast (ucast (drop_bit 8 v) :: u8)) OR ucast (ucast v :: u8) :: u32) n = bit v n"
    by (cases "n < 8"; cases "n < 16"; cases "n < 24") (auto simp: bit_simps)
qed

lemma unat_be16: "unat (be16 a b) = 256 * unat a + unat b"
proof -
  have "push_bit 8 (ucast a :: u16) AND ucast b = 0"
    by (rule bit_word_eqI) (auto simp: bit_simps dest: bit_imp_le_length)
  then have "be16 a b = push_bit 8 (ucast a) + ucast b"
    unfolding be16_def by (simp add: disjunctive_add_eq_or)
  then have "be16 a b = (ucast a :: u16) * 256 + ucast b"
    by (simp add: push_bit_eq_mult)
  moreover have "unat a < 256" "unat b < 256"
    using unsigned_less [of a] unsigned_less [of b] by simp_all
  ultimately show ?thesis by (simp add: unat_word_ariths unsigned_ucast_eq take_bit_eq_mod)
qed

lemma unat_u8 [simp]: "unat (b :: u8) < 256"
  using unsigned_less [of b] by simp

lemma unat_u16 [simp]: "unat (v :: u16) < 65536"
  using unsigned_less [of v] by simp

lemma pos_nonzero: "(b :: u8) \<noteq> 0 \<Longrightarrow> 0 < unat b"
  by (simp add: unat_gt_0)


text \<open>A statement about every byte is a finite check.\<close>

lemma byte_exhaust: "(\<And>n. n < 256 \<Longrightarrow> P (word_of_nat n :: u8)) \<Longrightarrow> P b"
proof -
  assume all: "\<And>n. n < 256 \<Longrightarrow> P (word_of_nat n :: u8)"
  have "P (word_of_nat (unat b))" by (rule all) simp
  then show "P b" by simp
qed

lemma top_bits_pointer: "((b :: u8) AND 0xC0 = 0xC0) \<longleftrightarrow> 192 \<le> unat b"
proof -
  have "\<forall>n<256. ((word_of_nat n :: u8) AND 0xC0 = 0xC0) \<longleftrightarrow> 192 \<le> n" by code_simp
  from this [rule_format, of "unat b"] show ?thesis by simp
qed

lemma top_bits_zero: "((b :: u8) AND 0xC0 = 0) \<longleftrightarrow> unat b < 64"
proof -
  have "\<forall>n<256. ((word_of_nat n :: u8) AND 0xC0 = 0) \<longleftrightarrow> n < 64" by code_simp
  from this [rule_format, of "unat b"] show ?thesis by simp
qed

text \<open>Two buffers that agree between two positions.\<close>

definition same_between :: "bytes \<Rightarrow> bytes \<Rightarrow> nat \<Rightarrow> nat \<Rightarrow> bool" where
  "same_between buf' buf a b \<longleftrightarrow> b \<le> length buf' \<and> (\<forall>i. a \<le> i \<and> i < b \<longrightarrow> buf' ! i = buf ! i)"

lemma same_between_sub: "same_between buf' buf a b \<Longrightarrow> a \<le> c \<Longrightarrow> d \<le> b \<Longrightarrow> same_between buf' buf c d"
  by (simp add: same_between_def)

lemma same_between_take: "take b buf' = take b buf \<Longrightarrow> b \<le> length buf \<Longrightarrow> same_between buf' buf a b"
proof -
  assume t: "take b buf' = take b buf" and b: "b \<le> length buf"
  then have "length (take b buf') = length (take b buf)" by simp
  with b have "b \<le> length buf'" by simp
  moreover have "buf' ! i = buf ! i" if "i < b" for i
    using t that by (metis nth_take)
  ultimately show ?thesis by (simp add: same_between_def)
qed

lemma get16_same: "same_between buf' buf a b \<Longrightarrow> a \<le> i \<Longrightarrow> i + 1 < b \<Longrightarrow> get16 buf' i = get16 buf i"
  by (simp add: get16_def same_between_def)

section \<open>Characters and ASCII classes\<close>

text \<open>\<open>code c\<close> is the byte a character of the model stands for.\<close>

definition code :: "char \<Rightarrow> nat" where
  "code c = of_char c"

definition byte_char :: "u8 \<Rightarrow> char" where
  "byte_char b = char_of (unat b)"

definition char_byte :: "char \<Rightarrow> u8" where
  "char_byte c = word_of_nat (code c)"

lemma code_less [simp]: "code c < 256"
  by (simp add: code_def)

lemma code_byte_char [simp]: "code (byte_char b) = unat b"
  by (simp add: code_def byte_char_def)

lemma char_byte_byte_char [simp]: "char_byte (byte_char b) = b"
  by (simp add: char_byte_def)

lemma unat_char_byte [simp]: "unat (char_byte c) = code c"
  by (simp add: char_byte_def unat_of_nat)

lemma byte_char_char_byte [simp]: "byte_char (char_byte c) = c"
  by (simp add: byte_char_def) (simp add: code_def)

lemma code_inject [simp]: "code c = code d \<longleftrightarrow> c = d"
  by (metis byte_char_char_byte char_byte_def)

lemma byte_char_inject [simp]: "byte_char a = byte_char b \<longleftrightarrow> a = b"
  by (metis char_byte_byte_char)

definition is_upper_code :: "nat \<Rightarrow> bool" where
  "is_upper_code n \<longleftrightarrow> 65 \<le> n \<and> n \<le> 90"

definition is_alpha_code :: "nat \<Rightarrow> bool" where
  "is_alpha_code n \<longleftrightarrow> 65 \<le> n \<and> n \<le> 90 \<or> 97 \<le> n \<and> n \<le> 122"

definition is_digit_code :: "nat \<Rightarrow> bool" where
  "is_digit_code n \<longleftrightarrow> 48 \<le> n \<and> n \<le> 57"

definition is_alnum_code :: "nat \<Rightarrow> bool" where
  "is_alnum_code n \<longleftrightarrow> is_alpha_code n \<or> is_digit_code n"

definition lower_u8 :: "u8 \<Rightarrow> u8" where
  "lower_u8 b = (if is_upper_code (unat b) then b + 32 else b)"

definition lower_char :: "char \<Rightarrow> char" where
  "lower_char c = (if is_upper_code (code c) then char_of (code c + 32) else c)"

definition to_ascii_lowercase :: "string \<Rightarrow> string" where
  "to_ascii_lowercase s = map lower_char s"

lemma code_lower_char:
  "code (lower_char c) = (if is_upper_code (code c) then code c + 32 else code c)"
  by (simp add: lower_char_def is_upper_code_def code_def)

lemma unat_lower_u8:
  "unat (lower_u8 b) = (if is_upper_code (unat b) then unat b + 32 else unat b)"
  by (simp add: lower_u8_def is_upper_code_def unat_word_ariths)

lemma byte_char_lower_u8: "byte_char (lower_u8 b) = lower_char (byte_char b)"
  by (simp flip: code_inject add: code_lower_char unat_lower_u8)

lemma not_upper_lower [simp]: "\<not> is_upper_code (code (lower_char c))"
  by (simp add: code_lower_char) (auto simp: is_upper_code_def)

lemma lower_char_idem [simp]: "lower_char (lower_char c) = lower_char c"
  by (simp add: lower_char_def [of "lower_char c"])

lemma lower_u8_idem [simp]: "lower_u8 (lower_u8 b) = lower_u8 b"
  by (simp flip: byte_char_inject add: byte_char_lower_u8)

lemma to_ascii_lowercase_idem [simp]: "to_ascii_lowercase (to_ascii_lowercase s) = to_ascii_lowercase s"
  by (simp add: to_ascii_lowercase_def comp_def)

lemma length_to_ascii_lowercase [simp]: "length (to_ascii_lowercase s) = length s"
  by (simp add: to_ascii_lowercase_def)

end
