(* ===== verification/Rust_Str.thy ===== *)
theory Rust_Str
  imports Prelude
begin

text \<open>
  The operations of Rust's \<open>str\<close> that the code calls, on UTF-8 byte strings: trimming of
  Unicode white space and of given characters, prefixes and suffixes, \<open>find\<close>, \<open>split\<close>, and
  decimal printing. Slices at the position of an ASCII character are always at a character
  boundary, so they are plain \<open>take\<close> and \<open>drop\<close> here; where the code slices at a computed
  byte offset, \<open>str_slice_to\<close> keeps the panic.
\<close>

section \<open>White space\<close>

text \<open>The UTF-8 encodings of the characters with \<open>char::is_whitespace\<close>.\<close>

definition ws_char :: "string \<Rightarrow> bool" where
  "ws_char s = (case map code s of
      [a] \<Rightarrow> 9 \<le> a \<and> a \<le> 13 \<or> a = 32
    | [a, b] \<Rightarrow> a = 0xC2 \<and> (b = 0x85 \<or> b = 0xA0)
    | [a, b, c] \<Rightarrow> a = 0xE1 \<and> b = 0x9A \<and> c = 0x80
        \<or> a = 0xE2 \<and> b = 0x80 \<and> (0x80 \<le> c \<and> c \<le> 0x8A \<or> c = 0xA8 \<or> c = 0xA9 \<or> c = 0xAF)
        \<or> a = 0xE2 \<and> b = 0x81 \<and> c = 0x9F
        \<or> a = 0xE3 \<and> b = 0x80 \<and> c = 0x80
    | _ \<Rightarrow> False)"

definition ws_width_start :: "string \<Rightarrow> nat" where
  "ws_width_start s = (if ws_char (take 1 s) then 1 else if ws_char (take 2 s) then 2
                       else if ws_char (take 3 s) then 3 else 0)"

definition ws_width_end :: "string \<Rightarrow> nat" where
  "ws_width_end s = (if ws_char (drop (length s - 1) s) then 1
                     else if ws_char (drop (length s - 2) s) then 2
                     else if ws_char (drop (length s - 3) s) then 3 else 0)"

lemma ws_char_Nil [simp]: "\<not> ws_char []"
  by (simp add: ws_char_def)

lemma ws_width_start_Nil [simp]: "ws_width_start [] = 0"
  by (simp add: ws_width_start_def)

lemma ws_width_end_Nil [simp]: "ws_width_end [] = 0"
  by (simp add: ws_width_end_def)

function trim_start :: "string \<Rightarrow> string" where
  "trim_start s = (if ws_width_start s = 0 then s else trim_start (drop (ws_width_start s) s))"
  by pat_completeness auto
termination
proof (relation "measure length")
  show "wf (measure (length :: string \<Rightarrow> nat))" by simp
next
  fix s :: string assume "ws_width_start s \<noteq> 0"
  then show "(drop (ws_width_start s) s, s) \<in> measure length" by (cases s) auto
qed

function trim_end :: "string \<Rightarrow> string" where
  "trim_end s = (if ws_width_end s = 0 then s else trim_end (take (length s - ws_width_end s) s))"
  by pat_completeness auto
termination
proof (relation "measure length")
  show "wf (measure (length :: string \<Rightarrow> nat))" by simp
next
  fix s :: string assume "ws_width_end s \<noteq> 0"
  then show "(take (length s - ws_width_end s) s, s) \<in> measure length" by (cases s) auto
qed

declare trim_start.simps [simp del] trim_end.simps [simp del]

definition trim :: "string \<Rightarrow> string" where
  "trim s = trim_end (trim_start s)"

lemma trim_Nil [simp]: "trim [] = []"
  by (simp add: trim_def trim_start.simps trim_end.simps)

text \<open>A string that starts and ends with a visible ASCII character is already trimmed.\<close>

definition visible :: "char \<Rightarrow> bool" where
  "visible c \<longleftrightarrow> 33 \<le> code c \<and> code c \<le> 126"

lemma ws_char_not_visible: "ws_char s \<Longrightarrow> s \<noteq> [] \<and> \<not> visible (hd s) \<and> \<not> visible (last s)"
  by (cases s rule: list.exhaust)
    (auto simp: ws_char_def visible_def split: list.splits)

lemma trim_start_visible: "s = [] \<or> visible (hd s) \<Longrightarrow> trim_start s = s"
proof (subst trim_start.simps)
  assume s: "s = [] \<or> visible (hd s)"
  have "\<not> ws_char (take n s)" for n
    using ws_char_not_visible [of "take n s"] s by (cases s; cases n) auto
  then show "(if ws_width_start s = 0 then s else trim_start (drop (ws_width_start s) s)) = s"
    by (simp add: ws_width_start_def)
qed

lemma trim_end_visible: "s = [] \<or> visible (last s) \<Longrightarrow> trim_end s = s"
proof (subst trim_end.simps)
  assume s: "s = [] \<or> visible (last s)"
  have "\<not> ws_char (drop n s)" for n
    using ws_char_not_visible [of "drop n s"] s by (cases "n < length s") (auto simp: last_drop)
  then show "(if ws_width_end s = 0 then s else trim_end (take (length s - ws_width_end s) s)) = s"
    by (simp add: ws_width_end_def)
qed

lemma trim_visible: "s = [] \<or> visible (hd s) \<and> visible (last s) \<Longrightarrow> trim s = s"
  by (auto simp: trim_def trim_start_visible trim_end_visible)

section \<open>Trimming characters, prefixes, suffixes\<close>

definition trim_start_char :: "char \<Rightarrow> string \<Rightarrow> string" where
  "trim_start_char c s = dropWhile (\<lambda>x. x = c) s"

definition trim_end_char :: "char \<Rightarrow> string \<Rightarrow> string" where
  "trim_end_char c s = rev (dropWhile (\<lambda>x. x = c) (rev s))"

definition starts_with :: "string \<Rightarrow> string \<Rightarrow> bool" where
  "starts_with s p \<longleftrightarrow> take (length p) s = p"

definition ends_with :: "string \<Rightarrow> string \<Rightarrow> bool" where
  "ends_with s t \<longleftrightarrow> length t \<le> length s \<and> drop (length s - length t) s = t"

definition strip_prefix :: "string \<Rightarrow> string \<Rightarrow> string option" where
  "strip_prefix s p = (if starts_with s p then Some (drop (length p) s) else None)"

lemma starts_with_append [simp]: "starts_with (p @ s) p"
  by (simp add: starts_with_def)

lemma starts_with_iff: "starts_with s p \<longleftrightarrow> (\<exists>t. s = p @ t)"
  unfolding starts_with_def by (metis append_eq_conv_conj append_take_drop_id)

lemma ends_with_iff: "ends_with s t \<longleftrightarrow> (\<exists>p. s = p @ t)"
  unfolding ends_with_def
proof
  assume "length t \<le> length s \<and> drop (length s - length t) s = t"
  then show "\<exists>p. s = p @ t" by (metis append_take_drop_id)
qed auto

lemma ends_with_append [simp]: "ends_with (s @ t) t"
  by (auto simp: ends_with_iff)

lemma strip_prefix_append [simp]: "strip_prefix (p @ s) p = Some s"
  by (simp add: strip_prefix_def)

lemma trim_end_char_idem [simp]: "trim_end_char c (trim_end_char c s) = trim_end_char c s"
  by (simp add: trim_end_char_def)

lemma trim_end_char_last: "trim_end_char c s \<noteq> [] \<Longrightarrow> last (trim_end_char c s) \<noteq> c"
  using hd_dropWhile [of "\<lambda>x. x = c" "rev s"] by (simp add: trim_end_char_def last_rev)

lemma trim_end_char_id: "s = [] \<or> last s \<noteq> c \<Longrightarrow> trim_end_char c s = s"
  by (cases s rule: rev_cases) (auto simp: trim_end_char_def)

lemma trim_end_char_prefix: "\<exists>t. s = trim_end_char c s @ t \<and> set t \<subseteq> {c}"
proof -
  have "rev s = takeWhile (\<lambda>x. x = c) (rev s) @ dropWhile (\<lambda>x. x = c) (rev s)" by simp
  then have "s = trim_end_char c s @ rev (takeWhile (\<lambda>x. x = c) (rev s))"
    unfolding trim_end_char_def by (metis rev_append rev_rev_ident)
  moreover have "set (rev (takeWhile (\<lambda>x. x = c) (rev s))) \<subseteq> {c}"
    by (auto dest: set_takeWhileD)
  ultimately show ?thesis by blast
qed

lemma trim_end_char_lower:
  "lower_char c = c \<Longrightarrow> (\<And>x. lower_char x = c \<longleftrightarrow> x = c) \<Longrightarrow>
   trim_end_char c (to_ascii_lowercase s) = to_ascii_lowercase (trim_end_char c s)"
  by (simp add: trim_end_char_def to_ascii_lowercase_def rev_map dropWhile_map comp_def)

lemma lower_char_eq_dot [simp]: "lower_char x = CHR ''.'' \<longleftrightarrow> x = CHR ''.''"
  by (simp flip: code_inject add: code_lower_char is_upper_code_def) (simp add: code_def)

section \<open>find, split, decimal numbers\<close>

fun str_find :: "char \<Rightarrow> string \<Rightarrow> nat option" where
  "str_find c [] = None"
| "str_find c (x # xs) = (if x = c then Some 0 else map_option Suc (str_find c xs))"

fun str_find_sub :: "string \<Rightarrow> string \<Rightarrow> nat option" where
  "str_find_sub p [] = (if p = [] then Some 0 else None)"
| "str_find_sub p (x # xs) = (if starts_with (x # xs) p then Some 0
                              else map_option Suc (str_find_sub p xs))"

fun split_char :: "char \<Rightarrow> string \<Rightarrow> string list" where
  "split_char c [] = [[]]"
| "split_char c (x # xs) = (if x = c then [] # split_char c xs
     else (case split_char c xs of [] \<Rightarrow> [[x]] | p # ps \<Rightarrow> (x # p) # ps))"

fun join_char :: "char \<Rightarrow> string list \<Rightarrow> string" where
  "join_char c [] = []"
| "join_char c [p] = p"
| "join_char c (p # ps) = p @ c # join_char c ps"

lemma str_find_None: "str_find c s = None \<longleftrightarrow> c \<notin> set s"
  by (induction s) auto

lemma str_find_Some: "str_find c s = Some i \<Longrightarrow> i < length s \<and> s ! i = c \<and> c \<notin> set (take i s)"
  by (induction s arbitrary: i) (auto split: if_splits)

lemma join_char_Cons: "join_char c (p # ps) = (if ps = [] then p else p @ c # join_char c ps)"
  by (cases ps) simp_all

lemma split_char_nonempty [simp]: "split_char c s \<noteq> []"
  by (induction s) (auto split: list.splits)

lemma join_split [simp]: "join_char c (split_char c s) = s"
proof (induction s)
  case (Cons x xs)
  then show ?case
    by (cases "split_char c xs"; cases "tl (split_char c xs)") (auto split: list.splits)
qed simp

lemma split_char_parts: "p \<in> set (split_char c s) \<Longrightarrow> c \<notin> set p"
  by (induction s arbitrary: p) (auto split: list.splits if_splits)

lemma split_char_append_sep:
  "c \<notin> set p \<Longrightarrow> split_char c (p @ c # s) = p # split_char c s"
  by (induction p) auto

lemma split_char_no_sep: "c \<notin> set p \<Longrightarrow> split_char c p = [p]"
  by (induction p) auto

lemma split_join: "ps \<noteq> [] \<Longrightarrow> \<forall>p \<in> set ps. c \<notin> set p \<Longrightarrow> split_char c (join_char c ps) = ps"
  by (induction c ps rule: join_char.induct) (auto simp: split_char_no_sep split_char_append_sep)

text \<open>\<open>format!("{}", n)\<close> of an unsigned integer.\<close>

definition digit_char :: "nat \<Rightarrow> char" where
  "digit_char n = char_of (48 + n)"

fun decimal :: "nat \<Rightarrow> string" where
  "decimal n = (if n < 10 then [digit_char n] else decimal (n div 10) @ [digit_char (n mod 10)])"

declare decimal.simps [simp del]

lemma code_digit_char: "n < 10 \<Longrightarrow> code (digit_char n) = 48 + n"
  by (simp add: digit_char_def code_def)

lemma digit_char_inject: "m < 10 \<Longrightarrow> n < 10 \<Longrightarrow> digit_char m = digit_char n \<longleftrightarrow> m = n"
  by (simp flip: code_inject add: code_digit_char)

lemma decimal_nonempty [simp]: "decimal n \<noteq> []" "[] \<noteq> decimal n"
  by (subst decimal.simps, simp)+

lemma decimal_digits: "c \<in> set (decimal n) \<Longrightarrow> is_digit_code (code c)"
proof (induction n rule: decimal.induct)
  case (1 n)
  then show ?case
    by (subst (asm) (2) decimal.simps) (auto simp: code_digit_char is_digit_code_def split: if_splits)
qed

lemma decimal_inject: "decimal m = decimal n \<longleftrightarrow> m = n"
proof (induction m arbitrary: n rule: decimal.induct)
  case (1 m)
  show ?case
  proof
    assume eq: "decimal m = decimal n"
    show "m = n"
    proof (cases "m < 10")
      case True
      with eq show ?thesis
        by (cases "n < 10")
          (simp_all add: decimal.simps [of m] decimal.simps [of n] digit_char_inject)
    next
      case False
      with eq have "\<not> n < 10"
        by (auto simp: decimal.simps [of m] decimal.simps [of n])
      with False eq have "decimal (m div 10) = decimal (n div 10)"
        and d: "digit_char (m mod 10) = digit_char (n mod 10)"
        by (simp_all add: decimal.simps [of m] decimal.simps [of n])
      with False "1" have "m div 10 = n div 10" by blast
      moreover from d have "m mod 10 = n mod 10" by (simp add: digit_char_inject)
      ultimately show ?thesis by (metis div_mod_decomp)
    qed
  qed simp
qed

text \<open>\<open>&s[..n]\<close> panics when \<open>n\<close> is past the end or inside a character.\<close>

definition char_boundary :: "string \<Rightarrow> nat \<Rightarrow> bool" where
  "char_boundary s n \<longleftrightarrow> n = 0 \<or> n = length s \<or>
     n < length s \<and> \<not> (0x80 \<le> code (s ! n) \<and> code (s ! n) < 0xC0)"

definition str_slice_to :: "string \<Rightarrow> nat \<Rightarrow> string rust" where
  "str_slice_to s n = (if char_boundary s n then ret (take n s) else panic)"

end
