(* ===== verification/Dns_Name.thy ===== *)
theory Dns_Name
  imports Rust_Str
begin

text \<open>
  Domain names on the wire, \<open>src/dns/parser.rs\<close>: the allocation-free walker
  \<open>skip_dns_name\<close>, the decoder \<open>parse_name_with_offset_opts\<close> with compression
  pointers, its strict and its 8-bit label modes with the RFC 1035 presentation escapes,
  and the way back: \<open>split_domain_labels\<close> and \<open>unescape_label_to_bytes\<close>.

  The lemmas show that no byte string makes a walker or the decoder panic, where they stop,
  that the two agree on where a name ends, and that escaping then unescaping a label gives
  the label back in lower case.
\<close>

section \<open>UTF-8, as std::str::from_utf8 checks it\<close>

text \<open>
  The width of the well-formed UTF-8 sequence at the head of a byte string, 0 when there is
  none (the Unicode standard's table 3-7, which \<open>core::str::validations\<close> follows).
\<close>

definition is_cont :: "u8 \<Rightarrow> bool" where
  "is_cont b \<longleftrightarrow> 0x80 \<le> unat b \<and> unat b \<le> 0xBF"

text \<open>The second byte has a narrower range after four lead bytes.\<close>

definition second_ok :: "nat \<Rightarrow> u8 \<Rightarrow> bool" where
  "second_ok a b \<longleftrightarrow>
     (if a = 0xE0 then 0xA0 \<le> unat b \<and> unat b \<le> 0xBF
      else if a = 0xED then 0x80 \<le> unat b \<and> unat b \<le> 0x9F
      else if a = 0xF0 then 0x90 \<le> unat b \<and> unat b \<le> 0xBF
      else if a = 0xF4 then 0x80 \<le> unat b \<and> unat b \<le> 0x8F
      else is_cont b)"

definition utf8_width :: "bytes \<Rightarrow> nat" where
  "utf8_width bs =
    (if bs = [] then 0
     else let a = unat (bs ! 0) in
       if a < 0x80 then 1
       else if 0xC2 \<le> a \<and> a \<le> 0xDF \<and> 2 \<le> length bs \<and> is_cont (bs ! 1) then 2
       else if 0xE0 \<le> a \<and> a \<le> 0xEF \<and> 3 \<le> length bs \<and> second_ok a (bs ! 1) \<and> is_cont (bs ! 2)
       then 3
       else if 0xF0 \<le> a \<and> a \<le> 0xF4 \<and> 4 \<le> length bs \<and> second_ok a (bs ! 1) \<and> is_cont (bs ! 2)
         \<and> is_cont (bs ! 3) then 4
       else 0)"

text \<open>\<open>Utf8Error::valid_up_to\<close>; the whole string is valid when it is the length.\<close>

function utf8_valid_up_to :: "bytes \<Rightarrow> nat" where
  "utf8_valid_up_to bs =
     (if bs = [] \<or> utf8_width bs = 0 then 0
      else utf8_width bs + utf8_valid_up_to (drop (utf8_width bs) bs))"
  by pat_completeness auto
termination
  by (relation "measure length") auto

declare utf8_valid_up_to.simps [simp del]

lemma utf8_width_le: "utf8_width bs \<le> length bs"
  by (cases bs) (simp_all add: utf8_width_def Let_def)

text \<open>Every byte of a multi-byte sequence is outside ASCII.\<close>

lemma second_ok_high: "second_ok a b \<Longrightarrow> 128 \<le> unat b"
  by (auto simp: second_ok_def is_cont_def split: if_splits)

lemma is_cont_high: "is_cont b \<Longrightarrow> 128 \<le> unat b"
  by (simp add: is_cont_def)

lemma utf8_width_high:
  assumes "128 \<le> unat (bs ! 0)" and "i < utf8_width bs"
  shows "128 \<le> unat (bs ! i)"
proof -
  have "utf8_width bs \<le> 4" by (simp add: utf8_width_def Let_def)
  with assms(2) have "i \<in> {0, 1, 2, 3}" by auto
  with assms show ?thesis
    by (auto simp: utf8_width_def Let_def split: if_splits intro: second_ok_high is_cont_high)
qed

section \<open>The walker\<close>

text \<open>
  \<open>while pos < buf.len() && count < 128\<close>: the first argument is the number of rounds left
  (\<open>128 - count\<close>).
\<close>

fun skip_loop :: "nat \<Rightarrow> bytes \<Rightarrow> nat \<Rightarrow> nat option rust" where
  "skip_loop 0 buf pos = ret None"
| "skip_loop (Suc rounds) buf pos =
    (if pos < length buf then do {
       len \<leftarrow> rd buf pos;
       if len = 0 then ret (Some (pos + 1))
       else if len AND 0xC0 = 0xC0 then
         (if pos + 2 > length buf then ret None else ret (Some (pos + 2)))
       else if unat len > 63 \<or> pos + 1 + unat len > length buf then ret None
       else skip_loop rounds buf (pos + 1 + unat len)
     } else ret None)"

definition skip_dns_name :: "bytes \<Rightarrow> nat \<Rightarrow> nat option rust" where
  "skip_dns_name buf pos = skip_loop 128 buf pos"

section \<open>Labels in presentation form\<close>

definition hostname_byte :: "u8 \<Rightarrow> bool" where
  "hostname_byte b \<longleftrightarrow> is_alnum_code (unat b) \<or> unat b \<in> {45, 95, 42}"

text \<open>Strict RFC 1123 mode: a byte outside the hostname alphabet refuses the name.\<close>

fun strict_label :: "bytes \<Rightarrow> string option" where
  "strict_label [] = Some []"
| "strict_label (b # bs) =
    (if \<not> hostname_byte b then None
     else map_option (Cons (lower_char (byte_char b))) (strict_label bs))"

text \<open>\<open>write!(name, "\\{:03}", b)\<close>.\<close>

definition ddd_escape :: "u8 \<Rightarrow> string" where
  "ddd_escape b = [CHR 0x5C, digit_char (unat b div 100), digit_char (unat b div 10 mod 10),
                   digit_char (unat b mod 10)]"

text \<open>
  8-bit mode, on what is left of the label (\<open>label_bytes[i..]\<close>). A byte from \<open>0x80\<close> up starts
  a UTF-8 character when the rest of the label is valid UTF-8 or has a valid non-empty
  prefix; the character is emitted whole and \<open>i\<close> advances by its width.
\<close>

function escape_label :: "bytes \<Rightarrow> string" where
  "escape_label [] = []"
| "escape_label (b # bs) =
    (if hostname_byte b then lower_char (byte_char b) # escape_label bs
     else if unat b = 46 then CHR 0x5C # CHR 0x2E # escape_label bs
     else if unat b = 92 then CHR 0x5C # CHR 0x5C # escape_label bs
     else if 0x20 \<le> unat b \<and> unat b \<le> 0x7E then byte_char b # escape_label bs
     else if unat b < 0x20 \<or> unat b = 0x7F then ddd_escape b @ escape_label bs
     else (let valid_len = utf8_valid_up_to (b # bs) in
       if valid_len = length (b # bs) \<or> valid_len > 0
       then (let w = utf8_width (b # bs)
             in map byte_char (take w (b # bs)) @ escape_label (drop (w - 1) bs))
       else ddd_escape b @ escape_label bs))"
  by pat_completeness auto
termination
  by (relation "measure length") auto

declare escape_label.simps [simp del]

section \<open>The decoder\<close>

definition label_text :: "bool \<Rightarrow> bytes \<Rightarrow> string option" where
  "label_text allow_8bit label_bytes =
     (if allow_8bit then Some (escape_label label_bytes) else strict_label label_bytes)"

text \<open>\<open>if !name.is_empty() { name.push('.') }\<close>.\<close>

definition dotted :: "string \<Rightarrow> string" where
  "dotted name = (if name \<noteq> [] then name @ ''.'' else name)"

text \<open>
  One call is one round of the \<open>while\<close> loop with the loop's variables: position, name so
  far, jumps taken, the position after the name in the stream once it is known, and the
  counters that bound labels and wire length.
\<close>

function parse_name_loop ::
  "bytes \<Rightarrow> bool \<Rightarrow> nat \<Rightarrow> string \<Rightarrow> nat \<Rightarrow> nat option \<Rightarrow> nat \<Rightarrow> nat \<Rightarrow> (string \<times> nat) option rust" where
  "parse_name_loop buf allow_8bit pos name jumps next_pos label_count total_wire_len =
    (if pos < length buf then
       (if label_count + 1 > 128 \<or> jumps > 16 then ret None
        else do {
          len \<leftarrow> rd buf pos;
          if len = 0 then
            (if total_wire_len + 1 > 255 then ret None
             else ret (Some (name, unwrap_or (pos + 1) next_pos)))
          else if len AND 0xC0 = 0xC0 then
            (if pos + 1 \<ge> length buf then ret None
             else do {
               low \<leftarrow> rd buf (pos + 1);
               let ptr = push_bit 8 (unat (len AND 0x3F)) OR unat low;
               if ptr \<ge> length buf then ret None
               else parse_name_loop buf allow_8bit ptr name (jumps + 1)
                      (Some (unwrap_or (pos + 2) next_pos)) (label_count + 1) total_wire_len
             })
          else if len AND 0xC0 \<noteq> 0 then ret None
          else if unat len > 63 then ret None
          else if pos + 1 + unat len > length buf then ret None
          else if total_wire_len + (1 + unat len) > 255 then ret None
          else do {
            label_bytes \<leftarrow> slice buf (pos + 1) (pos + 1 + unat len);
            case label_text allow_8bit label_bytes of
              None \<Rightarrow> ret None
            | Some text \<Rightarrow>
                if length (dotted name @ text) > 1024 then ret None
                else parse_name_loop buf allow_8bit (pos + 1 + unat len) (dotted name @ text) jumps
                       next_pos (label_count + 1) (total_wire_len + (1 + unat len))
          }
        })
     else ret (Some (name, unwrap_or pos next_pos)))"
  by pat_completeness auto
termination
  by (relation "measure (\<lambda>(_, _, _, _, _, _, label_count, _). 128 - label_count)") auto

declare parse_name_loop.simps [simp del]

definition parse_name_with_offset_opts :: "bytes \<Rightarrow> nat \<Rightarrow> bool \<Rightarrow> (string \<times> nat) option rust" where
  "parse_name_with_offset_opts buf pos allow_8bit =
     parse_name_loop buf allow_8bit pos [] 0 None 0 0"

definition parse_name_with_offset :: "bytes \<Rightarrow> nat \<Rightarrow> (string \<times> nat) option rust" where
  "parse_name_with_offset buf pos = parse_name_with_offset_opts buf pos True"

section \<open>The walker never panics, makes progress and reads only what it skips\<close>

lemma skip_loop_total [simp]: "skip_loop n buf pos \<noteq> None"
  by (induction n arbitrary: pos) auto

lemma skip_loop_progress:
  "skip_loop n buf pos = Some (Some p) \<Longrightarrow> pos < p \<and> p \<le> length buf"
  by (induction n arbitrary: pos) (fastforce split: if_splits)+

lemma skip_loop_local:
  "skip_loop n buf pos = Some (Some p) \<Longrightarrow> same_between buf' buf pos p \<Longrightarrow>
   skip_loop n buf' pos = Some (Some p)"
proof (induction n arbitrary: pos)
  case (Suc n)
  let ?next = "pos + 1 + unat (buf ! pos)"
  note p = skip_loop_progress [OF Suc.prems(1)]
  with Suc.prems(2) have eq: "buf' ! pos = buf ! pos" "pos < length buf'" "pos < length buf" "p \<le> length buf'"
    by (auto simp: same_between_def)
  have "same_between buf' buf ?next p" using Suc.prems(2) by (rule same_between_sub) auto
  then show ?case
    using Suc.prems(1) eq p skip_loop_progress [of n buf ?next p] Suc.IH [of ?next]
    by (auto split: if_splits)
qed simp

lemma skip_dns_name_total [simp]: "skip_dns_name buf pos \<noteq> None"
  by (simp add: skip_dns_name_def)

lemma skip_dns_name_progress:
  "skip_dns_name buf pos = Some (Some p) \<Longrightarrow> pos < p \<and> p \<le> length buf"
  by (simp add: skip_dns_name_def skip_loop_progress)

lemma skip_dns_name_local:
  "skip_dns_name buf pos = Some (Some p) \<Longrightarrow> same_between buf' buf pos p \<Longrightarrow>
   skip_dns_name buf' pos = Some (Some p)"
  unfolding skip_dns_name_def by (rule skip_loop_local)

section \<open>The decoder, one round at a time\<close>

lemma parse_name_loop_total [simp]:
  "parse_name_loop buf a8 pos name j np lc tw \<noteq> None"
proof (induction buf a8 pos name j np lc tw rule: parse_name_loop.induct)
  case (1 buf a8 pos name j np lc tw)
  show ?case
    by (subst parse_name_loop.simps) (use 1 in \<open>auto simp: Let_def split: option.splits\<close>)
qed


definition pointer_target :: "bytes \<Rightarrow> nat \<Rightarrow> nat" where
  "pointer_target buf pos = push_bit 8 (unat (buf ! pos AND 0x3F)) OR unat (buf ! (pos + 1))"

lemma parse_step_end: "length buf \<le> pos \<Longrightarrow>
  parse_name_loop buf a8 pos name j np lc tw = Some (Some (name, unwrap_or pos np))"
  by (subst parse_name_loop.simps) simp

lemma parse_step_deep: "pos < length buf \<Longrightarrow> 128 \<le> lc \<or> 16 < j \<Longrightarrow>
  parse_name_loop buf a8 pos name j np lc tw = Some None"
  by (subst parse_name_loop.simps) auto

lemma parse_step_root: "pos < length buf \<Longrightarrow> lc < 128 \<Longrightarrow> j \<le> 16 \<Longrightarrow> buf ! pos = 0 \<Longrightarrow>
  parse_name_loop buf a8 pos name j np lc tw =
    (if 255 \<le> tw then Some None else Some (Some (name, unwrap_or (pos + 1) np)))"
  by (subst parse_name_loop.simps) simp

lemma parse_step_pointer: "pos < length buf \<Longrightarrow> lc < 128 \<Longrightarrow> j \<le> 16 \<Longrightarrow> 192 \<le> unat (buf ! pos) \<Longrightarrow>
  parse_name_loop buf a8 pos name j np lc tw =
    (if length buf \<le> pos + 1 then Some None
     else if length buf \<le> pointer_target buf pos then Some None
     else parse_name_loop buf a8 (pointer_target buf pos) name (j + 1)
            (Some (unwrap_or (pos + 2) np)) (lc + 1) tw)"
  by (subst parse_name_loop.simps) (auto simp: top_bits_pointer pointer_target_def Let_def)

lemma parse_step_reserved: "pos < length buf \<Longrightarrow> 64 \<le> unat (buf ! pos) \<Longrightarrow> unat (buf ! pos) < 192 \<Longrightarrow>
  parse_name_loop buf a8 pos name j np lc tw = Some None"
  by (subst parse_name_loop.simps) (auto simp: top_bits_pointer top_bits_zero)

lemma parse_step_label: "pos < length buf \<Longrightarrow> lc < 128 \<Longrightarrow> j \<le> 16 \<Longrightarrow> buf ! pos \<noteq> 0 \<Longrightarrow>
  unat (buf ! pos) < 64 \<Longrightarrow>
  parse_name_loop buf a8 pos name j np lc tw =
    (let len = unat (buf ! pos) in
     if length buf < pos + 1 + len \<or> 255 < tw + (1 + len) then Some None
     else case label_text a8 (take len (drop (pos + 1) buf)) of None \<Rightarrow> Some None
       | Some text \<Rightarrow> if 1024 < length (dotted name @ text) then Some None
           else parse_name_loop buf a8 (pos + 1 + len) (dotted name @ text) j np (lc + 1) (tw + (1 + len)))"
  by (subst parse_name_loop.simps) (simp add: top_bits_pointer top_bits_zero Let_def del: length_append)
text \<open>
  The successful runs of the decoder as a relation: one rule per way a round can go on.
  Facts about decoded names are rule inductions over it.
\<close>

inductive decodes ::
  "bytes \<Rightarrow> bool \<Rightarrow> nat \<Rightarrow> string \<Rightarrow> nat \<Rightarrow> nat option \<Rightarrow> nat \<Rightarrow> nat \<Rightarrow> string \<Rightarrow> nat \<Rightarrow> bool"
  for buf allow_8bit where
  off_end: "length buf \<le> pos \<Longrightarrow>
    decodes buf allow_8bit pos name jumps next_pos count wire name (unwrap_or pos next_pos)"
| root: "pos < length buf \<Longrightarrow> count < 128 \<Longrightarrow> jumps \<le> 16 \<Longrightarrow> buf ! pos = 0 \<Longrightarrow> wire < 255 \<Longrightarrow>
    decodes buf allow_8bit pos name jumps next_pos count wire name (unwrap_or (pos + 1) next_pos)"
| pointer: "pos + 1 < length buf \<Longrightarrow> count < 128 \<Longrightarrow> jumps \<le> 16 \<Longrightarrow> 192 \<le> unat (buf ! pos) \<Longrightarrow>
    ptr = pointer_target buf pos \<Longrightarrow> ptr < length buf \<Longrightarrow>
    decodes buf allow_8bit ptr name (jumps + 1) (Some (unwrap_or (pos + 2) next_pos)) (count + 1)
      wire n p \<Longrightarrow>
    decodes buf allow_8bit pos name jumps next_pos count wire n p"
| label: "len = unat (buf ! pos) \<Longrightarrow> 0 < len \<Longrightarrow> len < 64 \<Longrightarrow> pos + 1 + len \<le> length buf \<Longrightarrow>
    count < 128 \<Longrightarrow> jumps \<le> 16 \<Longrightarrow> wire + (1 + len) \<le> 255 \<Longrightarrow>
    label_text allow_8bit (take len (drop (pos + 1) buf)) = Some text \<Longrightarrow>
    length (dotted name @ text) \<le> 1024 \<Longrightarrow>
    decodes buf allow_8bit (pos + 1 + len) (dotted name @ text) jumps next_pos (count + 1)
      (wire + (1 + len)) n p \<Longrightarrow>
    decodes buf allow_8bit pos name jumps next_pos count wire n p"

lemma parse_name_loop_decodes:
  "parse_name_loop buf a8 pos name j np lc tw = Some (Some (n, p)) \<Longrightarrow>
   decodes buf a8 pos name j np lc tw n p"
proof (induction "128 - lc" arbitrary: pos name j np lc tw rule: less_induct)
  case less
  note prem = less.prems
  show ?case
  proof (cases "pos < length buf")
    case False
    with prem show ?thesis by (auto simp: parse_step_end intro: decodes.off_end)
  next
    case in_buf: True
    with prem have small: "lc < 128" "j \<le> 16"
      using parse_step_deep [of pos buf lc j a8 name np tw] by (fastforce simp: not_le)+
    note here = in_buf small
    consider "buf ! pos = 0" | "192 \<le> unat (buf ! pos)"
      | "64 \<le> unat (buf ! pos)" "unat (buf ! pos) < 192"
      | "buf ! pos \<noteq> 0" "unat (buf ! pos) < 64"
      by linarith
    then show ?thesis
    proof cases
      case 1
      with prem here show ?thesis
        by (auto simp: parse_step_root split: if_splits intro: decodes.root [simplified])
    next
      case 2
      from prem [unfolded parse_step_pointer [OF here 2, of a8 name np tw]]
      have b: "pos + 1 < length buf" "pointer_target buf pos < length buf"
        and rec: "parse_name_loop buf a8 (pointer_target buf pos) name (j + 1)
          (Some (unwrap_or (pos + 2) np)) (lc + 1) tw = Some (Some (n, p))"
        by (simp_all split: if_splits)
      from here rec have "decodes buf a8 (pointer_target buf pos) name (j + 1)
          (Some (unwrap_or (pos + 2) np)) (lc + 1) tw n p"
        by (intro less.hyps) auto
      from decodes.pointer [OF b(1) here(2,3) 2 refl b(2) this] show ?thesis .
    next
      case 3
      with prem here show ?thesis by (simp add: parse_step_reserved)
    next
      case 4
      from prem [unfolded parse_step_label [OF here 4, of a8 name np tw]]
      obtain t where t: "label_text a8 (take (unat (buf ! pos)) (drop (pos + 1) buf)) = Some t"
        and b: "pos + 1 + unat (buf ! pos) \<le> length buf" "tw + (1 + unat (buf ! pos)) \<le> 255"
        and l: "length (dotted name @ t) \<le> 1024"
        and rec: "parse_name_loop buf a8 (pos + 1 + unat (buf ! pos)) (dotted name @ t) j np (lc + 1)
          (tw + (1 + unat (buf ! pos))) = Some (Some (n, p))"
        by (simp add: Let_def del: length_append split: if_splits option.splits)
      from here rec have "decodes buf a8 (pos + 1 + unat (buf ! pos)) (dotted name @ t) j np
          (lc + 1) (tw + (1 + unat (buf ! pos))) n p"
        by (intro less.hyps) auto
      from decodes.label [OF refl pos_nonzero [OF 4(1)] 4(2) b(1) here(2,3) b(2) t l this]
      show ?thesis .
    qed
  qed
qed

lemma decodes_bounds:
  "decodes buf a8 pos name j np lc tw n p \<Longrightarrow>
   (length name \<le> 1024 \<longrightarrow> length n \<le> 1024) \<and>
   (\<forall>q. np = Some q \<longrightarrow> p = q) \<and>
   (np = None \<longrightarrow> pos \<le> length buf \<longrightarrow> pos \<le> p \<and> p \<le> length buf)"
  by (induction rule: decodes.induct) (auto simp del: length_append)

lemma decodes_skip:
  "decodes buf a8 pos name j np lc tw n p \<Longrightarrow> np = None \<Longrightarrow> pos \<le> length buf \<Longrightarrow>
   skip_loop (128 - lc) buf pos = Some (Some p) \<or>
   skip_loop (128 - lc) buf pos = Some None \<and> p = length buf"
proof (induction rule: decodes.induct)
  case (off_end pos name j np lc tw)
  then show ?case by (cases "128 - lc") auto
next
  case (root pos lc j tw name np)
  then show ?case by (cases "128 - lc") auto
next
  case (pointer pos lc j ptr name np tw n p)
  then have "buf ! pos \<noteq> 0" "p = pos + 2" by (auto dest: decodes_bounds)
  with pointer show ?case by (cases "128 - lc") (auto simp: top_bits_pointer)
next
  case (label len pos lc j tw t name np n p)
  then obtain k where k: "128 - lc = Suc k" "128 - (lc + 1) = k"
    by (metis Suc_diff_Suc Suc_eq_plus1)
  from label have "buf ! pos \<noteq> 0" by auto
  with label k show ?case by (auto simp: top_bits_pointer)
qed

lemma parse_name_total [simp]: "parse_name_with_offset_opts buf pos a8 \<noteq> None"
  by (simp add: parse_name_with_offset_opts_def)

lemma parse_name_SomeD:
  assumes "parse_name_with_offset_opts buf pos a8 = Some (Some (n, p))"
  shows "length n \<le> 1024" and "pos \<le> length buf \<Longrightarrow> pos \<le> p \<and> p \<le> length buf"
    and "pos \<le> length buf \<Longrightarrow> p < length buf \<Longrightarrow> skip_dns_name buf pos = Some (Some p)"
proof -
  from assms have d: "decodes buf a8 pos [] 0 None 0 0 n p"
    unfolding parse_name_with_offset_opts_def by (rule parse_name_loop_decodes)
  from decodes_bounds [OF d] show "length n \<le> 1024" "pos \<le> length buf \<Longrightarrow> pos \<le> p \<and> p \<le> length buf"
    by auto
  show "pos \<le> length buf \<Longrightarrow> p < length buf \<Longrightarrow> skip_dns_name buf pos = Some (Some p)"
    using decodes_skip [OF d] by (auto simp: skip_dns_name_def)
qed

section \<open>Properties of the decoder\<close>

text \<open>
  C6: Decoding a name never panics, whatever the bytes and the start position; a decoded
  name is at most 1024 characters long and the position after it stays in the buffer.
\<close>

theorem name_decoder_safe:
  "\<exists>r. parse_name_with_offset_opts buf pos allow_8bit = ret r \<and>
     (\<forall>name next. r = Some (name, next) \<longrightarrow>
        length name \<le> 1024 \<and> (pos \<le> length buf \<longrightarrow> pos \<le> next \<and> next \<le> length buf))"
proof -
  obtain r where r: "parse_name_with_offset_opts buf pos allow_8bit = Some r"
    using parse_name_total [of buf pos allow_8bit] by blast
  with parse_name_SomeD(1,2) [of buf pos allow_8bit] show ?thesis by auto
qed

theorem name_decoder_safe_witness:
  "parse_name_with_offset_opts [3, 102, 79, 111, 0, 1, 120, 0xC0, 0] 5 True = ret (Some (''x.foo'', 9))
     \<and> length ''x.foo'' \<le> 1024 \<and> (5 :: nat) \<le> 9 \<and> 9 \<le> length [3, 102, 79, 111, 0, 1, 120, 0xC0, 0 :: u8]"
proof -
  have run: "parse_name_with_offset_opts [3, 102, 79, 111, 0, 1, 120, 0xC0, 0] 5 True =
      ret (Some (''x.foo'', 9))" by code_simp
  with name_decoder_safe [of "[3, 102, 79, 111, 0, 1, 120, 0xC0, 0]" 5 True] show ?thesis by simp
qed

text \<open>
  The decoder and the allocation-free walker agree: when a name decodes, the walker
  stops at the same position, or the name runs to the end of the buffer without a
  terminator, where the walker refuses it and the decoder does not.
\<close>

theorem walkers_agree:
  assumes "pos \<le> length buf" and "parse_name_with_offset_opts buf pos allow_8bit = ret (Some (name, next))"
  shows "skip_dns_name buf pos = ret (Some next) \<or>
    skip_dns_name buf pos = ret None \<and> next = length buf"
proof -
  from assms(2) have "decodes buf allow_8bit pos [] 0 None 0 0 name next"
    unfolding parse_name_with_offset_opts_def by (rule parse_name_loop_decodes)
  from decodes_skip [OF this refl assms(1)] show ?thesis by (simp add: skip_dns_name_def)
qed

theorem walkers_agree_witness:
  "skip_dns_name [3, 102, 79, 111] 0 = ret None
     \<and> parse_name_with_offset_opts [3, 102, 79, 111] 0 True = ret (Some (''foo'', 4))"
proof -
  have run: "parse_name_with_offset_opts [3, 102, 79, 111] 0 True = ret (Some (''foo'', 4))" by code_simp
  moreover have "skip_dns_name [3, 102, 79, 111] 0 \<noteq> ret (Some 4)" by code_simp
  ultimately show ?thesis using walkers_agree [OF _ run] by simp
qed

end
