(* ===== verification/Dns_Presentation.thy ===== *)
theory Dns_Presentation
  imports Dns_Name
begin

text \<open>
  From presentation form back to wire bytes, \<open>src/dns/parser.rs\<close>:
  \<open>split_domain_labels\<close> cuts a name at its unescaped dots and \<open>unescape_label_to_bytes\<close>
  undoes the escapes. Both scan characters; on UTF-8 bytes the scan is the same, because
  the dot, the backslash and the digits are ASCII and no other byte of a character is.

  Main results: escaping a label and unescaping it gives the label in lower case, splitting
  the presentation of a name gives its escaped labels, and the decoder inverts the wire
  encoding of every name RFC 1035 allows.
\<close>

section \<open>Splitting and unescaping\<close>

fun split_loop :: "string \<Rightarrow> string \<Rightarrow> bool \<Rightarrow> string list" where
  "split_loop [] current escaped = (if current \<noteq> [] then [current] else [])"
| "split_loop (ch # cs) current escaped =
    (if escaped then split_loop cs (current @ [ch]) False
     else if ch = CHR 0x5C then split_loop cs (current @ [ch]) True
     else if ch = CHR ''.'' then
       (if current \<noteq> [] then current # split_loop cs [] False else split_loop cs [] False)
     else split_loop cs (current @ [ch]) False)"

definition split_domain_labels :: "string \<Rightarrow> string list" where
  "split_domain_labels domain =
    (let clean = trim domain in
     if clean = [] \<or> clean = ''.'' then [] else split_loop clean [] False)"

text \<open>Three decimal digits whose value fits a byte, at the head of the rest of the label.\<close>

definition ddd_value :: "string \<Rightarrow> u8 option" where
  "ddd_value cs = (case cs of
      c1 # c2 # c3 # _ \<Rightarrow>
        if is_digit_code (code c1) \<and> is_digit_code (code c2) \<and> is_digit_code (code c3) then
          (let v = 100 * (code c1 - 48) + 10 * (code c2 - 48) + (code c3 - 48)
           in if v \<le> 255 then Some (word_of_nat v) else None)
        else None
    | _ \<Rightarrow> None)"

function unescape_label_to_bytes :: "string \<Rightarrow> bytes" where
  "unescape_label_to_bytes [] = []"
| "unescape_label_to_bytes (ch # cs) =
    (if ch = CHR 0x5C then
       (case ddd_value cs of
          Some v \<Rightarrow> v # unescape_label_to_bytes (drop 3 cs)
        | None \<Rightarrow> (case cs of [] \<Rightarrow> [] | d # ds \<Rightarrow> char_byte d # unescape_label_to_bytes ds))
     else char_byte ch # unescape_label_to_bytes cs)"
  by pat_completeness auto
termination
  by (relation "measure length") auto

section \<open>Pieces of an escaped label\<close>

text \<open>How one step of \<open>escape_label\<close> maps wire bytes to characters.\<close>

inductive piece :: "bytes \<Rightarrow> string \<Rightarrow> bool" where
  plain: "c = lower_char (byte_char b) \<Longrightarrow> c \<noteq> CHR 0x5C \<Longrightarrow> c \<noteq> CHR ''.'' \<Longrightarrow> piece [b] [c]"
| quoted: "c = byte_char b \<Longrightarrow> c = CHR 0x5C \<or> c = CHR ''.'' \<Longrightarrow> piece [b] [CHR 0x5C, c]"
| numeric: "\<not> is_upper_code (unat b) \<Longrightarrow> piece [b] (ddd_escape b)"
| utf8: "bs \<noteq> [] \<Longrightarrow> \<forall>x \<in> set bs. 128 \<le> unat x \<Longrightarrow> piece bs (map byte_char bs)"

lemma byte_char_eq: "byte_char b = c \<longleftrightarrow> unat b = code c"
  by (metis code_byte_char code_inject)

lemma code_special [simp]: "code (CHR 0x5C) = 92" "code (CHR ''.'') = 46"
  by (simp_all add: code_def)

lemma utf8_valid_prefix: "0 < utf8_valid_up_to bs \<Longrightarrow> 0 < utf8_width bs"
  by (subst (asm) utf8_valid_up_to.simps) (auto split: if_splits)

lemma escape_label_step:
  assumes "bs \<noteq> []"
  obtains xs rest s where "bs = xs @ rest" "xs \<noteq> []" "piece xs s" "escape_label bs = s @ escape_label rest"
proof (cases bs)
  case (Cons b bs')
  note eq = escape_label.simps(2) [of b bs']
  have lower_plain: "lower_char (byte_char b) \<noteq> CHR 0x5C \<and> lower_char (byte_char b) \<noteq> CHR ''.''"
    if "unat b \<noteq> 92" "unat b \<noteq> 46"
    using that by (auto simp flip: code_inject simp add: code_lower_char is_upper_code_def)
  have not_special: "unat b \<noteq> 92 \<and> unat b \<noteq> 46" if "hostname_byte b"
    using that by (auto simp: hostname_byte_def is_alnum_code_def is_alpha_code_def is_digit_code_def)
  have upper_host: "hostname_byte b" if "is_upper_code (unat b)"
    using that by (simp add: hostname_byte_def is_alnum_code_def is_alpha_code_def is_upper_code_def)
  let ?v = "utf8_valid_up_to (b # bs')" and ?w = "utf8_width (b # bs')"
  consider (host) "hostname_byte b" | (dot) "\<not> hostname_byte b" "unat b = 46 \<or> unat b = 92"
    | (print) "\<not> hostname_byte b" "unat b \<noteq> 46" "unat b \<noteq> 92" "32 \<le> unat b" "unat b \<le> 126"
    | (ctrl) "\<not> hostname_byte b" "unat b < 32 \<or> unat b = 127"
    | (high) "\<not> hostname_byte b" "128 \<le> unat b" "0 < ?v"
    | (bad) "\<not> hostname_byte b" "128 \<le> unat b" "?v = 0"
    by linarith
  then show ?thesis
  proof cases
    case host
    with lower_plain Cons eq show ?thesis
      by (intro that [of "[b]" bs' "[lower_char (byte_char b)]"]) (auto simp: not_special intro!: piece.plain)
  next
    case dot
    then have c: "byte_char b = (if unat b = 46 then CHR ''.'' else CHR 0x5C)"
      by (auto simp: byte_char_eq)
    with dot Cons eq show ?thesis
      by (intro that [of "[b]" bs' "[CHR 0x5C, byte_char b]"] piece.quoted) auto
  next
    case print
    then have "lower_char (byte_char b) = byte_char b"
      using upper_host by (auto simp: lower_char_def)
    with print Cons eq lower_plain show ?thesis
      by (intro that [of "[b]" bs' "[byte_char b]"]) (auto intro!: piece.plain)
  next
    case ctrl
    with Cons eq upper_host show ?thesis
      by (intro that [of "[b]" bs' "ddd_escape b"]) (auto intro!: piece.numeric)
  next
    case high
    then have w: "0 < ?w" by (blast dest: utf8_valid_prefix)
    have le: "?w \<le> length (b # bs')" by (rule utf8_width_le)
    have "128 \<le> unat x" if "x \<in> set (take ?w (b # bs'))" for x
      using that le high(2) utf8_width_high [of "b # bs'"] by (auto simp: in_set_conv_nth)
    then have all: "\<forall>x \<in> set (take ?w (b # bs')). 128 \<le> unat x" by blast
    have "drop ?w (b # bs') = drop (?w - 1) bs'" using w by (cases ?w) auto
    with eq Cons high have e: "escape_label bs = map byte_char (take ?w (b # bs')) @ escape_label (drop ?w (b # bs'))"
      by (simp add: Let_def)
    have split: "bs = take ?w (b # bs') @ drop ?w (b # bs')" "take ?w (b # bs') \<noteq> []"
      using Cons w by (simp_all only: append_take_drop_id) simp
    show ?thesis by (rule that [OF split piece.utf8 [OF split(2) all] e])
  next
    case bad
    with Cons eq upper_host show ?thesis
      by (intro that [of "[b]" bs' "ddd_escape b"]) (auto intro!: piece.numeric)
  qed
qed (use assms in simp)

text \<open>Every fact about escaped labels is an induction over their pieces.\<close>

lemma escape_label_pieces [case_names Nil piece]:
  assumes nil: "P [] []"
    and step: "\<And>xs s rest. xs \<noteq> [] \<Longrightarrow> piece xs s \<Longrightarrow> P rest (escape_label rest) \<Longrightarrow>
      P (xs @ rest) (s @ escape_label rest)"
  shows "P bs (escape_label bs)"
proof (induction bs rule: length_induct)
  case (1 bs)
  show ?case
  proof (cases "bs = []")
    case True
    with nil show ?thesis by (simp add: escape_label.simps)
  next
    case False
    then obtain xs rest s where "bs = xs @ rest" "xs \<noteq> []" "piece xs s"
      and "escape_label bs = s @ escape_label rest"
      by (rule escape_label_step)
    with 1 step show ?thesis by simp
  qed
qed

section \<open>Pieces survive splitting and unescaping\<close>

text \<open>A string the splitter copies whole into the current label.\<close>

definition opaque :: "string \<Rightarrow> bool" where
  "opaque s \<longleftrightarrow> (\<forall>current rest. split_loop (s @ rest) current False = split_loop rest (current @ s) False)"

text \<open>A string that unescapes to the given bytes, whatever follows it.\<close>

definition unescapes_to :: "string \<Rightarrow> bytes \<Rightarrow> bool" where
  "unescapes_to s bs \<longleftrightarrow>
     (\<forall>rest. unescape_label_to_bytes (s @ rest) = bs @ unescape_label_to_bytes rest)"

lemma opaque_append: "opaque s \<Longrightarrow> opaque t \<Longrightarrow> opaque (s @ t)"
  by (simp add: opaque_def)

lemma unescapes_to_append:
  "unescapes_to s xs \<Longrightarrow> unescapes_to t ys \<Longrightarrow> unescapes_to (s @ t) (xs @ ys)"
  by (simp add: unescapes_to_def)

lemma opaque_Nil [simp]: "opaque []"
  by (simp add: opaque_def)

lemma unescapes_to_Nil [simp]: "unescapes_to [] []"
  by (simp add: unescapes_to_def)

lemma three_digits: "100 * (n div 100) + 10 * (n div 10 mod 10) + n mod 10 = (n :: nat)"
proof -
  have reassoc: "100 * x + 10 * y + z = 10 * (10 * x + y) + z" for x y z :: nat by simp
  have "n div 100 = n div 10 div 10" by (simp add: div_mult2_eq)
  then show ?thesis by (simp only: reassoc mult_div_mod_eq)
qed

lemma ddd_digits: "unat (b :: u8) div 100 < 10" "unat b div 10 mod 10 < 10" "unat b mod 10 < 10"
  using unat_u8 [of b] by linarith+

lemma digit_char_special [simp]: "n < 10 \<Longrightarrow> digit_char n \<noteq> CHR 0x5C" "n < 10 \<Longrightarrow> digit_char n \<noteq> CHR ''.''"
  by (simp_all flip: code_inject add: code_digit_char)

lemma piece_opaque: "piece xs s \<Longrightarrow> opaque s"
proof (induction rule: piece.induct)
  case (numeric b)
  then show ?case by (simp add: opaque_def ddd_escape_def ddd_digits)
next
  case (utf8 bs)
  have "opaque (map byte_char ys)" if "\<forall>x \<in> set ys. 128 \<le> unat x" for ys
    using that by (induction ys) (auto simp: opaque_def byte_char_eq)
  with utf8 show ?case by blast
qed (auto simp: opaque_def)

lemma ddd_value_escape: "ddd_value (drop 1 (ddd_escape b) @ rest) = Some b"
proof -
  have "100 * (unat b div 100) + 10 * (unat b div 10 mod 10) + unat b mod 10 \<le> 255"
    using three_digits [of "unat b"] unat_u8 [of b] by linarith
  then show ?thesis
    using ddd_digits [of b]
    by (auto simp: ddd_value_def ddd_escape_def code_digit_char is_digit_code_def Let_def three_digits)
qed

lemma lower_u8_id: "\<not> is_upper_code (unat b) \<Longrightarrow> lower_u8 b = b"
  by (simp add: lower_u8_def)

lemma lower_u8_high: "128 \<le> unat b \<Longrightarrow> lower_u8 b = b"
  by (simp add: lower_u8_def is_upper_code_def)

lemma char_byte_lower_char [simp]: "char_byte (lower_char (byte_char b)) = lower_u8 b"
  by (simp flip: byte_char_lower_u8)

lemma unescape_plain: "c \<noteq> CHR 0x5C \<Longrightarrow> unescapes_to [c] [char_byte c]"
  by (simp add: unescapes_to_def)

lemma piece_unescapes: "piece xs s \<Longrightarrow> unescapes_to s (map lower_u8 xs)"
proof (induction rule: piece.induct)
  case (plain c b)
  then show ?case using unescape_plain [of c] by simp
next
  case (quoted c b)
  then have "unat b = 92 \<or> unat b = 46" by (auto simp: byte_char_eq)
  moreover from this have "ddd_value (c # rest) = None" for rest
    using quoted by (auto simp: ddd_value_def is_digit_code_def split: list.splits)
  ultimately show ?case
    using quoted by (auto simp: unescapes_to_def lower_u8_id is_upper_code_def)
next
  case (numeric b)
  have "unescape_label_to_bytes (ddd_escape b @ rest) = b # unescape_label_to_bytes rest" for rest
    using ddd_value_escape [of b rest] by (simp add: ddd_escape_def)
  with numeric show ?case by (simp add: unescapes_to_def lower_u8_id)
next
  case (utf8 bs)
  have "unescapes_to (map byte_char ys) (map lower_u8 ys)" if "\<forall>x \<in> set ys. 128 \<le> unat x" for ys
    using that by (induction ys) (auto simp: unescapes_to_def byte_char_eq lower_u8_id is_upper_code_def)
  with utf8 show ?case by blast
qed

lemma piece_length: "piece xs s \<Longrightarrow> s \<noteq> [] \<and> length s \<le> 4 * length xs"
  by (induction rule: piece.induct) (auto simp: ddd_escape_def)

lemma escape_label_opaque: "opaque (escape_label bs)"
  by (induction bs rule: escape_label_pieces)
    (auto simp: opaque_append piece_opaque)

lemma length_escape_label: "length (escape_label bs) \<le> 4 * length bs"
  by (induction bs rule: escape_label_pieces) (auto dest: piece_length)

lemma escape_label_Nil [simp]: "escape_label bs = [] \<longleftrightarrow> bs = []"
proof (cases "bs = []")
  case False
  then show ?thesis by (rule escape_label_step) (auto dest: piece_length)
qed (simp add: escape_label.simps)

lemma escape_label_unescapes: "unescapes_to (escape_label bs) (map lower_u8 bs)"
  by (induction bs rule: escape_label_pieces)
    (auto simp: unescapes_to_append piece_unescapes)

lemma unescape_escape: "unescape_label_to_bytes (escape_label bs) = map lower_u8 bs"
  using escape_label_unescapes [of bs] unescape_label_to_bytes.simps(1)
  unfolding unescapes_to_def by (metis append.right_neutral)

section \<open>Lower case does not change the presentation\<close>

lemma unat_lower_u8_range:
  "128 \<le> n \<Longrightarrow> n \<le> unat (lower_u8 b) \<longleftrightarrow> n \<le> unat b"
  "128 \<le> n \<Longrightarrow> unat (lower_u8 b) \<le> n \<longleftrightarrow> unat b \<le> n"
  "128 \<le> n \<Longrightarrow> unat (lower_u8 b) < n \<longleftrightarrow> unat b < n"
  "128 \<le> n \<Longrightarrow> unat (lower_u8 b) = n \<longleftrightarrow> unat b = n"
  by (auto simp: unat_lower_u8 is_upper_code_def)

lemma is_cont_lower [simp]: "is_cont (lower_u8 b) = is_cont b"
  by (simp add: is_cont_def unat_lower_u8_range)

lemma second_ok_lower: "second_ok (unat (lower_u8 a)) (lower_u8 b) = second_ok (unat a) b"
  by (simp add: second_ok_def unat_lower_u8_range)

lemma utf8_width_lower [simp]: "utf8_width (map lower_u8 bs) = utf8_width bs"
proof (cases "bs = []")
  case False
  then show ?thesis
    by (auto simp: utf8_width_def Let_def unat_lower_u8_range second_ok_lower not_less)
qed simp

lemma utf8_valid_up_to_lower [simp]: "utf8_valid_up_to (map lower_u8 bs) = utf8_valid_up_to bs"
proof (induction bs rule: utf8_valid_up_to.induct)
  case (1 bs)
  then show ?case
    by (simp add: utf8_valid_up_to.simps [of bs] utf8_valid_up_to.simps [of "map lower_u8 bs"] drop_map)
qed

lemma hostname_byte_lower [simp]: "hostname_byte (lower_u8 b) = hostname_byte b"
  by (auto simp: hostname_byte_def unat_lower_u8 is_upper_code_def is_alnum_code_def is_alpha_code_def
      is_digit_code_def)

lemma lower_u8_other: "\<not> hostname_byte b \<Longrightarrow> lower_u8 b = b"
  by (auto simp: hostname_byte_def lower_u8_def is_upper_code_def is_alnum_code_def is_alpha_code_def)

lemma escape_label_lower: "escape_label (map lower_u8 bs) = escape_label bs"
proof (induction bs rule: escape_label.induct)
  case (2 b bs)
  show ?case
  proof (cases "hostname_byte b")
    case True
    with 2 show ?thesis by (simp add: escape_label.simps byte_char_lower_u8)
  next
    case False
    then have low: "lower_u8 b = b" by (rule lower_u8_other)
    have v: "utf8_valid_up_to (b # map lower_u8 bs) = utf8_valid_up_to (b # bs)"
      "utf8_width (b # map lower_u8 bs) = utf8_width (b # bs)"
      using utf8_valid_up_to_lower [of "b # bs"] utf8_width_lower [of "b # bs"] low by simp_all
    have high: "map byte_char (take (utf8_width (b # bs)) (b # map lower_u8 bs)) =
        map byte_char (take (utf8_width (b # bs)) (b # bs))" if "128 \<le> unat b"
    proof -
      have "lower_u8 x = x" if "x \<in> set (take (utf8_width (b # bs)) (b # bs))" for x
      proof -
        from that obtain i where "i < utf8_width (b # bs)" "x = (b # bs) ! i"
          by (auto simp: in_set_conv_nth)
        then show ?thesis
          using utf8_width_high [of "b # bs" i] \<open>128 \<le> unat b\<close> by (simp add: lower_u8_high)
      qed
      then have "map lower_u8 (take (utf8_width (b # bs)) (b # bs)) = take (utf8_width (b # bs)) (b # bs)"
        by (rule map_idI)
      moreover have "b # map lower_u8 bs = map lower_u8 (b # bs)" using low by simp
      ultimately show ?thesis by (simp only: take_map)
    qed
    show ?thesis
      using 2 False low v high
      by (simp add: escape_label.simps drop_map Let_def del: utf8_valid_up_to_lower)
  qed
qed simp

section \<open>Wire encoding and the round trip\<close>

text \<open>The RFC 1035 wire form of a name without compression, and its presentation.\<close>

definition encode_label :: "bytes \<Rightarrow> bytes" where
  "encode_label l = word_of_nat (length l) # l"

definition encode_name :: "bytes list \<Rightarrow> bytes" where
  "encode_name ls = concat (map encode_label ls) @ [0]"

definition render_name :: "bytes list \<Rightarrow> string" where
  "render_name ls = join_char CHR ''.'' (map escape_label ls)"

definition wire_labels :: "bytes list \<Rightarrow> bool" where
  "wire_labels ls \<longleftrightarrow> (\<forall>l \<in> set ls. 0 < length l \<and> length l \<le> 63) \<and> length (encode_name ls) \<le> 255"

lemma length_encode_label [simp]: "length (encode_label l) = Suc (length l)"
  by (simp add: encode_label_def)

lemma length_labels: "length (concat (map encode_label ls)) = length ls + length (concat ls)"
  by (induction ls) auto

lemma length_encode_name: "length (encode_name ls) = length ls + length (concat ls) + 1"
  by (simp add: encode_name_def length_labels)

text \<open>The name the decoder has built after the labels \<open>ls\<close>, from \<open>name\<close>.\<close>

fun render_from :: "string \<Rightarrow> bytes list \<Rightarrow> string" where
  "render_from name [] = name"
| "render_from name (l # ls) = render_from (dotted name @ escape_label l) ls"

lemma render_from_nonempty:
  "name \<noteq> [] \<Longrightarrow> render_from name ls = (if ls = [] then name else name @ ''.'' @ render_name ls)"
proof (induction ls arbitrary: name)
  case (Cons l ls)
  then show ?case
    using Cons.IH [of "dotted name @ escape_label l"]
    by (simp add: dotted_def render_name_def join_char_Cons)
qed simp

lemma render_from_Nil: "\<forall>l \<in> set ls. l \<noteq> [] \<Longrightarrow> render_from [] ls = render_name ls"
proof (cases ls)
  case (Cons l ls')
  assume "\<forall>l \<in> set ls. l \<noteq> []"
  with Cons show ?thesis
    by (simp add: dotted_def render_name_def render_from_nonempty join_char_Cons)
qed (simp add: render_name_def)

lemma parse_encoded_labels:
  "buf = pre @ concat (map encode_label ls) @ 0 # post \<Longrightarrow> pos = length pre \<Longrightarrow> j \<le> 16 \<Longrightarrow>
   \<forall>l \<in> set ls. 0 < length l \<and> length l \<le> 63 \<Longrightarrow>
   lc + length ls < 128 \<Longrightarrow> tw + length ls + length (concat ls) < 255 \<Longrightarrow>
   length name + length ls + 4 * length (concat ls) \<le> 1024 \<Longrightarrow>
   parse_name_loop buf True pos name j None lc tw =
     Some (Some (render_from name ls, pos + length ls + length (concat ls) + 1))"
proof (induction ls arbitrary: pre pos name lc tw)
  case Nil
  then show ?case by (simp add: parse_step_root nth_append)
next
  case (Cons l ls)
  let ?len = "length l"
  from Cons.prems have l: "0 < ?len" "?len \<le> 63" by auto
  have at: "buf ! pos = word_of_nat ?len" "pos < length buf" "pos + 1 + ?len \<le> length buf"
    using Cons.prems by (simp_all add: nth_append encode_label_def)
  have un: "unat (buf ! pos) = ?len" using l at by (simp add: unat_of_nat)
  have lab: "take ?len (drop (Suc pos) buf) = l"
    using Cons.prems by (simp add: encode_label_def)
  have bound: "length (dotted name @ escape_label l) \<le> length name + 1 + 4 * ?len"
    using length_escape_label [of l] by (simp add: dotted_def)
  with Cons.prems(7) have small: "length (dotted name @ escape_label l) \<le> 1024" by simp
  have nz: "buf ! pos \<noteq> 0" using un l by auto
  have room: "tw + length l \<le> 254" "lc < 128" using Cons.prems(5,6) by simp_all
  have "parse_name_loop buf True pos name j None lc tw =
      parse_name_loop buf True (pos + 1 + ?len) (dotted name @ escape_label l) j None (lc + 1) (tw + (1 + ?len))"
    using parse_step_label [of pos buf lc j True name None tw] at(2,3) un nz l small Cons.prems(3) room
    by (simp add: lab label_text_def Let_def del: length_append dotted_def)
  also have "\<dots> = Some (Some (render_from (dotted name @ escape_label l) ls,
      pos + 1 + ?len + length ls + length (concat ls) + 1))"
    using Cons.prems bound
    by (intro Cons.IH [of "pre @ encode_label l"]) auto
  finally show ?case by simp
qed

lemma parse_encode_name:
  assumes "wire_labels ls"
  shows "parse_name_with_offset (pre @ encode_name ls @ post) (length pre) =
     ret (Some (render_name ls, length pre + length (encode_name ls)))"
proof -
  from assms have l: "\<forall>l \<in> set ls. 0 < length l \<and> length l \<le> 63"
    and n: "length ls + length (concat ls) < 255"
    by (auto simp: wire_labels_def length_encode_name)
  have "length ls \<le> length (concat ls)" using l
    by (induction ls) (auto simp: neq_Nil_conv)
  with n have "length ls < 128" "length ls + 4 * length (concat ls) \<le> 1024" by linarith+
  with l n have "parse_name_loop (pre @ encode_name ls @ post) True (length pre) [] 0 None 0 0 =
     Some (Some (render_from [] ls, length pre + length ls + length (concat ls) + 1))"
    by (intro parse_encoded_labels [of _ pre ls post]) (auto simp: encode_name_def)
  moreover have "render_from [] ls = render_name ls" using l by (intro render_from_Nil) auto
  ultimately show ?thesis
    by (simp add: parse_name_with_offset_def parse_name_with_offset_opts_def length_encode_name)
qed

lemma split_rendered:
  "ls \<noteq> [] \<Longrightarrow> \<forall>l \<in> set ls. l \<noteq> [] \<Longrightarrow> split_loop (render_name ls) [] False = map escape_label ls"
proof (induction ls)
  case (Cons l ls)
  have op: "split_loop (escape_label l @ r) c False = split_loop r (c @ escape_label l) False" for r c
    using escape_label_opaque [of l] by (simp add: opaque_def)
  show ?case
  proof (cases ls)
    case Nil
    with Cons.prems op [of "[]" "[]"] show ?thesis by (simp add: render_name_def)
  next
    case (Cons k ks)
    with Cons.IH Cons.prems op show ?thesis by (simp add: render_name_def)
  qed
qed simp

lemma split_render_name:
  assumes "ls \<noteq> []" "\<forall>l \<in> set ls. l \<noteq> []" "trim (render_name ls) = render_name ls"
  shows "split_domain_labels (render_name ls) = map escape_label ls"
proof -
  from assms(1,2) have sp: "split_loop (render_name ls) [] False = map escape_label ls"
    by (rule split_rendered)
  with assms(1) have "render_name ls \<noteq> []" "render_name ls \<noteq> ''.''" by auto
  with sp assms(3) show ?thesis by (simp add: split_domain_labels_def Let_def)
qed

section \<open>Properties of the presentation form\<close>

text \<open>
  Escaping a label and unescaping it gives the label in lower case, for every octet
  string: binary octets, dots, backslashes and broken UTF-8 included.
\<close>

theorem label_escape_round_trip:
  "unescape_label_to_bytes (escape_label label_bytes) = map lower_u8 label_bytes"
  by (rule unescape_escape)

text \<open>
  C7: The decoder inverts the wire encoding of every name RFC 1035 allows (labels of 1 to 63
  octets, 255 octets in all), at any place in a message: it returns the presentation of
  the labels and the position right after the name.
\<close>

theorem name_decode_encode:
  assumes "wire_labels ls"
  shows "parse_name_with_offset (pre @ encode_name ls @ post) (length pre) =
     ret (Some (render_name ls, length pre + length (encode_name ls)))"
  using assms by (rule parse_encode_name)

theorem name_decode_encode_witness:
  "parse_name_with_offset ([7] @ encode_name [[0x2E], [0xC3, 0xA9, 0], [65]] @ [9]) 1 =
     ret (Some (render_name [[0x2E], [0xC3, 0xA9, 0], [65]], 10))"
proof -
  have "wire_labels [[0x2E], [0xC3, 0xA9, 0], [65]]" by code_simp
  from name_decode_encode [OF this, of "[7]" "[9]"] show ?thesis
    by (simp add: length_encode_name)
qed

end
