(* ===== verification/Wire_Walk.thy ===== *)
theory Wire_Walk
  imports Dns_Name
begin

text \<open>
  The loops that walk the sections of a message, \<open>src/dns/parser.rs\<close>. Eleven functions
  there repeat the same two loops: skip \<open>QDCOUNT\<close> questions (a name and 4 bytes), then skip
  answer and authority records (a name, 10 fixed bytes, \<open>RDLENGTH\<close> bytes). \<open>walk\<close> is
  \<open>for _ in 0..n { pos = step(buf, pos)? }\<close>; \<open>question_step\<close> and \<open>record_step\<close> are the bodies.

  The interface \<open>cursor\<close> states what a step promises (no panic, progress inside the buffer,
  dependence on the skipped bytes only) and what follows for every walk. It is interpreted
  on both bodies; the components that read sections rest on the interpretations.
\<close>

type_synonym step = "bytes \<Rightarrow> nat \<Rightarrow> nat option rust"

primrec walk :: "step \<Rightarrow> nat \<Rightarrow> bytes \<Rightarrow> nat \<Rightarrow> nat option rust" where
  "walk step 0 buf pos = ret (Some pos)"
| "walk step (Suc n) buf pos = do {
     r \<leftarrow> step buf pos;
     case r of None \<Rightarrow> ret None | Some p \<Rightarrow> walk step n buf p }"

definition question_step :: step where
  "question_step buf pos = do {
     r \<leftarrow> skip_dns_name buf pos;
     case r of None \<Rightarrow> ret None
     | Some p \<Rightarrow> (if p + 4 > length buf then ret None else ret (Some (p + 4))) }"

definition record_step :: step where
  "record_step buf pos = do {
     r \<leftarrow> skip_dns_name buf pos;
     case r of None \<Rightarrow> ret None
     | Some p \<Rightarrow>
         if p + 10 > length buf then ret None
         else do {
           rdlen \<leftarrow> rd16 buf (p + 8);
           if p + 10 + unat rdlen > length buf then ret None
           else ret (Some (p + 10 + unat rdlen)) } }"

definition count16 :: "bytes \<Rightarrow> nat \<Rightarrow> nat rust" where
  "count16 buf i = do { v \<leftarrow> rd16 buf i; ret (unat v) }"

lemma count16_ok [simp, wire_read]: "i + 1 < length buf \<Longrightarrow> count16 buf i = Some (unat (get16 buf i))"
  by (simp add: count16_def)

section \<open>A step depends on what follows its position only\<close>

abbreviation shifted :: "nat \<Rightarrow> nat option rust \<Rightarrow> nat option rust" where
  "shifted k r \<equiv> map_option (map_option ((+) k)) r"

lemma skip_loop_shift:
  "skip_loop n (xs @ ys) (length xs + k) = shifted (length xs) (skip_loop n ys k)"
proof (induction n arbitrary: k)
  case (Suc n)
  show ?case
    using Suc.IH [of "k + 1 + unat (ys ! k)"]
    by (cases "k < length ys") (auto simp: nth_append algebra_simps)
qed simp

lemma skip_dns_name_shift:
  "skip_dns_name (xs @ ys) (length xs + k) = shifted (length xs) (skip_dns_name ys k)"
  by (simp add: skip_dns_name_def skip_loop_shift)

lemma get16_shift: "get16 (xs @ ys) (length xs + k) = get16 ys k"
  by (simp add: get16_def nth_append)

lemma question_step_shift:
  "question_step (xs @ ys) (length xs + k) = shifted (length xs) (question_step ys k)"
  by (simp add: question_step_def skip_dns_name_shift split: Option.bind_split option.split)

lemma record_step_shift:
  "record_step (xs @ ys) (length xs + k) = shifted (length xs) (record_step ys k)"
proof (cases "skip_dns_name ys k")
  case (Some r)
  show ?thesis
  proof (cases r)
    case None
    with Some show ?thesis by (simp add: record_step_def skip_dns_name_shift)
  next
    case (Some p)
    show ?thesis
      using \<open>skip_dns_name ys k = Some r\<close> Some get16_shift [of xs ys "p + 8"]
      by (cases "p + 10 \<le> length ys") (simp_all add: record_step_def skip_dns_name_shift add.assoc)
  qed
qed (simp add: record_step_def skip_dns_name_shift)

section \<open>The interface of a step\<close>

locale cursor =
  fixes step :: step
  assumes step_total: "step buf pos \<noteq> panic"
    and step_progress: "step buf pos = ret (Some p) \<Longrightarrow> pos < p \<and> p \<le> length buf"
    and step_local: "step buf pos = ret (Some p) \<Longrightarrow> same_between buf' buf pos p \<Longrightarrow>
      step buf' pos = ret (Some p)"
    and step_shift: "step (xs @ ys) (length xs + k) = shifted (length xs) (step ys k)"
begin

lemma walk_shift: "walk step n (xs @ ys) (length xs + k) = shifted (length xs) (walk step n ys k)"
  by (induction n arbitrary: k) (auto simp: step_shift split: Option.bind_split option.split)

lemma walk_total: "walk step n buf pos \<noteq> panic"
  by (induction n arbitrary: pos) (auto simp: step_total split: option.splits Option.bind_splits)

lemma walk_Suc_Some: "walk step (Suc n) buf pos = ret (Some q) \<longleftrightarrow>
    (\<exists>p. step buf pos = ret (Some p) \<and> walk step n buf p = ret (Some q))"
  by (auto split: option.splits Option.bind_splits)

lemma walk_bounds: "walk step n buf pos = ret (Some q) \<Longrightarrow>
    pos + n \<le> q \<and> (n = 0 \<or> q \<le> length buf)"
proof (induction n arbitrary: pos)
  case (Suc n)
  then obtain p where "step buf pos = ret (Some p)" "walk step n buf p = ret (Some q)"
    by (auto simp only: walk_Suc_Some)
  with Suc.IH [of p] step_progress [of buf pos p] show ?case by (cases n) auto
qed simp

lemma walk_inside: "walk step n buf pos = ret (Some q) \<Longrightarrow> pos \<le> length buf \<Longrightarrow>
    pos \<le> q \<and> q \<le> length buf"
  using walk_bounds [of n buf pos q] by (cases n) auto

lemma walk_local: "walk step n buf pos = ret (Some q) \<Longrightarrow> same_between buf' buf pos q \<Longrightarrow>
    walk step n buf' pos = ret (Some q)"
proof (induction n arbitrary: pos)
  case (Suc n)
  then obtain p where p: "step buf pos = ret (Some p)" "walk step n buf p = ret (Some q)"
    by (auto simp only: walk_Suc_Some)
  have "p \<le> q" "pos < p" using walk_bounds [OF p(2)] step_progress [OF p(1)] by simp_all
  with Suc.prems(2) have "same_between buf' buf pos p" "same_between buf' buf p q"
    by (auto intro: same_between_sub)
  with p have "step buf' pos = ret (Some p)" "walk step n buf' p = ret (Some q)"
    by (auto intro: step_local Suc.IH)
  then show ?case by (auto simp only: walk_Suc_Some)
qed simp

lemma walk_add: "walk step (m + n) buf pos = do {
    r \<leftarrow> walk step m buf pos;
    case r of None \<Rightarrow> ret None | Some p \<Rightarrow> walk step n buf p }"
  by (induction m arbitrary: pos) (auto split: option.splits Option.bind_splits)

end

section \<open>Both bodies are cursors\<close>

lemma question_step_SomeD: "question_step buf pos = Some (Some p) \<Longrightarrow>
    \<exists>q. skip_dns_name buf pos = Some (Some q) \<and> p = q + 4 \<and> p \<le> length buf"
  by (auto simp: question_step_def split: Option.bind_splits option.splits if_splits)

lemma record_step_SomeD: "record_step buf pos = Some (Some p) \<Longrightarrow>
    \<exists>q. skip_dns_name buf pos = Some (Some q) \<and> q + 10 \<le> p \<and> p = q + 10 + unat (get16 buf (q + 8))
      \<and> p \<le> length buf"
  by (auto simp: record_step_def split: Option.bind_splits option.splits if_splits)

interpretation questions: cursor question_step
proof
  fix buf pos
  show "question_step buf pos \<noteq> None"
    by (auto simp: question_step_def split: Option.bind_splits option.splits)
  fix p assume s: "question_step buf pos = Some (Some p)"
  then obtain q where q: "skip_dns_name buf pos = Some (Some q)" "p = q + 4" "p \<le> length buf"
    by (blast dest: question_step_SomeD)
  from skip_dns_name_progress [OF q(1)] q show "pos < p \<and> p \<le> length buf" by simp
  fix buf' assume same: "same_between buf' buf pos p"
  then have "skip_dns_name buf' pos = Some (Some q)" "p \<le> length buf'"
    using q skip_dns_name_local [OF q(1)] same_between_sub [OF same, of pos q]
    by (auto simp: same_between_def)
  then show "question_step buf' pos = Some (Some p)"
    using q by (simp add: question_step_def)
qed (rule question_step_shift)

interpretation records: cursor record_step
proof
  fix buf pos
  show "record_step buf pos \<noteq> None"
    by (auto simp: record_step_def split: Option.bind_splits option.splits)
  fix p assume s: "record_step buf pos = Some (Some p)"
  then obtain q where q: "skip_dns_name buf pos = Some (Some q)"
    "q + 10 \<le> p" "p = q + 10 + unat (get16 buf (q + 8))" "p \<le> length buf"
    by (blast dest: record_step_SomeD)
  from skip_dns_name_progress [OF q(1)] q show "pos < p \<and> p \<le> length buf" by simp
  fix buf' assume same: "same_between buf' buf pos p"
  then have "skip_dns_name buf' pos = Some (Some q)" "p \<le> length buf'"
    using q skip_dns_name_local [OF q(1)] same_between_sub [OF same, of pos q]
    by (auto simp: same_between_def)
  moreover have "get16 buf' (q + 8) = get16 buf (q + 8)"
    using q skip_dns_name_progress [OF q(1)] by (intro get16_same [OF same]) auto
  ultimately show "record_step buf' pos = Some (Some p)"
    using q by (simp add: record_step_def)
qed (rule record_step_shift)

end
