(* ===== verification/Dns_Message.thy ===== *)
theory Dns_Message
  imports Dns_Presentation Wire_Walk
begin

text \<open>
  Queries and synthesized responses, \<open>src/dns/parser.rs\<close>: \<open>parse_dns_query_opts\<close>,
  \<open>build_query_wire\<close> and the builders of blocked, sinkhole, SERVFAIL, ANY and DDR responses.

  The lemmas show that none of them panics on any input, that a built query parses back to
  the name and type it was built from, and the header and body of each built response.
\<close>

section \<open>Parsing a query\<close>

record dns_question =
  qname :: string
  qtype :: u16
  qclass :: u16

record parsed_dns_query =
  tx_id :: u16
  flags :: u16
  question :: "dns_question option"
  question_bytes_len :: nat

definition parse_dns_query_opts :: "bytes \<Rightarrow> bool \<Rightarrow> parsed_dns_query option rust" where
  "parse_dns_query_opts buf allow_8bit =
    (if length buf < 12 then ret None
     else do {
       tx \<leftarrow> rd16 buf 0;
       fl \<leftarrow> rd16 buf 2;
       qdcount \<leftarrow> rd16 buf 4;
       if qdcount = 0 then
         ret (Some \<lparr>tx_id = tx, flags = fl, question = None, question_bytes_len = 0\<rparr>)
       else do {
         r \<leftarrow> parse_name_with_offset_opts buf 12 allow_8bit;
         case r of None \<Rightarrow> ret None
         | Some (name, pos) \<Rightarrow>
             if pos + 4 > length buf then ret None
             else do {
               qt \<leftarrow> rd16 buf pos;
               qc \<leftarrow> rd16 buf (pos + 2);
               ret (Some \<lparr>tx_id = tx, flags = fl,
                          question = Some \<lparr>qname = name, qtype = qt, qclass = qc\<rparr>,
                          question_bytes_len = pos + 4 - 12\<rparr>)
             }
       }
     })"

definition parse_dns_query :: "bytes \<Rightarrow> parsed_dns_query option rust" where
  "parse_dns_query buf = parse_dns_query_opts buf True"

section \<open>Building a query\<close>

definition encode_part :: "string \<Rightarrow> bytes" where
  "encode_part part =
    (if part \<noteq> [] then
       (let raw = unescape_label_to_bytes part in
        if raw \<noteq> [] \<and> length raw \<le> 63 then word_of_nat (length raw) # raw else [])
     else [])"

definition build_query_wire :: "string \<Rightarrow> u16 \<Rightarrow> bytes" where
  "build_query_wire domain qt =
     [0x12, 0x34] @ [0x01, 0x00] @ [0x00, 0x01] @ [0, 0, 0, 0, 0, 0]
     @ concat (map encode_part (split_domain_labels domain))
     @ [0x00] @ to_be16 qt @ [0x00, 0x01]"

section \<open>Synthesized responses\<close>

definition build_blocked_response :: "bytes \<Rightarrow> bool \<Rightarrow> bytes rust" where
  "build_blocked_response query_buf is_nxdomain =
    (if length query_buf < 12 then ret (replicate 12 0)
     else do {
       orig_flags \<leftarrow> rd16 query_buf 2;
       let rcode = (if is_nxdomain then 0x0003 else 0x0000);
       let new_flags = (orig_flags AND 0x7900) OR 0x8180 OR rcode;
       resp \<leftarrow> wr query_buf 2 (to_be16 new_flags);
       resp \<leftarrow> wr resp 6 (to_be16 0);
       wr resp 8 (to_be16 0)
     })"

definition build_servfail_response :: "bytes \<Rightarrow> bytes rust" where
  "build_servfail_response query_buf =
    (if length query_buf < 12 then ret (replicate 12 0)
     else do {
       orig_flags \<leftarrow> rd16 query_buf 2;
       let new_flags = (orig_flags AND 0x7900) OR 0x8182;
       resp \<leftarrow> wr query_buf 2 (to_be16 new_flags);
       resp \<leftarrow> wr resp 6 (to_be16 0);
       wr resp 8 (to_be16 0)
     })"

definition build_sinkhole_response :: "bytes \<Rightarrow> bytes rust" where
  "build_sinkhole_response query_buf =
    (if length query_buf < 12 then ret (replicate 12 0)
     else do {
       p \<leftarrow> parse_dns_query query_buf;
       case p of None \<Rightarrow> build_blocked_response query_buf False
       | Some parsed \<Rightarrow> (case question parsed of None \<Rightarrow> build_blocked_response query_buf False
       | Some q \<Rightarrow>
           let q_end = 12 + question_bytes_len parsed in
           if q_end > length query_buf then build_blocked_response query_buf False
           else do {
             orig_flags \<leftarrow> rd16 query_buf 2;
             let new_flags = (orig_flags AND 0x7900) OR 0x8580;
             let is_a = (qtype q = 1);
             let is_aaaa = (qtype q = 28);
             tx \<leftarrow> slice query_buf 0 2;
             quest \<leftarrow> slice query_buf 12 q_end;
             ret (tx @ to_be16 new_flags @ to_be16 1
                  @ (if is_a \<or> is_aaaa then to_be16 1 else to_be16 0) @ to_be16 0 @ to_be16 0
                  @ quest
                  @ (if is_a then [0xC0, 0x0C] @ to_be16 1 @ to_be16 1 @ to_be32 60 @ to_be16 4
                               @ [0, 0, 0, 0]
                     else if is_aaaa then [0xC0, 0x0C] @ to_be16 28 @ to_be16 1 @ to_be32 60
                               @ to_be16 16 @ replicate 16 0
                     else []))
           })
     })"

definition ascii :: "string \<Rightarrow> bytes" where
  "ascii s = map char_byte s"

definition ddr_rdata :: bytes where
  "ddr_rdata = to_be16 1 @ [0x00]
     @ to_be16 1 @ to_be16 (word_of_nat (length ([0x02] @ ascii ''h2'' @ [0x03] @ ascii ''dot'')))
     @ [0x02] @ ascii ''h2'' @ [0x03] @ ascii ''dot''
     @ to_be16 3 @ to_be16 2 @ to_be16 443
     @ to_be16 7 @ to_be16 (word_of_nat (length ''/dns-query{?dns}'')) @ ascii ''/dns-query{?dns}''"

definition build_ddr_response :: "bytes \<Rightarrow> bytes option rust" where
  "build_ddr_response query_buf = do {
     p \<leftarrow> parse_dns_query query_buf;
     case p of None \<Rightarrow> ret None
     | Some parsed \<Rightarrow> (case question parsed of None \<Rightarrow> ret None
     | Some q \<Rightarrow>
         let q_clean = to_ascii_lowercase (trim_end_char CHR ''.'' (qname q)) in
         if q_clean \<noteq> ''_dns.resolver.arpa'' then ret None
         else if qtype q \<noteq> 64 \<and> qtype q \<noteq> 65 \<and> qtype q \<noteq> 255 then ret None
         else do {
           tx \<leftarrow> slice query_buf 0 2;
           orig_flags \<leftarrow> rd16 query_buf 2;
           let new_flags = (orig_flags AND 0x0100) OR 0x8580;
           let q_end = 12 + question_bytes_len parsed;
           if q_end > length query_buf then ret None
           else do {
             quest \<leftarrow> slice query_buf 12 q_end;
             let ans_type = (if qtype q = 65 then 65 else 64 :: u16);
             ret (Some (tx @ to_be16 new_flags @ to_be16 1 @ to_be16 1 @ to_be16 0 @ to_be16 0
                  @ quest @ [0xC0, 0x0C] @ to_be16 ans_type @ to_be16 1 @ to_be32 3600
                  @ to_be16 (word_of_nat (length ddr_rdata)) @ ddr_rdata))
           }
         })
   }"

definition build_any_minimal_response :: "bytes \<Rightarrow> bytes option rust" where
  "build_any_minimal_response query_buf = do {
     p \<leftarrow> parse_dns_query query_buf;
     case p of None \<Rightarrow> ret None
     | Some parsed \<Rightarrow> (case question parsed of None \<Rightarrow> ret None
     | Some q \<Rightarrow>
         if qtype q \<noteq> 255 then ret None
         else do {
           tx \<leftarrow> slice query_buf 0 2;
           orig_flags \<leftarrow> rd16 query_buf 2;
           let new_flags = (orig_flags AND 0x0100) OR 0x8180;
           let q_end = 12 + question_bytes_len parsed;
           if q_end > length query_buf then ret None
           else do {
             quest \<leftarrow> slice query_buf 12 q_end;
             let cpu = ascii ''RFC8482'';
             let rdlen = word_of_nat (1 + length cpu + 1);
             ret (Some (tx @ to_be16 new_flags @ to_be16 1 @ to_be16 1 @ to_be16 0 @ to_be16 0
                  @ quest @ [0xC0, 0x0C] @ to_be16 13 @ to_be16 1 @ to_be32 3600
                  @ to_be16 rdlen @ [word_of_nat (length cpu)] @ cpu @ [0]))
           }
         })
   }"

section \<open>The parser is safe\<close>

lemma parse_query_total [simp]: "parse_dns_query_opts buf a8 \<noteq> None"
  by (auto simp: parse_dns_query_opts_def split: Option.bind_splits option.splits)

lemma parse_query_total' [simp]: "parse_dns_query buf \<noteq> None"
  by (simp add: parse_dns_query_def)

lemma parse_query_SomeD:
  assumes "parse_dns_query_opts buf a8 = Some (Some p)"
  shows "12 \<le> length buf" "tx_id p = get16 buf 0" "flags p = get16 buf 2"
    and "question p = None \<longleftrightarrow> get16 buf 4 = 0"
    and "12 + question_bytes_len p \<le> length buf"
    and "question p = Some q \<Longrightarrow> length (qname q) \<le> 1024"
    and "question p = Some q \<Longrightarrow> question_step buf 12 = Some (Some (12 + question_bytes_len p))"
    and "question p = Some q \<Longrightarrow> 4 \<le> question_bytes_len p \<and>
      qtype q = get16 buf (8 + question_bytes_len p) \<and> qclass q = get16 buf (10 + question_bytes_len p)"
proof -
  from assms show len: "12 \<le> length buf" by (auto simp: parse_dns_query_opts_def split: if_splits)
  show "tx_id p = get16 buf 0" "flags p = get16 buf 2" "question p = None \<longleftrightarrow> get16 buf 4 = 0"
    using assms len
    by (auto simp: parse_dns_query_opts_def split: Option.bind_splits option.splits if_splits prod.splits)
  have *: "question_bytes_len p = pos + 4 - 12 \<and> question p = Some \<lparr>qname = n, qtype = get16 buf pos,
      qclass = get16 buf (pos + 2)\<rparr> \<and> pos + 4 \<le> length buf \<and> 12 \<le> pos"
    if "get16 buf 4 \<noteq> 0" "parse_name_with_offset_opts buf 12 a8 = Some (Some (n, pos))" for n pos
    using assms len that parse_name_SomeD(2) [OF that(2)]
    by (auto simp: parse_dns_query_opts_def split: if_splits)
  have ex: "\<exists>n pos. parse_name_with_offset_opts buf 12 a8 = Some (Some (n, pos))" if "get16 buf 4 \<noteq> 0"
    using assms len that
    by (auto simp: parse_dns_query_opts_def split: Option.bind_splits option.splits)
  show "12 + question_bytes_len p \<le> length buf"
  proof (cases "get16 buf 4 = 0")
    case True
    with assms len show ?thesis by (auto simp: parse_dns_query_opts_def)
  next
    case False
    with ex * show ?thesis by fastforce
  qed
  assume q: "question p = Some q"
  then have nz: "get16 buf 4 \<noteq> 0"
    using \<open>question p = None \<longleftrightarrow> get16 buf 4 = 0\<close> by auto
  then obtain n pos where np: "parse_name_with_offset_opts buf 12 a8 = Some (Some (n, pos))"
    using ex by blast
  note f = * [OF nz np]
  from q f parse_name_SomeD(1) [OF np] show "length (qname q) \<le> 1024" by auto
  have "skip_dns_name buf 12 = Some (Some pos)"
    using parse_name_SomeD(3) [OF np] f len by simp
  with f show "question_step buf 12 = Some (Some (12 + question_bytes_len p))"
    by (simp add: question_step_def)
  from f q show "4 \<le> question_bytes_len p \<and>
      qtype q = get16 buf (8 + question_bytes_len p) \<and> qclass q = get16 buf (10 + question_bytes_len p)"
    by (auto simp: algebra_simps)
qed

section \<open>A built query parses back\<close>

lemma encode_part_escape:
  "0 < length l \<Longrightarrow> length l \<le> 63 \<Longrightarrow> encode_part (escape_label l) = encode_label (map lower_u8 l)"
  by (auto simp: encode_part_def unescape_escape encode_label_def Let_def)

lemma render_name_lower: "render_name (map (map lower_u8) ls) = render_name ls"
  by (simp add: render_name_def escape_label_lower comp_def)

lemma wire_labels_lower: "wire_labels (map (map lower_u8) ls) = wire_labels ls"
  by (simp add: wire_labels_def length_encode_name length_concat comp_def)

lemma split_empty [simp]: "split_domain_labels [] = []"
  by (simp add: split_domain_labels_def)

lemma build_query_wire_form:
  assumes "wire_labels ls" "trim (render_name ls) = render_name ls"
  shows "build_query_wire (render_name ls) qt =
    [0x12, 0x34, 0x01, 0x00, 0x00, 0x01, 0, 0, 0, 0, 0, 0] @ encode_name (map (map lower_u8) ls)
      @ to_be16 qt @ [0x00, 0x01]"
proof -
  have parts: "concat (map encode_part (map escape_label ls)) = concat (map encode_label (map (map lower_u8) ls))"
    using assms(1) by (simp add: wire_labels_def encode_part_escape comp_def cong: map_cong)
  have "split_domain_labels (render_name ls) = map escape_label ls"
  proof (cases "ls = []")
    case True
    then show ?thesis by (simp add: render_name_def)
  next
    case False
    with assms show ?thesis by (intro split_render_name) (auto simp: wire_labels_def)
  qed
  with parts show ?thesis by (simp add: build_query_wire_def encode_name_def)
qed

lemma parse_built_query:
  assumes "wire_labels ls" "trim (render_name ls) = render_name ls"
  shows "parse_dns_query (build_query_wire (render_name ls) qt) =
    ret (Some \<lparr>tx_id = 0x1234, flags = 0x0100,
      question = Some \<lparr>qname = render_name ls, qtype = qt, qclass = 1\<rparr>,
      question_bytes_len = length (encode_name ls) + 4\<rparr>)"
proof -
  define pre :: bytes where "pre = [0x12, 0x34, 0x01, 0x00, 0x00, 0x01, 0, 0, 0, 0, 0, 0]"
  have pre: "length pre = 12" by (simp add: pre_def)
  let ?enc = "encode_name (map (map lower_u8) ls)" and ?post = "to_be16 qt @ [0x00, 0x01]"
  have enc: "length ?enc = length (encode_name ls)"
    by (simp add: length_encode_name length_concat comp_def)
  have nm: "parse_name_with_offset_opts (pre @ ?enc @ ?post) 12 True =
      Some (Some (render_name ls, 12 + length (encode_name ls)))"
    using parse_encode_name [of "map (map lower_u8) ls" pre ?post] assms(1)
    by (simp add: wire_labels_lower render_name_lower parse_name_with_offset_def enc pre)
  have qt: "get16 (pre @ ?enc @ ?post) (12 + length (encode_name ls)) = qt"
    by (simp add: get16_def nth_append to_be16_def pre flip: enc)
  have qc: "get16 (pre @ ?enc @ ?post) (12 + length (encode_name ls) + 2) = 1"
    by (simp add: get16_def nth_append to_be16_def pre flip: enc) (simp add: be16_def)
  have hd: "get16 (pre @ ?enc @ ?post) 0 = 0x1234" "get16 (pre @ ?enc @ ?post) 2 = 0x0100"
    "get16 (pre @ ?enc @ ?post) 4 = 1"
    by (simp_all add: get16_def be16_def pre_def)
  have len: "length (pre @ ?enc @ ?post) = 16 + length (encode_name ls)" by (simp add: enc pre)
  have form: "build_query_wire (render_name ls) qt = pre @ ?enc @ ?post"
    by (simp add: build_query_wire_form [OF assms] pre_def)
  show ?thesis
    unfolding parse_dns_query_def parse_dns_query_opts_def form
    using nm qt qc hd len by (simp del: append_Cons append_assoc)
qed

section \<open>The header of a built response\<close>

lemma header_cases:
  assumes "12 \<le> length q"
  obtains a0 a1 a2 a3 a4 a5 a6 a7 a8 a9 a10 a11 rest
  where "q = a0 # a1 # a2 # a3 # a4 # a5 # a6 # a7 # a8 # a9 # a10 # a11 # rest"
proof -
  from assms obtain h where h: "h = take 12 q" "length h = 12" by simp
  then have "q = h @ drop 12 q" by simp
  with h(2) that show ?thesis by (auto simp: numeral_eq_Suc length_Suc_conv)
qed

lemma get16_Cons [simp]: "get16 (a # b # xs) 0 = be16 a b"
  by (simp add: get16_def)

text \<open>The blocked response rewrites the flags and clears two counts; nothing else moves.\<close>

definition blocked_flags :: "u16 \<Rightarrow> u16 \<Rightarrow> u16" where
  "blocked_flags orig set_bits = (orig AND 0x7900) OR set_bits"

lemma blocked_form:
  assumes "12 \<le> length q"
  shows "build_blocked_response q nx = ret (take 2 q
      @ to_be16 (blocked_flags (get16 q 2) (0x8180 OR (if nx then 3 else 0)))
      @ take 2 (drop 4 q) @ [0, 0, 0, 0] @ drop 10 q)"
    and "build_servfail_response q = ret (take 2 q @ to_be16 (blocked_flags (get16 q 2) 0x8182)
      @ take 2 (drop 4 q) @ [0, 0, 0, 0] @ drop 10 q)"
proof -
  have z: "to_be16 0 = [0, 0]" by (simp add: to_be16_def)
  from assms show "build_blocked_response q nx = ret (take 2 q
      @ to_be16 (blocked_flags (get16 q 2) (0x8180 OR (if nx then 3 else 0)))
      @ take 2 (drop 4 q) @ [0, 0, 0, 0] @ drop 10 q)"
    by (rule header_cases)
      (simp add: build_blocked_response_def blocked_flags_def z to_be16_def Let_def or.assoc)
  from assms show "build_servfail_response q = ret (take 2 q @ to_be16 (blocked_flags (get16 q 2) 0x8182)
      @ take 2 (drop 4 q) @ [0, 0, 0, 0] @ drop 10 q)"
    by (rule header_cases)
      (simp add: build_servfail_response_def blocked_flags_def z to_be16_def Let_def)
qed

lemma bit_blocked_flags:
  "bit (blocked_flags w s) n \<longleftrightarrow> bit w n \<and> bit (0x7900 :: u16) n \<or> bit s n"
  by (simp add: blocked_flags_def bit_simps)

lemma get16_mid: "length xs = n \<Longrightarrow> get16 (xs @ to_be16 v @ ys) n = v"
  by (simp add: get16_def nth_append to_be16_def)

lemma flag_facts:
  "bit (blocked_flags w (0x8180 OR (if nx then 3 else 0))) 15"
  "\<not> bit (blocked_flags w (0x8180 OR (if nx then 3 else 0))) 10"
  "\<not> bit (blocked_flags w (0x8180 OR (if nx then 3 else 0))) 4"
  "blocked_flags w (0x8180 OR (if nx then 3 else 0)) AND 0xF = (if nx then 3 else 0)"
  "blocked_flags w (0x8180 OR (if nx then 3 else 0)) AND 0x7800 = w AND 0x7800"
  apply (simp_all add: bit_blocked_flags bit_simps)
  apply (simp_all add: blocked_flags_def bit.conj_disj_distrib2 and.assoc)
  done

section \<open>Sinkhole answers\<close>

lemma skip_pointer_name:
  assumes "pos + 2 \<le> length buf" "buf ! pos = 0xC0"
  shows "skip_dns_name buf pos = Some (Some (pos + 2))"
  using assms skip_loop.simps(2) [of 127 buf pos] by (simp add: skip_dns_name_def)

text \<open>A record written as a pointer, eight fixed bytes, its length and its data.\<close>

lemma record_step_written:
  assumes "length fixed = 8" "length rdata = unat n"
  shows "record_step (xs @ [0xC0, 0x0C] @ fixed @ to_be16 n @ rdata @ ys) (length xs) =
    Some (Some (length xs + 12 + length rdata))"
proof -
  let ?r = "xs @ [0xC0, 0x0C] @ fixed @ to_be16 n @ rdata @ ys"
  have "skip_dns_name ?r (length xs) = Some (Some (length xs + 2))"
    by (rule skip_pointer_name) simp_all
  moreover have "get16 ?r (10 + length xs) = n"
    using assms(1) get16_mid [of "xs @ [0xC0, 0x0C] @ fixed" "10 + length xs" n "rdata @ ys"] by simp
  ultimately show ?thesis
    using assms by (simp add: record_step_def)
qed

lemma copied_question:
  assumes "length h = 12" "question_step buf 12 = Some (Some e)"
  shows "question_step (h @ take (e - 12) (drop 12 buf) @ ans) 12 = Some (Some e)"
proof (rule questions.step_local [OF assms(2)])
  from questions.step_progress [OF assms(2)] have "12 < e" "e \<le> length buf" by simp_all
  with assms(1) show "same_between (h @ take (e - 12) (drop 12 buf) @ ans) buf 12 e"
    by (auto simp: same_between_def nth_append)
qed

definition sinkhole_rdata :: "u16 \<Rightarrow> bytes option" where
  "sinkhole_rdata qt = (if qt = 1 then Some [0, 0, 0, 0]
                        else if qt = 28 then Some (replicate 16 0) else None)"

definition sinkhole_header :: "bytes \<Rightarrow> u16 \<Rightarrow> bytes" where
  "sinkhole_header buf qt = take 2 buf @ to_be16 (blocked_flags (get16 buf 2) 0x8580) @ to_be16 1
     @ (case sinkhole_rdata qt of None \<Rightarrow> to_be16 0 | Some _ \<Rightarrow> to_be16 1) @ to_be16 0 @ to_be16 0"

definition sinkhole_answer :: "u16 \<Rightarrow> bytes" where
  "sinkhole_answer qt = (case sinkhole_rdata qt of None \<Rightarrow> []
     | Some z \<Rightarrow> [0xC0, 0x0C] @ (to_be16 qt @ to_be16 1 @ to_be32 60) @ to_be16 (word_of_nat (length z)) @ z @ [])"

lemma length_sinkhole_header: "2 \<le> length buf \<Longrightarrow> length (sinkhole_header buf qt) = 12"
  by (simp add: sinkhole_header_def split: option.splits)

lemma sinkhole_form:
  assumes "parse_dns_query buf = Some (Some p)" "question p = Some q"
  shows "build_sinkhole_response buf = Some (sinkhole_header buf (qtype q)
    @ take (question_bytes_len p) (drop 12 buf) @ sinkhole_answer (qtype q))"
proof -
  note P = parse_query_SomeD [OF assms(1) [unfolded parse_dns_query_def]]
  show ?thesis
    using assms P(1,5)
    by (simp add: build_sinkhole_response_def blocked_flags_def sinkhole_header_def sinkhole_answer_def
        sinkhole_rdata_def Let_def)
qed

lemma sinkhole_walk:
  assumes "parse_dns_query buf = Some (Some p)" "question p = Some q"
    and e: "e = 12 + question_bytes_len p"
  obtains r where "build_sinkhole_response buf = Some r"
    "question_step r 12 = Some (Some e)" "take 2 r = take 2 buf"
    "get16 r 2 = blocked_flags (get16 buf 2) 0x8580"
    "sinkhole_rdata (qtype q) = None \<Longrightarrow> get16 r 6 = 0 \<and> length r = e"
    "\<And>z. sinkhole_rdata (qtype q) = Some z \<Longrightarrow> get16 r 6 = 1 \<and> record_step r e = Some (Some (length r)) \<and>
       get16 r (e + 2) = qtype q \<and> drop (e + 12) r = z"
proof -
  note P = parse_query_SomeD [OF assms(1) [unfolded parse_dns_query_def]]
  let ?h = "sinkhole_header buf (qtype q)" and ?q = "take (e - 12) (drop 12 buf)"
  let ?r = "?h @ ?q @ sinkhole_answer (qtype q)"
  have h: "length ?h = 12" using P(1) by (simp add: length_sinkhole_header)
  have q: "length ?q = e - 12" "12 < e" using P(5,8) assms(2) e by simp_all
  have hq: "length (?h @ ?q) = e" using h q by simp
  show thesis
  proof (rule that [of ?r])
    show "build_sinkhole_response buf = Some ?r" using sinkhole_form [OF assms(1,2)] e by simp
    show "question_step ?r 12 = Some (Some e)"
      by (rule copied_question [OF h]) (use P(7) assms(2) e in simp)
    show "take 2 ?r = take 2 buf" using P(1) by (simp add: sinkhole_header_def)
    have two: "length (take 2 buf) = 2" using P(1) by simp
    show "get16 ?r 2 = blocked_flags (get16 buf 2) 0x8580"
      using get16_mid [OF two] by (simp add: sinkhole_header_def)
    have six: "length (take 2 buf @ to_be16 f @ to_be16 1) = 6" for f using two by simp
    show "get16 ?r 6 = 0 \<and> length ?r = e" if "sinkhole_rdata (qtype q) = None"
      using that get16_mid [OF six] hq by (simp add: sinkhole_header_def sinkhole_answer_def)
    fix z assume z: "sinkhole_rdata (qtype q) = Some z"
    have "get16 ?r 6 = 1" using z get16_mid [OF six] by (simp add: sinkhole_header_def)
    moreover have "length z = unat (word_of_nat (length z) :: u16)"
      using z by (auto simp: sinkhole_rdata_def split: if_splits)
    from record_step_written [OF _ this, of "to_be16 (qtype q) @ to_be16 1 @ to_be32 60" "?h @ ?q" "[]"]
    have "record_step ?r e = Some (Some (length ?r))"
      using z hq by (simp add: sinkhole_answer_def)
    moreover have "get16 ?r (e + 2) = qtype q"
      using get16_mid [of "(?h @ ?q) @ [0xC0, 0x0C]" "e + 2" "qtype q"] z hq
      by (simp add: sinkhole_answer_def)
    moreover have "drop (e + 12) ?r = z" using z hq h q by (simp add: sinkhole_answer_def)
    ultimately show "get16 ?r 6 = 1 \<and> record_step ?r e = Some (Some (length ?r)) \<and>
       get16 ?r (e + 2) = qtype q \<and> drop (e + 12) ?r = z" by simp
  qed
qed

lemma builders_total [simp]:
  "build_blocked_response buf nx \<noteq> None" "build_servfail_response buf \<noteq> None"
  "build_sinkhole_response buf \<noteq> None"
  "build_any_minimal_response buf \<noteq> None" "build_ddr_response buf \<noteq> None"
proof -
  show blocked: "build_blocked_response buf nx \<noteq> None" for nx
    using blocked_form(1) [of buf nx] by (cases "12 \<le> length buf") (auto simp: build_blocked_response_def)
  show "build_servfail_response buf \<noteq> None"
    using blocked_form(2) [of buf] by (cases "12 \<le> length buf") (auto simp: build_servfail_response_def)
  obtain o' where o': "parse_dns_query buf = Some o'" using parse_query_total' [of buf] by blast
  have len: "12 \<le> length buf" "12 + question_bytes_len p \<le> length buf" if "o' = Some p" for p
    using that o' parse_query_SomeD(1,5) [of buf True p] by (simp_all add: parse_dns_query_def)
  show "build_sinkhole_response buf \<noteq> None"
    using o' len blocked [of False]
    by (auto simp: build_sinkhole_response_def Let_def split: option.splits)
  show "build_any_minimal_response buf \<noteq> None"
    using o' len by (auto simp: build_any_minimal_response_def Let_def split: option.splits)
  show "build_ddr_response buf \<noteq> None"
    using o' len by (auto simp: build_ddr_response_def Let_def split: option.splits)
qed

section \<open>Properties of queries and synthesized responses\<close>

text \<open>A query for \<open>foo\<close>, type A, for the witnesses.\<close>

definition foo_query :: bytes where
  "foo_query = [0xAB, 0xCD, 0x01, 0x00, 0, 1, 0, 0, 0, 0, 0, 0, 3, 102, 111, 111, 0, 0, 1, 0, 1]"

lemma parse_foo_query: "parse_dns_query foo_query = Some (Some \<lparr>tx_id = 0xABCD, flags = 0x0100,
    question = Some \<lparr>qname = ''foo'', qtype = 1, qclass = 1\<rparr>, question_bytes_len = 9\<rparr>)"
  by code_simp

text \<open>
  Parsing a query never panics. A parsed query carries the header's identifier and
  flags, its question section lies inside the packet, its name is bounded, and the walker
  agrees on where the question ends.
\<close>

theorem query_parser_safe:
  "\<exists>r. parse_dns_query_opts buf allow_8bit = ret r \<and>
     (\<forall>p. r = Some p \<longrightarrow>
        tx_id p = get16 buf 0 \<and> flags p = get16 buf 2 \<and> 12 + question_bytes_len p \<le> length buf \<and>
        (\<forall>q. question p = Some q \<longrightarrow> length (qname q) \<le> 1024 \<and>
           question_step buf 12 = ret (Some (12 + question_bytes_len p))))"
proof -
  obtain r where r: "parse_dns_query_opts buf allow_8bit = Some r"
    using parse_query_total [of buf allow_8bit] by blast
  with parse_query_SomeD(2,3,5,6,7) [of buf allow_8bit] show ?thesis by auto
qed

theorem query_parser_safe_witness:
  "question_step foo_query 12 = ret (Some 21) \<and> 21 \<le> length foo_query"
  using query_parser_safe [of foo_query True] parse_foo_query
  by (auto simp: parse_dns_query_def)

text \<open>
  C8: A query built for the presentation of any RFC 1035 name parses back to that name,
  the type and class IN. White space at the ends of the presentation is excluded: the
  builder trims it (a label that starts or ends with a space is sent without it).
\<close>

theorem query_build_parse:
  assumes "wire_labels ls" and "trim (render_name ls) = render_name ls"
  shows "parse_dns_query (build_query_wire (render_name ls) qt) =
    ret (Some \<lparr>tx_id = 0x1234, flags = 0x0100,
      question = Some \<lparr>qname = render_name ls, qtype = qt, qclass = 1\<rparr>,
      question_bytes_len = length (encode_name ls) + 4\<rparr>)"
  using assms by (rule parse_built_query)

theorem query_build_parse_witness:
  "\<exists>p. parse_dns_query (build_query_wire (render_name [[65, 32, 46], [99, 111, 109]]) 28) = ret (Some p)
     \<and> question_bytes_len p = 13"
proof -
  have w: "wire_labels [[65, 32, 46], [99, 111, 109]]" by code_simp
  have t: "trim (render_name [[65, 32, 46], [99, 111, 109]]) = render_name [[65, 32, 46], [99, 111, 109]]"
    by code_simp
  from query_build_parse [OF w t, of 28] show ?thesis by (simp add: length_encode_name)
qed

text \<open>
  A blocked response has the length of the query and its identifier, question count,
  additional count and every byte after the header's counts; QR is set, the answer and
  authority counts are zero, the response code is NXDOMAIN or NOERROR and the opcode is the
  query's. The AA bit and the CD bit are always clear, although the comments in the code
  promise \<open>AA=1\<close> and a preserved CD.
\<close>

theorem blocked_response_spec:
  assumes "12 \<le> length query"
  shows "\<exists>r. build_blocked_response query nx = ret r \<and> length r = length query \<and>
    take 2 r = take 2 query \<and> get16 r 4 = get16 query 4 \<and> drop 10 r = drop 10 query \<and>
    get16 r 6 = 0 \<and> get16 r 8 = 0 \<and> bit (get16 r 2) 15 \<and>
    get16 r 2 AND 0xF = (if nx then 3 else 0) \<and> get16 r 2 AND 0x7800 = get16 query 2 AND 0x7800 \<and>
    \<not> bit (get16 r 2) 10 \<and> \<not> bit (get16 r 2) 4"
proof -
  let ?f = "blocked_flags (get16 query 2) (0x8180 OR (if nx then 3 else 0))"
  let ?r = "take 2 query @ to_be16 ?f @ take 2 (drop 4 query) @ [0, 0, 0, 0] @ drop 10 query"
  have r: "build_blocked_response query nx = Some ?r" using assms by (rule blocked_form)
  have "length (take 2 query) = 2" using assms by simp
  from get16_mid [OF this] have fl: "get16 ?r 2 = ?f" .
  have "length ?r = length query" "take 2 ?r = take 2 query" "drop 10 ?r = drop 10 query"
    "get16 ?r 4 = get16 query 4" "get16 ?r 6 = 0" "get16 ?r 8 = 0"
    using assms by (simp_all add: get16_def nth_append be16_def)
  with r fl flag_facts [of "get16 query 2" nx] show ?thesis
    by (intro exI [of _ ?r]) (simp only: fl simp_thms option.inject)
qed

theorem blocked_response_spec_witness:
  "\<exists>r. build_blocked_response foo_query True = ret r \<and> get16 r 2 AND 0xF = 3 \<and> length r = 21"
  using blocked_response_spec [of foo_query True] by (auto simp: foo_query_def)

text \<open>
  The sinkhole response to a parsed question keeps the identifier and repeats the
  question; for A and AAAA it carries exactly one answer record, of the queried type, whose
  data is the unspecified address and which ends the packet; for other types it has none.
\<close>

theorem sinkhole_response_spec:
  assumes "parse_dns_query query = ret (Some p)" and "question p = Some q"
  shows "\<exists>r. build_sinkhole_response query = ret r \<and> take 2 r = take 2 query \<and>
    question_step r 12 = ret (Some (12 + question_bytes_len p)) \<and>
    (case sinkhole_rdata (qtype q) of
       None \<Rightarrow> get16 r 6 = 0 \<and> length r = 12 + question_bytes_len p
     | Some z \<Rightarrow> get16 r 6 = 1 \<and> record_step r (12 + question_bytes_len p) = ret (Some (length r)) \<and>
         get16 r (14 + question_bytes_len p) = qtype q \<and> drop (24 + question_bytes_len p) r = z)"
proof (rule sinkhole_walk [OF assms refl])
  fix r
  assume r: "build_sinkhole_response query = Some r" "take 2 r = take 2 query"
    "question_step r 12 = Some (Some (12 + question_bytes_len p))"
    and none: "sinkhole_rdata (qtype q) = None \<Longrightarrow>
      get16 r 6 = 0 \<and> length r = 12 + question_bytes_len p"
    and some: "\<And>z. sinkhole_rdata (qtype q) = Some z \<Longrightarrow> get16 r 6 = 1 \<and>
       record_step r (12 + question_bytes_len p) = Some (Some (length r)) \<and>
       get16 r (12 + question_bytes_len p + 2) = qtype q \<and> drop (12 + question_bytes_len p + 12) r = z"
  have shift: "12 + question_bytes_len p + 2 = 14 + question_bytes_len p"
    "12 + question_bytes_len p + 12 = 24 + question_bytes_len p" by simp_all
  show ?thesis
  proof (cases "sinkhole_rdata (qtype q)")
    case None
    with r none show ?thesis by simp
  next
    case (Some z)
    with r some [OF Some, unfolded shift] show ?thesis by simp
  qed
qed

theorem sinkhole_response_spec_witness:
  "\<exists>r. build_sinkhole_response foo_query = ret r \<and> get16 r 6 = 1 \<and> drop 33 r = [0, 0, 0, 0]"
  using sinkhole_response_spec [OF parse_foo_query] by (auto simp: sinkhole_rdata_def)

text \<open>
  No response builder panics, on any input: blocked, SERVFAIL, sinkhole, ANY and DDR.
\<close>

theorem response_builders_safe:
  "build_blocked_response query nx \<noteq> panic \<and> build_servfail_response query \<noteq> panic \<and>
   build_sinkhole_response query \<noteq> panic \<and> build_any_minimal_response query \<noteq> panic \<and>
   build_ddr_response query \<noteq> panic"
  by simp

end
