(* ===== verification/Edns.thy ===== *)
theory Edns
  imports Dns_Message
begin

text \<open>
  The EDNS0 writers (RFC 6891) of \<open>src/dns/parser.rs\<close>: \<open>ensure_edns0_do_bit\<close>,
  \<open>append_ede_to_response\<close>, \<open>ede_append_new_opt\<close>, \<open>has_edns\<close>, and the part
  \<open>append_cookie_to_response\<close> shares with them. They look for an OPT record in the
  additional section, then rewrite it or add one.

  \<open>complete\<close> says that a message is exactly its counted sections. The lemmas show that the
  writers never panic, that on a complete message they leave a complete message with an OPT
  record, and what the added record is.
\<close>

section \<open>Sections\<close>

definition skip_questions :: "bytes \<Rightarrow> nat option rust" where
  "skip_questions wire = do { qdcount \<leftarrow> count16 wire 4; walk question_step qdcount wire 12 }"

definition skip_to_additional :: "bytes \<Rightarrow> nat option rust" where
  "skip_to_additional wire = do {
     r \<leftarrow> skip_questions wire;
     case r of None \<Rightarrow> ret None
     | Some pos \<Rightarrow> do {
         ancount \<leftarrow> count16 wire 6;
         nscount \<leftarrow> count16 wire 8;
         walk record_step (ancount + nscount) wire pos } }"

text \<open>The message is its header and its counted records, with nothing left over.\<close>

definition complete :: "bytes \<Rightarrow> bool" where
  "complete wire \<longleftrightarrow> 12 \<le> length wire \<and>
     (case skip_to_additional wire of
        Some (Some a) \<Rightarrow> walk record_step (unat (get16 wire 10)) wire a = Some (Some (length wire))
      | _ \<Rightarrow> False)"

section \<open>Setting the DO bit\<close>

text \<open>The scan for a record of type 41; the result is the position after its owner name.\<close>

primrec do_bit_scan :: "nat \<Rightarrow> bytes \<Rightarrow> nat \<Rightarrow> nat option rust" where
  "do_bit_scan 0 buf cur_pos = ret None"
| "do_bit_scan (Suc n) buf cur_pos =
    (if cur_pos \<ge> length buf then ret None
     else do {
       r \<leftarrow> parse_name_with_offset buf cur_pos;
       case r of None \<Rightarrow> ret None
       | Some (rr_name, next_p) \<Rightarrow>
           if next_p + 10 > length buf then ret None
           else do {
             rtype \<leftarrow> rd16 buf next_p;
             rdlen \<leftarrow> rd16 buf (next_p + 8);
             if rtype = 41 then ret (Some next_p)
             else do_bit_scan n buf (next_p + 10 + unat rdlen) } })"

definition edns0_opt_do :: bytes where
  "edns0_opt_do = [0x00, 0x00, 0x29, 0x04, 0xD0, 0x00, 0x00, 0x80, 0x00, 0x00, 0x00]"

definition saturating_succ :: "u16 \<Rightarrow> u16" where
  "saturating_succ n = (if n = 0xFFFF then 0xFFFF else n + 1)"

definition ensure_edns0_do_bit :: "bytes \<Rightarrow> bytes rust" where
  "ensure_edns0_do_bit query_buf =
    (if length query_buf < 12 then ret query_buf
     else do {
       r \<leftarrow> skip_to_additional query_buf;
       case r of None \<Rightarrow> ret query_buf
       | Some pos \<Rightarrow> do {
           arcount \<leftarrow> rd16 query_buf 10;
           found \<leftarrow> do_bit_scan (unat arcount) query_buf pos;
           case found of
             Some cur_pos \<Rightarrow> do {
               b \<leftarrow> rd query_buf (cur_pos + 6);
               wr query_buf (cur_pos + 6) [b OR 0x80] }
           | None \<Rightarrow> do {
               modified \<leftarrow> wr query_buf 10 (to_be16 (saturating_succ arcount));
               ret (modified @ edns0_opt_do) } } })"

section \<open>Appending an option\<close>

text \<open>
  \<open>append_ede_to_response\<close> and \<open>append_cookie_to_response\<close> have the same body after they
  have built their option: \<open>find_opt\<close> is its loop over the additional records (it yields the
  position after the owner name and RDLENGTH), \<open>append_option\<close> the whole body.
\<close>

primrec find_opt :: "nat \<Rightarrow> bytes \<Rightarrow> nat \<Rightarrow> (nat \<times> nat) option rust" where
  "find_opt 0 wire ar_pos = ret None"
| "find_opt (Suc n) wire ar_pos =
    (if ar_pos \<ge> length wire then ret None
     else do {
       r \<leftarrow> skip_dns_name wire ar_pos;
       case r of None \<Rightarrow> ret None
       | Some name_end \<Rightarrow>
           if name_end + 10 > length wire then ret None
           else do {
             rtype \<leftarrow> rd16 wire name_end;
             rdlen \<leftarrow> rd16 wire (name_end + 8);
             let rdata_end = name_end + 10 + unat rdlen;
             if rtype = 41 then ret (Some (name_end, unat rdlen))
             else if rdata_end > length wire then ret None
             else find_opt n wire rdata_end } })"

definition ede_append_new_opt :: "bytes \<Rightarrow> bytes \<Rightarrow> bytes rust" where
  "ede_append_new_opt wire ede_option =
    (if length wire < 12 then ret wire
     else do {
       arcount \<leftarrow> rd16 wire 10;
       wire' \<leftarrow> wr wire 10 (to_be16 (saturating_succ arcount));
       let rdlen = (word_of_nat (length ede_option) :: u16);
       ret (wire' @ [0x00] @ to_be16 41 @ to_be16 4096 @ [0x00, 0x00, 0x00, 0x00]
            @ to_be16 rdlen @ ede_option) })"

definition splice_at :: "bytes \<Rightarrow> nat \<Rightarrow> bytes \<Rightarrow> bytes rust" where
  "splice_at wire i new = (if i \<le> length wire then ret (take i wire @ new @ drop i wire) else panic)"

definition append_option :: "bytes \<Rightarrow> bytes \<Rightarrow> bytes rust" where
  "append_option wire opt = do {
     r \<leftarrow> skip_to_additional wire;
     case r of None \<Rightarrow> ede_append_new_opt wire opt
     | Some pos \<Rightarrow> do {
         arcount \<leftarrow> count16 wire 10;
         found \<leftarrow> find_opt arcount wire pos;
         case found of None \<Rightarrow> ede_append_new_opt wire opt
         | Some (name_end, rdlen) \<Rightarrow>
             let rdata_end = name_end + 10 + rdlen;
                 new_rdlen = rdlen + length opt in
             if rdata_end > length wire then ret wire
             else if new_rdlen > 65535 then ret wire
             else do {
               wire' \<leftarrow> wr wire (name_end + 8) (to_be16 (word_of_nat new_rdlen));
               splice_at wire' rdata_end opt } } }"

definition append_ede_to_response :: "bytes \<Rightarrow> u16 \<Rightarrow> string \<Rightarrow> bytes rust" where
  "append_ede_to_response wire ede_code extra_text =
    (if length wire < 12 then ret wire
     else let raw_text = ascii extra_text;
              text_bytes = (if length raw_text > 256 then take 256 raw_text else raw_text);
              opt_data_len = (2 + word_of_nat (length text_bytes) :: u16)
          in append_option wire (to_be16 15 @ to_be16 opt_data_len @ to_be16 ede_code @ text_bytes))"

text \<open>The scan of \<open>has_edns\<close>, which gives up where the others stop looking.\<close>

primrec has_opt_scan :: "nat \<Rightarrow> bytes \<Rightarrow> nat \<Rightarrow> bool rust" where
  "has_opt_scan 0 wire pos = ret False"
| "has_opt_scan (Suc n) wire pos =
    (if pos \<ge> length wire then ret False
     else do {
       r \<leftarrow> skip_dns_name wire pos;
       case r of None \<Rightarrow> ret False
       | Some name_end \<Rightarrow>
           if name_end + 10 > length wire then ret False
           else do {
             rtype \<leftarrow> rd16 wire name_end;
             if rtype = 41 then ret True
             else do {
               rdlen \<leftarrow> rd16 wire (name_end + 8);
               if name_end + 10 + unat rdlen > length wire then ret False
               else has_opt_scan n wire (name_end + 10 + unat rdlen) } } })"

definition has_edns :: "bytes \<Rightarrow> bool rust" where
  "has_edns wire =
    (if length wire < 12 then ret False
     else do {
       arcount \<leftarrow> count16 wire 10;
       if arcount = 0 then ret False
       else do {
         r \<leftarrow> skip_to_additional wire;
         case r of None \<Rightarrow> ret False | Some pos \<Rightarrow> has_opt_scan arcount wire pos } })"

definition append_ede_if_edns :: "bytes \<Rightarrow> bytes \<Rightarrow> u16 \<Rightarrow> string \<Rightarrow> bytes rust" where
  "append_ede_if_edns wire query_wire ede_code extra_text = do {
     e \<leftarrow> has_edns query_wire;
     if e then append_ede_to_response wire ede_code extra_text else ret wire }"

section \<open>Walking the sections\<close>

lemma skip_questions_total [simp]: "12 \<le> length w \<Longrightarrow> skip_questions w \<noteq> None"
  by (simp add: skip_questions_def questions.walk_total)

lemma skip_questions_bounds:
  "skip_questions w = Some (Some q) \<Longrightarrow> 12 \<le> length w \<Longrightarrow> 12 \<le> q \<and> q \<le> length w"
  by (auto simp: skip_questions_def dest!: questions.walk_inside)

lemma skip_to_additional_total [simp]: "12 \<le> length w \<Longrightarrow> skip_to_additional w \<noteq> None"
  using skip_questions_total [of w]
  by (cases "skip_questions w")
    (auto simp: skip_to_additional_def records.walk_total simp del: not_None_eq split: option.split)

lemma skip_to_additional_Some:
  assumes "skip_to_additional w = Some (Some a)" "12 \<le> length w"
  obtains q where "walk question_step (unat (get16 w 4)) w 12 = Some (Some q)"
    "walk record_step (unat (get16 w 6) + unat (get16 w 8)) w q = Some (Some a)"
    "12 \<le> q" "q \<le> a" "a \<le> length w"
proof -
  from assms obtain q where q: "skip_questions w = Some (Some q)"
    and a: "walk record_step (unat (get16 w 6) + unat (get16 w 8)) w q = Some (Some a)"
    by (auto simp: skip_to_additional_def split: Option.bind_splits option.splits)
  note qb = skip_questions_bounds [OF q assms(2)]
  with records.walk_inside [OF a] q a assms(2) show thesis
    by (intro that [of q]) (auto simp: skip_questions_def)
qed

text \<open>The walk to the additional section reads three counts and the bytes it skips.\<close>

lemma skip_to_additional_cong:
  assumes a: "skip_to_additional w = Some (Some a)" and len: "12 \<le> length w"
    and same: "same_between w' w 4 10" "same_between w' w 12 a" "12 \<le> length w'"
  shows "skip_to_additional w' = Some (Some a)"
proof -
  obtain q where q: "walk question_step (unat (get16 w 4)) w 12 = Some (Some q)"
    "walk record_step (unat (get16 w 6) + unat (get16 w 8)) w q = Some (Some a)"
    "12 \<le> q" "q \<le> a" "a \<le> length w"
    using a len by (rule skip_to_additional_Some)
  have counts: "get16 w' 4 = get16 w 4" "get16 w' 6 = get16 w 6" "get16 w' 8 = get16 w 8"
    by (rule get16_same [OF same(1)]; simp)+
  have "walk question_step (unat (get16 w 4)) w' 12 = Some (Some q)"
    using q by (intro questions.walk_local [OF q(1)] same_between_sub [OF same(2)]) auto
  moreover have "walk record_step (unat (get16 w 6) + unat (get16 w 8)) w' q = Some (Some a)"
    using q by (intro records.walk_local [OF q(2)] same_between_sub [OF same(2)]) auto
  ultimately show ?thesis
    using same(3) counts by (simp add: skip_to_additional_def skip_questions_def)
qed

lemma complete_sections:
  assumes "complete w"
  obtains a where "12 \<le> length w" "skip_to_additional w = Some (Some a)" "12 \<le> a" "a \<le> length w"
    "walk record_step (unat (get16 w 10)) w a = Some (Some (length w))"
proof -
  from assms obtain a where a: "12 \<le> length w" "skip_to_additional w = Some (Some a)"
    "walk record_step (unat (get16 w 10)) w a = Some (Some (length w))"
    by (auto simp: complete_def split: option.splits)
  with skip_to_additional_Some [OF a(2,1)] that show thesis by (metis order_trans)
qed

lemma completeI:
  "12 \<le> length w \<Longrightarrow> skip_to_additional w = Some (Some a) \<Longrightarrow>
   walk record_step (unat (get16 w 10)) w a = Some (Some (length w)) \<Longrightarrow> complete w"
  by (simp add: complete_def)

section \<open>Looking for an OPT record\<close>

text \<open>The \<open>j\<close>-th record from \<open>a\<close> is an OPT record at \<open>pos\<close> whose fixed part is at \<open>ne\<close>.\<close>

definition opt_at :: "bytes \<Rightarrow> nat \<Rightarrow> nat \<Rightarrow> nat \<Rightarrow> nat \<Rightarrow> bool" where
  "opt_at w a j pos ne \<longleftrightarrow> walk record_step j w a = Some (Some pos) \<and>
     skip_dns_name w pos = Some (Some ne) \<and> ne + 10 + unat (get16 w (ne + 8)) \<le> length w \<and>
     get16 w ne = 41"

lemma walk_record_Suc:
  assumes "walk record_step (Suc n) w a = Some (Some e)"
  obtains ne p where "skip_dns_name w a = Some (Some ne)" "p = ne + 10 + unat (get16 w (ne + 8))"
    "a < ne" "p \<le> length w" "record_step w a = Some (Some p)" "walk record_step n w p = Some (Some e)"
proof -
  from assms obtain p where p: "record_step w a = Some (Some p)" "walk record_step n w p = Some (Some e)"
    by (auto simp only: records.walk_Suc_Some)
  from record_step_SomeD [OF p(1)] obtain ne where "skip_dns_name w a = Some (Some ne)"
    "p = ne + 10 + unat (get16 w (ne + 8))" "p \<le> length w" by blast
  with p skip_dns_name_progress that show thesis by blast
qed

lemma opt_at_0: "opt_at w a 0 pos ne \<longleftrightarrow> pos = a \<and> skip_dns_name w a = Some (Some ne) \<and>
    ne + 10 + unat (get16 w (ne + 8)) \<le> length w \<and> get16 w ne = 41"
  by (auto simp: opt_at_def)

lemma opt_at_Suc: "record_step w a = Some (Some p) \<Longrightarrow> opt_at w a (Suc j) pos ne \<longleftrightarrow> opt_at w p j pos ne"
  by (simp add: opt_at_def)

definition some_opt :: "nat \<Rightarrow> bytes \<Rightarrow> nat \<Rightarrow> bool" where
  "some_opt n w a \<longleftrightarrow> (\<exists>j<n. \<exists>pos ne. opt_at w a j pos ne)"

lemma some_opt_0 [simp]: "\<not> some_opt 0 w a"
  by (simp add: some_opt_def)

lemma some_optI: "j < n \<Longrightarrow> opt_at w a j pos ne \<Longrightarrow> some_opt n w a"
  by (auto simp: some_opt_def)

lemma some_opt_Suc:
  assumes "skip_dns_name w a = Some (Some ne)" "record_step w a = Some (Some p)"
    "p = ne + 10 + unat (get16 w (ne + 8))" "p \<le> length w"
  shows "some_opt (Suc n) w a \<longleftrightarrow> get16 w ne = 41 \<or> some_opt n w p"
proof
  assume "some_opt (Suc n) w a"
  then obtain j pos ne' where j: "j < Suc n" "opt_at w a j pos ne'" by (auto simp: some_opt_def)
  then show "get16 w ne = 41 \<or> some_opt n w p"
    using assms by (cases j) (auto simp: opt_at_0 opt_at_Suc [OF assms(2)] intro: some_optI)
next
  assume "get16 w ne = 41 \<or> some_opt n w p"
  then show "some_opt (Suc n) w a"
  proof
    assume "get16 w ne = 41"
    with assms have "opt_at w a 0 a ne" by (simp add: opt_at_0)
    then show ?thesis by (rule some_optI [rotated]) simp
  next
    assume "some_opt n w p"
    then obtain j pos ne' where "j < n" "opt_at w p j pos ne'" by (auto simp: some_opt_def)
    with opt_at_Suc [OF assms(2)] show ?thesis by (intro some_optI [of "Suc j"]) auto
  qed
qed

lemma has_opt_scan_complete:
  "walk record_step n w a = Some (Some e) \<Longrightarrow> has_opt_scan n w a = Some (some_opt n w a)"
proof (induction n arbitrary: a)
  case (Suc n)
  from Suc.prems obtain ne p where s: "skip_dns_name w a = Some (Some ne)"
    "p = ne + 10 + unat (get16 w (ne + 8))" "a < ne" "p \<le> length w" "record_step w a = Some (Some p)"
    "walk record_step n w p = Some (Some e)" by (rule walk_record_Suc)
  with Suc.IH [OF s(6)] show ?case by (simp add: some_opt_Suc [OF s(1,5,2,4)])
qed simp

lemma find_opt_Some:
  "find_opt n w a = Some (Some (ne, rl)) \<Longrightarrow> walk record_step n w a = Some (Some e) \<Longrightarrow>
   rl = unat (get16 w (ne + 8)) \<and> (\<exists>j<n. \<exists>pos. opt_at w a j pos ne)"
proof (induction n arbitrary: a)
  case (Suc n)
  from Suc.prems(2) obtain ne' p where s: "skip_dns_name w a = Some (Some ne')"
    "p = ne' + 10 + unat (get16 w (ne' + 8))" "a < ne'" "p \<le> length w" "record_step w a = Some (Some p)"
    "walk record_step n w p = Some (Some e)" by (rule walk_record_Suc)
  show ?case
  proof (cases "get16 w ne' = 41")
    case True
    with s Suc.prems(1) have "ne = ne'" "rl = unat (get16 w (ne + 8))" "opt_at w a 0 a ne"
      by (auto simp: opt_at_0)
    then show ?thesis by blast
  next
    case False
    with s Suc.prems(1) have "find_opt n w p = Some (Some (ne, rl))" by simp
    from Suc.IH [OF this s(6)] obtain j pos where j: "rl = unat (get16 w (ne + 8))" "j < n"
      "opt_at w p j pos ne" by blast
    then have "Suc j < Suc n" "opt_at w a (Suc j) pos ne" by (simp_all add: opt_at_Suc [OF s(5)])
    with j(1) show ?thesis by blast
  qed
qed simp

lemma find_opt_None:
  "find_opt n w a = Some None \<Longrightarrow> walk record_step n w a = Some (Some e) \<Longrightarrow> \<not> some_opt n w a"
proof (induction n arbitrary: a)
  case (Suc n)
  from Suc.prems(2) obtain ne p where s: "skip_dns_name w a = Some (Some ne)"
    "p = ne + 10 + unat (get16 w (ne + 8))" "a < ne" "p \<le> length w" "record_step w a = Some (Some p)"
    "walk record_step n w p = Some (Some e)" by (rule walk_record_Suc)
  with Suc.prems(1) have "get16 w ne \<noteq> 41" "find_opt n w p = Some None"
    by (auto simp: Let_def split: if_splits)
  with Suc.IH [OF _ s(6)] show ?case by (simp add: some_opt_Suc [OF s(1,5,2,4)])
qed simp

lemma find_opt_total [simp]: "find_opt n w a \<noteq> None"
  by (induction n arbitrary: a) (auto simp: Let_def split: option.splits Option.bind_splits)

lemma has_opt_scan_total [simp]: "has_opt_scan n w a \<noteq> None"
  by (induction n arbitrary: a) (auto split: option.splits Option.bind_splits)

lemma do_bit_scan_total [simp]: "do_bit_scan n w a \<noteq> None"
  by (induction n arbitrary: a)
    (auto simp: parse_name_with_offset_def split: option.splits Option.bind_splits)

definition has_opt :: "bytes \<Rightarrow> bool" where
  "has_opt w \<longleftrightarrow> (case skip_to_additional w of
     Some (Some a) \<Rightarrow> has_opt_scan (unat (get16 w 10)) w a = Some True | _ \<Rightarrow> False)"

lemma has_edns_has_opt: "has_edns w = Some (12 \<le> length w \<and> has_opt w)"
proof (cases "12 \<le> length w")
  case True
  then obtain r where r: "skip_to_additional w = Some r" using skip_to_additional_total [of w] by blast
  show ?thesis
  proof (cases r)
    case (Some a)
    obtain b where "has_opt_scan (unat (get16 w 10)) w a = Some b"
      using has_opt_scan_total [of _ w a] by blast
    with r True Some show ?thesis by (auto simp: has_edns_def has_opt_def)
  qed (use r True in \<open>simp add: has_edns_def has_opt_def\<close>)
qed (simp add: has_edns_def)

lemma has_opt_iff:
  assumes "skip_to_additional w = Some (Some a)"
    "walk record_step (unat (get16 w 10)) w a = Some (Some e)"
  shows "has_opt w \<longleftrightarrow> some_opt (unat (get16 w 10)) w a"
  using assms by (simp add: has_opt_def has_opt_scan_complete)

section \<open>Adding a record keeps a message complete\<close>

text \<open>The message with one more additional record at its end.\<close>

definition with_record :: "bytes \<Rightarrow> bytes \<Rightarrow> bytes" where
  "with_record w rr = take 10 w @ to_be16 (saturating_succ (get16 w 10)) @ drop 12 w @ rr"

lemma wr_counts: "12 \<le> length w \<Longrightarrow> wr w 10 (to_be16 v) = Some (take 10 w @ to_be16 v @ drop 12 w)"
  by (simp add: wr_def)

lemma length_with_record [simp]: "12 \<le> length w \<Longrightarrow> length (with_record w rr) = length w + length rr"
  by (simp add: with_record_def)

lemma with_record_count: "12 \<le> length w \<Longrightarrow> get16 (with_record w rr) 10 = saturating_succ (get16 w 10)"
  using get16_mid [of "take 10 w" 10] by (simp add: with_record_def)

lemma with_record_nth: "12 \<le> length w \<Longrightarrow> i < length w \<Longrightarrow> i \<noteq> 10 \<Longrightarrow> i \<noteq> 11 \<Longrightarrow> with_record w rr ! i = w ! i"
  by (auto simp: with_record_def nth_append to_be16_def nth_Cons')

lemma with_record_split:
  assumes "12 \<le> length w"
  obtains h where "with_record w rr = h @ rr" "length h = length w"
  using assms that [of "take 10 w @ to_be16 (saturating_succ (get16 w 10)) @ drop 12 w"]
  by (simp add: with_record_def)

lemma unat_saturating_succ: "v \<noteq> 0xFFFF \<Longrightarrow> unat (saturating_succ v) = Suc (unat v)"
proof -
  assume v: "v \<noteq> 0xFFFF"
  then have "unat v \<noteq> 65535" by (simp add: word_eq_iff_unsigned [where 'a = nat])
  with unat_u16 [of v] have "unat v + 1 < 65536" by linarith
  with v show ?thesis by (simp add: saturating_succ_def unat_word_ariths)
qed

lemma with_record_sections:
  assumes "12 \<le> length w" "skip_to_additional w = Some (Some a)" "12 \<le> a" "a \<le> length w"
    "walk record_step (unat (get16 w 10)) w a = Some (Some (length w))"
    and rr: "skip_dns_name rr 0 = Some (Some ne)" "record_step rr 0 = Some (Some (length rr))"
    and cnt: "get16 w 10 \<noteq> 0xFFFF"
  defines "r \<equiv> with_record w rr"
  shows "skip_to_additional r = Some (Some a)"
    and "walk record_step (unat (get16 w 10)) r a = Some (Some (length w))"
    and "skip_dns_name r (length w) = Some (Some (length w + ne))"
    and "walk record_step (unat (get16 r 10)) r a = Some (Some (length r))"
proof -
  have same: "same_between r w 12 (length w)" "same_between r w 4 10"
    using assms(1) by (auto simp: same_between_def r_def with_record_nth)
  show sk: "skip_to_additional r = Some (Some a)"
    using assms(1,4) same
    by (intro skip_to_additional_cong [OF assms(2,1)]) (auto simp: r_def intro: same_between_sub)
  show wk: "walk record_step (unat (get16 w 10)) r a = Some (Some (length w))"
    using assms(3) by (intro records.walk_local [OF assms(5)] same_between_sub [OF same(1)]) simp_all
  obtain h where h: "r = h @ rr" "length h = length w"
    using with_record_split [OF assms(1)] unfolding r_def by blast
  show "skip_dns_name r (length w) = Some (Some (length w + ne))"
    using skip_dns_name_shift [of h rr 0] rr(1) h by simp
  have st: "record_step r (length w) = Some (Some (length r))"
    using record_step_shift [of h rr 0] rr(2) h by simp
  have "unat (get16 r 10) = unat (get16 w 10) + 1"
    using assms(1) cnt by (simp add: r_def with_record_count unat_saturating_succ)
  with wk st show "walk record_step (unat (get16 r 10)) r a = Some (Some (length r))"
    by (simp only: records.walk_add) simp
qed

lemma root_record:
  assumes "length fixed = 8" "length rdata = unat n"
  shows "skip_dns_name ([0x00] @ fixed @ to_be16 n @ rdata) 0 = Some (Some 1)"
    and "record_step ([0x00] @ fixed @ to_be16 n @ rdata) 0 =
      Some (Some (length ([0x00] @ fixed @ to_be16 n @ rdata)))"
proof -
  let ?r = "[0x00] @ fixed @ to_be16 n @ rdata"
  show s: "skip_dns_name ?r 0 = Some (Some 1)"
    using skip_loop.simps(2) [of 127 ?r 0] by (simp add: skip_dns_name_def)
  have "get16 ?r 9 = n" using get16_mid [of "0 # fixed" 9 n rdata] assms(1) by simp
  with s assms show "record_step ?r 0 = Some (Some (length ?r))"
    by (simp add: record_step_def)
qed

text \<open>Everything about a message that gained an OPT record at its end.\<close>

lemma with_opt_record:
  assumes w: "complete w" "get16 w 10 \<noteq> 0xFFFF"
    and rr: "rr = [0x00] @ (to_be16 41 @ rest) @ to_be16 n @ rdata" "length rest = 6" "length rdata = unat n"
  shows "complete (with_record w rr)" and "has_opt (with_record w rr)"
    and "\<exists>a. skip_to_additional (with_record w rr) = Some (Some a) \<and>
      opt_at (with_record w rr) a (unat (get16 w 10)) (length w) (length w + 1)"
proof -
  obtain a where a: "12 \<le> length w" "skip_to_additional w = Some (Some a)" "12 \<le> a" "a \<le> length w"
    "walk record_step (unat (get16 w 10)) w a = Some (Some (length w))"
    using w(1) by (rule complete_sections)
  let ?r = "with_record w rr"
  have fx: "length (to_be16 41 @ rest) = 8" using rr(2) by simp
  have ss: "skip_dns_name rr 0 = Some (Some 1)" "record_step rr 0 = Some (Some (length rr))"
    unfolding rr(1) using root_record [OF fx rr(3)] by simp_all
  note S = with_record_sections [OF a ss w(2)]
  show "complete ?r" using a S by (intro completeI [of _ a]) auto
  obtain h where h: "?r = h @ rr" "length h = length w"
    using with_record_split [OF a(1)] by blast
  have ty: "get16 ?r (length w + 1) = 41"
    using get16_shift [of h rr 1] get16_mid [of "[0x00]" 1 41] h rr(1) by simp
  have ln: "get16 ?r (length w + 1 + 8) = n"
    using get16_shift [of h rr 9] get16_mid [of "[0x00] @ to_be16 41 @ rest" 9 n rdata] h rr(1,2)
    by (simp add: add.commute)
  have op: "opt_at ?r a (unat (get16 w 10)) (length w) (length w + 1)"
    unfolding opt_at_def ln ty using S(2,3) a(1) rr by simp
  then show "\<exists>a. skip_to_additional ?r = Some (Some a) \<and>
      opt_at ?r a (unat (get16 w 10)) (length w) (length w + 1)" using S(1) by blast
  have "some_opt (unat (get16 ?r 10)) ?r a"
    using a(1) w(2) by (intro some_optI [OF _ op]) (simp add: with_record_count unat_saturating_succ)
  then show "has_opt ?r" using has_opt_iff [OF S(1,4)] by simp
qed

lemma ede_append_new_opt_form:
  "12 \<le> length w \<Longrightarrow> ede_append_new_opt w opt = Some (with_record w
     ([0x00] @ (to_be16 41 @ to_be16 4096 @ [0, 0, 0, 0]) @ to_be16 (word_of_nat (length opt)) @ opt))"
  by (simp add: ede_append_new_opt_def with_record_def wr_counts)

section \<open>Rewriting an OPT record keeps a message complete\<close>

text \<open>
  The record at \<open>pos\<close> is replaced by one with the same owner name and type; what comes before
  it and what comes after it is unchanged, the latter possibly moved.
\<close>

lemma replaced_record:
  assumes w: "12 \<le> length w" "skip_to_additional w = Some (Some a)" "12 \<le> a"
    "walk record_step (unat (get16 w 10)) w a = Some (Some (length w))"
    and j: "j < unat (get16 w 10)" "opt_at w a j pos ne"
    and e: "e = ne + 10 + unat (get16 w (ne + 8))"
    and r: "r = take (ne + 2) w @ mid @ drop e w" "8 \<le> length mid"
    and len: "unat (get16 r (ne + 8)) = length mid - 8"
  shows "complete r" and "has_opt r" and "skip_to_additional r = Some (Some a)"
    and "opt_at r a j pos ne" and "get16 r 10 = get16 w 10"
proof -
  from j(2) have o: "walk record_step j w a = Some (Some pos)" "skip_dns_name w pos = Some (Some ne)"
    "e \<le> length w" "get16 w ne = 41" by (auto simp: opt_at_def e)
  from skip_dns_name_progress [OF o(2)] have ne: "pos < ne" by simp
  have a_le: "a \<le> length w" using skip_to_additional_Some [OF w(2,1)] by metis
  with records.walk_inside [OF o(1)] have pos: "a \<le> pos" by simp
  have same: "same_between r w 0 (ne + 2)"
    using o(3) e by (auto simp: same_between_def r nth_append)
  have lr: "ne + 10 \<le> length r" using o(3) e r by simp
  show cnt: "get16 r 10 = get16 w 10" using ne pos w(3) by (intro get16_same [OF same]) auto
  show sk: "skip_to_additional r = Some (Some a)"
    using ne pos w(3) lr by (intro skip_to_additional_cong [OF w(2,1)] same_between_sub [OF same]) auto
  have wj: "walk record_step j r a = Some (Some pos)"
    using ne by (intro records.walk_local [OF o(1)] same_between_sub [OF same]) auto
  have sp: "skip_dns_name r pos = Some (Some ne)"
    using ne by (intro skip_dns_name_local [OF o(2)] same_between_sub [OF same]) auto
  have ty: "get16 r ne = 41" using o(4) get16_same [OF same, of ne] by simp
  let ?h = "take (ne + 2) w @ mid"
  have h: "r = ?h @ drop e w" "length ?h = ne + 2 + length mid" "w = take e w @ drop e w"
    "length (take e w) = e" using r o(3) e by simp_all
  have e': "ne + 10 + unat (get16 r (ne + 8)) = length ?h" using len h(2) r(2) by simp
  have st: "record_step r pos = Some (Some (length ?h))"
    using sp lr e' h(1) by (simp add: record_step_def)
  obtain m where m: "unat (get16 w 10) = j + Suc m"
    using j(1) less_iff_Suc_add by auto
  have "walk record_step (Suc m) w pos = Some (Some (length w))"
    using w(4) o(1) by (simp only: m records.walk_add) simp
  moreover have "record_step w pos = Some (Some e)"
    using o e by (simp add: record_step_def)
  ultimately have "walk record_step m w e = Some (Some (length w))" by simp
  moreover have "walk record_step m w e = shifted e (walk record_step m (drop e w) 0)"
    using records.walk_shift [of m "take e w" "drop e w" 0] h(4) by simp
  ultimately have tail: "walk record_step m (drop e w) 0 = Some (Some (length w - e))" by auto
  have "walk record_step m (?h @ drop e w) (length ?h + 0) = Some (Some (length ?h + (length w - e)))"
    by (simp only: records.walk_shift tail) simp
  then have "walk record_step m r (length ?h) = Some (Some (length r))" using h(1) by simp
  with wj st have wr: "walk record_step (unat (get16 r 10)) r a = Some (Some (length r))"
    unfolding cnt m by (simp only: records.walk_add) simp
  show op: "opt_at r a j pos ne"
    using wj sp ty e' h(1) by (simp add: opt_at_def)
  show "complete r" using lr ne pos w(3) by (intro completeI [OF _ sk wr]) simp
  have "some_opt (unat (get16 r 10)) r a" using j(1) op cnt by (auto intro: some_optI)
  then show "has_opt r" using has_opt_iff [OF sk wr] by simp
qed

lemma unat_of_nat_u16: "k < 65536 \<Longrightarrow> unat (word_of_nat k :: u16) = k"
  by (simp add: unat_of_nat take_bit_nat_eq_self)

lemma splice_at_append: "splice_at (x @ y) (length x) new = Some (x @ new @ y)"
  by (simp add: splice_at_def)

lemma append_option_complete:
  assumes w: "complete w" "get16 w 10 \<noteq> 0xFFFF" and opt: "length opt < 65536"
  obtains r where "append_option w opt = Some r" "complete r" "has_opt r" "take 10 r = take 10 w"
    "\<not> has_opt w \<Longrightarrow> r = with_record w
       ([0x00] @ (to_be16 41 @ to_be16 4096 @ [0, 0, 0, 0]) @ to_be16 (word_of_nat (length opt)) @ opt)"
proof -
  obtain a where a: "12 \<le> length w" "skip_to_additional w = Some (Some a)" "12 \<le> a" "a \<le> length w"
    "walk record_step (unat (get16 w 10)) w a = Some (Some (length w))"
    using w(1) by (rule complete_sections)
  obtain f where f: "find_opt (unat (get16 w 10)) w a = Some f"
    using find_opt_total by blast
  show thesis
  proof (cases f)
    case None
    let ?rr = "[0x00] @ (to_be16 41 @ to_be16 4096 @ [0, 0, 0, 0]) @ to_be16 (word_of_nat (length opt)) @ opt"
    have "append_option w opt = Some (with_record w ?rr)"
      using a f None by (simp add: append_option_def ede_append_new_opt_form)
    moreover have "length opt = unat (word_of_nat (length opt) :: u16)"
      using opt by (simp add: unat_of_nat take_bit_nat_eq_self)
    note R = with_opt_record [OF w refl _ this, of "to_be16 4096 @ [0, 0, 0, 0]"]
    moreover have "take 10 (with_record w ?rr) = take 10 w" using a(1) by (simp add: with_record_def)
    ultimately show thesis by (intro that) auto
  next
    case (Some nr)
    then obtain ne rl where nr: "find_opt (unat (get16 w 10)) w a = Some (Some (ne, rl))"
      using f by (cases nr) auto
    from find_opt_Some [OF nr a(5)] obtain j pos where j: "rl = unat (get16 w (ne + 8))"
      "j < unat (get16 w 10)" "opt_at w a j pos ne" by blast
    have has: "has_opt w" using has_opt_iff [OF a(2,5)] j by (auto intro: some_optI)
    have e: "ne + 10 + rl \<le> length w" using j by (simp add: opt_at_def)
    have pn: "a < ne"
      using j(3) records.walk_inside [of j w a pos] a(4) skip_dns_name_progress [of w pos ne]
      by (auto simp: opt_at_def)
    show thesis
    proof (cases "rl + length opt > 65535")
      case True
      then have "append_option w opt = Some w"
        using a e nr by (simp add: append_option_def)
      with has w(1) show thesis by (intro that) auto
    next
      case False
      define n where "n = (word_of_nat (rl + length opt) :: u16)"
      have n: "unat n = rl + length opt"
        using False unfolding n_def by (intro unat_of_nat_u16) simp
      define mid where "mid = take 6 (drop (ne + 2) w) @ to_be16 n @ take rl (drop (ne + 10) w) @ opt"
      define r where "r = take (ne + 2) w @ mid @ drop (ne + 10 + rl) w"
      have pre: "take (ne + 8) w = take (ne + 2) w @ take 6 (drop (ne + 2) w)"
        using take_add [of "ne + 2" 6 w] by (simp add: add.commute)
      have suf: "drop (ne + 10) w = take rl (drop (ne + 10) w) @ drop (ne + 10 + rl) w"
        by (simp add: add.commute append_take_drop_id flip: drop_drop)
      let ?x = "take (ne + 8) w @ to_be16 n @ take rl (drop (ne + 10) w)"
      have lx: "length ?x = ne + 10 + rl" using e by simp
      have "append_option w opt =
          splice_at (take (ne + 8) w @ to_be16 n @ drop (ne + 10) w) (ne + 10 + rl) opt"
        using a e nr False by (simp add: append_option_def Let_def n_def add.commute)
      also have "take (ne + 8) w @ to_be16 n @ drop (ne + 10) w = ?x @ drop (ne + 10 + rl) w"
        using suf by simp
      also have "splice_at (?x @ drop (ne + 10 + rl) w) (ne + 10 + rl) opt =
          Some (?x @ opt @ drop (ne + 10 + rl) w)"
        using splice_at_append [of ?x _ opt] unfolding lx by blast
      also have "?x @ opt @ drop (ne + 10 + rl) w = r"
        unfolding r_def mid_def pre by simp
      finally have "append_option w opt = Some r" .
      moreover have "length mid = 8 + rl + length opt" using e by (simp add: mid_def)
      moreover have "get16 r (ne + 8) = n"
        using e get16_mid [of "take (ne + 2) w @ take 6 (drop (ne + 2) w)" "ne + 8" n]
        by (simp add: r_def mid_def)
      moreover have "take 10 r = take 10 w" using e pn a(3) by (simp add: r_def min_def)
      ultimately show thesis
        using replaced_record [OF a(1-3,5) j(2,3) _ r_def] n has e j(1)
        by (intro that [of r]) auto
    qed
  qed
qed

lemma ede_append_new_opt_total [simp]: "ede_append_new_opt w opt \<noteq> None"
  using ede_append_new_opt_form [of w opt] by (cases "12 \<le> length w") (auto simp: ede_append_new_opt_def)

lemma find_opt_bound: "find_opt n w a = Some (Some (ne, rl)) \<Longrightarrow> ne + 10 \<le> length w"
  by (induction n arbitrary: a)
    (auto simp: Let_def split: option.splits Option.bind_splits if_splits)

lemma append_option_total: "12 \<le> length w \<Longrightarrow> append_option w opt \<noteq> None"
proof -
  assume w: "12 \<le> length w"
  obtain r where r: "skip_to_additional w = Some r" using skip_to_additional_total [OF w] by blast
  show ?thesis
  proof (cases r)
    case None
    with r show ?thesis using ede_append_new_opt_total by (simp add: append_option_def)
  next
    case (Some a)
    obtain f where f: "find_opt (unat (get16 w 10)) w a = Some f" using find_opt_total by blast
    show ?thesis
      using r Some f w find_opt_bound [of "unat (get16 w 10)" w a]
      by (cases f) (auto simp: append_option_def splice_at_def Let_def)
  qed
qed

section \<open>Setting the DO bit\<close>

lemma do_bit_scan_Some:
  "do_bit_scan n w a = Some (Some ne) \<Longrightarrow> ne + 10 \<le> length w"
  by (induction n arbitrary: a)
    (auto split: option.splits Option.bind_splits if_splits)

lemma ensure_total: "ensure_edns0_do_bit w \<noteq> None"
proof (cases "12 \<le> length w")
  case True
  obtain r where r: "skip_to_additional w = Some r" using skip_to_additional_total [OF True] by blast
  show ?thesis
  proof (cases r)
    case (Some a)
    obtain f where f: "do_bit_scan (unat (get16 w 10)) w a = Some f" using do_bit_scan_total by blast
    show ?thesis
    proof (cases f)
      case (Some ne)
      with f have "ne + 10 \<le> length w" by (auto dest: do_bit_scan_Some)
      with r f \<open>r = Some a\<close> Some True show ?thesis by (simp add: ensure_edns0_do_bit_def)
    qed (use r f Some True in \<open>simp add: ensure_edns0_do_bit_def\<close>)
  qed (use r True in \<open>simp add: ensure_edns0_do_bit_def\<close>)
qed (simp add: ensure_edns0_do_bit_def)

lemma do_bit_scan_opt:
  "do_bit_scan n w a = Some (Some ne) \<Longrightarrow> walk record_step n w a = Some (Some e) \<Longrightarrow>
   \<exists>j<n. \<exists>pos. opt_at w a j pos ne"
proof (induction n arbitrary: a)
  case (Suc n)
  from Suc.prems(2) obtain ne' p where s: "skip_dns_name w a = Some (Some ne')"
    "p = ne' + 10 + unat (get16 w (ne' + 8))" "a < ne'" "p \<le> length w" "record_step w a = Some (Some p)"
    "walk record_step n w p = Some (Some e)" by (rule walk_record_Suc)
  from s(3,4) s(2) have al: "a < length w" by simp
  obtain nm q where q: "parse_name_with_offset w a = Some (Some (nm, q))" "q + 10 \<le> length w"
    using Suc.prems(1) al by (auto split: option.splits Option.bind_splits if_splits)
  have "skip_dns_name w a = Some (Some q)"
    using parse_name_SomeD(3) [OF q(1) [unfolded parse_name_with_offset_def]] q(2) al by simp
  with s(1) have [simp]: "q = ne'" by simp
  show ?case
  proof (cases "get16 w ne' = 41")
    case True
    with Suc.prems(1) q al s have "ne = ne'" "opt_at w a 0 a ne" by (auto simp: opt_at_0)
    then show ?thesis by blast
  next
    case False
    with Suc.prems(1) q al s have "do_bit_scan n w p = Some (Some ne)" by simp
    from Suc.IH [OF this s(6)] obtain j pos where "j < n" "opt_at w p j pos ne" by blast
    then have "Suc j < Suc n" "opt_at w a (Suc j) pos ne" by (simp_all add: opt_at_Suc [OF s(5)])
    then show ?thesis by blast
  qed
qed simp

text \<open>Some OPT record of the additional section has the DO bit.\<close>

definition do_opt :: "bytes \<Rightarrow> bool" where
  "do_opt w \<longleftrightarrow> (\<exists>a j pos ne. skip_to_additional w = Some (Some a) \<and> j < unat (get16 w 10) \<and>
     opt_at w a j pos ne \<and> bit (w ! (ne + 6)) 7)"

lemma ensure_complete:
  assumes w: "complete w" "get16 w 10 \<noteq> 0xFFFF"
  obtains r where "ensure_edns0_do_bit w = Some r" "complete r" "do_opt r"
    "length w \<le> length r" "length r \<le> length w + 11"
proof -
  obtain a where a: "12 \<le> length w" "skip_to_additional w = Some (Some a)" "12 \<le> a" "a \<le> length w"
    "walk record_step (unat (get16 w 10)) w a = Some (Some (length w))"
    using w(1) by (rule complete_sections)
  obtain f where f: "do_bit_scan (unat (get16 w 10)) w a = Some f" using do_bit_scan_total by blast
  show thesis
  proof (cases f)
    case None
    let ?rr = "[0x00] @ (to_be16 41 @ [0x04, 0xD0, 0, 0, 0x80, 0]) @ to_be16 0 @ []"
    have rr: "edns0_opt_do = ?rr" by (simp add: edns0_opt_do_def to_be16_def)
    have "ensure_edns0_do_bit w = Some (with_record w edns0_opt_do)"
      using a f None by (simp add: ensure_edns0_do_bit_def wr_counts with_record_def)
    then have r: "ensure_edns0_do_bit w = Some (with_record w ?rr)" by (simp only: rr)
    have "complete (with_record w ?rr)" and ex: "\<exists>a. skip_to_additional (with_record w ?rr) = Some (Some a) \<and>
        opt_at (with_record w ?rr) a (unat (get16 w 10)) (length w) (length w + 1)"
      by (rule with_opt_record [OF w refl]; simp)+
    moreover have "bit (with_record w ?rr ! (length w + 1 + 6)) 7"
    proof -
      obtain h where "with_record w ?rr = h @ ?rr" "length h = length w"
        using with_record_split [OF a(1)] by blast
      then have "with_record w ?rr ! (length w + 7) = ?rr ! 7" by (simp only: nth_append_length_plus flip: \<open>length h = length w\<close>)
      also have "bit (?rr ! 7) 7" by (simp add: to_be16_def bit_numeral_rec)
      finally show ?thesis by (simp add: add.commute)
    qed
    moreover have "unat (get16 w 10) < unat (get16 (with_record w ?rr) 10)"
      using a(1) w(2) by (simp add: with_record_count unat_saturating_succ)
    ultimately have "do_opt (with_record w ?rr)" unfolding do_opt_def by blast
    with r \<open>complete (with_record w ?rr)\<close> show thesis by (rule that) (use a(1) in simp_all)
  next
    case (Some ne)
    from do_bit_scan_opt [OF f [unfolded Some] a(5)] obtain j pos where j: "j < unat (get16 w 10)"
      "opt_at w a j pos ne" by blast
    have len: "ne + 10 + unat (get16 w (ne + 8)) \<le> length w" using j(2) by (simp add: opt_at_def)
    define b where "b = w ! (ne + 6)"
    define v where "v = get16 w (ne + 8)"
    define mid where "mid = take 4 (drop (ne + 2) w) @ [b OR 0x80] @ [w ! (ne + 7)] @ to_be16 v
      @ take (unat v) (drop (ne + 10) w)"
    let ?e = "ne + 10 + unat v"
    define r where "r = take (ne + 2) w @ mid @ drop ?e w"
    have "take (ne + 6) w @ [b OR 0x80] @ drop (ne + 7) w = r"
    proof -
      have "take (ne + 6) w = take (ne + 2) w @ take 4 (drop (ne + 2) w)"
        using take_add [of "ne + 2" 4 w] by (simp add: add.commute)
      moreover have "drop (ne + 7) w = [w ! (ne + 7)] @ to_be16 v @ drop (ne + 10) w"
        using len Cons_nth_drop_Suc [of "ne + 7" w] Cons_nth_drop_Suc [of "ne + 8" w]
          Cons_nth_drop_Suc [of "ne + 9" w] by (simp add: v_def get16_def add.commute)
      moreover have "drop (ne + 10) w = take (unat v) (drop (ne + 10) w) @ drop ?e w"
        by (simp add: add.commute append_take_drop_id flip: drop_drop)
      ultimately show ?thesis by (simp add: r_def mid_def)
    qed
    then have e: "ensure_edns0_do_bit w = Some r"
      using a f Some len by (simp add: ensure_edns0_do_bit_def b_def add.commute)
    have lm: "length mid = 8 + unat v" using len by (simp add: mid_def v_def)
    have g: "get16 r (ne + 8) = v"
      using len get16_mid [of "take (ne + 2) w @ take 4 (drop (ne + 2) w) @ [b OR 0x80] @ [w ! (ne + 7)]" "ne + 8" v]
      by (simp add: r_def mid_def)
    have "length r = length w" using lm len by (simp add: r_def v_def)
    have "r ! (ne + 6) = b OR 0x80"
      using len by (simp add: r_def mid_def nth_append)
    then have bt: "bit (r ! (ne + 6)) 7" by (simp add: bit_or_iff bit_numeral_rec)
    have "complete r" "do_opt r"
      using replaced_record [OF a(1-3,5) j _ r_def] lm g bt j(1) by (auto simp: v_def do_opt_def)
    with e show thesis by (rule that) (simp_all only: \<open>length r = length w\<close> order_refl le_add1)
  qed
qed

section \<open>Properties of the OPT record writers\<close>

text \<open>
  A response with one question, no OPT record; the same with an OPT record of UDP size 1232.
\<close>

definition plain_response :: bytes where
  "plain_response = [0, 7, 0x81, 0x80, 0, 1, 0, 0, 0, 0, 0, 0, 3, 102, 111, 111, 0, 0, 1, 0, 1]"

definition opt_response :: bytes where
  "opt_response = [0, 7, 0x81, 0x80, 0, 1, 0, 0, 0, 0, 0, 1, 3, 102, 111, 111, 0, 0, 1, 0, 1,
     0, 0, 41, 4, 208, 0, 0, 0, 0, 0, 0]"

lemma complete_plain: "complete plain_response" by code_simp
lemma complete_opt: "complete opt_response" by code_simp
lemma no_opt_plain: "\<not> has_opt plain_response" by code_simp

text \<open>
  On a complete message whose additional count is not saturated, appending an Extended
  DNS Error does not panic, leaves a complete message with an OPT record, and changes
  nothing in the header before the additional count.
\<close>

theorem ede_keeps_complete:
  assumes "complete wire" and "get16 wire 10 \<noteq> 0xFFFF"
  shows "\<exists>r. append_ede_to_response wire ede_code extra_text = ret r \<and> complete r \<and>
    has_edns r = ret True \<and> take 10 r = take 10 wire"
proof -
  have len: "12 \<le> length wire" using assms(1) by (simp add: complete_def)
  let ?t = "(if length (ascii extra_text) > 256 then take 256 (ascii extra_text) else ascii extra_text)"
  have "length (to_be16 15 @ to_be16 (2 + word_of_nat (length ?t)) @ to_be16 ede_code @ ?t) < 65536"
    by simp
  from append_option_complete [OF assms this] obtain r where
    r: "append_option wire (to_be16 15 @ to_be16 (2 + word_of_nat (length ?t)) @ to_be16 ede_code @ ?t) = Some r"
    "complete r" "has_opt r" "take 10 r = take 10 wire" by blast
  moreover have "12 \<le> length r" using r(2) by (simp add: complete_def)
  ultimately show ?thesis
    using len by (simp add: append_ede_to_response_def Let_def has_edns_has_opt)
qed

theorem ede_keeps_complete_witness:
  "\<exists>r. append_ede_to_response opt_response 15 ''Blocked'' = ret r \<and> complete r \<and> take 10 r = take 10 opt_response"
proof -
  have "get16 opt_response 10 \<noteq> 0xFFFF" by code_simp
  from ede_keeps_complete [OF complete_opt this, of 15 "''Blocked''"] show ?thesis by blast
qed

text \<open>
  \<open>ensure_edns0_do_bit\<close> on a complete query whose additional count is not saturated
  returns a complete query that carries an OPT record with the DO bit, at most eleven bytes
  longer.
\<close>

theorem do_bit_is_set:
  assumes "complete query_buf" and "get16 query_buf 10 \<noteq> 0xFFFF"
  shows "\<exists>r. ensure_edns0_do_bit query_buf = ret r \<and> complete r \<and> do_opt r \<and>
    length query_buf \<le> length r \<and> length r \<le> length query_buf + 11"
  using ensure_complete [OF assms] by blast

theorem do_bit_is_set_witness:
  "\<exists>r. ensure_edns0_do_bit plain_response = ret r \<and> do_opt r"
proof -
  have "get16 plain_response 10 \<noteq> 0xFFFF" by code_simp
  from do_bit_is_set [OF complete_plain this] show ?thesis by blast
qed

end
