(* ===== verification/Ecs.thy ===== *)
theory Ecs
  imports Edns
begin

text \<open>
  The EDNS client subnet scrubber of \<open>src/dns/parser.rs\<close> (RFC 7871): \<open>process_ecs_option\<close> with
  \<open>strip_ecs_from_rdata\<close> and \<open>anonymize_ecs_in_rdata\<close>.

  \<open>options\<close> is the reference reading of OPT data as a list of options. The lemmas show that the
  two index loops are a filter and a map on that list, and that the whole-message function
  keeps a complete message complete.
\<close>

section \<open>Client subnet\<close>

datatype ecs_mode = Strip | Anonymize | Passthrough

definition ecs_option_code :: u16 where "ecs_option_code = 8"

text \<open>Both loops are \<open>while pos + 4 <= rdata.len()\<close>; every round moves past an option.\<close>

function strip_ecs_loop :: "bytes \<Rightarrow> nat \<Rightarrow> bytes \<Rightarrow> bytes rust" where
  "strip_ecs_loop rdata pos out =
    (if pos + 4 \<le> length rdata then do {
       opt_code \<leftarrow> rd16 rdata pos;
       opt_len \<leftarrow> count16 rdata (pos + 2);
       let opt_end = pos + 4 + opt_len;
       if opt_end > length rdata then ret out
       else do {
         opt \<leftarrow> slice rdata pos opt_end;
         strip_ecs_loop rdata opt_end (if opt_code \<noteq> ecs_option_code then out @ opt else out) } }
     else ret out)"
  by pat_completeness auto
termination
  by (relation "measure (\<lambda>(rdata, pos, _). length rdata - pos)") auto

declare strip_ecs_loop.simps [simp del]

definition strip_ecs_from_rdata :: "bytes \<Rightarrow> bytes rust" where
  "strip_ecs_from_rdata rdata = strip_ecs_loop rdata 0 []"

text \<open>The body of the anonymizing loop for one client subnet option.\<close>

definition anonymize_option :: "bytes \<Rightarrow> nat \<Rightarrow> nat \<Rightarrow> bytes rust" where
  "anonymize_option rdata pos opt_end = do {
     family \<leftarrow> rd16 rdata (pos + 4);
     let max_prefix = (if family = 1 then 16 else 48 :: u8);
     prefix \<leftarrow> rd rdata (pos + 6);
     if prefix > max_prefix then do {
       rdata \<leftarrow> wr rdata (pos + 6) [max_prefix];
       let addr_start = pos + 8;
       let prefix_bytes = (unat max_prefix + 7) div 8;
       let addr_end = min opt_end (addr_start + (if family = 1 then 4 else 16));
       if addr_start + prefix_bytes < addr_end
       then wr rdata (addr_start + prefix_bytes) (replicate (addr_end - (addr_start + prefix_bytes)) 0)
       else ret rdata }
     else ret rdata }"

function anonymize_loop :: "bytes \<Rightarrow> nat \<Rightarrow> bytes rust" where
  "anonymize_loop rdata pos =
    (if pos + 4 \<le> length rdata then do {
       opt_code \<leftarrow> rd16 rdata pos;
       opt_len \<leftarrow> count16 rdata (pos + 2);
       let opt_end = pos + 4 + opt_len;
       if opt_end > length rdata then ret rdata
       else do {
         rdata' \<leftarrow> (if opt_code = ecs_option_code \<and> opt_len \<ge> 4 then anonymize_option rdata pos opt_end
                   else ret rdata);
         anonymize_loop rdata' opt_end } }
     else ret rdata)"
  by pat_completeness auto
termination
  by (relation "measure (\<lambda>(rdata, pos). length rdata - pos)")
    (auto simp: anonymize_option_def Let_def dest!: length_wr split: Option.bind_splits if_splits)

declare anonymize_loop.simps [simp del]

definition anonymize_ecs_in_rdata :: "bytes \<Rightarrow> bytes rust" where
  "anonymize_ecs_in_rdata rdata = anonymize_loop rdata 0"

text \<open>This function's record loop does not check where the last record ends.\<close>

definition record_step_unchecked :: step where
  "record_step_unchecked wire pos = do {
     r \<leftarrow> skip_dns_name wire pos;
     case r of None \<Rightarrow> ret None
     | Some p \<Rightarrow>
         if p + 10 > length wire then ret None
         else do { rdlen \<leftarrow> count16 wire (p + 8); ret (Some (p + 10 + rdlen)) } }"

primrec ecs_scan :: "nat \<Rightarrow> ecs_mode \<Rightarrow> bytes \<Rightarrow> nat \<Rightarrow> bytes rust" where
  "ecs_scan 0 mode out ar_pos = ret out"
| "ecs_scan (Suc n) mode out ar_pos =
    (if ar_pos \<ge> length out then ret out
     else do {
       r \<leftarrow> skip_dns_name out ar_pos;
       case r of None \<Rightarrow> ret out
       | Some name_end \<Rightarrow>
           if name_end + 10 > length out then ret out
           else do {
             rtype \<leftarrow> rd16 out name_end;
             rdlen \<leftarrow> count16 out (name_end + 8);
             let rdata_start = name_end + 10;
             let rdata_end = rdata_start + rdlen;
             if rtype = 41 \<and> rdata_end \<le> length out then do {
               rdata \<leftarrow> slice out rdata_start rdata_end;
               (case mode of
                  Strip \<Rightarrow> do {
                    new_rdata \<leftarrow> strip_ecs_from_rdata rdata;
                    wr (take rdata_start out @ new_rdata @ drop rdata_end out) (name_end + 8)
                      (to_be16 (word_of_nat (length new_rdata))) }
                | Anonymize \<Rightarrow> do {
                    rdata' \<leftarrow> anonymize_ecs_in_rdata rdata;
                    wr out rdata_start rdata' }
                | Passthrough \<Rightarrow> panic) }
             else if rdata_end > length out then ret out
             else ecs_scan n mode out rdata_end } })"

definition process_ecs_option :: "bytes \<Rightarrow> ecs_mode \<Rightarrow> bytes rust" where
  "process_ecs_option wire mode =
    (if mode = Passthrough then ret wire
     else if length wire < 12 then ret wire
     else do {
       arcount \<leftarrow> count16 wire 10;
       r \<leftarrow> skip_questions wire;
       case r of None \<Rightarrow> ret wire
       | Some pos \<Rightarrow> do {
           ancount \<leftarrow> count16 wire 6;
           nscount \<leftarrow> count16 wire 8;
           r \<leftarrow> walk record_step_unchecked (ancount + nscount) wire pos;
           case r of None \<Rightarrow> ret wire
           | Some ar_pos \<Rightarrow> ecs_scan arcount mode wire ar_pos } })"

section \<open>OPT data as a list of options\<close>

type_synonym edns_option = "u16 \<times> bytes"

function options :: "bytes \<Rightarrow> edns_option list" where
  "options bs =
    (if length bs < 4 then []
     else let n = unat (get16 bs 2) in
       if length bs < 4 + n then []
       else (get16 bs 0, take n (drop 4 bs)) # options (drop (4 + n) bs))"
  by pat_completeness auto
termination by (relation "measure length") auto

declare options.simps [simp del]

definition encode_option :: "edns_option \<Rightarrow> bytes" where
  "encode_option o' = to_be16 (fst o') @ to_be16 (word_of_nat (length (snd o'))) @ snd o'"

definition encode_options :: "edns_option list \<Rightarrow> bytes" where
  "encode_options os = concat (map encode_option os)"

lemma encode_options_simps [simp]: "encode_options [] = []"
  "encode_options (o' # os) = encode_option o' @ encode_options os"
  by (simp_all add: encode_options_def)

lemma options_short: "length bs < 4 \<Longrightarrow> options bs = []"
  by (simp add: options.simps)

lemma options_cut: "4 \<le> length bs \<Longrightarrow> length bs < 4 + unat (get16 bs 2) \<Longrightarrow> options bs = []"
  by (simp add: options.simps)

lemma options_step: "4 + unat (get16 bs 2) \<le> length bs \<Longrightarrow>
    options bs = (get16 bs 0, take (unat (get16 bs 2)) (drop 4 bs)) # options (drop (4 + unat (get16 bs 2)) bs)"
  by (subst options.simps) (simp add: Let_def)

lemma options_encode_option:
  assumes "length d < 65536"
  shows "options (encode_option (c, d) @ bs) = (c, d) # options bs"
proof -
  have n: "unat (word_of_nat (length d) :: u16) = length d" using assms by (rule unat_of_nat_u16)
  have g: "get16 (encode_option (c, d) @ bs) 0 = c" "get16 (encode_option (c, d) @ bs) 2 = word_of_nat (length d)"
    using get16_mid [of "[]" 0 c] get16_mid [of "to_be16 c" 2 "word_of_nat (length d)"]
    by (simp_all add: encode_option_def)
  show ?thesis
    by (subst options_step) (simp_all add: g n, simp_all add: encode_option_def)
qed

lemma options_encode: "(\<And>c d. (c, d) \<in> set os \<Longrightarrow> length d < 65536) \<Longrightarrow> options (encode_options os) = os"
proof (induction os)
  case Nil
  show ?case by (simp add: options_short)
next
  case (Cons o' os)
  obtain c d where o': "o' = (c, d)" by (cases o')
  then have "length d < 65536" using Cons.prems [of c d] by simp
  moreover have "options (encode_options os) = os" using Cons.prems by (intro Cons.IH) auto
  ultimately show ?case using o' by (simp add: options_encode_option)
qed

lemma options_length: "(c, d) \<in> set (options bs) \<Longrightarrow> length d < 65536"
proof (induction bs rule: options.induct)
  case (1 bs)
  show ?case
  proof (cases "length bs < 4 \<or> length bs < 4 + unat (get16 bs 2)")
    case True
    with 1 show ?thesis by (auto simp: options.simps [of bs] split: if_splits)
  next
    case False
    then have "(c, d) = (get16 bs 0, take (unat (get16 bs 2)) (drop 4 bs)) \<or>
        (c, d) \<in> set (options (drop (4 + unat (get16 bs 2)) bs))"
      using 1(2) by (simp add: options_step)
    then show ?thesis
      using 1(1) [OF _ refl] False unat_u16 [of "get16 bs 2"] by fastforce
  qed
qed

section \<open>Stripping is a filter\<close>

definition not_ecs :: "edns_option \<Rightarrow> bool" where
  "not_ecs o' \<longleftrightarrow> fst o' \<noteq> 8"

lemma not_ecs_pair [simp]: "not_ecs (c, d) \<longleftrightarrow> c \<noteq> 8"
  by (simp add: not_ecs_def)

lemma encode_read_option:
  "4 + unat (get16 bs 2) \<le> length bs \<Longrightarrow>
   encode_option (get16 bs 0, take (unat (get16 bs 2)) (drop 4 bs)) = take (4 + unat (get16 bs 2)) bs"
proof -
  assume a: "4 + unat (get16 bs 2) \<le> length bs"
  then obtain b0 b1 b2 b3 rest where b: "bs = b0 # b1 # b2 # b3 # rest"
    by (auto simp: numeral_eq_Suc Suc_le_length_iff)
  moreover have "take (4 + unat (be16 b2 b3)) bs = b0 # b1 # b2 # b3 # take (unat (be16 b2 b3)) rest"
    using b by (simp add: numeral_eq_Suc)
  ultimately show ?thesis
    using a by (simp add: encode_option_def min_def get16_def)
qed

lemma drop_reads:
  assumes "pos + 4 \<le> length rdata"
  shows "rd16 rdata pos = Some (get16 (drop pos rdata) 0)"
    and "count16 rdata (pos + 2) = Some (unat (get16 (drop pos rdata) 2))"
  using assms by (simp_all add: get16_def numeral_3_eq_3)

lemma strip_loop_filter:
  "pos \<le> length rdata \<Longrightarrow>
   strip_ecs_loop rdata pos out = Some (out @ encode_options (filter not_ecs (options (drop pos rdata))))"
proof (induction rdata pos out rule: strip_ecs_loop.induct)
  case (1 rdata pos out)
  let ?d = "drop pos rdata"
  show ?case
  proof (cases "pos + 4 \<le> length rdata")
    case True
    note R = drop_reads [OF True]
    let ?n = "unat (get16 ?d 2)" and ?c = "get16 ?d 0"
    let ?e = "pos + 4 + ?n"
    show ?thesis
    proof (cases "?e \<le> length rdata")
      case False
      with True 1(2) R show ?thesis
        by (subst strip_ecs_loop.simps) (simp add: options_cut Let_def)
    next
      case e: True
      have o: "options ?d = (?c, take ?n (drop 4 ?d)) # options (drop ?e rdata)"
      proof -
        have "drop (4 + ?n) ?d = drop ?e rdata" unfolding drop_drop by (rule arg_cong [of _ _ "\<lambda>i. drop i rdata"]) simp
        with options_step [of ?d] e show ?thesis by simp
      qed
      have enc: "encode_option (?c, take ?n (drop 4 ?d)) = take (4 + ?n) ?d"
        using encode_read_option [of ?d] e by simp
      let ?out = "if ?c \<noteq> ecs_option_code then out @ take (4 + ?n) ?d else out"
      have "strip_ecs_loop rdata pos out = strip_ecs_loop rdata ?e ?out"
        using True R e by (subst strip_ecs_loop.simps) (simp add: Let_def)
      also have "\<dots> = Some (?out @ encode_options (filter not_ecs (options (drop ?e rdata))))"
        using 1(1) [OF True R(1) R(2) refl _ _ e] e R by (simp add: Let_def)
      finally show ?thesis
        unfolding o by (simp add: enc ecs_option_code_def del: drop_drop)
    qed
  next
    case False
    then show ?thesis by (subst strip_ecs_loop.simps) (simp add: options_short)
  qed
qed

lemma strip_filter: "strip_ecs_from_rdata rdata = Some (encode_options (filter not_ecs (options rdata)))"
  by (simp add: strip_ecs_from_rdata_def strip_loop_filter)

section \<open>Anonymizing is a map\<close>

text \<open>What happens to the data of one client subnet option (family, prefixes, address).\<close>

definition scrub_data :: "bytes \<Rightarrow> bytes" where
  "scrub_data d =
    (let mx = (if get16 d 0 = 1 then 16 else 48 :: u8);
         keep = 4 + (if get16 d 0 = 1 then 2 else 6);
         stop = min (length d) (4 + (if get16 d 0 = 1 then 4 else 16)) in
     if d ! 2 > mx then
       take 2 d @ [mx] @ [d ! 3] @
         (if keep < stop then take (keep - 4) (drop 4 d) @ replicate (stop - keep) 0 @ drop stop d
          else drop 4 d)
     else d)"

definition scrub_option :: "edns_option \<Rightarrow> edns_option" where
  "scrub_option o' = (fst o', if fst o' = 8 \<and> 4 \<le> length (snd o') then scrub_data (snd o') else snd o')"

lemma length_scrub_data: "4 \<le> length d \<Longrightarrow> length (scrub_data d) = length d"
  by (auto simp: scrub_data_def Let_def)

lemma length_scrub_option [simp]: "length (snd (scrub_option o')) = length (snd o')"
  by (simp add: scrub_option_def length_scrub_data)

lemma wr_middle: "length x = i \<Longrightarrow> length v = length v' \<Longrightarrow> wr (x @ v @ y) i v' = Some (x @ v' @ y)"
  by (simp add: wr_def)

text \<open>The in-place writes of one round, on a buffer split around the option's data.\<close>

lemma anonymize_option_form:
  assumes "length pre = pos + 4" "4 \<le> length d"
  shows "anonymize_option (pre @ d @ post) pos (pos + 4 + length d) = Some (pre @ scrub_data d @ post)"
proof -
  from assms(2) obtain d0 d1 d2 d3 addr where d: "d = d0 # d1 # d2 # d3 # addr"
    by (auto simp: numeral_eq_Suc Suc_le_length_iff)
  define fam where "fam = be16 d0 d1"
  define mx :: u8 where "mx = (if fam = 1 then 16 else 48)"
  define kp where "kp = (if fam = 1 then 2 else 6 :: nat)"
  define st where "st = min (length addr) (if fam = 1 then 4 else 16)"
  have mx: "(unat mx + 7) div 8 = kp" by (simp add: mx_def kp_def)
  have f: "rd16 (pre @ d @ post) (pos + 4) = Some fam"
    using assms by (simp add: d fam_def get16_def nth_append)
  have p: "rd (pre @ d @ post) (pos + 6) = Some d2" using assms by (simp add: d nth_append)
  let ?b = "(pre @ [d0, d1]) @ [mx] @ [d3] @ addr @ post"
  have w1: "wr (pre @ d @ post) (pos + 6) [mx] = Some ?b"
    using wr_middle [of "pre @ [d0, d1]" "pos + 6" "[d2]" "[mx]" "[d3] @ addr @ post"] assms(1)
    by (simp add: d)
  have w2: "wr ?b (pos + 8 + kp) (replicate (st - kp) 0) =
      Some (pre @ [d0, d1, mx, d3] @ take kp addr @ replicate (st - kp) 0 @ drop st addr @ post)"
    if k: "kp < st"
  proof -
    have st: "st \<le> length addr" by (simp add: st_def)
    have split: "addr = take kp addr @ take (st - kp) (drop kp addr) @ drop st addr"
      using k by (metis append_take_drop_id drop_drop le_add_diff_inverse2 less_imp_le)
    have b: "?b = (pre @ [d0, d1, mx, d3] @ take kp addr) @ take (st - kp) (drop kp addr) @ drop st addr @ post"
      by (subst split) simp
    show ?thesis
      unfolding b using k st assms(1) by (subst wr_middle) simp_all
  qed
  have end_eq: "min (pos + 4 + length d) (pos + 8 + (if fam = 1 then 4 else 16)) = pos + 8 + st"
    by (simp add: d st_def)
  have "anonymize_option (pre @ d @ post) pos (pos + 4 + length d) =
      (if d2 > mx then (if kp < st
         then Some (pre @ [d0, d1, mx, d3] @ take kp addr @ replicate (st - kp) 0 @ drop st addr @ post)
         else Some (pre @ [d0, d1, mx, d3] @ addr @ post))
       else Some (pre @ d @ post))"
  proof -
    have "anonymize_option (pre @ d @ post) pos (pos + 4 + length d) =
        (if d2 > mx then do {
           rdata \<leftarrow> wr (pre @ d @ post) (pos + 6) [mx];
           if pos + 8 + (unat mx + 7) div 8 < min (pos + 4 + length d) (pos + 8 + (if fam = 1 then 4 else 16))
           then wr rdata (pos + 8 + (unat mx + 7) div 8)
             (replicate (min (pos + 4 + length d) (pos + 8 + (if fam = 1 then 4 else 16)) -
               (pos + 8 + (unat mx + 7) div 8)) 0)
           else Some rdata }
         else Some (pre @ d @ post))"
      by (simp only: anonymize_option_def f p bind.bind_lunit Let_def mx_def)
    then show ?thesis unfolding mx end_eq w1 using w2 by simp
  qed
  also have "\<dots> = Some (pre @ scrub_data d @ post)"
    by (simp add: scrub_data_def d get16_def Let_def flip: fam_def) (simp add: mx_def kp_def st_def min_def)
  finally show ?thesis .
qed

lemma options_cases:
  obtains (stop) "length d < 4 \<or> length d < 4 + unat (get16 d 2)" "options d = []"
    | (option) c data rest where "d = encode_option (c, data) @ rest" "length data < 65536"
      "options d = (c, data) # options rest" "length rest < length d"
      "get16 d 0 = c" "unat (get16 d 2) = length data"
proof (cases "length d < 4 \<or> length d < 4 + unat (get16 d 2)")
  case True
  then show thesis by (intro stop) (auto simp: options.simps)
next
  case False
  let ?n = "unat (get16 d 2)"
  have e: "d = encode_option (get16 d 0, take ?n (drop 4 d)) @ drop (4 + ?n) d"
    using encode_read_option [of d] False by (subst encode_read_option) simp_all
  have n: "length (take ?n (drop 4 d)) = ?n" using False by (auto simp: min_def)
  have lt: "length (drop (4 + ?n) d) < length d" unfolding length_drop using False by linarith
  show thesis
    by (rule option [OF e _ _ lt]) (use n False options_step [of d] unat_u16 [of "get16 d 2"] in simp_all)
qed

text \<open>What is left of malformed data behind the last whole option.\<close>

definition leftover :: "bytes \<Rightarrow> bytes" where
  "leftover d = drop (length (encode_options (options d))) d"

lemma leftover_option: "options d = (c, data) # options rest \<Longrightarrow> d = encode_option (c, data) @ rest \<Longrightarrow>
    leftover d = leftover rest"
  by (simp add: leftover_def)

lemma anonymize_loop_map:
  "anonymize_loop (pre @ d) (length pre) =
     Some (pre @ encode_options (map scrub_option (options d)) @ leftover d)"
proof (induction d arbitrary: pre rule: measure_induct_rule [where f = length])
  case (less d)
  have dp: "drop (length pre) (pre @ d) = d" by simp
  show ?case
  proof (cases d rule: options_cases)
    case stop
    then show ?thesis
    proof (cases "length d < 4")
      case True
      then show ?thesis using stop by (subst anonymize_loop.simps) (simp add: leftover_def)
    next
      case False
      then have "length pre + 4 \<le> length (pre @ d)" by simp
      from drop_reads [OF this] stop False show ?thesis
        by (subst anonymize_loop.simps) (simp add: leftover_def dp Let_def)
    qed
  next
    case (option c data rest)
    let ?hdr = "to_be16 c @ to_be16 (word_of_nat (length data))"
    let ?data = "snd (scrub_option (c, data))"
    have dd: "pre @ d = (pre @ ?hdr) @ data @ rest" using option(1) by (simp add: encode_option_def)
    have le: "length pre + 4 \<le> length (pre @ d)" using dd by simp
    note R = drop_reads [OF le, unfolded dp option(5,6)]
    have step: "(if c = ecs_option_code \<and> 4 \<le> length data
        then anonymize_option (pre @ d) (length pre) (length pre + 4 + length data)
        else Some (pre @ d)) = Some ((pre @ ?hdr) @ ?data @ rest)"
      using anonymize_option_form [of "pre @ ?hdr" "length pre" data rest]
      unfolding dd by (cases "c = 8 \<and> 4 \<le> length data") (auto simp: scrub_option_def ecs_option_code_def)
    have "anonymize_loop (pre @ d) (length pre) =
        anonymize_loop ((pre @ ?hdr @ ?data) @ rest) (length (pre @ ?hdr @ ?data))"
    proof -
      have "length pre + 4 + length data \<le> length (pre @ d)" using dd by simp
      then have "anonymize_loop (pre @ d) (length pre) = do {
          rdata' \<leftarrow> (if c = ecs_option_code \<and> 4 \<le> length data
            then anonymize_option (pre @ d) (length pre) (length pre + 4 + length data) else Some (pre @ d));
          anonymize_loop rdata' (length pre + 4 + length data) }"
        using le R by (subst anonymize_loop.simps) (simp del: count16_ok rd16_ok add: Let_def)
      moreover have eq: "length (pre @ ?hdr @ ?data) = length pre + 4 + length data" by simp
      ultimately show ?thesis unfolding step eq by (simp only: append_assoc bind.bind_lunit)
    qed
    also have "\<dots> = Some ((pre @ ?hdr @ ?data) @ encode_options (map scrub_option (options rest)) @ leftover rest)"
      by (rule less.IH) (rule option(4))
    also have "\<dots> = Some (pre @ encode_options (map scrub_option (options d)) @ leftover d)"
      using option(1,3) leftover_option [OF option(3,1)]
      by (simp add: encode_option_def) (simp add: scrub_option_def length_scrub_data)
    finally show ?thesis .
  qed
qed

lemma anonymize_map: "anonymize_ecs_in_rdata d =
    Some (encode_options (map scrub_option (options d)) @ leftover d)"
  using anonymize_loop_map [of "[]" d] by (simp add: anonymize_ecs_in_rdata_def)

lemma encode_leftover: "encode_options (options d) @ leftover d = d"
proof (induction d rule: measure_induct_rule [where f = length])
  case (less d)
  show ?case
  proof (cases d rule: options_cases)
    case (option c data rest)
    from less [OF option(4)] leftover_option [OF option(3,1)] option(1,3) show ?thesis by simp
  qed (simp add: leftover_def)
qed

lemma options_leftover: "options (leftover d) = []"
proof (induction d rule: measure_induct_rule [where f = length])
  case (less d)
  show ?case
  proof (cases d rule: options_cases)
    case (option c data rest)
    from less [OF option(4)] leftover_option [OF option(3,1)] show ?thesis by simp
  qed (simp add: leftover_def)
qed

lemma options_append: "(\<And>c d. (c, d) \<in> set os \<Longrightarrow> length d < 65536) \<Longrightarrow>
    options (encode_options os @ tl') = os @ options tl'"
proof (induction os)
  case (Cons o' os)
  obtain c d where o': "o' = (c, d)" by (cases o')
  then have "length d < 65536" using Cons.prems [of c d] by simp
  moreover have "options (encode_options os @ tl') = os @ options tl'" using Cons.prems by (intro Cons.IH) auto
  ultimately show ?case using o' by (simp add: options_encode_option)
qed simp

lemma length_encode_map: "length (encode_options (map scrub_option os)) = length (encode_options os)"
  by (induction os) (simp_all add: encode_option_def)

lemma options_anonymized:
  "options (encode_options (map scrub_option (options d)) @ leftover d) = map scrub_option (options d)"
proof -
  have "length y < 65536" if "(x, y) \<in> set (map scrub_option (options d))" for x y
  proof -
    from that obtain o' where "o' \<in> set (options d)" "scrub_option o' = (x, y)" by auto
    then show ?thesis using options_length [of "fst o'" "snd o'" d] length_scrub_option [of o'] by simp
  qed
  then show ?thesis by (subst options_append) (auto simp: options_leftover)
qed

section \<open>The whole message\<close>

lemma unchecked_step: "record_step w pos = Some (Some p) \<Longrightarrow> record_step_unchecked w pos = Some (Some p)"
  by (auto simp: record_step_unchecked_def dest!: record_step_SomeD)

lemma unchecked_walk: "walk record_step n w pos = Some (Some p) \<Longrightarrow>
    walk record_step_unchecked n w pos = Some (Some p)"
proof (induction n arbitrary: pos)
  case (Suc n)
  then obtain q where "record_step w pos = Some (Some q)" "walk record_step n w q = Some (Some p)"
    by (auto simp only: records.walk_Suc_Some)
  with Suc.IH unchecked_step show ?case by simp
qed simp

definition opt_data :: "bytes \<Rightarrow> nat \<Rightarrow> bytes" where
  "opt_data w ne = take (unat (get16 w (ne + 8))) (drop (ne + 10) w)"

text \<open>What the scan does to the data of the OPT record it finds.\<close>

definition scrubbed :: "ecs_mode \<Rightarrow> bytes \<Rightarrow> bytes" where
  "scrubbed mode d = (case mode of
     Strip \<Rightarrow> encode_options (filter not_ecs (options d))
   | Anonymize \<Rightarrow> encode_options (map scrub_option (options d)) @ leftover d
   | Passthrough \<Rightarrow> d)"

lemma length_filter_options: "length (encode_options (filter P (options d))) \<le> length (encode_options (options d))"
  by (induction "options d" arbitrary: d rule: list.induct)
    (simp_all add: encode_options_def length_concat, rule sum_list_filter_le_nat)

lemma length_scrubbed: "length (scrubbed mode d) \<le> length d"
proof -
  have "length (encode_options (options d)) + length (leftover d) = length d"
    using arg_cong [OF encode_leftover [of d], of length] by simp
  then show ?thesis
    using length_filter_options [of not_ecs d] by (cases mode) (simp_all add: scrubbed_def length_encode_map)
qed

lemma length_anonymized: "length (scrubbed Anonymize d) = length d"
  using arg_cong [OF encode_leftover [of d], of length] by (simp add: scrubbed_def length_encode_map)

lemma fixed_tail: "ne + 10 \<le> length w \<Longrightarrow> take (ne + 10) w = take (ne + 8) w @ to_be16 (get16 w (ne + 8))"
  by (rule nth_equalityI)
    (auto simp: get16_def nth_append nth_Cons' less_Suc_eq numeral_eq_Suc not_less le_less_Suc_eq)

lemma scrub_write:
  assumes "ne + 10 + unat (get16 w (ne + 8)) \<le> length w"
  defines "d \<equiv> opt_data w ne" and "rest \<equiv> drop (ne + 10 + unat (get16 w (ne + 8))) w"
  shows "wr (take (ne + 10) w @ d' @ rest) (ne + 8) (to_be16 (word_of_nat (length d'))) =
      Some (take (ne + 8) w @ to_be16 (word_of_nat (length d')) @ d' @ rest)"
    and "length d' = length d \<Longrightarrow> wr w (ne + 10) d' =
      Some (take (ne + 8) w @ to_be16 (word_of_nat (length d')) @ d' @ rest)"
    and "slice w (ne + 10) (ne + 10 + unat (get16 w (ne + 8))) = Some d"
proof -
  have l: "length d = unat (get16 w (ne + 8))" using assms(1) by (simp add: d_def opt_data_def)
  have t: "take (ne + 10) w = take (ne + 8) w @ to_be16 (get16 w (ne + 8))"
    using assms(1) by (intro fixed_tail) simp
  show "wr (take (ne + 10) w @ d' @ rest) (ne + 8) (to_be16 (word_of_nat (length d'))) =
      Some (take (ne + 8) w @ to_be16 (word_of_nat (length d')) @ d' @ rest)"
    unfolding t append_assoc using assms(1) by (intro wr_middle) simp_all
  have "drop (ne + 10) w = d @ rest"
    using append_take_drop_id [of "unat (get16 w (ne + 8))" "drop (ne + 10) w"]
    by (simp add: d_def rest_def opt_data_def add.commute)
  then have w: "w = take (ne + 10) w @ d @ rest" by (metis append_take_drop_id)
  show "slice w (ne + 10) (ne + 10 + unat (get16 w (ne + 8))) = Some d"
    using assms(1) by (simp add: d_def opt_data_def)
  assume "length d' = length d"
  then have "wr (take (ne + 10) w @ d @ rest) (ne + 10) d' = Some (take (ne + 10) w @ d' @ rest)"
    using assms(1) by (intro wr_middle) simp_all
  moreover have "word_of_nat (length d') = get16 w (ne + 8)" using \<open>length d' = length d\<close> l by simp
  ultimately show "wr w (ne + 10) d' =
      Some (take (ne + 8) w @ to_be16 (word_of_nat (length d')) @ d' @ rest)"
    by (metis t w append_assoc)
qed

definition scrubbed_message :: "ecs_mode \<Rightarrow> bytes \<Rightarrow> nat \<Rightarrow> bytes" where
  "scrubbed_message mode w ne = (let d' = scrubbed mode (opt_data w ne) in
     take (ne + 8) w @ to_be16 (word_of_nat (length d')) @ d' @ drop (ne + 10 + unat (get16 w (ne + 8))) w)"

lemma ecs_scan_find:
  assumes "walk record_step n w a = Some (Some e)" "mode \<noteq> Passthrough"
  shows "ecs_scan n mode w a = (case find_opt n w a of
     Some (Some (ne, rl)) \<Rightarrow> Some (scrubbed_message mode w ne) | _ \<Rightarrow> Some w)"
  using assms(1)
proof (induction n arbitrary: a)
  case (Suc n)
  from Suc.prems obtain ne p where s: "skip_dns_name w a = Some (Some ne)"
    "p = ne + 10 + unat (get16 w (ne + 8))" "a < ne" "p \<le> length w" "record_step w a = Some (Some p)"
    "walk record_step n w p = Some (Some e)" by (rule walk_record_Suc)
  show ?case
  proof (cases "get16 w ne = 41")
    case False
    with Suc.IH [OF s(6)] s show ?thesis by (simp add: Let_def)
  next
    case True
    have le: "ne + 10 + unat (get16 w (ne + 8)) \<le> length w" using s by simp
    note W = scrub_write [OF le]
    show ?thesis
    proof (cases mode)
      case Strip
      with True s W(3) W(1) [of "scrubbed Strip (opt_data w ne)"] show ?thesis
        by (simp add: Let_def strip_filter scrubbed_message_def) (simp add: scrubbed_def)
    next
      case Anonymize
      with True s W(3) W(2) [OF length_anonymized] show ?thesis
        by (simp add: Let_def anonymize_map scrubbed_message_def) (simp add: scrubbed_def)
    qed (use assms(2) in simp)
  qed
qed simp

lemma process_ecs_find:
  assumes "12 \<le> length w" "skip_to_additional w = Some (Some a)"
    "walk record_step (unat (get16 w 10)) w a = Some (Some e)" "mode \<noteq> Passthrough"
  shows "process_ecs_option w mode = (case find_opt (unat (get16 w 10)) w a of
     Some (Some (ne, rl)) \<Rightarrow> Some (scrubbed_message mode w ne) | _ \<Rightarrow> Some w)"
proof -
  from assms(1,2) obtain q where q: "skip_questions w = Some (Some q)"
    "walk record_step (unat (get16 w 6) + unat (get16 w 8)) w q = Some (Some a)"
    by (auto simp: skip_to_additional_def split: Option.bind_splits option.splits)
  with assms unchecked_walk [OF q(2)] ecs_scan_find [OF assms(3,4)] show ?thesis
    by (simp add: process_ecs_option_def)
qed

lemma scrubbed_complete:
  assumes w: "12 \<le> length w" "skip_to_additional w = Some (Some a)" "12 \<le> a"
    "walk record_step (unat (get16 w 10)) w a = Some (Some (length w))"
    and j: "j < unat (get16 w 10)" "opt_at w a j pos ne"
    and r_def: "r = scrubbed_message mode w ne"
  shows "complete r" "has_opt r" "skip_to_additional r = Some (Some a)" "opt_at r a j pos ne"
    "opt_data r ne = scrubbed mode (opt_data w ne)" "length r \<le> length w"
proof -
  let ?d = "scrubbed mode (opt_data w ne)" and ?e = "ne + 10 + unat (get16 w (ne + 8))"
  have e: "?e \<le> length w" using j by (simp add: opt_at_def)
  have ld: "length ?d \<le> unat (get16 w (ne + 8))"
    using length_scrubbed [of mode "opt_data w ne"] e by (simp add: opt_data_def)
  then have n: "unat (word_of_nat (length ?d) :: u16) = length ?d"
    using unat_u16 [of "get16 w (ne + 8)"] by (intro unat_of_nat_u16) linarith
  define mid where "mid = take 6 (drop (ne + 2) w) @ to_be16 (word_of_nat (length ?d)) @ ?d"
  have t: "take (ne + 8) w = take (ne + 2) w @ take 6 (drop (ne + 2) w)"
    using take_add [of "ne + 2" 6 w] by (simp add: add.commute)
  have r: "r = take (ne + 2) w @ mid @ drop ?e w"
    by (simp add: r_def scrubbed_message_def mid_def t Let_def)
  have lm: "length mid = 8 + length ?d" using e by (simp add: mid_def)
  have g: "get16 r (ne + 8) = word_of_nat (length ?d)"
    using e by (simp add: r_def scrubbed_message_def Let_def get16_mid)
  from replaced_record [OF w j refl r] lm g n
  show "complete r" "has_opt r" "skip_to_additional r = Some (Some a)" "opt_at r a j pos ne" by simp_all
  have d: "drop (ne + 10) r = ?d @ drop ?e w"
    using e by (simp add: r_def scrubbed_message_def Let_def)
  show "opt_data r ne = ?d" unfolding opt_data_def [of r] g n d by simp
  show "length r \<le> length w" unfolding r using lm ld e by simp
qed

lemma scrub_option_prefix:
  "(c, d) = scrub_option o' \<Longrightarrow> c = ecs_option_code \<Longrightarrow> 4 \<le> length d \<Longrightarrow>
   d ! 2 \<le> (if get16 d 0 = 1 then 16 else 48)"
proof -
  assume s: "(c, d) = scrub_option o'" "c = ecs_option_code" "4 \<le> length d"
  then have l: "4 \<le> length (snd o')" "d = scrub_data (snd o')"
    using length_scrub_option [of o'] by (auto simp: scrub_option_def ecs_option_code_def split: if_splits)
  from l(1) obtain d0 d1 d2 d3 addr where "snd o' = d0 # d1 # d2 # d3 # addr"
    by (auto simp: numeral_eq_Suc Suc_le_length_iff)
  then show ?thesis unfolding l(2) by (auto simp: scrub_data_def Let_def get16_def not_less)
qed

section \<open>Properties of the client subnet scrubber\<close>

text \<open>
  Stripping OPT data keeps exactly the options that are not client subnet options, in
  order and byte for byte; anonymizing keeps every option's code and length and rewrites
  only client subnet data, whose prefix length is then at most /16 for IPv4 and /48
  otherwise. Neither panics, whatever the bytes.
\<close>

theorem ecs_data_spec:
  "\<exists>s r. strip_ecs_from_rdata rdata = ret s \<and> options s = filter (\<lambda>(c, d). c \<noteq> ecs_option_code) (options rdata) \<and>
     anonymize_ecs_in_rdata rdata = ret r \<and> length r = length rdata \<and>
     options r = map scrub_option (options rdata) \<and>
     list_all (\<lambda>(c, d). c = ecs_option_code \<and> 4 \<le> length d \<longrightarrow>
       d ! 2 \<le> (if get16 d 0 = 1 then 16 else 48)) (options r)"
proof -
  let ?r = "encode_options (map scrub_option (options rdata)) @ leftover rdata"
  have f: "not_ecs = (\<lambda>(c, d). c \<noteq> ecs_option_code)"
    by (rule ext) (auto simp: not_ecs_def ecs_option_code_def)
  have "options (encode_options (filter not_ecs (options rdata))) = filter not_ecs (options rdata)"
    by (rule options_encode) (auto dest: options_length)
  moreover have "list_all (\<lambda>(c, d). c = ecs_option_code \<and> 4 \<le> length d \<longrightarrow>
      d ! 2 \<le> (if get16 d 0 = 1 then 16 else 48)) (map scrub_option os)" for os
    unfolding list_all_length
  proof (intro allI impI)
    fix n assume "n < length (map scrub_option os)"
    obtain c d where cd: "scrub_option (os ! n) = (c, d)" by fastforce
    with scrub_option_prefix [OF cd [symmetric]] \<open>n < _\<close>
    show "case map scrub_option os ! n of (c, d) \<Rightarrow> c = ecs_option_code \<and> 4 \<le> length d \<longrightarrow>
      d ! 2 \<le> (if get16 d 0 = 1 then 16 else 48)" by (simp del: if_split_asm)
  qed
  ultimately show ?thesis
    using strip_filter [of rdata] anonymize_map [of rdata] length_anonymized [of rdata]
      options_anonymized [of rdata]
    unfolding f by (simp add: scrubbed_def)
qed

theorem ecs_data_spec_witness:
  "\<exists>r. anonymize_ecs_in_rdata [0, 8, 0, 8, 0, 1, 24, 0, 192, 0, 2, 77] = ret r \<and> length r = 12 \<and>
     list_all (\<lambda>(c, d). c = 8 \<and> 4 \<le> length d \<longrightarrow> d ! 2 \<le> (if get16 d 0 = 1 then 16 else 48)) (options r)"
proof -
  let ?d = "[0, 8, 0, 8, 0, 1, 24, 0, 192, 0, 2, 77] :: bytes"
  obtain r where r: "anonymize_ecs_in_rdata ?d = Some r" "length r = length ?d"
    "list_all (\<lambda>(c, d). c = 8 \<and> 4 \<le> length d \<longrightarrow> d ! 2 \<le> (if get16 d 0 = 1 then 16 else 48)) (options r)"
    using ecs_data_spec [of ?d] unfolding ecs_option_code_def by blast
  have "length r = 12" using r(2) by simp
  with r(1,3) show ?thesis by blast
qed

text \<open>
  On a complete query, scrubbing in either mode gives a complete query that is not
  longer. Without an OPT record it is the query; otherwise the first OPT record the scan
  finds stays in place and its options are the scrubbed ones.
\<close>

theorem ecs_message_spec:
  assumes "complete wire" and "mode \<noteq> Passthrough"
  shows "\<exists>r. process_ecs_option wire mode = ret r \<and> complete r \<and> length r \<le> length wire \<and>
    (if has_opt wire then \<exists>a j pos ne. opt_at wire a j pos ne \<and> opt_at r a j pos ne \<and>
       options (opt_data r ne) = (if mode = Strip
         then filter (\<lambda>(c, d). c \<noteq> ecs_option_code) (options (opt_data wire ne))
         else map scrub_option (options (opt_data wire ne)))
     else r = wire)"
proof -
  obtain a where a: "12 \<le> length wire" "skip_to_additional wire = Some (Some a)" "12 \<le> a" "a \<le> length wire"
    "walk record_step (unat (get16 wire 10)) wire a = Some (Some (length wire))"
    using assms(1) by (rule complete_sections)
  obtain f where f: "find_opt (unat (get16 wire 10)) wire a = Some f" using find_opt_total by blast
  note P = process_ecs_find [OF a(1,2,5) assms(2)]
  have fl: "not_ecs = (\<lambda>(c, d). c \<noteq> ecs_option_code)"
    by (rule ext) (auto simp: not_ecs_def ecs_option_code_def)
  have os: "options (scrubbed mode d) = (if mode = Strip then filter not_ecs (options d)
      else map scrub_option (options d))" for d
  proof -
    have "options (encode_options (filter not_ecs (options d))) = filter not_ecs (options d)"
      by (rule options_encode) (auto dest: options_length)
    with assms(2) options_anonymized [of d] show ?thesis by (cases mode) (simp_all add: scrubbed_def)
  qed
  show ?thesis
  proof (cases f)
    case None
    with f have "\<not> has_opt wire" using find_opt_None [of _ wire a] has_opt_iff [OF a(2,5)] a(5) by simp
    with P f None assms(1) show ?thesis by simp
  next
    case (Some nr)
    then obtain ne rl where nr: "find_opt (unat (get16 wire 10)) wire a = Some (Some (ne, rl))"
      using f by (cases nr) auto
    from find_opt_Some [OF nr a(5)] obtain j pos where j: "j < unat (get16 wire 10)"
      "opt_at wire a j pos ne" by blast
    then have "has_opt wire" using has_opt_iff [OF a(2,5)] by (auto intro: some_optI)
    note S = scrubbed_complete [OF a(1-3,5) j refl, of mode]
    have "\<exists>a j pos ne'. opt_at wire a j pos ne' \<and> opt_at (scrubbed_message mode wire ne) a j pos ne' \<and>
       options (opt_data (scrubbed_message mode wire ne) ne') = (if mode = Strip
         then filter not_ecs (options (opt_data wire ne')) else map scrub_option (options (opt_data wire ne')))"
      using j(2) S(4,5) os by metis
    with \<open>has_opt wire\<close> P nr S(1,6) show ?thesis unfolding fl [symmetric] by simp
  qed
qed

definition ecs_query :: bytes where
  "ecs_query = [0, 7, 1, 0, 0, 1, 0, 0, 0, 0, 0, 1, 3, 102, 111, 111, 0, 0, 1, 0, 1,
     0, 0, 41, 4, 208, 0, 0, 0, 0, 0, 12, 0, 8, 0, 8, 0, 1, 24, 0, 192, 0, 2, 77]"

theorem ecs_message_spec_witness:
  "\<exists>r. process_ecs_option ecs_query Anonymize = ret r \<and> complete r \<and> length r \<le> 44"
proof -
  have "complete ecs_query" "length ecs_query = 44" by code_simp+
  with ecs_message_spec [of ecs_query Anonymize] show ?thesis by auto
qed

end
