(* ===== verification/Truncation.thy ===== *)
theory Truncation
  imports Edns
begin

text \<open>
  Two whole-message transforms of \<open>src/dns/parser.rs\<close>: \<open>truncate_response_properly\<close>, which
  cuts a response at a record boundary and sets TC, and \<open>apply_dns0x20_randomization\<close>, which
  flips the case of letters of the query name.

  The lemmas show that a truncated response is a complete message made of a longest prefix of
  the answer records that fits, and that 0x20 changes nothing but the case of letters.
\<close>

section \<open>Truncation\<close>

primrec fit_answers :: "nat \<Rightarrow> bytes \<Rightarrow> nat \<Rightarrow> nat \<Rightarrow> bytes \<Rightarrow> u16 \<Rightarrow> (bytes \<times> u16) rust" where
  "fit_answers 0 wire max_bytes pos out included = ret (out, included)"
| "fit_answers (Suc n) wire max_bytes pos out included = do {
     r \<leftarrow> skip_dns_name wire pos;
     case r of None \<Rightarrow> ret (out, included)
     | Some name_end \<Rightarrow>
         if name_end + 10 > length wire then ret (out, included)
         else do {
           rdlen \<leftarrow> rd16 wire (name_end + 8);
           let rr_end = name_end + 10 + unat rdlen;
           if rr_end > length wire then ret (out, included)
           else if length out + (rr_end - pos) \<le> max_bytes then do {
             rr \<leftarrow> slice wire pos rr_end;
             fit_answers n wire max_bytes rr_end (out @ rr) (included + 1) }
           else ret (out, included) } }"

definition tc_fallback :: "bytes \<Rightarrow> bytes rust" where
  "tc_fallback wire = do {
     fallback \<leftarrow> slice wire 0 (min 12 (length wire));
     if length fallback \<ge> 3 then do { b \<leftarrow> rd fallback 2; wr fallback 2 [b OR 0x02] }
     else ret fallback }"

definition truncate_response_properly :: "bytes \<Rightarrow> nat \<Rightarrow> bytes rust" where
  "truncate_response_properly wire max_bytes =
    (if length wire \<le> max_bytes \<or> length wire < 12 then ret wire
     else do {
       ancount \<leftarrow> count16 wire 6;
       r \<leftarrow> skip_questions wire;
       case r of None \<Rightarrow> tc_fallback wire
       | Some q_end \<Rightarrow> do {
           out \<leftarrow> slice wire 0 q_end;
           b \<leftarrow> rd out 2;
           out \<leftarrow> wr out 2 [b OR 0x02];
           out \<leftarrow> wr out 6 (to_be16 0);
           out \<leftarrow> wr out 8 (to_be16 0);
           out \<leftarrow> wr out 10 (to_be16 0);
           (out, included) \<leftarrow> fit_answers ancount wire max_bytes q_end out 0;
           wr out 6 (to_be16 included) } })"

section \<open>DNS 0x20\<close>

text \<open>
  One label of the query name: \<open>i\<close> counts from 0, every byte advances the generator, a
  letter's case flips when bit 33 is set. The buffer is rewritten in place.
\<close>

definition lcg :: "u64 \<Rightarrow> u64" where
  "lcg rng = rng * 6364136223846793005 + 1442695040888963407"

primrec flip_label :: "nat \<Rightarrow> bytes \<Rightarrow> nat \<Rightarrow> u64 \<Rightarrow> (bytes \<times> u64) rust" where
  "flip_label 0 out pos rng = ret (out, rng)"
| "flip_label (Suc n) out pos rng = do {
     b \<leftarrow> rd out pos;
     let rng' = lcg rng;
     let flip = drop_bit 33 rng' AND 1;
     out' \<leftarrow> (if is_alpha_code (unat b) \<and> flip = 1 then wr out pos [b XOR 0x20] else ret out);
     flip_label n out' (pos + 1) rng' }"

text \<open>The \<open>loop\<close> over labels, with the buffer length as its bound (each round advances).\<close>

primrec flip_loop :: "nat \<Rightarrow> bytes \<Rightarrow> nat \<Rightarrow> u64 \<Rightarrow> bytes rust" where
  "flip_loop 0 out pos rng = ret out"
| "flip_loop (Suc rounds) out pos rng =
    (if pos \<ge> length out then ret out
     else do {
       len \<leftarrow> rd out pos;
       if len = 0 then ret out
       else if len AND 0xC0 = 0xC0 then ret out
       else if unat len > 63 \<or> pos + 1 + unat len > length out then ret out
       else do {
         (out', rng') \<leftarrow> flip_label (unat len) out (pos + 1) rng;
         if pos + 1 + unat len \<ge> length out' then ret out'
         else flip_loop rounds out' (pos + 1 + unat len) rng' } })"

definition apply_dns0x20_randomization :: "bytes \<Rightarrow> bytes rust" where
  "apply_dns0x20_randomization wire =
    (if length wire < 12 then ret wire
     else do {
       qdcount \<leftarrow> count16 wire 4;
       if qdcount = 0 then ret wire
       else do {
         tx_id \<leftarrow> rd16 wire 0;
         flip_loop (length wire) wire 12 (lcg (ucast tx_id)) } })"

section \<open>Truncation keeps a prefix of the answers\<close>

lemma fit_answers_Suc_record:
  assumes "record_step wire pos = Some (Some p)"
  shows "fit_answers (Suc n) wire max_bytes pos out inc =
    (if length out + (p - pos) \<le> max_bytes
     then fit_answers n wire max_bytes p (out @ take (p - pos) (drop pos wire)) (inc + 1)
     else Some (out, inc))"
proof -
  from record_step_SomeD [OF assms] obtain q where q: "skip_dns_name wire pos = Some (Some q)"
    "p = q + 10 + unat (get16 wire (q + 8))" "p \<le> length wire" by blast
  with skip_dns_name_progress [OF q(1)] show ?thesis by (simp add: Let_def)
qed

lemma fit_answers_Suc_none:
  assumes "record_step wire pos = Some None"
  shows "fit_answers (Suc n) wire max_bytes pos out inc = Some (out, inc)"
proof -
  obtain r where r: "skip_dns_name wire pos = Some r" using skip_dns_name_total by blast
  then show ?thesis
    using assms by (cases r) (auto simp: record_step_def Let_def split: if_splits)
qed

text \<open>The records kept are the first \<open>m\<close>, and one more would not fit.\<close>

definition kept :: "bytes \<Rightarrow> nat \<Rightarrow> nat \<Rightarrow> nat \<Rightarrow> nat \<Rightarrow> nat \<Rightarrow> nat \<Rightarrow> bool" where
  "kept wire max_bytes n len pos m e \<longleftrightarrow> m \<le> n \<and> walk record_step m wire pos = Some (Some e) \<and>
     pos \<le> e \<and> (m = 0 \<or> len + (e - pos) \<le> max_bytes) \<and>
     (m = n \<or> record_step wire e = Some None \<or>
      (\<exists>p. record_step wire e = Some (Some p) \<and> max_bytes < len + (p - pos)))"

lemma fit_answers_kept:
  "\<exists>m e. fit_answers n wire max_bytes pos out inc =
     Some (out @ take (e - pos) (drop pos wire), inc + word_of_nat m) \<and>
     kept wire max_bytes n (length out) pos m e"
proof (induction n arbitrary: pos out inc)
  case 0
  then show ?case by (intro exI [of _ 0] exI [of _ pos]) (simp add: kept_def)
next
  case (Suc n)
  obtain r where r: "record_step wire pos = Some r" using records.step_total [of wire pos] by blast
  show ?case
  proof (cases r)
    case None
    with r show ?thesis
      by (intro exI [of _ 0] exI [of _ pos]) (simp add: kept_def fit_answers_Suc_none del: fit_answers.simps)
  next
    case (Some p)
    with r have p: "record_step wire pos = Some (Some p)" by simp
    note pb = records.step_progress [OF p]
    show ?thesis
    proof (cases "length out + (p - pos) \<le> max_bytes")
      case True
      obtain m e where m: "fit_answers n wire max_bytes p (out @ take (p - pos) (drop pos wire)) (inc + 1) =
          Some ((out @ take (p - pos) (drop pos wire)) @ take (e - p) (drop p wire), inc + 1 + word_of_nat m)"
        "kept wire max_bytes n (length (out @ take (p - pos) (drop pos wire))) p m e"
        using Suc.IH by blast
      have pe: "p \<le> e" using m(2) by (simp add: kept_def)
      then have "take (e - pos) (drop pos wire) = take (p - pos) (drop pos wire) @ take (e - p) (drop p wire)"
        using pb take_add [of "p - pos" "e - p" "drop pos wire"] by (simp add: add.commute)
      moreover have "kept wire max_bytes (Suc n) (length out) pos (Suc m) e"
        using m(2) True p pb pe by (auto simp: kept_def add.assoc)
      ultimately show ?thesis
        using m(1) True p
        by (intro exI [of _ "Suc m"] exI [of _ e])
          (simp add: fit_answers_Suc_record add.assoc del: fit_answers.simps)
    next
      case False
      with p show ?thesis
        by (intro exI [of _ 0] exI [of _ pos])
          (simp add: kept_def fit_answers_Suc_record del: fit_answers.simps)
    qed
  qed
qed

text \<open>The header of a truncated response.\<close>

definition tc_header :: "bytes \<Rightarrow> u16 \<Rightarrow> bytes" where
  "tc_header wire m = take 2 wire @ [wire ! 2 OR 0x02, wire ! 3] @ take 2 (drop 4 wire)
     @ to_be16 m @ to_be16 0 @ to_be16 0"

lemma length_tc_header [simp]: "12 \<le> length wire \<Longrightarrow> length (tc_header wire m) = 12"
  by (simp add: tc_header_def)

lemma truncate_form:
  assumes w: "max_bytes < length wire" "12 \<le> length wire" "skip_questions wire = Some (Some q)"
  obtains m e where
    "truncate_response_properly wire max_bytes =
       Some (tc_header wire (word_of_nat m) @ take (e - 12) (drop 12 wire))"
    "kept wire max_bytes (unat (get16 wire 6)) q q m e" "12 \<le> q" "e \<le> length wire"
proof -
  from skip_questions_bounds [OF w(3,2)] have q: "12 \<le> q" "q \<le> length wire" by simp_all
  let ?body = "take (q - 12) (drop 12 wire)"
  let ?out = "tc_header wire 0 @ ?body"
  obtain m e where m: "fit_answers (unat (get16 wire 6)) wire max_bytes q ?out 0 =
      Some (?out @ take (e - q) (drop q wire), word_of_nat m)"
    "kept wire max_bytes (unat (get16 wire 6)) (length ?out) q m e"
    using fit_answers_kept [of "unat (get16 wire 6)" wire max_bytes q ?out 0] by auto
  have e: "q \<le> e" "e \<le> length wire"
    using m(2) q records.walk_inside [of m wire q e] by (auto simp: kept_def)
  have prefix: "take q wire = take 12 wire @ ?body"
    using q take_add [of 12 "q - 12" wire] by simp
  from w(2) obtain a0 a1 a2 a3 a4 a5 a6 a7 a8 a9 a10 a11 rest
    where wl: "wire = a0 # a1 # a2 # a3 # a4 # a5 # a6 # a7 # a8 # a9 # a10 # a11 # rest"
    by (rule header_cases)
  have hd: "do { out \<leftarrow> slice wire 0 q; b \<leftarrow> rd out 2; out \<leftarrow> wr out 2 [b OR 0x02];
      out \<leftarrow> wr out 6 (to_be16 0); out \<leftarrow> wr out 8 (to_be16 0); wr out 10 (to_be16 0) } = Some ?out"
    using q prefix by (simp add: wl tc_header_def to_be16_def)
  have split: "take (e - 12) (drop 12 wire) = ?body @ take (e - q) (drop q wire)"
    using q e take_add [of "q - 12" "e - q" "drop 12 wire"] by (simp add: add.commute)
  have fin: "wr (?out @ take (e - q) (drop q wire)) 6 (to_be16 v) = Some (tc_header wire v @ take (e - 12) (drop 12 wire))" for v
    unfolding split by (simp add: wl tc_header_def to_be16_def)
  have "truncate_response_properly wire max_bytes =
      do { out \<leftarrow> do { out \<leftarrow> slice wire 0 q; b \<leftarrow> rd out 2; out \<leftarrow> wr out 2 [b OR 0x02];
      out \<leftarrow> wr out 6 (to_be16 0); out \<leftarrow> wr out 8 (to_be16 0); wr out 10 (to_be16 0) };
        (out, included) \<leftarrow> fit_answers (unat (get16 wire 6)) wire max_bytes q out 0;
        wr out 6 (to_be16 included) }"
    using w by (simp add: truncate_response_properly_def)
  also have "\<dots> = Some (tc_header wire (word_of_nat m) @ take (e - 12) (drop 12 wire))"
    unfolding hd using m(1) fin by simp
  finally show thesis using m(2) q e w(2) that by simp
qed

lemma tc_header_get:
  assumes "12 \<le> length wire"
  shows "get16 (tc_header wire m @ x) 4 = get16 wire 4" "get16 (tc_header wire m @ x) 6 = m"
    "get16 (tc_header wire m @ x) 8 = 0" "get16 (tc_header wire m @ x) 10 = 0"
    "take 2 (tc_header wire m @ x) = take 2 wire" "(tc_header wire m @ x) ! 2 = wire ! 2 OR 0x02"
proof -
  from assms obtain a0 a1 a2 a3 a4 a5 a6 a7 a8 a9 a10 a11 rest
    where wl: "wire = a0 # a1 # a2 # a3 # a4 # a5 # a6 # a7 # a8 # a9 # a10 # a11 # rest"
    by (rule header_cases)
  show "get16 (tc_header wire m @ x) 4 = get16 wire 4" by (simp add: wl tc_header_def get16_def)
  let ?p = "take 2 wire @ [wire ! 2 OR 0x02, wire ! 3] @ take 2 (drop 4 wire)"
  have p: "length ?p = 6" using assms by simp
  show "get16 (tc_header wire m @ x) 6 = m"
    using get16_mid [OF p, of m "to_be16 0 @ to_be16 0 @ x"] by (simp add: tc_header_def)
  show "get16 (tc_header wire m @ x) 8 = 0"
    using get16_mid [of "?p @ to_be16 m" 8 0 "to_be16 0 @ x"] p by (simp add: tc_header_def)
  show "get16 (tc_header wire m @ x) 10 = 0"
    using get16_mid [of "?p @ to_be16 m @ to_be16 0" 10 0 x] p by (simp add: tc_header_def)
  show "take 2 (tc_header wire m @ x) = take 2 wire" "(tc_header wire m @ x) ! 2 = wire ! 2 OR 0x02"
    by (simp_all add: wl tc_header_def)
qed

lemma truncate_complete:
  assumes w: "12 \<le> length wire" "skip_questions wire = Some (Some q)"
    and k: "kept wire max_bytes (unat (get16 wire 6)) q q m e" "12 \<le> q" "e \<le> length wire"
  shows "complete (tc_header wire (word_of_nat m) @ take (e - 12) (drop 12 wire))"
proof -
  define r where "r = tc_header wire (word_of_nat m) @ take (e - 12) (drop 12 wire)"
  have lr: "length r = e" using w k by (simp add: r_def kept_def)
  note G = tc_header_get [OF w(1), of "word_of_nat m" "take (e - 12) (drop 12 wire)",
    folded r_def]
  have e: "q \<le> e" "walk record_step m wire q = Some (Some e)" "m \<le> unat (get16 wire 6)"
    using k by (simp_all add: kept_def)
  have same: "same_between r wire 12 e"
    using lr w k by (auto simp: same_between_def r_def nth_append)
  have m: "unat (word_of_nat m :: u16) = m"
    using e(3) unat_u16 [of "get16 wire 6"] by (intro unat_of_nat_u16) linarith
  have "walk question_step (unat (get16 wire 4)) r 12 = Some (Some q)"
  proof (rule questions.walk_local)
    show "walk question_step (unat (get16 wire 4)) wire 12 = Some (Some q)"
      using w by (simp add: skip_questions_def)
    show "same_between r wire 12 q" using e(1) by (intro same_between_sub [OF same]) simp_all
  qed
  moreover have "walk record_step m r q = Some (Some e)"
    by (rule records.walk_local [OF e(2)], rule same_between_sub [OF same]) (use k(2) in simp_all)
  moreover have len: "12 \<le> length r" using lr e k by linarith
  ultimately have "skip_to_additional r = Some (Some e)"
    by (simp add: skip_to_additional_def skip_questions_def G m)
  then have "complete r" by (rule completeI [OF len]) (simp add: G lr)
  then show ?thesis by (simp add: r_def)
qed

lemma tc_fallback_total: "12 \<le> length wire \<Longrightarrow> tc_fallback wire \<noteq> None"
  by (simp add: tc_fallback_def min_def)

lemma truncate_total: "truncate_response_properly wire max_bytes \<noteq> None"
proof (cases "length wire \<le> max_bytes \<or> length wire < 12")
  case False
  then have len: "max_bytes < length wire" "12 \<le> length wire" by simp_all
  obtain r where r: "skip_questions wire = Some r" using skip_questions_total [OF len(2)] by blast
  show ?thesis
  proof (cases r)
    case None
    with r len show ?thesis using tc_fallback_total by (simp add: truncate_response_properly_def)
  next
    case (Some q)
    with r have "skip_questions wire = Some (Some q)" by simp
    from truncate_form [OF len this] show ?thesis by auto
  qed
qed (auto simp: truncate_response_properly_def)

section \<open>0x20 changes case only\<close>

definition same_but_case :: "bytes \<Rightarrow> bytes \<Rightarrow> bool" where
  "same_but_case xs ys \<longleftrightarrow> map lower_u8 xs = map lower_u8 ys"

lemma same_but_case_length: "same_but_case xs ys \<Longrightarrow> length xs = length ys"
  unfolding same_but_case_def by (metis length_map)

lemma same_but_case_nth: "same_but_case xs ys \<Longrightarrow> i < length ys \<Longrightarrow> lower_u8 (xs ! i) = lower_u8 (ys ! i)"
  using same_but_case_length [of xs ys] unfolding same_but_case_def by (metis nth_map)

lemma lower_flip: "is_alpha_code (unat b) \<Longrightarrow> lower_u8 (b XOR 0x20) = lower_u8 b"
proof -
  assume b: "is_alpha_code (unat b)"
  have "\<forall>n\<in>set ([65..<91] @ [97..<123]). lower_u8 (word_of_nat n XOR 0x20) = lower_u8 (word_of_nat n)"
    by (simp add: upt_rec_numeral lower_u8_def is_upper_code_def)
  moreover have "unat b \<in> set ([65..<91] @ [97..<123])"
    unfolding set_append set_upt using b by (simp add: is_alpha_code_def) linarith
  ultimately have "lower_u8 (word_of_nat (unat b) XOR 0x20) = lower_u8 (word_of_nat (unat b))" by (rule bspec)
  then show ?thesis by simp
qed

lemma take_shorter: "take m xs = take m ys \<Longrightarrow> n \<le> m \<Longrightarrow> take n xs = take n ys"
  by (metis min.absorb1 take_take)

lemma flip_label_case:
  "pos + n \<le> length out \<Longrightarrow> \<exists>out' rng'. flip_label n out pos rng = Some (out', rng') \<and>
     same_but_case out' out \<and> take pos out' = take pos out"
proof (induction n arbitrary: out pos rng)
  case 0
  then show ?case by (simp add: same_but_case_def)
next
  case (Suc n)
  define b where "b = out ! pos"
  define out1 where "out1 = (if is_alpha_code (unat b) \<and> drop_bit 33 (lcg rng) AND 1 = 1
      then take pos out @ [b XOR 0x20] @ drop (Suc pos) out else out)"
  have pos: "pos < length out" using Suc.prems by simp
  have e: "out = take pos out @ [b] @ drop (Suc pos) out" using id_take_nth_drop [OF pos] by (simp add: b_def)
  have o1: "same_but_case out1 out" "length out1 = length out" "take pos out1 = take pos out"
  proof -
    show "same_but_case out1 out"
      using arg_cong [OF e, of "map lower_u8"] by (simp add: out1_def same_but_case_def lower_flip)
    then show "length out1 = length out" by (rule same_but_case_length)
    show "take pos out1 = take pos out" using pos by (simp add: out1_def)
  qed
  have "pos + 1 + n \<le> length out1" using Suc.prems o1(2) by simp
  from Suc.IH [OF this, of "lcg rng"] obtain out' rng' where r: "flip_label n out1 (pos + 1) (lcg rng) = Some (out', rng')"
    "same_but_case out' out1" "take (pos + 1) out' = take (pos + 1) out1" by blast
  have "flip_label (Suc n) out pos rng = Some (out', rng')"
    using pos r(1) by (auto simp: out1_def b_def Let_def split: if_splits)
  moreover have "take pos out' = take pos out"
    using take_shorter [OF r(3), of pos] o1(3) by simp
  ultimately show ?case using r(2) o1(1) by (auto simp: same_but_case_def)
qed

lemma flip_loop_case:
  "12 \<le> pos \<Longrightarrow> \<exists>out'. flip_loop n out pos rng = Some out' \<and> same_but_case out' out \<and> take pos out' = take pos out"
proof (induction n arbitrary: out pos rng)
  case 0
  then show ?case by (simp add: same_but_case_def)
next
  case (Suc n)
  show ?case
  proof (cases "pos < length out \<and> out ! pos \<noteq> 0 \<and> out ! pos AND 0xC0 \<noteq> 0xC0 \<and> unat (out ! pos) \<le> 63 \<and>
      pos + 1 + unat (out ! pos) \<le> length out")
    case False
    then have "flip_loop (Suc n) out pos rng = Some out" by auto
    then show ?thesis by (simp add: same_but_case_def)
  next
    case True
    let ?p = "pos + 1 + unat (out ! pos)"
    from flip_label_case [of "pos + 1" "unat (out ! pos)" out rng] True obtain o1 r1 where
      o1: "flip_label (unat (out ! pos)) out (pos + 1) rng = Some (o1, r1)" "same_but_case o1 out"
      "take (pos + 1) o1 = take (pos + 1) out" by auto
    then have t: "take pos o1 = take pos out" using take_shorter [of "pos + 1" o1 out pos] by simp
    show ?thesis
    proof (cases "?p \<ge> length o1")
      case c: True
      with True o1 t show ?thesis by simp
    next
      case False
      from Suc.IH [of ?p o1 r1] Suc.prems obtain o2 where o2: "flip_loop n o1 ?p r1 = Some o2"
        "same_but_case o2 o1" "take ?p o2 = take ?p o1" by auto
      have "take pos o2 = take pos o1" using take_shorter [OF o2(3), of pos] by simp
      with True False o1 o2 t show ?thesis by (auto simp: same_but_case_def)
    qed
  qed
qed

text \<open>A byte that is a label length or a pointer is not a letter, so walkers do not see the case.\<close>

lemma lower_u8_cases: "lower_u8 a = lower_u8 b \<Longrightarrow> a = b \<or>
    64 \<le> unat a \<and> unat a < 128 \<and> 64 \<le> unat b \<and> unat b < 128"
proof -
  assume l: "lower_u8 a = lower_u8 b"
  then have "unat (lower_u8 a) = unat (lower_u8 b)" by simp
  then show ?thesis
    by (auto simp: unat_lower_u8 is_upper_code_def word_eq_iff_unsigned [where 'a = nat] split: if_splits)
qed

lemma skip_loop_case:
  "same_but_case buf' buf \<Longrightarrow> skip_loop n buf' pos = skip_loop n buf pos"
proof (induction n arbitrary: pos)
  case (Suc n)
  note len = same_but_case_length [OF Suc.prems]
  show ?case
  proof (cases "pos < length buf")
    case True
    from lower_u8_cases [OF same_but_case_nth [OF Suc.prems True]]
    consider "buf' ! pos = buf ! pos"
      | "64 \<le> unat (buf' ! pos)" "unat (buf' ! pos) < 128" "64 \<le> unat (buf ! pos)" "unat (buf ! pos) < 128" by blast
    then show ?thesis
    proof cases
      case 1
      with True len Suc show ?thesis by simp
    next
      case 2
      then have "buf' ! pos \<noteq> 0" "buf ! pos \<noteq> 0" by auto
      with True len 2 show ?thesis by (simp add: top_bits_pointer)
    qed
  qed (use len in simp)
qed simp

section \<open>Properties of truncation and 0x20\<close>

text \<open>
  C23: When the question section can be skipped, a response longer than the limit is truncated
  to a complete message: its header with TC set, the question section, and a prefix of the
  answer records; it respects the limit unless the questions alone exceed it, and the answer
  that follows the last one kept does not fit (or is malformed).
\<close>

theorem truncation_spec:
  assumes "max_bytes < length wire" and "12 \<le> length wire" and "skip_questions wire = ret (Some q)"
  shows "\<exists>r m. truncate_response_properly wire max_bytes = ret r \<and> complete r \<and>
    bit (r ! 2) 1 \<and> take 2 r = take 2 wire \<and> drop 12 r = take (length r - 12) (drop 12 wire) \<and>
    length r \<le> max max_bytes q \<and> get16 r 6 = word_of_nat m \<and> get16 r 8 = 0 \<and> get16 r 10 = 0 \<and>
    m \<le> unat (get16 wire 6) \<and> walk record_step m wire q = ret (Some (length r)) \<and>
    (m = unat (get16 wire 6) \<or> record_step wire (length r) = ret None \<or>
     (\<exists>p. record_step wire (length r) = ret (Some p) \<and> max_bytes < p))"
proof -
  obtain m e where me: "truncate_response_properly wire max_bytes =
      Some (tc_header wire (word_of_nat m) @ take (e - 12) (drop 12 wire))"
    "kept wire max_bytes (unat (get16 wire 6)) q q m e" "12 \<le> q" "e \<le> length wire"
    using assms by (rule truncate_form)
  define r where "r = tc_header wire (word_of_nat m) @ take (e - 12) (drop 12 wire)"
  have k: "q \<le> e" "m \<le> unat (get16 wire 6)" "walk record_step m wire q = Some (Some e)"
    "m = 0 \<or> q + (e - q) \<le> max_bytes"
    "m = unat (get16 wire 6) \<or> record_step wire e = Some None \<or>
      (\<exists>p. record_step wire e = Some (Some p) \<and> max_bytes < q + (p - q))"
    using me(2) by (auto simp: kept_def)
  have le: "length r = e" using assms(2) me(3,4) k(1) by (simp add: r_def)
  have lim: "e \<le> max max_bytes q"
    using k by (cases m) auto
  have fit: "m = unat (get16 wire 6) \<or> record_step wire e = Some None \<or>
      (\<exists>p. record_step wire e = Some (Some p) \<and> max_bytes < p)"
    using k(1,5) records.step_progress [of wire e] by fastforce
  have "complete r" unfolding r_def by (rule truncate_complete [OF assms(2,3) me(2-4)])
  moreover have "drop 12 r = take (length r - 12) (drop 12 wire)"
    unfolding le using assms(2) by (simp add: r_def)
  moreover have "bit (r ! 2) 1"
    using tc_header_get(6) [OF assms(2)] by (simp add: r_def bit_or_iff bit_numeral_rec)
  ultimately show ?thesis
    using me(1) k(2,3) lim fit tc_header_get [OF assms(2), of "word_of_nat m" "take (e - 12) (drop 12 wire)"]
    by (intro exI [of _ r] exI [of _ m]) (simp add: le flip: r_def)
qed

text \<open>Two answers of 16 bytes after a question: a limit of 40 bytes keeps the first one.\<close>

definition two_answers :: bytes where
  "two_answers = [0, 7, 0x81, 0x80, 0, 1, 0, 2, 0, 0, 0, 0, 3, 102, 111, 111, 0, 0, 1, 0, 1]
     @ [0xC0, 12, 0, 1, 0, 1, 0, 0, 0, 60, 0, 4, 8, 8, 8, 8]
     @ [0xC0, 12, 0, 1, 0, 1, 0, 0, 0, 60, 0, 4, 8, 8, 4, 4]"

theorem truncation_spec_witness:
  "\<exists>r. truncate_response_properly two_answers 40 = ret r \<and> complete r \<and> length r \<le> 40"
proof -
  have "40 < length two_answers" "12 \<le> length two_answers" "skip_questions two_answers = Some (Some 21)"
    by code_simp+
  from truncation_spec [OF this] show ?thesis by auto
qed

text \<open>
  0x20 randomization never panics; its output differs from the query in the case of
  letters only, keeps the header, and reads back with the question at the same place.
\<close>

theorem dns0x20_case_only:
  "\<exists>r. apply_dns0x20_randomization wire = ret r \<and> map lower_u8 r = map lower_u8 wire \<and>
     take 12 r = take 12 wire \<and> question_step r 12 = question_step wire 12"
proof (cases "12 \<le> length wire \<and> unat (get16 wire 4) \<noteq> 0")
  case True
  obtain r where r: "flip_loop (length wire) wire 12 (lcg (ucast (get16 wire 0))) = Some r"
    "same_but_case r wire" "take 12 r = take 12 wire" using flip_loop_case [of 12] by blast
  have "question_step r 12 = question_step wire 12"
    by (simp only: question_step_def skip_dns_name_def skip_loop_case [OF r(2)] same_but_case_length [OF r(2)])
  with True r show ?thesis
    by (intro exI [of _ r]) (simp add: apply_dns0x20_randomization_def same_but_case_def)
qed (auto simp: apply_dns0x20_randomization_def)

end
