(* ===== verification/Ip_Addr.thy ===== *)
theory Ip_Addr
  imports Prelude
begin

text \<open>
  IP addresses, as \<open>std::net\<close> has them: an \<open>Ipv4Addr\<close> is a 32-bit word, an \<open>Ipv6Addr\<close> a
  128-bit word, both read as octets in network order. The classification predicates are
  those of the standard library that \<open>src/dns/parser.rs\<close> calls. \<open>in_net\<close> is the textbook
  meaning of a prefix, the specification the range checks are compared with.
\<close>

type_synonym ipv4 = "32 word"
type_synonym ipv6 = "128 word"

datatype ip_addr = V4 ipv4 | V6 ipv6

definition v4_octet :: "ipv4 \<Rightarrow> nat \<Rightarrow> u8" where
  "v4_octet ip i = ucast (drop_bit (24 - 8 * i) ip)"

definition v4_octets :: "ipv4 \<Rightarrow> bytes" where
  "v4_octets ip = map (v4_octet ip) [0, 1, 2, 3]"

definition v4_new :: "u8 \<Rightarrow> u8 \<Rightarrow> u8 \<Rightarrow> u8 \<Rightarrow> ipv4" where
  "v4_new a b c d = be32 a b c d"

definition v6_octet :: "ipv6 \<Rightarrow> nat \<Rightarrow> u8" where
  "v6_octet ip i = ucast (drop_bit (120 - 8 * i) ip)"

definition v6_octets :: "ipv6 \<Rightarrow> bytes" where
  "v6_octets ip = map (v6_octet ip) [0..<16]"

definition v6_segment :: "ipv6 \<Rightarrow> nat \<Rightarrow> u16" where
  "v6_segment ip i = ucast (drop_bit (112 - 16 * i) ip)"

definition v6_of_octets :: "bytes \<Rightarrow> ipv6" where
  "v6_of_octets bs = foldl (\<lambda>w b. push_bit 8 w OR ucast b) 0 bs"

text \<open>The four last octets of an IPv6 address, \<open>Ipv4Addr::new(o[12], o[13], o[14], o[15])\<close>.\<close>

definition v6_low :: "ipv6 \<Rightarrow> ipv4" where
  "v6_low ip = v4_new (v6_octet ip 12) (v6_octet ip 13) (v6_octet ip 14) (v6_octet ip 15)"

section \<open>Predicates of the standard library\<close>

definition v4_is_private :: "ipv4 \<Rightarrow> bool" where
  "v4_is_private ip \<longleftrightarrow> v4_octet ip 0 = 10 \<or> v4_octet ip 0 = 172 \<and> 16 \<le> v4_octet ip 1 \<and> v4_octet ip 1 \<le> 31
     \<or> v4_octet ip 0 = 192 \<and> v4_octet ip 1 = 168"

definition v4_is_loopback :: "ipv4 \<Rightarrow> bool" where
  "v4_is_loopback ip \<longleftrightarrow> v4_octet ip 0 = 127"

definition v4_is_link_local :: "ipv4 \<Rightarrow> bool" where
  "v4_is_link_local ip \<longleftrightarrow> v4_octet ip 0 = 169 \<and> v4_octet ip 1 = 254"

definition v4_is_multicast :: "ipv4 \<Rightarrow> bool" where
  "v4_is_multicast ip \<longleftrightarrow> 224 \<le> v4_octet ip 0 \<and> v4_octet ip 0 \<le> 239"

definition v4_is_broadcast :: "ipv4 \<Rightarrow> bool" where
  "v4_is_broadcast ip \<longleftrightarrow> ip = 0xFFFFFFFF"

definition v6_is_loopback :: "ipv6 \<Rightarrow> bool" where
  "v6_is_loopback ip \<longleftrightarrow> ip = 1"

definition v6_is_unspecified :: "ipv6 \<Rightarrow> bool" where
  "v6_is_unspecified ip \<longleftrightarrow> ip = 0"

definition v6_is_multicast :: "ipv6 \<Rightarrow> bool" where
  "v6_is_multicast ip \<longleftrightarrow> v6_segment ip 0 AND 0xFF00 = 0xFF00"

text \<open>\<open>IpAddr::to_canonical\<close>: an IPv4-mapped address becomes the IPv4 address it maps.\<close>

fun to_canonical :: "ip_addr \<Rightarrow> ip_addr" where
  "to_canonical (V4 a) = V4 a"
| "to_canonical (V6 a) = (if drop_bit 32 a = 0xFFFF then V4 (v6_low a) else V6 a)"

fun ip_octets :: "ip_addr \<Rightarrow> bytes" where
  "ip_octets (V4 a) = v4_octets a"
| "ip_octets (V6 a) = v6_octets a"

section \<open>Prefixes\<close>

text \<open>\<open>ip\<close> is in \<open>net/plen\<close>: the first \<open>plen\<close> bits agree.\<close>

definition in_net :: "'w::len word \<Rightarrow> nat \<Rightarrow> 'w word \<Rightarrow> bool" where
  "in_net net plen ip \<longleftrightarrow> drop_bit (LENGTH('w) - plen) ip = drop_bit (LENGTH('w) - plen) net"

definition mapped :: "ipv4 \<Rightarrow> ipv6" where
  "mapped a = word_of_nat (0xFFFF * 2 ^ 32 + unat a)"

section \<open>Words as numbers\<close>

lemma unat_drop: "unat (drop_bit k w) = unat w div 2 ^ k"
  unfolding drop_bit_eq_div [symmetric] by (rule bit_eqI) (auto simp: bit_simps dest: bit_imp_le_length)

lemma unat_v4_octet: "unat (v4_octet ip i) = unat ip div 2 ^ (24 - 8 * i) mod 256"
  by (simp add: v4_octet_def unsigned_ucast_eq take_bit_eq_mod unat_drop)

lemma unat_v6_octet: "unat (v6_octet ip i) = unat ip div 2 ^ (120 - 8 * i) mod 256"
  by (simp add: v6_octet_def unsigned_ucast_eq take_bit_eq_mod unat_drop)

lemma unat_v6_segment: "unat (v6_segment ip i) = unat ip div 2 ^ (112 - 16 * i) mod 65536"
  by (simp add: v6_segment_def unsigned_ucast_eq take_bit_eq_mod unat_drop)

lemma in_net_unat: "in_net net plen (ip :: 'w::len word) \<longleftrightarrow>
    unat ip div 2 ^ (LENGTH('w) - plen) = unat net div 2 ^ (LENGTH('w) - plen)"
  by (simp add: in_net_def word_eq_iff_unsigned [where 'a = nat] unat_drop)

lemma length_v4_octets [simp]: "length (v4_octets ip) = 4"
  by (simp add: v4_octets_def)

lemma length_v6_octets [simp]: "length (v6_octets ip) = 16"
  by (simp add: v6_octets_def)

lemma unat_v4: "unat (a :: ipv4) < 4294967296"
  using unsigned_less [of a] by simp

lemma unat_mapped: "unat (mapped a) = 0xFFFF * 2 ^ 32 + unat a"
proof -
  have "0xFFFF * 2 ^ 32 + unat a < 2 ^ 128" using unat_v4 [of a] by simp
  then show ?thesis unfolding mapped_def unat_of_nat by (simp add: take_bit_nat_eq_self)
qed

lemma shifted_octet: "k \<le> 24 \<Longrightarrow> (c * 2 ^ 32 + m) div 2 ^ k mod 256 = m div 2 ^ k mod (256 :: nat)"
proof -
  assume k: "k \<le> 24"
  then have "c * 2 ^ 32 + m = m + (c * 2 ^ (24 - k) * 256) * 2 ^ k"
    by (simp flip: power_add)
  then show ?thesis by (simp only: div_mult_self1) simp
qed

lemma v6_low_mapped [simp]: "v6_low (mapped a) = a"
proof -
  have "v6_octet (mapped a) (12 + i) = ucast (drop_bit (24 - 8 * i) a)" for i
    using unat_v6_octet [of "mapped a" "12 + i"] shifted_octet [of "24 - 8 * i" "0xFFFF" "unat a"]
    by (simp only: unat_mapped word_eq_iff_unsigned [where 'a = nat] unat_v4_octet flip: v4_octet_def)
       simp
  from this [of 0] this [of 1] this [of 2] this [of 3] show ?thesis by (simp add: v6_low_def v4_new_def)
qed

lemma canonical_mapped [simp]: "to_canonical (V6 (mapped a)) = V4 a"
proof -
  have "(0xFFFF * 2 ^ 32 + unat a) div 2 ^ 32 = 0xFFFF"
    using unat_v4 [of a] by (intro div_nat_eqI) simp_all
  then have "drop_bit 32 (mapped a) = 0xFFFF"
    by (simp only: word_eq_iff_unsigned [where 'a = nat] unat_drop unat_mapped) simp
  then show ?thesis by simp
qed

lemma canonical_idem [simp]: "to_canonical (to_canonical ip) = to_canonical ip"
  by (cases ip) auto

end
