(* ===== verification/Dns_Cookie.thy ===== *)
theory Dns_Cookie
  imports Ecs Truncation Ip_Addr
begin

text \<open>
  DNS cookies (RFC 7873) in \<open>src/dns/parser.rs\<close>: \<open>parse_dns_cookie\<close>,
  \<open>append_cookie_to_response\<close>, \<open>generate_server_cookie\<close> and \<open>verify_server_cookie\<close>. The HMAC
  of the \<open>ring\<close> package is a parameter.

  The lemmas show that an appended cookie is read back, that verification accepts exactly the
  server's own cookies of the last or next hour, and that no function of the EDNS group panics.
\<close>

section \<open>Cookies\<close>

definition cookie_option_code :: u16 where "cookie_option_code = 10"

type_synonym cookie = "bytes \<times> bytes option"

function cookie_options :: "bytes \<Rightarrow> nat \<Rightarrow> nat \<Rightarrow> cookie option rust" where
  "cookie_options wire opt_pos rdata_end =
    (if opt_pos + 4 \<le> rdata_end then do {
       opt_code \<leftarrow> rd16 wire opt_pos;
       opt_len \<leftarrow> count16 wire (opt_pos + 2);
       let opt_data_end = opt_pos + 4 + opt_len;
       if opt_data_end > rdata_end then ret None
       else if opt_code = cookie_option_code \<and> opt_len \<ge> 8 then do {
         client_cookie \<leftarrow> slice wire (opt_pos + 4) (opt_pos + 12);
         server_cookie \<leftarrow> (if opt_len \<ge> 16
           then do { s \<leftarrow> slice wire (opt_pos + 12) opt_data_end; ret (Some s) } else ret None);
         ret (Some (client_cookie, server_cookie)) }
       else cookie_options wire opt_data_end rdata_end }
     else ret None)"
  by pat_completeness auto
termination
  by (relation "measure (\<lambda>(_, opt_pos, rdata_end). rdata_end - opt_pos)") auto

declare cookie_options.simps [simp del]

primrec cookie_scan :: "nat \<Rightarrow> bytes \<Rightarrow> nat \<Rightarrow> cookie option rust" where
  "cookie_scan 0 wire pos = ret None"
| "cookie_scan (Suc n) wire pos =
    (if pos \<ge> length wire then ret None
     else do {
       r \<leftarrow> skip_dns_name wire pos;
       case r of None \<Rightarrow> ret None
       | Some name_end \<Rightarrow>
           if name_end + 10 > length wire then ret None
           else do {
             rtype \<leftarrow> rd16 wire name_end;
             rdlen \<leftarrow> count16 wire (name_end + 8);
             let rdata_end = name_end + 10 + rdlen;
             found \<leftarrow> (if rtype = 41 \<and> rdata_end \<le> length wire
                       then cookie_options wire (name_end + 10) rdata_end else ret None);
             case found of Some c \<Rightarrow> ret (Some c) | None \<Rightarrow> cookie_scan n wire rdata_end } })"

definition parse_dns_cookie :: "bytes \<Rightarrow> cookie option rust" where
  "parse_dns_cookie wire =
    (if length wire < 12 then ret None
     else do {
       arcount \<leftarrow> count16 wire 10;
       r \<leftarrow> skip_to_additional wire;
       case r of None \<Rightarrow> ret None | Some pos \<Rightarrow> cookie_scan arcount wire pos })"

definition append_cookie_to_response :: "bytes \<Rightarrow> bytes \<Rightarrow> bytes \<Rightarrow> bytes rust" where
  "append_cookie_to_response wire client_cookie server_cookie =
    (if length wire < 12 \<or> client_cookie = [] \<or> server_cookie = [] then ret wire
     else let opt_len = (word_of_nat (length client_cookie + length server_cookie) :: u16)
          in append_option wire (to_be16 cookie_option_code @ to_be16 opt_len
               @ client_cookie @ server_cookie))"

text \<open>
  The server cookie. \<open>ring::hmac\<close> is a parameter: \<open>hmac secret msg\<close> is the HMAC-SHA256 tag.
\<close>

definition generate_server_cookie ::
  "(bytes \<Rightarrow> bytes \<Rightarrow> bytes) \<Rightarrow> bytes \<Rightarrow> ip_addr \<Rightarrow> bytes \<Rightarrow> u32 \<Rightarrow> bytes rust" where
  "generate_server_cookie hmac secret client_ip client_cookie timestamp = do {
     let msg = ip_octets (to_canonical client_ip) @ client_cookie @ [0x01] @ [0x00, 0x00, 0x00]
               @ to_be32 timestamp;
     hmac_8b \<leftarrow> slice (hmac secret msg) 0 8;
     ret ([0x01] @ [0x00, 0x00, 0x00] @ to_be32 timestamp @ hmac_8b) }"

definition abs_diff :: "u32 \<Rightarrow> u32 \<Rightarrow> u32" where
  "abs_diff a b = (if a < b then b - a else a - b)"

definition xor_diff :: "bytes \<Rightarrow> bytes \<Rightarrow> u8" where
  "xor_diff xs ys = foldl (\<lambda>d (a, b). d OR (a XOR b)) 0 (zip xs ys)"

definition verify_server_cookie ::
  "(bytes \<Rightarrow> bytes \<Rightarrow> bytes) \<Rightarrow> bytes \<Rightarrow> ip_addr \<Rightarrow> bytes \<Rightarrow> bytes \<Rightarrow> u32 \<Rightarrow> bool rust" where
  "verify_server_cookie hmac secret client_ip client_cookie server_cookie now_unix = (
     let client_ip = to_canonical client_ip in
     if length server_cookie \<noteq> 16 then ret False
     else do {
       v \<leftarrow> rd server_cookie 0;
       if v \<noteq> 0x01 \<or> length client_cookie \<noteq> 8 then ret False
       else do {
         cookie_time \<leftarrow> rd32 server_cookie 4;
         if abs_diff now_unix cookie_time > 3600 then ret False
         else do {
           expected \<leftarrow> generate_server_cookie hmac secret client_ip client_cookie cookie_time;
           if length expected \<noteq> length server_cookie then ret False
           else ret (xor_diff expected server_cookie = 0) } } })"

section \<open>Reading back an appended cookie\<close>

lemma cookie_options_form:
  assumes "length pre = p" "length cc = 8" "8 \<le> length sc" "length sc \<le> 32"
  shows "cookie_options (pre @ to_be16 10 @ to_be16 (word_of_nat (length cc + length sc)) @ cc @ sc @ post)
      p (p + 4 + (length cc + length sc)) = Some (Some (cc, Some sc))"
proof -
  let ?w = "pre @ to_be16 10 @ to_be16 (word_of_nat (length cc + length sc)) @ cc @ sc @ post"
  have n: "unat (word_of_nat (length cc + length sc) :: u16) = length cc + length sc"
    using assms by (intro unat_of_nat_u16) simp
  have g: "rd16 ?w p = Some 10" using assms(1) by (simp add: get16_mid)
  have "get16 ?w (p + 2) = word_of_nat (length cc + length sc)"
    using get16_mid [of "pre @ to_be16 10" "p + 2"] assms(1) by simp
  then have l: "count16 ?w (p + 2) = Some (length cc + length sc)"
    using assms(1) n by (simp add: count16_def)
  have c: "slice ?w (p + 4) (p + 12) = Some cc" "slice ?w (p + 12) (p + 4 + (length cc + length sc)) = Some sc"
    using assms by simp_all
  show ?thesis
    by (subst cookie_options.simps)
      (use assms g l c in \<open>simp add: cookie_option_code_def Let_def del: rd16_ok count16_ok slice_ok\<close>)
qed

lemma cookie_options_total:
  "rdata_end \<le> length w \<Longrightarrow> cookie_options w p rdata_end \<noteq> None"
proof (induction w p rdata_end rule: cookie_options.induct)
  case (1 w p e)
  show ?case
  proof (cases "p + 4 \<le> e")
    case True
    then have r: "rd16 w p = Some (get16 w p)" "count16 w (p + 2) = Some (unat (get16 w (p + 2)))"
      using 1(2) by simp_all
    show ?thesis
      using True 1(2) r 1(1) [OF True r refl]
      by (subst cookie_options.simps) (auto simp: Let_def simp del: rd16_ok count16_ok)
  qed (subst cookie_options.simps, simp)
qed

lemma cookie_scan_total [simp]: "cookie_scan n w a \<noteq> None"
proof (induction n arbitrary: a)
  case (Suc n)
  show ?case
  proof (cases "a < length w")
    case True
    obtain r where r: "skip_dns_name w a = Some r" using skip_dns_name_total by blast
    show ?thesis
    proof (cases r)
      case (Some ne)
      show ?thesis
      proof (cases "ne + 10 \<le> length w")
        case True
        let ?e = "ne + 10 + unat (get16 w (ne + 8))"
        have "(if get16 w ne = 41 \<and> ?e \<le> length w then cookie_options w (ne + 10) ?e else Some None) \<noteq> None"
          using cookie_options_total [of ?e w "ne + 10"] by simp
        then obtain f where f: "(if get16 w ne = 41 \<and> ?e \<le> length w then cookie_options w (ne + 10) ?e
            else Some None) = Some f" by blast
        have "cookie_scan (Suc n) w a = (case f of Some c \<Rightarrow> Some (Some c) | None \<Rightarrow> cookie_scan n w ?e)"
          using \<open>a < length w\<close> r Some True f by (simp add: Let_def)
        then show ?thesis using Suc.IH [of ?e] by (cases f) simp_all
      qed (use \<open>a < length w\<close> r Some in simp)
    qed (use True r in simp)
  qed simp
qed simp

text \<open>Records of other types are passed over.\<close>

lemma cookie_scan_skips:
  "walk record_step j w a = Some (Some pos) \<Longrightarrow> (\<And>i p ne. i < j \<Longrightarrow> \<not> opt_at w a i p ne) \<Longrightarrow>
   cookie_scan (j + m) w a = cookie_scan m w pos"
proof (induction j arbitrary: a)
  case (Suc j)
  from Suc.prems(1) obtain ne p where s: "skip_dns_name w a = Some (Some ne)"
    "p = ne + 10 + unat (get16 w (ne + 8))" "a < ne" "p \<le> length w" "record_step w a = Some (Some p)"
    "walk record_step j w p = Some (Some pos)" by (rule walk_record_Suc)
  have "get16 w ne \<noteq> 41" using Suc.prems(2) [of 0 a ne] s by (auto simp: opt_at_0)
  moreover have "cookie_scan (j + m) w p = cookie_scan m w pos"
    using Suc.prems(2) [of "Suc _"] s(6) by (intro Suc.IH) (auto simp: opt_at_Suc [OF s(5)])
  ultimately show ?case using s by (simp add: Let_def)
qed simp

lemma cookie_scan_opt:
  assumes "skip_dns_name w pos = Some (Some ne)" "get16 w ne = 41"
    "ne + 10 + unat (get16 w (ne + 8)) \<le> length w"
    "cookie_options w (ne + 10) (ne + 10 + unat (get16 w (ne + 8))) = Some (Some c)"
  shows "cookie_scan (Suc n) w pos = Some (Some c)"
  using assms skip_dns_name_progress [OF assms(1)] by (simp add: Let_def)

section \<open>Verification\<close>

lemma xor_diff_acc: "length xs = length ys \<Longrightarrow>
    (foldl (\<lambda>d (a, b). d OR (a XOR b)) (d :: u8) (zip xs ys) = 0) \<longleftrightarrow> d = 0 \<and> xs = ys"
proof (induction xs ys arbitrary: d rule: list_induct2)
  case (Cons x xs y ys)
  have "(d OR (x XOR y) = 0) \<longleftrightarrow> d = 0 \<and> x = y"
  proof -
    have "x XOR y = 0 \<longleftrightarrow> x = y"
      by (metis bit.xor_left_self bit.xor_self xor.right_neutral)
    then show ?thesis by (simp add: or_eq_0_iff)
  qed
  with Cons show ?case by auto
qed simp

lemma xor_diff_zero: "length xs = length ys \<Longrightarrow> xor_diff xs ys = 0 \<longleftrightarrow> xs = ys"
  by (simp add: xor_diff_def xor_diff_acc)

lemma generate_form:
  assumes "8 \<le> length (hmac secret (ip_octets (to_canonical ip) @ cc @ [1, 0, 0, 0] @ to_be32 t))"
  shows "generate_server_cookie hmac secret ip cc t = Some ([1, 0, 0, 0] @ to_be32 t @
    take 8 (hmac secret (ip_octets (to_canonical ip) @ cc @ [1, 0, 0, 0] @ to_be32 t)))"
  using assms by (simp add: generate_server_cookie_def Let_def)

lemma generate_canonical:
  "generate_server_cookie hmac secret (to_canonical ip) cc t = generate_server_cookie hmac secret ip cc t"
  by (simp add: generate_server_cookie_def)

lemma verify_form:
  assumes h: "\<And>m. 8 \<le> length (hmac secret m)"
  shows "verify_server_cookie hmac secret ip cc sc now = Some (length sc = 16 \<and> length cc = 8 \<and>
     abs_diff now (get32 sc 4) \<le> 3600 \<and> generate_server_cookie hmac secret ip cc (get32 sc 4) = Some sc)"
proof (cases "length sc = 16 \<and> length cc = 8 \<and> sc ! 0 = 1")
  case False
  have "sc ! 0 = 1" if "generate_server_cookie hmac secret ip cc t = Some sc" for t
    using that generate_form [of hmac secret ip cc t] h by auto
  with False show ?thesis by (auto simp: verify_server_cookie_def Let_def)
next
  case True
  let ?g = "[1, 0, 0, 0] @ to_be32 (get32 sc 4) @
    take 8 (hmac secret (ip_octets (to_canonical ip) @ cc @ [1, 0, 0, 0] @ to_be32 (get32 sc 4)))"
  have g: "generate_server_cookie hmac secret ip cc (get32 sc 4) = Some ?g" by (rule generate_form) (rule h)
  have l: "length ?g = 16" using h by (simp add: min_absorb2)
  with True g xor_diff_zero [of ?g sc] show ?thesis
    by (auto simp: verify_server_cookie_def Let_def generate_canonical not_less simp del: append_Cons)
qed

section \<open>Totality of the group\<close>

lemma process_ecs_total: "process_ecs_option w mode \<noteq> None"
proof (cases "mode = Passthrough \<or> length w < 12")
  case False
  then have len: "12 \<le> length w" and mode: "mode \<noteq> Passthrough" by simp_all
  have scan: "ecs_scan n mode w a \<noteq> None" for n a
  proof (induction n arbitrary: a)
    case (Suc n)
    obtain r where r: "skip_dns_name w a = Some r" using skip_dns_name_total by blast
    show ?case
    proof (cases "\<exists>ne. a < length w \<and> r = Some ne \<and> ne + 10 + unat (get16 w (ne + 8)) \<le> length w")
      case False
      with r Suc.IH show ?thesis by (auto simp: Let_def split: option.splits)
    next
      case True
      then obtain ne where ne: "a < length w" "r = Some ne" "ne + 10 + unat (get16 w (ne + 8)) \<le> length w"
        by blast
      note W = scrub_write [OF ne(3)]
      from ne r mode Suc.IH W(3) W(1) [of "scrubbed Strip (opt_data w ne)"] W(2) [OF length_anonymized]
      show ?thesis
        by (cases mode) (auto simp: Let_def strip_filter anonymize_map scrubbed_def)
    qed
  qed simp
  have walk: "walk record_step_unchecked n w p \<noteq> None" for n p
    by (induction n arbitrary: p)
      (auto simp: record_step_unchecked_def split: option.splits Option.bind_splits)
  obtain r where r: "skip_questions w = Some r" using skip_questions_total [OF len] by blast
  show ?thesis
  proof (cases r)
    case (Some q)
    obtain s where s: "walk record_step_unchecked (unat (get16 w 6) + unat (get16 w 8)) w q = Some s"
      using walk by blast
    with r Some len mode scan show ?thesis by (cases s) (auto simp: process_ecs_option_def simp del: not_None_eq)
  qed (use r len mode in \<open>simp add: process_ecs_option_def\<close>)
qed (auto simp: process_ecs_option_def)

lemma parse_dns_cookie_total: "parse_dns_cookie w \<noteq> None"
proof (cases "12 \<le> length w")
  case True
  obtain r where r: "skip_to_additional w = Some r" using skip_to_additional_total [OF True] by blast
  with True cookie_scan_total [of "unat (get16 w 10)" w] show ?thesis
    by (cases r) (simp_all add: parse_dns_cookie_def del: not_None_eq)
qed (simp add: parse_dns_cookie_def)

section \<open>Properties of cookies\<close>

text \<open>
  A cookie appended to a complete response without an OPT record is found again by the
  parser: the 8-byte client cookie and the server cookie of 8 to 32 bytes.
\<close>

theorem cookie_round_trip:
  assumes "complete wire" and "get16 wire 10 \<noteq> 0xFFFF" and "has_edns wire = ret False"
    and "length client = 8" and "8 \<le> length server" and "length server \<le> 32"
  shows "\<exists>r. append_cookie_to_response wire client server = ret r \<and> complete r \<and>
    parse_dns_cookie r = ret (Some (client, Some server))"
proof -
  obtain a where a: "12 \<le> length wire" "skip_to_additional wire = Some (Some a)" "12 \<le> a" "a \<le> length wire"
    "walk record_step (unat (get16 wire 10)) wire a = Some (Some (length wire))"
    using assms(1) by (rule complete_sections)
  have no: "\<not> has_opt wire" using assms(3) a(1) by (simp add: has_edns_has_opt)
  let ?n = "length client + length server"
  define opt where "opt = to_be16 10 @ to_be16 (word_of_nat ?n) @ client @ server"
  have lo: "length opt = 4 + ?n" by (simp add: opt_def)
  have uo: "unat (word_of_nat (length opt) :: u16) = length opt"
    using assms(4,6) lo by (intro unat_of_nat_u16) simp
  let ?rest = "to_be16 4096 @ [0, 0, 0, 0]"
  define rr where "rr = [0x00] @ (to_be16 41 @ ?rest) @ to_be16 (word_of_nat (length opt)) @ opt"
  define r where "r = with_record wire rr"
  have "append_option wire opt = Some r"
    using append_option_complete [OF assms(1,2), of opt] no lo assms(4,6)
    by (auto simp: r_def rr_def)
  then have ap: "append_cookie_to_response wire client server = Some r"
    using a(1) assms(4,5)
    by (auto simp: append_cookie_to_response_def opt_def cookie_option_code_def Let_def)
  note R = with_opt_record [OF assms(1,2) rr_def _ uo [symmetric], folded r_def]
  have comp: "complete r" by (rule R(1)) simp
  obtain b where b: "skip_to_additional r = Some (Some b)"
    "opt_at r b (unat (get16 wire 10)) (length wire) (length wire + 1)"
    using R(3) by auto
  obtain h where h: "r = h @ rr" "length h = length wire" using with_record_split [OF a(1)] r_def by metis
  have ss: "skip_dns_name rr 0 = Some (Some 1)" "record_step rr 0 = Some (Some (length rr))"
    unfolding rr_def using root_record [of "to_be16 41 @ ?rest" opt] uo by simp_all
  note S = with_record_sections [OF a ss assms(2), folded r_def]
  have ab: "b = a" using b(1) S(1) by simp
  have cnt: "unat (get16 r 10) = unat (get16 wire 10) + Suc 0"
    using a(1) assms(2) by (simp add: r_def with_record_count unat_saturating_succ)
  have before: "\<not> opt_at r a i p ne" if i: "i < unat (get16 wire 10)" for i p ne
  proof
    assume o: "opt_at r a i p ne"
    from i obtain m where m: "unat (get16 wire 10) = i + Suc m" using less_iff_Suc_add by auto
    from a(5) obtain p' where p': "walk record_step i wire a = Some (Some p')"
      "walk record_step (Suc m) wire p' = Some (Some (length wire))"
      unfolding m records.walk_add by (auto split: Option.bind_splits option.splits)
    from p'(2) obtain ne' q where q: "skip_dns_name wire p' = Some (Some ne')"
      "q = ne' + 10 + unat (get16 wire (ne' + 8))" "p' < ne'" "q \<le> length wire"
      "record_step wire p' = Some (Some q)" "walk record_step m wire q = Some (Some (length wire))"
      by (rule walk_record_Suc)
    have same: "same_between r wire 12 (length wire)"
      using a(1) by (auto simp: same_between_def r_def with_record_nth)
    have "a \<le> p'" using records.walk_inside [OF p'(1)] a(4) by simp
    have "walk record_step i r a = Some (Some p')"
      by (rule records.walk_local [OF p'(1)], rule same_between_sub [OF same]) (use a(3) q in simp_all)
    moreover have "skip_dns_name r p' = Some (Some ne')"
      by (rule skip_dns_name_local [OF q(1)], rule same_between_sub [OF same]) (use a(3) q \<open>a \<le> p'\<close> in simp_all)
    ultimately have "p = p'" "ne = ne'" using o by (auto simp: opt_at_def)
    moreover have "get16 r ne' = get16 wire ne'"
      by (rule get16_same [OF same]) (use a(3) q \<open>a \<le> p'\<close> in simp_all)
    ultimately have "opt_at wire a i p' ne'" using o p'(1) q by (simp add: opt_at_def)
    then have "has_opt wire" using has_opt_iff [OF a(2,5)] i by (auto intro: some_optI)
    with no show False by simp
  qed
  have g: "get16 r (length wire + 1 + 8) = word_of_nat (length opt)"
    using get16_shift [of h rr 9] get16_mid [of "[0x00] @ to_be16 41 @ ?rest" 9 "word_of_nat (length opt)" opt] h
    by (simp add: rr_def add.commute)
  have co: "cookie_options r (length wire + 11) (length wire + 11 + (4 + ?n)) = Some (Some (client, Some server))"
    using cookie_options_form [of "h @ [0x00] @ to_be16 41 @ ?rest @ to_be16 (word_of_nat (length opt))"
        "length wire + 11" client server "[]"] assms(4,5,6) h(2)
    by (simp add: h(1) rr_def opt_def add.assoc)
  have le: "length wire + 1 + 10 + length opt \<le> length r" using h by (simp add: rr_def)
  have eq: "length wire + 1 + 10 = length wire + 11" by simp
  have "cookie_scan (Suc 0) r (length wire) = Some (Some (client, Some server))"
    by (rule cookie_scan_opt [of _ _ "length wire + 1"]) (use b(2) co le uo g lo eq in \<open>simp_all only: opt_at_def\<close>)
  then have "cookie_scan (unat (get16 r 10)) r a = Some (Some (client, Some server))"
    unfolding cnt using cookie_scan_skips [OF S(2), of "Suc 0"] before by simp
  with comp b(1) ab ap show ?thesis
    by (simp add: parse_dns_cookie_def complete_def)
qed

theorem cookie_round_trip_witness:
  "\<exists>r. append_cookie_to_response plain_response [1, 2, 3, 4, 5, 6, 7, 8] [9, 9, 9, 9, 9, 9, 9, 9] = ret r \<and>
     parse_dns_cookie r = ret (Some ([1, 2, 3, 4, 5, 6, 7, 8], Some [9, 9, 9, 9, 9, 9, 9, 9]))"
proof -
  have "get16 plain_response 10 \<noteq> 0xFFFF" by code_simp
  moreover have "has_edns plain_response = ret False" by code_simp
  ultimately show ?thesis
    using cookie_round_trip [OF complete_plain, of "[1, 2, 3, 4, 5, 6, 7, 8]" "[9, 9, 9, 9, 9, 9, 9, 9]"] by auto
qed

text \<open>
  With an HMAC of at least 8 bytes, verification never panics and accepts exactly the
  cookie the server itself generates for this client, client cookie and secret, at the time
  written in the cookie, when that time is within an hour of now. An IPv4-mapped address
  counts as the IPv4 address.
\<close>

theorem verify_cookie_spec:
  assumes "\<And>m. 8 \<le> length (hmac secret m)"
  shows "verify_server_cookie hmac secret ip client server now =
      ret (length server = 16 \<and> length client = 8 \<and> abs_diff now (get32 server 4) \<le> 3600 \<and>
           generate_server_cookie hmac secret ip client (get32 server 4) = ret server) \<and>
    verify_server_cookie hmac secret (V6 (mapped v4)) client server now =
      verify_server_cookie hmac secret (V4 v4) client server now"
proof
  show "verify_server_cookie hmac secret ip client server now =
      ret (length server = 16 \<and> length client = 8 \<and> abs_diff now (get32 server 4) \<le> 3600 \<and>
           generate_server_cookie hmac secret ip client (get32 server 4) = ret server)"
    by (rule verify_form) (rule assms)
  show "verify_server_cookie hmac secret (V6 (mapped v4)) client server now =
      verify_server_cookie hmac secret (V4 v4) client server now"
    using canonical_mapped [of v4] unfolding verify_server_cookie_def Let_def by simp
qed

text \<open>An instance of the parameter for the witness: the secret and the message, padded.\<close>

definition demo_hmac :: "bytes \<Rightarrow> bytes \<Rightarrow> bytes" where
  "demo_hmac secret m = take 32 (secret @ m @ replicate 32 0)"

theorem verify_cookie_spec_witness:
  "verify_server_cookie demo_hmac [1] (V4 0x7F000001) [1, 2, 3, 4, 5, 6, 7, 8]
     [1, 0, 0, 0, 0, 0, 0, 5, 1, 0x7F, 0, 0, 1, 1, 2, 3] 100 = ret True"
proof -
  have h: "8 \<le> length (demo_hmac [1] m)" for m by (simp add: demo_hmac_def)
  show ?thesis
    by (subst verify_cookie_spec [of demo_hmac, OF h, THEN conjunct1]) code_simp
qed

text \<open>
  No function of the EDNS group panics, on any message: the DO bit, Extended DNS Errors,
  the OPT test, truncation, the client subnet scrubber, the cookie reader and writer.
\<close>

theorem edns_group_safe:
  "ensure_edns0_do_bit wire \<noteq> panic \<and> append_ede_to_response wire ede_code extra_text \<noteq> panic \<and>
   append_ede_if_edns wire query_wire ede_code extra_text \<noteq> panic \<and> has_edns wire \<noteq> panic \<and>
   truncate_response_properly wire max_bytes \<noteq> panic \<and> process_ecs_option wire mode \<noteq> panic \<and>
   parse_dns_cookie wire \<noteq> panic \<and> append_cookie_to_response wire client server \<noteq> panic"
proof -
  have ede: "append_ede_to_response w c t \<noteq> None" for w c t
    using append_option_total [of w] by (auto simp: append_ede_to_response_def Let_def not_less)
  then have "append_ede_if_edns wire query_wire ede_code extra_text \<noteq> None"
    by (simp add: append_ede_if_edns_def has_edns_has_opt del: not_None_eq)
  moreover have "append_cookie_to_response wire client server \<noteq> None"
    using append_option_total [of wire] by (auto simp: append_cookie_to_response_def Let_def not_less)
  ultimately show ?thesis
    using ede ensure_total truncate_total process_ecs_total parse_dns_cookie_total
    by (simp add: has_edns_has_opt del: not_None_eq)
qed

end
