(* ===== verification/Answers.thy ===== *)
theory Answers
  imports Edns Ip_Addr
begin

text \<open>
  The readers of a response, \<open>src/dns/parser.rs\<close>: \<open>is_rebind_ipv4\<close>, \<open>is_rebind_ipv6\<close>,
  \<open>is_rebind_exempt_domain\<close>, \<open>extract_rebind_ip\<close>, \<open>extract_a_records\<close>, \<open>extract_min_ttl\<close>,
  \<open>extract_soa_minimum_ttl\<close>, \<open>extract_answer_ttl\<close>, \<open>parse_answers_for_doh_json\<close> and the two
  mnemonic tables.

  \<open>answers\<close> is the reference reading of the answer section as a list of records. The lemmas
  show that the range checks are a table of prefixes, and that each reader's loop is a search,
  a filter, a minimum or a map over that list.
\<close>

section \<open>Addresses that must not come from outside\<close>

definition is_rebind_ipv4 :: "ipv4 \<Rightarrow> bool" where
  "is_rebind_ipv4 ip =
    (let o' = v4_octet ip in
     if o' 0 = 0 then True
     else if v4_is_private ip then True
     else if o' 0 = 100 \<and> o' 1 AND 0xC0 = 64 then True
     else if v4_is_loopback ip then True
     else if v4_is_link_local ip then True
     else if o' 0 = 192 \<and> o' 1 = 0 \<and> o' 2 = 0 then True
     else if o' 0 = 192 \<and> o' 1 = 0 \<and> o' 2 = 2 then True
     else if o' 0 = 192 \<and> o' 1 = 88 \<and> o' 2 = 99 then True
     else if o' 0 = 198 \<and> o' 1 AND 0xFE = 18 then True
     else if o' 0 = 198 \<and> o' 1 = 51 \<and> o' 2 = 100 then True
     else if o' 0 = 203 \<and> o' 1 = 0 \<and> o' 2 = 113 then True
     else if v4_is_multicast ip then True
     else if o' 0 \<ge> 240 then True
     else if v4_is_broadcast ip then True
     else False)"

definition is_rebind_ipv6 :: "ipv6 \<Rightarrow> bool" where
  "is_rebind_ipv6 ip =
    (let seg = v6_segment ip; octets = v6_octets ip in
     if v6_is_loopback ip then True
     else if v6_is_unspecified ip then True
     else if seg 0 AND 0xfe00 = 0xfc00 then True
     else if seg 0 AND 0xffc0 = 0xfe80 then True
     else if v6_is_multicast ip then True
     else if seg 0 = 0x0100 \<and> seg 1 = 0 \<and> seg 2 = 0 \<and> seg 3 = 0 then True
     else if seg 0 = 0x2001 \<and> seg 1 = 0x0db8 then True
     else if seg 0 = 0x2001 \<and> seg 1 = 0x0002 \<and> seg 2 = 0 then True
     else if seg 0 = 0x2001 \<and> seg 1 AND 0xfff0 = 0x0010 then True
     else if (take 10 octets = replicate 10 0 \<and> octets ! 10 = 0xff \<and> octets ! 11 = 0xff \<or>
              take 12 octets = replicate 12 0) \<and> is_rebind_ipv4 (v6_low ip) then True
     else if seg 0 = 0x0064 \<and> seg 1 = 0xff9b \<and> seg 2 = 0 \<and> seg 3 = 0 \<and> seg 4 = 0 \<and> seg 5 = 0 \<and>
             is_rebind_ipv4 (v6_low ip) then True
     else if seg 0 = 0x0064 \<and> seg 1 = 0xff9b \<and> seg 2 = 0x0001 then True
     else False)"

definition is_rebind_exempt_domain :: "string \<Rightarrow> bool" where
  "is_rebind_exempt_domain domain =
    (let clean = to_ascii_lowercase (trim_end_char CHR ''.'' domain) in
     clean = ''localhost'' \<or> ends_with clean ''.localhost'' \<or>
     clean = ''local'' \<or> ends_with clean ''.local'' \<or>
     clean = ''lan'' \<or> ends_with clean ''.lan'' \<or>
     clean = ''home'' \<or> ends_with clean ''.home'' \<or>
     clean = ''home.arpa'' \<or> ends_with clean ''.home.arpa'' \<or>
     clean = ''internal'' \<or> ends_with clean ''.internal'' \<or>
     clean = ''intranet'' \<or> ends_with clean ''.intranet'' \<or>
     clean = ''priv'' \<or> ends_with clean ''.priv'' \<or>
     clean = ''corp'' \<or> ends_with clean ''.corp'')"

section \<open>Loops over the answer section\<close>

text \<open>
  All readers share the frame: header check, counts, question section, then the loop given
  as \<open>scan\<close>; \<open>none\<close> is what they return when there is nothing to read.
\<close>

definition with_answers :: "bytes \<Rightarrow> 'a \<Rightarrow> (nat \<Rightarrow> bytes \<Rightarrow> nat \<Rightarrow> 'a rust) \<Rightarrow> 'a rust" where
  "with_answers buf none scan =
    (if length buf < 12 then ret none
     else do {
       qdcount \<leftarrow> count16 buf 4;
       ancount \<leftarrow> count16 buf 6;
       if ancount = 0 then ret none
       else do {
         r \<leftarrow> walk question_step qdcount buf 12;
         case r of None \<Rightarrow> ret none | Some pos \<Rightarrow> scan ancount buf pos } })"

definition read_v4 :: "bytes \<Rightarrow> nat \<Rightarrow> ipv4 rust" where
  "read_v4 buf pos = do {
     a \<leftarrow> rd buf pos; b \<leftarrow> rd buf (pos + 1); c \<leftarrow> rd buf (pos + 2); d \<leftarrow> rd buf (pos + 3);
     ret (v4_new a b c d) }"

definition read_v6 :: "bytes \<Rightarrow> nat \<Rightarrow> ipv6 rust" where
  "read_v6 buf pos = do { octets \<leftarrow> slice buf pos (pos + 16); ret (v6_of_octets octets) }"

primrec rebind_scan :: "nat \<Rightarrow> bytes \<Rightarrow> nat \<Rightarrow> ip_addr option rust" where
  "rebind_scan 0 buf pos = ret None"
| "rebind_scan (Suc n) buf pos =
    (if pos \<ge> length buf then ret None
     else do {
       r \<leftarrow> skip_dns_name buf pos;
       case r of None \<Rightarrow> ret None
       | Some p \<Rightarrow>
           if p + 10 > length buf then ret None
           else do {
             rtype \<leftarrow> rd16 buf p;
             rdlen \<leftarrow> count16 buf (p + 8);
             let pos = p + 10;
             if pos + rdlen > length buf then ret None
             else if rtype = 1 \<and> rdlen = 4 then do {
               ip \<leftarrow> read_v4 buf pos;
               if is_rebind_ipv4 ip then ret (Some (V4 ip)) else rebind_scan n buf (pos + rdlen) }
             else if rtype = 28 \<and> rdlen = 16 then do {
               ip \<leftarrow> read_v6 buf pos;
               if is_rebind_ipv6 ip then ret (Some (V6 ip)) else rebind_scan n buf (pos + rdlen) }
             else rebind_scan n buf (pos + rdlen) } })"

definition extract_rebind_ip :: "bytes \<Rightarrow> ip_addr option rust" where
  "extract_rebind_ip buf = with_answers buf None rebind_scan"

primrec a_records_scan :: "nat \<Rightarrow> bytes \<Rightarrow> nat \<Rightarrow> ip_addr list rust" where
  "a_records_scan 0 buf pos = ret []"
| "a_records_scan (Suc n) buf pos =
    (if pos \<ge> length buf then ret []
     else do {
       r \<leftarrow> skip_dns_name buf pos;
       case r of None \<Rightarrow> ret []
       | Some p \<Rightarrow>
           if p + 10 > length buf then ret []
           else do {
             rtype \<leftarrow> rd16 buf p;
             rdlen \<leftarrow> count16 buf (p + 8);
             let pos = p + 10;
             if pos + rdlen > length buf then ret []
             else do {
               ips \<leftarrow> (if rtype = 1 \<and> rdlen = 4 then do { ip \<leftarrow> read_v4 buf pos; ret [V4 ip] }
                       else if rtype = 28 \<and> rdlen = 16 then do { ip \<leftarrow> read_v6 buf pos; ret [V6 ip] }
                       else ret []);
               more \<leftarrow> a_records_scan n buf (pos + rdlen);
               ret (ips @ more) } } })"

definition extract_a_records :: "bytes \<Rightarrow> ip_addr list rust" where
  "extract_a_records buf = with_answers buf [] a_records_scan"

text \<open>Here the record's data need not be inside the packet.\<close>

primrec min_ttl_scan :: "u32 option \<Rightarrow> nat \<Rightarrow> bytes \<Rightarrow> nat \<Rightarrow> u32 option rust" where
  "min_ttl_scan min_ttl 0 buf pos = ret min_ttl"
| "min_ttl_scan min_ttl (Suc n) buf pos =
    (if pos \<ge> length buf then ret min_ttl
     else do {
       r \<leftarrow> skip_dns_name buf pos;
       case r of None \<Rightarrow> ret min_ttl
       | Some p \<Rightarrow>
           if p + 10 > length buf then ret min_ttl
           else do {
             ttl \<leftarrow> rd32 buf (p + 4);
             rdlen \<leftarrow> count16 buf (p + 8);
             min_ttl_scan (Some (case min_ttl of Some m \<Rightarrow> min m ttl | None \<Rightarrow> ttl)) n buf (p + 10 + rdlen) } })"

definition extract_min_ttl :: "bytes \<Rightarrow> u32 option rust" where
  "extract_min_ttl buf = with_answers buf None (min_ttl_scan None)"

definition clamp32 :: "u32 \<Rightarrow> u32 \<Rightarrow> u32 \<Rightarrow> u32" where
  "clamp32 lo hi x = (if x < lo then lo else if x > hi then hi else x)"

primrec soa_scan :: "nat \<Rightarrow> bytes \<Rightarrow> nat \<Rightarrow> u32 option rust" where
  "soa_scan 0 wire pos = ret None"
| "soa_scan (Suc n) wire pos =
    (if pos \<ge> length wire then ret None
     else do {
       r \<leftarrow> skip_dns_name wire pos;
       case r of None \<Rightarrow> ret None
       | Some name_end \<Rightarrow>
           if name_end + 10 > length wire then ret None
           else do {
             rtype \<leftarrow> rd16 wire name_end;
             rdlen \<leftarrow> count16 wire (name_end + 8);
             let rdata_start = name_end + 10;
             let next = (if rdata_start + rdlen > length wire then ret None
                         else soa_scan n wire (rdata_start + rdlen));
             if rtype = 6 then do {
               m \<leftarrow> skip_dns_name wire rdata_start;
               case m of None \<Rightarrow> ret None
               | Some after_mname \<Rightarrow> do {
                   s \<leftarrow> skip_dns_name wire after_mname;
                   case s of None \<Rightarrow> ret None
                   | Some after_rname \<Rightarrow>
                       let minimum_offset = after_rname + 16 in
                       if minimum_offset + 4 \<le> length wire \<and> minimum_offset + 4 \<le> rdata_start + rdlen
                       then do { minimum \<leftarrow> rd32 wire minimum_offset; ret (Some (clamp32 5 3600 minimum)) }
                       else next } }
             else next } })"

definition extract_soa_minimum_ttl :: "bytes \<Rightarrow> u32 option rust" where
  "extract_soa_minimum_ttl wire =
    (if length wire < 12 then ret None
     else do {
       b \<leftarrow> rd wire 3;
       let rcode = b AND 0x0F;
       ancount \<leftarrow> count16 wire 6;
       nscount \<leftarrow> count16 wire 8;
       if rcode \<noteq> 3 \<and> \<not> (rcode = 0 \<and> ancount = 0) then ret None
       else if nscount = 0 then ret None
       else do {
         qdcount \<leftarrow> count16 wire 4;
         r \<leftarrow> walk question_step qdcount wire 12;
         case r of None \<Rightarrow> ret None
         | Some pos \<Rightarrow> do {
             r \<leftarrow> walk record_step ancount wire pos;
             case r of None \<Rightarrow> ret None | Some pos \<Rightarrow> soa_scan nscount wire pos } } })"

definition answer_ttl_scan :: "nat \<Rightarrow> bytes \<Rightarrow> nat \<Rightarrow> u32 option rust" where
  "answer_ttl_scan n buf pos = do {
     r \<leftarrow> skip_dns_name buf pos;
     case r of None \<Rightarrow> ret None
     | Some p \<Rightarrow> if p + 8 > length buf then ret None
                else do { ttl \<leftarrow> rd32 buf (p + 4); ret (Some ttl) } }"

definition extract_answer_ttl :: "bytes \<Rightarrow> u32 option rust" where
  "extract_answer_ttl buf = with_answers buf None answer_ttl_scan"

section \<open>Mnemonics\<close>

definition qtype_to_str :: "u16 \<Rightarrow> string" where
  "qtype_to_str t =
    (if t = 1 then ''A'' else if t = 2 then ''NS'' else if t = 5 then ''CNAME''
     else if t = 6 then ''SOA'' else if t = 12 then ''PTR'' else if t = 15 then ''MX''
     else if t = 16 then ''TXT'' else if t = 28 then ''AAAA'' else if t = 33 then ''SRV''
     else if t = 64 then ''SVCB'' else if t = 65 then ''HTTPS'' else if t = 255 then ''ANY''
     else if t = 257 then ''CAA'' else ''OTHER'')"

definition rcode_to_str :: "u16 \<Rightarrow> string" where
  "rcode_to_str r =
    (if r = 0 then ''NOERROR'' else if r = 1 then ''FORMERR'' else if r = 2 then ''SERVFAIL''
     else if r = 3 then ''NXDOMAIN'' else if r = 4 then ''NOTIMP'' else if r = 5 then ''REFUSED''
     else if r = 6 then ''YXDOMAIN'' else if r = 7 then ''YXRRSET'' else if r = 8 then ''NXRRSET''
     else if r = 9 then ''NOTAUTH'' else if r = 10 then ''NOTZONE'' else ''UNKNOWN'')"

section \<open>The range checks are a table of prefixes\<close>

text \<open>Network and prefix length, as the comments of the code list them.\<close>

definition rebind_nets4 :: "(ipv4 \<times> nat) list" where
  "rebind_nets4 =
    [(0x00000000, 8), (0x0A000000, 8), (0xAC100000, 12), (0xC0A80000, 16), (0x64400000, 10),
     (0x7F000000, 8), (0xA9FE0000, 16), (0xC0000000, 24), (0xC0000200, 24), (0xC0586300, 24),
     (0xC6120000, 15), (0xC6336400, 24), (0xCB007100, 24), (0xE0000000, 4), (0xF0000000, 4)]"

definition rebind_nets6 :: "(ipv6 \<times> nat) list" where
  "rebind_nets6 =
    [(0xFC000000000000000000000000000000, 7), (0xFE800000000000000000000000000000, 10),
     (0xFF000000000000000000000000000000, 8), (0x01000000000000000000000000000000, 64),
     (0x20010DB8000000000000000000000000, 32), (0x20010002000000000000000000000000, 48),
     (0x20010010000000000000000000000000, 28), (0x0064FF9B000100000000000000000000, 48)]"

text \<open>The prefixes under which an IPv6 address carries an IPv4 address.\<close>

definition embedding_nets :: "(ipv6 \<times> nat) list" where
  "embedding_nets = [(0x00000000000000000000FFFF00000000, 96), (0, 96),
     (0x0064FF9B000000000000000000000000, 96)]"

definition in_nets :: "('w::len word \<times> nat) list \<Rightarrow> 'w word \<Rightarrow> bool" where
  "in_nets nets ip \<longleftrightarrow> (\<exists>(net, plen) \<in> set nets. in_net net plen ip)"

lemma digit_split: "(n :: nat) div 2 ^ k = c \<longleftrightarrow>
    n div 2 ^ (k + b) = c div 2 ^ b \<and> n div 2 ^ k mod 2 ^ b = c mod 2 ^ b"
proof -
  have "n div 2 ^ (k + b) = n div 2 ^ k div 2 ^ b" by (simp add: power_add div_mult2_eq)
  then show ?thesis by (metis div_mult_mod_eq)
qed

lemma and_prefix: "k \<le> LENGTH('w) \<Longrightarrow>
    unat ((w :: 'w::len word) AND push_bit k (mask (LENGTH('w) - k))) = unat w div 2 ^ k * 2 ^ k"
proof -
  assume k: "k \<le> LENGTH('w)"
  have "w AND push_bit k (mask (LENGTH('w) - k)) = push_bit k (drop_bit k w)"
    using k by (intro bit_word_eqI) (auto simp: bit_simps)
  also have "unat \<dots> = unat w div 2 ^ k * 2 ^ k"
  proof -
    have "unat (push_bit k (drop_bit k w)) = push_bit k (drop_bit k (unat w))"
      by (rule bit_eqI) (auto simp: bit_simps dest: bit_imp_le_length)
    then show ?thesis by (simp add: push_bit_eq_mult drop_bit_eq_div)
  qed
  finally show ?thesis .
qed

lemma and_prefix_eq:
  fixes w :: "'w::len word"
  assumes "k \<le> LENGTH('w)" "m = push_bit k (mask (LENGTH('w) - k))" "unat v = c * 2 ^ k"
  shows "w AND m = v \<longleftrightarrow> unat w div 2 ^ k = c"
  using and_prefix [OF assms(1), of w] assms(3) unfolding assms(2)
  by (simp only: word_eq_iff_unsigned [where 'a = nat]) simp

lemma prefix_masks8:
  "(w :: u8) AND 0xC0 = 64 \<longleftrightarrow> unat w div 64 = 1"
  "(w :: u8) AND 0xFE = 18 \<longleftrightarrow> unat w div 2 = 9"
  using and_prefix_eq [of 6 "0xC0 :: u8" 64 1 w] and_prefix_eq [of 1 "0xFE :: u8" 18 9 w]
  by (simp_all add: mask_eq_exp_minus_1)

lemma prefix_masks16:
  "(w :: u16) AND 0xFE00 = 0xFC00 \<longleftrightarrow> unat w div 512 = 0x7E"
  "(w :: u16) AND 0xFFC0 = 0xFE80 \<longleftrightarrow> unat w div 64 = 0x3FA"
  "(w :: u16) AND 0xFF00 = 0xFF00 \<longleftrightarrow> unat w div 256 = 0xFF"
  "(w :: u16) AND 0xFFF0 = 0x0010 \<longleftrightarrow> unat w div 16 = 1"
  using and_prefix_eq [of 9 "0xFE00 :: u16" "0xFC00" "0x7E" w] and_prefix_eq [of 6 "0xFFC0 :: u16" "0xFE80" "0x3FA" w]
    and_prefix_eq [of 8 "0xFF00 :: u16" "0xFF00" "0xFF" w] and_prefix_eq [of 4 "0xFFF0 :: u16" "0x0010" 1 w]
  by (simp_all add: mask_eq_exp_minus_1)

text \<open>An IPv4 address through its four octets.\<close>

lemma v4_digits:
  fixes ip :: ipv4
  defines "a \<equiv> unat (v4_octet ip 0)" and "b \<equiv> unat (v4_octet ip 1)" and "c \<equiv> unat (v4_octet ip 2)"
    and "d \<equiv> unat (v4_octet ip 3)"
  shows "unat ip = 16777216 * a + 65536 * b + 256 * c + d" "a < 256" "b < 256" "c < 256" "d < 256"
proof -
  define n where "n = unat ip"
  have n: "n < 4294967296" using unat_v4 [of ip] by (simp add: n_def)
  have m24: "n div 16777216 mod 256 = n div 16777216" using n by simp
  moreover have "n div 65536 div 256 = n div 16777216" "n div 256 div 256 = n div 65536"
    by (simp_all flip: div_mult2_eq)
  moreover note div_mult_mod_eq [of n 256] div_mult_mod_eq [of "n div 256" 256]
    div_mult_mod_eq [of "n div 65536" 256]
  ultimately have "n = 16777216 * (n div 16777216) + 65536 * (n div 65536 mod 256)
      + 256 * (n div 256 mod 256) + n mod 256" by linarith
  then show "unat ip = 16777216 * a + 65536 * b + 256 * c + d"
    unfolding a_def b_def c_def d_def unat_v4_octet n_def [symmetric] by (simp add: m24)
qed (simp_all add: a_def b_def c_def d_def)

lemma digit_pair: "y < m \<Longrightarrow> (m :: nat) * x + y = k \<longleftrightarrow> x = k div m \<and> y = k mod m"
  by (metis div_mult_mod_eq div_mult_self4 less_nat_zero_code mod_less mod_mult_self4 mult.commute
      add_cancel_right_right div_less)

lemma rebind_ipv4_table: "is_rebind_ipv4 ip \<longleftrightarrow> in_nets rebind_nets4 ip"
proof -
  define a b c d where abcd: "a = unat (v4_octet ip 0)" "b = unat (v4_octet ip 1)"
    "c = unat (v4_octet ip 2)" "d = unat (v4_octet ip 3)"
  note D = v4_digits [of ip, folded abcd]
  have cmp: "(v4_octet ip i = numeral k) \<longleftrightarrow> unat (v4_octet ip i) = unat (numeral k :: u8)"
    "(v4_octet ip i = 0) \<longleftrightarrow> unat (v4_octet ip i) = 0" for i k
    by (simp_all add: word_eq_iff_unsigned [where 'a = nat])
  have bc: "v4_is_broadcast ip \<longleftrightarrow> unat ip = 4294967295"
    by (simp add: v4_is_broadcast_def word_eq_iff_unsigned [where 'a = nat])
  have code: "is_rebind_ipv4 ip \<longleftrightarrow> a = 0 \<or> a = 10 \<or> (a = 172 \<and> 16 \<le> b \<and> b \<le> 31) \<or> (a = 192 \<and> b = 168) \<or>
      (a = 100 \<and> b div 64 = 1) \<or> a = 127 \<or> (a = 169 \<and> b = 254) \<or> (a = 192 \<and> b = 0 \<and> c = 0) \<or>
      (a = 192 \<and> b = 0 \<and> c = 2) \<or> (a = 192 \<and> b = 88 \<and> c = 99) \<or> (a = 198 \<and> b div 2 = 9) \<or> (a = 198 \<and> b = 51 \<and> c = 100) \<or>
      (a = 203 \<and> b = 0 \<and> c = 113) \<or> 224 \<le> a"
    unfolding is_rebind_ipv4_def v4_is_private_def v4_is_loopback_def v4_is_link_local_def
      v4_is_multicast_def bc D(1) Let_def prefix_masks8 word_le_nat_alt cmp abcd [symmetric]
    using D(2-5) by auto
  define n where "n = unat ip"
  have q24: "n div 16777216 = a"
    unfolding n_def D(1) by (rule div_nat_eqI) (use D(2-5) in simp_all)
  have q16: "n div 65536 = 256 * a + b"
    unfolding n_def D(1) by (rule div_nat_eqI) (use D(2-5) in simp_all)
  have q8: "n div 256 = 65536 * a + 256 * b + c"
    unfolding n_def D(1) by (rule div_nat_eqI) (use D(2-5) in simp_all)
  have q20: "n div 1048576 = 16 * a + b div 16"
    using div_mult2_eq [of n 65536 16] div_mult_self2 [of 16 b "16 * a"] q16 by (simp add: add.commute)
  have q22: "n div 4194304 = 4 * a + b div 64"
    using div_mult2_eq [of n 65536 64] div_mult_self2 [of 64 b "4 * a"] q16 by (simp add: add.commute)
  have q17: "n div 131072 = 128 * a + b div 2"
    using div_mult2_eq [of n 65536 2] div_mult_self2 [of 2 b "128 * a"] q16 by (simp add: add.commute)
  have q28: "n div 268435456 = a div 16"
    using div_mult2_eq [of n 16777216 16] q24 by simp
  note q = q24 q20 q16 q22 q8 q17 q28
  have "in_nets rebind_nets4 ip \<longleftrightarrow> a = 0 \<or> a = 10 \<or> 16 * a + b div 16 = 2753 \<or> 256 * a + b = 49320 \<or>
      4 * a + b div 64 = 401 \<or> a = 127 \<or> 256 * a + b = 43518 \<or> 65536 * a + 256 * b + c = 12582912 \<or>
      65536 * a + 256 * b + c = 12582914 \<or> 65536 * a + 256 * b + c = 12605539 \<or> 128 * a + b div 2 = 25353 \<or>
      65536 * a + 256 * b + c = 12989284 \<or> 65536 * a + 256 * b + c = 13303921 \<or> a div 16 = 14 \<or> a div 16 = 15"
    unfolding in_nets_def rebind_nets4_def in_net_unat n_def [symmetric] by (simp add: q)
  also have "\<dots> \<longleftrightarrow> is_rebind_ipv4 ip"
  proof -
    have t: "65536 * a + 256 * b + c = 256 * (256 * a + b) + c" by simp
    have three: "65536 * a + 256 * b + c = k \<longleftrightarrow> a = k div 256 div 256 \<and> b = k div 256 mod 256 \<and> c = k mod 256" for k
      unfolding t digit_pair [OF D(4)] digit_pair [OF D(3)] by blast
    have two: "256 * a + b = k \<longleftrightarrow> a = k div 256 \<and> b = k mod 256" for k by (rule digit_pair [OF D(3)])
    have dv: "b div 16 < 16" "b div 64 < 4" "b div 2 < 128" using D(3) by (simp_all add: less_mult_imp_div_less)
    have m16: "16 * a + b div 16 = k \<longleftrightarrow> a = k div 16 \<and> b div 16 = k mod 16" for k by (rule digit_pair [OF dv(1)])
    have m64: "4 * a + b div 64 = k \<longleftrightarrow> a = k div 4 \<and> b div 64 = k mod 4" for k by (rule digit_pair [OF dv(2)])
    have m2: "128 * a + b div 2 = k \<longleftrightarrow> a = k div 128 \<and> b div 2 = k mod 128" for k by (rule digit_pair [OF dv(3)])
    have b16: "b div 16 = 1 \<longleftrightarrow> 16 \<le> b \<and> b \<le> 31" by auto
    have a16: "a div 16 = 14 \<or> a div 16 = 15 \<longleftrightarrow> 224 \<le> a" using D(2) by auto
    have m: "16 * a + b div 16 = 2753 \<longleftrightarrow> a = 172 \<and> 16 \<le> b \<and> b \<le> 31"
      "4 * a + b div 64 = 401 \<longleftrightarrow> a = 100 \<and> b div 64 = 1"
      "128 * a + b div 2 = 25353 \<longleftrightarrow> a = 198 \<and> b div 2 = 9"
      unfolding m16 m64 m2 b16 [symmetric] by simp_all
    note m = m a16
    show ?thesis unfolding code m three two by simp
  qed
  finally show ?thesis ..
qed

text \<open>An IPv6 address through its segments, and a segment through its octets.\<close>

lemma v6_prefix_Suc: "i < 7 \<Longrightarrow> unat ip div 2 ^ (112 - 16 * Suc i) =
    65536 * (unat ip div 2 ^ (112 - 16 * i)) + unat (v6_segment ip (Suc i))"
proof -
  assume "i < 7"
  define k where "k = 112 - 16 * Suc i"
  have e: "112 - 16 * i = k + 16" using \<open>i < 7\<close> by (simp add: k_def)
  have "unat ip div 2 ^ (k + 16) = unat ip div 2 ^ k div 65536"
    by (simp only: power_add div_mult2_eq) simp
  then show ?thesis unfolding unat_v6_segment k_def [symmetric] e by simp
qed

lemma v6_prefix_0: "unat ip div 2 ^ 112 = unat (v6_segment ip 0)"
proof -
  have "unat ip < 2 ^ 128" using unsigned_less [of ip] by simp
  then have "unat ip div 2 ^ 112 < 65536" by (simp add: less_mult_imp_div_less)
  then show ?thesis by (simp add: unat_v6_segment)
qed

lemma v6_segment_octets: "i < 8 \<Longrightarrow> unat (v6_segment ip i) =
    256 * unat (v6_octet ip (2 * i)) + unat (v6_octet ip (2 * i + 1))"
proof -
  assume i: "i < 8"
  then have e: "120 - 8 * (2 * i) = 112 - 16 * i + 8" "120 - 8 * (2 * i + 1) = 112 - 16 * i" by simp_all
  have "(65536 :: nat) = 256 * 256" by simp
  then show ?thesis
    unfolding unat_v6_segment unat_v6_octet e
    by (simp only: power_add div_mult2_eq mod_mult2_eq) simp
qed

text \<open>A prefix of whole segments is an equation per segment.\<close>

lemma v6_segments_2: "unat ip div 2 ^ 96 = k \<longleftrightarrow>
    unat (v6_segment ip 0) = k div 65536 \<and> unat (v6_segment ip 1) = k mod 65536"
  using v6_prefix_Suc [of 0 ip] digit_pair [of "unat (v6_segment ip 1)" 65536]
  by (simp only: v6_prefix_0 mult_0_right diff_zero) simp

lemma v6_segments_3: "unat ip div 2 ^ 80 = k \<longleftrightarrow>
    unat ip div 2 ^ 96 = k div 65536 \<and> unat (v6_segment ip 2) = k mod 65536"
  using v6_prefix_Suc [of 1 ip] digit_pair [of "unat (v6_segment ip 2)" 65536]
  by (simp add: numeral_2_eq_2)

lemma v6_segments_4: "unat ip div 2 ^ 64 = k \<longleftrightarrow>
    unat ip div 2 ^ 80 = k div 65536 \<and> unat (v6_segment ip 3) = k mod 65536"
  using v6_prefix_Suc [of 2 ip] digit_pair [of "unat (v6_segment ip 3)" 65536] by simp

lemma v6_segments_5: "unat ip div 2 ^ 48 = k \<longleftrightarrow>
    unat ip div 2 ^ 64 = k div 65536 \<and> unat (v6_segment ip 4) = k mod 65536"
  using v6_prefix_Suc [of 3 ip] digit_pair [of "unat (v6_segment ip 4)" 65536] by simp

lemma v6_segments_6: "unat ip div 2 ^ 32 = k \<longleftrightarrow>
    unat ip div 2 ^ 48 = k div 65536 \<and> unat (v6_segment ip 5) = k mod 65536"
  using v6_prefix_Suc [of 4 ip] digit_pair [of "unat (v6_segment ip 5)" 65536] by simp

lemmas v6_segments = v6_segments_2 v6_segments_3 v6_segments_4 v6_segments_5 v6_segments_6

text \<open>Prefixes that end inside a segment.\<close>

lemma v6_partial:
  "unat ip div 2 ^ 121 = unat (v6_segment ip 0) div 512" "unat ip div 2 ^ 118 = unat (v6_segment ip 0) div 64"
  "unat ip div 2 ^ 120 = unat (v6_segment ip 0) div 256"
  "unat ip div 2 ^ 100 = 4096 * unat (v6_segment ip 0) + unat (v6_segment ip 1) div 16"
proof -
  show "unat ip div 2 ^ 121 = unat (v6_segment ip 0) div 512" "unat ip div 2 ^ 118 = unat (v6_segment ip 0) div 64"
    "unat ip div 2 ^ 120 = unat (v6_segment ip 0) div 256"
    unfolding v6_prefix_0 [symmetric] by (simp_all flip: div_mult2_eq)
  have "unat ip div 2 ^ 100 = unat ip div 2 ^ 96 div 16" by (simp flip: div_mult2_eq)
  also have "unat ip div 2 ^ 96 = 65536 * unat (v6_segment ip 0) + unat (v6_segment ip 1)"
    using v6_prefix_Suc [of 0 ip] by (simp add: v6_prefix_0 [simplified])
  also have "\<dots> div 16 = 4096 * unat (v6_segment ip 0) + unat (v6_segment ip 1) div 16"
    using div_mult_self2 [of 16 "unat (v6_segment ip 1)" "4096 * unat (v6_segment ip 0)"]
    by (simp add: add.commute)
  finally show "unat ip div 2 ^ 100 = 4096 * unat (v6_segment ip 0) + unat (v6_segment ip 1) div 16" .
qed

lemma octets_of_segment:
  assumes "i < 8" "k < 65536"
  shows "unat (v6_segment ip i) = k \<longleftrightarrow>
    unat (v6_octet ip (2 * i)) = k div 256 \<and> unat (v6_octet ip (2 * i + 1)) = k mod 256"
  unfolding v6_segment_octets [OF assms(1)] by (rule digit_pair) simp


lemma unat_eq_word: "(w :: 'w::len word) = v \<longleftrightarrow> unat w = unat v"
  by (simp add: word_eq_iff_unsigned [where 'a = nat])

lemma mapped_octets:
  "take 10 (v6_octets ip) = replicate 10 0 \<and> v6_octets ip ! 10 = 0xff \<and> v6_octets ip ! 11 = 0xff \<longleftrightarrow>
     in_net 0x00000000000000000000FFFF00000000 96 ip"
  "take 12 (v6_octets ip) = replicate 12 0 \<longleftrightarrow> in_net 0 96 ip"
proof -
  have o: "v6_octets ip = [v6_octet ip 0, v6_octet ip 1, v6_octet ip 2, v6_octet ip 3, v6_octet ip 4,
      v6_octet ip 5, v6_octet ip 6, v6_octet ip 7, v6_octet ip 8, v6_octet ip 9, v6_octet ip 10,
      v6_octet ip 11, v6_octet ip 12, v6_octet ip 13, v6_octet ip 14, v6_octet ip 15]"
    proof -
    have "[0..<16] = [0, 1, 2, 3, 4, 5, 6, 7, 8, 9, 10, 11, 12, 13, 14, 15 :: nat]" by code_simp
    then show ?thesis by (simp add: v6_octets_def)
  qed
  have s: "unat (v6_segment ip 0) = 0 \<longleftrightarrow> v6_octet ip 0 = 0 \<and> v6_octet ip 1 = 0"
    "unat (v6_segment ip 1) = 0 \<longleftrightarrow> v6_octet ip 2 = 0 \<and> v6_octet ip 3 = 0"
    "unat (v6_segment ip 2) = 0 \<longleftrightarrow> v6_octet ip 4 = 0 \<and> v6_octet ip 5 = 0"
    "unat (v6_segment ip 3) = 0 \<longleftrightarrow> v6_octet ip 6 = 0 \<and> v6_octet ip 7 = 0"
    "unat (v6_segment ip 4) = 0 \<longleftrightarrow> v6_octet ip 8 = 0 \<and> v6_octet ip 9 = 0"
    "unat (v6_segment ip 5) = 0 \<longleftrightarrow> v6_octet ip 10 = 0 \<and> v6_octet ip 11 = 0"
    "unat (v6_segment ip 5) = 65535 \<longleftrightarrow> v6_octet ip 10 = 255 \<and> v6_octet ip 11 = 255"
    using octets_of_segment [of 0 0 ip] octets_of_segment [of 1 0 ip] octets_of_segment [of 2 0 ip]
      octets_of_segment [of 3 0 ip] octets_of_segment [of 4 0 ip] octets_of_segment [of 5 0 ip]
      octets_of_segment [of 5 65535 ip]
    by (simp_all add: unat_eq_word)
  have r: "replicate 10 (0 :: u8) = [0, 0, 0, 0, 0, 0, 0, 0, 0, 0]"
    "replicate 12 (0 :: u8) = [0, 0, 0, 0, 0, 0, 0, 0, 0, 0, 0, 0]" by code_simp+
  show "take 10 (v6_octets ip) = replicate 10 0 \<and> v6_octets ip ! 10 = 0xff \<and> v6_octets ip ! 11 = 0xff \<longleftrightarrow>
     in_net 0x00000000000000000000FFFF00000000 96 ip"
    unfolding o in_net_unat by (simp add: v6_segments [simplified] s s [simplified] r)
  show "take 12 (v6_octets ip) = replicate 12 0 \<longleftrightarrow> in_net 0 96 ip"
    unfolding o in_net_unat by (simp add: v6_segments [simplified] s s [simplified] r)
qed

text \<open>A cascade of early returns with the embedded addresses in the middle.\<close>

lemma cascade:
  assumes "l \<Longrightarrow> z \<and> r" "u \<Longrightarrow> z \<and> r"
  shows "(if l then True else if u then True else if a then True else if b then True else if c then True
     else if d then True else if e then True else if f then True else if g then True
     else if (m \<or> z) \<and> r then True else if w1 \<and> w2 \<and> w3 \<and> w4 \<and> w5 \<and> w6 \<and> r then True else if h then True else False)
   \<longleftrightarrow> (a \<or> b \<or> c \<or> d \<or> e \<or> f \<or> g \<or> h) \<or> (m \<or> z \<or> w1 \<and> w2 \<and> w3 \<and> w4 \<and> w5 \<and> w6) \<and> r"
  using assms by auto

lemma rebind_ipv6_table: "is_rebind_ipv6 ip \<longleftrightarrow>
    in_nets rebind_nets6 ip \<or> in_nets embedding_nets ip \<and> in_nets rebind_nets4 (v6_low ip)"
proof -
  define s where "s = (\<lambda>i. unat (v6_segment ip i))"
  have sf: "unat (v6_segment ip i) = s i" for i by (simp add: s_def)
  have b: "s i < 65536" for i unfolding s_def by simp
  have nets: "in_nets rebind_nets6 ip \<longleftrightarrow>
      s 0 div 512 = 0x7E \<or> s 0 div 64 = 0x3FA \<or> s 0 div 256 = 0xFF \<or>
      s 0 = 0x0100 \<and> s 1 = 0 \<and> s 2 = 0 \<and> s 3 = 0 \<or> s 0 = 0x2001 \<and> s 1 = 0x0db8 \<or>
      s 0 = 0x2001 \<and> s 1 = 2 \<and> s 2 = 0 \<or> s 0 = 0x2001 \<and> s 1 div 16 = 1 \<or>
      s 0 = 0x0064 \<and> s 1 = 0xff9b \<and> s 2 = 1"
  proof -
    have "s 1 div 16 < 4096" using b [of 1] by (simp add: less_mult_imp_div_less)
    then have m: "4096 * s 0 + s 1 div 16 = k \<longleftrightarrow> s 0 = k div 4096 \<and> s 1 div 16 = k mod 4096" for k
      by (rule digit_pair)
    show ?thesis
      unfolding in_nets_def rebind_nets6_def in_net_unat
      by (simp add: v6_partial [simplified] v6_segments [simplified] sf m [simplified] conj_ac)
  qed
  have emb: "in_nets embedding_nets ip \<longleftrightarrow> in_net 0x00000000000000000000FFFF00000000 96 ip \<or> in_net 0 96 ip \<or>
      s 0 = 0x0064 \<and> s 1 = 0xff9b \<and> s 2 = 0 \<and> s 3 = 0 \<and> s 4 = 0 \<and> s 5 = 0"
  proof -
    have "in_net 0x0064FF9B000000000000000000000000 96 ip \<longleftrightarrow>
        s 0 = 0x0064 \<and> s 1 = 0xff9b \<and> s 2 = 0 \<and> s 3 = 0 \<and> s 4 = 0 \<and> s 5 = 0"
      unfolding in_net_unat
      by (simp add: v6_segments [simplified] sf conj_ac)
    then show ?thesis by (simp add: in_nets_def embedding_nets_def)
  qed
  have tiny: "in_net 0 96 ip \<and> in_nets rebind_nets4 (v6_low ip)" if "ip = 0 \<or> ip = 1"
  proof -
    have "in_net 0 96 (0 :: ipv6)" "in_nets rebind_nets4 (v6_low 0)" "in_net 0 96 (1 :: ipv6)"
      "in_nets rebind_nets4 (v6_low 1)" by code_simp+
    with that show ?thesis by auto
  qed
  have ue: "unat (0 :: u16) = 0" "unat (0x0100 :: u16) = 0x0100" "unat (0x2001 :: u16) = 0x2001"
    "unat (0x0db8 :: u16) = 0x0db8" "unat (2 :: u16) = 2" "unat (0x0064 :: u16) = 0x0064"
    "unat (0xff9b :: u16) = 0xff9b" "unat (1 :: u16) = 1" by simp_all
  show ?thesis
    unfolding is_rebind_ipv6_def Let_def v6_is_loopback_def v6_is_unspecified_def v6_is_multicast_def
      prefix_masks16 mapped_octets rebind_ipv4_table nets emb unat_eq_word [of "v6_segment ip _"] sf ue
    by (rule cascade) (use tiny in auto)
qed

section \<open>The answer section as a list of records\<close>

record rr =
  rr_type :: u16
  rr_ttl :: u32
  rr_data :: bytes

definition rr_of :: "bytes \<Rightarrow> nat \<Rightarrow> rr" where
  "rr_of buf p = \<lparr>rr_type = get16 buf p, rr_ttl = get32 buf (p + 4),
     rr_data = take (unat (get16 buf (p + 8))) (drop (p + 10) buf)\<rparr>"

text \<open>The longest run of complete records among the first \<open>n\<close>.\<close>

primrec rrs :: "nat \<Rightarrow> bytes \<Rightarrow> nat \<Rightarrow> rr list" where
  "rrs 0 buf pos = []"
| "rrs (Suc n) buf pos = (case record_step buf pos of
     Some (Some e) \<Rightarrow> (case skip_dns_name buf pos of Some (Some p) \<Rightarrow> rr_of buf p # rrs n buf e | _ \<Rightarrow> [])
   | _ \<Rightarrow> [])"

definition answers :: "bytes \<Rightarrow> rr list" where
  "answers buf = (if length buf < 12 then [] else case skip_questions buf of
     Some (Some pos) \<Rightarrow> rrs (unat (get16 buf 6)) buf pos | _ \<Rightarrow> [])"

lemma rrs_cases:
  obtains (stop) "record_step buf pos = Some None" "\<And>n. rrs (Suc n) buf pos = []"
    "pos < length buf \<Longrightarrow> skip_dns_name buf pos = Some None \<or>
       (\<exists>p. skip_dns_name buf pos = Some (Some p) \<and> (length buf < p + 10 \<or>
            length buf < p + 10 + unat (get16 buf (p + 8))))"
  | (found) p where "skip_dns_name buf pos = Some (Some p)" "pos < length buf"
    "p + 10 + unat (get16 buf (p + 8)) \<le> length buf"
    "\<And>n. rrs (Suc n) buf pos = rr_of buf p # rrs n buf (p + 10 + unat (get16 buf (p + 8)))"
proof -
  obtain r where r: "record_step buf pos = Some r" using records.step_total [of buf pos] by blast
  show thesis
  proof (cases r)
    case None
    obtain s where s: "skip_dns_name buf pos = Some s" using skip_dns_name_total by blast
    show thesis
    proof (rule stop)
      show "record_step buf pos = Some None" using r None by simp
      then show "rrs (Suc n) buf pos = []" for n by simp
      show "skip_dns_name buf pos = Some None \<or>
         (\<exists>p. skip_dns_name buf pos = Some (Some p) \<and> (length buf < p + 10 \<or>
            length buf < p + 10 + unat (get16 buf (p + 8))))"
        using r None s by (cases s) (auto simp: record_step_def split: if_splits)
    qed
  next
    case (Some e)
    with r have e: "record_step buf pos = Some (Some e)" by simp
    from record_step_SomeD [OF e] obtain p where p: "skip_dns_name buf pos = Some (Some p)"
      "e = p + 10 + unat (get16 buf (p + 8))" "e \<le> length buf" by blast
    show thesis
      by (rule found [OF p(1)]) (use p e records.step_progress [OF e] in auto)
  qed
qed

lemma with_answers_form:
  assumes "\<And>n buf pos. scan n buf pos = Some (f (rrs n buf pos))" and "f [] = none"
  shows "with_answers buf none scan = Some (f (answers buf))"
proof (cases "length buf < 12")
  case False
  then have len: "12 \<le> length buf" by simp
  obtain r where r: "skip_questions buf = Some r" using skip_questions_total [OF len] by blast
  with len have "walk question_step (unat (get16 buf 4)) buf 12 = Some r" by (simp add: skip_questions_def)
  with r len assms show ?thesis by (cases r) (simp_all add: with_answers_def answers_def)
qed (simp add: with_answers_def answers_def assms)

section \<open>Each reader on that list\<close>

definition rr_v4 :: "rr \<Rightarrow> ipv4" where
  "rr_v4 r = v4_new (rr_data r ! 0) (rr_data r ! 1) (rr_data r ! 2) (rr_data r ! 3)"

text \<open>The address of an A or AAAA record of the right size.\<close>

definition rr_address :: "rr \<Rightarrow> ip_addr option" where
  "rr_address r = (if rr_type r = 1 \<and> length (rr_data r) = 4 then Some (V4 (rr_v4 r))
     else if rr_type r = 28 \<and> length (rr_data r) = 16 then Some (V6 (v6_of_octets (rr_data r)))
     else None)"

fun is_rebind_ip :: "ip_addr \<Rightarrow> bool" where
  "is_rebind_ip (V4 a) = is_rebind_ipv4 a"
| "is_rebind_ip (V6 a) = is_rebind_ipv6 a"

definition addresses :: "rr list \<Rightarrow> ip_addr list" where
  "addresses rs = List.map_filter rr_address rs"

lemma addresses_simps [simp]: "addresses [] = []"
  "addresses (r # rs) = (case rr_address r of None \<Rightarrow> addresses rs | Some ip \<Rightarrow> ip # addresses rs)"
  by (simp_all add: addresses_def map_filter_simps split: option.split)

lemma rr_of_data:
  assumes "p + 10 + unat (get16 buf (p + 8)) \<le> length buf"
  shows "length (rr_data (rr_of buf p)) = unat (get16 buf (p + 8))"
    and "unat (get16 buf (p + 8)) = 4 \<Longrightarrow> read_v4 buf (p + 10) = Some (rr_v4 (rr_of buf p))"
    and "unat (get16 buf (p + 8)) = 16 \<Longrightarrow> read_v6 buf (p + 10) = Some (v6_of_octets (rr_data (rr_of buf p)))"
  using assms by (simp_all add: rr_of_def read_v4_def read_v6_def rr_v4_def)

lemma rr_of_simps: "rr_type (rr_of buf p) = get16 buf p" "rr_ttl (rr_of buf p) = get32 buf (p + 4)"
  by (simp_all add: rr_of_def)

lemma rebind_scan_rrs: "rebind_scan n buf pos = Some (find is_rebind_ip (addresses (rrs n buf pos)))"
proof (induction n arbitrary: pos)
  case (Suc n)
  show ?case
  proof (cases rule: rrs_cases [where buf = buf and pos = pos])
    case stop
    then show ?thesis
      by (cases "pos < length buf") (auto simp: Let_def stop(2) simp del: rrs.simps)
  next
    case (found p)
    note D = rr_of_data [OF found(3)]
    let ?r = "rr_of buf p"
    show ?thesis
      unfolding found(4) using found(1-3) D Suc.IH
      by (simp add: Let_def rr_address_def rr_of_simps D(1))
  qed
qed simp

lemma a_records_scan_rrs: "a_records_scan n buf pos = Some (addresses (rrs n buf pos))"
proof (induction n arbitrary: pos)
  case (Suc n)
  show ?case
  proof (cases rule: rrs_cases [where buf = buf and pos = pos])
    case stop
    then show ?thesis
      by (cases "pos < length buf") (auto simp: Let_def stop(2) simp del: rrs.simps)
  next
    case (found p)
    note D = rr_of_data [OF found(3)]
    show ?thesis
      unfolding found(4) using found(1-3) D Suc.IH
      by (simp add: Let_def rr_address_def rr_of_simps D(1))
  qed
qed simp

lemma answer_ttl_scan_rrs: "rrs n buf pos = r # rs \<Longrightarrow> answer_ttl_scan n buf pos = Some (Some (rr_ttl r))"
proof (cases rule: rrs_cases [where buf = buf and pos = pos])
  case stop
  moreover assume "rrs n buf pos = r # rs"
  ultimately show ?thesis by (cases n) (simp_all del: rrs.simps(2))
next
  case (found p)
  moreover assume "rrs n buf pos = r # rs"
  ultimately show ?thesis
    by (cases n) (auto simp: answer_ttl_scan_def rr_of_simps simp del: rrs.simps(2))
qed

text \<open>The minimum reader may count one record more, whose data is cut off.\<close>

lemma min_ttl_scan_le:
  "\<exists>m. min_ttl_scan acc n buf pos = Some m \<and> (\<forall>r \<in> set (rrs n buf pos). \<exists>v. m = Some v \<and> v \<le> rr_ttl r) \<and>
     (\<forall>a. acc = Some a \<longrightarrow> (\<exists>v. m = Some v \<and> v \<le> a))"
proof (induction n arbitrary: acc pos)
  case (Suc n)
  show ?case
  proof (cases "pos < length buf")
    case True
    obtain s where s: "skip_dns_name buf pos = Some s" using skip_dns_name_total by blast
    show ?thesis
    proof (cases "\<exists>p. s = Some p \<and> p + 10 \<le> length buf")
      case False
      then have "record_step buf pos = Some None" using s by (cases s) (auto simp: record_step_def)
      with False s True show ?thesis by (cases s) auto
    next
      case pTrue: True
      then obtain p where p: "s = Some p" "p + 10 \<le> length buf" by blast
      define ttl where "ttl = get32 buf (p + 4)"
      define acc' where "acc' = Some (case acc of Some m \<Rightarrow> min m ttl | None \<Rightarrow> ttl)"
      let ?e = "p + 10 + unat (get16 buf (p + 8))"
      obtain m where m: "min_ttl_scan acc' n buf ?e = Some m"
        "\<forall>r \<in> set (rrs n buf ?e). \<exists>v. m = Some v \<and> v \<le> rr_ttl r"
        "\<forall>a. acc' = Some a \<longrightarrow> (\<exists>v. m = Some v \<and> v \<le> a)"
        using Suc.IH [of acc' ?e] by (elim exE conjE) (rule that)
      from m(3) obtain v where v: "m = Some v" "v \<le> ttl" "\<forall>a. acc = Some a \<longrightarrow> v \<le> a"
        by (cases acc) (auto simp: acc'_def)
      have "min_ttl_scan acc (Suc n) buf pos = Some m"
        using True s p m(1) unfolding acc'_def ttl_def by simp
      moreover have "\<forall>r \<in> set (rrs (Suc n) buf pos). \<exists>v. m = Some v \<and> v \<le> rr_ttl r"
      proof (cases rule: rrs_cases [where buf = buf and pos = pos])
        case stop
        then show ?thesis by (simp del: rrs.simps(2))
      next
        case (found q)
        then have "q = p" using s p by simp
        with found m(2) v show ?thesis by (simp add: rr_of_simps ttl_def del: rrs.simps(2))
      qed
      ultimately show ?thesis using v by auto
    qed
  next
    case False
    have "record_step buf pos = Some None"
    proof (cases "record_step buf pos")
      case (Some r)
      with False show ?thesis by (cases r) (auto dest: records.step_progress)
    qed (use records.step_total in blast)
    with False show ?thesis by auto
  qed
qed simp

lemma min_ttl_scan_ge:
  "min_ttl_scan acc n buf pos = Some (Some v) \<Longrightarrow> length (rrs n buf pos) = n \<Longrightarrow>
   acc = Some v \<or> (\<exists>r \<in> set (rrs n buf pos). v = rr_ttl r)"
proof (induction n arbitrary: acc pos)
  case (Suc n)
  show ?case
  proof (cases rule: rrs_cases [where buf = buf and pos = pos])
    case stop
    with Suc.prems(2) show ?thesis by (simp del: rrs.simps(2))
  next
    case (found p)
    note r = found(4) [of n]
    let ?e = "p + 10 + unat (get16 buf (p + 8))" and ?t = "get32 buf (p + 4)"
    have "min_ttl_scan (Some (case acc of Some m \<Rightarrow> min m ?t | None \<Rightarrow> ?t)) n buf ?e = Some (Some v)"
      using Suc.prems(1) found(1-3) by simp
    from Suc.IH [OF this] Suc.prems(2) r
    have "(case acc of Some m \<Rightarrow> min m ?t | None \<Rightarrow> ?t) = v \<or> (\<exists>q \<in> set (rrs n buf ?e). v = rr_ttl q)"
      by simp
    then show ?thesis
      unfolding r by (cases acc) (auto simp: rr_of_simps min_def split: if_splits)
  qed
qed simp

lemma soa_scan_range: "soa_scan n wire pos = Some r \<Longrightarrow> \<forall>v. r = Some v \<longrightarrow> 5 \<le> v \<and> v \<le> 3600"
proof (induction n arbitrary: pos)
  case (Suc n)
  have c: "5 \<le> clamp32 5 3600 x \<and> clamp32 5 3600 x \<le> 3600" for x
    by (auto simp: clamp32_def not_less)
  from Suc show ?case
    by (auto simp: Let_def c split: if_splits option.splits Option.bind_splits)
qed simp

lemma soa_scan_total: "soa_scan n wire pos \<noteq> None"
proof (induction n arbitrary: pos)
  case (Suc n)
  then show ?case
    by (auto simp: Let_def simp del: not_None_eq split: option.splits Option.bind_splits)
qed simp

lemma extract_soa_range: "\<exists>r. extract_soa_minimum_ttl wire = Some r \<and> (\<forall>v. r = Some v \<longrightarrow> 5 \<le> v \<and> v \<le> 3600)"
proof (cases "length wire < 12 \<or> wire ! 3 AND 0x0F \<noteq> 3 \<and> \<not> (wire ! 3 AND 0x0F = 0 \<and> unat (get16 wire 6) = 0)
    \<or> unat (get16 wire 8) = 0")
  case True
  then show ?thesis by (auto simp: extract_soa_minimum_ttl_def Let_def)
next
  case False
  obtain q where q: "walk question_step (unat (get16 wire 4)) wire 12 = Some q"
    using questions.walk_total [of "unat (get16 wire 4)" wire 12] by blast
  show ?thesis
  proof (cases q)
    case None
    with q False show ?thesis by (auto simp: extract_soa_minimum_ttl_def Let_def)
  next
    case (Some p)
    obtain a where a: "walk record_step (unat (get16 wire 6)) wire p = Some a"
      using records.walk_total [of "unat (get16 wire 6)" wire p] by blast
    show ?thesis
    proof (cases a)
      case None
      with q a Some False show ?thesis by (auto simp: extract_soa_minimum_ttl_def Let_def)
    next
      case (Some s)
      obtain r where r: "soa_scan (unat (get16 wire 8)) wire s = Some r"
        using soa_scan_total [of "unat (get16 wire 8)" wire s] by blast
      from soa_scan_range [OF r] r q a Some \<open>q = Some p\<close> False show ?thesis
        by (auto simp: extract_soa_minimum_ttl_def Let_def)
    qed
  qed
qed

section \<open>Properties of the readers\<close>

text \<open>
  The IPv4 and IPv6 range checks are exactly the table of prefixes; an IPv6 address is
  also refused when it carries a refused IPv4 address under one of the three embedding
  prefixes. The comment on the embedding names \<open>::ffff:0:0:0/96\<close>; the code checks \<open>::/96\<close>, and
  \<open>::ffff:0:c0a8:101\<close> is not refused.
\<close>

theorem rebind_ranges_table:
  "(is_rebind_ipv4 a \<longleftrightarrow> in_nets rebind_nets4 a) \<and>
   (is_rebind_ipv6 b \<longleftrightarrow> in_nets rebind_nets6 b \<or> in_nets embedding_nets b \<and> in_nets rebind_nets4 (v6_low b)) \<and>
   \<not> is_rebind_ipv6 0x0000000000000000FFFF0000C0A80101"
proof -
  have "\<not> is_rebind_ipv6 0x0000000000000000FFFF0000C0A80101" by code_simp
  with rebind_ipv4_table [of a] rebind_ipv6_table [of b] show ?thesis by blast
qed

text \<open>
  C9: \<open>extract_rebind_ip\<close> returns the first refused address among the complete address
  records of the answer section, and \<open>extract_a_records\<close> all of them; neither panics, so an
  answer section free of refused addresses is passed and no refused address in it is missed.
\<close>

theorem rebind_detection:
  "extract_rebind_ip buf = ret (find is_rebind_ip (addresses (answers buf))) \<and>
   extract_a_records buf = ret (addresses (answers buf)) \<and>
   (extract_rebind_ip buf = ret None \<longleftrightarrow> (\<forall>ip \<in> set (addresses (answers buf)). \<not> is_rebind_ip ip))"
proof -
  have "extract_rebind_ip buf = Some (find is_rebind_ip (addresses (answers buf)))"
    unfolding extract_rebind_ip_def by (rule with_answers_form) (simp_all add: rebind_scan_rrs)
  moreover have "extract_a_records buf = Some (addresses (answers buf))"
    unfolding extract_a_records_def by (rule with_answers_form) (simp_all add: a_records_scan_rrs)
  ultimately show ?thesis by (simp add: find_None_iff Ball_def)
qed

theorem rebind_detection_witness:
  "extract_rebind_ip ([0, 7, 0x81, 0x80, 0, 0, 0, 1, 0, 0, 0, 0] @
     [0, 0, 1, 0, 1, 0, 0, 0, 60, 0, 4, 192, 168, 1, 1]) = ret (Some (V4 0xC0A80101))"
  unfolding rebind_detection [THEN conjunct1] by code_simp

text \<open>
  The TTL readers never panic. The minimum is a lower bound of the TTLs of all complete
  answers, and it is their least one when every counted answer is complete; the first
  reader gives the first answer's TTL; the negative TTL is within 5 and 3600 seconds.
\<close>

theorem ttl_readers_spec:
  "\<exists>m f s. extract_min_ttl buf = ret m \<and> extract_answer_ttl buf = ret f \<and> extract_soa_minimum_ttl buf = ret s \<and>
     (\<forall>r \<in> set (answers buf). \<exists>v. m = Some v \<and> v \<le> rr_ttl r) \<and>
     (\<forall>v. m = Some v \<and> length (answers buf) = unat (get16 buf 6) \<longrightarrow> v \<in> rr_ttl ` set (answers buf)) \<and>
     (answers buf \<noteq> [] \<longrightarrow> f = Some (rr_ttl (hd (answers buf)))) \<and>
     (\<forall>v. s = Some v \<longrightarrow> 5 \<le> v \<and> v \<le> 3600)"
proof -
  obtain s where s: "extract_soa_minimum_ttl buf = Some s" "\<forall>v. s = Some v \<longrightarrow> 5 \<le> v \<and> v \<le> 3600"
    using extract_soa_range by blast
  show ?thesis
  proof (cases "12 \<le> length buf \<and> unat (get16 buf 6) \<noteq> 0")
    case False
    then have "extract_min_ttl buf = Some None" "extract_answer_ttl buf = Some None" "answers buf = []"
      by (auto simp: extract_min_ttl_def extract_answer_ttl_def with_answers_def answers_def
          split: option.splits)
    with s show ?thesis by simp
  next
    case True
    then have len: "12 \<le> length buf" by simp
    obtain r where r: "skip_questions buf = Some r" using skip_questions_total [OF len] by blast
    with len have w: "walk question_step (unat (get16 buf 4)) buf 12 = Some r" by (simp add: skip_questions_def)
    show ?thesis
    proof (cases r)
      case None
      then have "extract_min_ttl buf = Some None" "extract_answer_ttl buf = Some None" "answers buf = []"
        using True r w by (simp_all add: extract_min_ttl_def extract_answer_ttl_def with_answers_def answers_def)
      with s show ?thesis by simp
    next
      case (Some pos)
      let ?n = "unat (get16 buf 6)"
      have a: "answers buf = rrs ?n buf pos" using True r Some by (simp add: answers_def)
      obtain m where m: "min_ttl_scan None ?n buf pos = Some m"
        "\<forall>r \<in> set (rrs ?n buf pos). \<exists>v. m = Some v \<and> v \<le> rr_ttl r"
        using min_ttl_scan_le [of None ?n buf pos] by (elim exE conjE) (rule that)
      have me: "extract_min_ttl buf = Some m"
        using True r w Some m(1) by (simp add: extract_min_ttl_def with_answers_def)
      have "answer_ttl_scan ?n buf pos \<noteq> None"
        by (auto simp: answer_ttl_scan_def simp del: not_None_eq split: option.splits Option.bind_splits)
      then obtain f where f: "answer_ttl_scan ?n buf pos = Some f" by blast
      have fe: "extract_answer_ttl buf = Some f"
        using True r w Some f by (simp add: extract_answer_ttl_def with_answers_def)
      have "f = Some (rr_ttl (hd (answers buf)))" if "answers buf \<noteq> []"
        using that f answer_ttl_scan_rrs [of ?n buf pos] a
        by (cases "rrs ?n buf pos") simp_all
      moreover have "v \<in> rr_ttl ` set (answers buf)" if "m = Some v" "length (answers buf) = ?n" for v
        using min_ttl_scan_ge [of None ?n buf pos v] m(1) that a by auto
      ultimately show ?thesis using me fe s m(2) a by (intro exI [of _ m] exI [of _ f] exI [of _ s]) simp
    qed
  qed
qed

theorem ttl_readers_spec_witness:
  "\<exists>m. extract_min_ttl ([0, 7, 0x81, 0x80, 0, 0, 0, 1, 0, 0, 0, 0] @
     [0, 0, 1, 0, 1, 0, 0, 0, 60, 0, 4, 192, 168, 1, 1]) = ret m \<and> (\<exists>v. m = Some v \<and> v \<le> 60)"
proof -
  let ?b = "[0, 7, 0x81, 0x80, 0, 0, 0, 1, 0, 0, 0, 0] @ [0, 0, 1, 0, 1, 0, 0, 0, 60, 0, 4, 192, 168, 1, 1] :: bytes"
  have a: "answers ?b = [\<lparr>rr_type = 1, rr_ttl = 60, rr_data = [192, 168, 1, 1]\<rparr>]" by code_simp
  show ?thesis using ttl_readers_spec [of ?b] unfolding a by auto
qed

end
