(* ===== verification/Ttl_Rewrite.thy ===== *)
theory Ttl_Rewrite
  imports Answers
begin

text \<open>
  The TTL rewriters of the answer cache, \<open>cap_response_ttl\<close> and \<open>decrement_response_ttl\<close> in
  \<open>src/dns/cache.rs\<close>. They walk a message with a name skipper of their own, laxer than
  \<open>skip_dns_name\<close>, and overwrite the TTL of each record they reach.

  The lemmas show that both are total and keep the length and the header of any input, and
  that on a complete message they are a map over its records which leaves every other
  field alone.
\<close>

definition saturating_sub32 :: "u32 \<Rightarrow> u32 \<Rightarrow> u32" where
  "saturating_sub32 a b = (if b \<le> a then a - b else 0)"

section \<open>TTL rewriters\<close>

text \<open>
  The name skipper of this file. It does not check label types, the end of the buffer or the
  number of labels: a position past the end is the caller's to catch.
\<close>

function lax_name :: "bytes \<Rightarrow> nat \<Rightarrow> nat rust" where
  "lax_name buf pos =
    (if pos < length buf then do {
       len \<leftarrow> rd buf pos;
       if len = 0 then ret (pos + 1)
       else if len AND 0xC0 = 0xC0 then ret (pos + 2)
       else lax_name buf (pos + 1 + unat len) }
     else ret pos)"
  by pat_completeness auto
termination by (relation "measure (\<lambda>(buf, pos). length buf - pos)") auto

declare lax_name.simps [simp del]

primrec lax_questions :: "nat \<Rightarrow> bytes \<Rightarrow> nat \<Rightarrow> nat option rust" where
  "lax_questions 0 buf pos = ret (Some pos)"
| "lax_questions (Suc n) buf pos = do {
     p \<leftarrow> lax_name buf pos;
     if p + 4 > length buf then ret None else lax_questions n buf (p + 4) }"

text \<open>The record loop; \<open>upd\<close> gives the new TTL of a record of this type, if it is rewritten.\<close>

primrec ttl_loop :: "(u16 \<Rightarrow> u32 \<Rightarrow> u32 option) \<Rightarrow> nat \<Rightarrow> bytes \<Rightarrow> nat \<Rightarrow> bytes rust" where
  "ttl_loop upd 0 buf pos = ret buf"
| "ttl_loop upd (Suc n) buf pos =
    (if pos \<ge> length buf then ret buf
     else do {
       p \<leftarrow> lax_name buf pos;
       if p + 10 > length buf then ret buf
       else do {
         rtype \<leftarrow> rd16 buf p;
         curr_ttl \<leftarrow> rd32 buf (p + 4);
         buf' \<leftarrow> (case upd rtype curr_ttl of None \<Rightarrow> ret buf | Some t \<Rightarrow> wr buf (p + 4) (to_be32 t));
         rdlen \<leftarrow> count16 buf' (p + 8);
         ttl_loop upd n buf' (p + 10 + rdlen) } })"

definition cap_response_ttl :: "bytes \<Rightarrow> u32 \<Rightarrow> bytes rust" where
  "cap_response_ttl buf max_ttl =
    (if length buf < 12 then ret buf
     else do {
       qdcount \<leftarrow> count16 buf 4;
       ancount \<leftarrow> count16 buf 6;
       if ancount = 0 then ret buf
       else do {
         r \<leftarrow> lax_questions qdcount buf 12;
         case r of None \<Rightarrow> ret buf
         | Some pos \<Rightarrow> ttl_loop (\<lambda>rtype ttl. if ttl > max_ttl then Some max_ttl else None) ancount buf pos } })"

definition decrement_response_ttl :: "bytes \<Rightarrow> u32 \<Rightarrow> bytes rust" where
  "decrement_response_ttl buf elapsed =
    (if length buf < 12 \<or> elapsed = 0 then ret buf
     else do {
       qdcount \<leftarrow> count16 buf 4;
       ancount \<leftarrow> count16 buf 6;
       nscount \<leftarrow> count16 buf 8;
       arcount \<leftarrow> count16 buf 10;
       r \<leftarrow> lax_questions qdcount buf 12;
       case r of None \<Rightarrow> ret buf
       | Some pos \<Rightarrow> ttl_loop (\<lambda>rtype ttl. if rtype \<noteq> 41 then Some (max (saturating_sub32 ttl elapsed) 1) else None)
           (ancount + nscount + arcount) buf pos })"

section \<open>The lax skipper\<close>

lemma lax_name_total [simp]: "lax_name buf pos \<noteq> None"
  by (induction buf pos rule: lax_name.induct) (subst lax_name.simps, auto)

lemma lax_name_mono: "lax_name buf pos = Some p \<Longrightarrow> pos \<le> p"
proof (induction buf pos rule: lax_name.induct)
  case (1 buf pos)
  show ?case
  proof (cases "pos < length buf \<and> buf ! pos \<noteq> 0 \<and> buf ! pos AND 0xC0 \<noteq> 0xC0")
    case True
    with "1.prems" have "lax_name buf (pos + 1 + unat (buf ! pos)) = Some p"
      by (subst (asm) lax_name.simps) simp
    with "1.IH" [of "buf ! pos"] True show ?thesis by simp
  next
    case False
    with "1.prems" show ?thesis by (subst (asm) lax_name.simps) (auto split: if_splits)
  qed
qed

text \<open>Wherever the strict walker finds the end of a name, the lax one finds it too.\<close>

lemma lax_name_loop: "skip_loop n buf pos = Some (Some p) \<Longrightarrow> lax_name buf pos = Some p"
proof (induction n arbitrary: pos)
  case (Suc n)
  then show ?case by (subst lax_name.simps) (auto split: if_splits)
qed simp

lemma lax_name_skip: "skip_dns_name buf pos = Some (Some p) \<Longrightarrow> lax_name buf pos = Some p"
  unfolding skip_dns_name_def by (rule lax_name_loop)

lemma lax_questions_total [simp]: "lax_questions n buf pos \<noteq> None"
proof (induction n arbitrary: pos)
  case (Suc n)
  obtain p where "lax_name buf pos = Some p" using lax_name_total by blast
  with Suc show ?case by auto
qed simp

lemma lax_questions_mono: "lax_questions n buf pos = Some (Some p) \<Longrightarrow> pos \<le> p"
proof (induction n arbitrary: pos)
  case (Suc n)
  then obtain q where "lax_name buf pos = Some q" "lax_questions n buf (q + 4) = Some (Some p)"
    by (auto split: Option.bind_splits if_splits)
  with Suc.IH [of "q + 4"] lax_name_mono [of buf pos q] show ?case by simp
qed simp

lemma lax_questions_walk: "walk question_step n buf pos = Some (Some p) \<Longrightarrow> lax_questions n buf pos = Some (Some p)"
proof (induction n arbitrary: pos)
  case (Suc n)
  then obtain q where q: "question_step buf pos = Some (Some q)" "walk question_step n buf q = Some (Some p)"
    by (auto simp only: questions.walk_Suc_Some)
  from question_step_SomeD [OF q(1)] obtain e where "skip_dns_name buf pos = Some (Some e)" "q = e + 4" "q \<le> length buf"
    by blast
  with lax_name_skip [OF this(1)] Suc.IH [OF q(2)] show ?case by simp
qed simp

section \<open>The record loop on any input\<close>

definition put32 :: "bytes \<Rightarrow> nat \<Rightarrow> u32 \<Rightarrow> bytes" where
  "put32 buf i t = take i buf @ to_be32 t @ drop (i + 4) buf"

lemma put32_simps:
  assumes "i + 4 \<le> length buf"
  shows "length (put32 buf i t) = length buf" "wr buf i (to_be32 t) = Some (put32 buf i t)"
    and "j < i \<or> i + 4 \<le> j \<Longrightarrow> j < length buf \<Longrightarrow> put32 buf i t ! j = buf ! j"
    and "get32 (put32 buf i t) i = t"
  using assms by (simp_all add: put32_def wr_def, auto simp: nth_append get32_def to_be32_def)

text \<open>The buffer after the loop body at a record whose fixed part is at \<open>p\<close>.\<close>

definition retime :: "(u16 \<Rightarrow> u32 \<Rightarrow> u32 option) \<Rightarrow> bytes \<Rightarrow> nat \<Rightarrow> bytes" where
  "retime upd buf p = (case upd (get16 buf p) (get32 buf (p + 4)) of None \<Rightarrow> buf | Some t \<Rightarrow> put32 buf (p + 4) t)"

lemma retime_length [simp]: "p + 10 \<le> length buf \<Longrightarrow> length (retime upd buf p) = length buf"
  by (simp add: retime_def put32_simps split: option.split)

lemma retime_nth: "p + 10 \<le> length buf \<Longrightarrow> j < p + 4 \<or> p + 8 \<le> j \<Longrightarrow> j < length buf \<Longrightarrow> retime upd buf p ! j = buf ! j"
  by (auto simp: retime_def put32_simps split: option.split)

lemma ttl_loop_step:
  assumes "pos < length buf" "lax_name buf pos = Some p" "p + 10 \<le> length buf"
  shows "ttl_loop upd (Suc n) buf pos = ttl_loop upd n (retime upd buf p) (p + 10 + unat (get16 buf (p + 8)))"
proof -
  have "get16 (retime upd buf p) (p + 8) = get16 buf (p + 8)"
    using assms(3) by (simp add: get16_def retime_nth)
  with assms show ?thesis
    by (cases "upd (get16 buf p) (get32 buf (p + 4))") (simp_all add: retime_def put32_simps del: wr_ok)
qed

lemma ttl_loop_frame:
  "\<exists>buf'. ttl_loop upd n buf pos = Some buf' \<and> length buf' = length buf \<and> (\<forall>j < pos. j < length buf \<longrightarrow> buf' ! j = buf ! j)"
proof (induction n arbitrary: buf pos)
  case (Suc n)
  obtain p where p: "lax_name buf pos = Some p" using lax_name_total by blast
  show ?case
  proof (cases "pos < length buf \<and> p + 10 \<le> length buf")
    case True
    note step = ttl_loop_step [of pos buf p upd n, OF _ p]
    note mono = lax_name_mono [OF p]
    from Suc.IH [of "retime upd buf p" "p + 10 + unat (get16 buf (p + 8))"] step True mono
    show ?thesis by (auto simp: retime_nth)
  next
    case False
    with p show ?thesis by auto
  qed
qed simp

section \<open>The record loop on complete records\<close>

definition retimed :: "(u16 \<Rightarrow> u32 \<Rightarrow> u32 option) \<Rightarrow> rr \<Rightarrow> rr" where
  "retimed upd r = r\<lparr>rr_ttl := unwrap_or (rr_ttl r) (upd (rr_type r) (rr_ttl r))\<rparr>"

lemma rrs_local:
  assumes "walk record_step n buf pos = Some (Some e)" "same_between buf' buf pos e"
  shows "rrs n buf' pos = rrs n buf pos"
  using assms
proof (induction n arbitrary: pos)
  case (Suc n)
  from Suc.prems(1) obtain ne p where p: "skip_dns_name buf pos = Some (Some ne)"
    "p = ne + 10 + unat (get16 buf (ne + 8))" "pos < ne" "p \<le> length buf"
    "record_step buf pos = Some (Some p)" "walk record_step n buf p = Some (Some e)"
    by (rule walk_record_Suc)
  have "p \<le> e" using records.walk_bounds [OF p(6)] by simp
  note S = same_between_sub [OF Suc.prems(2)]
  have "record_step buf' pos = Some (Some p)" "skip_dns_name buf' pos = Some (Some ne)"
    using p \<open>p \<le> e\<close> by (simp_all add: records.step_local [OF p(5)] skip_dns_name_local [OF p(1)] S)
  moreover have "rr_of buf' ne = rr_of buf ne"
  proof -
    have len: "get16 buf' (ne + 8) = get16 buf (ne + 8)" "get16 buf' ne = get16 buf ne"
      using p \<open>p \<le> e\<close> by (simp_all add: get16_same [OF Suc.prems(2)])
    have nth: "buf' ! i = buf ! i" if "ne \<le> i" "i < p" for i
      using Suc.prems(2) p \<open>p \<le> e\<close> that by (simp add: same_between_def)
    have "take (unat (get16 buf (ne + 8))) (drop (ne + 10) buf') = take (unat (get16 buf (ne + 8))) (drop (ne + 10) buf)"
      using p \<open>p \<le> e\<close> Suc.prems(2) nth by (intro nth_equalityI) (auto simp: same_between_def)
    then show ?thesis using len nth p by (simp add: rr_of_def get32_def)
  qed
  moreover have "rrs n buf' p = rrs n buf p"
    by (rule Suc.IH [OF p(6)], rule S) (use p in simp_all)
  ultimately show ?case using p by simp
qed simp

lemma same_betweenI: "length buf' = length buf \<Longrightarrow> b \<le> length buf \<Longrightarrow> (\<And>i. a \<le> i \<Longrightarrow> i < b \<Longrightarrow> buf' ! i = buf ! i) \<Longrightarrow>
    same_between buf' buf a b"
  by (simp add: same_between_def)

lemma ttl_loop_records:
  assumes "walk record_step n buf pos = Some (Some e)" "pos \<le> length buf"
  shows "\<exists>buf'. ttl_loop upd n buf pos = Some buf' \<and> length buf' = length buf \<and>
    walk record_step n buf' pos = Some (Some e) \<and>
    (\<forall>i < length buf. i < pos \<or> e \<le> i \<longrightarrow> buf' ! i = buf ! i) \<and>
    rrs n buf' pos = map (retimed upd) (rrs n buf pos)"
  using assms
proof (induction n arbitrary: buf pos)
  case (Suc n)
  from Suc.prems(1) obtain ne p where p: "skip_dns_name buf pos = Some (Some ne)"
    "p = ne + 10 + unat (get16 buf (ne + 8))" "pos < ne" "p \<le> length buf"
    "record_step buf pos = Some (Some p)" "walk record_step n buf p = Some (Some e)"
    by (rule walk_record_Suc)
  let ?b = "retime upd buf ne"
  have ne: "ne + 10 \<le> length buf" using p by simp
  have e: "p \<le> e" "e \<le> length buf" using records.walk_inside [OF p(6)] p by simp_all
  have sb: "same_between ?b buf a b" if "b \<le> ne + 4 \<or> ne + 8 \<le> a" "b \<le> length buf" for a b
    using that ne by (intro same_betweenI) (auto intro!: retime_nth)
  have w: "walk record_step n ?b p = Some (Some e)" "rrs n ?b p = rrs n buf p"
    using records.walk_local [OF p(6)] rrs_local [OF p(6)] sb p(2) e by auto
  obtain buf' where IH: "ttl_loop upd n ?b p = Some buf'" "length buf' = length buf"
    "walk record_step n buf' p = Some (Some e)" "\<forall>i < length buf. i < p \<or> e \<le> i \<longrightarrow> buf' ! i = ?b ! i"
    "rrs n buf' p = map (retimed upd) (rrs n buf p)"
    using Suc.IH [OF w(1)] w(2) p ne by auto
  have out: "buf' ! i = buf ! i" if "i < length buf" "i < ne + 4 \<or> ne + 8 \<le> i \<and> i < p \<or> e \<le> i" for i
    using IH(4) that ne e p by (auto simp: retime_nth)
  have skip: "skip_dns_name buf' pos = Some (Some ne)"
    using p ne out IH(2) by (intro skip_dns_name_local [OF p(1)] same_betweenI) auto
  have g: "get16 buf' (ne + 8) = get16 buf (ne + 8)" "get16 buf' ne = get16 buf ne"
    using out ne p by (simp_all add: get16_def)
  have step: "record_step buf' pos = Some (Some p)"
    using skip g p IH(2) by (simp add: record_step_def)
  have "get32 buf' (ne + 4) = get32 ?b (ne + 4)"
    using IH(4) p ne by (simp add: get32_def)
  moreover have "get32 ?b (ne + 4) = unwrap_or (get32 buf (ne + 4)) (upd (get16 buf ne) (get32 buf (ne + 4)))"
    using ne by (auto simp: retime_def put32_simps split: option.split)
  moreover have "take (unat (get16 buf (ne + 8))) (drop (ne + 10) buf') = take (unat (get16 buf (ne + 8))) (drop (ne + 10) buf)"
    using p IH(2) out by (intro nth_equalityI) auto
  ultimately have "rr_of buf' ne = retimed upd (rr_of buf ne)"
    using g by (simp add: rr_of_def retimed_def)
  moreover have "ttl_loop upd (Suc n) buf pos = Some buf'"
    using ttl_loop_step [OF _ lax_name_skip [OF p(1)] ne] IH(1) p by simp
  moreover have "walk record_step (Suc n) buf' pos = Some (Some e)"
    using step IH(3) by simp
  moreover have "rrs (Suc n) buf' pos = map (retimed upd) (rrs (Suc n) buf pos)"
    using IH(5) step skip p(1,5) \<open>rr_of buf' ne = retimed upd (rr_of buf ne)\<close> by simp
  moreover have "\<forall>i < length buf. i < pos \<or> e \<le> i \<longrightarrow> buf' ! i = buf ! i"
    using out p(3) by simp
  ultimately show ?case using IH(2) by blast
qed simp

section \<open>The rewriters\<close>

definition message_records :: "bytes \<Rightarrow> rr list" where
  "message_records buf = (case skip_questions buf of
     Some (Some pos) \<Rightarrow> rrs (unat (get16 buf 6) + unat (get16 buf 8) + unat (get16 buf 10)) buf pos | _ \<Rightarrow> [])"

definition aged :: "u32 \<Rightarrow> rr \<Rightarrow> rr" where
  "aged elapsed r = (if rr_type r = 41 then r
     else r\<lparr>rr_ttl := max 1 (if elapsed \<le> rr_ttl r then rr_ttl r - elapsed else 0)\<rparr>)"

definition capped :: "u32 \<Rightarrow> rr \<Rightarrow> rr" where
  "capped max_ttl r = r\<lparr>rr_ttl := min max_ttl (rr_ttl r)\<rparr>"

lemma retimed_aged:
  "retimed (\<lambda>rtype ttl. if rtype \<noteq> 41 then Some (max (saturating_sub32 ttl e) 1) else None) = aged e"
  by (rule ext) (simp add: retimed_def aged_def saturating_sub32_def max.commute)

lemma retimed_capped: "retimed (\<lambda>rtype ttl. if ttl > m then Some m else None) = capped m"
  by (rule ext) (simp add: retimed_def capped_def min_def not_le)

lemma retimed_eqs [simp]: "retimed (\<lambda>rtype ttl. None) r = r"
  by (simp add: retimed_def)

lemma rrs_add: "walk record_step m buf pos = Some (Some p) \<Longrightarrow> rrs (m + n) buf pos = rrs m buf pos @ rrs n buf p"
proof (induction m arbitrary: pos)
  case (Suc m)
  from Suc.prems obtain ne q where q: "skip_dns_name buf pos = Some (Some ne)"
    "q = ne + 10 + unat (get16 buf (ne + 8))" "pos < ne" "q \<le> length buf"
    "record_step buf pos = Some (Some q)" "walk record_step m buf q = Some (Some p)"
    by (rule walk_record_Suc)
  with Suc.IH [of q] show ?case by simp
qed simp

lemma rrs_length: "walk record_step n buf pos = Some (Some p) \<Longrightarrow> length (rrs n buf pos) = n"
proof (induction n arbitrary: pos)
  case (Suc m)
  from Suc.prems obtain ne q where q: "skip_dns_name buf pos = Some (Some ne)"
    "q = ne + 10 + unat (get16 buf (ne + 8))" "pos < ne" "q \<le> length buf"
    "record_step buf pos = Some (Some q)" "walk record_step m buf q = Some (Some p)"
    by (rule walk_record_Suc)
  with Suc.IH [of q] show ?case by simp
qed simp

text \<open>A complete message: one walk over all records, from the end of the questions to the end.\<close>

lemma complete_walk:
  assumes "complete buf"
  obtains q where "12 \<le> length buf" "walk question_step (unat (get16 buf 4)) buf 12 = Some (Some q)" "12 \<le> q"
    "q \<le> length buf" "walk record_step (unat (get16 buf 6) + unat (get16 buf 8) + unat (get16 buf 10)) buf q = Some (Some (length buf))"
proof -
  from complete_sections [OF assms] obtain a where a: "12 \<le> length buf" "skip_to_additional buf = Some (Some a)"
    "walk record_step (unat (get16 buf 10)) buf a = Some (Some (length buf))" by metis
  from skip_to_additional_Some [OF a(2,1)] obtain q where q:
    "walk question_step (unat (get16 buf 4)) buf 12 = Some (Some q)"
    "walk record_step (unat (get16 buf 6) + unat (get16 buf 8)) buf q = Some (Some a)"
    "12 \<le> q" "q \<le> a" "a \<le> length buf" by metis
  with a have "walk record_step (unat (get16 buf 6) + unat (get16 buf 8) + unat (get16 buf 10)) buf q = Some (Some (length buf))"
    by (simp add: records.walk_add [of "unat (get16 buf 6) + unat (get16 buf 8)"])
  with a q that show thesis by simp
qed

text \<open>Rewriting the first \<open>m\<close> records of a complete message.\<close>

lemma rewrite_complete:
  assumes c: "complete buf" and q: "walk question_step (unat (get16 buf 4)) buf 12 = Some (Some q)"
    and m: "m \<le> unat (get16 buf 6) + unat (get16 buf 8) + unat (get16 buf 10)"
  shows "\<exists>buf'. ttl_loop upd m buf q = Some buf' \<and> length buf' = length buf \<and> complete buf' \<and>
    take 12 buf' = take 12 buf \<and>
    message_records buf' = map (retimed upd) (take m (message_records buf)) @ drop m (message_records buf)"
proof -
  let ?n = "unat (get16 buf 6) + unat (get16 buf 8) + unat (get16 buf 10)"
  from complete_walk [OF c] q have len: "12 \<le> length buf" "12 \<le> q" "q \<le> length buf"
    and w: "walk record_step ?n buf q = Some (Some (length buf))" by (metis option.inject)+
  from m obtain k where n: "?n = m + k" using le_Suc_ex by blast
  from w n obtain e where e: "walk record_step m buf q = Some (Some e)" "walk record_step k buf e = Some (Some (length buf))"
    by (auto simp: records.walk_add split: Option.bind_splits option.splits)
  have eb: "q \<le> e" "e \<le> length buf" using records.walk_inside [OF e(1)] len by simp_all
  from ttl_loop_records [OF e(1), of upd] len obtain buf' where L: "ttl_loop upd m buf q = Some buf'"
    "length buf' = length buf" "walk record_step m buf' q = Some (Some e)"
    "\<forall>i < length buf. i < q \<or> e \<le> i \<longrightarrow> buf' ! i = buf ! i"
    "rrs m buf' q = map (retimed upd) (rrs m buf q)" by blast
  have sb: "same_between buf' buf 0 q" "same_between buf' buf e (length buf)"
    using L(2,4) len by (auto intro!: same_betweenI)
  have cnt: "get16 buf' i = get16 buf i" if "i + 1 < 12" for i
    using get16_same [OF sb(1)] that len by simp
  have q': "walk question_step (unat (get16 buf' 4)) buf' 12 = Some (Some q)"
    using questions.walk_local [OF q] same_between_sub [OF sb(1), of 12 q] cnt [of 4] by simp
  have tail: "walk record_step k buf' e = Some (Some (length buf))" "rrs k buf' e = rrs k buf e"
    using records.walk_local [OF e(2) sb(2)] rrs_local [OF e(2) sb(2)] by simp_all
  have n': "unat (get16 buf' 6) + unat (get16 buf' 8) + unat (get16 buf' 10) = m + k"
    using n cnt by simp
  have "walk record_step (m + k) buf' q = Some (Some (length buf'))"
    using L(2,3) tail by (simp add: records.walk_add)
  then have "walk record_step (unat (get16 buf' 6) + unat (get16 buf' 8) + unat (get16 buf' 10)) buf' q
      = Some (Some (length buf'))" using n' by simp
  then have comp: "complete buf'"
    using q' len L(2) unfolding complete_def skip_to_additional_def skip_questions_def
    by (auto simp: records.walk_add [of "unat (get16 buf' 6) + unat (get16 buf' 8)"] split: Option.bind_splits option.splits)
  have t12: "take 12 buf' = take 12 buf"
    using L(2,4) len by (intro nth_equalityI) auto
  have "message_records buf' = rrs (m + k) buf' q" "message_records buf = rrs (m + k) buf q"
    using q q' n n' len L(2) by (simp_all add: message_records_def skip_questions_def)
  then have "message_records buf' = map (retimed upd) (rrs m buf q) @ rrs k buf e"
    "message_records buf = rrs m buf q @ rrs k buf e"
    using rrs_add [OF L(3)] rrs_add [OF e(1)] L(5) tail by simp_all
  then show ?thesis using L(1,2) comp t12 rrs_length [OF e(1)] by simp
qed

lemma rewriters_frame:
  "(\<exists>b. cap_response_ttl buf m = Some b \<and> length b = length buf \<and> take 12 b = take 12 buf) \<and>
   (\<exists>b. decrement_response_ttl buf e = Some b \<and> length b = length buf \<and> take 12 b = take 12 buf)"
proof (cases "12 \<le> length buf")
  case True
  obtain r where r: "lax_questions (unat (get16 buf 4)) buf 12 = Some r" using lax_questions_total by blast
  have loop: "\<exists>b. ttl_loop upd n buf pos = Some b \<and> length b = length buf \<and> take 12 b = take 12 buf"
    if "r = Some pos" for upd n pos
  proof -
    have "12 \<le> pos" using lax_questions_mono r that by blast
    moreover obtain b where "ttl_loop upd n buf pos = Some b" "length b = length buf" "\<forall>j<pos. j < length buf \<longrightarrow> b ! j = buf ! j"
      using ttl_loop_frame by blast
    ultimately show ?thesis using True by (intro exI [of _ b]) (auto intro!: nth_equalityI)
  qed
  show ?thesis
    using True r loop by (cases r) (auto simp: cap_response_ttl_def decrement_response_ttl_def)
qed (simp add: cap_response_ttl_def decrement_response_ttl_def)

lemma ttl_rewritten_fresh:
  assumes "complete buf"
  shows "\<exists>buf'. decrement_response_ttl buf e = Some buf' \<and> length buf' = length buf \<and> take 12 buf' = take 12 buf \<and>
     complete buf' \<and> message_records buf' = map (if e = 0 then id else aged e) (message_records buf)"
proof -
  from complete_walk [OF assms] obtain q where len: "12 \<le> length buf"
    and q: "walk question_step (unat (get16 buf 4)) buf 12 = Some (Some q)"
    and w: "walk record_step (unat (get16 buf 6) + unat (get16 buf 8) + unat (get16 buf 10)) buf q = Some (Some (length buf))"
    by metis
  have "length (message_records buf) = unat (get16 buf 6) + unat (get16 buf 8) + unat (get16 buf 10)"
    using q len rrs_length [OF w] by (simp add: message_records_def skip_questions_def)
  with rewrite_complete [OF assms q order_refl,
      of "\<lambda>rtype ttl. if rtype \<noteq> 41 then Some (max (saturating_sub32 ttl e) 1) else None",
      unfolded retimed_aged] len lax_questions_walk [OF q] assms
  show ?thesis by (cases "e = 0") (auto simp: decrement_response_ttl_def)
qed

lemma ttl_rewritten_stale:
  assumes "complete buf"
  shows "\<exists>buf'. cap_response_ttl buf m = Some buf' \<and> length buf' = length buf \<and> take 12 buf' = take 12 buf \<and>
     complete buf' \<and> message_records buf' =
       map (capped m) (take (unat (get16 buf 6)) (message_records buf)) @ drop (unat (get16 buf 6)) (message_records buf)"
proof -
  from complete_walk [OF assms] obtain q where len: "12 \<le> length buf"
    and q: "walk question_step (unat (get16 buf 4)) buf 12 = Some (Some q)" by metis
  with rewrite_complete [OF assms q, of "unat (get16 buf 6)" "\<lambda>rtype ttl. if ttl > m then Some m else None",
      unfolded retimed_capped] lax_questions_walk [OF q] assms
  show ?thesis by (cases "unat (get16 buf 6) = 0") (auto simp: cap_response_ttl_def)
qed

text \<open>
  Both TTL rewriters return on every input a message of the same length with the same
  header. On a complete message the result is complete; ageing subtracts the elapsed
  seconds from the TTL of every record but OPT, never below 1, and capping takes the minimum
  with the ceiling in the answer section only. Types and data of the records are kept.
\<close>

theorem ttl_rewriters_spec:
  assumes "complete buf"
  shows "(\<exists>buf'. decrement_response_ttl buf e = ret buf' \<and> length buf' = length buf \<and> take 12 buf' = take 12 buf \<and>
     complete buf' \<and> message_records buf' = map (if e = 0 then id else aged e) (message_records buf)) \<and>
   (\<exists>buf'. cap_response_ttl buf m = ret buf' \<and> length buf' = length buf \<and> take 12 buf' = take 12 buf \<and>
     complete buf' \<and> message_records buf' =
       map (capped m) (take (unat (get16 buf 6)) (message_records buf)) @ drop (unat (get16 buf 6)) (message_records buf))"
  using ttl_rewritten_fresh [OF assms] ttl_rewritten_stale [OF assms] by blast

theorem ttl_rewriters_spec_witness:
  "\<exists>buf'. decrement_response_ttl ([0, 7, 0x81, 0x80, 0, 0, 0, 1, 0, 0, 0, 0] @
     [0, 0, 1, 0, 1, 0, 0, 0, 60, 0, 4, 192, 168, 1, 1]) 20 = ret buf' \<and> map rr_ttl (message_records buf') = [40]"
proof -
  let ?b = "[0, 7, 0x81, 0x80, 0, 0, 0, 1, 0, 0, 0, 0] @ [0, 0, 1, 0, 1, 0, 0, 0, 60, 0, 4, 192, 168, 1, 1] :: bytes"
  have c: "complete ?b" by code_simp
  have "map rr_ttl (map (aged 20) (message_records ?b)) = [40]" by code_simp
  with ttl_rewriters_spec [OF c, of 20 5] show ?thesis by auto
qed

end
