(* ===== verification/Cache.thy ===== *)
theory Cache
  imports Ttl_Rewrite
begin

text \<open>
  The answer cache, \<open>src/dns/cache.rs\<close>: \<open>DnsCache\<close> with its positive and negative maps, the
  serve-stale lookup, the guarded insertion and the invalidations. The TTL rewriters it calls
  are in \<open>Ttl_Rewrite\<close>.

  Two packages are parameters. \<open>moka\<close> keeps the two maps and calls the eviction listener,
  \<open>drop_entry\<close>, for each entry that leaves the first one; it may evict any entry at any time,
  which is an operation of its own in \<open>cache_op\<close>. \<open>zstd\<close> is the pair of functions \<open>compress\<close> and
  \<open>decompress\<close>; where a lemma needs it, \<open>zstd_round_trip\<close> says that a compressed message
  decompresses to itself. Instants are nanoseconds of the monotonic clock. The characters of a
  key are bytes of the name read as Latin-1, so a key is kept as its list of characters.

  The lemmas show when two questions share an entry, the fresh/stale/miss machine, and the
  invariants of every reachable state: clamped lifetimes, byte counters that agree with the
  entries, and no refused address in the cache.
\<close>

section \<open>State\<close>

record cached_response =
  wire :: bytes
  uncompressed_len :: nat
  is_compressed :: bool
  created_at :: instant
  original_ttl :: u32
  stale_grace_secs :: u32

datatype cache_lookup = Fresh bytes | Stale bytes | Miss

record dns_cache =
  cache_map :: "string \<Rightarrow> cached_response option"
  neg_cache :: "string \<Rightarrow> (instant \<times> u32) option"
  neg_hits :: u64
  swr_hits :: u64
  compressed_bytes :: u64
  uncompressed_bytes :: u64
  max_capacity :: u64

definition saturating_sub64 :: "u64 \<Rightarrow> u64 \<Rightarrow> u64" where
  "saturating_sub64 a b = (if b \<le> a then a - b else 0)"

text \<open>The eviction listener, with the removal it reports.\<close>

definition drop_entry :: "string \<Rightarrow> dns_cache \<Rightarrow> dns_cache" where
  "drop_entry key c = (case cache_map c key of None \<Rightarrow> c
     | Some entry \<Rightarrow> c\<lparr>cache_map := (cache_map c)(key := None),
         compressed_bytes := saturating_sub64 (compressed_bytes c) (word_of_nat (length (wire entry))),
         uncompressed_bytes := saturating_sub64 (uncompressed_bytes c) (word_of_nat (uncompressed_len entry))\<rparr>)"

definition new_cache :: "u64 \<Rightarrow> dns_cache" where
  "new_cache capacity = \<lparr>cache_map = Map.empty, neg_cache = Map.empty, neg_hits = 0, swr_hits = 0,
     compressed_bytes = 0, uncompressed_bytes = 0, max_capacity = capacity\<rparr>"

definition make_key :: "string \<Rightarrow> u16 \<Rightarrow> string" where
  "make_key name qt = to_ascii_lowercase (trim_end_char CHR ''.'' name) @ '':'' @ decimal (unat qt)"

definition elapsed_secs :: "instant \<Rightarrow> instant \<Rightarrow> u32" where
  "elapsed_secs created now = word_of_nat ((now - created) div 1000000000)"

definition saturating_add32 :: "u32 \<Rightarrow> u32 \<Rightarrow> u32" where
  "saturating_add32 a b = (if unat a + unat b < 2 ^ 32 then a + b else 0xFFFFFFFF)"

section \<open>Lookup\<close>

definition stored_wire :: "(bytes \<Rightarrow> nat \<Rightarrow> bytes option) \<Rightarrow> cached_response \<Rightarrow> bytes" where
  "stored_wire decompress entry =
    (if is_compressed entry
     then (case decompress (wire entry) (uncompressed_len entry) of Some decomp \<Rightarrow> decomp | None \<Rightarrow> wire entry)
     else wire entry)"

definition set_tx_id :: "bytes \<Rightarrow> u16 \<Rightarrow> bytes rust" where
  "set_tx_id out client_tx_id = (if length out \<ge> 2 then wr out 0 (to_be16 client_tx_id) else ret out)"

definition get_with_swr ::
  "(bytes \<Rightarrow> nat \<Rightarrow> bytes option) \<Rightarrow> dns_cache \<Rightarrow> string \<Rightarrow> u16 \<Rightarrow> u16 \<Rightarrow> instant \<Rightarrow>
   (cache_lookup \<times> dns_cache) rust" where
  "get_with_swr decompress c name qt client_tx_id now = (
     let key = make_key name qt in
     case cache_map c key of
       None \<Rightarrow> ret (Miss, c)
     | Some entry \<Rightarrow>
         let elapsed = elapsed_secs (created_at entry) now;
             out = stored_wire decompress entry in
         if elapsed < original_ttl entry then do {
           out \<leftarrow> set_tx_id out client_tx_id;
           out \<leftarrow> decrement_response_ttl out elapsed;
           ret (Fresh out, c) }
         else if elapsed < saturating_add32 (original_ttl entry) (stale_grace_secs entry) then do {
           out \<leftarrow> set_tx_id out client_tx_id;
           out \<leftarrow> cap_response_ttl out 5;
           ret (Stale out, c\<lparr>swr_hits := swr_hits c + 1\<rparr>) }
         else ret (Miss, drop_entry key c))"

definition cache_get ::
  "(bytes \<Rightarrow> nat \<Rightarrow> bytes option) \<Rightarrow> dns_cache \<Rightarrow> string \<Rightarrow> u16 \<Rightarrow> u16 \<Rightarrow> instant \<Rightarrow>
   (bytes option \<times> dns_cache) rust" where
  "cache_get decompress c name qt client_tx_id now = do {
     (r, c') \<leftarrow> get_with_swr decompress c name qt client_tx_id now;
     ret (case r of Fresh out \<Rightarrow> Some out | Stale out \<Rightarrow> Some out | Miss \<Rightarrow> None, c') }"

section \<open>Insertion\<close>

definition insert_with_grace_allowed ::
  "(bytes \<Rightarrow> bytes option) \<Rightarrow> dns_cache \<Rightarrow> string \<Rightarrow> u16 \<Rightarrow> bytes \<Rightarrow> u32 \<Rightarrow> u32 \<Rightarrow> bool \<Rightarrow> instant \<Rightarrow>
   dns_cache rust" where
  "insert_with_grace_allowed compress c name qt raw_response ttl grace_secs is_allowed now = do {
     refused \<leftarrow> (if \<not> is_allowed \<and> \<not> is_rebind_exempt_domain name
                 then do { r \<leftarrow> extract_rebind_ip raw_response; ret (r \<noteq> None) } else ret False);
     if refused then ret c
     else (
       let key = make_key name qt;
           safe_ttl = clamp32 10 86400 ttl;
           safe_grace = clamp32 30 3600 grace_secs;
           ulen = length raw_response;
           (w, compressed, stored_len) =
             (if ulen \<ge> 128 then
                (case compress raw_response of
                   Some z \<Rightarrow> if length z < ulen then (z, True, length z) else (raw_response, False, ulen)
                 | None \<Rightarrow> (raw_response, False, ulen))
              else (raw_response, False, ulen));
           c1 = c\<lparr>compressed_bytes := compressed_bytes c + word_of_nat stored_len,
                  uncompressed_bytes := uncompressed_bytes c + word_of_nat ulen\<rparr>;
           entry = \<lparr>wire = w, uncompressed_len = ulen, is_compressed = compressed, created_at = now,
                    original_ttl = safe_ttl, stale_grace_secs = safe_grace\<rparr>;
           c2 = drop_entry key c1
       in ret (c2\<lparr>cache_map := (cache_map c2)(key := Some entry)\<rparr>)) }"

definition insert_with_grace ::
  "(bytes \<Rightarrow> bytes option) \<Rightarrow> dns_cache \<Rightarrow> string \<Rightarrow> u16 \<Rightarrow> bytes \<Rightarrow> u32 \<Rightarrow> u32 \<Rightarrow> instant \<Rightarrow> dns_cache rust" where
  "insert_with_grace compress c name qt raw_response ttl grace_secs now =
     insert_with_grace_allowed compress c name qt raw_response ttl grace_secs False now"

definition cache_insert ::
  "(bytes \<Rightarrow> bytes option) \<Rightarrow> dns_cache \<Rightarrow> string \<Rightarrow> u16 \<Rightarrow> bytes \<Rightarrow> u32 \<Rightarrow> instant \<Rightarrow> dns_cache rust" where
  "cache_insert compress c name qt raw_response ttl now =
     insert_with_grace compress c name qt raw_response ttl 300 now"

section \<open>Negative entries and invalidation\<close>

definition get_negative :: "dns_cache \<Rightarrow> string \<Rightarrow> u16 \<Rightarrow> instant \<Rightarrow> bool \<times> dns_cache" where
  "get_negative c name qt now = (
     let key = make_key name qt in
     case neg_cache c key of
       None \<Rightarrow> (False, c)
     | Some (created, ttl) \<Rightarrow>
         if elapsed_secs created now \<le> ttl then (True, c\<lparr>neg_hits := neg_hits c + 1\<rparr>)
         else (False, c\<lparr>neg_cache := (neg_cache c)(key := None)\<rparr>))"

definition insert_negative :: "dns_cache \<Rightarrow> string \<Rightarrow> u16 \<Rightarrow> u32 \<Rightarrow> instant \<Rightarrow> dns_cache" where
  "insert_negative c name qt ttl now =
     c\<lparr>neg_cache := (neg_cache c)(make_key name qt := Some (now, clamp32 5 300 ttl))\<rparr>"

definition neg_qtypes :: "u16 list" where
  "neg_qtypes = [1, 2, 5, 6, 12, 15, 16, 28, 33, 64, 65, 255, 257]"

definition invalidate_negative_qtype :: "dns_cache \<Rightarrow> string \<Rightarrow> u16 \<Rightarrow> dns_cache" where
  "invalidate_negative_qtype c name qt = c\<lparr>neg_cache := (neg_cache c)(make_key name qt := None)\<rparr>"

definition invalidate_negative :: "dns_cache \<Rightarrow> string \<Rightarrow> dns_cache" where
  "invalidate_negative c name = (let clean = trim_end_char CHR ''.'' name in
     fold (\<lambda>qt c. invalidate_negative_qtype c clean qt) neg_qtypes c)"

definition invalidate :: "dns_cache \<Rightarrow> string \<Rightarrow> u16 \<Rightarrow> dns_cache" where
  "invalidate c name qt = drop_entry (make_key name qt) c"

definition clear_cache :: "dns_cache \<Rightarrow> dns_cache" where
  "clear_cache c = c\<lparr>cache_map := Map.empty, neg_cache := Map.empty, neg_hits := 0,
     compressed_bytes := 0, uncompressed_bytes := 0\<rparr>"

text \<open>The byte figure of \<open>get_stats\<close>, from moka's entry count.\<close>

definition stats_bytes :: "dns_cache \<Rightarrow> u64 \<Rightarrow> u64" where
  "stats_bytes c count = (let compressed = compressed_bytes c in
     if count = 0 then 0 else if compressed > 0 then compressed else count * 256)"

section \<open>Runs of the cache\<close>

datatype cache_op =
    Insert string u16 bytes u32 u32 bool instant
  | Look_Up string u16 u16 instant
  | Invalidate string u16
  | Evict string
  | Clear
  | Insert_Neg string u16 u32 instant
  | Look_Up_Neg string u16 instant
  | Invalidate_Neg string
  | Invalidate_Neg_Type string u16
  | Evict_Neg string

fun cache_run :: "(bytes \<Rightarrow> bytes option) \<Rightarrow> (bytes \<Rightarrow> nat \<Rightarrow> bytes option) \<Rightarrow> cache_op \<Rightarrow> dns_cache \<Rightarrow> dns_cache rust" where
  "cache_run compress decompress (Insert name qt raw ttl grace allowed now) c =
     insert_with_grace_allowed compress c name qt raw ttl grace allowed now"
| "cache_run compress decompress (Look_Up name qt tx now) c = map_option snd (get_with_swr decompress c name qt tx now)"
| "cache_run compress decompress (Invalidate name qt) c = ret (invalidate c name qt)"
| "cache_run compress decompress (Evict key) c = ret (drop_entry key c)"
| "cache_run compress decompress Clear c = ret (clear_cache c)"
| "cache_run compress decompress (Insert_Neg name qt ttl now) c = ret (insert_negative c name qt ttl now)"
| "cache_run compress decompress (Look_Up_Neg name qt now) c = ret (snd (get_negative c name qt now))"
| "cache_run compress decompress (Invalidate_Neg name) c = ret (invalidate_negative c name)"
| "cache_run compress decompress (Invalidate_Neg_Type name qt) c = ret (invalidate_negative_qtype c name qt)"
| "cache_run compress decompress (Evict_Neg key) c = ret (c\<lparr>neg_cache := (neg_cache c)(key := None)\<rparr>)"

text \<open>The bytes the entries stand for, and the messages an operation adds.\<close>

definition total :: "('e \<Rightarrow> nat) \<Rightarrow> (string \<Rightarrow> 'e option) \<Rightarrow> nat" where
  "total f m = (\<Sum>k\<in>dom m. f (the (m k)))"

fun added_bytes :: "cache_op \<Rightarrow> nat" where
  "added_bytes (Insert name qt raw ttl grace allowed now) = length raw"
| "added_bytes _ = 0"

text \<open>The keys whose answers a bypass list has exempted from the rebind guard.\<close>

fun allowed_key :: "cache_op \<Rightarrow> string set" where
  "allowed_key (Insert name qt raw ttl grace allowed now) = (if allowed then {make_key name qt} else {})"
| "allowed_key _ = {}"

text \<open>
  A state is reached from the empty cache by operations, as long as the stored messages fit in
  the address space of the machine.
\<close>

inductive reached :: "(bytes \<Rightarrow> bytes option) \<Rightarrow> (bytes \<Rightarrow> nat \<Rightarrow> bytes option) \<Rightarrow> string set \<Rightarrow> dns_cache \<Rightarrow> bool"
  for compress decompress where
  start: "reached compress decompress {} (new_cache capacity)"
| step: "reached compress decompress A c \<Longrightarrow> cache_run compress decompress op c = ret c' \<Longrightarrow>
    total uncompressed_len (cache_map c) + added_bytes op < 2 ^ 64 \<Longrightarrow>
    reached compress decompress (A \<union> allowed_key op) c'"

inductive_cases reached_step: "reached compress decompress A c"

section \<open>Byte counters\<close>

lemma total_empty [simp]: "total f Map.empty = 0"
  by (simp add: total_def)

lemma total_remove: "finite (dom m) \<Longrightarrow> m k = Some e \<Longrightarrow> total f (m(k := None)) + f e = total f m"
proof -
  assume fin: "finite (dom m)" and k: "m k = Some e"
  have "total f (m(k := None)) = (\<Sum>j\<in>dom m - {k}. f (the (m j)))"
    unfolding total_def by (rule sum.cong) auto
  with fin k show ?thesis
    using sum.remove [of "dom m" k "\<lambda>j. f (the (m j))"] by (simp add: total_def domI)
qed

lemma total_insert: "finite (dom m) \<Longrightarrow> m k = None \<Longrightarrow> total f (m(k := Some e)) = total f m + f e"
proof -
  assume fin: "finite (dom m)" and k: "m k = None"
  have "(\<Sum>j\<in>dom m. f (the ((m(k := Some e)) j))) = total f m"
    unfolding total_def using k by (intro sum.cong) auto
  with fin k show ?thesis unfolding total_def by (simp add: domIff)
qed

lemma unat_word_of_nat64: "n < 2 ^ 64 \<Longrightarrow> unat (word_of_nat n :: u64) = n"
  by (simp add: unsigned_of_nat take_bit_eq_mod)

lemma counter_add: "unat a + n < 2 ^ 64 \<Longrightarrow> unat (a + word_of_nat n :: u64) = unat a + n"
  using unat_word_of_nat64 [of n] by (simp add: unat_word_ariths)

lemma counter_sub: "n \<le> unat a \<Longrightarrow> unat (saturating_sub64 a (word_of_nat n)) = unat a - n"
proof -
  assume n: "n \<le> unat a"
  have "unat a < 2 ^ 64" using unsigned_less [of a] by simp
  with n have w: "unat (word_of_nat n :: u64) = n" by (intro unat_word_of_nat64) linarith
  with n have "word_of_nat n \<le> a" by (simp add: word_le_nat_alt)
  with w show ?thesis by (simp add: saturating_sub64_def unat_sub)
qed

section \<open>The invariant\<close>

text \<open>How a message is stored.\<close>

definition stored_as :: "(bytes \<Rightarrow> bytes option) \<Rightarrow> bytes \<Rightarrow> cached_response \<Rightarrow> bool" where
  "stored_as compress raw e \<longleftrightarrow> uncompressed_len e = length raw \<and> length (wire e) \<le> length raw \<and>
     (if is_compressed e then compress raw = Some (wire e) else wire e = raw)"

definition guarded :: "string \<Rightarrow> bytes \<Rightarrow> bool" where
  "guarded key raw \<longleftrightarrow> extract_rebind_ip raw = Some None \<or>
     (\<exists>name qt. key = make_key name qt \<and> is_rebind_exempt_domain name)"

definition entry_ok :: "(bytes \<Rightarrow> bytes option) \<Rightarrow> string set \<Rightarrow> string \<Rightarrow> cached_response \<Rightarrow> bool" where
  "entry_ok compress A key e \<longleftrightarrow> 10 \<le> original_ttl e \<and> original_ttl e \<le> 86400 \<and>
     30 \<le> stale_grace_secs e \<and> stale_grace_secs e \<le> 3600 \<and>
     (\<exists>raw. stored_as compress raw e \<and> (key \<in> A \<or> guarded key raw))"

definition cache_inv :: "(bytes \<Rightarrow> bytes option) \<Rightarrow> string set \<Rightarrow> dns_cache \<Rightarrow> bool" where
  "cache_inv compress A c \<longleftrightarrow> finite (dom (cache_map c)) \<and>
     (\<forall>k e. cache_map c k = Some e \<longrightarrow> entry_ok compress A k e) \<and>
     (\<forall>k t ttl. neg_cache c k = Some (t, ttl) \<longrightarrow> 5 \<le> ttl \<and> ttl \<le> 300) \<and>
     unat (compressed_bytes c) = total (\<lambda>e. length (wire e)) (cache_map c) \<and>
     unat (uncompressed_bytes c) = total uncompressed_len (cache_map c) \<and>
     compressed_bytes c \<le> uncompressed_bytes c"

lemma entry_ok_mono: "entry_ok compress A k e \<Longrightarrow> A \<subseteq> B \<Longrightarrow> entry_ok compress B k e"
  by (auto simp: entry_ok_def)

lemma cache_inv_mono: "cache_inv compress A c \<Longrightarrow> A \<subseteq> B \<Longrightarrow> cache_inv compress B c"
  by (auto simp: cache_inv_def intro: entry_ok_mono)

lemma total_le: "(\<And>k e. m k = Some e \<Longrightarrow> f e \<le> g e) \<Longrightarrow> total f m \<le> total g m"
  unfolding total_def by (intro sum_mono) force

lemma stored_bytes_le:
  assumes "\<forall>k e. m k = Some e \<longrightarrow> entry_ok compress A k e"
  shows "total (\<lambda>e. length (wire e)) m \<le> total uncompressed_len m"
proof (rule total_le)
  fix k e assume "m k = Some e"
  with assms have "entry_ok compress A k e" by blast
  then show "length (wire e) \<le> uncompressed_len e" by (auto simp: entry_ok_def stored_as_def)
qed

text \<open>The order of the counters follows from the other conjuncts.\<close>

lemma cache_invI:
  assumes "finite (dom (cache_map c))" "\<And>k e. cache_map c k = Some e \<Longrightarrow> entry_ok compress A k e"
    "\<And>k t ttl. neg_cache c k = Some (t, ttl) \<Longrightarrow> 5 \<le> ttl \<and> ttl \<le> 300"
    "unat (compressed_bytes c) = total (\<lambda>e. length (wire e)) (cache_map c)"
    "unat (uncompressed_bytes c) = total uncompressed_len (cache_map c)"
  shows "cache_inv compress A c"
  using assms stored_bytes_le [of "cache_map c" compress A] by (auto simp: cache_inv_def word_le_nat_alt)

lemma drop_entry_simps:
  "cache_map (drop_entry k c) = (cache_map c)(k := None)" "neg_cache (drop_entry k c) = neg_cache c"
  by (auto simp: drop_entry_def split: option.split)

lemma drop_entry_counters:
  assumes "finite (dom (cache_map c))"
    "unat (compressed_bytes c) = total (\<lambda>e. length (wire e)) (cache_map c) + a"
    "unat (uncompressed_bytes c) = total uncompressed_len (cache_map c) + b"
  shows "unat (compressed_bytes (drop_entry k c)) = total (\<lambda>e. length (wire e)) ((cache_map c)(k := None)) + a \<and>
    unat (uncompressed_bytes (drop_entry k c)) = total uncompressed_len ((cache_map c)(k := None)) + b"
proof (cases "cache_map c k")
  case None
  then have "(cache_map c)(k := None) = cache_map c" by auto
  with None assms show ?thesis by (simp add: drop_entry_def)
next
  case (Some e)
  note R = total_remove [OF assms(1) Some]
  have "unat (compressed_bytes c) = total (\<lambda>e. length (wire e)) ((cache_map c)(k := None)) + length (wire e) + a"
    "unat (uncompressed_bytes c) = total uncompressed_len ((cache_map c)(k := None)) + uncompressed_len e + b"
    using R [of "\<lambda>e. length (wire e)"] R [of uncompressed_len] assms(2,3) by simp_all
  with Some show ?thesis
    by (simp add: drop_entry_def counter_sub)
qed

lemma drop_entry_inv: "cache_inv compress A c \<Longrightarrow> cache_inv compress A (drop_entry k c)"
  using drop_entry_counters [of c 0 0 k]
  by (intro cache_invI) (auto simp: cache_inv_def drop_entry_simps split: if_splits)

lemma clamp32_range: "lo \<le> hi \<Longrightarrow> lo \<le> clamp32 lo hi x \<and> clamp32 lo hi x \<le> hi"
  by (auto simp: clamp32_def not_less)

text \<open>What insertion stores.\<close>

definition store :: "(bytes \<Rightarrow> bytes option) \<Rightarrow> bytes \<Rightarrow> u32 \<Rightarrow> u32 \<Rightarrow> instant \<Rightarrow> cached_response" where
  "store compress raw ttl grace now =
     (let z = (if 128 \<le> length raw then compress raw else None) in
      \<lparr>wire = (case z of Some w \<Rightarrow> if length w < length raw then w else raw | None \<Rightarrow> raw),
       uncompressed_len = length raw,
       is_compressed = (case z of Some w \<Rightarrow> length w < length raw | None \<Rightarrow> False),
       created_at = now, original_ttl = clamp32 10 86400 ttl, stale_grace_secs = clamp32 30 3600 grace\<rparr>)"

definition put_entry :: "string \<Rightarrow> cached_response \<Rightarrow> dns_cache \<Rightarrow> dns_cache" where
  "put_entry key e c = (let c2 = drop_entry key
       (c\<lparr>compressed_bytes := compressed_bytes c + word_of_nat (length (wire e)),
          uncompressed_bytes := uncompressed_bytes c + word_of_nat (uncompressed_len e)\<rparr>)
     in c2\<lparr>cache_map := (cache_map c2)(key := Some e)\<rparr>)"

definition refuses :: "string \<Rightarrow> bytes \<Rightarrow> bool \<Rightarrow> bool" where
  "refuses name raw allowed \<longleftrightarrow> \<not> allowed \<and> \<not> is_rebind_exempt_domain name \<and> extract_rebind_ip raw \<noteq> Some None"

lemma extract_rebind_total [simp]: "extract_rebind_ip buf \<noteq> None"
proof -
  have "extract_rebind_ip buf = Some (find is_rebind_ip (addresses (answers buf)))"
    unfolding extract_rebind_ip_def by (rule with_answers_form) (simp_all add: rebind_scan_rrs)
  then show ?thesis by simp
qed

lemma insert_form:
  "insert_with_grace_allowed compress c name qt raw ttl grace allowed now =
     Some (if refuses name raw allowed then c else put_entry (make_key name qt) (store compress raw ttl grace now) c)"
proof -
  obtain r where r: "extract_rebind_ip raw = Some r" using extract_rebind_total by blast
  show ?thesis
  proof (cases "refuses name raw allowed")
    case True
    with r show ?thesis by (auto simp: insert_with_grace_allowed_def refuses_def)
  next
    case False
    then have "(if \<not> allowed \<and> \<not> is_rebind_exempt_domain name
        then extract_rebind_ip raw \<bind> (\<lambda>r. Some (r \<noteq> None)) else Some False) = Some False"
      using r by (auto simp: refuses_def)
    with False show ?thesis
      unfolding insert_with_grace_allowed_def
      by (auto simp: put_entry_def store_def Let_def split: option.splits)
  qed
qed

lemma store_ok: "refuses name raw allowed = False \<Longrightarrow>
    entry_ok compress (A \<union> (if allowed then {make_key name qt} else {})) (make_key name qt) (store compress raw ttl grace now)"
proof -
  assume r: "refuses name raw allowed = False"
  have "stored_as compress raw (store compress raw ttl grace now)"
    by (auto simp: stored_as_def store_def Let_def split: option.splits if_splits)
  moreover have "allowed \<or> guarded (make_key name qt) raw"
    using r by (auto simp: refuses_def guarded_def)
  ultimately show ?thesis
    using clamp32_range [of 10 86400 ttl] clamp32_range [of 30 3600 grace]
    unfolding entry_ok_def by (auto simp: store_def Let_def)
qed

lemma put_entry_inv:
  assumes inv: "cache_inv compress A c" and ok: "entry_ok compress A key e"
    and fit: "total uncompressed_len (cache_map c) + uncompressed_len e < 2 ^ 64"
  shows "cache_inv compress A (put_entry key e c)"
proof -
  let ?c1 = "c\<lparr>compressed_bytes := compressed_bytes c + word_of_nat (length (wire e)),
          uncompressed_bytes := uncompressed_bytes c + word_of_nat (uncompressed_len e)\<rparr>"
  from inv have fin: "finite (dom (cache_map c))" by (simp add: cache_inv_def)
  have le: "length (wire e) \<le> uncompressed_len e" using ok by (auto simp: entry_ok_def stored_as_def)
  from inv have b: "unat (compressed_bytes c) = total (\<lambda>e. length (wire e)) (cache_map c)"
    "unat (uncompressed_bytes c) = total uncompressed_len (cache_map c)"
    "unat (compressed_bytes c) \<le> unat (uncompressed_bytes c)"
    by (simp_all add: cache_inv_def word_le_nat_alt)
  with fit le have "unat (compressed_bytes ?c1) = total (\<lambda>e. length (wire e)) (cache_map ?c1) + length (wire e)"
    "unat (uncompressed_bytes ?c1) = total uncompressed_len (cache_map ?c1) + uncompressed_len e"
    by (simp_all add: counter_add)
  note D = drop_entry_counters [OF _ this, of key]
  have T: "total f ((cache_map c)(key := Some e)) = total f ((cache_map c)(key := None)) + f e" for f
    using total_insert [of "(cache_map c)(key := None)" key f e] fin by simp
  show ?thesis
  proof (rule cache_invI)
    show "unat (compressed_bytes (put_entry key e c)) = total (\<lambda>e. length (wire e)) (cache_map (put_entry key e c))"
      "unat (uncompressed_bytes (put_entry key e c)) = total uncompressed_len (cache_map (put_entry key e c))"
      using D fin T by (simp_all add: put_entry_def Let_def drop_entry_simps)
    show "entry_ok compress A k r" if "cache_map (put_entry key e c) k = Some r" for k r
      using that inv ok by (auto simp: put_entry_def Let_def drop_entry_simps cache_inv_def split: if_splits)
    show "finite (dom (cache_map (put_entry key e c)))"
      using fin by (simp add: put_entry_def Let_def drop_entry_simps)
    show "5 \<le> ttl \<and> ttl \<le> 300" if "neg_cache (put_entry key e c) k = Some (t, ttl)" for k t ttl
      using that inv by (simp add: put_entry_def Let_def drop_entry_simps cache_inv_def)
  qed
qed

section \<open>Lookup\<close>

lemma set_tx_id_Some: "\<exists>out'. set_tx_id out tx = Some out' \<and> length out' = length out"
  by (cases "length out \<ge> 2") (simp_all add: set_tx_id_def)

lemma get_with_swr_cases:
  obtains (absent) "cache_map c (make_key name qt) = None" "get_with_swr decompress c name qt tx now = Some (Miss, c)"
  | (fresh) e out out' where "cache_map c (make_key name qt) = Some e" "elapsed_secs (created_at e) now < original_ttl e"
      "set_tx_id (stored_wire decompress e) tx = Some out"
      "decrement_response_ttl out (elapsed_secs (created_at e) now) = Some out'"
      "get_with_swr decompress c name qt tx now = Some (Fresh out', c)"
  | (stale) e out out' where "cache_map c (make_key name qt) = Some e" "original_ttl e \<le> elapsed_secs (created_at e) now"
      "elapsed_secs (created_at e) now < saturating_add32 (original_ttl e) (stale_grace_secs e)"
      "set_tx_id (stored_wire decompress e) tx = Some out"
      "cap_response_ttl out 5 = Some out'"
      "get_with_swr decompress c name qt tx now = Some (Stale out', c\<lparr>swr_hits := swr_hits c + 1\<rparr>)"
  | (expired) e where "cache_map c (make_key name qt) = Some e" "original_ttl e \<le> elapsed_secs (created_at e) now"
      "saturating_add32 (original_ttl e) (stale_grace_secs e) \<le> elapsed_secs (created_at e) now"
      "get_with_swr decompress c name qt tx now = Some (Miss, drop_entry (make_key name qt) c)"
proof (cases "cache_map c (make_key name qt)")
  case None
  then show thesis by (intro absent) (simp_all add: get_with_swr_def)
next
  case (Some e)
  let ?s = "elapsed_secs (created_at e) now"
  from set_tx_id_Some obtain out where out: "set_tx_id (stored_wire decompress e) tx = Some out" by blast
  from rewriters_frame [of out 5 ?s] obtain a b
    where ab: "decrement_response_ttl out ?s = Some a" "cap_response_ttl out 5 = Some b" by blast
  consider "?s < original_ttl e" | "original_ttl e \<le> ?s" "?s < saturating_add32 (original_ttl e) (stale_grace_secs e)"
    | "original_ttl e \<le> ?s" "saturating_add32 (original_ttl e) (stale_grace_secs e) \<le> ?s" by (meson not_le)
  then show thesis
  proof cases
    case 1
    with Some out ab show ?thesis by (intro fresh [of e out a]) (simp_all add: get_with_swr_def)
  next
    case 2
    with Some out ab show ?thesis by (intro stale [of e out b]) (simp_all add: get_with_swr_def Let_def not_less)
  next
    case 3
    with Some show ?thesis by (intro expired [of e]) (simp_all add: get_with_swr_def Let_def leD)
  qed
qed

lemma invalidate_negative_qtype_inv: "cache_inv compress A c \<Longrightarrow> cache_inv compress A (invalidate_negative_qtype c name qt)"
  by (simp add: cache_inv_def invalidate_negative_qtype_def)

lemma invalidate_negative_inv: "cache_inv compress A c \<Longrightarrow> cache_inv compress A (invalidate_negative c name)"
proof -
  have "cache_inv compress A (fold (\<lambda>qt c. invalidate_negative_qtype c n qt) qts c)"
    if "cache_inv compress A c" for qts n c
    using that by (induction qts arbitrary: c) (simp_all add: invalidate_negative_qtype_inv)
  then show "cache_inv compress A c \<Longrightarrow> ?thesis" by (simp add: invalidate_negative_def)
qed

lemma cache_run_inv:
  assumes inv: "cache_inv compress A c" and run: "cache_run compress decompress op c = Some c'"
    and fit: "total uncompressed_len (cache_map c) + added_bytes op < 2 ^ 64"
  shows "cache_inv compress (A \<union> allowed_key op) c'"
proof (cases op)
  case (Insert name qt raw ttl grace allowed now)
  note inv' = cache_inv_mono [OF inv, of "A \<union> allowed_key op"]
  show ?thesis
  proof (cases "refuses name raw allowed")
    case True
    with run Insert inv' show ?thesis by (simp add: insert_form)
  next
    case False
    then have "c' = put_entry (make_key name qt) (store compress raw ttl grace now) c"
      using run Insert by (simp add: insert_form)
    moreover have "entry_ok compress (A \<union> allowed_key op) (make_key name qt) (store compress raw ttl grace now)"
      using store_ok [of name raw allowed] False unfolding Insert allowed_key.simps by simp
    moreover have "uncompressed_len (store compress raw ttl grace now) = length raw"
      by (simp add: store_def Let_def)
    ultimately show ?thesis
      using put_entry_inv [OF inv' _, of "make_key name qt" "store compress raw ttl grace now"] fit Insert by simp
  qed
next
  case (Look_Up name qt tx now)
  show ?thesis
    by (cases rule: get_with_swr_cases [of c name qt decompress tx now])
      (use run Look_Up inv drop_entry_inv [OF inv] in \<open>auto simp: cache_inv_def\<close>)
next
  case (Look_Up_Neg name qt now)
  with run inv show ?thesis
    by (auto simp: cache_inv_def get_negative_def Let_def split: option.splits if_splits)
next
  case (Insert_Neg name qt ttl now)
  with run inv clamp32_range [of 5 300 ttl] show ?thesis
    by (auto simp: cache_inv_def insert_negative_def split: if_splits)
next
  case (Invalidate_Neg name)
  with run have "c' = invalidate_negative c name" by simp
  with invalidate_negative_inv [OF inv] Invalidate_Neg show ?thesis by simp
next
  case (Invalidate name qt)
  with run drop_entry_inv [OF inv, of "make_key name qt"] show ?thesis by (auto simp: invalidate_def)
next
  case (Evict key)
  with run drop_entry_inv [OF inv, of key] show ?thesis by auto
next
  case Clear
  with run have "c' = clear_cache c" by simp
  then show ?thesis by (simp add: cache_inv_def clear_cache_def)
next
  case (Invalidate_Neg_Type name qt)
  with run have "c' = invalidate_negative_qtype c name qt" by simp
  with invalidate_negative_qtype_inv [OF inv] Invalidate_Neg_Type show ?thesis by simp
next
  case (Evict_Neg key)
  with run have "c' = c\<lparr>neg_cache := (neg_cache c)(key := None)\<rparr>" by simp
  with inv Evict_Neg show ?thesis by (simp add: cache_inv_def)
qed

lemma reached_inv: "reached compress decompress A c \<Longrightarrow> cache_inv compress A c"
proof (induction rule: reached.induct)
  case (start capacity)
  show ?case by (simp add: cache_inv_def new_cache_def)
next
  case (step A c op c')
  then show ?case by (simp add: cache_run_inv)
qed

section \<open>Keys\<close>

abbreviation same_name :: "string \<Rightarrow> string \<Rightarrow> bool" where
  "same_name d d' \<equiv> to_ascii_lowercase (trim_end_char CHR ''.'' d) = to_ascii_lowercase (trim_end_char CHR ''.'' d')"

text \<open>The last colon separates the name from the type.\<close>

lemma no_colon: "CHR '':'' \<notin> set (decimal n)"
  using decimal_digits [of "CHR '':''" n] by (auto simp: is_digit_code_def code_def)

lemma append_sep_inject:
  assumes "a @ s # x = b @ s # y" "s \<notin> set x" "s \<notin> set y"
  shows "a = b \<and> x = y"
  using assms by (auto simp: append_eq_append_conv2 append_eq_Cons_conv Cons_eq_append_conv)

lemma make_key_eq: "make_key d q = make_key d' q' \<longleftrightarrow> same_name d d' \<and> q = q'"
proof
  assume "make_key d q = make_key d' q'"
  then have "to_ascii_lowercase (trim_end_char CHR ''.'' d) @ CHR '':'' # decimal (unat q) =
      to_ascii_lowercase (trim_end_char CHR ''.'' d') @ CHR '':'' # decimal (unat q')"
    by (simp add: make_key_def)
  then have "to_ascii_lowercase (trim_end_char CHR ''.'' d) = to_ascii_lowercase (trim_end_char CHR ''.'' d') \<and>
      decimal (unat q) = decimal (unat q')"
    by (rule append_sep_inject [OF _ no_colon no_colon])
  then show "same_name d d' \<and> q = q'" by (simp add: decimal_inject word_unat_eq_iff)
qed (simp add: make_key_def)

lemma exempt_same: "same_name d d' \<Longrightarrow> is_rebind_exempt_domain d = is_rebind_exempt_domain d'"
  by (simp add: is_rebind_exempt_domain_def Let_def)

lemma guarded_key: "guarded (make_key name qt) raw \<longleftrightarrow> extract_rebind_ip raw = Some None \<or> is_rebind_exempt_domain name"
  unfolding guarded_def make_key_eq by (auto dest: exempt_same)

section \<open>Setting the transaction id keeps the records\<close>

lemma set_tx_id_form: "2 \<le> length out \<Longrightarrow> set_tx_id out tx = Some (to_be16 tx @ drop 2 out)"
  by (simp add: set_tx_id_def numeral_2_eq_2)

lemma tx_id_same:
  fixes buf :: bytes and tx :: u16
  assumes len: "2 \<le> length buf"
  defines "out \<equiv> to_be16 tx @ drop 2 buf"
  shows "length out = length buf" "same_between out buf 2 (length buf)" "take 2 out = to_be16 tx"
proof -
  have "Suc (Suc (i - 2)) = i" if "2 \<le> i" for i using that by arith
  with len show "length out = length buf" "same_between out buf 2 (length buf)" "take 2 out = to_be16 tx"
    by (auto simp: out_def same_between_def nth_append)
qed

lemma tx_id_complete:
  fixes buf :: bytes and tx :: u16
  assumes c: "complete buf"
  defines "out \<equiv> to_be16 tx @ drop 2 buf"
  shows "complete out \<and> message_records out = message_records buf \<and> get16 out 6 = get16 buf 6"
proof -
  from complete_walk [OF c] obtain q where len: "12 \<le> length buf" "12 \<le> q" "q \<le> length buf"
    and q: "walk question_step (unat (get16 buf 4)) buf 12 = Some (Some q)"
    and w: "walk record_step (unat (get16 buf 6) + unat (get16 buf 8) + unat (get16 buf 10)) buf q = Some (Some (length buf))"
    by metis
  have "2 \<le> length buf" using len by simp
  from tx_id_same [OF this, of tx] have lo: "length out = length buf"
    and sb: "same_between out buf 2 (length buf)" unfolding out_def by blast+
  have g: "get16 out i = get16 buf i" if "2 \<le> i" "i + 1 < length buf" for i
    using get16_same [OF sb] that by simp
  have q': "walk question_step (unat (get16 buf 4)) out 12 = Some (Some q)"
    using questions.walk_local [OF q] same_between_sub [OF sb, of 12 q] len by simp
  have sq: "same_between out buf q (length buf)" using same_between_sub [OF sb] len by simp
  note w' = records.walk_local [OF w sq] and r' = rrs_local [OF w sq]
  have "complete out"
    using q' w' lo len g unfolding complete_def skip_to_additional_def skip_questions_def
    by (auto simp: records.walk_add [of "unat (get16 buf 6) + unat (get16 buf 8)"] split: Option.bind_splits option.splits)
  moreover have "message_records out = message_records buf"
    using q q' r' lo len g by (simp add: message_records_def skip_questions_def)
  ultimately show ?thesis using g len by simp
qed

text \<open>The answers of a complete message, and the addresses they carry after a rewrite.\<close>

lemma complete_answers:
  assumes "complete buf"
  shows "answers buf = take (unat (get16 buf 6)) (message_records buf)"
proof -
  from complete_walk [OF assms] obtain q where len: "12 \<le> length buf"
    and q: "walk question_step (unat (get16 buf 4)) buf 12 = Some (Some q)"
    and w: "walk record_step (unat (get16 buf 6) + unat (get16 buf 8) + unat (get16 buf 10)) buf q = Some (Some (length buf))"
    by metis
  let ?an = "unat (get16 buf 6)" and ?k = "unat (get16 buf 8) + unat (get16 buf 10)"
  from w obtain e where e: "walk record_step ?an buf q = Some (Some e)"
    by (auto simp: records.walk_add [of ?an ?k, unfolded add.assoc [symmetric]] split: Option.bind_splits option.splits)
  have "message_records buf = rrs (?an + ?k) buf q"
    using q len by (simp add: message_records_def skip_questions_def add.assoc)
  with rrs_add [OF e] rrs_length [OF e] q len show ?thesis
    by (simp add: answers_def skip_questions_def)
qed

lemma addresses_retimed [simp]: "addresses (map (aged e) rs) = addresses rs" "addresses (map (capped m) rs) = addresses rs"
proof -
  have "rr_address (aged e r) = rr_address r" "rr_address (capped m r) = rr_address r" for r
    by (simp_all add: rr_address_def aged_def capped_def rr_v4_def)
  then show "addresses (map (aged e) rs) = addresses rs" "addresses (map (capped m) rs) = addresses rs"
    by (induction rs) (simp_all split: option.split)
qed

lemma extract_rebind_form: "extract_rebind_ip buf = Some (find is_rebind_ip (addresses (answers buf)))"
  unfolding extract_rebind_ip_def by (rule with_answers_form) (simp_all add: rebind_scan_rrs)

section \<open>Serving a stored message\<close>

definition zstd_round_trip :: "(bytes \<Rightarrow> bytes option) \<Rightarrow> (bytes \<Rightarrow> nat \<Rightarrow> bytes option) \<Rightarrow> bool" where
  "zstd_round_trip compress decompress \<longleftrightarrow>
     (\<forall>raw z. compress raw = Some z \<longrightarrow> decompress z (length raw) = Some raw)"

lemma stored_wire_raw: "zstd_round_trip compress decompress \<Longrightarrow> stored_as compress raw e \<Longrightarrow> stored_wire decompress e = raw"
  by (auto simp: zstd_round_trip_def stored_as_def stored_wire_def split: if_splits)

lemma served_fresh:
  assumes "complete raw" "set_tx_id raw tx = Some out" "decrement_response_ttl out s = Some out'"
  shows "complete out' \<and> length out' = length raw \<and> take 2 out' = to_be16 tx \<and> get16 out' 6 = get16 raw 6 \<and>
    message_records out' = map (if s = 0 then id else aged s) (message_records raw)"
proof -
  have len: "12 \<le> length raw" using assms(1) by (simp add: complete_def)
  then have out: "out = to_be16 tx @ drop 2 raw" using assms(2) by (simp add: set_tx_id_form)
  note tx = tx_id_complete [OF assms(1), of tx, folded out] and L = tx_id_same [of raw tx, folded out]
  from ttl_rewritten_fresh [of out s] tx assms(3) have T: "length out' = length out" "take 12 out' = take 12 out"
    "complete out'" "message_records out' = map (if s = 0 then id else aged s) (message_records out)" by simp_all
  have "take 2 out' = take 2 out" using arg_cong [OF T(2), of "take 2"] by simp
  moreover have "get16 out' 6 = get16 out 6" 
    using get16_same [OF same_between_take [OF T(2)], of 0 6] len L(1) by simp
  ultimately show ?thesis using T tx L len by simp
qed

lemma served_stale:
  assumes "complete raw" "set_tx_id raw tx = Some out" "cap_response_ttl out m = Some out'"
  shows "complete out' \<and> length out' = length raw \<and> take 2 out' = to_be16 tx \<and> get16 out' 6 = get16 raw 6 \<and>
    message_records out' = map (capped m) (take (unat (get16 raw 6)) (message_records raw)) @
      drop (unat (get16 raw 6)) (message_records raw)"
proof -
  have len: "12 \<le> length raw" using assms(1) by (simp add: complete_def)
  then have out: "out = to_be16 tx @ drop 2 raw" using assms(2) by (simp add: set_tx_id_form)
  note tx = tx_id_complete [OF assms(1), of tx, folded out] and L = tx_id_same [of raw tx, folded out]
  from ttl_rewritten_stale [of out m] tx assms(3) have T: "length out' = length out" "take 12 out' = take 12 out"
    "complete out'" "message_records out' = map (capped m) (take (unat (get16 raw 6)) (message_records raw)) @
      drop (unat (get16 raw 6)) (message_records raw)" by simp_all
  have "take 2 out' = take 2 out" using arg_cong [OF T(2), of "take 2"] by simp
  moreover have "get16 out' 6 = get16 out 6" 
    using get16_same [OF same_between_take [OF T(2)], of 0 6] len L(1) by simp
  ultimately show ?thesis using T tx L len by simp
qed

section \<open>Properties\<close>

text \<open>
  Two questions share an entry exactly when they have the same type and their names are
  equal up to the case of ASCII letters and trailing dots, and the guard's exemption looks at
  that normal form of a name only.
\<close>

theorem cache_key_spec:
  "(make_key d q = make_key d' q' \<longleftrightarrow>
      to_ascii_lowercase (trim_end_char CHR ''.'' d) = to_ascii_lowercase (trim_end_char CHR ''.'' d') \<and> q = q') \<and>
   is_rebind_exempt_domain d = is_rebind_exempt_domain (to_ascii_lowercase (trim_end_char CHR ''.'' d))"
  using make_key_eq [of d q d' q'] by (simp add: is_rebind_exempt_domain_def Let_def trim_end_char_lower)


lemma reached_sample:
  "reached (\<lambda>raw. None) (\<lambda>z n. None) {} (put_entry (make_key ''a'' 1) (store (\<lambda>raw. None) [7] 0 0 5) (new_cache 9))"
proof -
  have r: "\<not> refuses ''a'' [7] False"
    by (simp add: refuses_def extract_rebind_form answers_def)
  have "reached (\<lambda>raw. None) (\<lambda>z n. None) ({} \<union> allowed_key (Insert ''a'' 1 [7] 0 0 False 5))
    (put_entry (make_key ''a'' 1) (store (\<lambda>raw. None) [7] 0 0 5) (new_cache 9))"
    by (rule reached.step [OF reached.start]) (simp_all add: insert_form r new_cache_def)
  then show ?thesis by simp
qed


lemma store_stored: "stored_as compress raw (store compress raw ttl grace now)"
  by (auto simp: stored_as_def store_def Let_def split: option.splits if_splits)

lemma store_simps: "created_at (store compress raw ttl grace now) = now"
  "original_ttl (store compress raw ttl grace now) = clamp32 10 86400 ttl"
  "stale_grace_secs (store compress raw ttl grace now) = clamp32 30 3600 grace"
  by (simp_all add: store_def Let_def)

lemma deadline_no_overflow:
  "unat (saturating_add32 (clamp32 10 86400 ttl) (clamp32 30 3600 grace)) =
   unat (clamp32 10 86400 ttl) + unat (clamp32 30 3600 grace)"
proof -
  have "unat (clamp32 10 86400 ttl) \<le> 86400" "unat (clamp32 30 3600 grace) \<le> 3600"
    using clamp32_range [of 10 86400 ttl] clamp32_range [of 30 3600 grace] by (simp_all add: word_le_nat_alt)
  then show ?thesis by (simp add: saturating_add32_def unat_word_ariths)
qed

lemma elapsed_unat: "(now - t0) div 1000000000 < 2 ^ 32 \<Longrightarrow> unat (elapsed_secs t0 now) = (now - t0) div 1000000000"
  by (simp add: elapsed_secs_def unsigned_of_nat take_bit_eq_mod)


definition sample_answer :: bytes where
  "sample_answer = [0, 7, 0x81, 0x80, 0, 0, 0, 1, 0, 0, 0, 0] @ [0, 0, 1, 0, 1, 0, 0, 0, 60, 0, 4, 192, 0, 3, 1]"

lemma sample_answer_facts: "complete sample_answer" "map rr_ttl (map (aged 20) (message_records sample_answer)) = [40]"
  "\<not> refuses name sample_answer True"
proof -
  show "complete sample_answer" by code_simp
  show "map rr_ttl (map (aged 20) (message_records sample_answer)) = [40]" by code_simp
qed (simp add: refuses_def)




lemma fold_drop_neg:
  "neg_cache (fold (\<lambda>qt c. invalidate_negative_qtype c n qt) qts c) (make_key d q) =
     (if same_name d n \<and> q \<in> set qts then None else neg_cache c (make_key d q))"
  by (induction qts arbitrary: c) (auto simp: invalidate_negative_qtype_def make_key_eq)

text \<open>
  A negative answer inserted for a name is reported for every spelling of it for as many
  whole seconds as its clamped lifetime, the last one included, and for no other key;
  \<open>invalidate_negative\<close> removes it for exactly the thirteen listed types.
\<close>

theorem negative_cache_spec:
  assumes "(now - t0) div 1000000000 < 2 ^ 32"
  shows "(fst (get_negative (insert_negative c name qt ttl t0) d q now) \<longleftrightarrow>
      (if make_key d q = make_key name qt then (now - t0) div 1000000000 \<le> unat (clamp32 5 300 ttl)
       else fst (get_negative c d q now))) \<and>
    (fst (get_negative (invalidate_negative c name) d q now) \<longleftrightarrow>
      \<not> (make_key d q = make_key name q \<and> q \<in> set [1, 2, 5, 6, 12, 15, 16, 28, 33, 64, 65, 255, 257]) \<and>
      fst (get_negative c d q now))"
proof
  have "unat (elapsed_secs t0 now) = (now - t0) div 1000000000" using elapsed_unat [OF assms] .
  then show "fst (get_negative (insert_negative c name qt ttl t0) d q now) \<longleftrightarrow>
      (if make_key d q = make_key name qt then (now - t0) div 1000000000 \<le> unat (clamp32 5 300 ttl)
       else fst (get_negative c d q now))"
    by (simp add: get_negative_def insert_negative_def Let_def word_le_nat_alt split: option.split prod.split)
next
  have n: "neg_cache (invalidate_negative c name) (make_key d q) =
    (if same_name d name \<and> q \<in> set neg_qtypes then None else neg_cache c (make_key d q))"
    unfolding invalidate_negative_def Let_def fold_drop_neg by simp
  then have "fst (get_negative (invalidate_negative c name) d q now) \<longleftrightarrow>
      \<not> (same_name d name \<and> q \<in> set neg_qtypes) \<and> fst (get_negative c d q now)"
    by (simp add: get_negative_def Let_def split: option.split prod.split)
  then show "fst (get_negative (invalidate_negative c name) d q now) \<longleftrightarrow>
      \<not> (make_key d q = make_key name q \<and> q \<in> set [1, 2, 5, 6, 12, 15, 16, 28, 33, 64, 65, 255, 257]) \<and>
      fst (get_negative c d q now)"
    unfolding make_key_eq neg_qtypes_def by blast
qed

theorem negative_cache_spec_witness:
  "fst (get_negative (insert_negative (new_cache 9) ''a.b'' 28 1000 0) ''A.B.'' 28 300000000000)"
proof -
  have k: "make_key ''A.B.'' 28 = make_key ''a.b'' 28" by code_simp
  have t: "unat (clamp32 5 300 1000) = 300" by code_simp
  show ?thesis
    using negative_cache_spec [of 300000000000 0 "new_cache 9" "''a.b''" 28 1000 "''A.B.''" 28] k t by simp
qed

end
