(* ===== verification/Bloom.thy ===== *)
theory Bloom
  imports Dns_Name
begin

text \<open>
  The Bloom filter of the threat feed and the whitelist, \<open>src/security/bloom.rs\<close>: construction,
  the two streaming hashes, insertion, and the lookups on byte strings and on names inside a DNS
  message. \<open>get_unchecked\<close> and its debug assertion are a \<open>panic\<close> here when the index is out of
  range. The floating point sizing of \<open>with_capacity\<close> enters through its two results.

  The interface \<open>approximate_set\<close> states what a filter promises: an element once inserted, under
  any spelling, is found for ever. The lemmas discharge it for the filter, show that the
  unchecked accesses stay in range, and that the lookups on a message are the lookups of the
  decoded names.
\<close>

section \<open>Sizes\<close>

type_synonym usize = "64 word"

record bloom_filter =
  words :: "u64 list"
  num_hashes :: u32
  bit_mask :: usize
  item_count :: usize

function double_until :: "nat \<Rightarrow> nat \<Rightarrow> nat" where
  "double_until n p = (if n \<le> p \<or> p = 0 then p else double_until n (2 * p))"
  by pat_completeness auto
termination by (relation "measure (\<lambda>(n, p). n - p)") auto

declare double_until.simps [simp del]

text \<open>\<open>usize::next_power_of_two\<close>, which panics when the result does not fit.\<close>

definition next_power_of_two :: "nat \<Rightarrow> nat rust" where
  "next_power_of_two n = (if n \<le> 2 ^ 63 then ret (double_until n 1) else panic)"

definition clamp_nat :: "nat \<Rightarrow> nat \<Rightarrow> nat \<Rightarrow> nat" where
  "clamp_nat lo hi x = (if x < lo then lo else if x > hi then hi else x)"

definition empty_filter :: "nat \<Rightarrow> nat \<Rightarrow> bloom_filter" where
  "empty_filter bits k = \<lparr>words = replicate (bits div 64) 0, num_hashes = word_of_nat k,
     bit_mask = word_of_nat (bits - 1), item_count = 0\<rparr>"

definition with_capacity :: "nat \<Rightarrow> nat \<Rightarrow> bloom_filter rust" where
  "with_capacity m_ideal k_ideal = do {
     bits \<leftarrow> next_power_of_two (max m_ideal 512);
     let k = clamp_nat 3 20 k_ideal;
     ret (empty_filter bits k) }"

text \<open>\<open>env\<close> is the value of \<open>BLOOM_THREAT_SIZE_MB\<close>, parsed by \<open>parse_usize\<close>.\<close>

fun digits_value :: "nat \<Rightarrow> string \<Rightarrow> nat option" where
  "digits_value acc [] = Some acc"
| "digits_value acc (c # cs) = (if is_digit_code (code c) then digits_value (10 * acc + (code c - 48)) cs else None)"

definition parse_usize :: "string \<Rightarrow> nat option" where
  "parse_usize s = (let ds = (case s of [] \<Rightarrow> [] | c # cs \<Rightarrow> if c = CHR ''+'' then cs else s) in
     if ds = [] then None
     else case digits_value 0 ds of Some n \<Rightarrow> if n < 2 ^ 64 then Some n else None | None \<Rightarrow> None)"

definition for_threat_feed :: "string option \<Rightarrow> bloom_filter rust" where
  "for_threat_feed env = do {
     bits \<leftarrow> (case env of
         Some val \<Rightarrow> (let mb = clamp_nat 4 256 (unwrap_or 16 (parse_usize (trim val)))
                     in next_power_of_two (mb * 1024 * 1024 * 8))
       | None \<Rightarrow> ret 134217728);
     let k = (if bits \<ge> 134217728 then 18 else 12);
     ret (empty_filter bits k) }"

definition for_whitelist :: bloom_filter where
  "for_whitelist = empty_filter 1048576 9"

section \<open>Hashes\<close>

definition splitmix64 :: "u64 \<Rightarrow> u64" where
  "splitmix64 x = (
     let x = (x XOR drop_bit 30 x) * 0xbf58476d1ce4e5b9;
         x = (x XOR drop_bit 27 x) * 0x94d049bb133111eb
     in x XOR drop_bit 31 x)"

definition hash_byte :: "u64 \<times> u64 \<Rightarrow> u8 \<Rightarrow> u64 \<times> u64" where
  "hash_byte = (\<lambda>(h1, h2) b. let lower = ucast (lower_u8 b) in
     ((h1 XOR lower) * 0x100000001b3, word_rotl 13 ((h2 XOR lower) * 0x9e3779b97f4a7c15)))"

definition hash_seed :: "u64 \<times> u64" where
  "hash_seed = (0xcbf29ce484222325, 0x517cc1b727220a95)"

definition hash_finish :: "u64 \<times> u64 \<Rightarrow> u64 \<times> u64" where
  "hash_finish = (\<lambda>(h1, h2). (splitmix64 h1, splitmix64 h2 OR 1))"

definition dual_hash_bytes :: "bytes \<Rightarrow> u64 \<times> u64" where
  "dual_hash_bytes bs = hash_finish (foldl hash_byte hash_seed bs)"

section \<open>Cleaning a domain\<close>

definition ascii_whitespace :: "u8 \<Rightarrow> bool" where
  "ascii_whitespace b \<longleftrightarrow> b \<in> {9, 10, 12, 13, 32}"

definition clean_domain_bytes :: "bytes \<Rightarrow> bytes" where
  "clean_domain_bytes bs = rev (dropWhile (\<lambda>b. ascii_whitespace b \<or> b = 46) (rev (dropWhile ascii_whitespace bs)))"

section \<open>Insertion and lookup\<close>

definition bit_index :: "u64 \<times> u64 \<Rightarrow> usize \<Rightarrow> nat \<Rightarrow> usize" where
  "bit_index = (\<lambda>(h1, h2) msk i. (h1 + word_of_nat i * h2) AND msk)"

definition set_probe :: "u64 \<times> u64 \<Rightarrow> usize \<Rightarrow> u64 list \<Rightarrow> nat \<Rightarrow> u64 list rust" where
  "set_probe h msk ws i = (
     let bit_idx = bit_index h msk i;
         word_idx = unat (drop_bit 6 bit_idx);
         bit_pos = unat (bit_idx AND 63)
     in if word_idx < length ws then ret (ws[word_idx := ws ! word_idx OR push_bit bit_pos 1]) else panic)"

fun set_probes :: "u64 \<times> u64 \<Rightarrow> usize \<Rightarrow> nat list \<Rightarrow> u64 list \<Rightarrow> u64 list rust" where
  "set_probes h msk [] ws = ret ws"
| "set_probes h msk (i # js) ws = do { ws' \<leftarrow> set_probe h msk ws i; set_probes h msk js ws' }"

definition insert_bytes :: "bytes \<Rightarrow> bloom_filter \<Rightarrow> bloom_filter rust" where
  "insert_bytes key f = (
     let clean = clean_domain_bytes key in
     if clean = [] then ret f
     else do {
       let h = dual_hash_bytes clean;
       ws \<leftarrow> set_probes h (bit_mask f) [0..<unat (num_hashes f)] (words f);
       ret (f\<lparr>words := ws, item_count := item_count f + 1\<rparr>) })"

fun test_probes :: "u64 \<times> u64 \<Rightarrow> usize \<Rightarrow> u64 list \<Rightarrow> nat list \<Rightarrow> bool rust" where
  "test_probes h msk ws [] = ret True"
| "test_probes h msk ws (i # js) = (
     let bit_idx = bit_index h msk i;
         word_idx = unat (drop_bit 6 bit_idx);
         bit_pos = unat (bit_idx AND 63)
     in if word_idx < length ws
        then (if ws ! word_idx AND push_bit bit_pos 1 = 0 then ret False else test_probes h msk ws js)
        else panic)"

definition probe :: "bloom_filter \<Rightarrow> u64 \<times> u64 \<Rightarrow> bool rust" where
  "probe f h = test_probes h (bit_mask f) (words f) [0..<unat (num_hashes f)]"

definition contains_bytes :: "bloom_filter \<Rightarrow> bytes \<Rightarrow> bool rust" where
  "contains_bytes f key = (
     let clean = clean_domain_bytes key in
     if clean = [] then ret False else probe f (dual_hash_bytes clean))"

definition bloom_clear :: "bloom_filter \<Rightarrow> bloom_filter" where
  "bloom_clear f = f\<lparr>words := map (\<lambda>w. 0) (words f), item_count := 0\<rparr>"

definition capacity_bits :: "bloom_filter \<Rightarrow> nat" where
  "capacity_bits f = length (words f) * 64"

section \<open>Lookup of a name in a message\<close>

text \<open>The pointer target of the two bytes at a position.\<close>

definition pointer :: "u8 \<Rightarrow> u8 \<Rightarrow> nat" where
  "pointer len low = unat (push_bit 8 (ucast (len AND 0x3f) :: u16) OR ucast low)"

text \<open>
  The loop of \<open>contains_wire\<close>: \<open>None\<close> inside the result is the early \<open>return false\<close>, and
  the result says whether no label was seen.
\<close>

function hash_wire ::
  "bytes \<Rightarrow> nat \<Rightarrow> u64 \<times> u64 \<Rightarrow> bool \<Rightarrow> nat \<Rightarrow> nat \<Rightarrow> ((u64 \<times> u64) \<times> bool) option rust" where
  "hash_wire wire offset h first total_len jumps =
    (if offset < length wire then do {
       len \<leftarrow> rd wire offset;
       if len = 0 then ret (Some (h, first))
       else if len AND 0xc0 = 0xc0 then
         (if offset + 1 \<ge> length wire then ret None
          else do {
            low \<leftarrow> rd wire (offset + 1);
            let ptr = pointer len low;
            if jumps + 1 > 16 \<or> ptr \<ge> length wire then ret None
            else hash_wire wire ptr h first total_len (jumps + 1) })
       else if len AND 0xc0 \<noteq> 0 then ret None
       else if unat len > 63 \<or> offset + 1 + unat len > length wire then ret None
       else do {
         label \<leftarrow> slice wire (offset + 1) (offset + 1 + unat len);
         let h' = (if first then h else hash_byte h 46);
         let total = (if first then total_len else total_len + 1) + unat len;
         if total > 255 then ret None
         else hash_wire wire (offset + 1 + unat len) (foldl hash_byte h' label) False total jumps } }
     else ret (Some (h, first)))"
  by pat_completeness auto
termination
  by (relation "measures [\<lambda>(wire, offset, h, first, total_len, jumps). 16 - jumps,
      \<lambda>(wire, offset, h, first, total_len, jumps). length wire - offset]") (auto simp: rd_def)

declare hash_wire.simps [simp del]

definition contains_wire :: "bloom_filter \<Rightarrow> bytes \<Rightarrow> nat \<Rightarrow> bool rust" where
  "contains_wire f wire offset =
    (if offset \<ge> length wire then ret False
     else do {
       r \<leftarrow> hash_wire wire offset hash_seed True 0 0;
       case r of None \<Rightarrow> ret False
       | Some (h, first) \<Rightarrow> if first then ret False else probe f (hash_finish h) })"

text \<open>The offsets of the first 64 labels; \<open>room\<close> counts down from 64.\<close>

function label_offsets :: "bytes \<Rightarrow> nat \<Rightarrow> nat \<Rightarrow> nat \<Rightarrow> nat list option rust" where
  "label_offsets wire scan room jumps =
    (if scan < length wire \<and> room > 0 then do {
       len \<leftarrow> rd wire scan;
       if len = 0 then ret (Some [])
       else if len AND 0xc0 = 0xc0 then
         (if scan + 1 \<ge> length wire then ret None
          else do {
            low \<leftarrow> rd wire (scan + 1);
            let ptr = pointer len low;
            if jumps + 1 > 16 \<or> ptr \<ge> length wire then ret None
            else label_offsets wire ptr room (jumps + 1) })
       else if len AND 0xc0 \<noteq> 0 then ret None
       else if unat len > 63 \<or> scan + 1 + unat len > length wire then ret None
       else do {
         r \<leftarrow> label_offsets wire (scan + 1 + unat len) (room - 1) jumps;
         ret (map_option ((#) scan) r) } }
     else ret (Some []))"
  by pat_completeness auto
termination
  by (relation "measures [\<lambda>(wire, scan, room, jumps). 16 - jumps, \<lambda>(wire, scan, room, jumps). room]") (auto simp: rd_def)

declare label_offsets.simps [simp del]

fun any_wire :: "bloom_filter \<Rightarrow> bytes \<Rightarrow> nat list \<Rightarrow> bool rust" where
  "any_wire f wire [] = ret False"
| "any_wire f wire (x # xs) = do { b \<leftarrow> contains_wire f wire x; if b then ret True else any_wire f wire xs }"

definition contains_wire_with_subdomains :: "bloom_filter \<Rightarrow> bytes \<Rightarrow> nat \<Rightarrow> bool rust" where
  "contains_wire_with_subdomains f wire offset =
    (if offset \<ge> length wire then ret False
     else do {
       r \<leftarrow> label_offsets wire offset 64 0;
       case r of None \<Rightarrow> ret False
       | Some offsets \<Rightarrow>
           let label_count = length offsets in
           if label_count = 0 then ret False
           else let check_count = (if label_count \<le> 1 then label_count else label_count - 1)
                in any_wire f wire (take check_count offsets) })"

section \<open>What an approximate set promises\<close>

primrec insert_all :: "('k \<Rightarrow> 's \<Rightarrow> 's rust) \<Rightarrow> 'k list \<Rightarrow> 's \<Rightarrow> 's rust" where
  "insert_all ins [] s = ret s"
| "insert_all ins (k # ks) s = do { s' \<leftarrow> ins k s; insert_all ins ks s' }"

locale approximate_set =
  fixes ins :: "'k \<Rightarrow> 's \<Rightarrow> 's rust"
    and mem :: "'s \<Rightarrow> 'k \<Rightarrow> bool rust"
    and inv :: "'s \<Rightarrow> bool"
    and same :: "'k \<Rightarrow> 'k \<Rightarrow> bool"
  assumes ins_total: "inv s \<Longrightarrow> \<exists>s'. ins k s = ret s' \<and> inv s'"
    and mem_total: "inv s \<Longrightarrow> mem s k \<noteq> panic"
    and mem_ins: "inv s \<Longrightarrow> ins k s = ret s' \<Longrightarrow> same k k' \<Longrightarrow> mem s' k' = ret True"
    and mem_keep: "inv s \<Longrightarrow> ins k s = ret s' \<Longrightarrow> mem s k' = ret True \<Longrightarrow> mem s' k' = ret True"
begin

lemma insert_all_total: "inv s \<Longrightarrow> \<exists>s'. insert_all ins ks s = ret s' \<and> inv s'"
proof (induction ks arbitrary: s)
  case (Cons k ks)
  from ins_total [OF Cons.prems, of k] obtain s1 where "ins k s = ret s1" "inv s1" by blast
  with Cons.IH [of s1] show ?case by simp
qed simp

lemma insert_all_keep: "inv s \<Longrightarrow> insert_all ins ks s = ret s' \<Longrightarrow> mem s k = ret True \<Longrightarrow> mem s' k = ret True"
proof (induction ks arbitrary: s)
  case (Cons j ks)
  from ins_total [OF Cons.prems(1), of j] obtain s1 where "ins j s = ret s1" "inv s1" by blast
  with Cons.IH [of s1] Cons.prems mem_keep [of s j s1 k] show ?case by simp
qed simp

lemma insert_all_finds: "inv s \<Longrightarrow> insert_all ins ks s = ret s' \<Longrightarrow> k \<in> set ks \<Longrightarrow> same k k' \<Longrightarrow> mem s' k' = ret True"
proof (induction ks arbitrary: s)
  case (Cons j ks)
  from ins_total [OF Cons.prems(1), of j] obtain s1 where s1: "ins j s = ret s1" "inv s1" by blast
  with Cons.prems(2) have rest: "insert_all ins ks s1 = ret s'" by simp
  show ?case
  proof (cases "k = j")
    case True
    with mem_ins [OF Cons.prems(1)] s1 Cons.prems(4) have "mem s1 k' = ret True" by blast
    then show ?thesis by (rule insert_all_keep [OF s1(2) rest])
  next
    case False
    with Cons.IH [OF s1(2) rest] Cons.prems(3,4) show ?thesis by simp
  qed
qed simp

end

section \<open>The filter keeps that promise\<close>

text \<open>Every masked index falls into the bit set.\<close>

definition bloom_ok :: "bloom_filter \<Rightarrow> bool" where
  "bloom_ok f \<longleftrightarrow> unat (bit_mask f) < 64 * length (words f)"

definition word_index :: "u64 \<times> u64 \<Rightarrow> usize \<Rightarrow> nat \<Rightarrow> nat" where
  "word_index h msk i = unat (drop_bit 6 (bit_index h msk i))"

definition bit_position :: "u64 \<times> u64 \<Rightarrow> usize \<Rightarrow> nat \<Rightarrow> nat" where
  "bit_position h msk i = unat (bit_index h msk i AND 63)"

lemma word_index_less: "unat msk < 64 * n \<Longrightarrow> word_index h msk i < n"
proof -
  assume m: "unat msk < 64 * n"
  have "bit_index h msk i \<le> msk" by (simp add: bit_index_def word_and_le1 split: prod.split)
  then have "unat (bit_index h msk i) \<le> unat msk" by (simp add: word_le_nat_alt)
  moreover have "word_index h msk i = unat (bit_index h msk i) div 64"
    by (simp add: word_index_def drop_bit_eq_div unat_div)
  ultimately show ?thesis using m by (simp add: less_mult_imp_div_less)
qed

lemma bit_position_less: "bit_position h msk i < 64"
proof -
  have "bit_index h msk i AND 63 \<le> 63" by (rule word_and_le1)
  then show ?thesis by (simp add: bit_position_def word_le_nat_alt)
qed

definition covers :: "u64 \<times> u64 \<Rightarrow> usize \<Rightarrow> nat list \<Rightarrow> u64 list \<Rightarrow> bool" where
  "covers h msk js ws \<longleftrightarrow> (\<forall>i\<in>set js. bit (ws ! word_index h msk i) (bit_position h msk i))"

lemma test_probes_covers: "unat msk < 64 * length ws \<Longrightarrow> test_probes h msk ws js = Some (covers h msk js ws)"
proof (induction js)
  case (Cons i js)
  have "ws ! word_index h msk i AND push_bit (bit_position h msk i) 1 = 0 \<longleftrightarrow>
      \<not> bit (ws ! word_index h msk i) (bit_position h msk i)"
    by (simp add: bit_iff_and_push_bit_not_eq_0)
  with Cons word_index_less [OF Cons.prems, of h i] show ?case
    by (simp add: Let_def covers_def word_index_def bit_position_def)
qed (simp add: covers_def)

definition grows :: "u64 list \<Rightarrow> u64 list \<Rightarrow> bool" where
  "grows ws ws' \<longleftrightarrow> length ws' = length ws \<and> (\<forall>w < length ws. \<forall>p. bit (ws ! w) p \<longrightarrow> bit (ws' ! w) p)"

lemma grows_covers: "grows ws ws' \<Longrightarrow> unat msk < 64 * length ws \<Longrightarrow> covers h msk js ws \<Longrightarrow> covers h msk js ws'"
  by (auto simp: grows_def covers_def word_index_less)

lemma set_probe_grows:
  assumes "unat msk < 64 * length ws"
  shows "\<exists>ws'. set_probe h msk ws i = Some ws' \<and> grows ws ws' \<and> covers h msk [i] ws'"
proof -
  let ?w = "word_index h msk i" and ?p = "bit_position h msk i"
  let ?ws = "ws[?w := ws ! ?w OR push_bit ?p 1]"
  note w = word_index_less [OF assms, of h i]
  have "set_probe h msk ws i = Some ?ws"
    using w by (simp add: set_probe_def Let_def word_index_def bit_position_def)
  moreover have "grows ws ?ws"
    using w by (auto simp: grows_def nth_list_update bit_or_iff)
  moreover have "covers h msk [i] ?ws"
    using w bit_position_less [of h msk i] by (simp add: covers_def bit_simps)
  ultimately show ?thesis by blast
qed

lemma set_probes_grows:
  "unat msk < 64 * length ws \<Longrightarrow> \<exists>ws'. set_probes h msk js ws = Some ws' \<and> grows ws ws' \<and> covers h msk js ws'"
proof (induction js arbitrary: ws)
  case (Cons i js)
  from set_probe_grows [OF Cons.prems] obtain a where a: "set_probe h msk ws i = Some a" "grows ws a" "covers h msk [i] a"
    by blast
  then have la: "unat msk < 64 * length a" using Cons.prems by (simp add: grows_def)
  from Cons.IH [OF la] obtain b where b: "set_probes h msk js a = Some b" "grows a b" "covers h msk js b" by blast
  have "covers h msk [i] b" using grows_covers [OF b(2) la a(3)] .
  with b(3) have "covers h msk (i # js) b" by (simp add: covers_def)
  moreover have "grows ws b" using a(2) b(2) by (simp add: grows_def)
  ultimately show ?case using a(1) b(1) by simp
qed (simp add: grows_def covers_def)

definition same_domain :: "bytes \<Rightarrow> bytes \<Rightarrow> bool" where
  "same_domain k k' \<longleftrightarrow> clean_domain_bytes k \<noteq> [] \<and>
     map lower_u8 (clean_domain_bytes k) = map lower_u8 (clean_domain_bytes k')"

lemma dual_hash_lower: "map lower_u8 a = map lower_u8 b \<Longrightarrow> dual_hash_bytes a = dual_hash_bytes b"
proof -
  have "foldl hash_byte s a = foldl (\<lambda>(h1, h2) l. ((h1 XOR ucast l) * 0x100000001b3,
      word_rotl 13 ((h2 XOR ucast l) * 0x9e3779b97f4a7c15))) s (map lower_u8 a)" for s a
    by (induction a arbitrary: s) (simp_all add: hash_byte_def Let_def split: prod.split)
  then show "map lower_u8 a = map lower_u8 b \<Longrightarrow> ?thesis" by (simp add: dual_hash_bytes_def)
qed

lemma insert_bytes_form:
  assumes "bloom_ok f"
  obtains (blank) "clean_domain_bytes key = []" "insert_bytes key f = Some f"
  | (put) ws where "clean_domain_bytes key \<noteq> []" "insert_bytes key f = Some (f\<lparr>words := ws, item_count := item_count f + 1\<rparr>)"
    "grows (words f) ws" "covers (dual_hash_bytes (clean_domain_bytes key)) (bit_mask f) [0..<unat (num_hashes f)] ws"
proof (cases "clean_domain_bytes key = []")
  case True
  then show thesis by (intro blank) (simp_all add: insert_bytes_def)
next
  case False
  from set_probes_grows assms obtain ws where
    "set_probes (dual_hash_bytes (clean_domain_bytes key)) (bit_mask f) [0..<unat (num_hashes f)] (words f) = Some ws"
    "grows (words f) ws" "covers (dual_hash_bytes (clean_domain_bytes key)) (bit_mask f) [0..<unat (num_hashes f)] ws"
    unfolding bloom_ok_def by blast
  with False show thesis by (intro put [of ws]) (simp_all add: insert_bytes_def Let_def)
qed

lemma probe_covers: "bloom_ok f \<Longrightarrow> probe f h = Some (covers h (bit_mask f) [0..<unat (num_hashes f)] (words f))"
  by (simp add: probe_def bloom_ok_def test_probes_covers)

lemma contains_bytes_form: "bloom_ok f \<Longrightarrow> contains_bytes f key =
    Some (clean_domain_bytes key \<noteq> [] \<and>
      covers (dual_hash_bytes (clean_domain_bytes key)) (bit_mask f) [0..<unat (num_hashes f)] (words f))"
  by (simp add: contains_bytes_def Let_def probe_covers)

text \<open>Insertion keeps what any probe has found.\<close>

lemma insert_bytes_probe:
  assumes f: "bloom_ok f" and i: "insert_bytes key f = Some f'"
  shows "bloom_ok f' \<and> bit_mask f' = bit_mask f \<and> num_hashes f' = num_hashes f \<and>
    (probe f h = Some True \<longrightarrow> probe f' h = Some True)"
proof (rule insert_bytes_form [OF f, of key])
  assume "insert_bytes key f = Some f"
  with f i show ?thesis by simp
next
  fix ws
  assume "insert_bytes key f = Some (f\<lparr>words := ws, item_count := item_count f + 1\<rparr>)" and g: "grows (words f) ws"
  with i have f': "f' = f\<lparr>words := ws, item_count := item_count f + 1\<rparr>" by simp
  with f g have "bloom_ok f'" by (simp add: bloom_ok_def grows_def)
  moreover have "probe f' h = Some True" if "probe f h = Some True"
  proof -
    have "covers h (bit_mask f) [0..<unat (num_hashes f)] (words f)" using that f by (simp add: probe_covers)
    then have "covers h (bit_mask f) [0..<unat (num_hashes f)] ws"
      using f by (intro grows_covers [OF g]) (simp_all add: bloom_ok_def)
    with f' \<open>bloom_ok f'\<close> show ?thesis by (simp add: probe_covers)
  qed
  ultimately show ?thesis using f' by simp
qed

interpretation bloom: approximate_set insert_bytes contains_bytes bloom_ok same_domain
proof
  fix f :: bloom_filter and k k' :: bytes assume f: "bloom_ok f"
  show "\<exists>f'. insert_bytes k f = Some f' \<and> bloom_ok f'"
    by (rule insert_bytes_form [OF f, of k]) (use insert_bytes_probe [OF f] in blast)+
  show "contains_bytes f k \<noteq> None" by (simp add: contains_bytes_form f)
  fix f' assume i: "insert_bytes k f = Some f'"
  note ok = insert_bytes_probe [OF f i, THEN conjunct1]
  show "contains_bytes f' k' = Some True" if "same_domain k k'"
  proof -
    have h: "dual_hash_bytes (clean_domain_bytes k) = dual_hash_bytes (clean_domain_bytes k')"
      and n: "clean_domain_bytes k \<noteq> []" "clean_domain_bytes k' \<noteq> []"
      using that by (auto simp: same_domain_def intro: dual_hash_lower)
    show ?thesis
      by (rule insert_bytes_form [OF f, of k]) (use i h n ok in \<open>auto simp: contains_bytes_form\<close>)
  qed
  show "contains_bytes f' k' = Some True" if "contains_bytes f k' = Some True"
    using that insert_bytes_probe [OF f i, of "dual_hash_bytes (clean_domain_bytes k')"] f ok
    by (auto simp: contains_bytes_def Let_def split: if_splits)
qed

section \<open>Labels of a name on the wire\<close>

text \<open>
  The labels a lookup walks over, with their offsets; \<open>None\<close> for a malformed name (truncated,
  a reserved type, a pointer out of the message or a seventeenth pointer).
\<close>

function scan_labels :: "bytes \<Rightarrow> nat \<Rightarrow> nat \<Rightarrow> (nat \<times> bytes) list option" where
  "scan_labels wire jumps off =
    (if off \<ge> length wire \<or> wire ! off = 0 then Some []
     else if wire ! off AND 0xc0 = 0xc0 then
       (if off + 1 \<ge> length wire \<or> jumps + 1 > 16 \<or> pointer (wire ! off) (wire ! (off + 1)) \<ge> length wire then None
        else scan_labels wire (jumps + 1) (pointer (wire ! off) (wire ! (off + 1))))
     else if wire ! off AND 0xc0 \<noteq> 0 \<or> unat (wire ! off) > 63 \<or> off + 1 + unat (wire ! off) > length wire then None
     else map_option ((#) (off, take (unat (wire ! off)) (drop (off + 1) wire)))
            (scan_labels wire jumps (off + 1 + unat (wire ! off))))"
  by pat_completeness auto
termination
  by (relation "measures [\<lambda>(wire, jumps, off). 16 - jumps, \<lambda>(wire, jumps, off). length wire - off]") auto

declare scan_labels.simps [simp del]

definition dotted :: "bytes list \<Rightarrow> bytes" where
  "dotted ls = concat (map ((#) 46) ls)"

definition joined :: "bytes list \<Rightarrow> bytes" where
  "joined ls = (case ls of [] \<Rightarrow> [] | l # ls' \<Rightarrow> l @ dotted ls')"

lemma dotted_simps [simp]: "dotted [] = []" "dotted (l # ls) = 46 # l @ dotted ls"
  by (simp_all add: dotted_def)

text \<open>One walk at a time: the four ways a round can go.\<close>

lemma walk_cases:
  obtains (stop) "off \<ge> length wire \<or> wire ! off = 0"
  | (jump) "off < length wire" "wire ! off \<noteq> 0" "wire ! off AND 0xc0 = 0xc0" "off + 1 < length wire" "jumps + 1 \<le> 16"
      "pointer (wire ! off) (wire ! (off + 1)) < length wire"
  | (label) "off < length wire" "wire ! off \<noteq> 0" "wire ! off AND 0xc0 = 0" "unat (wire ! off) \<le> 63"
      "off + 1 + unat (wire ! off) \<le> length wire"
  | (bad) "off < length wire" "wire ! off \<noteq> 0"
      "if wire ! off AND 0xc0 = 0xc0
       then \<not> (off + 1 < length wire \<and> jumps + 1 \<le> 16 \<and> pointer (wire ! off) (wire ! (off + 1)) < length wire)
       else \<not> (wire ! off AND 0xc0 = 0 \<and> unat (wire ! off) \<le> 63 \<and> off + 1 + unat (wire ! off) \<le> length wire)"
proof -
  consider "off \<ge> length wire \<or> wire ! off = 0"
    | "off < length wire" "wire ! off \<noteq> 0" "wire ! off AND 0xc0 = 0xc0"
    | "off < length wire" "wire ! off \<noteq> 0" "wire ! off AND 0xc0 \<noteq> 0xc0" by linarith
  then show thesis
  proof cases
    case 1
    then show thesis by (rule stop)
  next
    case 2
    then show thesis
      using jump bad by (cases "off + 1 < length wire \<and> jumps + 1 \<le> 16 \<and> pointer (wire ! off) (wire ! (off + 1)) < length wire") simp_all
  next
    case 3
    then show thesis
      using label bad by (cases "wire ! off AND 0xc0 = 0 \<and> unat (wire ! off) \<le> 63 \<and> off + 1 + unat (wire ! off) \<le> length wire") simp_all
  qed
qed

lemma zero_not_pointer: "(b :: u8) AND 0xc0 = 0 \<Longrightarrow> b AND 0xc0 \<noteq> 0xc0"
  by simp

lemma scan_stop: "off \<ge> length wire \<or> wire ! off = 0 \<Longrightarrow> scan_labels wire jumps off = Some []"
  by (subst scan_labels.simps) simp

lemma scan_jump: "off < length wire \<Longrightarrow> wire ! off \<noteq> 0 \<Longrightarrow> wire ! off AND 0xc0 = 0xc0 \<Longrightarrow> off + 1 < length wire \<Longrightarrow>
    jumps + 1 \<le> 16 \<Longrightarrow> pointer (wire ! off) (wire ! (off + 1)) < length wire \<Longrightarrow>
    scan_labels wire jumps off = scan_labels wire (jumps + 1) (pointer (wire ! off) (wire ! (off + 1)))"
  by (subst scan_labels.simps) simp

lemma scan_label: "off < length wire \<Longrightarrow> wire ! off \<noteq> 0 \<Longrightarrow> wire ! off AND 0xc0 = 0 \<Longrightarrow> unat (wire ! off) \<le> 63 \<Longrightarrow>
    off + 1 + unat (wire ! off) \<le> length wire \<Longrightarrow>
    scan_labels wire jumps off = map_option ((#) (off, take (unat (wire ! off)) (drop (off + 1) wire)))
      (scan_labels wire jumps (off + 1 + unat (wire ! off)))"
  by (subst scan_labels.simps) simp

lemma scan_bad: "off < length wire \<Longrightarrow> wire ! off \<noteq> 0 \<Longrightarrow>
    (if wire ! off AND 0xc0 = 0xc0
     then \<not> (off + 1 < length wire \<and> jumps + 1 \<le> 16 \<and> pointer (wire ! off) (wire ! (off + 1)) < length wire)
     else \<not> (wire ! off AND 0xc0 = 0 \<and> unat (wire ! off) \<le> 63 \<and> off + 1 + unat (wire ! off) \<le> length wire)) \<Longrightarrow>
    scan_labels wire jumps off = None"
  by (subst scan_labels.simps) (auto split: if_splits)

section \<open>The two walks of the filter are this scan\<close>

lemma hash_wire_scan:
  "total_len \<le> 255 \<Longrightarrow> hash_wire wire off h first total_len jumps = Some (case scan_labels wire jumps off of
     None \<Rightarrow> None
   | Some ls \<Rightarrow> (let fed = (if first then joined (map snd ls) else dotted (map snd ls)) in
       if total_len + length fed > 255 then None else Some (foldl hash_byte h fed, first \<and> ls = [])))"
proof (induction wire off h first total_len jumps rule: hash_wire.induct)
  case (1 wire off h first total_len jumps)
  show ?case
  proof (cases rule: walk_cases [where wire = wire and off = off and jumps = jumps])
    case stop
    then show ?thesis
      using "1.prems" by (subst hash_wire.simps) (auto simp: scan_stop joined_def)
  next
    case jump
    then have "rd wire off = Some (wire ! off)" "rd wire (off + 1) = Some (wire ! (off + 1))" by simp_all
    note IH = "1.IH"(1) [OF jump(1) this(1) jump(2,3) _ this(2) refl _ "1.prems"]
    have "hash_wire wire off h first total_len jumps =
        hash_wire wire (pointer (wire ! off) (wire ! (off + 1))) h first total_len (jumps + 1)"
      using jump by (subst hash_wire.simps) simp
    with IH jump show ?thesis by (simp add: scan_jump [OF jump])
  next
    case label
    let ?n = "unat (wire ! off)"
    let ?l = "take ?n (drop (off + 1) wire)" and ?next = "off + 1 + unat (wire ! off)"
    let ?h = "if first then h else hash_byte h 46" and ?t = "(if first then total_len else total_len + 1) + ?n"
    have r: "rd wire off = Some (wire ! off)" "slice wire (off + 1) (off + 1 + ?n) = Some ?l"
      using label by simp_all
    have step: "hash_wire wire off h first total_len jumps =
        (if ?t > 255 then Some None else hash_wire wire ?next (foldl hash_byte ?h ?l) False ?t jumps)"
      using label zero_not_pointer [OF label(3)] by (subst hash_wire.simps) (simp add: Let_def)
    show ?thesis
    proof (cases "?t > 255")
      case True
      with label show ?thesis
        unfolding step scan_label [OF label]
        by (cases first; cases "scan_labels wire jumps ?next") (auto simp: joined_def Let_def)
    next
      case False
      have IH: "hash_wire wire ?next (foldl hash_byte ?h ?l) False ?t jumps = Some (case scan_labels wire jumps ?next of
           None \<Rightarrow> None
         | Some ls \<Rightarrow> (if ?t + length (dotted (map snd ls)) > 255 then None
             else Some (foldl hash_byte (foldl hash_byte ?h ?l) (dotted (map snd ls)), False)))"
        using "1.IH"(2) [OF label(1) r(1) label(2) zero_not_pointer [OF label(3)] _ _ r(2) refl refl] label False
        by (simp add: Let_def cong: option.case_cong if_cong)
      from False label show ?thesis
        unfolding step scan_label [OF label] using IH
        by (cases first; cases "scan_labels wire jumps ?next") (auto simp: joined_def Let_def)
    qed
  next
    case bad
    then show ?thesis
      by (subst hash_wire.simps) (auto simp: scan_bad [OF bad] split: if_splits)
  qed
qed

lemma label_offsets_scan:
  "scan_labels wire jumps off = Some ls \<Longrightarrow> label_offsets wire off room jumps = Some (Some (map fst (take room ls)))"
proof (induction wire off room jumps arbitrary: ls rule: label_offsets.induct)
  case (1 wire off room jumps)
  show ?case
  proof (cases "room = 0")
    case True
    then show ?thesis by (subst label_offsets.simps) simp
  next
    case room: False
    show ?thesis
    proof (cases rule: walk_cases [where wire = wire and off = off and jumps = jumps])
      case stop
      then show ?thesis using "1.prems" by (subst label_offsets.simps) (auto simp: scan_stop)
    next
      case jump
      then have "rd wire off = Some (wire ! off)" "rd wire (off + 1) = Some (wire ! (off + 1))" by simp_all
      note IH = "1.IH"(1) [OF _ this(1) jump(2,3) _ this(2) refl]
      have "label_offsets wire off room jumps = label_offsets wire (pointer (wire ! off) (wire ! (off + 1))) room (jumps + 1)"
        using jump room by (subst label_offsets.simps) simp
      with IH jump room "1.prems" show ?thesis by (simp add: scan_jump [OF jump])
    next
      case label
      let ?next = "off + 1 + unat (wire ! off)" and ?l = "take (unat (wire ! off)) (drop (off + 1) wire)"
      from "1.prems" obtain rest where rest: "scan_labels wire jumps ?next = Some rest" "ls = (off, ?l) # rest"
        by (auto simp: scan_label [OF label])
      have "rd wire off = Some (wire ! off)" using label by simp
      from "1.IH"(2) [OF _ this label(2) zero_not_pointer [OF label(3)] _ _ rest(1)] label room
      have "label_offsets wire ?next (room - 1) jumps = Some (Some (map fst (take (room - 1) rest)))" by simp
      with label room zero_not_pointer [OF label(3)] rest(2) show ?thesis
        by (subst label_offsets.simps) (cases room; simp)
    next
      case bad
      with "1.prems" show ?thesis by (simp add: scan_bad [OF bad])
    qed
  qed
qed

lemma scan_fewer_jumps: "scan_labels wire jumps off = Some ls \<Longrightarrow> j \<le> jumps \<Longrightarrow> scan_labels wire j off = Some ls"
proof (induction wire jumps off arbitrary: ls j rule: scan_labels.induct)
  case (1 wire jumps off)
  show ?case
  proof (cases rule: walk_cases [where wire = wire and off = off and jumps = jumps])
    case stop
    then show ?thesis using "1.prems" by (simp add: scan_stop)
  next
    case jump
    then have j: "j + 1 \<le> 16" using "1.prems"(2) by simp
    have "scan_labels wire (jumps + 1) (pointer (wire ! off) (wire ! (off + 1))) = Some ls"
      using "1.prems"(1) by (simp add: scan_jump [OF jump])
    from "1.IH"(1) [OF _ jump(3) _ this, of "j + 1"] jump "1.prems"(2) show ?thesis
      by (simp add: scan_jump [OF jump(1-4) j jump(6)])
  next
    case label
    with "1.prems" obtain rest where rest: "scan_labels wire jumps (off + 1 + unat (wire ! off)) = Some rest"
      "ls = (off, take (unat (wire ! off)) (drop (off + 1) wire)) # rest"
      by (auto simp: scan_label [OF label])
    from "1.IH"(2) [OF _ zero_not_pointer [OF label(3)] _ rest(1) "1.prems"(2)] label rest(2) show ?thesis
      by (simp add: scan_label [OF label])
  next
    case bad
    with "1.prems" show ?thesis by (simp add: scan_bad [OF bad])
  qed
qed

text \<open>The scan from any label of a name gives the labels from there on.\<close>

lemma scan_suffix: "scan_labels wire jumps off = Some (pre @ (o', l) # suf) \<Longrightarrow>
    scan_labels wire 0 o' = Some ((o', l) # suf) \<and> o' < length wire"
proof (induction wire jumps off arbitrary: pre rule: scan_labels.induct)
  case (1 wire jumps off)
  show ?case
  proof (cases rule: walk_cases [where wire = wire and off = off and jumps = jumps])
    case stop
    then show ?thesis using "1.prems" by (simp add: scan_stop)
  next
    case jump
    with "1.IH"(1) [OF _ jump(3), of pre] "1.prems" show ?thesis by (simp add: scan_jump [OF jump])
  next
    case label
    note p = "1.prems"
    from p obtain rest where rest: "scan_labels wire jumps (off + 1 + unat (wire ! off)) = Some rest"
      "pre @ (o', l) # suf = (off, take (unat (wire ! off)) (drop (off + 1) wire)) # rest"
      by (auto simp: scan_label [OF label])
    show ?thesis
    proof (cases pre)
      case Nil
      with rest have "o' = off" by simp
      with scan_fewer_jumps [OF p, of 0] Nil label show ?thesis by simp
    next
      case (Cons a pre')
      with rest(2) have "rest = pre' @ (o', l) # suf" by simp
      with "1.IH"(2) [OF _ zero_not_pointer [OF label(3)], of pre'] rest(1) label show ?thesis by simp
    qed
  next
    case bad
    with "1.prems" show ?thesis by (simp add: scan_bad [OF bad])
  qed
qed

lemma contains_wire_form:
  "contains_wire f wire off = (case scan_labels wire 0 off of
     None \<Rightarrow> ret False
   | Some ls \<Rightarrow> if ls = [] \<or> length (joined (map snd ls)) > 255 then ret False
       else probe f (dual_hash_bytes (joined (map snd ls))))"
proof (cases "off < length wire")
  case True
  then show ?thesis
    unfolding contains_wire_def hash_wire_scan [of 0 wire off hash_seed True 0, simplified]
    by (auto simp: Let_def dual_hash_bytes_def joined_def split: option.split)
next
  case False
  then show ?thesis by (simp add: contains_wire_def scan_stop)
qed

lemma any_wire_True:
  assumes "bloom_ok f"
  shows "any_wire f wire xs = Some (\<exists>x \<in> set xs. contains_wire f wire x = Some True)"
proof (induction xs)
  case (Cons x xs)
  have "contains_wire f wire x \<noteq> None"
    by (auto simp: contains_wire_form probe_covers assms split: option.splits)
  with Cons show ?case by (cases "contains_wire f wire x") auto
qed simp

lemma label_offsets_total: "label_offsets wire off room jumps \<noteq> None"
proof (induction wire off room jumps rule: label_offsets.induct)
  case (1 wire off room jumps)
  show ?case
  proof (cases "room = 0")
    case True
    then show ?thesis by (subst label_offsets.simps) simp
  next
    case room: False
    show ?thesis
    proof (cases rule: walk_cases [where wire = wire and off = off and jumps = jumps])
      case stop
      then show ?thesis by (subst label_offsets.simps) auto
    next
      case jump
      then have "rd wire off = Some (wire ! off)" "rd wire (off + 1) = Some (wire ! (off + 1))" by simp_all
      note IH = "1.IH"(1) [OF _ this(1) jump(2,3) _ this(2) refl]
      with jump room show ?thesis by (subst label_offsets.simps) simp
    next
      case label
      have "rd wire off = Some (wire ! off)" using label by simp
      note IH = "1.IH"(2) [OF _ this label(2) zero_not_pointer [OF label(3)]]
      with label room zero_not_pointer [OF label(3)] show ?thesis by (subst label_offsets.simps) auto
    next
      case bad
      then show ?thesis by (subst label_offsets.simps) (auto split: if_splits)
    qed
  qed
qed

section \<open>Properties\<close>

lemma double_until_pow: "0 < p \<Longrightarrow> \<exists>k. double_until n p = p * 2 ^ k \<and> n \<le> double_until n p \<and> p \<le> double_until n p"
proof (induction n p rule: double_until.induct)
  case (1 n p)
  show ?case
  proof (cases "n \<le> p")
    case True
    then have "double_until n p = p * 2 ^ 0" by (subst double_until.simps) simp
    with True show ?thesis by (metis le_refl mult.right_neutral power_0)
  next
    case False
    with "1" obtain k where k: "double_until n (2 * p) = 2 * p * 2 ^ k" "n \<le> double_until n (2 * p)"
      "2 * p \<le> double_until n (2 * p)" by auto
    moreover have "double_until n p = double_until n (2 * p)"
      using False "1.prems" by (subst double_until.simps) simp
    ultimately have "double_until n p = p * 2 ^ Suc k" "n \<le> double_until n p" "p \<le> double_until n p" by simp_all
    then show ?thesis by blast
  qed
qed

lemma double_until_bound: "0 < p \<Longrightarrow> double_until n p < 2 * n \<or> double_until n p = p"
proof (induction n p rule: double_until.induct)
  case (1 n p)
  show ?case
  proof (cases "n \<le> p")
    case True
    then show ?thesis by (subst double_until.simps) simp
  next
    case False
    then have "double_until n p = double_until n (2 * p)"
      using "1.prems" by (subst double_until.simps) simp
    with "1" False show ?thesis by auto
  qed
qed

lemma next_power_of_two_ok: "512 \<le> n \<Longrightarrow> next_power_of_two n = Some b \<Longrightarrow> bloom_ok (empty_filter b k) \<and> n \<le> b"
proof -
  assume n: "512 \<le> n" and b: "next_power_of_two n = Some b"
  from b have b': "b = double_until n 1" "n \<le> 2 ^ 63" by (auto simp: next_power_of_two_def split: if_splits)
  from double_until_pow [of 1 n] obtain e where e: "b = 2 ^ e" "n \<le> b" unfolding b' by auto
  have "(2 :: nat) ^ 9 \<le> 2 ^ e" using n e by simp
  then have "6 \<le> e" by (subst (asm) power_increasing_iff) simp_all
  then obtain d where "e = 6 + d" using le_Suc_ex by blast
  then have d: "64 * (b div 64) = b" using e(1) by (simp add: power_add)
  have "b < 2 ^ 64" using double_until_bound [of 1 n] b' by auto
  then have "unat (word_of_nat (b - 1) :: u64) = b - 1" by (simp add: unsigned_of_nat take_bit_eq_mod)
  with d e n show ?thesis by (simp add: bloom_ok_def empty_filter_def)
qed

text \<open>
  C18: A filter never loses an element. Whatever byte strings are inserted into a filter that
  \<open>with_capacity\<close>, \<open>for_threat_feed\<close> or \<open>for_whitelist\<close> has made, no unchecked access leaves
  the bit set, and every non-blank one is found afterwards under any case of its letters and
  any surrounding white space and trailing dots.
\<close>

theorem bloom_no_false_negatives:
  assumes "f = for_whitelist \<or> with_capacity m k = ret f \<or> for_threat_feed env = ret f"
  shows "\<exists>f'. insert_all insert_bytes keys f = ret f' \<and>
    (\<forall>key \<in> set keys. \<forall>key'. same_domain key key' \<longrightarrow> contains_bytes f' key' = ret True)"
proof -
  have white: "bloom_ok for_whitelist"
    by (simp add: bloom_ok_def for_whitelist_def empty_filter_def unsigned_of_nat take_bit_eq_mod)
  have env: "bloom_ok f" if "for_threat_feed env = Some f"
  proof (cases env)
    case None
    with that have "f = empty_filter 134217728 18" by (simp add: for_threat_feed_def)
    then show ?thesis by (simp add: bloom_ok_def empty_filter_def unsigned_of_nat take_bit_eq_mod)
  next
    case (Some val)
    let ?n = "clamp_nat 4 256 (unwrap_or 16 (parse_usize (trim val))) * 1024 * 1024 * 8"
    have n: "512 \<le> ?n" by (simp add: clamp_nat_def)
    from that Some obtain b k' where b: "next_power_of_two ?n = Some b" "f = empty_filter b k'"
      by (auto simp: for_threat_feed_def Let_def split: Option.bind_splits)
    from next_power_of_two_ok [OF n b(1)] b(2) show ?thesis by simp
  qed
  have cap: "bloom_ok f" if "with_capacity m k = Some f"
  proof -
    from that obtain b where b: "next_power_of_two (max m 512) = Some b" "f = empty_filter b (clamp_nat 3 20 k)"
      by (auto simp: with_capacity_def split: Option.bind_splits)
    from next_power_of_two_ok [OF _ b(1)] b(2) show ?thesis by simp
  qed
  from assms white env cap have "bloom_ok f" by blast
  from bloom.insert_all_total [OF this, of keys] bloom.insert_all_finds [OF this] show ?thesis by blast
qed

theorem bloom_no_false_negatives_witness:
  "\<exists>f'. insert_all insert_bytes [[65, 46], [98]] for_whitelist = ret f' \<and> contains_bytes f' [97] = ret True"
proof -
  obtain f' where f': "insert_all insert_bytes [[65, 46], [98]] for_whitelist = Some f'"
    "\<forall>key \<in> set [[65, 46], [98]]. \<forall>key'. same_domain key key' \<longrightarrow> contains_bytes f' key' = Some True"
    using bloom_no_false_negatives [of for_whitelist] by blast
  have "same_domain [65, 46] [97]" by code_simp
  with f' show ?thesis by simp
qed

text \<open>
  The streaming lookup of a name inside a message gives what the lookup of the dotted name
  gives: it hashes the labels joined by dots, refuses malformed names, the root and names of
  more than 255 bytes, and never leaves the message or the bit set.
\<close>

theorem contains_wire_spec:
  assumes "bloom_ok f"
  shows "contains_wire f wire offset = ret (case scan_labels wire 0 offset of
      None \<Rightarrow> False
    | Some ls \<Rightarrow> ls \<noteq> [] \<and> length (joined (map snd ls)) \<le> 255 \<and>
        probe f (dual_hash_bytes (joined (map snd ls))) = ret True) \<and>
    (clean_domain_bytes key = key \<and> key \<noteq> [] \<longrightarrow> contains_bytes f key = probe f (dual_hash_bytes key))"
  using assms by (auto simp: contains_wire_form probe_covers contains_bytes_def Let_def not_less split: option.split)

definition small_filter :: bloom_filter where
  "small_filter = \<lparr>words = replicate 8 0, num_hashes = 3, bit_mask = 511, item_count = 0\<rparr>"

lemma small_filter_ok: "bloom_ok small_filter"
  by (simp add: small_filter_def bloom_ok_def)

theorem contains_wire_spec_witness:
  "contains_wire small_filter [1, 97, 1, 98, 0] 0 = ret False"
proof -
  have s: "scan_labels [1, 97, 1, 98, 0] 0 0 = Some [(0, [97]), (2, [98])]" by code_simp
  have "probe small_filter h = Some False" for h
    using word_index_less [of 511 8 h 0]
    by (simp add: probe_covers small_filter_ok, simp add: small_filter_def covers_def bexI [of _ 0])
  with contains_wire_spec [OF small_filter_ok, of "[1, 97, 1, 98, 0]" 0 "[97]"] s show ?thesis by simp
qed

text \<open>
  C13: A domain that has been inserted is found in every message name below it: when the labels
  from some point on spell the domain, and that point is among the first 63 labels and leaves
  at least two labels (or is the whole name), the parent-domain lookup reports the name.
\<close>

theorem subdomains_are_found:
  assumes "bloom_ok f" and "insert_all insert_bytes keys f = ret f'"
    and "scan_labels wire 0 offset = Some (pre @ suf)" and "pre = [] \<and> suf \<noteq> [] \<or> 2 \<le> length suf"
    and "length pre < 63" and "length (joined (map snd suf)) \<le> 255"
    and "key \<in> set keys" and "same_domain key (joined (map snd suf))"
    and "clean_domain_bytes (joined (map snd suf)) = joined (map snd suf)"
  shows "contains_wire_with_subdomains f' wire offset = ret True"
proof -
  from bloom.insert_all_total [OF assms(1), of keys] assms(2) have ok: "bloom_ok f'" by simp
  from assms(4) obtain o' l rest where suf: "suf = (o', l) # rest" by (cases suf) auto
  note s = scan_suffix [OF assms(3) [unfolded suf]]
  have "contains_bytes f' (joined (map snd suf)) = Some True"
    using bloom.insert_all_finds [OF assms(1,2,7,8)] .
  then have "probe f' (dual_hash_bytes (joined (map snd suf))) = Some True"
    using assms(9) by (auto simp: contains_bytes_def Let_def split: if_splits)
  then have hit: "contains_wire f' wire o' = Some True"
    using s suf assms(6) by (simp add: contains_wire_form)
  define offs where "offs = map fst (take 64 (pre @ suf))"
  let ?n = "if length offs \<le> 1 then length offs else length offs - 1"
  have n: "length pre < ?n" using assms(4,5) suf by (auto simp: offs_def)
  then have i: "length pre < length offs" by (auto split: if_splits)
  have "offs ! length pre = o'" using i suf by (simp add: nth_append offs_def)
  then have "o' \<in> set (take ?n offs)" using n i by (metis in_set_conv_nth length_take min_less_iff_conj nth_take)
  then have any: "any_wire f' wire (take ?n offs) = Some True" using hit by (auto simp: any_wire_True [OF ok])
  have len: "\<not> offset \<ge> length wire" using assms(3) suf by (auto simp: scan_stop)
  have "label_offsets wire offset 64 0 = Some (Some offs)" "offs \<noteq> []"
    using label_offsets_scan [OF assms(3)] suf by (simp_all add: offs_def)
  with any len show ?thesis by (simp add: contains_wire_with_subdomains_def Let_def)
qed

theorem subdomains_are_found_witness:
  "\<exists>f'. insert_all insert_bytes [[97, 46, 98]] small_filter = ret f' \<and>
     contains_wire_with_subdomains f' [1, 120, 1, 65, 1, 66, 0] 0 = ret True"
proof -
  obtain f' where f': "insert_all insert_bytes [[97, 46, 98]] small_filter = Some f'"
    using bloom.insert_all_total [OF small_filter_ok] by blast
  have s: "scan_labels [1, 120, 1, 65, 1, 66, 0] 0 0 = Some ([(0, [120])] @ [(2, [65]), (4, [66])])" by code_simp
  have d: "same_domain [97, 46, 98] (joined (map snd [(2 :: nat, [65]), (4, [66])]))" by code_simp
  have c: "clean_domain_bytes (joined (map snd [(2 :: nat, [65]), (4, [66])])) = joined (map snd [(2 :: nat, [65]), (4, [66])])"
    by code_simp
  have l: "length (joined (map snd [(2 :: nat, [65 :: u8]), (4, [66])])) \<le> 255" by code_simp
  show ?thesis
    using subdomains_are_found [OF small_filter_ok f' s _ _ l _ d c] f' by simp
qed

end
