(* ===== verification/Rate_Limit.thy ===== *)
theory Rate_Limit
  imports Answers Complex_Main
begin

text \<open>
  The two-level rate limiter, \<open>src/security/rate_limit.rs\<close>: token buckets per client identity
  and per address, kept in 32 stripes, with pruning and the exemption of private addresses.

  Token counts are real numbers: the rounding of the \<open>f64\<close> arithmetic is not modelled.
  Instants are nanoseconds. The hashes that choose a stripe are parameters.

  The lemmas show that the stripes are invisible (a simulation of a limiter with one map per
  level), the bound on what any address or identity is admitted over time, the meaning of the
  counters, and when pruning is invisible.
\<close>

section \<open>Keys\<close>

record identity_key =
  key_ip :: ip_addr
  key_device :: "string option"

definition identity_key_new :: "ip_addr \<Rightarrow> string option \<Rightarrow> identity_key rust" where
  "identity_key_new ip device_id = do {
     d \<leftarrow> (case device_id of None \<Rightarrow> ret None
          | Some d \<Rightarrow> (let trimmed = trim d in
              if length trimmed > 64 then do { s \<leftarrow> str_slice_to trimmed 64; ret (Some s) } else ret (Some trimmed)));
     ret \<lparr>key_ip = to_canonical ip, key_device = d\<rparr> }"

section \<open>Token buckets\<close>

record token_bucket =
  tokens :: real
  last_refill :: instant
  capacity :: real
  refill_rate :: real

definition bucket_new :: "real \<Rightarrow> real \<Rightarrow> instant \<Rightarrow> token_bucket" where
  "bucket_new cap rate now = \<lparr>tokens = cap, last_refill = now, capacity = cap, refill_rate = rate\<rparr>"

definition try_consume :: "token_bucket \<Rightarrow> instant \<Rightarrow> bool \<times> token_bucket" where
  "try_consume b now = (
     let elapsed = real (now - last_refill b) / 1000000000;
         level = min (tokens b + elapsed * refill_rate b) (capacity b);
         b = b\<lparr>tokens := level, last_refill := now\<rparr>
     in if tokens b \<ge> 1 then (True, b\<lparr>tokens := tokens b - 1\<rparr>) else (False, b))"

definition last_seen :: "token_bucket \<Rightarrow> instant" where
  "last_seen b = last_refill b"

section \<open>The limiter\<close>

record rate_config =
  identity_capacity :: real
  identity_refill :: real
  ip_ceiling_capacity :: real
  ip_ceiling_refill :: real

definition default_config :: rate_config where
  "default_config = \<lparr>identity_capacity = 60, identity_refill = 20, ip_ceiling_capacity = 500, ip_ceiling_refill = 200\<rparr>"

type_synonym 'k buckets = "'k \<Rightarrow> token_bucket option"

record rate_limiter =
  config :: rate_config
  identity_stripes :: "identity_key buckets list"
  ip_ceiling_stripes :: "ip_addr buckets list"
  blocked_count :: u64
  soft_limit_hits :: u64

definition stripe_count :: nat where
  "stripe_count = 32"

text \<open>\<open>hash\<close> is what \<open>DefaultHasher\<close> makes of a key.\<close>

definition stripe_for :: "('k \<Rightarrow> nat) \<Rightarrow> 'k \<Rightarrow> nat" where
  "stripe_for hash key = hash key mod stripe_count"

definition limiter_new :: "real \<Rightarrow> real \<Rightarrow> real \<Rightarrow> real \<Rightarrow> rate_limiter" where
  "limiter_new id_cap id_refill ip_cap ip_refill =
     \<lparr>config = \<lparr>identity_capacity = id_cap, identity_refill = id_refill,
                ip_ceiling_capacity = ip_cap, ip_ceiling_refill = ip_refill\<rparr>,
      identity_stripes = replicate stripe_count Map.empty,
      ip_ceiling_stripes = replicate stripe_count Map.empty,
      blocked_count = 0, soft_limit_hits = 0\<rparr>"

definition from_config :: "rate_config \<Rightarrow> rate_limiter" where
  "from_config cfg = limiter_new (identity_capacity cfg) (identity_refill cfg) (ip_ceiling_capacity cfg) (ip_ceiling_refill cfg)"

definition is_exempt :: "ip_addr \<Rightarrow> bool" where
  "is_exempt ip = (case to_canonical ip of
     V4 v4 \<Rightarrow> (let o' = v4_octet v4 in
       o' 0 = 127 \<or> o' 0 = 10 \<or> (o' 0 = 172 \<and> 16 \<le> o' 1 \<and> o' 1 \<le> 31) \<or>
       (o' 0 = 192 \<and> o' 1 = 168) \<or> (o' 0 = 169 \<and> o' 1 = 254))
   | V6 v6 \<Rightarrow> v6_is_loopback v6 \<or> v6_segment v6 0 AND 0xfe00 = 0xfc00 \<or> v6_segment v6 0 AND 0xffc0 = 0xfe80)"

text \<open>\<open>entry(key).or_insert_with(\<dots>)\<close>, then \<open>try_consume\<close> on the entry.\<close>

definition consume :: "'k buckets \<Rightarrow> 'k \<Rightarrow> real \<Rightarrow> real \<Rightarrow> instant \<Rightarrow> bool \<times> 'k buckets" where
  "consume m key cap rate now = (
     let b = (case m key of Some b \<Rightarrow> b | None \<Rightarrow> bucket_new cap rate now);
         (ok, b') = try_consume b now
     in (ok, m(key := Some b')))"

definition check_with_identity ::
  "(identity_key \<Rightarrow> nat) \<Rightarrow> (ip_addr \<Rightarrow> nat) \<Rightarrow> rate_limiter \<Rightarrow> ip_addr \<Rightarrow> string option \<Rightarrow> instant \<Rightarrow>
   (bool \<times> rate_limiter) rust" where
  "check_with_identity hash_id hash_ip s ip device_id now =
    (if is_exempt ip then ret (True, s)
     else do {
       key \<leftarrow> identity_key_new ip device_id;
       let cfg = config s;
       let idx = stripe_for hash_id key;
       map \<leftarrow> (if idx < length (identity_stripes s) then ret (identity_stripes s ! idx) else panic);
       let (identity_ok, map') = consume map key (identity_capacity cfg) (identity_refill cfg) now;
       let s = s\<lparr>identity_stripes := (identity_stripes s)[idx := map']\<rparr>;
       let s = (if identity_ok then s else s\<lparr>soft_limit_hits := soft_limit_hits s + 1\<rparr>);
       let ip_canonical = to_canonical ip;
       (ceiling_ok, s) \<leftarrow> (if identity_ok then do {
           let idx = stripe_for hash_ip ip_canonical;
           map \<leftarrow> (if idx < length (ip_ceiling_stripes s) then ret (ip_ceiling_stripes s ! idx) else panic);
           let (ok, map') = consume map ip_canonical (ip_ceiling_capacity cfg) (ip_ceiling_refill cfg) now;
           ret (ok, s\<lparr>ip_ceiling_stripes := (ip_ceiling_stripes s)[idx := map']\<rparr>) }
         else ret (False, s));
       let allowed = (identity_ok \<and> ceiling_ok);
       let s = (if allowed then s else s\<lparr>blocked_count := blocked_count s + 1\<rparr>);
       ret (allowed, s) })"

definition rate_check ::
  "(identity_key \<Rightarrow> nat) \<Rightarrow> (ip_addr \<Rightarrow> nat) \<Rightarrow> rate_limiter \<Rightarrow> ip_addr \<Rightarrow> instant \<Rightarrow> (bool \<times> rate_limiter) rust" where
  "rate_check hash_id hash_ip s ip now = check_with_identity hash_id hash_ip s ip None now"

definition retain_recent :: "instant \<Rightarrow> 'k buckets \<Rightarrow> 'k buckets" where
  "retain_recent now m = (\<lambda>k. case m k of Some b \<Rightarrow> if (now - last_seen b) div 1000000000 < 60 then Some b else None
     | None \<Rightarrow> None)"

definition prune_idle :: "rate_limiter \<Rightarrow> instant \<Rightarrow> rate_limiter" where
  "prune_idle s now = s\<lparr>identity_stripes := map (retain_recent now) (identity_stripes s),
     ip_ceiling_stripes := map (retain_recent now) (ip_ceiling_stripes s)\<rparr>"

definition limiter_clear :: "rate_limiter \<Rightarrow> rate_limiter" where
  "limiter_clear s = s\<lparr>identity_stripes := map (\<lambda>m. Map.empty) (identity_stripes s),
     ip_ceiling_stripes := map (\<lambda>m. Map.empty) (ip_ceiling_stripes s)\<rparr>"

section \<open>The limiter without stripes\<close>

record flat_limiter =
  flat_config :: rate_config
  flat_ids :: "identity_key buckets"
  flat_ips :: "ip_addr buckets"
  flat_blocked :: u64
  flat_soft :: u64

definition flat_check :: "flat_limiter \<Rightarrow> ip_addr \<Rightarrow> identity_key \<Rightarrow> instant \<Rightarrow> bool \<times> flat_limiter" where
  "flat_check s ip key now =
    (if is_exempt ip then (True, s)
     else
       let cfg = flat_config s;
           (id_ok, ids) = consume (flat_ids s) key (identity_capacity cfg) (identity_refill cfg) now
       in if \<not> id_ok then (False, s\<lparr>flat_ids := ids, flat_soft := flat_soft s + 1, flat_blocked := flat_blocked s + 1\<rparr>)
          else let (ip_ok, ips) = consume (flat_ips s) (to_canonical ip) (ip_ceiling_capacity cfg) (ip_ceiling_refill cfg) now
               in (ip_ok, s\<lparr>flat_ids := ids, flat_ips := ips,
                    flat_blocked := (if ip_ok then flat_blocked s else flat_blocked s + 1)\<rparr>))"

text \<open>The map the stripes hold together.\<close>

definition unstriped :: "('k \<Rightarrow> nat) \<Rightarrow> 'k buckets list \<Rightarrow> 'k buckets" where
  "unstriped hash stripes key = (stripes ! stripe_for hash key) key"

definition flat_of :: "(identity_key \<Rightarrow> nat) \<Rightarrow> (ip_addr \<Rightarrow> nat) \<Rightarrow> rate_limiter \<Rightarrow> flat_limiter" where
  "flat_of hash_id hash_ip s = \<lparr>flat_config = config s, flat_ids = unstriped hash_id (identity_stripes s),
     flat_ips = unstriped hash_ip (ip_ceiling_stripes s), flat_blocked = blocked_count s, flat_soft = soft_limit_hits s\<rparr>"

definition striped :: "rate_limiter \<Rightarrow> bool" where
  "striped s \<longleftrightarrow> length (identity_stripes s) = stripe_count \<and> length (ip_ceiling_stripes s) = stripe_count"

lemma stripe_less: "length stripes = stripe_count \<Longrightarrow> stripe_for hash key < length stripes"
  by (simp add: stripe_for_def stripe_count_def)

lemma unstriped_update:
  "length stripes = stripe_count \<Longrightarrow>
   unstriped hash (stripes[stripe_for hash key := (stripes ! stripe_for hash key)(key := v)]) = (unstriped hash stripes)(key := v)"
  using stripe_less [of stripes hash] by (auto simp: unstriped_def nth_list_update fun_eq_iff)

lemma consume_unstriped:
  assumes "length stripes = stripe_count"
  shows "consume (unstriped hash stripes) key cap rate now =
    (fst (consume (stripes ! stripe_for hash key) key cap rate now),
     unstriped hash (stripes[stripe_for hash key := snd (consume (stripes ! stripe_for hash key) key cap rate now)]))"
  unfolding consume_def Let_def
  by (simp add: unstriped_update [OF assms] split: prod.split) (simp add: unstriped_def)

lemma check_form:
  assumes "striped s" and "identity_key_new ip d = Some key"
  shows "\<exists>s'. check_with_identity hash_id hash_ip s ip d now = Some (fst (flat_check (flat_of hash_id hash_ip s) ip key now), s') \<and>
    striped s' \<and> flat_of hash_id hash_ip s' = snd (flat_check (flat_of hash_id hash_ip s) ip key now)"
proof (cases "is_exempt ip")
  case True
  with assms show ?thesis by (simp add: check_with_identity_def flat_check_def)
next
  case False
  let ?cfg = "config s" and ?i = "stripe_for hash_id key"
  let ?ids = "identity_stripes s" and ?ips = "ip_ceiling_stripes s"
  have len: "length ?ids = stripe_count" "length ?ips = stripe_count" using assms(1) by (simp_all add: striped_def)
  let ?j = "stripe_for hash_ip (to_canonical ip)"
  note less = stripe_less [OF len(1), of hash_id key] stripe_less [OF len(2), of hash_ip "to_canonical ip"]
  obtain ok m where c: "consume (?ids ! ?i) key (identity_capacity ?cfg) (identity_refill ?cfg) now = (ok, m)" by fastforce
  have fc: "consume (unstriped hash_id ?ids) key (identity_capacity ?cfg) (identity_refill ?cfg) now =
      (ok, unstriped hash_id (?ids[?i := m]))"
    unfolding consume_unstriped [OF len(1)] c by simp
  obtain ok2 m2 where c2: "consume (?ips ! ?j) (to_canonical ip) (ip_ceiling_capacity ?cfg) (ip_ceiling_refill ?cfg) now = (ok2, m2)"
    by fastforce
  have fc2: "consume (unstriped hash_ip ?ips) (to_canonical ip) (ip_ceiling_capacity ?cfg) (ip_ceiling_refill ?cfg) now =
      (ok2, unstriped hash_ip (?ips[?j := m2]))"
    unfolding consume_unstriped [OF len(2)] c2 by simp
  show ?thesis
  proof (cases ok)
    case True
    with False less c c2 fc fc2 len assms(2) show ?thesis
      by (cases ok2) (simp_all add: check_with_identity_def flat_check_def flat_of_def striped_def)
  next
    case okF: False
    with False less c fc len assms(2) show ?thesis
      by (simp add: check_with_identity_def flat_check_def flat_of_def striped_def)
  qed
qed

section \<open>One bucket over time\<close>

text \<open>What a bucket could give at \<open>t\<close> if nobody drew on it before.\<close>

definition level :: "'k buckets \<Rightarrow> 'k \<Rightarrow> real \<Rightarrow> real \<Rightarrow> instant \<Rightarrow> real" where
  "level m k cap rate t = (case m k of None \<Rightarrow> cap
     | Some b \<Rightarrow> min (tokens b + real (t - last_refill b) / 1000000000 * rate) cap)"

text \<open>All buckets of a level carry its parameters, and none is overdrawn.\<close>

definition buckets_ok :: "'k buckets \<Rightarrow> real \<Rightarrow> real \<Rightarrow> instant \<Rightarrow> bool" where
  "buckets_ok m cap rate t \<longleftrightarrow> (\<forall>k b. m k = Some b \<longrightarrow>
     capacity b = cap \<and> refill_rate b = rate \<and> 0 \<le> tokens b \<and> last_refill b \<le> t)"

lemma buckets_ok_later: "buckets_ok m cap rate t \<Longrightarrow> t \<le> u \<Longrightarrow> buckets_ok m cap rate u"
  by (fastforce simp: buckets_ok_def)

lemma level_later:
  assumes "0 \<le> rate" "t \<le> u" "buckets_ok m cap rate t"
  shows "level m k cap rate u \<le> level m k cap rate t + real (u - t) / 1000000000 * rate"
proof (cases "m k")
  case None
  with assms(1) show ?thesis by (simp add: level_def)
next
  case (Some b)
  with assms(3) have "last_refill b \<le> t" by (auto simp: buckets_ok_def)
  with assms(2) have "real (u - last_refill b) = real (t - last_refill b) + real (u - t)" by simp
  then have "tokens b + real (u - last_refill b) / 1000000000 * rate =
      tokens b + real (t - last_refill b) / 1000000000 * rate + real (u - t) / 1000000000 * rate"
    by (simp add: algebra_simps add_divide_distrib)
  moreover have "0 \<le> real (u - t) / 1000000000 * rate" using assms(1) by simp
  ultimately have "min (tokens b + real (u - last_refill b) / 1000000000 * rate) cap
      \<le> min (tokens b + real (t - last_refill b) / 1000000000 * rate) cap + real (u - t) / 1000000000 * rate"
    by linarith
  with Some show ?thesis by (simp add: level_def)
qed

lemma level_nonneg: "buckets_ok m cap rate t \<Longrightarrow> 0 \<le> cap \<Longrightarrow> 0 \<le> rate \<Longrightarrow> 0 \<le> level m k cap rate t"
  by (cases "m k") (auto simp: level_def buckets_ok_def)

lemma consume_level:
  assumes "buckets_ok m cap rate t" "0 \<le> cap" "0 \<le> rate" "consume m key cap rate t = (ok, m')"
  shows "buckets_ok m' cap rate t" "ok \<longleftrightarrow> 1 \<le> level m key cap rate t"
    and "level m' k cap rate t = level m k cap rate t - (if ok \<and> k = key then 1 else 0)"
    and "t \<le> u \<Longrightarrow> level m' k cap rate u = (if k = key
      then min (level m key cap rate t - (if ok then 1 else 0) + real (u - t) / 1000000000 * rate) cap
      else level m k cap rate u)"
proof -
  define b where "b = (case m key of Some b \<Rightarrow> b | None \<Rightarrow> bucket_new cap rate t)"
  have b: "capacity b = cap" "refill_rate b = rate" "0 \<le> tokens b" "last_refill b \<le> t"
    using assms(1,2) by (auto simp: b_def buckets_ok_def bucket_new_def split: option.split)
  have lv: "min (tokens b + real (t - last_refill b) / 1000000000 * rate) cap = level m key cap rate t"
    by (auto simp: b_def level_def bucket_new_def split: option.split)
  note pos = level_nonneg [OF assms(1-3), of key]
  have le: "level m key cap rate t \<le> cap" by (simp add: level_def split: option.split)
  define L where "L = level m key cap rate t"
  have ok: "ok \<longleftrightarrow> 1 \<le> L" and m': "m' = m(key := Some (b\<lparr>tokens := (if ok then L - 1 else L), last_refill := t\<rparr>))"
    using assms(4) lv b unfolding consume_def Let_def b_def [symmetric] try_consume_def L_def
    by (auto split: if_splits)
  show "ok \<longleftrightarrow> 1 \<le> level m key cap rate t" using ok by (simp add: L_def)
  show "buckets_ok m' cap rate t"
    using assms(1) b ok pos unfolding m' by (auto simp: buckets_ok_def L_def)
  show "level m' k cap rate t = level m k cap rate t - (if ok \<and> k = key then 1 else 0)"
    using le unfolding m' by (auto simp: level_def [of "m(key := _)"] L_def [symmetric] min_def) (simp add: level_def)
  show "level m' k cap rate u = (if k = key
      then min (level m key cap rate t - (if ok then 1 else 0) + real (u - t) / 1000000000 * rate) cap
      else level m k cap rate u)" if "t \<le> u"
    unfolding m' by (auto simp: level_def [of "m(key := _)"] L_def [symmetric]) (simp_all add: level_def)
qed

section \<open>The limiter over time\<close>

definition limiter_ok :: "(identity_key \<Rightarrow> nat) \<Rightarrow> (ip_addr \<Rightarrow> nat) \<Rightarrow> rate_limiter \<Rightarrow> instant \<Rightarrow> bool" where
  "limiter_ok hash_id hash_ip s t \<longleftrightarrow> (let cfg = config s in
     striped s \<and> 0 \<le> identity_capacity cfg \<and> 0 \<le> identity_refill cfg \<and> 0 \<le> ip_ceiling_capacity cfg \<and> 0 \<le> ip_ceiling_refill cfg \<and>
     buckets_ok (unstriped hash_id (identity_stripes s)) (identity_capacity cfg) (identity_refill cfg) t \<and>
     buckets_ok (unstriped hash_ip (ip_ceiling_stripes s)) (ip_ceiling_capacity cfg) (ip_ceiling_refill cfg) t)"

definition id_level :: "(identity_key \<Rightarrow> nat) \<Rightarrow> rate_limiter \<Rightarrow> identity_key \<Rightarrow> instant \<Rightarrow> real" where
  "id_level hash_id s k t = level (unstriped hash_id (identity_stripes s)) k (identity_capacity (config s)) (identity_refill (config s)) t"

definition ip_level :: "(ip_addr \<Rightarrow> nat) \<Rightarrow> rate_limiter \<Rightarrow> ip_addr \<Rightarrow> instant \<Rightarrow> real" where
  "ip_level hash_ip s a t = level (unstriped hash_ip (ip_ceiling_stripes s)) a (ip_ceiling_capacity (config s)) (ip_ceiling_refill (config s)) t"

text \<open>A check that is not exempt, level by level.\<close>

lemma check_levels:
  assumes ok: "limiter_ok hash_id hash_ip s t" and key: "identity_key_new ip d = Some key"
  shows "\<exists>allowed s'. check_with_identity hash_id hash_ip s ip d t = Some (allowed, s') \<and> limiter_ok hash_id hash_ip s' t \<and>
    config s' = config s \<and>
    (if is_exempt ip then allowed \<and> s' = s
     else (let id_ok = (1 \<le> id_level hash_id s key t) in
       (allowed \<longleftrightarrow> id_ok \<and> 1 \<le> ip_level hash_ip s (to_canonical ip) t) \<and>
       (\<forall>k u. t \<le> u \<longrightarrow> id_level hash_id s' k u = (if k = key
          then min (id_level hash_id s key t - (if id_ok then 1 else 0) + real (u - t) / 1000000000 * identity_refill (config s))
                 (identity_capacity (config s))
          else id_level hash_id s k u)) \<and>
       (\<forall>a u. t \<le> u \<longrightarrow> ip_level hash_ip s' a u = (if id_ok \<and> a = to_canonical ip
          then min (ip_level hash_ip s a t - (if allowed then 1 else 0) + real (u - t) / 1000000000 * ip_ceiling_refill (config s))
                 (ip_ceiling_capacity (config s))
          else ip_level hash_ip s a u)) \<and>
       blocked_count s' = (if allowed then blocked_count s else blocked_count s + 1)))"
proof -
  have str: "striped s" using ok by (simp add: limiter_ok_def Let_def)
  from check_form [OF str key] obtain s' where s': "check_with_identity hash_id hash_ip s ip d t =
      Some (fst (flat_check (flat_of hash_id hash_ip s) ip key t), s')" "striped s'"
    "flat_of hash_id hash_ip s' = snd (flat_check (flat_of hash_id hash_ip s) ip key t)" by blast
  show ?thesis
  proof (cases "is_exempt ip")
    case True
    with ok show ?thesis by (intro exI [of _ True] exI [of _ s]) (simp add: check_with_identity_def)
  next
    case False
    let ?cfg = "config s"
    let ?ids = "unstriped hash_id (identity_stripes s)" and ?ips = "unstriped hash_ip (ip_ceiling_stripes s)"
    from ok have g: "buckets_ok ?ids (identity_capacity ?cfg) (identity_refill ?cfg) t"
      "buckets_ok ?ips (ip_ceiling_capacity ?cfg) (ip_ceiling_refill ?cfg) t"
      "0 \<le> identity_capacity ?cfg" "0 \<le> identity_refill ?cfg" "0 \<le> ip_ceiling_capacity ?cfg" "0 \<le> ip_ceiling_refill ?cfg"
      by (simp_all add: limiter_ok_def Let_def)
    obtain ok1 m1 where c1: "consume ?ids key (identity_capacity ?cfg) (identity_refill ?cfg) t = (ok1, m1)" by fastforce
    obtain ok2 m2 where c2: "consume ?ips (to_canonical ip) (ip_ceiling_capacity ?cfg) (ip_ceiling_refill ?cfg) t = (ok2, m2)" by fastforce
    note L1 = consume_level [OF g(1,3,4) c1] and L2 = consume_level [OF g(2,5,6) c2]
    have fl: "flat_of hash_id hash_ip s' = (if ok1
        then \<lparr>flat_config = ?cfg, flat_ids = m1, flat_ips = m2, flat_blocked = (if ok2 then blocked_count s else blocked_count s + 1),
              flat_soft = soft_limit_hits s\<rparr>
        else \<lparr>flat_config = ?cfg, flat_ids = m1, flat_ips = ?ips, flat_blocked = blocked_count s + 1, flat_soft = soft_limit_hits s + 1\<rparr>)"
      by (subst s'(3)) (use False c1 c2 in \<open>simp add: flat_check_def flat_of_def\<close>)
    have al: "fst (flat_check (flat_of hash_id hash_ip s) ip key t) = (ok1 \<and> ok2)"
      using False c1 c2 by (simp add: flat_check_def flat_of_def Let_def)
    have st: "config s' = ?cfg" "unstriped hash_id (identity_stripes s') = m1"
      "unstriped hash_ip (ip_ceiling_stripes s') = (if ok1 then m2 else ?ips)"
      "blocked_count s' = (if ok1 \<and> ok2 then blocked_count s else blocked_count s + 1)"
      using fl by (simp_all add: flat_of_def split: if_splits)
    have o1: "ok1 \<longleftrightarrow> 1 \<le> id_level hash_id s key t" and o2: "ok2 \<longleftrightarrow> 1 \<le> ip_level hash_ip s (to_canonical ip) t"
      using L1(2) L2(2) by (simp_all add: id_level_def ip_level_def)
    have "limiter_ok hash_id hash_ip s' t"
      using L1(1) L2(1) g s'(2) by (simp add: limiter_ok_def st Let_def)
    moreover have "\<forall>k u. t \<le> u \<longrightarrow> id_level hash_id s' k u = (if k = key
          then min (id_level hash_id s key t - (if ok1 then 1 else 0) + real (u - t) / 1000000000 * identity_refill (config s))
                 (identity_capacity (config s))
          else id_level hash_id s k u)"
      using L1(4) by (simp add: id_level_def st)
    moreover have "\<forall>a u. t \<le> u \<longrightarrow> ip_level hash_ip s' a u = (if ok1 \<and> a = to_canonical ip
          then min (ip_level hash_ip s a t - (if ok1 \<and> ok2 then 1 else 0) + real (u - t) / 1000000000 * ip_ceiling_refill (config s))
                 (ip_ceiling_capacity (config s))
          else ip_level hash_ip s a u)"
      using L2(4) by (simp add: ip_level_def st)
    ultimately show ?thesis
      using s'(1) al st False unfolding Let_def o1 [symmetric] o2 [symmetric] by simp
  qed
qed

lemma limiter_ok_later: "limiter_ok hash_id hash_ip s t \<Longrightarrow> t \<le> u \<Longrightarrow> limiter_ok hash_id hash_ip s u"
  by (auto simp: limiter_ok_def Let_def intro: buckets_ok_later)

lemma levels_later:
  assumes "limiter_ok hash_id hash_ip s t" "t \<le> u"
  shows "id_level hash_id s k u \<le> id_level hash_id s k t + real (u - t) / 1000000000 * identity_refill (config s)"
    and "ip_level hash_ip s a u \<le> ip_level hash_ip s a t + real (u - t) / 1000000000 * ip_ceiling_refill (config s)"
    and "0 \<le> id_level hash_id s k t" "0 \<le> ip_level hash_ip s a t"
    and "id_level hash_id s k t \<le> identity_capacity (config s)" "ip_level hash_ip s a t \<le> ip_ceiling_capacity (config s)"
proof -
  note ok = assms(1) [unfolded limiter_ok_def Let_def]
  show "id_level hash_id s k u \<le> id_level hash_id s k t + real (u - t) / 1000000000 * identity_refill (config s)"
    unfolding id_level_def by (rule level_later) (use ok assms(2) in simp_all)
  show "ip_level hash_ip s a u \<le> ip_level hash_ip s a t + real (u - t) / 1000000000 * ip_ceiling_refill (config s)"
    unfolding ip_level_def by (rule level_later) (use ok assms(2) in simp_all)
  show "0 \<le> id_level hash_id s k t" unfolding id_level_def by (rule level_nonneg) (use ok in simp_all)
  show "0 \<le> ip_level hash_ip s a t" unfolding ip_level_def by (rule level_nonneg) (use ok in simp_all)
  show "id_level hash_id s k t \<le> identity_capacity (config s)" "ip_level hash_ip s a t \<le> ip_ceiling_capacity (config s)"
    by (simp_all add: id_level_def ip_level_def level_def split: option.split)
qed

type_synonym request = "instant \<times> ip_addr \<times> string option"

fun check_all ::
  "(identity_key \<Rightarrow> nat) \<Rightarrow> (ip_addr \<Rightarrow> nat) \<Rightarrow> rate_limiter \<Rightarrow> request list \<Rightarrow> (bool list \<times> rate_limiter) rust" where
  "check_all hash_id hash_ip s [] = ret ([], s)"
| "check_all hash_id hash_ip s ((t, ip, d) # rs) = do {
     (ok, s') \<leftarrow> check_with_identity hash_id hash_ip s ip d t;
     (oks, s'') \<leftarrow> check_all hash_id hash_ip s' rs;
     ret (ok # oks, s'') }"

text \<open>The admitted requests of an address, and those of an identity.\<close>

definition admitted :: "(ip_addr \<Rightarrow> string option \<Rightarrow> bool) \<Rightarrow> bool list \<Rightarrow> request list \<Rightarrow> nat" where
  "admitted P oks rs = length (filter (\<lambda>(ok, t, ip, d). ok \<and> \<not> is_exempt ip \<and> P ip d) (zip oks rs))"

lemma admitted_simps [simp]: "admitted P [] rs = 0"
  "admitted P (ok # oks) ((t, ip, d) # rs) = of_bool (ok \<and> \<not> is_exempt ip \<and> P ip d) + admitted P oks rs"
  by (simp_all add: admitted_def)

lemma check_step:
  assumes "limiter_ok hash_id hash_ip s t" "check_with_identity hash_id hash_ip s ip d t = Some (ok, s')"
  shows "limiter_ok hash_id hash_ip s' t" "config s' = config s"
    and "id_level hash_id s' k t \<le> id_level hash_id s k t - of_bool (ok \<and> \<not> is_exempt ip \<and> identity_key_new ip d = Some k)"
    and "ip_level hash_ip s' a t \<le> ip_level hash_ip s a t - of_bool (ok \<and> \<not> is_exempt ip \<and> to_canonical ip = a)"
proof -
  have "limiter_ok hash_id hash_ip s' t \<and> config s' = config s \<and>
    id_level hash_id s' k t \<le> id_level hash_id s k t - of_bool (ok \<and> \<not> is_exempt ip \<and> identity_key_new ip d = Some k) \<and>
    ip_level hash_ip s' a t \<le> ip_level hash_ip s a t - of_bool (ok \<and> \<not> is_exempt ip \<and> to_canonical ip = a)"
  proof (cases "is_exempt ip")
    case True
    with assms show ?thesis by (auto simp: check_with_identity_def)
  next
    case False
    with assms(2) obtain key where key: "identity_key_new ip d = Some key"
      by (auto simp: check_with_identity_def split: Option.bind_splits)
    from check_levels [OF assms(1) key] False assms(2) have C: "limiter_ok hash_id hash_ip s' t" "config s' = config s"
      "ok \<longleftrightarrow> 1 \<le> id_level hash_id s key t \<and> 1 \<le> ip_level hash_ip s (to_canonical ip) t"
      "\<forall>k u. t \<le> u \<longrightarrow> id_level hash_id s' k u = (if k = key
          then min (id_level hash_id s key t - (if 1 \<le> id_level hash_id s key t then 1 else 0) + real (u - t) / 1000000000 * identity_refill (config s))
                 (identity_capacity (config s)) else id_level hash_id s k u)"
      "\<forall>a u. t \<le> u \<longrightarrow> ip_level hash_ip s' a u = (if 1 \<le> id_level hash_id s key t \<and> a = to_canonical ip
          then min (ip_level hash_ip s a t - (if ok then 1 else 0) + real (u - t) / 1000000000 * ip_ceiling_refill (config s))
                 (ip_ceiling_capacity (config s)) else ip_level hash_ip s a u)"
      by (simp_all add: Let_def)
    show ?thesis using C(1-3) C(4) [rule_format, of t k] C(5) [rule_format, of t a] key False by auto
  qed
  then show "limiter_ok hash_id hash_ip s' t" "config s' = config s"
    "id_level hash_id s' k t \<le> id_level hash_id s k t - of_bool (ok \<and> \<not> is_exempt ip \<and> identity_key_new ip d = Some k)"
    "ip_level hash_ip s' a t \<le> ip_level hash_ip s a t - of_bool (ok \<and> \<not> is_exempt ip \<and> to_canonical ip = a)" by simp_all
qed

lemma admitted_bound:
  assumes "limiter_ok hash_id hash_ip s t" "check_all hash_id hash_ip s rs = Some (oks, s')"
    "sorted (map fst rs)" "\<forall>r \<in> set rs. t \<le> fst r \<and> fst r \<le> t1" "t \<le> t1"
  shows "real (admitted (\<lambda>ip d. identity_key_new ip d = Some k) oks rs) \<le>
      id_level hash_id s k t + real (t1 - t) / 1000000000 * identity_refill (config s) \<and>
    real (admitted (\<lambda>ip d. to_canonical ip = a) oks rs) \<le>
      ip_level hash_ip s a t + real (t1 - t) / 1000000000 * ip_ceiling_refill (config s)"
  using assms
proof (induction rs arbitrary: s t oks)
  case Nil
  then show ?case
    using levels_later(3,4) [OF Nil(1) order_refl] by (auto simp: limiter_ok_def Let_def)
next
  case (Cons r rs)
  obtain u ip d where r: "r = (u, ip, d)" by (cases r) auto
  from Cons.prems(2) r obtain ok s1 oks' where c: "check_with_identity hash_id hash_ip s ip d u = Some (ok, s1)"
    "check_all hash_id hash_ip s1 rs = Some (oks', s')" "oks = ok # oks'"
    by (auto split: Option.bind_splits prod.splits)
  have tu: "t \<le> u" "u \<le> t1" using Cons.prems(4) r by auto
  note ok = limiter_ok_later [OF Cons.prems(1) tu(1)]
  note S = check_step [OF ok c(1)]
  have "\<forall>q \<in> set rs. u \<le> fst q \<and> fst q \<le> t1" using Cons.prems(3,4) r by auto
  note IH = Cons.IH [OF S(1) c(2) _ this tu(2), unfolded S(2)]
  note later = levels_later(1,2) [OF Cons.prems(1) tu(1)]
  have split: "real (t1 - t) / 1000000000 * x = real (u - t) / 1000000000 * x + real (t1 - u) / 1000000000 * x" for x
  proof -
    have "real (t1 - t) = real (u - t) + real (t1 - u)" using tu by simp
    then show ?thesis by (simp only: add_divide_distrib distrib_right)
  qed
  have adm: "real (admitted P oks (r # rs)) = of_bool (ok \<and> \<not> is_exempt ip \<and> P ip d) + real (admitted P oks' rs)" for P
    using r c(3) by simp
  have "sorted (map fst rs)" using Cons.prems(3) by simp
  note IH = IH [OF this]
  show ?case
    using IH [THEN conjunct1] later(1) [of k] S(3) [of k] split [of "identity_refill (config s)"]
      IH [THEN conjunct2] later(2) [of a] S(4) [of a] split [of "ip_ceiling_refill (config s)"]
    unfolding adm by linarith
qed

lemma limiter_new_ok:
  assumes "0 \<le> id_cap" "0 \<le> id_refill" "0 \<le> ip_cap" "0 \<le> ip_refill"
  shows "limiter_ok hash_id hash_ip (limiter_new id_cap id_refill ip_cap ip_refill) t"
  using assms by (simp add: limiter_ok_def limiter_new_def striped_def buckets_ok_def unstriped_def stripe_for_def stripe_count_def)

section \<open>Pruning\<close>

text \<open>Two limiters that can give the same from now on.\<close>

definition same_levels :: "(identity_key \<Rightarrow> nat) \<Rightarrow> (ip_addr \<Rightarrow> nat) \<Rightarrow> rate_limiter \<Rightarrow> rate_limiter \<Rightarrow> instant \<Rightarrow> bool" where
  "same_levels hash_id hash_ip s s' t \<longleftrightarrow> limiter_ok hash_id hash_ip s t \<and> limiter_ok hash_id hash_ip s' t \<and> config s' = config s \<and>
     (\<forall>k u. t \<le> u \<longrightarrow> id_level hash_id s' k u = id_level hash_id s k u) \<and>
     (\<forall>a u. t \<le> u \<longrightarrow> ip_level hash_ip s' a u = ip_level hash_ip s a u)"

lemma same_levels_step:
  assumes same: "same_levels hash_id hash_ip s s' t" and c: "check_with_identity hash_id hash_ip s ip d t = Some (ok, s1)"
  shows "\<exists>s1'. check_with_identity hash_id hash_ip s' ip d t = Some (ok, s1') \<and> same_levels hash_id hash_ip s1 s1' t"
proof (cases "is_exempt ip")
  case True
  with assms show ?thesis by (auto simp: check_with_identity_def)
next
  case False
  with c obtain key where key: "identity_key_new ip d = Some key"
    by (auto simp: check_with_identity_def split: Option.bind_splits)
  note S = same [unfolded same_levels_def]
  from check_levels [OF _ key, of hash_id hash_ip s t] S c False
  have A: "limiter_ok hash_id hash_ip s1 t" "config s1 = config s"
    "ok \<longleftrightarrow> 1 \<le> id_level hash_id s key t \<and> 1 \<le> ip_level hash_ip s (to_canonical ip) t"
    "\<forall>k u. t \<le> u \<longrightarrow> id_level hash_id s1 k u = (if k = key
          then min (id_level hash_id s key t - (if 1 \<le> id_level hash_id s key t then 1 else 0) + real (u - t) / 1000000000 * identity_refill (config s))
                 (identity_capacity (config s)) else id_level hash_id s k u)"
    "\<forall>a u. t \<le> u \<longrightarrow> ip_level hash_ip s1 a u = (if 1 \<le> id_level hash_id s key t \<and> a = to_canonical ip
          then min (ip_level hash_ip s a t - (if ok then 1 else 0) + real (u - t) / 1000000000 * ip_ceiling_refill (config s))
                 (ip_ceiling_capacity (config s)) else ip_level hash_ip s a u)"
    by (simp_all add: Let_def)
  from check_levels [OF _ key, of hash_id hash_ip s' t] S False obtain ok' s1' where
    B: "check_with_identity hash_id hash_ip s' ip d t = Some (ok', s1')" "limiter_ok hash_id hash_ip s1' t" "config s1' = config s'"
    "ok' \<longleftrightarrow> 1 \<le> id_level hash_id s' key t \<and> 1 \<le> ip_level hash_ip s' (to_canonical ip) t"
    "\<forall>k u. t \<le> u \<longrightarrow> id_level hash_id s1' k u = (if k = key
          then min (id_level hash_id s' key t - (if 1 \<le> id_level hash_id s' key t then 1 else 0) + real (u - t) / 1000000000 * identity_refill (config s'))
                 (identity_capacity (config s')) else id_level hash_id s' k u)"
    "\<forall>a u. t \<le> u \<longrightarrow> ip_level hash_ip s1' a u = (if 1 \<le> id_level hash_id s' key t \<and> a = to_canonical ip
          then min (ip_level hash_ip s' a t - (if ok' then 1 else 0) + real (u - t) / 1000000000 * ip_ceiling_refill (config s'))
                 (ip_ceiling_capacity (config s')) else ip_level hash_ip s' a u)"
    by (auto simp: Let_def)
  have "ok' = ok" using A(3) B(4) S by simp
  moreover have "same_levels hash_id hash_ip s1 s1' t"
    unfolding same_levels_def using A B(2,3,5,6) S \<open>ok' = ok\<close> by simp
  ultimately show ?thesis using B(1) by blast
qed

lemma same_levels_later: "same_levels hash_id hash_ip s s' t \<Longrightarrow> t \<le> u \<Longrightarrow> same_levels hash_id hash_ip s s' u"
  by (auto simp: same_levels_def intro: limiter_ok_later)

lemma same_levels_run:
  "same_levels hash_id hash_ip s s' t \<Longrightarrow> sorted (map fst rs) \<Longrightarrow> \<forall>r \<in> set rs. t \<le> fst r \<Longrightarrow>
   check_all hash_id hash_ip s rs = Some (oks, s1) \<Longrightarrow> \<exists>s1'. check_all hash_id hash_ip s' rs = Some (oks, s1')"
proof (induction rs arbitrary: s s' t oks)
  case (Cons r rs)
  obtain u ip d where r: "r = (u, ip, d)" by (cases r) auto
  from Cons.prems(4) r obtain ok s2 oks' where c: "check_with_identity hash_id hash_ip s ip d u = Some (ok, s2)"
    "check_all hash_id hash_ip s2 rs = Some (oks', s1)" "oks = ok # oks'"
    by (auto split: Option.bind_splits prod.splits)
  have "same_levels hash_id hash_ip s s' u" using same_levels_later [OF Cons.prems(1)] Cons.prems(3) r by simp
  from same_levels_step [OF this c(1)] obtain s2' where
    s2': "check_with_identity hash_id hash_ip s' ip d u = Some (ok, s2')" "same_levels hash_id hash_ip s2 s2' u" by blast
  have "\<forall>q \<in> set rs. u \<le> fst q" "sorted (map fst rs)" using Cons.prems(2) r by auto
  from Cons.IH [OF s2'(2) this(2,1) c(2)] s2'(1) r c(3) show ?case by auto
qed auto

lemma prune_level:
  assumes "buckets_ok m cap rate t" "cap \<le> 60 * rate" "0 \<le> rate" "t \<le> u"
  shows "level (retain_recent t m) k cap rate u = level m k cap rate u"
proof (cases "m k")
  case None
  then show ?thesis by (simp add: level_def retain_recent_def)
next
  case (Some b)
  show ?thesis
  proof (cases "(t - last_refill b) div 1000000000 < 60")
    case True
    with Some show ?thesis by (simp add: level_def retain_recent_def last_seen_def)
  next
    case False
    then have "60000000000 \<le> t - last_refill b" by (simp add: not_less less_eq_div_iff_mult_less_eq)
    then have "60000000000 \<le> u - last_refill b" using assms(4) by linarith
    then have "60 \<le> real (u - last_refill b) / 1000000000" by simp
    then have "60 * rate \<le> real (u - last_refill b) / 1000000000 * rate" using assms(3) by (intro mult_right_mono) simp_all
    moreover have "0 \<le> tokens b" using assms(1) Some by (simp add: buckets_ok_def)
    ultimately have "cap \<le> tokens b + real (u - last_refill b) / 1000000000 * rate" using assms(2) by linarith
    with Some False show ?thesis by (simp add: level_def retain_recent_def last_seen_def)
  qed
qed

lemma unstriped_map: "length stripes = stripe_count \<Longrightarrow> unstriped hash (map (retain_recent now) stripes) = retain_recent now (unstriped hash stripes)"
  using stripe_less [of stripes hash] by (simp add: unstriped_def retain_recent_def fun_eq_iff)

lemma prune_same_levels:
  assumes "limiter_ok hash_id hash_ip s t" "identity_capacity (config s) \<le> 60 * identity_refill (config s)"
    "ip_ceiling_capacity (config s) \<le> 60 * ip_ceiling_refill (config s)"
  shows "same_levels hash_id hash_ip s (prune_idle s t) t"
proof -
  note ok = assms(1) [unfolded limiter_ok_def Let_def]
  then have len: "length (identity_stripes s) = stripe_count" "length (ip_ceiling_stripes s) = stripe_count"
    by (simp_all add: striped_def)
  have keep: "buckets_ok (retain_recent t m) cap rate t" if "buckets_ok m cap rate t" for m :: "'k buckets" and cap rate
    using that by (auto simp: buckets_ok_def retain_recent_def split: option.splits if_splits)
  have "limiter_ok hash_id hash_ip (prune_idle s t) t"
    using ok by (simp add: limiter_ok_def Let_def prune_idle_def striped_def unstriped_map keep)
  then show ?thesis
    using ok assms
    by (simp add: same_levels_def id_level_def ip_level_def prune_idle_def unstriped_map [OF len(1)] unstriped_map [OF len(2)] prune_level)
qed

section \<open>Properties\<close>

text \<open>
  C20: The 32 stripes are invisible: on a limiter with its stripes, a check gives the answer
  of a limiter with one map per level and leads to the state of its successor, no stripe index is
  out of range, and pruning prunes the maps.
\<close>

theorem stripes_refine_maps:
  assumes "striped s" and "identity_key_new ip d = ret key"
  shows "(\<exists>s'. check_with_identity hash_id hash_ip s ip d now =
        ret (fst (flat_check (flat_of hash_id hash_ip s) ip key now), s') \<and> striped s' \<and>
        flat_of hash_id hash_ip s' = snd (flat_check (flat_of hash_id hash_ip s) ip key now)) \<and>
    flat_ids (flat_of hash_id hash_ip (prune_idle s now)) = retain_recent now (flat_ids (flat_of hash_id hash_ip s)) \<and>
    flat_ips (flat_of hash_id hash_ip (prune_idle s now)) = retain_recent now (flat_ips (flat_of hash_id hash_ip s))"
  using check_form [OF assms] assms(1) by (simp add: flat_of_def prune_idle_def unstriped_map striped_def)

lemma new_striped: "striped (limiter_new a b c d)"
  by (simp add: striped_def limiter_new_def)

theorem stripes_refine_maps_witness:
  "\<exists>s'. check_with_identity (\<lambda>k. 77) (\<lambda>a. 5) (from_config default_config) (V4 0x08080808) None 3 = ret (True, s')"
proof -
  have key: "identity_key_new (V4 0x08080808) None = Some \<lparr>key_ip = V4 0x08080808, key_device = None\<rparr>"
    by (simp add: identity_key_new_def)
  have e: "\<not> is_exempt (V4 0x08080808)" by code_simp
  have "fst (flat_check (flat_of (\<lambda>k. 77) (\<lambda>a. 5) (from_config default_config)) (V4 0x08080808)
      \<lparr>key_ip = V4 0x08080808, key_device = None\<rparr> 3)"
    using e by (simp add: flat_check_def flat_of_def from_config_def default_config_def limiter_new_def unstriped_def
        stripe_for_def stripe_count_def consume_def bucket_new_def try_consume_def Let_def)
  moreover have "striped (from_config default_config)" by (simp add: from_config_def new_striped)
  ultimately show ?thesis
    using stripes_refine_maps [OF _ key, of "from_config default_config" "\<lambda>k. 77" "\<lambda>a. 5" 3] by auto
qed

text \<open>
  C19: What is admitted. Over any run of checks from an empty limiter, ordered in time and
  within \<open>t0\<close> and \<open>t1\<close>, an address that is not exempt gets at most its ceiling plus the refill of
  the span, whatever device names it claims, and an identity at most its own capacity plus
  its refill.
\<close>

theorem admission_bound:
  assumes "0 \<le> id_cap" "0 \<le> id_refill" "0 \<le> ip_cap" "0 \<le> ip_refill"
    and "check_all hash_id hash_ip (limiter_new id_cap id_refill ip_cap ip_refill) rs = ret (oks, s')"
    and "sorted (map fst rs)" and "\<forall>r \<in> set rs. t0 \<le> fst r \<and> fst r \<le> t1" and "t0 \<le> t1"
  shows "real (admitted (\<lambda>ip d. identity_key_new ip d = ret k) oks rs) \<le> id_cap + real (t1 - t0) / 1000000000 * id_refill \<and>
    real (admitted (\<lambda>ip d. to_canonical ip = a) oks rs) \<le> ip_cap + real (t1 - t0) / 1000000000 * ip_refill"
proof -
  let ?s = "limiter_new id_cap id_refill ip_cap ip_refill"
  note ok = limiter_new_ok [OF assms(1-4), of hash_id hash_ip t0]
  have cfg: "identity_capacity (config ?s) = id_cap" "identity_refill (config ?s) = id_refill"
    "ip_ceiling_capacity (config ?s) = ip_cap" "ip_ceiling_refill (config ?s) = ip_refill"
    by (simp_all add: limiter_new_def)
  show ?thesis
    using admitted_bound [OF ok assms(5-8), of k a] levels_later(5) [OF ok order_refl, of k]
      levels_later(6) [OF ok order_refl, of a] unfolding cfg by auto
qed

theorem admission_bound_witness:
  "\<exists>ok s'. check_all (\<lambda>k. 0) (\<lambda>a. 0) (limiter_new 1 0 1 0) [(3, V4 0x08080808, None)] = ret ([ok], s') \<and>
     real (admitted (\<lambda>ip d. to_canonical ip = V4 0x08080808) [ok] [(3, V4 0x08080808, None)]) \<le> 1"
proof -
  have key: "identity_key_new (V4 0x08080808) None = Some \<lparr>key_ip = V4 0x08080808, key_device = None\<rparr>"
    by (simp add: identity_key_new_def)
  from check_form [OF new_striped key, of "\<lambda>k. 0" "\<lambda>a. 0" 1 0 1 0 3] obtain ok s' where
    c: "check_all (\<lambda>k. 0) (\<lambda>a. 0) (limiter_new 1 0 1 0) [(3, V4 0x08080808, None)] = Some ([ok], s')" by auto
  from admission_bound [OF _ _ _ _ c, of 3 3] show ?thesis using c by auto
qed

text \<open>
  With refill rates that fill a bucket in the 60 idle seconds, as the default has, pruning
  is invisible: every later run of checks is answered as without it.
\<close>

theorem pruning_is_invisible:
  assumes "0 \<le> id_cap" "id_cap \<le> 60 * id_refill" "0 \<le> ip_cap" "ip_cap \<le> 60 * ip_refill"
    and "check_all hash_id hash_ip (limiter_new id_cap id_refill ip_cap ip_refill) rs = ret (oks, s)"
    and "sorted (map fst (rs @ rs'))" and "\<forall>r \<in> set rs. fst r \<le> t" and "\<forall>r \<in> set rs'. t \<le> fst r"
    and "check_all hash_id hash_ip s rs' = ret (oks', s1)"
  shows "\<exists>s2. check_all hash_id hash_ip (prune_idle s t) rs' = ret (oks', s2)"
proof -
  let ?s = "limiter_new id_cap id_refill ip_cap ip_refill"
  have r: "0 \<le> id_refill" "0 \<le> ip_refill" using assms(1-4) by linarith+
  have run: "limiter_ok hash_id hash_ip s t \<and> config s = config s0"
    if "limiter_ok hash_id hash_ip s0 v" "check_all hash_id hash_ip s0 qs = Some (os, s)" "sorted (map fst qs)"
      "\<forall>r \<in> set qs. v \<le> fst r \<and> fst r \<le> t" "v \<le> t" for s0 v qs os
    using that
  proof (induction qs arbitrary: s0 v os)
    case Nil
    then show ?case by (auto intro: limiter_ok_later)
  next
    case (Cons q qs)
    obtain u ip d where q: "q = (u, ip, d)" by (cases q) auto
    from Cons.prems(2) q obtain ok s1 os' where c: "check_with_identity hash_id hash_ip s0 ip d u = Some (ok, s1)"
      "check_all hash_id hash_ip s1 qs = Some (os', s)"
      by (auto split: Option.bind_splits prod.splits)
    have "v \<le> u" using Cons.prems(4) q by auto
    from check_step(1,2) [OF limiter_ok_later [OF Cons.prems(1) this] c(1)] c(2) Cons.prems(3,4) q
      Cons.IH [of s1 u os'] show ?case by auto
  qed
  have "limiter_ok hash_id hash_ip s t \<and> config s = config ?s"
    using run [OF limiter_new_ok [OF assms(1) r(1) assms(3) r(2)] assms(5), of 0] assms(6,7) by (simp add: sorted_append)
  then have "same_levels hash_id hash_ip s (prune_idle s t) t"
    using assms(2,4) by (intro prune_same_levels) (simp_all add: limiter_new_def)
  from same_levels_run [OF this _ assms(8,9)] assms(6) show ?thesis by (simp add: sorted_append)
qed

theorem pruning_is_invisible_witness:
  "\<exists>ok s1 s2. check_all (\<lambda>k. 0) (\<lambda>a. 0) (from_config default_config) [(61000000000, V4 0x08080808, None)] = ret ([ok], s1) \<and>
     check_all (\<lambda>k. 0) (\<lambda>a. 0) (prune_idle (from_config default_config) 5) [(61000000000, V4 0x08080808, None)] = ret ([ok], s2)"
proof -
  have key: "identity_key_new (V4 0x08080808) None = Some \<lparr>key_ip = V4 0x08080808, key_device = None\<rparr>"
    by (simp add: identity_key_new_def)
  have s: "from_config default_config = limiter_new 60 20 500 200" by (simp add: from_config_def default_config_def)
  from check_form [OF new_striped key, of "\<lambda>k. 0" "\<lambda>a. 0" 60 20 500 200 61000000000] obtain ok s1 where
    c: "check_all (\<lambda>k. 0) (\<lambda>a. 0) (limiter_new 60 20 500 200) [(61000000000, V4 0x08080808, None)] = Some ([ok], s1)" by auto
  have n: "check_all (\<lambda>k. 0) (\<lambda>a. 0) (limiter_new 60 20 500 200) [] = Some ([], limiter_new 60 20 500 200)" by simp
  have "\<exists>s2. check_all (\<lambda>k. 0) (\<lambda>a. 0) (prune_idle (limiter_new 60 20 500 200) 5) [(61000000000, V4 0x08080808, None)] = Some ([ok], s2)"
    by (rule pruning_is_invisible [OF _ _ _ _ n _ _ _ c]) simp_all
  with c show ?thesis unfolding s by blast
qed

text \<open>
  Only private and link-local addresses are exempt: each of them is one the rebind guard
  refuses. They are admitted without any change. For the others a check panics exactly when the
  claimed device name, trimmed, is longer than 64 bytes and its byte 64 is inside a character.
\<close>

theorem exempt_and_panic_spec:
  assumes "striped s"
  shows "(is_exempt ip \<longrightarrow> is_rebind_ip (to_canonical ip) \<and>
      check_with_identity hash_id hash_ip s ip d now = ret (True, s)) \<and>
    (check_with_identity hash_id hash_ip s ip d now = panic \<longleftrightarrow>
      \<not> is_exempt ip \<and> (\<exists>name. d = Some name \<and> 64 < length (trim name) \<and> \<not> char_boundary (trim name) 64))"
proof
  have "is_rebind_ip (to_canonical ip)" if "is_exempt ip"
  proof (cases "to_canonical ip")
    case (V4 a)
    with that show ?thesis
      by (auto simp: is_exempt_def Let_def is_rebind_ipv4_def v4_is_private_def v4_is_loopback_def v4_is_link_local_def)
  next
    case (V6 a)
    with that show ?thesis by (auto simp: is_exempt_def is_rebind_ipv6_def Let_def)
  qed
  then show "is_exempt ip \<longrightarrow> is_rebind_ip (to_canonical ip) \<and> check_with_identity hash_id hash_ip s ip d now = Some (True, s)"
    by (simp add: check_with_identity_def)
  have k: "identity_key_new ip d = None \<longleftrightarrow> (\<exists>name. d = Some name \<and> 64 < length (trim name) \<and> \<not> char_boundary (trim name) 64)"
    by (auto simp: identity_key_new_def Let_def str_slice_to_def split: option.splits if_splits)
  show "check_with_identity hash_id hash_ip s ip d now = None \<longleftrightarrow>
      \<not> is_exempt ip \<and> (\<exists>name. d = Some name \<and> 64 < length (trim name) \<and> \<not> char_boundary (trim name) 64)"
  proof (cases "identity_key_new ip d")
    case None
    with k show ?thesis by (simp add: check_with_identity_def)
  next
    case (Some key)
    obtain r where "check_with_identity hash_id hash_ip s ip d now = Some r"
      using check_form [OF assms Some, of hash_id hash_ip now] by blast
    with Some k show ?thesis by simp
  qed
qed

theorem exempt_and_panic_spec_witness:
  "check_with_identity (\<lambda>k. 0) (\<lambda>a. 0) (from_config default_config) (V4 0x08080808)
     (Some (replicate 63 CHR ''a'' @ [CHR 0xC3, CHR 0xA9])) 0 = panic"
proof -
  have e: "\<not> is_exempt (V4 0x08080808)" by code_simp
  have t: "trim (replicate 63 CHR ''a'' @ [CHR 0xC3, CHR 0xA9]) = replicate 63 CHR ''a'' @ [CHR 0xC3, CHR 0xA9]" by code_simp
  have b: "\<not> char_boundary (replicate 63 CHR ''a'' @ [CHR 0xC3, CHR 0xA9]) 64" by code_simp
  have "striped (from_config default_config)" by (simp add: from_config_def new_striped)
  from exempt_and_panic_spec [OF this] e t b show ?thesis by simp
qed

end
