(* ===== verification/Wal.thy ===== *)
theory Wal
  imports Dns_Name
begin

text \<open>
  The write-ahead log, \<open>src/storage/wal.rs\<close>: checksummed records, the bounded telemetry queue
  and its background writer, the durable configuration records, replay, compaction.

  The file is its contents, read back line by line as \<open>BufRead::lines\<close> does (a line that is not
  UTF-8 ends the reading). Whether the operating system lets a file be written or renamed
  is a parameter of compaction; the iteration order of the hash sets is the parameter \<open>order\<close>.

  The lemmas show that records are read back as written and damaged ones skipped, that
  replaying the log gives the state the operations describe, that compaction keeps that state,
  and that the writer loses, repeats and reorders nothing it has accepted.
\<close>

section \<open>Checksums\<close>

definition fnv_step :: "u32 \<Rightarrow> char \<Rightarrow> u32" where
  "fnv_step h b = (h XOR ucast (char_byte b)) * 16777619"

definition line_checksum :: "string \<Rightarrow> u32" where
  "line_checksum line = foldl fnv_step 2166136261 line"

text \<open>\<open>{:08x}\<close> and \<open>u32::from_str_radix(_, 16)\<close>.\<close>

definition hex_digit :: "nat \<Rightarrow> char" where
  "hex_digit n = (if n < 10 then char_of (48 + n) else char_of (87 + n))"

primrec hex_digits :: "nat \<Rightarrow> nat \<Rightarrow> string" where
  "hex_digits 0 v = []"
| "hex_digits (Suc k) v = hex_digits k (v div 16) @ [hex_digit (v mod 16)]"

definition hex8 :: "u32 \<Rightarrow> string" where
  "hex8 v = hex_digits 8 (unat v)"

definition hex_digit_value :: "char \<Rightarrow> nat option" where
  "hex_digit_value c = (let n = code c in
     if 48 \<le> n \<and> n \<le> 57 then Some (n - 48) else if 97 \<le> n \<and> n \<le> 102 then Some (n - 87)
     else if 65 \<le> n \<and> n \<le> 70 then Some (n - 55) else None)"

fun hex_value :: "nat \<Rightarrow> string \<Rightarrow> nat option" where
  "hex_value acc [] = Some acc"
| "hex_value acc (c # cs) = (case hex_digit_value c of None \<Rightarrow> None | Some d \<Rightarrow> hex_value (16 * acc + d) cs)"

definition parse_hex32 :: "string \<Rightarrow> u32 option" where
  "parse_hex32 s = (let ds = (case s of [] \<Rightarrow> [] | c # cs \<Rightarrow> if c = CHR ''+'' then cs else s) in
     if ds = [] then None
     else case hex_value 0 ds of Some n \<Rightarrow> if n < 2 ^ 32 then Some (word_of_nat n) else None | None \<Rightarrow> None)"

definition newline :: char where
  "newline = CHR 0x0A"

definition crc_mark :: string where
  "crc_mark = '' #crc=''"

text \<open>A record as \<open>writeln!\<close> writes it.\<close>

definition sealed :: "string \<Rightarrow> string" where
  "sealed line = line @ crc_mark @ hex8 (line_checksum line)"

definition written :: "string \<Rightarrow> string" where
  "written line = sealed line @ [newline]"

section \<open>The log\<close>

datatype wal_entry =
    Query string u16 string u16 u32 string
  | Threat string string string

text \<open>\<open>contents\<close> is \<open>None\<close> when no file is open.\<close>

record wal_storage =
  file_path :: string
  contents :: "string option"
  total_records :: u64
  queue :: "wal_entry list"
  dropped_entries :: u64
  compacting :: bool
  batch :: "wal_entry list"

definition in_memory :: "string \<Rightarrow> bool" where
  "in_memory path \<longleftrightarrow> path = '':memory:'' \<or> path = ''''"

text \<open>\<open>opened\<close>: what the file holds when the operating system opens it.\<close>

definition wal_new :: "string \<Rightarrow> string option \<Rightarrow> wal_storage" where
  "wal_new path opened = \<lparr>file_path = path, contents = (if in_memory path then None else opened), total_records = 0,
     queue = [], dropped_entries = 0, compacting = False, batch = []\<rparr>"

definition colon_join :: "string list \<Rightarrow> string" where
  "colon_join parts = join_char CHR '':'' parts"

fun entry_line :: "wal_entry \<Rightarrow> string" where
  "entry_line (Query qn qt client rcode lat action) =
     colon_join [''Q'', qn, decimal (unat qt), client, decimal (unat rcode), decimal (unat lat), action]"
| "entry_line (Threat domain kind client) = colon_join [''T'', domain, kind, client]"

definition flush_batch :: "wal_storage \<Rightarrow> wal_storage" where
  "flush_batch w = (case contents w of
     None \<Rightarrow> w\<lparr>batch := []\<rparr>
   | Some text' \<Rightarrow> w\<lparr>contents := Some (text' @ concat (map (\<lambda>e. written (entry_line e)) (batch w))),
       total_records := total_records w + word_of_nat (length (batch w)), batch := []\<rparr>)"

text \<open>The events of the background writer: an entry arrives, the timer ticks, the channel closes.\<close>

definition writer_receive :: "wal_storage \<Rightarrow> wal_storage" where
  "writer_receive w = (case queue w of
     [] \<Rightarrow> w
   | e # rest \<Rightarrow>
       let room = 50 - Suc (length (batch w));
           w = w\<lparr>batch := batch w @ e # take room rest, queue := drop room rest\<rparr>
       in if length (batch w) \<ge> 50 \<and> \<not> compacting w then flush_batch w else w)"

definition writer_tick :: "wal_storage \<Rightarrow> wal_storage" where
  "writer_tick w = (if batch w \<noteq> [] \<and> \<not> compacting w then flush_batch w else w)"

definition writer_closed :: "wal_storage \<Rightarrow> wal_storage" where
  "writer_closed w = (if batch w \<noteq> [] then flush_batch w else w)"

section \<open>Appending\<close>

definition try_send :: "wal_entry \<Rightarrow> wal_storage \<Rightarrow> wal_storage" where
  "try_send e w = (if length (queue w) < 4096 then w\<lparr>queue := queue w @ [e]\<rparr>
     else w\<lparr>dropped_entries := dropped_entries w + 1\<rparr>)"

definition append_query :: "string \<Rightarrow> u16 \<Rightarrow> string \<Rightarrow> u16 \<Rightarrow> u32 \<Rightarrow> string \<Rightarrow> wal_storage \<Rightarrow> wal_storage" where
  "append_query qn qt client_ip rcode lat_ms action w = try_send (Query qn qt client_ip rcode lat_ms action) w"

definition append_threat_event :: "string \<Rightarrow> string \<Rightarrow> string \<Rightarrow> wal_storage \<Rightarrow> wal_storage" where
  "append_threat_event domain threat_type client_ip w = try_send (Threat domain threat_type client_ip) w"

text \<open>The body shared by the durable records: write, flush, count.\<close>

definition append_lines :: "string list \<Rightarrow> wal_storage \<Rightarrow> wal_storage" where
  "append_lines ls w = (case contents w of None \<Rightarrow> w
     | Some text' \<Rightarrow> w\<lparr>contents := Some (text' @ concat (map written ls)),
         total_records := total_records w + word_of_nat (length ls)\<rparr>)"

definition append_block :: "string \<Rightarrow> wal_storage \<Rightarrow> wal_storage" where
  "append_block domain w = append_lines [''+B:'' @ domain] w"

definition append_whitelist :: "string \<Rightarrow> wal_storage \<Rightarrow> wal_storage" where
  "append_whitelist domain w = append_lines [''+W:'' @ domain] w"

definition append_unblock :: "string \<Rightarrow> wal_storage \<Rightarrow> wal_storage" where
  "append_unblock domain w = append_lines [''-B:'' @ domain] w"

definition append_unwhitelist :: "string \<Rightarrow> wal_storage \<Rightarrow> wal_storage" where
  "append_unwhitelist domain w = append_lines [''-W:'' @ domain] w"

definition append_bypass :: "string \<Rightarrow> wal_storage \<Rightarrow> wal_storage" where
  "append_bypass domain w = append_lines [''+BP:'' @ domain] w"

definition append_unbypass :: "string \<Rightarrow> wal_storage \<Rightarrow> wal_storage" where
  "append_unbypass domain w = append_lines [''-BP:'' @ domain] w"

definition append_instant_block_state :: "bool \<Rightarrow> wal_storage \<Rightarrow> wal_storage" where
  "append_instant_block_state enabled w = append_lines [''+IS_ENABLE:'' @ (if enabled then ''1'' else ''0'')] w"

definition save_instant_block_sources :: "string list \<Rightarrow> wal_storage \<Rightarrow> wal_storage" where
  "save_instant_block_sources srcs w = append_lines (''!IS_SRC_CLEAR'' # map (\<lambda>src. ''+IS_SRC:'' @ src) srcs) w"

definition wal_clear :: "wal_storage \<Rightarrow> wal_storage" where
  "wal_clear w = w\<lparr>contents := map_option (\<lambda>text'. []) (contents w), total_records := 0\<rparr>"

section \<open>Reading\<close>

definition is_utf8 :: "string \<Rightarrow> bool" where
  "is_utf8 s \<longleftrightarrow> utf8_valid_up_to (map char_byte s) = length s"

definition strip_cr :: "string \<Rightarrow> string" where
  "strip_cr s = (if s \<noteq> [] \<and> last s = CHR 0x0D then butlast s else s)"

definition file_lines :: "string \<Rightarrow> string list" where
  "file_lines text' = (let ps = split_char newline text' in
     map strip_cr (if last ps = [] then butlast ps else ps))"

definition readable_lines :: "string \<Rightarrow> string list" where
  "readable_lines text' = takeWhile is_utf8 (file_lines text')"

text \<open>\<open>trim_matches\<close> for NUL and white space.\<close>

function trim_nul_start :: "string \<Rightarrow> string" where
  "trim_nul_start s = (let n = (if s \<noteq> [] \<and> hd s = CHR 0x00 then 1 else ws_width_start s) in
     if n = 0 then s else trim_nul_start (drop n s))"
  by pat_completeness auto
termination
proof (relation "measure length")
  show "wf (measure (length :: string \<Rightarrow> nat))" by simp
next
  fix s :: string and n assume "n = (if s \<noteq> [] \<and> hd s = CHR 0x00 then 1 else ws_width_start s)" "n \<noteq> 0"
  then show "(drop n s, s) \<in> measure length" by (cases s) auto
qed

function trim_nul_end :: "string \<Rightarrow> string" where
  "trim_nul_end s = (let n = (if s \<noteq> [] \<and> last s = CHR 0x00 then 1 else ws_width_end s) in
     if n = 0 then s else trim_nul_end (take (length s - n) s))"
  by pat_completeness auto
termination
proof (relation "measure length")
  show "wf (measure (length :: string \<Rightarrow> nat))" by simp
next
  fix s :: string and n assume "n = (if s \<noteq> [] \<and> last s = CHR 0x00 then 1 else ws_width_end s)" "n \<noteq> 0"
  then show "(take (length s - n) s, s) \<in> measure length" by (cases s) auto
qed

declare trim_nul_start.simps [simp del] trim_nul_end.simps [simp del]

definition trim_nul :: "string \<Rightarrow> string" where
  "trim_nul s = trim_nul_end (trim_nul_start s)"

fun str_rfind :: "string \<Rightarrow> string \<Rightarrow> nat option" where
  "str_rfind p [] = (if p = [] then Some 0 else None)"
| "str_rfind p (x # xs) = (case str_rfind p xs of Some i \<Rightarrow> Some (Suc i)
     | None \<Rightarrow> if starts_with (x # xs) p then Some 0 else None)"

function trim_start_str :: "string \<Rightarrow> string \<Rightarrow> string" where
  "trim_start_str p s = (if p \<noteq> [] \<and> starts_with s p then trim_start_str p (drop (length p) s) else s)"
  by pat_completeness auto
termination
proof (relation "measure (\<lambda>(p, s). length s)")
  show "wf (measure (\<lambda>(p :: string, s :: string). length s))" by simp
next
  fix p s :: string assume "p \<noteq> [] \<and> starts_with s p"
  then show "((p, drop (length p) s), p, s) \<in> measure (\<lambda>(p, s). length s)"
    by (cases s; cases p) (auto simp: starts_with_def)
qed

declare trim_start_str.simps [simp del]

text \<open>
  The payload of a line, \<open>None\<close> for a line that is skipped. The warning about a mismatch
  slices the line at byte 60.
\<close>

definition record_payload :: "string \<Rightarrow> string option rust" where
  "record_payload line = (
     let trimmed_raw = trim_nul line in
     if trimmed_raw = [] then ret None
     else case str_rfind crc_mark trimmed_raw of
       None \<Rightarrow> ret (Some trimmed_raw)
     | Some idx \<Rightarrow>
         let body = take idx trimmed_raw;
             crc_part = drop idx trimmed_raw
         in if trim_nul body = [] then ret None
            else if unwrap_or 0 (parse_hex32 (trim_start_str crc_mark crc_part)) \<noteq> line_checksum body
            then do { shown \<leftarrow> str_slice_to trimmed_raw (min (length trimmed_raw) 60); ret None }
            else ret (Some body))"

record wal_lists =
  blocks :: "string set"
  whitelists :: "string set"
  bypasses :: "string set"
  instant_enabled :: bool
  instant_sources :: "string list"

definition empty_lists :: wal_lists where
  "empty_lists = \<lparr>blocks = {}, whitelists = {}, bypasses = {}, instant_enabled = False, instant_sources = []\<rparr>"

text \<open>\<open>strip_prefix\<close> is \<open>starts_with\<close> and \<open>drop\<close> here.\<close>

definition apply_payload :: "string \<Rightarrow> wal_lists \<Rightarrow> wal_lists" where
  "apply_payload payload ls = (let trimmed = trim payload in
     if starts_with trimmed ''+B:'' then (let domain = drop 3 trimmed in ls\<lparr>blocks := insert domain (blocks ls)\<rparr>) else
     if starts_with trimmed ''-B:'' then (let domain = drop 3 trimmed in ls\<lparr>blocks := blocks ls - {domain}\<rparr>) else
     if starts_with trimmed ''+W:'' then (let domain = drop 3 trimmed in ls\<lparr>whitelists := insert domain (whitelists ls)\<rparr>) else
     if starts_with trimmed ''-W:'' then (let domain = drop 3 trimmed in ls\<lparr>whitelists := whitelists ls - {domain}\<rparr>) else
     if starts_with trimmed ''+BP:'' then (let domain = drop 4 trimmed in ls\<lparr>bypasses := insert domain (bypasses ls)\<rparr>) else
     if starts_with trimmed ''-BP:'' then (let domain = drop 4 trimmed in ls\<lparr>bypasses := bypasses ls - {domain}\<rparr>) else
     if starts_with trimmed ''+IS_ENABLE:'' then (let domain = drop 11 trimmed in ls\<lparr>instant_enabled := (domain = ''1'' \<or> domain = ''true'')\<rparr>) else
     if starts_with trimmed ''+FB:'' then (let domain = drop 4 trimmed in ls\<lparr>instant_enabled := (domain = ''1'' \<or> domain = ''true'')\<rparr>) else
     if starts_with trimmed ''!IS_SRC_CLEAR'' then ls\<lparr>instant_sources := []\<rparr> else
     if starts_with trimmed ''+IS_SRC:'' then (let domain = drop 8 trimmed in ls\<lparr>instant_sources := instant_sources ls @ [domain]\<rparr>) else
     if starts_with trimmed ''+C:'' then (let domain = drop 3 trimmed in ls\<lparr>whitelists := insert domain (whitelists ls)\<rparr>) else
     if starts_with trimmed ''-C:'' then (let domain = drop 3 trimmed in ls\<lparr>whitelists := whitelists ls - {domain}\<rparr>) else
     ls)"

text \<open>The loop of \<open>load_lists\<close>, with the count of lines that are not blank.\<close>

fun replay :: "string list \<Rightarrow> wal_lists \<Rightarrow> u64 \<Rightarrow> (wal_lists \<times> u64) rust" where
  "replay [] ls n = ret (ls, n)"
| "replay (line # rest) ls n = do {
     p \<leftarrow> record_payload line;
     let n' = (if trim_nul line = [] then n else n + 1);
     case p of None \<Rightarrow> replay rest ls n' | Some payload \<Rightarrow> replay rest (apply_payload payload ls) n' }"

definition load_lists :: "wal_storage \<Rightarrow> (wal_lists \<times> wal_storage) rust" where
  "load_lists w = do {
     (ls, n) \<leftarrow> (if in_memory (file_path w) then ret (empty_lists, 0)
                 else case contents w of None \<Rightarrow> ret (empty_lists, 0)
                      | Some text' \<Rightarrow> replay (readable_lines text') empty_lists 0);
     ret (ls, w\<lparr>total_records := n\<rparr>) }"

definition is_open :: "wal_storage \<Rightarrow> bool" where
  "is_open w \<longleftrightarrow> file_path w = '':memory:'' \<or> contents w \<noteq> None"

section \<open>Compaction\<close>

definition is_event :: "string \<Rightarrow> bool" where
  "is_event payload \<longleftrightarrow> starts_with (trim payload) ''Q:'' \<or> starts_with (trim payload) ''T:''"

text \<open>A deque of at most 3000 recent events.\<close>

definition push_event :: "string \<Rightarrow> string list \<Rightarrow> string list" where
  "push_event line evs = (if length evs \<ge> 3000 then tl evs else evs) @ [line]"

fun compact_scan :: "string list \<Rightarrow> wal_lists \<Rightarrow> string list \<Rightarrow> (wal_lists \<times> string list) rust" where
  "compact_scan [] ls evs = ret (ls, evs)"
| "compact_scan (line # rest) ls evs = do {
     p \<leftarrow> record_payload line;
     case p of None \<Rightarrow> compact_scan rest ls evs
     | Some payload \<Rightarrow> compact_scan rest (apply_payload payload ls)
         (if is_event payload then push_event line evs else evs) }"

definition compacted_text :: "(string set \<Rightarrow> string list) \<Rightarrow> wal_lists \<Rightarrow> string list \<Rightarrow> string" where
  "compacted_text order ls evs =
     concat (map (\<lambda>domain. written (''+B:'' @ domain)) (order (blocks ls))) @
     concat (map (\<lambda>domain. written (''+W:'' @ domain)) (order (whitelists ls))) @
     concat (map (\<lambda>domain. written (''+BP:'' @ domain)) (order (bypasses ls))) @
     (if instant_enabled ls then written ''+IS_ENABLE:1'' else []) @
     (if instant_sources ls \<noteq> [] then written ''!IS_SRC_CLEAR'' @
        concat (map (\<lambda>src. written (''+IS_SRC:'' @ src)) (instant_sources ls)) else []) @
     concat (map (\<lambda>re. re @ [newline]) evs)"

text \<open>How the writing of the temporary file and its renaming went.\<close>

datatype compact_io = Replaced | Rename_Failed | Write_Failed

definition compact :: "(string set \<Rightarrow> string list) \<Rightarrow> compact_io \<Rightarrow> wal_storage \<Rightarrow> wal_storage rust" where
  "compact order io w =
    (if in_memory (file_path w) then ret w
     else do {
       (ls, evs) \<leftarrow> (case contents w of None \<Rightarrow> ret (empty_lists, [])
                      | Some text' \<Rightarrow> compact_scan (readable_lines text') empty_lists []);
       let new_count = word_of_nat (card (blocks ls) + card (whitelists ls) + length evs);
       let w' = (case io of
             Replaced \<Rightarrow> w\<lparr>contents := Some (compacted_text order ls evs), total_records := new_count\<rparr>
           | Rename_Failed \<Rightarrow> w\<lparr>total_records := new_count\<rparr>
           | Write_Failed \<Rightarrow> w);
       ret (w'\<lparr>compacting := False\<rparr>) })"

definition file_bytes :: "wal_storage \<Rightarrow> nat" where
  "file_bytes w = (case contents w of None \<Rightarrow> 0 | Some text' \<Rightarrow> length text')"

definition maybe_compact :: "(string set \<Rightarrow> string list) \<Rightarrow> compact_io \<Rightarrow> wal_storage \<Rightarrow> wal_storage rust" where
  "maybe_compact order io w =
    (if in_memory (file_path w) then ret w
     else if file_bytes w > 15 * 1024 * 1024 \<or> total_records w > 50000 then compact order io w else ret w)"

section \<open>Hexadecimal\<close>

lemma hex_value_append: "hex_value acc (xs @ ys) = (case hex_value acc xs of None \<Rightarrow> None | Some a \<Rightarrow> hex_value a ys)"
  by (induction xs arbitrary: acc) (auto split: option.split)

lemma code_hex_digit: "n < 16 \<Longrightarrow> code (hex_digit n) = (if n < 10 then 48 + n else 87 + n)"
  by (simp add: hex_digit_def code_def)

lemma hex_digit_facts: "n < 16 \<Longrightarrow> hex_digit_value (hex_digit n) = Some n \<and> visible (hex_digit n) \<and> hex_digit n \<noteq> CHR ''+''"
  by (auto simp: hex_digit_value_def visible_def code_hex_digit Let_def simp flip: code_inject) (simp_all add: code_def)

lemma hex_value_digits: "hex_value a (hex_digits k v) = Some (a * 16 ^ k + v mod 16 ^ k)"
proof (induction k arbitrary: v)
  case (Suc k)
  have "v mod 16 ^ Suc k = 16 * (v div 16 mod 16 ^ k) + v mod 16"
    using mod_mult2_eq [of v 16 "16 ^ k"] by simp
  with Suc hex_digit_facts [of "v mod 16"] show ?case by (simp add: hex_value_append algebra_simps)
qed simp

lemma hex_digits_set: "c \<in> set (hex_digits k v) \<Longrightarrow> visible c \<and> c \<noteq> CHR ''+''"
proof (induction k arbitrary: v)
  case (Suc k)
  then consider "c \<in> set (hex_digits k (v div 16))" | "c = hex_digit (v mod 16)" by fastforce
  then show ?case
  proof cases
    case 1
    then show ?thesis by (rule Suc.IH)
  next
    case 2
    then show ?thesis using hex_digit_facts [of "v mod 16"] by simp
  qed
qed simp

lemma length_hex_digits: "length (hex_digits k v) = k"
  by (induction k arbitrary: v) simp_all

lemma hex8_facts: "hex8 v \<noteq> []" "c \<in> set (hex8 v) \<Longrightarrow> visible c \<and> c \<noteq> CHR ''+''"
proof -
  have "length (hex8 v) = 8" by (simp only: hex8_def length_hex_digits)
  then show "hex8 v \<noteq> []" by auto
  show "c \<in> set (hex8 v) \<Longrightarrow> visible c \<and> c \<noteq> CHR ''+''" unfolding hex8_def by (rule hex_digits_set)
qed

lemma parse_hex8: "parse_hex32 (hex8 v) = Some v"
proof -
  have h: "(case hex8 v of [] \<Rightarrow> [] | c # cs \<Rightarrow> if c = CHR ''+'' then cs else hex8 v) = hex8 v"
    using hex8_facts(2) [of _ v] by (auto split: list.split)
  have lt: "unat v < 2 ^ 32" using unsigned_less [of v] by simp
  then have "hex_value 0 (hex8 v) = Some (unat v)" by (simp add: hex8_def hex_value_digits)
  then show ?thesis unfolding parse_hex32_def Let_def h using lt hex8_facts(1) by simp
qed

section \<open>Trimming and searching a sealed record\<close>

lemma visible_not_nul: "visible c \<Longrightarrow> c \<noteq> CHR 0x00"
  by (auto simp: visible_def code_def)

lemma no_ws_start: "s \<noteq> [] \<Longrightarrow> visible (hd s) \<Longrightarrow> ws_width_start s = 0"
proof -
  assume s: "s \<noteq> []" "visible (hd s)"
  have "\<not> ws_char (take n s)" for n
    using ws_char_not_visible [of "take n s"] s by (cases s; cases n) auto
  then show ?thesis by (simp add: ws_width_start_def)
qed

lemma no_ws_end: "s \<noteq> [] \<Longrightarrow> visible (last s) \<Longrightarrow> ws_width_end s = 0"
proof -
  assume s: "s \<noteq> []" "visible (last s)"
  have "\<not> ws_char (drop n s)" for n
    using ws_char_not_visible [of "drop n s"] s by (cases "n < length s") (auto simp: last_drop)
  then show ?thesis by (simp add: ws_width_end_def)
qed

lemma trim_nul_start_visible: "s \<noteq> [] \<Longrightarrow> visible (hd s) \<Longrightarrow> trim_nul_start s = s"
  by (subst trim_nul_start.simps) (auto simp: no_ws_start dest: visible_not_nul)

lemma trim_nul_end_visible: "s \<noteq> [] \<Longrightarrow> visible (last s) \<Longrightarrow> trim_nul_end s = s"
  by (subst trim_nul_end.simps) (auto simp: no_ws_end dest: visible_not_nul)

lemma ws_width_end_hd: "s \<noteq> [] \<Longrightarrow> visible (hd s) \<Longrightarrow> ws_width_end s < length s"
proof -
  assume s: "s \<noteq> []" "visible (hd s)"
  have "\<not> ws_char s" using ws_char_not_visible [of s] s by blast
  then have "n < length s" if "ws_char (drop (length s - n) s)" for n
    using that by (cases "n < length s") simp_all
  then show ?thesis using s by (simp add: ws_width_end_def)
qed

lemma trim_nul_end_hd: "s \<noteq> [] \<Longrightarrow> visible (hd s) \<Longrightarrow> trim_nul_end s \<noteq> [] \<and> hd (trim_nul_end s) = hd s"
proof (induction s rule: trim_nul_end.induct)
  case (1 s)
  let ?n = "if s \<noteq> [] \<and> last s = CHR 0x00 then 1 else ws_width_end s"
  show ?case
  proof (cases "?n = 0")
    case True
    then show ?thesis using "1.prems" by (subst (1 2) trim_nul_end.simps) (simp add: Let_def)
  next
    case False
    have "?n < length s"
    proof (cases "s \<noteq> [] \<and> last s = CHR 0x00")
      case True
      then have "length s \<noteq> 1" using "1.prems" visible_not_nul by (cases s) auto
      with True show ?thesis by (cases s) auto
    next
      case False
      show ?thesis unfolding if_not_P [OF False] by (rule ws_width_end_hd [OF "1.prems"])
    qed
    then have t: "take (length s - ?n) s \<noteq> []" "hd (take (length s - ?n) s) = hd s" by auto
    have "trim_nul_end s = trim_nul_end (take (length s - ?n) s)"
      using False by (subst trim_nul_end.simps) (simp add: Let_def)
    with "1.IH" [OF refl False t(1)] t(2) "1.prems"(2) show ?thesis by simp
  qed
qed

lemma trim_end_hd: "s \<noteq> [] \<Longrightarrow> visible (hd s) \<Longrightarrow> trim_end s \<noteq> [] \<and> hd (trim_end s) = hd s"
proof (induction s rule: trim_end.induct)
  case (1 s)
  show ?case
  proof (cases "ws_width_end s = 0")
    case True
    then show ?thesis using "1.prems" by (subst (1 2) trim_end.simps) simp
  next
    case False
    let ?t = "take (length s - ws_width_end s) s"
    have t: "?t \<noteq> []" "hd ?t = hd s" using ws_width_end_hd [OF "1.prems"] by auto
    have "trim_end s = trim_end ?t" using False by (subst trim_end.simps) simp
    with "1.IH" [OF False t(1)] t(2) "1.prems"(2) show ?thesis by simp
  qed
qed

lemma trim_hd: "s \<noteq> [] \<Longrightarrow> visible (hd s) \<Longrightarrow> trim s \<noteq> [] \<and> hd (trim s) = hd s"
  by (simp add: trim_def trim_start_visible trim_end_hd)

lemma str_rfind_none: "p \<noteq> [] \<Longrightarrow> hd p \<notin> set s \<Longrightarrow> str_rfind p s = None"
  by (induction s) (auto simp: starts_with_iff neq_Nil_conv)

lemma str_rfind_last: "str_rfind p s = None \<Longrightarrow> p \<noteq> [] \<Longrightarrow> hd p \<notin> set (tl p) \<Longrightarrow> hd p \<notin> set s \<Longrightarrow>
    str_rfind p (body @ p @ s) = Some (length body)"
proof (induction body)
  case Nil
  then obtain c q where p: "p = c # q" by (cases p) auto
  with Nil have "str_rfind p (q @ s) = None" by (intro str_rfind_none) auto
  with p show ?case by (simp add: starts_with_def)
qed simp

lemma crc_mark_facts: "crc_mark \<noteq> []" "hd crc_mark = CHR '' ''" "CHR '' '' \<notin> set (tl crc_mark)"
  by (simp_all add: crc_mark_def)

lemma not_visible_space: "\<not> visible (CHR '' '')"
  by (simp add: visible_def code_def)

lemma space_not_hex: "CHR '' '' \<notin> set (hex8 v)"
  using hex8_facts(2) [of "CHR '' ''" v] not_visible_space by blast

text \<open>A line with a checksum mark, right or wrong.\<close>

lemma payload_marked:
  assumes "line \<noteq> []" "visible (hd line)"
  shows "record_payload (line @ crc_mark @ hex8 v) = (if v = line_checksum line then Some (Some line)
    else do { shown \<leftarrow> str_slice_to (line @ crc_mark @ hex8 v) (min (length (line @ crc_mark @ hex8 v)) 60); Some None })"
    "trim_nul (line @ crc_mark @ hex8 v) \<noteq> []"
proof -
  let ?s = "line @ crc_mark @ hex8 v"
  have s: "?s \<noteq> []" "visible (hd ?s)" "visible (last ?s)"
    using assms hex8_facts(1) [of v] hex8_facts(2) [of _ v] by auto
  then have t: "trim_nul ?s = ?s"
    by (simp add: trim_nul_def trim_nul_start_visible trim_nul_end_visible)
  then show "trim_nul ?s \<noteq> []" using s by simp
  have "str_rfind crc_mark (hex8 v) = None"
    using crc_mark_facts space_not_hex by (simp add: str_rfind_none)
  then have r: "str_rfind crc_mark ?s = Some (length line)"
    using crc_mark_facts space_not_hex by (intro str_rfind_last) simp_all
  have "trim_start_str crc_mark (hex8 v) = hex8 v"
    using hex8_facts(1) [of v] space_not_hex [of v] crc_mark_facts
    by (subst trim_start_str.simps) (auto simp: starts_with_iff crc_mark_def)
  then have "trim_start_str crc_mark (crc_mark @ hex8 v) = hex8 v"
    using crc_mark_facts(1) by (subst trim_start_str.simps) simp
  moreover have "trim_nul line \<noteq> []"
    using trim_nul_end_hd [OF assms] assms by (simp add: trim_nul_def trim_nul_start_visible)
  ultimately show "record_payload ?s = (if v = line_checksum line then Some (Some line)
    else do { shown \<leftarrow> str_slice_to ?s (min (length ?s) 60); Some None })"
    unfolding record_payload_def Let_def t r option.case using assms(1) by (simp add: parse_hex8)
qed

lemma payload_sealed:
  assumes "line \<noteq> []" "visible (hd line)"
  shows "record_payload (sealed line) = Some (Some line)" "trim_nul (sealed line) \<noteq> []"
  using payload_marked [OF assms, of "line_checksum line"] by (simp_all add: sealed_def)

section \<open>UTF-8\<close>

lemma utf8_width_append: "utf8_width a \<noteq> 0 \<Longrightarrow> utf8_width (a @ b) = utf8_width a"
proof -
  assume w: "utf8_width a \<noteq> 0"
  consider "a = []" | x where "a = [x]" | x y where "a = [x, y]" | x y z where "a = [x, y, z]" | x y z u r where "a = x # y # z # u # r"
    by (metis list.exhaust)
  then show ?thesis using w by cases (simp_all add: utf8_width_def Let_def split: if_splits)
qed

lemma utf8_valid_append:
  "utf8_valid_up_to a = length a \<Longrightarrow> utf8_valid_up_to (a @ b) = length a + utf8_valid_up_to b"
proof (induction a rule: utf8_valid_up_to.induct)
  case (1 a)
  show ?case
  proof (cases "a = []")
    case False
    with "1.prems" have w: "utf8_width a \<noteq> 0" by (subst (asm) utf8_valid_up_to.simps) (auto split: if_splits)
    have le: "utf8_width a \<le> length a" by (rule utf8_width_le)
    have "utf8_valid_up_to (drop (utf8_width a) a) = length (drop (utf8_width a) a)"
      using "1.prems" w False by (subst (asm) utf8_valid_up_to.simps) simp
    with "1.IH" w False have IH: "utf8_valid_up_to (drop (utf8_width a) a @ b) = length (drop (utf8_width a) a) + utf8_valid_up_to b"
      by blast
    have "utf8_valid_up_to (a @ b) = utf8_width a + utf8_valid_up_to (drop (utf8_width a) a @ b)"
      using w False le by (subst utf8_valid_up_to.simps) (simp add: utf8_width_append)
    with IH le show ?thesis by simp
  qed simp
qed

lemma is_utf8_append: "is_utf8 a \<Longrightarrow> is_utf8 b \<Longrightarrow> is_utf8 (a @ b)"
  by (simp add: is_utf8_def utf8_valid_append)

lemma is_utf8_ascii: "\<forall>c \<in> set s. code c < 128 \<Longrightarrow> is_utf8 s"
proof (induction s)
  case Nil
  then show ?case by (simp add: is_utf8_def utf8_valid_up_to.simps)
next
  case (Cons c s)
  have "unat (char_byte c) = code c" by simp
  then have "utf8_width [char_byte c] = 1" using Cons.prems by (simp add: utf8_width_def)
  then have "is_utf8 [c]" by (simp add: is_utf8_def utf8_valid_up_to.simps [of "[char_byte c]"] utf8_valid_up_to.simps [of "[]"])
  with Cons is_utf8_append [of "[c]" s] show ?case by simp
qed

lemma visible_ascii: "visible c \<Longrightarrow> code c < 128"
  by (simp add: visible_def)

section \<open>Lines of the file\<close>

definition good_line :: "string \<Rightarrow> bool" where
  "good_line line \<longleftrightarrow> line \<noteq> [] \<and> visible (hd line) \<and> newline \<notin> set line \<and> is_utf8 line"

lemma not_visible_control: "\<not> visible newline" "\<not> visible (CHR 0x0D)"
  by (simp_all add: visible_def code_def newline_def)

lemma sealed_line:
  assumes "good_line line"
  shows "newline \<notin> set (sealed line)" "is_utf8 (sealed line)" "strip_cr (sealed line) = sealed line"
proof -
  have hex: "\<forall>c \<in> set (hex8 v). visible c" "hex8 v \<noteq> []" for v using hex8_facts by blast+
  have "newline \<notin> set (hex8 v)" for v using hex not_visible_control by blast
  then show "newline \<notin> set (sealed line)"
    using assms by (auto simp: sealed_def good_line_def crc_mark_def newline_def)
  have "is_utf8 crc_mark" by (rule is_utf8_ascii) (simp add: crc_mark_def code_def)
  moreover have "is_utf8 (hex8 v)" for v using hex by (intro is_utf8_ascii) (auto intro: visible_ascii)
  ultimately show "is_utf8 (sealed line)"
    using assms by (simp add: sealed_def good_line_def is_utf8_append)
  have "visible (last (sealed line))" using hex [of "line_checksum line"] by (auto simp: sealed_def)
  then show "strip_cr (sealed line) = sealed line" using not_visible_control by (auto simp: strip_cr_def)
qed

lemma file_lines_Cons: "newline \<notin> set l \<Longrightarrow> file_lines (l @ newline # rest) = strip_cr l # file_lines rest"
  by (auto simp: file_lines_def Let_def split_char_append_sep)

lemma file_lines_Nil [simp]: "file_lines [] = []"
  by (simp add: file_lines_def)

lemma readable_sealed: "good_line l \<Longrightarrow> readable_lines (written l @ rest) = sealed l # readable_lines rest"
  using sealed_line [of l] by (simp add: readable_lines_def written_def file_lines_Cons)

lemma readable_written: "\<forall>l \<in> set ls. good_line l \<Longrightarrow>
    readable_lines (concat (map written ls) @ rest) = map sealed ls @ readable_lines rest"
  by (induction ls) (simp_all add: readable_sealed)

lemma replay_append: "replay (xs @ ys) ls n = do { (ls', n') \<leftarrow> replay xs ls n; replay ys ls' n' }"
  by (induction xs arbitrary: ls n) (auto simp: Let_def split: Option.bind_splits option.splits)

lemma replay_sealed: "\<forall>l \<in> set xs. good_line l \<Longrightarrow>
    replay (map sealed xs) ls n = Some (fold apply_payload xs ls, n + word_of_nat (length xs))"
proof (induction xs arbitrary: ls n)
  case (Cons x xs)
  then have x: "x \<noteq> []" "visible (hd x)" by (simp_all add: good_line_def)
  show ?case using payload_sealed [OF x] Cons by (simp add: Let_def)
qed simp

section \<open>What the log says: the abstract state\<close>

datatype admin =
    Block string | Unblock string | Whitelist string | Unwhitelist string
  | Bypass string | Unbypass string | Instant bool | Sources "string list"

fun admin_run :: "admin \<Rightarrow> wal_storage \<Rightarrow> wal_storage" where
  "admin_run (Block d) w = append_block d w"
| "admin_run (Unblock d) w = append_unblock d w"
| "admin_run (Whitelist d) w = append_whitelist d w"
| "admin_run (Unwhitelist d) w = append_unwhitelist d w"
| "admin_run (Bypass d) w = append_bypass d w"
| "admin_run (Unbypass d) w = append_unbypass d w"
| "admin_run (Instant b) w = append_instant_block_state b w"
| "admin_run (Sources srcs) w = save_instant_block_sources srcs w"

fun admin_effect :: "admin \<Rightarrow> wal_lists \<Rightarrow> wal_lists" where
  "admin_effect (Block d) ls = ls\<lparr>blocks := insert d (blocks ls)\<rparr>"
| "admin_effect (Unblock d) ls = ls\<lparr>blocks := blocks ls - {d}\<rparr>"
| "admin_effect (Whitelist d) ls = ls\<lparr>whitelists := insert d (whitelists ls)\<rparr>"
| "admin_effect (Unwhitelist d) ls = ls\<lparr>whitelists := whitelists ls - {d}\<rparr>"
| "admin_effect (Bypass d) ls = ls\<lparr>bypasses := insert d (bypasses ls)\<rparr>"
| "admin_effect (Unbypass d) ls = ls\<lparr>bypasses := bypasses ls - {d}\<rparr>"
| "admin_effect (Instant b) ls = ls\<lparr>instant_enabled := b\<rparr>"
| "admin_effect (Sources srcs) ls = ls\<lparr>instant_sources := srcs\<rparr>"

fun admin_names :: "admin \<Rightarrow> string list" where
  "admin_names (Block d) = [d]"
| "admin_names (Unblock d) = [d]"
| "admin_names (Whitelist d) = [d]"
| "admin_names (Unwhitelist d) = [d]"
| "admin_names (Bypass d) = [d]"
| "admin_names (Unbypass d) = [d]"
| "admin_names (Instant b) = []"
| "admin_names (Sources srcs) = srcs"

fun admin_lines :: "admin \<Rightarrow> string list" where
  "admin_lines (Block d) = [''+B:'' @ d]"
| "admin_lines (Unblock d) = [''-B:'' @ d]"
| "admin_lines (Whitelist d) = [''+W:'' @ d]"
| "admin_lines (Unwhitelist d) = [''-W:'' @ d]"
| "admin_lines (Bypass d) = [''+BP:'' @ d]"
| "admin_lines (Unbypass d) = [''-BP:'' @ d]"
| "admin_lines (Instant b) = [''+IS_ENABLE:'' @ (if b then ''1'' else ''0'')]"
| "admin_lines (Sources srcs) = ''!IS_SRC_CLEAR'' # map (\<lambda>src. ''+IS_SRC:'' @ src) srcs"

lemma admin_run_lines: "admin_run a w = append_lines (admin_lines a) w"
  by (cases a) (simp_all only: admin_run.simps admin_lines.simps append_block_def append_unblock_def append_whitelist_def
      append_unwhitelist_def append_bypass_def append_unbypass_def append_instant_block_state_def save_instant_block_sources_def)

text \<open>A name that survives a line: no line break, valid UTF-8, nothing to trim at its end.\<close>

definition plain :: "string \<Rightarrow> bool" where
  "plain d \<longleftrightarrow> newline \<notin> set d \<and> is_utf8 d \<and> (d = [] \<or> visible (last d))"

lemma ascii_prefix_good: "p \<noteq> [] \<Longrightarrow> visible (hd p) \<Longrightarrow> newline \<notin> set p \<Longrightarrow> \<forall>c \<in> set p. code c < 128 \<Longrightarrow> plain d \<Longrightarrow> good_line (p @ d)"
  by (simp add: good_line_def plain_def is_utf8_append is_utf8_ascii)

lemma plain_trim: "p \<noteq> [] \<Longrightarrow> visible (hd p) \<Longrightarrow> visible (last p) \<Longrightarrow> plain d \<Longrightarrow> trim (p @ d) = p @ d"
  by (cases "d = []") (auto simp: plain_def intro!: trim_visible)

text \<open>The tags of the records, all visible ASCII.\<close>

definition tags :: "string list" where
  "tags = [''+B:'', ''-B:'', ''+W:'', ''-W:'', ''+BP:'', ''-BP:'', ''+IS_ENABLE:'', ''!IS_SRC_CLEAR'', ''+IS_SRC:'']"

lemma tag_facts: "p \<in> set tags \<Longrightarrow> p \<noteq> [] \<and> visible (hd p) \<and> visible (last p) \<and> newline \<notin> set p \<and> (\<forall>c \<in> set p. code c < 128)"
proof -
  have "list_all (\<lambda>p. p \<noteq> [] \<and> visible (hd p) \<and> visible (last p) \<and> newline \<notin> set p \<and> list_all (\<lambda>c. code c < 128) p) tags"
    by code_simp
  then show "p \<in> set tags \<Longrightarrow> ?thesis" by (auto simp: list_all_iff)
qed

lemma tagged: "p \<in> set tags \<Longrightarrow> plain d \<Longrightarrow> good_line (p @ d) \<and> trim (p @ d) = p @ d"
  using tag_facts [of p] by (simp add: ascii_prefix_good plain_trim)

lemma plain_simps: "plain ''''" "plain ''0''" "plain ''1''"
  by code_simp+

lemma apply_tagged:
  assumes "plain d"
  shows "apply_payload (''+B:'' @ d) ls = ls\<lparr>blocks := insert d (blocks ls)\<rparr>"
    "apply_payload (''-B:'' @ d) ls = ls\<lparr>blocks := blocks ls - {d}\<rparr>"
    "apply_payload (''+W:'' @ d) ls = ls\<lparr>whitelists := insert d (whitelists ls)\<rparr>"
    "apply_payload (''-W:'' @ d) ls = ls\<lparr>whitelists := whitelists ls - {d}\<rparr>"
    "apply_payload (''+BP:'' @ d) ls = ls\<lparr>bypasses := insert d (bypasses ls)\<rparr>"
    "apply_payload (''-BP:'' @ d) ls = ls\<lparr>bypasses := bypasses ls - {d}\<rparr>"
    "apply_payload (''+IS_ENABLE:'' @ d) ls = ls\<lparr>instant_enabled := (d = ''1'' \<or> d = ''true'')\<rparr>"
    "apply_payload (''!IS_SRC_CLEAR'' @ d) ls = ls\<lparr>instant_sources := []\<rparr>"
    "apply_payload (''+IS_SRC:'' @ d) ls = ls\<lparr>instant_sources := instant_sources ls @ [d]\<rparr>"
proof -
  note T = tagged [OF _ assms, THEN conjunct2]
  have t: "trim (''+B:'' @ d) = ''+B:'' @ d" "trim (''-B:'' @ d) = ''-B:'' @ d" "trim (''+W:'' @ d) = ''+W:'' @ d"
    "trim (''-W:'' @ d) = ''-W:'' @ d" "trim (''+BP:'' @ d) = ''+BP:'' @ d" "trim (''-BP:'' @ d) = ''-BP:'' @ d"
    "trim (''+IS_ENABLE:'' @ d) = ''+IS_ENABLE:'' @ d" "trim (''!IS_SRC_CLEAR'' @ d) = ''!IS_SRC_CLEAR'' @ d"
    "trim (''+IS_SRC:'' @ d) = ''+IS_SRC:'' @ d"
    by (rule T, simp add: tags_def)+
  show "apply_payload (''+B:'' @ d) ls = ls\<lparr>blocks := insert d (blocks ls)\<rparr>"
    "apply_payload (''-B:'' @ d) ls = ls\<lparr>blocks := blocks ls - {d}\<rparr>"
    "apply_payload (''+W:'' @ d) ls = ls\<lparr>whitelists := insert d (whitelists ls)\<rparr>"
    "apply_payload (''-W:'' @ d) ls = ls\<lparr>whitelists := whitelists ls - {d}\<rparr>"
    "apply_payload (''+BP:'' @ d) ls = ls\<lparr>bypasses := insert d (bypasses ls)\<rparr>"
    "apply_payload (''-BP:'' @ d) ls = ls\<lparr>bypasses := bypasses ls - {d}\<rparr>"
    "apply_payload (''+IS_ENABLE:'' @ d) ls = ls\<lparr>instant_enabled := (d = ''1'' \<or> d = ''true'')\<rparr>"
    "apply_payload (''!IS_SRC_CLEAR'' @ d) ls = ls\<lparr>instant_sources := []\<rparr>"
    "apply_payload (''+IS_SRC:'' @ d) ls = ls\<lparr>instant_sources := instant_sources ls @ [d]\<rparr>"
    unfolding apply_payload_def t Let_def by (simp_all add: starts_with_def)
qed

lemma good_tags: "plain d \<Longrightarrow> good_line (''+B:'' @ d) \<and> good_line (''-B:'' @ d) \<and> good_line (''+W:'' @ d) \<and>
    good_line (''-W:'' @ d) \<and> good_line (''+BP:'' @ d) \<and> good_line (''-BP:'' @ d) \<and> good_line (''+IS_ENABLE:'' @ d) \<and>
    good_line (''!IS_SRC_CLEAR'' @ d) \<and> good_line (''+IS_SRC:'' @ d)"
proof -
  assume d: "plain d"
  have g: "good_line (p @ d)" if "p \<in> set tags" for p using tagged [OF that d] by simp
  show ?thesis by (intro conjI g) (simp_all add: tags_def)
qed

lemma fold_sources: "\<forall>d \<in> set srcs. plain d \<Longrightarrow> fold apply_payload (map (\<lambda>src. ''+IS_SRC:'' @ src) srcs) ls =
    ls\<lparr>instant_sources := instant_sources ls @ srcs\<rparr>"
proof (induction srcs arbitrary: ls)
  case (Cons s srcs)
  then have "plain s" by simp
  with Cons apply_tagged(9) [OF this, of ls] show ?case by simp
qed simp

lemma admin_lines_effect: "\<forall>d \<in> set (admin_names a). plain d \<Longrightarrow>
    fold apply_payload (admin_lines a) ls = admin_effect a ls \<and> (\<forall>l \<in> set (admin_lines a). good_line l)"
proof (cases a)
  case (Sources srcs)
  assume p: "\<forall>d \<in> set (admin_names a). plain d"
  have "good_line ''!IS_SRC_CLEAR''" using tagged [of "''!IS_SRC_CLEAR''" "[]"] plain_simps(1) by (simp add: tags_def)
  moreover have "good_line (''+IS_SRC:'' @ s)" if "s \<in> set srcs" for s
    using tagged [of "''+IS_SRC:''" s] p Sources that by (simp add: tags_def)
  ultimately show ?thesis
    using p Sources apply_tagged(8) [OF plain_simps(1), of ls] by (simp add: fold_sources)
next
  case (Instant b)
  have "good_line (''+IS_ENABLE:'' @ (if b then ''1'' else ''0''))"
    using tagged [of "''+IS_ENABLE:''"] plain_simps by (simp add: tags_def)
  then show ?thesis
    using Instant apply_tagged(7) [OF plain_simps(2), of ls] apply_tagged(7) [OF plain_simps(3), of ls] by simp
qed (use apply_tagged good_tags in \<open>simp_all\<close>)

section \<open>Runs\<close>

datatype wal_op = Admin admin | Offer wal_entry | Receive | Tick | Close | Pause bool

text \<open>\<open>Pause\<close> is the flag a compaction in another thread sets and clears.\<close>

fun wal_run :: "wal_op \<Rightarrow> wal_storage \<Rightarrow> wal_storage" where
  "wal_run (Admin a) w = admin_run a w"
| "wal_run (Offer (Query qn qt client rcode lat action)) w = append_query qn qt client rcode lat action w"
| "wal_run (Offer (Threat domain kind client)) w = append_threat_event domain kind client w"
| "wal_run Receive w = writer_receive w"
| "wal_run Tick w = writer_tick w"
| "wal_run Close w = writer_closed w"
| "wal_run (Pause b) w = w\<lparr>compacting := b\<rparr>"

definition good_entry :: "wal_entry \<Rightarrow> bool" where
  "good_entry e \<longleftrightarrow> newline \<notin> set (entry_line e) \<and> is_utf8 (entry_line e)"

fun good_op :: "wal_op \<Rightarrow> bool" where
  "good_op (Admin a) \<longleftrightarrow> (\<forall>d \<in> set (admin_names a). plain d)"
| "good_op (Offer e) \<longleftrightarrow> good_entry e"
| "good_op _ \<longleftrightarrow> True"

lemma entry_line_good: "good_entry e \<Longrightarrow> good_line (entry_line e)"
proof -
  have "visible (CHR ''Q'')" "visible (CHR ''T'')" by (simp_all add: visible_def code_def)
  then show "good_entry e \<Longrightarrow> ?thesis"
    by (cases e) (auto simp: good_entry_def good_line_def colon_join_def)
qed

lemma other_tags: "t \<noteq> [] \<Longrightarrow> hd t \<noteq> CHR ''+'' \<Longrightarrow> hd t \<noteq> CHR ''-'' \<Longrightarrow> hd t \<noteq> CHR ''!'' \<Longrightarrow> trim payload = t \<Longrightarrow>
    apply_payload payload ls = ls"
  by (cases t) (simp_all add: apply_payload_def starts_with_def)

lemma entry_line_no_effect: "good_line (entry_line e) \<Longrightarrow> apply_payload (entry_line e) ls = ls"
proof -
  assume g: "good_line (entry_line e)"
  then have "trim (entry_line e) \<noteq> [] \<and> hd (trim (entry_line e)) = hd (entry_line e)"
    by (simp add: good_line_def trim_hd)
  moreover have "hd (entry_line e) = CHR ''Q'' \<or> hd (entry_line e) = CHR ''T''"
    by (cases e) (simp_all add: colon_join_def)
  ultimately show ?thesis by (intro other_tags [OF _ _ _ _ refl]) auto
qed

text \<open>
  The simulation: the file is a sequence of sealed good lines, replaying it gives \<open>ls\<close>, and
  the entries waiting are good.
\<close>

definition log_of :: "wal_storage \<Rightarrow> wal_lists \<Rightarrow> bool" where
  "log_of w ls \<longleftrightarrow> (\<exists>xs. contents w = Some (concat (map written xs)) \<and> (\<forall>l \<in> set xs. good_line l) \<and>
     fold apply_payload xs empty_lists = ls) \<and> (\<forall>e \<in> set (batch w @ queue w). good_entry e)"

lemma log_of_append:
  assumes "log_of w ls" "\<forall>l \<in> set ys. good_line l"
  shows "log_of (append_lines ys w) (fold apply_payload ys ls)"
proof -
  from assms(1) obtain xs where "contents w = Some (concat (map written xs))" "\<forall>l \<in> set xs. good_line l"
    "fold apply_payload xs empty_lists = ls" "\<forall>e \<in> set (batch w @ queue w). good_entry e"
    by (auto simp: log_of_def)
  with assms(2) show ?thesis
    unfolding log_of_def append_lines_def by (intro conjI exI [of _ "xs @ ys"]) auto
qed

lemma flush_append: "contents w \<noteq> None \<Longrightarrow> flush_batch w = (append_lines (map entry_line (batch w)) w)\<lparr>batch := []\<rparr>"
  by (auto simp: flush_batch_def append_lines_def comp_def)

lemma fold_no_effect: "\<forall>e \<in> set es. good_entry e \<Longrightarrow> fold apply_payload (map entry_line es) ls = ls"
  by (induction es) (simp_all add: entry_line_no_effect entry_line_good)

lemma log_of_flush: "log_of w ls \<Longrightarrow> log_of (flush_batch w) ls"
proof -
  assume l: "log_of w ls"
  then have b: "contents w \<noteq> None" "\<forall>e \<in> set (batch w). good_entry e" by (auto simp: log_of_def)
  from log_of_append [OF l, of "map entry_line (batch w)"] b
  have "log_of (append_lines (map entry_line (batch w)) w) ls" by (simp add: fold_no_effect entry_line_good)
  then show ?thesis using b l by (auto simp: flush_append log_of_def append_lines_def)
qed

lemma log_of_run:
  assumes "log_of w ls" "good_op op"
  shows "log_of (wal_run op w) (case op of Admin a \<Rightarrow> admin_effect a ls | _ \<Rightarrow> ls)"
proof (cases op)
  case (Admin a)
  with assms log_of_append [OF assms(1), of "admin_lines a"] admin_lines_effect [of a ls] show ?thesis
    by (simp add: admin_run_lines)
next
  case (Offer e)
  with assms show ?thesis
    by (cases e) (auto simp: append_query_def append_threat_event_def try_send_def log_of_def)
next
  case Receive
  have "log_of (w\<lparr>batch := batch w @ e # take n rest, queue := drop n rest\<rparr>) ls" if "queue w = e # rest" for e rest n
    using assms(1) that by (auto simp: log_of_def dest: in_set_takeD in_set_dropD)
  then show ?thesis
    using Receive assms(1) log_of_flush by (auto simp: writer_receive_def Let_def split: list.split)
next
  case Tick
  then show ?thesis using assms(1) log_of_flush by (simp add: writer_tick_def)
next
  case Close
  then show ?thesis using assms(1) log_of_flush by (simp add: writer_closed_def)
next
  case (Pause b)
  then show ?thesis using assms(1) by (simp add: log_of_def)
qed

lemma readable_Nil [simp]: "readable_lines [] = []"
  by (simp add: readable_lines_def)

lemma log_of_load:
  assumes "log_of w ls" "\<not> in_memory (file_path w)"
  shows "\<exists>n. load_lists w = Some (ls, w\<lparr>total_records := n\<rparr>)"
proof -
  from assms(1) obtain xs where xs: "contents w = Some (concat (map written xs))" "\<forall>l \<in> set xs. good_line l"
    "fold apply_payload xs empty_lists = ls" by (auto simp: log_of_def)
  with readable_written [OF xs(2), of "[]"] have "readable_lines (concat (map written xs)) = map sealed xs" by simp
  with xs replay_sealed [OF xs(2), of empty_lists 0] assms(2) show ?thesis by (auto simp: load_lists_def)
qed

section \<open>Compaction\<close>

lemma compact_scan_replay: "replay lines ls n = Some (ls', n') \<Longrightarrow>
    \<exists>evs'. compact_scan lines ls evs = Some (ls', evs') \<and>
      set evs' \<subseteq> set evs \<union> {l \<in> set lines. \<exists>p. record_payload l = Some (Some p) \<and> is_event p}"
proof (induction lines arbitrary: ls n evs)
  case (Cons line lines)
  from Cons.prems obtain p where p: "record_payload line = Some p" by (auto split: Option.bind_splits)
  show ?case
  proof (cases p)
    case None
    with Cons.prems p obtain m where "replay lines ls m = Some (ls', n')" by (auto simp: Let_def split: if_splits)
    from Cons.IH [OF this, of evs] p None show ?thesis by auto
  next
    case (Some payload)
    with Cons.prems p obtain m where m: "replay lines (apply_payload payload ls) m = Some (ls', n')"
      by (auto simp: Let_def split: if_splits)
    let ?evs = "if is_event payload then push_event line evs else evs"
    from Cons.IH [OF m, of ?evs] obtain evs' where e: "compact_scan lines (apply_payload payload ls) ?evs = Some (ls', evs')"
      "set evs' \<subseteq> set ?evs \<union> {l \<in> set lines. \<exists>p. record_payload l = Some (Some p) \<and> is_event p}" by blast
    have "set ?evs \<subseteq> set evs \<union> {l. l = line \<and> is_event payload}"
      by (auto simp: push_event_def dest: list.set_sel(2) [rotated] split: if_splits)
    with e p Some show ?thesis by fastforce
  qed
qed simp

lemma event_no_effect: "is_event p \<Longrightarrow> apply_payload p ls = ls"
  by (rule other_tags [OF _ _ _ _ refl]) (auto simp: is_event_def starts_with_iff)

lemma replay_events:
  "\<forall>l \<in> set evs. \<exists>p. record_payload l = Some (Some p) \<and> is_event p \<Longrightarrow> \<exists>n'. replay evs ls n = Some (ls, n')"
proof (induction evs arbitrary: n)
  case (Cons l evs)
  then obtain p where p: "record_payload l = Some (Some p)" "is_event p" by auto
  from Cons.IH [of "if trim_nul l = [] then n else n + 1"] Cons.prems p show ?case
    by (auto simp: Let_def event_no_effect)
qed simp

text \<open>A line that has been read is read back when it is written again.\<close>

lemma readable_lines_kept:
  "\<forall>l \<in> set evs. newline \<notin> set l \<and> CHR 0x0D \<notin> set l \<and> is_utf8 l \<Longrightarrow>
   readable_lines (concat (map (\<lambda>re. re @ [newline]) evs)) = evs"
proof (induction evs)
  case (Cons l evs)
  then have "last l \<noteq> CHR 0x0D" if "l \<noteq> []" using that last_in_set by (metis list.set_intros(1))
  then have "strip_cr l = l" by (auto simp: strip_cr_def)
  with Cons show ?case by (simp add: readable_lines_def file_lines_Cons)
qed simp

lemma set_split: "p \<in> set (split_char c s) \<Longrightarrow> set p \<subseteq> set s"
proof (induction s arbitrary: p)
  case (Cons x s)
  then show ?case by (cases "split_char c s") (fastforce split: if_splits)+
qed simp

lemma readable_line_props: "l \<in> set (readable_lines text') \<Longrightarrow> CHR 0x0D \<notin> set text' \<Longrightarrow>
    newline \<notin> set l \<and> CHR 0x0D \<notin> set l \<and> is_utf8 l"
proof -
  assume l: "l \<in> set (readable_lines text')" and cr: "CHR 0x0D \<notin> set text'"
  from l have u: "is_utf8 l" and fl: "l \<in> set (file_lines text')"
    by (auto simp: readable_lines_def dest: set_takeWhileD)
  from fl obtain p where p: "p \<in> set (split_char newline text')" "l = strip_cr p"
    by (auto simp: file_lines_def Let_def split: if_splits dest: in_set_butlastD)
  have "set l \<subseteq> set p" using p(2) by (auto simp: strip_cr_def dest: in_set_butlastD split: if_splits)
  with u split_char_parts [OF p(1)] set_split [OF p(1)] cr show ?thesis by blast
qed

definition compacted_lines :: "(string set \<Rightarrow> string list) \<Rightarrow> wal_lists \<Rightarrow> string list" where
  "compacted_lines order ls =
     map (\<lambda>d. ''+B:'' @ d) (order (blocks ls)) @ map (\<lambda>d. ''+W:'' @ d) (order (whitelists ls)) @
     map (\<lambda>d. ''+BP:'' @ d) (order (bypasses ls)) @ (if instant_enabled ls then [''+IS_ENABLE:'' @ ''1''] else []) @
     (if instant_sources ls \<noteq> [] then (''!IS_SRC_CLEAR'' @ []) # map (\<lambda>d. ''+IS_SRC:'' @ d) (instant_sources ls) else [])"

lemma compacted_text_lines: "compacted_text order ls evs =
    concat (map written (compacted_lines order ls)) @ concat (map (\<lambda>re. re @ [newline]) evs)"
  by (simp add: compacted_text_def compacted_lines_def comp_def)

lemma fold_inserts:
  "\<forall>d \<in> set ds. plain d \<Longrightarrow> fold apply_payload (map (\<lambda>d. ''+B:'' @ d) ds) ls = ls\<lparr>blocks := blocks ls \<union> set ds\<rparr>"
  "\<forall>d \<in> set ds. plain d \<Longrightarrow> fold apply_payload (map (\<lambda>d. ''+W:'' @ d) ds) ls = ls\<lparr>whitelists := whitelists ls \<union> set ds\<rparr>"
  "\<forall>d \<in> set ds. plain d \<Longrightarrow> fold apply_payload (map (\<lambda>d. ''+BP:'' @ d) ds) ls = ls\<lparr>bypasses := bypasses ls \<union> set ds\<rparr>"
proof -
  show "\<forall>d \<in> set ds. plain d \<Longrightarrow> fold apply_payload (map (\<lambda>d. ''+B:'' @ d) ds) ls = ls\<lparr>blocks := blocks ls \<union> set ds\<rparr>"
  proof (induction ds arbitrary: ls)
    case (Cons d ds)
    then show ?case using apply_tagged(1) [of d ls] by simp
  qed simp
  show "\<forall>d \<in> set ds. plain d \<Longrightarrow> fold apply_payload (map (\<lambda>d. ''+W:'' @ d) ds) ls = ls\<lparr>whitelists := whitelists ls \<union> set ds\<rparr>"
  proof (induction ds arbitrary: ls)
    case (Cons d ds)
    then show ?case using apply_tagged(3) [of d ls] by simp
  qed simp
  show "\<forall>d \<in> set ds. plain d \<Longrightarrow> fold apply_payload (map (\<lambda>d. ''+BP:'' @ d) ds) ls = ls\<lparr>bypasses := bypasses ls \<union> set ds\<rparr>"
  proof (induction ds arbitrary: ls)
    case (Cons d ds)
    then show ?case using apply_tagged(5) [of d ls] by simp
  qed simp
qed

lemma compacted_lines_effect:
  assumes "\<forall>d \<in> blocks ls \<union> whitelists ls \<union> bypasses ls \<union> set (instant_sources ls). plain d"
    and "set (order (blocks ls)) = blocks ls" "set (order (whitelists ls)) = whitelists ls" "set (order (bypasses ls)) = bypasses ls"
  shows "fold apply_payload (compacted_lines order ls) empty_lists = ls" "\<forall>l \<in> set (compacted_lines order ls). good_line l"
proof -
  have p: "\<forall>d \<in> set (order (blocks ls)). plain d" "\<forall>d \<in> set (order (whitelists ls)). plain d"
    "\<forall>d \<in> set (order (bypasses ls)). plain d" "\<forall>d \<in> set (instant_sources ls). plain d"
    using assms by auto
  note en = apply_tagged(7) [OF plain_simps(3)] and cl = apply_tagged(8) [OF plain_simps(1)]
  show "fold apply_payload (compacted_lines order ls) empty_lists = ls"
    unfolding compacted_lines_def fold_append o_apply fold_inserts(1) [OF p(1)] fold_inserts(2) [OF p(2)] fold_inserts(3) [OF p(3)]
    by (cases "instant_enabled ls"; cases "instant_sources ls = []")
      (simp_all only: if_True if_False if_not_P [of "\<not> True"] not_True_eq_False not_False_eq_True fold.simps o_apply id_apply en cl
        fold_sources [OF p(4)], simp_all add: empty_lists_def assms)
  have g: "good_line (''+B:'' @ d) \<and> good_line (''+W:'' @ d) \<and> good_line (''+BP:'' @ d) \<and> good_line (''+IS_SRC:'' @ d)" if "plain d" for d
    using good_tags [OF that] by blast
  have "good_line (''+IS_ENABLE:'' @ ''1'')" "good_line (''!IS_SRC_CLEAR'' @ [])" using good_tags plain_simps by blast+
  then show "\<forall>l \<in> set (compacted_lines order ls). good_line l"
    unfolding compacted_lines_def using g p by (auto split: if_splits)
qed

section \<open>The telemetry queue\<close>

fun accepts :: "wal_storage \<Rightarrow> wal_op \<Rightarrow> wal_entry list" where
  "accepts w (Offer e) = (if length (queue w) < 4096 then [e] else [])"
| "accepts w _ = []"

fun run_log :: "wal_op list \<Rightarrow> wal_storage \<Rightarrow> wal_entry list \<times> wal_storage" where
  "run_log [] w = ([], w)"
| "run_log (op # ops) w = (let (es, w') = run_log ops (wal_run op w) in (accepts w op @ es, w'))"

definition telemetry :: "string \<Rightarrow> bool" where
  "telemetry line \<longleftrightarrow> starts_with line ''Q:'' \<or> starts_with line ''T:''"

lemma telemetry_entry: "telemetry (entry_line e)"
  by (cases e) (simp_all add: telemetry_def colon_join_def starts_with_def)

lemma telemetry_admin: "l \<in> set (admin_lines a) \<Longrightarrow> \<not> telemetry l"
  by (cases a) (auto simp: telemetry_def starts_with_def)

text \<open>
  \<open>sent\<close> are the entries in the file, in order, and \<open>sent\<close>, the batch and the queue together
  are what was accepted.
\<close>

definition in_order :: "wal_storage \<Rightarrow> wal_entry list \<Rightarrow> bool" where
  "in_order w accepted \<longleftrightarrow> (\<exists>xs sent. contents w = Some (concat (map written xs)) \<and>
     filter telemetry xs = map entry_line sent \<and> accepted = sent @ batch w @ queue w \<and> length (queue w) \<le> 4096)"

lemma in_order_admin: "in_order w acc \<Longrightarrow> in_order (admin_run a w) acc"
proof -
  assume "in_order w acc"
  then obtain xs sent where x: "contents w = Some (concat (map written xs))" "filter telemetry xs = map entry_line sent"
    "acc = sent @ batch w @ queue w" "length (queue w) \<le> 4096" by (auto simp: in_order_def)
  have "filter telemetry (admin_lines a) = []" using telemetry_admin by (auto simp: filter_empty_conv)
  with x show ?thesis
    unfolding in_order_def admin_run_lines append_lines_def
    by (intro exI [of _ "xs @ admin_lines a"] exI [of _ sent]) simp
qed

lemma in_order_flush: "in_order w acc \<Longrightarrow> in_order (flush_batch w) acc"
proof -
  assume "in_order w acc"
  then obtain xs sent where x: "contents w = Some (concat (map written xs))" "filter telemetry xs = map entry_line sent"
    "acc = sent @ batch w @ queue w" "length (queue w) \<le> 4096" by (auto simp: in_order_def)
  have "filter telemetry (map entry_line es) = map entry_line es" for es by (induction es) (simp_all add: telemetry_entry)
  with x show ?thesis
    unfolding in_order_def flush_batch_def
    by (intro exI [of _ "xs @ map entry_line (batch w)"] exI [of _ "sent @ batch w"]) (simp add: comp_def)
qed

lemma in_order_run: "in_order w acc \<Longrightarrow> in_order (wal_run op w) (acc @ accepts w op)"
proof (cases op)
  case (Offer e)
  moreover assume "in_order w acc"
  ultimately show ?thesis
    by (cases e) (auto simp: append_query_def append_threat_event_def try_send_def in_order_def)
next
  case Receive
  assume i: "in_order w acc"
  have "in_order (w\<lparr>batch := batch w @ e # take n rest, queue := drop n rest\<rparr>) acc" if "queue w = e # rest" for e rest n
    using i that by (auto simp: in_order_def)
  then show ?thesis
    using Receive i in_order_flush by (auto simp: writer_receive_def Let_def split: list.split)
qed (auto simp: in_order_admin writer_tick_def writer_closed_def in_order_flush, auto simp: in_order_def)

lemma in_order_log: "run_log ops w = (es, w') \<Longrightarrow> in_order w acc \<Longrightarrow> in_order w' (acc @ es)"
proof (induction ops arbitrary: w acc es)
  case (Cons op ops)
  from Cons.prems(1) obtain es1 where "run_log ops (wal_run op w) = (es1, w')" "es = accepts w op @ es1"
    by (auto simp: Let_def split: prod.splits)
  with Cons.IH [of "wal_run op w" es1 "acc @ accepts w op"] in_order_run [OF Cons.prems(2), of op] show ?case by simp
qed simp

section \<open>Properties\<close>

text \<open>
  A record is read back as it was written, whatever follows it in the file. With any other
  checksum it is never applied. A line that ends in front of the checksum, as a torn write
  leaves it, passes for a record of the old format.
\<close>

theorem wal_record_round_trip:
  assumes "good_line line"
  shows "readable_lines (written line @ rest) = sealed line # readable_lines rest \<and>
    record_payload (sealed line) = ret (Some line) \<and>
    (v \<noteq> line_checksum line \<longrightarrow> (\<nexists>p. record_payload (line @ crc_mark @ hex8 v) = ret (Some p))) \<and>
    (str_rfind crc_mark line = None \<and> visible (last line) \<longrightarrow> record_payload line = ret (Some line))"
proof -
  from assms have l: "line \<noteq> []" "visible (hd line)" by (simp_all add: good_line_def)
  have "\<nexists>p. record_payload (line @ crc_mark @ hex8 v) = Some (Some p)" if "v \<noteq> line_checksum line"
    using payload_marked [OF l, of v] that by (auto split: Option.bind_splits)
  moreover have "record_payload line = Some (Some line)" if "str_rfind crc_mark line = None" "visible (last line)"
    using that l by (simp add: record_payload_def trim_nul_def trim_nul_start_visible trim_nul_end_visible)
  ultimately show ?thesis using readable_sealed [OF assms] payload_sealed [OF l] by blast
qed

theorem wal_record_round_trip_witness:
  "record_payload (sealed ''+B:ads.example'') = ret (Some ''+B:ads.example'') \<and> record_payload ''+B:ads.ex'' = ret (Some ''+B:ads.ex'')"
proof -
  have "good_line ''+B:ads.example''" by code_simp
  moreover have "good_line ''+B:ads.ex''" "str_rfind crc_mark ''+B:ads.ex'' = None" "visible (last ''+B:ads.ex'')" by code_simp+
  ultimately show ?thesis using wal_record_round_trip by blast
qed

text \<open>
  C21: Replaying a log gives the state its operations describe: after any sequence of
  administrative operations, telemetry and writer events on a fresh file, with names that fit
  on a line, \<open>load_lists\<close> returns the fold of the abstract effects, and telemetry has none.
\<close>

theorem wal_replay_refines:
  assumes "\<not> in_memory path" and "\<forall>op \<in> set ops. good_op op"
  shows "\<exists>n. load_lists (fold wal_run ops (wal_new path (Some []))) =
    ret (fold (\<lambda>op ls. case op of Admin a \<Rightarrow> admin_effect a ls | _ \<Rightarrow> ls) ops empty_lists,
      (fold wal_run ops (wal_new path (Some [])))\<lparr>total_records := n\<rparr>)"
proof -
  have "log_of (fold wal_run ops w) (fold (\<lambda>op ls. case op of Admin a \<Rightarrow> admin_effect a ls | _ \<Rightarrow> ls) ops ls) \<and>
      file_path (fold wal_run ops w) = file_path w" if "log_of w ls" for w ls
    using that assms(2)
  proof (induction ops arbitrary: w ls)
    case (Cons op ops)
    have "file_path (wal_run op w) = file_path w"
    proof (cases op)
      case (Offer e)
      then show ?thesis by (cases e) (simp_all add: append_query_def append_threat_event_def try_send_def)
    next
      case (Admin a)
      then show ?thesis by (simp add: admin_run_lines append_lines_def split: option.split)
    qed (simp_all add: writer_receive_def writer_tick_def writer_closed_def flush_batch_def Let_def split: list.split option.split)
    with Cons.IH [OF log_of_run [OF Cons.prems(1)]] Cons.prems(2) show ?case by simp
  qed simp
  moreover have "log_of (wal_new path (Some [])) empty_lists"
    using assms(1) by (simp add: log_of_def wal_new_def) (rule exI [of _ "[]"], simp)
  ultimately show ?thesis using log_of_load assms(1) by (simp add: wal_new_def)
qed

theorem wal_replay_refines_witness:
  "\<exists>ls w n. load_lists w = ret (ls, w\<lparr>total_records := n\<rparr>) \<and> blocks ls = {''b.org''} \<and> whitelists ls = {''c.org''}"
proof -
  let ?ops = "[Admin (Block ''a.org''), Offer (Threat ''x.org'' ''dga'' ''10.0.0.1''), Admin (Block ''b.org''), Receive, Tick,
    Admin (Unblock ''a.org''), Admin (Whitelist ''c.org'')]"
  have g: "\<forall>op \<in> set ?ops. good_op op"
    by (simp add: plain_def good_entry_def) code_simp
  have m: "\<not> in_memory ''/data/wal''" by (simp add: in_memory_def)
  define ls where "ls = fold (\<lambda>op ls. case op of Admin a \<Rightarrow> admin_effect a ls | _ \<Rightarrow> ls) ?ops empty_lists"
  have "blocks ls = {''b.org''}" "whitelists ls = {''c.org''}" by (simp_all add: ls_def empty_lists_def insert_commute) auto
  with wal_replay_refines [OF m g, folded ls_def] show ?thesis by blast
qed

text \<open>
  C22: Compaction keeps what the log says: when the log can be loaded and its names fit on a
  line, the compacted file loads to the same lists, whatever order the sets are written in.
  When writing or renaming the new file fails, the old file stays.
\<close>

theorem compaction_keeps_lists:
  assumes "\<not> in_memory (file_path w)" and "contents w = Some text'" and "load_lists w = ret (ls, w0)"
    and "CHR 0x0D \<notin> set text'"
    and "\<forall>d \<in> blocks ls \<union> whitelists ls \<union> bypasses ls \<union> set (instant_sources ls). plain d"
    and "set (order (blocks ls)) = blocks ls" "set (order (whitelists ls)) = whitelists ls" "set (order (bypasses ls)) = bypasses ls"
  shows "\<exists>w' n. compact order io w = ret w' \<and> load_lists w' = ret (ls, w'\<lparr>total_records := n\<rparr>) \<and>
    (io \<noteq> Replaced \<longrightarrow> contents w' = contents w)"
proof -
  from assms(1-3) obtain m where rep: "replay (readable_lines text') empty_lists 0 = Some (ls, m)"
    by (auto simp: load_lists_def split: Option.bind_splits)
  from compact_scan_replay [OF rep, of "[]"] obtain evs where evs: "compact_scan (readable_lines text') empty_lists [] = Some (ls, evs)"
    "set evs \<subseteq> {l \<in> set (readable_lines text'). \<exists>p. record_payload l = Some (Some p) \<and> is_event p}" by auto
  let ?xs = "compacted_lines order ls"
  note E = compacted_lines_effect [OF assms(5-8)]
  have "\<forall>l \<in> set evs. newline \<notin> set l \<and> CHR 0x0D \<notin> set l \<and> is_utf8 l"
    using evs(2) readable_line_props [OF _ assms(4)] by blast
  then have "readable_lines (compacted_text order ls evs) = map sealed ?xs @ evs"
    unfolding compacted_text_lines readable_written [OF E(2)] by (simp add: readable_lines_kept)
  moreover obtain m' where "replay (map sealed ?xs @ evs) empty_lists 0 = Some (ls, m')"
    using replay_events [of evs] evs(2) unfolding replay_append replay_sealed [OF E(2)] E(1) by fastforce
  ultimately have "replay (readable_lines (compacted_text order ls evs)) empty_lists 0 = Some (ls, m')" by simp
  then show ?thesis
    using assms(1,2) rep evs(1) by (cases io) (auto simp: compact_def load_lists_def)
qed

theorem compaction_keeps_lists_witness:
  "\<exists>w'. compact (\<lambda>S. if S = {''b.org''} then [''b.org''] else []) Replaced
     (append_block ''b.org'' (wal_new ''/w'' (Some []))) = ret w' \<and>
     (\<exists>n. load_lists w' = ret (empty_lists\<lparr>blocks := {''b.org''}\<rparr>, w'\<lparr>total_records := n\<rparr>))"
proof -
  let ?w = "append_block ''b.org'' (wal_new ''/w'' (Some []))" and ?ls = "empty_lists\<lparr>blocks := {''b.org''}\<rparr>"
  have m: "\<not> in_memory (file_path ?w)" "contents ?w = Some (written ''+B:b.org'')"
    by (simp_all add: append_block_def append_lines_def wal_new_def in_memory_def)
  have p: "plain ''b.org''" by code_simp
  then have g: "\<forall>op \<in> set [Admin (Block ''b.org'')]. good_op op" by simp
  have path: "\<not> in_memory ''/w''" by (simp add: in_memory_def)
  have f: "fold wal_run [Admin (Block ''b.org'')] (wal_new ''/w'' (Some [])) = ?w"
    "fold (\<lambda>op ls. case op of Admin a \<Rightarrow> admin_effect a ls | _ \<Rightarrow> ls) [Admin (Block ''b.org'')] empty_lists = ?ls"
    by (simp_all add: empty_lists_def)
  from wal_replay_refines [OF path g] obtain n where l: "load_lists ?w = Some (?ls, ?w\<lparr>total_records := n\<rparr>)"
    unfolding f by (elim exE) (rule that)
  have "CHR 0x0D \<notin> set (hex8 v)" for v using hex8_facts(2) not_visible_control by blast
  then have c: "CHR 0x0D \<notin> set (written ''+B:b.org'')"
    by (simp add: written_def sealed_def crc_mark_def newline_def)
  have names: "\<forall>d \<in> blocks ?ls \<union> whitelists ?ls \<union> bypasses ?ls \<union> set (instant_sources ?ls). plain d"
    using p by (simp add: empty_lists_def)
  let ?order = "\<lambda>S. if S = {''b.org''} then [''b.org''] else []"
  have o: "set (?order (blocks ?ls)) = blocks ?ls" "set (?order (whitelists ?ls)) = whitelists ?ls"
    "set (?order (bypasses ?ls)) = bypasses ?ls" by (simp_all add: empty_lists_def)
  from compaction_keeps_lists [OF m l c names o, of Replaced] show ?thesis
    by (elim exE conjE) (intro exI conjI, assumption, assumption)
qed

text \<open>
  The telemetry path loses, repeats and reorders nothing it has accepted: in every run from
  a fresh file the telemetry records in the file, then the batch, then the queue are the
  accepted entries in order, the queue never exceeds 4096 entries, and each entry that is not
  accepted is counted.
\<close>

theorem telemetry_in_order:
  assumes "\<not> in_memory path" and "run_log ops (wal_new path (Some [])) = (accepted, w)"
  shows "(\<exists>xs sent. contents w = Some (concat (map written xs)) \<and> filter telemetry xs = map entry_line sent \<and>
      accepted = sent @ batch w @ queue w) \<and>
    length (queue w) \<le> 4096 \<and>
    dropped_entries w = word_of_nat (length (filter (\<lambda>op. case op of Offer e \<Rightarrow> True | _ \<Rightarrow> False) ops)) - word_of_nat (length accepted)"
proof -
  have "in_order (wal_new path (Some [])) []"
    using assms(1) by (simp add: in_order_def wal_new_def) (rule exI [of _ "[]"], simp)
  then have "in_order w accepted" using in_order_log [OF assms(2), of "[]"] by simp
  moreover have "dropped_entries w = dropped_entries w0 +
      word_of_nat (length (filter (\<lambda>op. case op of Offer e \<Rightarrow> True | _ \<Rightarrow> False) ops)) - word_of_nat (length accepted)"
    if "run_log ops w0 = (accepted, w)" for w0
    using that
  proof (induction ops arbitrary: w0 accepted)
    case (Cons op ops)
    then obtain es where es: "run_log ops (wal_run op w0) = (es, w)" "accepted = accepts w0 op @ es"
      by (auto simp: Let_def split: prod.splits)
    have "dropped_entries (wal_run op w0) = dropped_entries w0 +
        word_of_nat (length (filter (\<lambda>op. case op of Offer e \<Rightarrow> True | _ \<Rightarrow> False) [op])) - word_of_nat (length (accepts w0 op))"
    proof (cases op)
      case (Offer e)
      then show ?thesis by (cases e) (simp_all add: append_query_def append_threat_event_def try_send_def)
    next
      case (Admin a)
      then show ?thesis by (simp add: admin_run_lines append_lines_def split: option.split)
    qed (simp_all add: writer_receive_def writer_tick_def writer_closed_def flush_batch_def Let_def split: list.split option.split)
    with Cons.IH [OF es(1)] es(2) show ?case by (cases op) simp_all
  qed simp
  ultimately show ?thesis using assms(2) by (force simp: in_order_def wal_new_def)
qed

theorem telemetry_in_order_witness:
  "dropped_entries (snd (run_log [Offer (Threat ''x.org'' ''dga'' ''10.0.0.1''), Receive, Tick] (wal_new ''/w'' (Some [])))) = 0"
proof -
  let ?ops = "[Offer (Threat ''x.org'' ''dga'' ''10.0.0.1''), Receive, Tick]"
  have m: "\<not> in_memory ''/w''" by (simp add: in_memory_def)
  have r: "run_log ?ops (wal_new ''/w'' (Some [])) =
      ([Threat ''x.org'' ''dga'' ''10.0.0.1''], snd (run_log ?ops (wal_new ''/w'' (Some []))))"
    by (simp add: wal_new_def)
  from telemetry_in_order [OF m r] show ?thesis by simp
qed

end
