(* ===== verification/Pattern.thy ===== *)
theory Pattern
  imports Rust_Str
begin

text \<open>
  The patterns of the block, bypass and instant lists (\<open>src/src/state.rs\<close>): the glob matcher
  \<open>wildcard_match\<close>, the rule matcher \<open>domain_matches_pattern\<close>, and the two normalizers of feed
  lines. The matcher backtracks to the last star only; it is compared with the textbook
  definition of a glob. Rules are also read as sequences of labels.
\<close>

section \<open>The matchers\<close>

text \<open>The loop state is \<open>p_idx\<close>, \<open>t_idx\<close>, \<open>star_idx\<close>, \<open>match_idx\<close>.\<close>

function wildcard_loop :: "string \<Rightarrow> string \<Rightarrow> nat \<Rightarrow> nat \<Rightarrow> nat option \<Rightarrow> nat \<Rightarrow> bool" where
  "wildcard_loop p t p_idx t_idx star_idx match_idx =
    (if t_idx < length t then
       (if p_idx < length p \<and> (p ! p_idx = CHR ''?'' \<or> p ! p_idx = t ! t_idx)
        then wildcard_loop p t (p_idx + 1) (t_idx + 1) star_idx match_idx
        else if p_idx < length p \<and> p ! p_idx = CHR ''*''
        then wildcard_loop p t (p_idx + 1) t_idx (Some p_idx) t_idx
        else (case star_idx of
            Some star \<Rightarrow> wildcard_loop p t (star + 1) (match_idx + 1) star_idx (match_idx + 1)
          | None \<Rightarrow> False))
     else dropWhile (\<lambda>c. c = CHR ''*'') (drop p_idx p) = [])"
  by pat_completeness auto
termination
  by (relation "measures [\<lambda>(p, t, p_idx, t_idx, star_idx, match_idx). length t - min match_idx t_idx,
      \<lambda>(p, t, p_idx, t_idx, star_idx, match_idx). length p - p_idx]") auto

declare wildcard_loop.simps [simp del]

definition wildcard_match :: "string \<Rightarrow> string \<Rightarrow> bool" where
  "wildcard_match pattern txt' = wildcard_loop pattern txt' 0 0 None 0"

definition domain_matches_pattern :: "string \<Rightarrow> string \<Rightarrow> bool" where
  "domain_matches_pattern pattern domain = (
     let clean_pat = to_ascii_lowercase (trim_end_char CHR ''.'' (trim pattern));
         clean_dom = to_ascii_lowercase (trim_end_char CHR ''.'' (trim domain)) in
     if clean_pat = clean_dom then True
     else (case strip_prefix clean_pat ''*.'' of
         Some root \<Rightarrow> ends_with clean_dom (''.'' @ root)
       | None \<Rightarrow>
           if CHR ''*'' \<notin> set clean_pat then ends_with clean_dom (''.'' @ clean_pat)
           else wildcard_match clean_pat clean_dom))"

section \<open>Feed lines\<close>

text \<open>\<open>find(|c| c.is_whitespace())\<close>.\<close>

fun str_find_ws :: "string \<Rightarrow> nat option" where
  "str_find_ws [] = None"
| "str_find_ws (x # xs) = (if ws_width_start (x # xs) \<noteq> 0 then Some 0 else map_option Suc (str_find_ws xs))"

definition rule_char :: "char \<Rightarrow> bool" where
  "rule_char c \<longleftrightarrow> is_alnum_code (code c) \<or> c = CHR ''.'' \<or> c = CHR ''-'' \<or> c = CHR ''_'' \<or> c = CHR ''*''"

definition comment_char :: "char \<Rightarrow> bool" where
  "comment_char c \<longleftrightarrow> c \<in> {CHR ''#'', CHR ''!'', CHR ''@'', CHR '';'', CHR ''/'', CHR ''['', CHR ''$''}"

text \<open>One step of a normalizer: drop a given prefix, or the last character.\<close>

definition without_prefix :: "string \<Rightarrow> string \<Rightarrow> string" where
  "without_prefix p h = (if starts_with h p then drop (length p) h else h)"

definition without_last :: "char \<Rightarrow> string \<Rightarrow> string" where
  "without_last c h = (if ends_with h [c] then take (length h - 1) h else h)"

definition cut_at :: "char \<Rightarrow> string \<Rightarrow> string" where
  "cut_at c h = (case str_find c h of Some idx \<Rightarrow> take idx h | None \<Rightarrow> h)"

definition hosts_field :: "string \<Rightarrow> string option" where
  "hosts_field h = (case str_find_ws h of
       None \<Rightarrow> Some h
     | Some idx \<Rightarrow> let ip = take idx h in
         if ip = ''0.0.0.0'' \<or> ip = ''127.0.0.1'' \<or> ip = ''::1'' \<or> ip = ''::'' then Some (trim (drop idx h))
         else None)"

definition normalize_instant_block_line :: "string \<Rightarrow> string option" where
  "normalize_instant_block_line raw = (
     let h = to_ascii_lowercase (trim raw) in
     if h = [] then None
     else if comment_char (hd h) then None
     else if starts_with h ''@@'' then None
     else
       let h = without_prefix ''||'' h;
           h = without_prefix ''|'' h;
           h = cut_at CHR ''$'' h;
           h = without_last CHR ''^'' h;
           h = without_prefix ''local=/'' h;
           h = without_last CHR ''/'' h in
       (case hosts_field h of
          None \<Rightarrow> None
        | Some h \<Rightarrow>
            let h = trim (trim_end_char CHR ''.'' h) in
            if h = [] \<or> CHR '' '' \<in> set h \<or> length h > 253 then None
            else if \<exists>c \<in> set h. \<not> rule_char c then None
            else Some h))"

definition normalize_blocklist_line :: "string \<Rightarrow> string option" where
  "normalize_blocklist_line raw = (
     let h = to_ascii_lowercase (trim raw) in
     if h = [] then None
     else if comment_char (hd h) then None
     else if starts_with h ''@@'' then None
     else
       let h = without_prefix ''||'' h;
           h = without_prefix ''|'' h;
           h = (if starts_with h ''*.'' then drop 2 h else if starts_with h ''*'' then drop 1 h else h);
           h = cut_at CHR ''$'' h;
           h = without_last CHR ''^'' h;
           h = without_prefix ''local=/'' h;
           h = without_last CHR ''/'' h in
       (case hosts_field h of
          None \<Rightarrow> None
        | Some h \<Rightarrow>
            let h = trim (trim_end_char CHR ''.'' h) in
            if h = [] \<or> CHR ''.'' \<notin> set h \<or> CHR '' '' \<in> set h \<or> CHR ''/'' \<in> set h \<or>
               starts_with h ''-'' \<or> length h > 253 then None
            else if \<exists>c \<in> set h. \<not> rule_char c then None
            else Some h))"

section \<open>Globs\<close>

text \<open>The textbook glob: a star matches any text, a question mark any byte.\<close>

fun glob :: "string \<Rightarrow> string \<Rightarrow> bool" where
  "glob [] t = (t = [])"
| "glob (c # p) t =
    (if c = CHR ''*'' then glob p t \<or> (case t of [] \<Rightarrow> False | _ # t' \<Rightarrow> glob (c # p) t')
     else (case t of [] \<Rightarrow> False | x # t' \<Rightarrow> (c = CHR ''?'' \<or> c = x) \<and> glob p t'))"

lemma glob_star: "glob (CHR ''*'' # p) t \<longleftrightarrow> (\<exists>k \<le> length t. glob p (drop k t))"
proof (induction t)
  case (Cons x t)
  have "(\<exists>k \<le> length (x # t). glob p (drop k (x # t))) \<longleftrightarrow> glob p (x # t) \<or> (\<exists>k \<le> length t. glob p (drop k t))"
    (is "?l \<longleftrightarrow> ?r")
  proof
    assume ?l
    then obtain k where "k \<le> length (x # t)" "glob p (drop k (x # t))" by blast
    then show ?r by (cases k) (simp_all, blast)
  next
    assume ?r
    then show ?l
    proof
      assume "\<exists>k \<le> length t. glob p (drop k t)"
      then obtain k where "k \<le> length t" "glob p (drop k t)" by blast
      then show ?l by (intro exI [of _ "Suc k"]) simp
    qed (intro exI [of _ 0], simp)
  qed
  with Cons show ?case by (subst glob.simps(2)) (simp del: glob.simps(2))
qed simp

lemma glob_star_Nil [simp]: "glob (CHR ''*'' # p) [] = glob p []"
  by simp

lemma glob_star_here: "glob p t \<Longrightarrow> glob (CHR ''*'' # p) t"
  by (subst glob.simps(2)) simp

lemma glob_star_skip: "glob (CHR ''*'' # p) t \<Longrightarrow> glob (CHR ''*'' # p) (x # t)"
  by (subst glob.simps(2)) simp

lemma glob_star_drop: "glob (CHR ''*'' # p) (drop k t) \<Longrightarrow> glob (CHR ''*'' # p) t"
proof (induction t arbitrary: k)
  case (Cons x t)
  then show ?case by (cases k) (auto intro: glob_star_skip simp del: glob.simps)
qed simp

lemma glob_Nil: "glob p [] \<longleftrightarrow> dropWhile (\<lambda>c. c = CHR ''*'') p = []"
  by (induction p) auto

lemma glob_literal: "c \<noteq> CHR ''*'' \<Longrightarrow> glob (c # p) (x # t) \<longleftrightarrow> (c = CHR ''?'' \<or> c = x) \<and> glob p t"
  by simp

declare glob.simps(2) [simp del]

text \<open>A run of the pattern without stars, against a text of its length.\<close>

definition run_matches :: "string \<Rightarrow> string \<Rightarrow> bool" where
  "run_matches = list_all2 (\<lambda>c x. c \<noteq> CHR ''*'' \<and> (c = CHR ''?'' \<or> c = x))"

lemma glob_run: "run_matches a b \<Longrightarrow> glob (a @ p) (b @ t) = glob p t"
  unfolding run_matches_def by (induction rule: list_all2_induct) (simp_all add: glob_literal)

lemma glob_run_length: "\<forall>c \<in> set a. c \<noteq> CHR ''*'' \<Longrightarrow> glob (a @ p) t \<Longrightarrow> length a \<le> length t \<and> glob p (drop (length a) t)"
proof (induction a arbitrary: t)
  case (Cons c a)
  then show ?case by (cases t) (auto simp: glob.simps(2))
qed simp

lemma run_matches_length: "run_matches a b \<Longrightarrow> length a = length b"
  by (auto simp: run_matches_def dest: list_all2_lengthD)

lemma run_matches_no_star: "run_matches a b \<Longrightarrow> \<forall>c \<in> set a. c \<noteq> CHR ''*''"
  unfolding run_matches_def by (induction rule: list_all2_induct) auto

text \<open>A later star makes the choice of an earlier one irrelevant.\<close>

lemma glob_last_star:
  assumes r: "run_matches a b"
  shows "glob (CHR ''*'' # a @ CHR ''*'' # q) (b @ t) \<longleftrightarrow> glob (CHR ''*'' # q) t"
proof
  assume "glob (CHR ''*'' # a @ CHR ''*'' # q) (b @ t)"
  then obtain k where "glob (a @ CHR ''*'' # q) (drop k (b @ t))" by (auto simp: glob_star)
  from glob_run_length [OF run_matches_no_star [OF r] this] run_matches_length [OF r]
  have "glob (CHR ''*'' # q) (drop (k + length b) (b @ t))" by (simp add: add.commute del: drop_append)
  then have "glob (CHR ''*'' # q) (drop k t)" by simp
  then show "glob (CHR ''*'' # q) t" by (rule glob_star_drop)
next
  assume "glob (CHR ''*'' # q) t"
  then show "glob (CHR ''*'' # a @ CHR ''*'' # q) (b @ t)"
    by (intro glob_star_here) (simp add: glob_run [OF r])
qed

lemma glob_star_mismatch:
  assumes r: "run_matches a b" and n: "\<not> glob p t" and b: "b @ t \<noteq> []"
  shows "glob (CHR ''*'' # a @ p) (b @ t) \<longleftrightarrow> glob (CHR ''*'' # a @ p) (tl (b @ t))"
  using b n by (cases "b @ t") (simp_all add: glob.simps(2) [of "CHR ''*''"] glob_run [OF r, of p t, symmetric])

lemma glob_star_end:
  assumes r: "run_matches a b"
  shows "glob (CHR ''*'' # a @ p) b \<longleftrightarrow> glob p []"
proof
  assume "glob (CHR ''*'' # a @ p) b"
  then obtain k where k: "k \<le> length b" "glob (a @ p) (drop k b)" by (auto simp: glob_star)
  from glob_run_length [OF run_matches_no_star [OF r] k(2)] run_matches_length [OF r] k(1)
  show "glob p []" by simp
next
  assume "glob p []"
  then show "glob (CHR ''*'' # a @ p) b" using glob_run [OF r, of p "[]"] by (intro glob_star_here) simp
qed

section \<open>The loop computes the glob\<close>

definition state_glob :: "string \<Rightarrow> string \<Rightarrow> nat \<Rightarrow> nat \<Rightarrow> nat option \<Rightarrow> nat \<Rightarrow> bool" where
  "state_glob p t p_idx t_idx star_idx match_idx = (case star_idx of
     None \<Rightarrow> glob (drop p_idx p) (drop t_idx t)
   | Some s \<Rightarrow> glob (CHR ''*'' # drop (s + 1) p) (drop match_idx t))"

definition loop_ok :: "string \<Rightarrow> string \<Rightarrow> nat \<Rightarrow> nat \<Rightarrow> nat option \<Rightarrow> nat \<Rightarrow> bool" where
  "loop_ok p t p_idx t_idx star_idx match_idx = (case star_idx of
     None \<Rightarrow> True
   | Some s \<Rightarrow> s < p_idx \<and> p_idx \<le> length p \<and> match_idx \<le> t_idx \<and> t_idx \<le> length t \<and>
       run_matches (take (p_idx - (s + 1)) (drop (s + 1) p)) (take (t_idx - match_idx) (drop match_idx t)))"

lemma drop_split: "i \<le> j \<Longrightarrow> drop i xs = take (j - i) (drop i xs) @ drop j xs"
  by (metis append_take_drop_id drop_drop le_add_diff_inverse2)

lemma wildcard_loop_glob:
  "CHR ''*'' \<notin> set t \<Longrightarrow> loop_ok p t p_idx t_idx star_idx match_idx \<Longrightarrow>
   wildcard_loop p t p_idx t_idx star_idx match_idx = state_glob p t p_idx t_idx star_idx match_idx"
proof (induction p t p_idx t_idx star_idx match_idx rule: wildcard_loop.induct)
  case (1 p t p_idx t_idx star_idx match_idx)
  let ?P = "drop p_idx p" and ?T = "drop t_idx t"
  define a b where "a = (\<lambda>s. take (p_idx - (s + 1)) (drop (s + 1) p))" and "b = take (t_idx - match_idx) (drop match_idx t)"
  have some: "run_matches (a s) b" "drop (s + 1) p = a s @ ?P" "drop match_idx t = b @ ?T" "s < p_idx" "match_idx \<le> t_idx"
      "p_idx \<le> length p" "t_idx \<le> length t"
    if "star_idx = Some s" for s
    using "1.prems"(2) that drop_split [of "s + 1" p_idx p] drop_split [of match_idx t_idx t]
    by (simp_all add: loop_ok_def a_def b_def)
  note sm = wildcard_loop.simps [of p t p_idx t_idx star_idx match_idx]
  show ?case
  proof (cases "t_idx < length t")
    case False
    show ?thesis
    proof (cases star_idx)
      case None
      with False show ?thesis by (subst sm) (simp add: state_glob_def glob_Nil)
    next
      case (Some s)
      note so = some [OF Some]
      from False so(7) have "?T = []" by simp
      with False Some so(2,3) glob_star_end [OF so(1), of ?P] show ?thesis
        by (subst sm) (simp add: state_glob_def glob_Nil)
    qed
  next
    case t: True
    have T: "?T = t ! t_idx # drop (t_idx + 1) t" by (simp add: Cons_nth_drop_Suc t)
    have nt: "t ! t_idx \<noteq> CHR ''*''" using "1.prems"(1) t by (metis nth_mem)
    consider (lit) "p_idx < length p" "p ! p_idx = CHR ''?'' \<or> p ! p_idx = t ! t_idx"
      | (star) "p_idx < length p" "p ! p_idx = CHR ''*''" "p ! p_idx \<noteq> t ! t_idx"
      | (miss) "\<not> (p_idx < length p \<and> (p ! p_idx = CHR ''?'' \<or> p ! p_idx = t ! t_idx))"
          "\<not> (p_idx < length p \<and> p ! p_idx = CHR ''*'')"
      using nt by force
    then show ?thesis
    proof cases
      case lit
      then have ns: "p ! p_idx \<noteq> CHR ''*''" using nt by auto
      have P: "?P = p ! p_idx # drop (p_idx + 1) p" by (simp add: Cons_nth_drop_Suc lit)
      have "loop_ok p t (p_idx + 1) (t_idx + 1) star_idx match_idx"
      proof (cases star_idx)
        case (Some s)
        note so = some [OF Some]
        have "take (Suc (p_idx - (s + 1))) (drop (s + 1) p) = a s @ [p ! p_idx]"
          using so(4) lit(1) by (simp add: a_def take_Suc_conv_app_nth)
        then have "take (p_idx + 1 - (s + 1)) (drop (s + 1) p) = a s @ [p ! p_idx]"
          using so(4) by (simp add: Suc_diff_Suc)
        moreover have "take (t_idx + 1 - match_idx) (drop match_idx t) = b @ [t ! t_idx]"
          using so(5,7) t by (simp add: b_def Suc_diff_le take_Suc_conv_app_nth)
        moreover have "run_matches (a s @ [p ! p_idx]) (b @ [t ! t_idx])"
          using so(1) lit(2) ns unfolding run_matches_def by (intro list_all2_appendI) auto
        ultimately show ?thesis using so lit(1) t Some by (simp add: loop_ok_def)
      qed (simp add: loop_ok_def)
      with "1.IH"(1) [OF t] lit "1.prems"(1)
      have "wildcard_loop p t p_idx t_idx star_idx match_idx = state_glob p t (p_idx + 1) (t_idx + 1) star_idx match_idx"
        by (subst sm) (simp add: t)
      also have "\<dots> = state_glob p t p_idx t_idx star_idx match_idx"
        using lit(2) ns by (cases star_idx) (simp_all add: state_glob_def P T glob_literal)
      finally show ?thesis .
    next
      case star
      have P: "?P = CHR ''*'' # drop (p_idx + 1) p" using star by (metis Cons_nth_drop_Suc Suc_eq_plus1)
      have "loop_ok p t (p_idx + 1) t_idx (Some p_idx) t_idx"
        using star t by (simp add: loop_ok_def run_matches_def)
      with "1.IH"(2) [OF t] star "1.prems"(1)
      have "wildcard_loop p t p_idx t_idx star_idx match_idx = state_glob p t (p_idx + 1) t_idx (Some p_idx) t_idx"
        by (subst sm) (auto simp: t)
      also have "\<dots> = state_glob p t p_idx t_idx star_idx match_idx"
      proof (cases star_idx)
        case None
        then show ?thesis by (simp add: state_glob_def P)
      next
        case (Some s)
        show ?thesis unfolding Some using some [OF Some] glob_last_star [OF some(1) [OF Some], of "drop (p_idx + 1) p" ?T]
          by (simp add: state_glob_def P)
      qed
      finally show ?thesis .
    next
      case miss
      have n: "\<not> glob ?P ?T"
      proof (cases "p_idx < length p")
        case True
        then have "?P = p ! p_idx # drop (p_idx + 1) p" by (simp add: Cons_nth_drop_Suc)
        with True miss T show ?thesis by (simp add: glob_literal)
      qed (simp add: T)
      show ?thesis
      proof (cases star_idx)
        case None
        from n None miss show ?thesis by (subst sm) (auto simp: t state_glob_def)
      next
        case (Some s)
        note so = some [OF Some]
        have "loop_ok p t (s + 1) (match_idx + 1) star_idx (match_idx + 1)"
          using Some so t by (simp add: loop_ok_def run_matches_def)
        with "1.IH"(3) [OF t miss Some] "1.prems"(1) miss Some
        have "wildcard_loop p t p_idx t_idx star_idx match_idx = glob (CHR ''*'' # drop (s + 1) p) (drop (match_idx + 1) t)"
          by (subst sm) (auto simp: t state_glob_def)
        moreover have "drop (match_idx + 1) t = tl (b @ ?T)" by (simp flip: so(3) add: drop_Suc tl_drop)
        moreover have "b @ ?T \<noteq> []" by (simp add: T)
        ultimately show ?thesis
          using glob_star_mismatch [OF so(1) n] so(2,3) Some by (simp add: state_glob_def)
      qed
    qed
  qed
qed

text \<open>Without the restriction on the text: what the loop accepts, the glob matches.\<close>

lemma wildcard_loop_sound:
  "wildcard_loop p t p_idx t_idx star_idx match_idx \<Longrightarrow>
   glob (drop p_idx p) (drop t_idx t) \<or>
   (\<exists>s. star_idx = Some s \<and> (\<exists>k > match_idx. glob (drop (s + 1) p) (drop k t)))"
proof (induction p t p_idx t_idx star_idx match_idx rule: wildcard_loop.induct)
  case (1 p t p_idx t_idx star_idx match_idx)
  note sm = wildcard_loop.simps [of p t p_idx t_idx star_idx match_idx]
  show ?case
  proof (cases "t_idx < length t")
    case False
    with "1.prems" show ?thesis by (subst (asm) sm) (simp add: glob_Nil)
  next
    case t: True
    have T: "drop t_idx t = t ! t_idx # drop (t_idx + 1) t" by (simp add: Cons_nth_drop_Suc t)
    consider (lit) "p_idx < length p" "p ! p_idx = CHR ''?'' \<or> p ! p_idx = t ! t_idx"
      | (star) "p_idx < length p" "p ! p_idx = CHR ''*''" "\<not> (p ! p_idx = CHR ''?'' \<or> p ! p_idx = t ! t_idx)"
      | (miss) "\<not> (p_idx < length p \<and> (p ! p_idx = CHR ''?'' \<or> p ! p_idx = t ! t_idx))"
          "\<not> (p_idx < length p \<and> p ! p_idx = CHR ''*'')"
      by blast
    then show ?thesis
    proof cases
      case lit
      have P: "drop p_idx p = p ! p_idx # drop (p_idx + 1) p" by (simp add: Cons_nth_drop_Suc lit)
      have "glob (drop p_idx p) (drop t_idx t)" if "glob (drop (p_idx + 1) p) (drop (t_idx + 1) t)"
      proof (cases "p ! p_idx = CHR ''*''")
        case True
        then show ?thesis using glob_star_skip [OF glob_star_here [OF that]] by (simp add: P T)
      qed (use lit(2) that in \<open>simp add: P T glob_literal\<close>)
      moreover from "1.prems" lit have "wildcard_loop p t (p_idx + 1) (t_idx + 1) star_idx match_idx"
        by (subst (asm) sm) (simp add: t)
      ultimately show ?thesis using "1.IH"(1) [OF t] lit by blast
    next
      case star
      have P: "drop p_idx p = CHR ''*'' # drop (p_idx + 1) p" using star by (metis Cons_nth_drop_Suc Suc_eq_plus1)
      from "1.prems" star have "wildcard_loop p t (p_idx + 1) t_idx (Some p_idx) t_idx"
        by (subst (asm) sm) (auto simp: t)
      with "1.IH"(2) [OF t] star consider "glob (drop (p_idx + 1) p) (drop t_idx t)"
        | k where "k > t_idx" "glob (drop (p_idx + 1) p) (drop k t)" by blast
      then have "glob (drop p_idx p) (drop t_idx t)"
      proof cases
        case (2 k)
        then have "glob (drop p_idx p) (drop (k - t_idx) (drop t_idx t))" by (simp add: P glob_star_here)
        then show ?thesis unfolding P by (rule glob_star_drop)
      qed (simp add: P glob_star_here)
      then show ?thesis ..
    next
      case miss
      from "1.prems" miss obtain s where s: "star_idx = Some s"
        "wildcard_loop p t (s + 1) (match_idx + 1) star_idx (match_idx + 1)"
        by (subst (asm) sm) (auto simp: t split: option.splits)
      from "1.IH"(3) [OF t miss s] s(1) show ?thesis
        using Suc_lessD [of match_idx] by auto
    qed
  qed
qed

section \<open>Rules as sequences of labels\<close>

lemma ends_with_dot_labels: "ends_with d (CHR ''.'' # r) \<longleftrightarrow>
    (\<exists>ls. ls \<noteq> [] \<and> split_char CHR ''.'' d = ls @ split_char CHR ''.'' r)"
proof -
  have app: "split_char CHR ''.'' (a @ CHR ''.'' # r) = split_char CHR ''.'' a @ split_char CHR ''.'' r" for a
    by (induction a) (auto split: list.split)
  show ?thesis
  proof
    assume "ends_with d (CHR ''.'' # r)"
    then obtain a where "d = a @ CHR ''.'' # r" by (auto simp: ends_with_iff)
    then show "\<exists>ls. ls \<noteq> [] \<and> split_char CHR ''.'' d = ls @ split_char CHR ''.'' r" using app by auto
  next
    assume "\<exists>ls. ls \<noteq> [] \<and> split_char CHR ''.'' d = ls @ split_char CHR ''.'' r"
    then obtain ls where ls: "ls \<noteq> []" "split_char CHR ''.'' d = ls @ split_char CHR ''.'' r" by blast
    have "join_char CHR ''.'' (ls @ xs) = join_char CHR ''.'' ls @ CHR ''.'' # join_char CHR ''.'' xs" if "xs \<noteq> []" for xs
      using ls(1) that by (induction ls rule: list_nonempty_induct) (auto simp: join_char_Cons)
    then have "join_char CHR ''.'' (split_char CHR ''.'' d) = join_char CHR ''.'' ls @ CHR ''.'' # r"
      unfolding ls(2) by simp
    then have "d = join_char CHR ''.'' ls @ CHR ''.'' # r" by simp
    then show "ends_with d (CHR ''.'' # r)" by (metis ends_with_append)
  qed
qed

text \<open>A name as the matchers compare it: trimmed, without final dots, lower case.\<close>

definition clean_name :: "string \<Rightarrow> string" where
  "clean_name s = to_ascii_lowercase (trim_end_char CHR ''.'' (trim s))"

abbreviation labels :: "string \<Rightarrow> string list" where
  "labels \<equiv> split_char CHR ''.''"

text \<open>
  A rule without a star matches its name and every name below it, label by label; a rule
  \<open>*.root\<close> matches the names strictly below its root (and its own spelling); any other rule with a
  star matches, when the name has no star in it, exactly as a glob.
\<close>

theorem domain_matches_labels:
  assumes "clean_name pattern = p" and "clean_name domain = d"
  shows "(CHR ''*'' \<notin> set p \<longrightarrow> domain_matches_pattern pattern domain = (\<exists>ls. labels d = ls @ labels p)) \<and>
    (p = ''*.'' @ r \<longrightarrow> domain_matches_pattern pattern domain =
        (d = p \<or> (\<exists>ls. ls \<noteq> [] \<and> labels d = ls @ labels r))) \<and>
    (CHR ''*'' \<in> set p \<and> \<not> starts_with p ''*.'' \<and> CHR ''*'' \<notin> set d \<longrightarrow> domain_matches_pattern pattern domain = glob p d)"
proof -
  have m: "domain_matches_pattern pattern domain = (if p = d then True
     else (case strip_prefix p ''*.'' of Some root \<Rightarrow> ends_with d (CHR ''.'' # root)
       | None \<Rightarrow> if CHR ''*'' \<notin> set p then ends_with d (CHR ''.'' # p) else wildcard_match p d))"
    using assms by (simp add: domain_matches_pattern_def clean_name_def Let_def cong: option.case_cong)
  have ex: "(\<exists>ls. labels d = ls @ labels p) \<longleftrightarrow> d = p \<or> (\<exists>ls. ls \<noteq> [] \<and> labels d = ls @ labels p)"
    by (metis append_Nil join_split)
  have "CHR ''*'' \<notin> set p \<Longrightarrow> strip_prefix p ''*.'' = None"
    by (auto simp: strip_prefix_def starts_with_iff)
  moreover have "wildcard_match p d = glob p d" if "CHR ''*'' \<notin> set d"
    using wildcard_loop_glob [OF that, of p 0 0 None 0] by (simp add: wildcard_match_def loop_ok_def state_glob_def)
  ultimately show ?thesis
    unfolding m ex by (auto simp: ends_with_dot_labels strip_prefix_def starts_with_iff)
qed

text \<open>
  C24: The matcher with one star of memory: what it accepts the glob matches, and on a text
  without stars it decides the glob. The matcher compares bytes before it looks for a star, so a
  star in the text can hide a match.
\<close>

theorem wildcard_match_glob:
  "(wildcard_match p t \<longrightarrow> glob p t) \<and> (CHR ''*'' \<notin> set t \<longrightarrow> wildcard_match p t = glob p t)"
  using wildcard_loop_sound [of p t 0 0 None 0] wildcard_loop_glob [of t p 0 0 None 0]
  by (auto simp: wildcard_match_def loop_ok_def state_glob_def)

theorem domain_matches_labels_witness:
  "domain_matches_pattern '' Example.com.'' ''www.EXAMPLE.com''"
proof -
  have c: "clean_name '' Example.com.'' = ''example.com''" "clean_name ''www.EXAMPLE.com'' = ''www.example.com''"
    by code_simp+
  have "labels ''www.example.com'' = [''www''] @ labels ''example.com''" by code_simp
  then show ?thesis using domain_matches_labels [OF c] by auto
qed

theorem wildcard_match_glob_witness:
  "wildcard_match ''*ads?.*'' ''x.ads1.example'' \<and> glob ''*ads?.*'' ''x.ads1.example'' \<and>
   \<not> wildcard_match ''*ads*'' ''*.ads.example'' \<and> glob ''*ads*'' ''*.ads.example''"
proof -
  have a: "wildcard_match ''*ads?.*'' ''x.ads1.example''" by code_simp
  from wildcard_match_glob [of "''*ads?.*''" "''x.ads1.example''"] a have "glob ''*ads?.*'' ''x.ads1.example''" by blast
  moreover have "\<not> wildcard_match ''*ads*'' ''*.ads.example'' \<and> glob ''*ads*'' ''*.ads.example''" by code_simp
  ultimately show ?thesis using a by blast
qed

section \<open>What the normalizers produce\<close>

lemma set_trim_start: "set (trim_start s) \<subseteq> set s"
proof (induction s rule: trim_start.induct)
  case (1 s)
  show ?case
  proof (cases "ws_width_start s = 0")
    case False
    with 1 have "set (trim_start (drop (ws_width_start s) s)) \<subseteq> set s" by (meson order_trans set_drop_subset)
    with False show ?thesis by (subst trim_start.simps) simp
  qed (simp add: trim_start.simps)
qed

lemma set_trim_end: "set (trim_end s) \<subseteq> set s"
proof (induction s rule: trim_end.induct)
  case (1 s)
  show ?case
  proof (cases "ws_width_end s = 0")
    case False
    with 1 have "set (trim_end (take (length s - ws_width_end s) s)) \<subseteq> set s" by (meson order_trans set_take_subset)
    with False show ?thesis by (subst trim_end.simps) simp
  qed (simp add: trim_end.simps)
qed

lemma set_trim: "set (trim s) \<subseteq> set s"
  unfolding trim_def using set_trim_start set_trim_end by (meson order_trans)

lemma set_trim_end_char: "set (trim_end_char c s) \<subseteq> set s"
  using trim_end_char_prefix [of s c] by (metis Un_upper1 set_append)

lemma set_without_prefix: "set (without_prefix p h) \<subseteq> set h"
  by (simp add: without_prefix_def set_drop_subset)

lemma set_without_last: "set (without_last c h) \<subseteq> set h"
  by (simp add: without_last_def set_take_subset)

lemma set_cut_at: "set (cut_at c h) \<subseteq> set h"
  by (simp add: cut_at_def set_take_subset split: option.split)

lemma set_hosts_field: "hosts_field h = Some h' \<Longrightarrow> set h' \<subseteq> set h"
proof (cases "str_find_ws h")
  case (Some i)
  assume "hosts_field h = Some h'"
  then have "h' = trim (drop i h)" by (simp only: hosts_field_def Some option.case Let_def split: if_split_asm) simp_all
  then show ?thesis using order_trans [OF set_trim set_drop_subset] by simp
qed (simp add: hosts_field_def)

lemmas set_steps = set_without_prefix set_without_last set_cut_at set_trim set_trim_end_char

definition no_upper :: "string \<Rightarrow> bool" where
  "no_upper s \<longleftrightarrow> (\<forall>c \<in> set s. \<not> is_upper_code (code c))"

lemma no_upper_lower: "no_upper (to_ascii_lowercase s)"
  by (simp add: no_upper_def to_ascii_lowercase_def)

lemma no_upper_sub: "no_upper s \<Longrightarrow> set t \<subseteq> set s \<Longrightarrow> no_upper t"
  by (auto simp: no_upper_def)

lemmas no_upper_steps = set_steps [THEN no_upper_sub [rotated]]

lemma lower_id: "no_upper s \<Longrightarrow> to_ascii_lowercase s = s"
  unfolding no_upper_def to_ascii_lowercase_def by (rule map_idI) (simp add: lower_char_def)

definition rule_ok :: "string \<Rightarrow> bool" where
  "rule_ok h \<longleftrightarrow> h \<noteq> [] \<and> length h \<le> 253 \<and> no_upper h \<and> (\<forall>c \<in> set h. rule_char c)"

lemma normalize_instant_ok: "normalize_instant_block_line raw = Some h \<Longrightarrow> rule_ok h"
proof -
  assume n: "normalize_instant_block_line raw = Some h"
  define g where "g = without_last CHR ''/'' (without_prefix ''local=/'' (without_last CHR ''^'' (cut_at CHR ''$''
    (without_prefix ''|'' (without_prefix ''||'' (to_ascii_lowercase (trim raw)))))))"
  from n obtain f where f: "hosts_field g = Some f" "h = trim (trim_end_char CHR ''.'' f)" "h \<noteq> []"
      "length h \<le> 253" "\<forall>c \<in> set h. rule_char c"
    unfolding normalize_instant_block_line_def Let_def g_def [symmetric]
    by (auto split: if_splits option.splits)
  have "no_upper g" unfolding g_def by (intro no_upper_steps no_upper_lower)
  then have "no_upper f" using set_hosts_field [OF f(1)] by (rule no_upper_sub)
  then have "no_upper h" unfolding f(2) by (intro no_upper_steps)
  with f show ?thesis by (simp add: rule_ok_def)
qed

lemma normalize_blocklist_ok: "normalize_blocklist_line raw = Some h \<Longrightarrow>
  rule_ok h \<and> CHR ''.'' \<in> set h \<and> \<not> starts_with h ''-''"
proof -
  assume n: "normalize_blocklist_line raw = Some h"
  define g0 where "g0 = without_prefix ''|'' (without_prefix ''||'' (to_ascii_lowercase (trim raw)))"
  define g where "g = without_last CHR ''/'' (without_prefix ''local=/'' (without_last CHR ''^'' (cut_at CHR ''$''
    (if starts_with g0 ''*.'' then drop 2 g0 else if starts_with g0 ''*'' then drop 1 g0 else g0))))"
  from n obtain f where f: "hosts_field g = Some f" "h = trim (trim_end_char CHR ''.'' f)" "h \<noteq> []"
      "length h \<le> 253" "\<forall>c \<in> set h. rule_char c" "CHR ''.'' \<in> set h" "\<not> starts_with h ''-''"
    unfolding normalize_blocklist_line_def Let_def g0_def [symmetric] g_def [symmetric]
    by (auto split: if_splits option.splits)
  have "no_upper g0" unfolding g0_def by (intro no_upper_steps no_upper_lower)
  then have "no_upper (if starts_with g0 ''*.'' then drop 2 g0 else if starts_with g0 ''*'' then drop 1 g0 else g0)"
    by (rule no_upper_sub) (simp add: set_drop_subset)
  then have "no_upper g" unfolding g_def by (intro no_upper_steps)
  then have "no_upper f" using set_hosts_field [OF f(1)] by (rule no_upper_sub)
  then have "no_upper h" unfolding f(2) by (intro no_upper_steps)
  with f show ?thesis by (simp add: rule_ok_def)
qed

text \<open>A name which a feed may list, and the forms in which feeds list it.\<close>

definition plain_rule :: "string \<Rightarrow> bool" where
  "plain_rule d \<longleftrightarrow> rule_ok d \<and> last d \<noteq> CHR ''.'' \<and> CHR ''.'' \<in> set d \<and> hd d \<noteq> CHR ''-'' \<and> hd d \<noteq> CHR ''*''"

lemma rule_char_visible: "rule_char c \<Longrightarrow> visible c"
  by (auto simp: rule_char_def visible_def is_alnum_code_def is_alpha_code_def is_digit_code_def code_def)

lemma visible_no_ws: "visible x \<Longrightarrow> ws_width_start (x # xs) = 0"
proof -
  assume v: "visible x"
  have "\<not> ws_char (take n (x # xs))" for n
    using ws_char_not_visible [of "take n (x # xs)"] v by (cases n) auto
  from this [of 1] this [of 2] this [of 3] show ?thesis by (simp add: ws_width_start_def)
qed

lemma find_ws_visible: "\<forall>c \<in> set d. visible c \<Longrightarrow> str_find_ws (d @ s) = map_option ((+) (length d)) (str_find_ws s)"
  by (induction d; cases "str_find_ws s") (simp_all add: visible_no_ws)

lemma starts_with_Cons: "starts_with (x # xs) (y # ys) \<longleftrightarrow> x = y \<and> starts_with xs ys"
  by (auto simp: starts_with_def)

lemma starts_with_Nil [simp]: "starts_with s []"
  by (simp add: starts_with_def)

lemma starts_with_not: "c \<in> set p \<Longrightarrow> c \<notin> set d \<Longrightarrow> \<not> starts_with d p"
  by (auto simp: starts_with_iff)

lemma cut_at_none: "c \<notin> set h \<Longrightarrow> cut_at c h = h"
  using str_find_None [of c h] by (simp add: cut_at_def)

lemma cut_at_here: "c \<notin> set h \<Longrightarrow> cut_at c (h @ c # s) = h"
proof -
  assume c: "c \<notin> set h"
  then have "str_find c (h @ c # s) = Some (length h)" by (induction h) auto
  then show ?thesis by (simp add: cut_at_def)
qed

lemma without_last_not: "h = [] \<or> last h \<noteq> c \<Longrightarrow> without_last c h = h"
  by (auto simp: without_last_def ends_with_iff)

lemma without_last_snoc [simp]: "without_last c (h @ [c]) = h"
  by (simp add: without_last_def)

lemma plain_rule_facts:
  assumes "plain_rule d"
  shows "d \<noteq> []" "\<forall>c \<in> set d. visible c" "\<And>c. \<not> rule_char c \<Longrightarrow> c \<notin> set d" "trim d = d"
    "trim_end_char CHR ''.'' d = d" "\<And>c. \<not> rule_char c \<Longrightarrow> last d \<noteq> c" "\<And>c. \<not> rule_char c \<Longrightarrow> hd d \<noteq> c"
    "to_ascii_lowercase d = d" "length d \<le> 253" "\<forall>c \<in> set d. rule_char c" "CHR ''.'' \<in> set d" "hd d \<noteq> CHR ''-''" "hd d \<noteq> CHR ''*''"
proof -
  show a: "d \<noteq> []" "length d \<le> 253" "\<forall>c \<in> set d. rule_char c" "to_ascii_lowercase d = d"
    "CHR ''.'' \<in> set d" "hd d \<noteq> CHR ''-''" "hd d \<noteq> CHR ''*''"
    using assms by (simp_all add: plain_rule_def rule_ok_def lower_id)
  then show v: "\<forall>c \<in> set d. visible c" by (simp add: rule_char_visible)
  with a show "trim d = d" by (simp add: trim_visible)
  show "\<And>c. \<not> rule_char c \<Longrightarrow> c \<notin> set d" using a by blast
  show "\<And>c. \<not> rule_char c \<Longrightarrow> last d \<noteq> c" "\<And>c. \<not> rule_char c \<Longrightarrow> hd d \<noteq> c"
    using a by (metis last_in_set, metis list.set_sel(1))
  show "trim_end_char CHR ''.'' d = d" using assms by (simp add: plain_rule_def trim_end_char_id)
qed

text \<open>The list part of a feed line, once the decorations are gone.\<close>

lemma normalize_parts:
  assumes d: "plain_rule d" and raw: "to_ascii_lowercase (trim raw) = h" "h \<noteq> []" "\<not> comment_char (hd h)" "\<not> starts_with h ''@@''"
    and g: "without_prefix ''|'' (without_prefix ''||'' h) = g" "\<not> starts_with g ''*''"
    and f: "without_last CHR ''/'' (without_prefix ''local=/'' (without_last CHR ''^'' (cut_at CHR ''$'' g))) = f"
    and hf: "hosts_field f = Some d"
  shows "normalize_instant_block_line raw = Some d \<and> normalize_blocklist_line raw = Some d"
proof -
  note F = plain_rule_facts [OF d]
  have "\<not> starts_with g ''*.''" using g(2) by (auto simp: starts_with_iff)
  moreover have "\<not> starts_with d ''-''" using F(1,12) by (cases d) (auto simp: starts_with_Cons)
  moreover have "CHR '' '' \<notin> set d" "CHR ''/'' \<notin> set d"
    by (rule F(3), simp add: rule_char_def is_alnum_code_def is_alpha_code_def is_digit_code_def code_def)+
  ultimately show ?thesis
    using raw(2-4) g(2) F(1,9-11) hf
    by (simp add: normalize_instant_block_line_def normalize_blocklist_line_def Let_def raw(1) g(1) f F(4,5))
qed

lemma normalize_plain: "plain_rule d \<Longrightarrow> to_ascii_lowercase (trim raw) = p @ d @ s \<Longrightarrow>
    p = '''' \<or> p = ''||'' \<Longrightarrow> s = '''' \<or> s = ''^'' \<or> (\<exists>opts. s = ''^$'' @ opts) \<Longrightarrow>
    normalize_instant_block_line raw = Some d \<and> normalize_blocklist_line raw = Some d"
proof -
  assume d: "plain_rule d" and h: "to_ascii_lowercase (trim raw) = p @ d @ s"
    and p: "p = '''' \<or> p = ''||''" and s: "s = '''' \<or> s = ''^'' \<or> (\<exists>opts. s = ''^$'' @ opts)"
  note F = plain_rule_facts [OF d]
  have nr: "\<not> rule_char c" if "c \<in> set ''#!@;/[$|^='' " for c
    using that by (auto simp: rule_char_def is_alnum_code_def is_alpha_code_def is_digit_code_def code_def)
  have sub: "hd (d @ s) = hd d" using F(1) by simp
  have hd: "hd d \<noteq> c" if "c \<in> set ''#!@;/[$|^='' " for c using F(7) [OF nr [OF that]] .
  have "\<not> comment_char (hd (p @ d @ s))" 
    using p by (elim disjE) (simp_all add: sub hd comment_char_def)
  moreover have st: "\<not> starts_with (d @ s) (c # q)" if "hd d \<noteq> c" for c q
    using F(1) that by (cases d) (simp_all add: starts_with_Cons)
  have "\<not> starts_with (p @ d @ s) ''@@''" 
    using p by (rule disjE) (simp_all add: st hd starts_with_Cons)
  moreover have "without_prefix ''|'' (without_prefix ''||'' (p @ d @ s)) = d @ s"
    using p by (rule disjE) (simp_all add: st hd without_prefix_def starts_with_Cons)
  moreover have "\<not> starts_with (d @ s) ''*''" using st F(13) by blast
  moreover have cut: "cut_at CHR ''$'' (d @ s) = d @ take 1 s"
  proof -
    have n: "CHR ''$'' \<notin> set d" "CHR ''$'' \<notin> set (d @ ''^'')" using F(3) nr by auto
    from s show ?thesis
      using cut_at_none [OF n(1)] cut_at_none [OF n(2)] cut_at_here [OF n(2)] by auto
  qed
  have last: "without_last CHR ''^'' (d @ take 1 s) = d"
    using s F(6) [OF nr, of "CHR ''^''"] by (elim disjE exE) (simp_all add: without_last_not)
  moreover have "without_last CHR ''/'' (without_prefix ''local=/'' (without_last CHR ''^'' (cut_at CHR ''$'' (d @ s)))) = d"
    unfolding cut last using F(6) [OF nr, of "CHR ''/''"] starts_with_not [of "CHR ''=''" "''local=/''" d] F(3) [OF nr, of "CHR ''=''"]
    by (simp add: without_prefix_def without_last_not)
  moreover have "hosts_field d = Some d"
    using find_ws_visible [OF F(2), of "[]"] by (simp add: hosts_field_def)
  ultimately show ?thesis using F(1) by (intro normalize_parts [OF d h]) (simp_all del: One_nat_def)
qed

lemma normalize_hosts: "plain_rule d \<Longrightarrow> ip = ''0.0.0.0'' \<or> ip = ''127.0.0.1'' \<or> ip = ''::1'' \<or> ip = ''::'' \<Longrightarrow>
    to_ascii_lowercase (trim raw) = ip @ '' '' @ d \<Longrightarrow>
    normalize_instant_block_line raw = Some d \<and> normalize_blocklist_line raw = Some d"
proof -
  assume d: "plain_rule d" and ip: "ip = ''0.0.0.0'' \<or> ip = ''127.0.0.1'' \<or> ip = ''::1'' \<or> ip = ''::''"
    and h: "to_ascii_lowercase (trim raw) = ip @ '' '' @ d"
  note F = plain_rule_facts [OF d]
  have nr: "\<not> rule_char c" if "c \<in> set ''#!@;/[$|^='' " for c
    using that by (auto simp: rule_char_def is_alnum_code_def is_alpha_code_def is_digit_code_def code_def)
  have v: "\<forall>c \<in> set ip. visible c" using ip by (auto simp: visible_def code_def)
  have n: "CHR ''$'' \<notin> set (ip @ '' '' @ d)" using F(3) [OF nr, of "CHR ''$''"] ip by auto
  have l: "last (ip @ '' '' @ d) = last d" using F(1) by simp
  have "\<not> comment_char (hd (ip @ '' '' @ d))" "ip @ '' '' @ d \<noteq> []" "\<not> starts_with (ip @ '' '' @ d) ''@@''"
    "\<not> starts_with (ip @ '' '' @ d) ''*''"
    using ip by (auto simp: comment_char_def starts_with_Cons)
  moreover have "without_prefix ''|'' (without_prefix ''||'' (ip @ '' '' @ d)) = ip @ '' '' @ d"
    using ip by (auto simp: without_prefix_def starts_with_Cons)
  moreover have "without_last CHR ''/'' (without_prefix ''local=/'' (without_last CHR ''^'' (cut_at CHR ''$'' (ip @ '' '' @ d)))) = ip @ '' '' @ d"
  proof -
    have "\<not> starts_with (ip @ '' '' @ d) ''local=/''" using ip by (elim disjE) (simp_all add: starts_with_Cons)
    then show ?thesis
      unfolding cut_at_none [OF n] using l F(6) [OF nr, of "CHR ''/''"] F(6) [OF nr, of "CHR ''^''"]
      by (simp add: without_prefix_def without_last_not)
  qed
  moreover have "hosts_field (ip @ '' '' @ d) = Some d"
  proof -
    have "ws_width_start ('' '' @ d) = 1" by (simp add: ws_width_start_def ws_char_def code_def)
    then have "str_find_ws (ip @ '' '' @ d) = Some (length ip)" "trim ('' '' @ d) = trim d"
      using find_ws_visible [OF v, of "'' '' @ d"] trim_start.simps [of "'' '' @ d"] by (simp_all add: trim_def)
    then have "hosts_field (ip @ '' '' @ d) = (if ip \<in> {''0.0.0.0'', ''127.0.0.1'', ''::1'', ''::''} then Some (trim d) else None)"
      by (simp add: hosts_field_def Let_def)
    with ip F(4) show ?thesis by simp
  qed
  ultimately show ?thesis by (intro normalize_parts [OF d h])
qed

text \<open>
  Feed lines. Whatever a feed contains, an accepted rule is not empty, at most 253 bytes long,
  lower case, and made of letters, digits, dots, dashes, underscores and stars only; a rule of the
  block feed also has a dot and does not start with a dash. The usual forms of feed line, a bare
  name, an adblock rule with or without options and a hosts line, all give the listed name.
\<close>

theorem feed_lines_spec:
  "(normalize_instant_block_line raw = Some h \<longrightarrow> rule_ok h) \<and>
   (normalize_blocklist_line raw = Some h \<longrightarrow> rule_ok h \<and> CHR ''.'' \<in> set h \<and> \<not> starts_with h ''-'') \<and>
   (plain_rule d \<longrightarrow> to_ascii_lowercase (trim raw) \<in>
        {d, ''||'' @ d, ''||'' @ d @ ''^'', ''||'' @ d @ ''^$'' @ opts, ''0.0.0.0 '' @ d, ''127.0.0.1 '' @ d, '':: '' @ d} \<longrightarrow>
      normalize_instant_block_line raw = Some d \<and> normalize_blocklist_line raw = Some d)"
proof (intro conjI impI)
  assume d: "plain_rule d" and raw: "to_ascii_lowercase (trim raw) \<in>
        {d, ''||'' @ d, ''||'' @ d @ ''^'', ''||'' @ d @ ''^$'' @ opts, ''0.0.0.0 '' @ d, ''127.0.0.1 '' @ d, '':: '' @ d}"
  note P = normalize_plain [OF d, of raw] and H = normalize_hosts [OF d, of _ raw]
  have "normalize_instant_block_line raw = Some d \<and> normalize_blocklist_line raw = Some d"
    using raw P [of "[]" "[]"] P [of "''||''" "[]"] P [of "''||''" "''^''"] P [of "''||''" "''^$'' @ opts"]
      H [of "''0.0.0.0''"] H [of "''127.0.0.1''"] H [of "''::''"]
    by (elim insertE emptyE) simp_all
  then show "normalize_instant_block_line raw = Some d" "normalize_blocklist_line raw = Some d" by simp_all
qed (use normalize_instant_ok normalize_blocklist_ok in blast)+

theorem feed_lines_spec_witness:
  "normalize_blocklist_line ''||ads.example^$third-party'' = Some ''ads.example''"
proof -
  have "plain_rule ''ads.example''" by code_simp
  moreover have "to_ascii_lowercase (trim ''||ads.example^$third-party'') = ''||'' @ ''ads.example'' @ ''^$'' @ ''third-party''"
    by code_simp
  ultimately show ?thesis
    using feed_lines_spec [of "''||ads.example^$third-party''" undefined "''ads.example''" "''third-party''"] by blast
qed

end
