(* ===== verification/Schedule.thy ===== *)
theory Schedule
  imports Rust_Str "HOL-Library.Signed_Division"
begin

text \<open>
  Scheduled blocking (\<open>src/src/security/schedule.rs\<close>): rules with a daily window in a local
  time zone, and the store of at most 500 rules. The clock is an argument, in Unix seconds;
  \<open>i64\<close> arithmetic on a clock value does not overflow, its division and remainder truncate.
\<close>

record schedule_rule =
  rule_id :: u64
  domain_pattern :: string
  start_hour :: u8
  end_hour :: u8
  tz_offset_hours :: "8 word"
  rule_reason :: string
  rule_created :: u64

definition local_hour :: "nat \<Rightarrow> 8 word \<Rightarrow> u8" where
  "local_hour now_unix tz = (let local_secs = int now_unix + sint tz * 3600
     in word_of_int ((local_secs sdiv 3600) smod 24))"

definition is_active_now :: "schedule_rule \<Rightarrow> nat \<Rightarrow> bool" where
  "is_active_now r now_unix = (
     let hour = local_hour now_unix (tz_offset_hours r) in
     if start_hour r \<le> end_hour r then hour \<ge> start_hour r \<and> hour < end_hour r
     else hour \<ge> start_hour r \<or> hour < end_hour r)"

definition matches_domain :: "schedule_rule \<Rightarrow> string \<Rightarrow> bool" where
  "matches_domain r domain = (
     let pat = trim_start_char CHR ''.'' (trim_start_char CHR ''*'' (domain_pattern r));
         clean = to_ascii_lowercase (trim_end_char CHR ''.'' domain);
         pat_lower = to_ascii_lowercase pat in
     clean = pat_lower \<or> ends_with clean (''.'' @ pat_lower))"

record schedule_store =
  sched_rules :: "schedule_rule list"
  next_rule_id :: u64

definition schedule_new :: schedule_store where
  "schedule_new = \<lparr>sched_rules = [], next_rule_id = 1\<rparr>"

definition max_schedule_rules :: nat where
  "max_schedule_rules = 500"

definition add_rule :: "string \<Rightarrow> u8 \<Rightarrow> u8 \<Rightarrow> 8 word \<Rightarrow> string \<Rightarrow> nat \<Rightarrow> schedule_store \<Rightarrow> u64 \<times> schedule_store" where
  "add_rule pattern sh eh tz reason now s = (
     let i = next_rule_id s;
         rule = \<lparr>rule_id = i, domain_pattern = pattern, start_hour = sh mod 24, end_hour = eh mod 24,
                 tz_offset_hours = tz, rule_reason = reason, rule_created = word_of_nat now\<rparr>;
         rs = (if length (sched_rules s) \<ge> max_schedule_rules then tl (sched_rules s) else sched_rules s)
     in (i, \<lparr>sched_rules = rs @ [rule], next_rule_id = next_rule_id s + 1\<rparr>))"

definition remove_rule :: "u64 \<Rightarrow> schedule_store \<Rightarrow> bool \<times> schedule_store" where
  "remove_rule i s = (
     let before = length (sched_rules s);
         rs = filter (\<lambda>r. rule_id r \<noteq> i) (sched_rules s)
     in (length rs < before, s\<lparr>sched_rules := rs\<rparr>))"

definition is_blocked_now :: "schedule_store \<Rightarrow> string \<Rightarrow> nat \<Rightarrow> string option" where
  "is_blocked_now s domain now =
    (if \<exists>r \<in> set (sched_rules s). is_active_now r now \<and> matches_domain r domain
     then Some ''SCHEDULE_BLOCK'' else None)"

section \<open>The daily window\<close>

text \<open>The hours counted from the start of the window.\<close>

definition hours_since :: "nat \<Rightarrow> nat \<Rightarrow> nat" where
  "hours_since s h = (h + 24 - s) mod 24"

lemma hours_since_eq: "s < 24 \<Longrightarrow> h < 24 \<Longrightarrow> hours_since s h = (if s \<le> h then h - s else h + 24 - s)"
  by (auto simp: hours_since_def mod_if)

lemma sdiv_smod_nonneg: "0 \<le> x \<Longrightarrow> 0 < y \<Longrightarrow> (x :: int) sdiv y = x div y \<and> x smod y = x mod y"
  by (cases "x = 0") (simp_all add: signed_divide_int_def signed_modulo_int_def minus_div_mult_eq_mod)

lemma local_hour_int: "0 \<le> int now + sint tz * 3600 \<Longrightarrow>
  unat (local_hour now tz) = nat ((int now + sint tz * 3600) div 3600 mod 24)"
proof -
  assume p: "0 \<le> int now + sint tz * 3600"
  let ?h = "(int now + sint tz * 3600) div 3600"
  from p have h: "0 \<le> ?h" by (rule pos_imp_zdiv_nonneg_iff [THEN iffD2, rotated]) simp
  have "(int now + sint tz * 3600) sdiv 3600 = ?h"
    using p by (simp add: sdiv_smod_nonneg del: div_add1_eq)
  moreover have "?h smod 24 = ?h mod 24"
    using h by (simp add: sdiv_smod_nonneg)
  moreover have "0 \<le> ?h mod 24" "?h mod 24 < 24" by simp_all
  ultimately show ?thesis by (simp add: local_hour_def Let_def unsigned_of_int take_bit_int_eq_self)
qed

lemma is_active_window:
  assumes "start_hour r < 24" "end_hour r < 24" "0 \<le> int now + sint (tz_offset_hours r) * 3600"
  shows "is_active_now r now \<longleftrightarrow>
    hours_since (unat (start_hour r)) (nat ((int now + sint (tz_offset_hours r) * 3600) div 3600 mod 24)) <
    hours_since (unat (start_hour r)) (unat (end_hour r))"
proof -
  let ?h = "unat (local_hour now (tz_offset_hours r))"
  note h = local_hour_int [OF assms(3)]
  have "?h < 24" unfolding h by (simp add: nat_less_iff)
  moreover have "unat (start_hour r) < 24" "unat (end_hour r) < 24"
    using assms(1,2) by (simp_all add: word_less_nat_alt)
  ultimately show ?thesis
    unfolding h [symmetric] by (auto simp: is_active_now_def Let_def hours_since_eq word_less_nat_alt word_le_nat_alt)
qed

section \<open>The store\<close>

datatype schedule_op = Add_Rule string u8 u8 "8 word" string nat | Remove_Rule u64

fun schedule_run :: "schedule_op \<Rightarrow> schedule_store \<Rightarrow> schedule_store" where
  "schedule_run (Add_Rule p sh eh tz re now) s = snd (add_rule p sh eh tz re now s)"
| "schedule_run (Remove_Rule i) s = snd (remove_rule i s)"

definition schedule_inv :: "nat \<Rightarrow> schedule_store \<Rightarrow> bool" where
  "schedule_inv n s \<longleftrightarrow> unat (next_rule_id s) = n \<and> length (sched_rules s) \<le> max_schedule_rules \<and>
     distinct (map rule_id (sched_rules s)) \<and>
     (\<forall>r \<in> set (sched_rules s). unat (rule_id r) < n \<and> start_hour r < 24 \<and> end_hour r < 24)"

lemma mod24_less: "(b :: u8) mod 24 < 24"
  by (simp add: word_mod_less_divisor)

lemma add_rule_inv:
  assumes s: "schedule_inv n s" and n: "n + 1 < 2 ^ 64"
  shows "schedule_inv (n + 1) (snd (add_rule p sh eh tz re now s)) \<and> unat (fst (add_rule p sh eh tz re now s)) = n"
proof -
  let ?rs = "if length (sched_rules s) \<ge> max_schedule_rules then tl (sched_rules s) else sched_rules s"
  have sub: "set ?rs \<subseteq> set (sched_rules s)" by (cases "sched_rules s") auto
  have "distinct (map rule_id ?rs)" using s by (auto simp: schedule_inv_def map_tl distinct_tl)
  moreover have "next_rule_id s \<notin> rule_id ` set ?rs"
    using s sub by (force simp: schedule_inv_def)
  moreover have "length ?rs < max_schedule_rules"
    using s by (auto simp: schedule_inv_def max_schedule_rules_def)
  moreover have "unat (next_rule_id s + 1) = n + 1"
    using s n by (simp add: schedule_inv_def unat_word_ariths)
  ultimately show ?thesis
    using s sub mod24_less unfolding schedule_inv_def add_rule_def Let_def snd_conv fst_conv
    by (auto simp: less_Suc_eq Ball_def subset_iff)
qed

lemma remove_rule_inv:
  assumes s: "schedule_inv n s"
  shows "schedule_inv n (snd (remove_rule i s)) \<and> (fst (remove_rule i s) \<longleftrightarrow> i \<in> rule_id ` set (sched_rules s)) \<and>
    rule_id ` set (sched_rules (snd (remove_rule i s))) = rule_id ` set (sched_rules s) - {i}"
proof -
  have "length (filter (\<lambda>r. rule_id r \<noteq> i) xs) < length xs \<longleftrightarrow> i \<in> rule_id ` set xs" for xs
  proof (cases "i \<in> rule_id ` set xs")
    case True
    then obtain r where "r \<in> set xs" "rule_id r = i" by blast
    with length_filter_less [of r xs "\<lambda>r. rule_id r \<noteq> i"] True show ?thesis by blast
  next
    case False
    then have "filter (\<lambda>r. rule_id r \<noteq> i) xs = xs" by (auto intro: filter_True)
    with False show ?thesis by simp
  qed
  with s show ?thesis
    by (auto simp: schedule_inv_def remove_rule_def Let_def distinct_map_filter intro: order_trans [OF length_filter_le])
qed

text \<open>
  Scheduled blocking. Every run of additions and removals keeps at most 500 rules with distinct
  identifiers and hours below 24, and the n-th addition returns the identifier n. In such a store a
  name is blocked exactly when some rule matches it and the local hour lies in the rule's window,
  counted forward from its start, so that a window may pass midnight.
\<close>

theorem schedule_spec:
  assumes "length ops + 1 < 2 ^ 64" and "s = fold schedule_run ops schedule_new"
    and "\<forall>r \<in> set (sched_rules s). 0 \<le> int now + sint (tz_offset_hours r) * 3600"
  shows "length (sched_rules s) \<le> 500 \<and> distinct (map rule_id (sched_rules s)) \<and>
    (is_blocked_now s domain now \<noteq> None \<longleftrightarrow> (\<exists>r \<in> set (sched_rules s). matches_domain r domain \<and>
      hours_since (unat (start_hour r)) (nat ((int now + sint (tz_offset_hours r) * 3600) div 3600 mod 24)) <
      hours_since (unat (start_hour r)) (unat (end_hour r)))) \<and>
    unat (fst (add_rule p sh eh tz re now s)) = length (filter (\<lambda>op. case op of Add_Rule _ _ _ _ _ _ \<Rightarrow> True | _ \<Rightarrow> False) ops) + 1 \<and>
    (fst (remove_rule i s) \<longleftrightarrow> i \<in> rule_id ` set (sched_rules s)) \<and>
    rule_id ` set (sched_rules (snd (remove_rule i s))) = rule_id ` set (sched_rules s) - {i}"
proof -
  let ?adds = "\<lambda>ops. length (filter (\<lambda>op. case op of Add_Rule _ _ _ _ _ _ \<Rightarrow> True | _ \<Rightarrow> False) ops)"
  have "schedule_inv (n + ?adds ops) (fold schedule_run ops s)" if "schedule_inv n s" "n + length ops < 2 ^ 64" for n s ops
    using that
  proof (induction ops arbitrary: n s)
    case (Cons op ops)
    show ?case
    proof (cases op)
      case (Add_Rule p sh eh tz re now)
      with Cons.prems add_rule_inv [of n s] have "schedule_inv (n + 1) (schedule_run op s)" by simp
      from Cons.IH [OF this] Cons.prems(2) Add_Rule show ?thesis by simp
    next
      case (Remove_Rule i)
      with Cons.prems remove_rule_inv [of n s] have "schedule_inv n (schedule_run op s)" by simp
      from Cons.IH [OF this] Cons.prems(2) Remove_Rule show ?thesis by simp
    qed
  qed simp
  from this [of 1 schedule_new ops] assms(1,2) have inv: "schedule_inv (1 + ?adds ops) s"
    by (simp add: schedule_inv_def schedule_new_def)
  have "is_blocked_now s domain now \<noteq> None \<longleftrightarrow> (\<exists>r \<in> set (sched_rules s). matches_domain r domain \<and> is_active_now r now)"
    by (auto simp: is_blocked_now_def)
  moreover have "?adds ops \<le> length ops" by (rule length_filter_le)
  moreover have "unat (next_rule_id s) = 1 + ?adds ops" using inv by (simp add: schedule_inv_def)
  ultimately show ?thesis
    using inv remove_rule_inv [OF inv, of i] is_active_window assms(3)
    by (auto simp: schedule_inv_def max_schedule_rules_def add_rule_def Let_def)
qed

theorem schedule_spec_witness:
  "is_blocked_now (fold schedule_run [Add_Rule ''*.tiktok.com'' 22 6 6 ''night'' 0] schedule_new) ''www.tiktok.com.'' 64800 \<noteq> None"
proof -
  let ?ops = "[Add_Rule ''*.tiktok.com'' 22 6 6 ''night'' 0]"
  define r where "r = \<lparr>rule_id = 1, domain_pattern = ''*.tiktok.com'', start_hour = 22, end_hour = 6,
    tz_offset_hours = 6, rule_reason = ''night'', rule_created = 0\<rparr>"
  have rs: "sched_rules (fold schedule_run ?ops schedule_new) = [r]"
    by (simp add: schedule_new_def add_rule_def max_schedule_rules_def r_def)
  have m: "matches_domain r ''www.tiktok.com.''"
    by (simp add: matches_domain_def Let_def r_def) code_simp
  have h: "int 64800 + sint (tz_offset_hours r) * 3600 = 86400" by (simp add: r_def)
  have w: "hours_since (unat (start_hour r)) (nat (86400 div 3600 mod 24)) < hours_since (unat (start_hour r)) (unat (end_hour r))"
    by (simp add: r_def hours_since_def)
  show ?thesis
    using schedule_spec [OF _ refl, of ?ops 64800 "''www.tiktok.com.''"] m h w unfolding rs by simp
qed

end
