(* ===== verification/Ttl_Learner.thy ===== *)
theory Ttl_Learner
  imports Answers Complex_Main "HOL-Library.List_Lexorder" "HOL-Library.Char_ord"
begin

text \<open>
  Learned lifetimes (\<open>src/src/dns/ttl_learner.rs\<close>): per domain the last twenty observed lifetimes,
  their exponential moving average and a hit counter, from which the lifetime and grace period of
  a cache entry are computed. The average is a real number here, a double in the code. The key a
  full map evicts is the first of its iteration order, a parameter.
\<close>

definition max_samples :: nat where "max_samples = 20"
definition max_learned_domains :: nat where "max_learned_domains = 5000"
definition ema_alpha :: real where "ema_alpha = 3 / 10"

record ttl_stats =
  samples :: "u32 list"
  ema :: real
  hit_count :: u64

type_synonym ttl_learner = "string \<rightharpoonup> ttl_stats"

definition saturating_succ64 :: "u64 \<Rightarrow> u64" where
  "saturating_succ64 n = (if n = - 1 then n else n + 1)"

definition saturating_mul32 :: "u32 \<Rightarrow> u32 \<Rightarrow> u32" where
  "saturating_mul32 a b = (if unat a * unat b < 2 ^ 32 then a * b else - 1)"

text \<open>\<open>x.round() as u32\<close>: half away from zero, then saturating.\<close>

definition round_u32 :: "real \<Rightarrow> u32" where
  "round_u32 x = word_of_nat (min (2 ^ 32 - 1) (nat \<lfloor>x + 1 / 2\<rfloor>))"

definition stats_new :: "u32 \<Rightarrow> ttl_stats" where
  "stats_new first = \<lparr>samples = [first], ema = real (unat first), hit_count = 1\<rparr>"

definition stats_record_hit :: "ttl_stats \<Rightarrow> ttl_stats" where
  "stats_record_hit s = s\<lparr>hit_count := saturating_succ64 (hit_count s)\<rparr>"

definition stats_observe :: "u32 \<Rightarrow> ttl_stats \<Rightarrow> ttl_stats" where
  "stats_observe ttl s = \<lparr>
     samples = (if length (samples s) \<ge> max_samples then tl (samples s) else samples s) @ [ttl],
     ema = ema_alpha * real (unat ttl) + (1 - ema_alpha) * ema s,
     hit_count = saturating_succ64 (hit_count s)\<rparr>"

definition stats_ttl_and_grace :: "ttl_stats \<Rightarrow> u32 \<times> u32" where
  "stats_ttl_and_grace s = (
     let base = clamp32 10 3600 (round_u32 (ema s)) in
     if hit_count s < 5 then (base, 300)
     else if hit_count s < 20 then (clamp32 600 7200 (saturating_mul32 base 2), 600)
     else if hit_count s < 100 then (clamp32 1800 28800 (saturating_mul32 base 4), 1800)
     else (clamp32 3600 86400 (saturating_mul32 base 8), 3600))"

definition clean_domain :: "string \<Rightarrow> string" where
  "clean_domain domain = to_ascii_lowercase (trim_end_char CHR ''.'' domain)"

definition learner_record_hit :: "string \<Rightarrow> ttl_learner \<Rightarrow> ttl_learner" where
  "learner_record_hit domain m = (
     let clean = clean_domain domain in
     case m clean of
       Some s \<Rightarrow> m(clean \<mapsto> stats_record_hit s)
     | None \<Rightarrow> if card (dom m) < max_learned_domains then m(clean \<mapsto> (stats_new 300)\<lparr>hit_count := 1\<rparr>) else m)"

definition learner_observe :: "(ttl_learner \<Rightarrow> string) \<Rightarrow> string \<Rightarrow> u32 \<Rightarrow> ttl_learner \<Rightarrow> ttl_learner" where
  "learner_observe first_key domain ttl m =
    (if ttl = 0 \<or> ttl > 86400 then m
     else let clean = clean_domain domain;
              m = (if card (dom m) \<ge> max_learned_domains \<and> clean \<notin> dom m then m(first_key m := None) else m) in
       case m clean of
         Some s \<Rightarrow> m(clean \<mapsto> stats_observe ttl s)
       | None \<Rightarrow> m(clean \<mapsto> stats_new ttl))"

definition smart_ttl_and_grace :: "ttl_learner \<Rightarrow> string \<Rightarrow> u32 \<Rightarrow> u32 \<times> u32" where
  "smart_ttl_and_grace m domain default_ttl =
    (case m (clean_domain domain) of
       Some s \<Rightarrow> stats_ttl_and_grace s
     | None \<Rightarrow> (clamp32 10 3600 default_ttl, 300))"

definition smart_ttl :: "ttl_learner \<Rightarrow> string \<Rightarrow> u32 \<Rightarrow> u32" where
  "smart_ttl m domain default_ttl = fst (smart_ttl_and_grace m domain default_ttl)"

definition learner_hit_count :: "ttl_learner \<Rightarrow> string \<Rightarrow> u64" where
  "learner_hit_count m domain = unwrap_or 0 (map_option hit_count (m (clean_domain domain)))"

section \<open>What is learned\<close>

datatype learner_op = Hit string | Observe string u32

fun learner_run :: "(ttl_learner \<Rightarrow> string) \<Rightarrow> learner_op \<Rightarrow> ttl_learner \<Rightarrow> ttl_learner" where
  "learner_run first_key (Hit d) m = learner_record_hit d m"
| "learner_run first_key (Observe d ttl) m = learner_observe first_key d ttl m"

definition stats_ok :: "ttl_stats \<Rightarrow> bool" where
  "stats_ok s \<longleftrightarrow> samples s \<noteq> [] \<and> length (samples s) \<le> max_samples \<and> 1 \<le> ema s \<and> ema s \<le> 86400 \<and> 1 \<le> hit_count s"

definition learner_inv :: "ttl_learner \<Rightarrow> bool" where
  "learner_inv m \<longleftrightarrow> finite (dom m) \<and> card (dom m) \<le> max_learned_domains \<and> (\<forall>s \<in> ran m. stats_ok s)"

lemma saturating_succ64_ge: "1 \<le> n \<Longrightarrow> 1 \<le> saturating_succ64 n"
proof -
  assume n: "1 \<le> n"
  have "unat (n + 1) = unat n + 1" if "n \<noteq> - 1"
    using that by (metis Suc_eq_plus1 unatSuc add_eq_0_iff neg_equal_iff_equal add.commute)
  with n show ?thesis by (cases "n = - 1") (simp_all add: saturating_succ64_def word_le_nat_alt)
qed

lemma ttl_real: "ttl \<noteq> 0 \<Longrightarrow> ttl \<le> 86400 \<Longrightarrow> 1 \<le> real (unat ttl) \<and> real (unat (ttl :: u32)) \<le> 86400"
proof -
  assume "ttl \<noteq> 0" "ttl \<le> 86400"
  then have "1 \<le> unat ttl" "unat ttl \<le> 86400"
    using unat_gt_0 [of ttl] by (simp_all add: word_le_nat_alt)
  then have "real 1 \<le> real (unat ttl)" "real (unat ttl) \<le> real 86400" by (intro of_nat_mono; simp)+
  then show ?thesis by simp
qed

lemma stats_new_ok: "ttl \<noteq> 0 \<Longrightarrow> ttl \<le> 86400 \<Longrightarrow> stats_ok (stats_new ttl)"
  using ttl_real [of ttl] by (simp add: stats_ok_def stats_new_def max_samples_def)

lemma stats_hit_ok: "stats_ok s \<Longrightarrow> stats_ok (stats_record_hit s)"
  by (simp add: stats_ok_def stats_record_hit_def saturating_succ64_ge)

lemma stats_observe_ok: "stats_ok s \<Longrightarrow> ttl \<noteq> 0 \<Longrightarrow> ttl \<le> 86400 \<Longrightarrow> stats_ok (stats_observe ttl s)"
proof -
  assume s: "stats_ok s" and t: "ttl \<noteq> 0" "ttl \<le> 86400"
  have r: "1 \<le> real (unat ttl)" "real (unat ttl) \<le> 86400"
    using ttl_real [OF t] by simp_all
  from s r have "1 \<le> 3 / 10 * real (unat ttl) + 7 / 10 * ema s" "3 / 10 * real (unat ttl) + 7 / 10 * ema s \<le> 86400"
    by (simp_all add: stats_ok_def)
  with s show ?thesis
    by (auto simp: stats_ok_def stats_observe_def ema_alpha_def max_samples_def saturating_succ64_ge)
qed

lemma ran_upd: "(\<forall>x \<in> ran m. P x) \<Longrightarrow> P v \<Longrightarrow> \<forall>x \<in> ran (m(k \<mapsto> v)). P x"
  by (auto simp: ran_def)

lemma ran_del: "(\<forall>x \<in> ran m. P x) \<Longrightarrow> \<forall>x \<in> ran (m(k := None)). P x"
  by (auto simp: ran_def split: if_splits)

lemma learner_inv_put: "learner_inv m \<Longrightarrow> stats_ok s \<Longrightarrow> k \<in> dom m \<or> card (dom m) < max_learned_domains \<Longrightarrow>
  learner_inv (m(k \<mapsto> s))"
  unfolding learner_inv_def by (intro conjI ran_upd) (auto simp: card_insert_if)

lemma learner_run_inv:
  assumes m: "learner_inv m" and fk: "\<And>m. finite (dom m) \<Longrightarrow> dom m \<noteq> {} \<Longrightarrow> first_key m \<in> dom m"
  shows "learner_inv (learner_run first_key op m)"
proof (cases op)
  case (Hit d)
  show ?thesis
  proof (cases "m (clean_domain d)")
    case None
    have "stats_ok ((stats_new 300)\<lparr>hit_count := 1\<rparr>)" by (simp add: stats_ok_def stats_new_def max_samples_def)
    with None m Hit show ?thesis by (simp add: learner_record_hit_def Let_def learner_inv_put)
  next
    case (Some s)
    then have "stats_ok s" using m by (auto simp: learner_inv_def ran_def)
    with Some m Hit show ?thesis by (auto simp: learner_record_hit_def Let_def intro: learner_inv_put stats_hit_ok)
  qed
next
  case (Observe d ttl)
  let ?c = "clean_domain d"
  show ?thesis
  proof (cases "ttl = 0 \<or> ttl > 86400")
    case False
    then have t: "ttl \<noteq> 0" "ttl \<le> 86400" by auto
    define m' where "m' = (if card (dom m) \<ge> max_learned_domains \<and> ?c \<notin> dom m then m(first_key m := None) else m)"
    have m': "learner_inv m'" "?c \<in> dom m' \<or> card (dom m') < max_learned_domains"
    proof -
      have "learner_inv m' \<and> (?c \<in> dom m' \<or> card (dom m') < max_learned_domains)"
      proof (cases "card (dom m) \<ge> max_learned_domains \<and> ?c \<notin> dom m")
        case True
        then have "dom m \<noteq> {}" by (auto simp: max_learned_domains_def)
        then have "card (dom m - {first_key m}) < card (dom m)"
          using fk [of m] m by (intro card_Diff1_less) (auto simp: learner_inv_def)
        with True m show ?thesis unfolding m'_def by (auto simp: learner_inv_def intro: ran_del [rule_format])
      qed (use m in \<open>auto simp: m'_def\<close>)
      then show "learner_inv m'" "?c \<in> dom m' \<or> card (dom m') < max_learned_domains" by auto
    qed
    have run: "learner_run first_key op m = (case m' ?c of Some s \<Rightarrow> m'(?c \<mapsto> stats_observe ttl s) | None \<Rightarrow> m'(?c \<mapsto> stats_new ttl))"
      using False Observe unfolding m'_def by (simp add: learner_observe_def Let_def del: fun_upd_apply)
    show ?thesis
    proof (cases "m' ?c")
      case None
      then show ?thesis unfolding run using m' stats_new_ok [OF t] by (simp add: learner_inv_put)
    next
      case (Some s)
      then have "stats_ok s" using m' by (auto simp: learner_inv_def ran_def)
      with Some m' t show ?thesis unfolding run by (auto intro: learner_inv_put stats_observe_ok)
    qed
  qed (use m Observe in \<open>simp add: learner_observe_def\<close>)
qed

text \<open>The tier of a hit count: its multiplier, its bounds and its grace period.\<close>

definition tier :: "u64 \<Rightarrow> nat \<times> nat \<times> nat \<times> nat" where
  "tier n = (if n < 5 then (1, 10, 3600, 300) else if n < 20 then (2, 600, 7200, 600)
             else if n < 100 then (4, 1800, 28800, 1800) else (8, 3600, 86400, 3600))"

lemma tier_bounds: "tier n = (k, lo, hi, g) \<Longrightarrow> 10 \<le> lo \<and> lo \<le> hi \<and> hi \<le> 86400"
  by (simp add: tier_def split: if_splits)

lemma unat_clamp32: "lo \<le> hi \<Longrightarrow> unat (clamp32 lo hi x) = max (unat lo) (min (unat hi) (unat x))"
  by (auto simp: clamp32_def word_less_nat_alt word_le_nat_alt max_def min_def)

lemma unat_round_u32: "0 \<le> x \<Longrightarrow> x < 100000 \<Longrightarrow> unat (round_u32 x) = nat \<lfloor>x + 1 / 2\<rfloor>"
proof -
  assume "0 \<le> x" "x < 100000"
  then have "\<lfloor>x + 1 / 2\<rfloor> \<le> 100000" by linarith
  then have "nat \<lfloor>x + 1 / 2\<rfloor> \<le> 100000" by linarith
  then have "nat \<lfloor>x + 1 / 2\<rfloor> < 2 ^ 32" by (rule le_less_trans) simp
  then show ?thesis by (simp add: round_u32_def unat_of_nat)
qed

lemma unat_mul32: "unat a \<le> 3600 \<Longrightarrow> unat b \<le> 8 \<Longrightarrow> unat (saturating_mul32 a b) = unat a * unat b"
proof -
  assume ab: "unat a \<le> 3600" "unat b \<le> 8"
  from mult_le_mono [OF ab] have "unat a * unat b < 2 ^ 32" by simp
  then show ?thesis by (simp add: saturating_mul32_def unat_word_ariths)
qed

lemma stats_ttl_tier:
  assumes "stats_ok s"
  shows "case tier (hit_count s) of (k, lo, hi, g) \<Rightarrow>
    unat (fst (stats_ttl_and_grace s)) = max lo (min hi (k * max 10 (min 3600 (nat \<lfloor>ema s + 1 / 2\<rfloor>)))) \<and>
    unat (snd (stats_ttl_and_grace s)) = g"
proof -
  define base where "base = clamp32 10 3600 (round_u32 (ema s))"
  have b: "unat base = max 10 (min 3600 (nat \<lfloor>ema s + 1 / 2\<rfloor>))"
    using assms unat_round_u32 [of "ema s"] by (simp add: base_def unat_clamp32 stats_ok_def)
  then have "unat base \<le> 3600" by simp
  then have mul: "unat (saturating_mul32 base 2) = 2 * unat base" "unat (saturating_mul32 base 4) = 4 * unat base"
    "unat (saturating_mul32 base 8) = 8 * unat base" by (simp_all add: unat_mul32)
  have f: "stats_ttl_and_grace s = (if hit_count s < 5 then (base, 300)
     else if hit_count s < 20 then (clamp32 600 7200 (saturating_mul32 base 2), 600)
     else if hit_count s < 100 then (clamp32 1800 28800 (saturating_mul32 base 4), 1800)
     else (clamp32 3600 86400 (saturating_mul32 base 8), 3600))"
    by (simp add: stats_ttl_and_grace_def Let_def base_def)
  have b': "max 10 (min 3600 (unat base)) = unat base" unfolding b by simp
  show ?thesis unfolding f tier_def b [symmetric] using b' by (simp add: unat_clamp32 mul)
qed

text \<open>
  Learned lifetimes. After any run of hits and observations at most 5000 domains are tracked,
  each with between one and twenty samples and an average between one second and a day. The
  lifetime used for a tracked domain is the rounded average between 10 and 3600 seconds, times
  1, 2, 4 or 8 by the tier of its hit count and within the bounds of that tier, with the tier's
  grace period; an unknown domain gets the default within 10 and 3600 seconds. It is therefore
  always between 10 seconds and a day, as the cache stores it.
\<close>

theorem ttl_learner_spec:
  assumes fk: "\<And>m. finite (dom m) \<Longrightarrow> dom m \<noteq> {} \<Longrightarrow> first_key m \<in> dom m"
    and m: "m = fold (learner_run first_key) ops Map.empty"
  shows "card (dom m) \<le> 5000 \<and>
    (\<forall>s \<in> ran m. samples s \<noteq> [] \<and> length (samples s) \<le> 20 \<and> 1 \<le> ema s \<and> ema s \<le> 86400) \<and>
    (case m (clean_domain d) of
       None \<Rightarrow> unat (fst (smart_ttl_and_grace m d dflt)) = max 10 (min 3600 (unat dflt)) \<and>
         unat (snd (smart_ttl_and_grace m d dflt)) = 300
     | Some s \<Rightarrow> (case tier (hit_count s) of (k, lo, hi, g) \<Rightarrow>
         unat (fst (smart_ttl_and_grace m d dflt)) = max lo (min hi (k * max 10 (min 3600 (nat \<lfloor>ema s + 1 / 2\<rfloor>)))) \<and>
         unat (snd (smart_ttl_and_grace m d dflt)) = g)) \<and>
    clamp32 10 86400 (smart_ttl m d dflt) = smart_ttl m d dflt"
proof -
  have inv: "learner_inv m"
  proof -
    have "learner_inv (fold (learner_run first_key) ops m0)" if "learner_inv m0" for m0
      using that learner_run_inv [OF _ fk] by (induction ops arbitrary: m0) auto
    moreover have "learner_inv Map.empty" by (simp add: learner_inv_def)
    ultimately show ?thesis unfolding m by blast
  qed
  have sp: "case m (clean_domain d) of
       None \<Rightarrow> unat (fst (smart_ttl_and_grace m d dflt)) = max 10 (min 3600 (unat dflt)) \<and>
         unat (snd (smart_ttl_and_grace m d dflt)) = 300
     | Some s \<Rightarrow> (case tier (hit_count s) of (k, lo, hi, g) \<Rightarrow>
         unat (fst (smart_ttl_and_grace m d dflt)) = max lo (min hi (k * max 10 (min 3600 (nat \<lfloor>ema s + 1 / 2\<rfloor>)))) \<and>
         unat (snd (smart_ttl_and_grace m d dflt)) = g)"
  proof (cases "m (clean_domain d)")
    case (Some s)
    then have "stats_ok s" using inv by (auto simp: learner_inv_def ran_def)
    from stats_ttl_tier [OF this] Some show ?thesis by (simp add: smart_ttl_and_grace_def)
  qed (simp add: smart_ttl_and_grace_def unat_clamp32)
  have "10 \<le> unat (smart_ttl m d dflt) \<and> unat (smart_ttl m d dflt) \<le> 86400"
  proof (cases "m (clean_domain d)")
    case None
    with sp show ?thesis by (simp add: smart_ttl_def)
  next
    case (Some s)
    obtain k lo hi g where t: "tier (hit_count s) = (k, lo, hi, g)" by (cases "tier (hit_count s)")
    with sp Some have "unat (smart_ttl m d dflt) = max lo (min hi (k * max 10 (min 3600 (nat \<lfloor>ema s + 1 / 2\<rfloor>))))"
      unfolding smart_ttl_def by (simp only: option.case prod.case)
    then show ?thesis using tier_bounds [OF t] by linarith
  qed
  then have c: "clamp32 10 86400 (smart_ttl m d dflt) = smart_ttl m d dflt"
    by (simp add: clamp32_def word_less_nat_alt)
  from inv have "card (dom m) \<le> 5000"
    "\<forall>s \<in> ran m. samples s \<noteq> [] \<and> length (samples s) \<le> 20 \<and> 1 \<le> ema s \<and> ema s \<le> 86400"
    by (simp_all add: learner_inv_def stats_ok_def max_learned_domains_def max_samples_def)
  then show ?thesis using sp c by (intro conjI)
qed

theorem ttl_learner_spec_witness:
  "(let m = fold (learner_run (\<lambda>m. Min (dom m))) [Observe ''a.b'' 60, Hit ''A.b.''] Map.empty
    in card (dom m) \<le> 5000 \<and> clamp32 10 86400 (smart_ttl m ''a.b'' 5) = smart_ttl m ''a.b'' 5)"
proof -
  have fk: "Min (dom m) \<in> dom m" if "finite (dom m)" "dom m \<noteq> {}" for m :: ttl_learner
    using that by (rule Min_in)
  from ttl_learner_spec [of "\<lambda>m. Min (dom m)", OF fk refl, of "[Observe ''a.b'' 60, Hit ''A.b.'']" "''a.b''" 5]
  show ?thesis unfolding Let_def by blast
qed

end
