(* ===== verification/Passive_Dns.thy ===== *)
theory Passive_Dns
  imports Ip_Addr Rust_Str "HOL-Library.Multiset" "HOL-Library.List_Lexorder" "HOL-Library.Char_ord"
begin

text \<open>
  Passive DNS (\<open>src/src/dns/passive_dns.rs\<close>): the addresses seen for each name over seven days, and
  the detection of a changed address set. The clock is an argument; the iteration order of the hash
  map enters as \<open>first_key\<close> and \<open>order\<close>.
\<close>

section \<open>Printed addresses\<close>

fun hex_lower :: "nat \<Rightarrow> string" where
  "hex_lower n = (if n < 16 then [''0123456789abcdef'' ! n] else hex_lower (n div 16) @ [''0123456789abcdef'' ! (n mod 16)])"

declare hex_lower.simps [simp del]

definition show_ipv4 :: "ipv4 \<Rightarrow> string" where
  "show_ipv4 ip = join_char CHR ''.'' (map (\<lambda>i. decimal (unat (v4_octet ip i))) [0, 1, 2, 3])"

definition show_segments :: "u16 list \<Rightarrow> string" where
  "show_segments segs = join_char CHR '':'' (map (\<lambda>s. hex_lower (unat s)) segs)"

text \<open>The longest run of zero segments, the first one among equals: its start and length.\<close>

fun zero_span :: "u16 list \<Rightarrow> nat \<Rightarrow> nat \<times> nat \<Rightarrow> nat \<times> nat \<Rightarrow> nat \<times> nat" where
  "zero_span [] i longest current = longest"
| "zero_span (s # ss) i (ls, ll) (cs, cl) =
    (if s = 0 then
       (let current = (if cl = 0 then (i, 1) else (cs, cl + 1)) in
        zero_span ss (i + 1) (if snd current > ll then current else (ls, ll)) current)
     else zero_span ss (i + 1) (ls, ll) (0, 0))"

definition show_ipv6 :: "ipv6 \<Rightarrow> string" where
  "show_ipv6 ip = (
     let segs = map (v6_segment ip) [0, 1, 2, 3, 4, 5, 6, 7] in
     if take 6 segs = [0, 0, 0, 0, 0, 0xffff] then ''::ffff:'' @ show_ipv4 (v6_low ip)
     else case zero_span segs 0 (0, 0) (0, 0) of (start, len) \<Rightarrow>
       if len > 1 then show_segments (take start segs) @ ''::'' @ show_segments (drop (start + len) segs)
       else show_segments segs)"

fun show_ip :: "ip_addr \<Rightarrow> string" where
  "show_ip (V4 ip) = show_ipv4 ip"
| "show_ip (V6 ip) = show_ipv6 ip"

section \<open>The store\<close>

record passive_entry =
  seen_ip :: string
  seen_at :: u64

record domain_record =
  entries :: "passive_entry list"
  last_ip_set :: "string list"

record passive_store =
  inner :: "string \<rightharpoonup> domain_record"
  drift_events :: u64
  total_observations :: u64

definition max_entries_per_domain :: nat where "max_entries_per_domain = 50"
definition max_age_secs :: u64 where "max_age_secs = 604800"
definition max_tracked_domains :: nat where "max_tracked_domains = 10000"

definition passive_new :: passive_store where
  "passive_new = \<lparr>inner = Map.empty, drift_events = 0, total_observations = 0\<rparr>"

definition cutoff :: "u64 \<Rightarrow> u64 \<Rightarrow> u64" where
  "cutoff now age = (if age \<le> now then now - age else 0)"

definition pd_clean :: "string \<Rightarrow> string" where
  "pd_clean domain = to_ascii_lowercase (trim_end_char CHR ''.'' domain)"

definition push_entry :: "u64 \<Rightarrow> string \<Rightarrow> passive_entry list \<Rightarrow> passive_entry list" where
  "push_entry now ip es =
    (if length es \<ge> max_entries_per_domain then tl es else es) @ [\<lparr>seen_ip = ip, seen_at = now\<rparr>]"

definition record_ips ::
  "((string \<rightharpoonup> domain_record) \<Rightarrow> string) \<Rightarrow> u64 \<Rightarrow> string \<Rightarrow> ip_addr list \<Rightarrow> passive_store \<Rightarrow>
   string list option \<times> passive_store" where
  "record_ips first_key now domain ips st =
    (if ips = [] then (None, st)
     else let clean = pd_clean domain;
              new_ip_strs = map show_ip ips;
              m = inner st;
              m = (if card (dom m) \<ge> max_tracked_domains \<and> clean \<notin> dom m then m(first_key m := None) else m);
              r = unwrap_or \<lparr>entries = [], last_ip_set = []\<rparr> (m clean);
              es = dropWhile (\<lambda>e. seen_at e < cutoff now max_age_secs) (entries r);
              drift_old = (if last_ip_set r \<noteq> [] \<and> sort (last_ip_set r) \<noteq> sort new_ip_strs
                           then Some (last_ip_set r) else None);
              es = fold (push_entry now) new_ip_strs es
       in (drift_old, \<lparr>inner = m(clean \<mapsto> \<lparr>entries = es, last_ip_set = new_ip_strs\<rparr>),
             drift_events = (if drift_old = None then drift_events st else drift_events st + 1),
             total_observations = total_observations st + 1\<rparr>))"

definition get_timeline :: "passive_store \<Rightarrow> string \<Rightarrow> passive_entry list" where
  "get_timeline st domain = (case inner st (pd_clean domain) of Some r \<Rightarrow> rev (entries r) | None \<Rightarrow> [])"

record drift_row =
  row_domain :: string
  row_new_ip :: string
  row_old_ip :: string
  row_seen_at :: u64

fun drift_rows :: "nat \<Rightarrow> u64 \<Rightarrow> (string \<times> domain_record) list \<Rightarrow> drift_row list \<Rightarrow> drift_row list" where
  "drift_rows limit since [] out = out"
| "drift_rows limit since ((domain, r) # rest) out = (
     let es = filter (\<lambda>e. seen_at e \<ge> since) (entries r) in
     if length es \<ge> 2 then
       (let first = last es; last' = hd es in
        if seen_ip first \<noteq> seen_ip last' then
          (let out' = out @ [\<lparr>row_domain = domain, row_new_ip = seen_ip last', row_old_ip = seen_ip first,
                             row_seen_at = seen_at last'\<rparr>] in
           if length out' \<ge> limit then out' else drift_rows limit since rest out')
        else drift_rows limit since rest out)
     else drift_rows limit since rest out)"

definition get_recent_drifts ::
  "((string \<rightharpoonup> domain_record) \<Rightarrow> (string \<times> domain_record) list) \<Rightarrow> u64 \<Rightarrow> nat \<Rightarrow> passive_store \<Rightarrow> drift_row list" where
  "get_recent_drifts order now limit st = drift_rows limit (cutoff now 3600) (order (inner st)) []"

definition pd_prune :: "u64 \<Rightarrow> passive_store \<Rightarrow> passive_store" where
  "pd_prune now st = st\<lparr>inner := (\<lambda>k. case inner st k of None \<Rightarrow> None
     | Some r \<Rightarrow> let es = dropWhile (\<lambda>e. seen_at e < cutoff now max_age_secs) (entries r) in
         if es = [] then None else Some (r\<lparr>entries := es\<rparr>))\<rparr>"

section \<open>Bounds\<close>

datatype passive_op = Record u64 string "ip_addr list" | Prune u64

fun passive_run :: "((string \<rightharpoonup> domain_record) \<Rightarrow> string) \<Rightarrow> passive_op \<Rightarrow> passive_store \<Rightarrow> passive_store" where
  "passive_run first_key (Record now d ips) st = snd (record_ips first_key now d ips st)"
| "passive_run first_key (Prune now) st = pd_prune now st"

lemma push_entry_length: "length es \<le> max_entries_per_domain \<Longrightarrow> length (push_entry now ip es) \<le> max_entries_per_domain"
  by (auto simp: push_entry_def max_entries_per_domain_def)

text \<open>A bounded queue holds the last fifty of what was pushed.\<close>

lemma fold_push: "length es \<le> max_entries_per_domain \<Longrightarrow>
  rev (fold (push_entry now) ips es) =
    take max_entries_per_domain (rev (map (\<lambda>ip. \<lparr>seen_ip = ip, seen_at = now\<rparr>) ips) @ rev es)"
proof (induction ips arbitrary: es)
  case (Cons ip ips)
  let ?M = max_entries_per_domain and ?e = "\<lambda>ip. \<lparr>seen_ip = ip, seen_at = now\<rparr>"
  have "rev (push_entry now ip es) = take ?M (?e ip # rev es)"
    using Cons.prems by (cases es) (auto simp: push_entry_def max_entries_per_domain_def)
  with Cons.IH [OF push_entry_length [OF Cons.prems], of now ip]
  have "rev (fold (push_entry now) (ip # ips) es) = take ?M (rev (map ?e ips) @ take ?M (?e ip # rev es))" by simp
  also have "\<dots> = take ?M (rev (map ?e ips) @ ?e ip # rev es)"
    by (simp add: take_append min_def)
  finally show ?case by simp
qed simp

definition passive_inv :: "passive_store \<Rightarrow> bool" where
  "passive_inv st \<longleftrightarrow> finite (dom (inner st)) \<and> card (dom (inner st)) \<le> max_tracked_domains \<and>
     (\<forall>k r. inner st k = Some r \<longrightarrow> length (entries r) \<le> max_entries_per_domain)"

lemma sort_eq_mset: "sort xs = sort ys \<longleftrightarrow> mset xs = mset ys"
  by (metis mset_sort sorted_list_of_multiset_mset)

lemma fold_push_length: "length es \<le> max_entries_per_domain \<Longrightarrow> length (fold (push_entry now) ips es) \<le> max_entries_per_domain"
  by (induction ips arbitrary: es) (simp_all add: push_entry_length)

text \<open>Room for a new name: at most one other name is forgotten.\<close>

definition make_room :: "((string \<rightharpoonup> domain_record) \<Rightarrow> string) \<Rightarrow> string \<Rightarrow> (string \<rightharpoonup> domain_record) \<Rightarrow> string \<rightharpoonup> domain_record" where
  "make_room first_key k m = (if card (dom m) \<ge> max_tracked_domains \<and> k \<notin> dom m then m(first_key m := None) else m)"

lemma make_room_key: "make_room first_key k m k = m k"
  by (auto simp: make_room_def domIff)

lemma make_room_card:
  assumes "finite (dom m)" "card (dom m) \<le> max_tracked_domains"
    and fk: "\<And>m. finite (dom m) \<Longrightarrow> dom m \<noteq> {} \<Longrightarrow> first_key m \<in> dom m"
  shows "finite (dom (make_room first_key k m)) \<and> card (insert k (dom (make_room first_key k m))) \<le> max_tracked_domains"
proof (cases "card (dom m) \<ge> max_tracked_domains \<and> k \<notin> dom m")
  case True
  then have "dom m \<noteq> {}" by (auto simp: max_tracked_domains_def)
  with fk assms(1) have "first_key m \<in> dom m" by blast
  with True assms(1,2) have "card (dom m - {first_key m}) + 1 = card (dom m)"
    using card_Suc_Diff1 [of "dom m" "first_key m"] by simp
  with True assms show ?thesis by (simp add: make_room_def card_insert_if)
next
  case False
  with assms show ?thesis by (auto simp: make_room_def card_insert_if insert_absorb)
qed

lemma record_form:
  "ips \<noteq> [] \<Longrightarrow> record_ips first_key now d ips st = (
     let m = make_room first_key (pd_clean d) (inner st);
         r = unwrap_or \<lparr>entries = [], last_ip_set = []\<rparr> (inner st (pd_clean d));
         old = (if last_ip_set r \<noteq> [] \<and> mset (last_ip_set r) \<noteq> mset (map show_ip ips) then Some (last_ip_set r) else None)
     in (old, \<lparr>inner = m(pd_clean d \<mapsto> \<lparr>entries = fold (push_entry now) (map show_ip ips)
             (dropWhile (\<lambda>e. seen_at e < cutoff now max_age_secs) (entries r)), last_ip_set = map show_ip ips\<rparr>),
           drift_events = (if old = None then drift_events st else drift_events st + 1),
           total_observations = total_observations st + 1\<rparr>))"
  unfolding record_ips_def Let_def make_room_def [symmetric] make_room_key sort_eq_mset by simp

lemma dropWhile_le: "length (dropWhile P xs) \<le> length xs"
  by (induction xs) auto

lemma passive_run_inv:
  assumes st: "passive_inv st" and fk: "\<And>m. finite (dom m) \<Longrightarrow> dom m \<noteq> {} \<Longrightarrow> first_key m \<in> dom m"
  shows "passive_inv (passive_run first_key op st)"
proof (cases op)
  case (Record now d ips)
  show ?thesis
  proof (cases "ips = []")
    case False
    let ?m = "make_room first_key (pd_clean d) (inner st)"
    define r where "r = unwrap_or \<lparr>entries = [], last_ip_set = []\<rparr> (inner st (pd_clean d))"
    have "length (entries r) \<le> max_entries_per_domain"
      using st by (auto simp: r_def passive_inv_def unwrap_or_def split: option.split)
    then have l: "length (fold (push_entry now) (map show_ip ips) (dropWhile (\<lambda>e. seen_at e < cutoff now max_age_secs) (entries r)))
        \<le> max_entries_per_domain" by (intro fold_push_length) (meson dropWhile_le le_trans)
    have sub: "?m k = Some x \<Longrightarrow> inner st k = Some x" for k x by (auto simp: make_room_def split: if_splits)
    have "finite (dom (inner st))" "card (dom (inner st)) \<le> max_tracked_domains" using st by (simp_all add: passive_inv_def)
    note c = make_room_card [where first_key = first_key, OF this fk, of "pd_clean d"]
    show ?thesis
      unfolding Record passive_run.simps record_form [OF False] Let_def r_def [symmetric] snd_conv passive_inv_def
        passive_store.simps
    proof (intro conjI allI impI)
      fix k x
      assume "(?m(pd_clean d \<mapsto> \<lparr>entries = fold (push_entry now) (map show_ip ips)
          (dropWhile (\<lambda>e. seen_at e < cutoff now max_age_secs) (entries r)), last_ip_set = map show_ip ips\<rparr>)) k = Some x"
      then show "length (entries x) \<le> max_entries_per_domain"
        using l sub [of k x] st by (auto simp: passive_inv_def split: if_splits)
    qed (use c in simp_all)
  qed (use st Record in \<open>simp add: record_ips_def\<close>)
next
  case (Prune now)
  let ?f = "\<lambda>k. case inner st k of None \<Rightarrow> None
     | Some r \<Rightarrow> let es = dropWhile (\<lambda>e. seen_at e < cutoff now max_age_secs) (entries r) in
         if es = [] then None else Some (r\<lparr>entries := es\<rparr>)"
  have sub: "dom ?f \<subseteq> dom (inner st)" by (auto split: option.splits)
  have "length (entries x) \<le> max_entries_per_domain" if fx: "?f k = Some x" for k x
  proof -
    from fx obtain r where r: "inner st k = Some r" "entries x = dropWhile (\<lambda>e. seen_at e < cutoff now max_age_secs) (entries r)"
      by (auto simp: Let_def split: option.splits if_splits)
    with st have "length (entries r) \<le> max_entries_per_domain" by (simp add: passive_inv_def)
    then show ?thesis unfolding r(2) by (meson dropWhile_le le_trans)
  qed
  with sub st show ?thesis
    unfolding Prune passive_run.simps pd_prune_def passive_inv_def passive_store.simps
    by (auto dest: finite_subset card_mono [rotated])
qed

text \<open>
  Passive DNS. After any run of observations and prunings at most 10000 names are tracked, each
  with at most fifty entries. Observing addresses reports the previous addresses exactly when there
  were some and they differ as a multiset, counts that drift, makes the timeline of the name the
  new addresses in front of the entries of the last seven days, cut at fifty, and leaves every
  other name as it was or, when the store is full, forgets it.
\<close>

theorem passive_dns_spec:
  assumes fk: "\<And>m. finite (dom m) \<Longrightarrow> dom m \<noteq> {} \<Longrightarrow> first_key m \<in> dom m"
    and st: "st = fold (passive_run first_key) ops passive_new" and ips: "ips \<noteq> []"
    and r: "r = unwrap_or \<lparr>entries = [], last_ip_set = []\<rparr> (inner st (pd_clean d))"
    and rec: "record_ips first_key now d ips st = (old, st')"
  shows "card (dom (inner st')) \<le> 10000 \<and>
    old = (if last_ip_set r \<noteq> [] \<and> mset (last_ip_set r) \<noteq> mset (map show_ip ips) then Some (last_ip_set r) else None) \<and>
    drift_events st' = drift_events st + (if old = None then 0 else 1) \<and>
    get_timeline st' d = take 50 (rev (map (\<lambda>ip. \<lparr>seen_ip = show_ip ip, seen_at = now\<rparr>) ips) @
      rev (dropWhile (\<lambda>e. seen_at e < cutoff now max_age_secs) (entries r))) \<and>
    (\<forall>k. k = pd_clean d \<or> inner st' k = inner st k \<or> inner st' k = None \<and> card (dom (inner st)) = 10000)"
proof -
  have inv: "passive_inv st"
  proof -
    have "passive_inv (fold (passive_run first_key) ops s0)" if "passive_inv s0" for s0
      using that passive_run_inv [OF _ fk] by (induction ops arbitrary: s0) auto
    moreover have "passive_inv passive_new" by (simp add: passive_inv_def passive_new_def)
    ultimately show ?thesis unfolding st by blast
  qed
  from passive_run_inv [where first_key = first_key, OF inv fk, of "Record now d ips"] rec have "passive_inv st'" by simp
  then have c: "card (dom (inner st')) \<le> 10000" by (simp add: passive_inv_def max_tracked_domains_def)
  have "length (entries r) \<le> max_entries_per_domain"
    using inv by (auto simp: r passive_inv_def unwrap_or_def split: option.split)
  then have l: "length (dropWhile (\<lambda>e. seen_at e < cutoff now max_age_secs) (entries r)) \<le> max_entries_per_domain"
    by (meson dropWhile_le le_trans)
  note f = rec [unfolded record_form [OF ips] Let_def, folded r, symmetric]
  have st': "st' = \<lparr>inner = (make_room first_key (pd_clean d) (inner st))(pd_clean d \<mapsto>
         \<lparr>entries = fold (push_entry now) (map show_ip ips)
             (dropWhile (\<lambda>e. seen_at e < cutoff now max_age_secs) (entries r)), last_ip_set = map show_ip ips\<rparr>),
       drift_events = (if old = None then drift_events st else drift_events st + 1),
       total_observations = total_observations st + 1\<rparr>" and old:
    "old = (if last_ip_set r \<noteq> [] \<and> mset (last_ip_set r) \<noteq> mset (map show_ip ips) then Some (last_ip_set r) else None)"
    using f by (simp_all only: prod.inject)
  have t: "get_timeline st' d = take 50 (rev (map (\<lambda>ip. \<lparr>seen_ip = show_ip ip, seen_at = now\<rparr>) ips) @
      rev (dropWhile (\<lambda>e. seen_at e < cutoff now max_age_secs) (entries r)))"
    using fold_push [OF l, of now "map show_ip ips"]
    by (simp add: get_timeline_def st' max_entries_per_domain_def comp_def)
  have o: "k = pd_clean d \<or> inner st' k = inner st k \<or> inner st' k = None \<and> card (dom (inner st)) = 10000" for k
    using inv by (auto simp: st' make_room_def passive_inv_def max_tracked_domains_def)
  show ?thesis using c old t o by (simp add: st')
qed

theorem passive_dns_spec_witness:
  "fst (record_ips (\<lambda>m. Min (dom m)) 100 ''A.b.'' [V4 0x08080404] (passive_run (\<lambda>m. Min (dom m)) (Record 7 ''a.b'' [V4 0x08080808]) passive_new))
     = Some [''8.8.8.8'']"
proof -
  let ?fk = "\<lambda>m :: string \<rightharpoonup> domain_record. Min (dom m)"
  let ?st = "fold (passive_run ?fk) [Record 7 ''a.b'' [V4 0x08080808]] passive_new"
  have fk: "?fk m \<in> dom m" if "finite (dom m)" "dom m \<noteq> {}" for m :: "string \<rightharpoonup> domain_record"
    using that by (rule Min_in)
  have k: "pd_clean ''a.b'' = ''a.b''" "pd_clean ''A.b.'' = ''a.b''" by code_simp+
  have s: "show_ipv4 0x08080808 = ''8.8.8.8''" "show_ipv4 0x08080404 = ''8.8.4.4''" by code_simp+
  obtain old st' where rec: "record_ips ?fk 100 ''A.b.'' [V4 0x08080404] ?st = (old, st')" by fastforce
  have "unwrap_or \<lparr>entries = [], last_ip_set = []\<rparr> (inner ?st (pd_clean ''A.b.'')) =
      \<lparr>entries = [\<lparr>seen_ip = ''8.8.8.8'', seen_at = 7\<rparr>], last_ip_set = [''8.8.8.8'']\<rparr>"
    unfolding k by (simp add: record_form k s passive_new_def make_room_def max_tracked_domains_def Let_def push_entry_def max_entries_per_domain_def)
  from passive_dns_spec [of ?fk, OF fk refl _ this [symmetric] rec] rec s
  show ?thesis by simp
qed

text \<open>
  A row of the drift report calls the oldest of the recent addresses the new one, and the newest
  one the old one.
\<close>

lemma drift_row_swapped:
  "drift_rows 50 0 [(d, \<lparr>entries = [\<lparr>seen_ip = ''8.8.8.8'', seen_at = 7\<rparr>, \<lparr>seen_ip = ''8.8.4.4'', seen_at = 9\<rparr>], last_ip_set = []\<rparr>)] []
     = [\<lparr>row_domain = d, row_new_ip = ''8.8.8.8'', row_old_ip = ''8.8.4.4'', row_seen_at = 7\<rparr>]"
  by simp

end
