(* ===== verification/Heuristics.thy ===== *)
theory Heuristics
  imports Rust_Str Complex_Main
begin

text \<open>
  The name heuristics (\<open>src/src/security/heuristics.rs\<close>): Shannon entropy with a frequency table
  filled eight bytes at a time, the Levenshtein distance with one row of costs, and the three
  predicates built on them. Entropies are real numbers here, doubles in the code.
\<close>

section \<open>Shannon entropy\<close>

text \<open>\<open>read_unaligned\<close> of eight bytes on a little-endian machine.\<close>

definition le64 :: "bytes \<Rightarrow> u64" where
  "le64 bs = word_of_nat (foldr (\<lambda>b v. unat b + 256 * v) bs 0)"

definition norm_byte :: "u8 \<Rightarrow> u8" where
  "norm_byte b = (if is_upper_code (unat b) then b OR 0x20 else b)"

definition freq_index :: "u8 \<Rightarrow> nat" where
  "freq_index b = unat b mod 128"

definition bump :: "nat list \<Rightarrow> u8 \<Rightarrow> nat list" where
  "bump freq b = (let i = freq_index (norm_byte b) in freq[i := freq ! i + 1])"

definition chunk_bytes :: "u64 \<Rightarrow> bytes" where
  "chunk_bytes chunk = map (\<lambda>k. ucast (drop_bit (8 * k) chunk AND 0xFF)) [0..<8]"

definition count_chunk :: "bytes \<Rightarrow> nat list \<Rightarrow> nat \<Rightarrow> nat list" where
  "count_chunk bs freq i = foldl bump freq (chunk_bytes (le64 (take 8 (drop (i * 8) bs))))"

definition frequencies :: "bytes \<Rightarrow> nat list" where
  "frequencies bs = (
     let chunks = length bs div 8; rest = length bs mod 8;
         freq = foldl (count_chunk bs) (replicate 128 0) [0..<chunks]
     in foldl bump freq (take rest (drop (chunks * 8) bs)))"

definition entropy_term :: "real \<Rightarrow> nat \<Rightarrow> real" where
  "entropy_term len_f count = (if count > 0 then let p = real count / len_f in p * log 2 p else 0)"

definition calculate_entropy :: "string \<Rightarrow> real" where
  "calculate_entropy domain = (
     let bs = map char_byte domain; len = length bs in
     if len = 0 then 0
     else foldl (\<lambda>entropy count. entropy - entropy_term (real len) count) 0 (frequencies bs))"

section \<open>Levenshtein distance\<close>

fun lev_row :: "char \<Rightarrow> (nat \<times> char) list \<Rightarrow> nat \<Rightarrow> nat list \<Rightarrow> nat list" where
  "lev_row ca [] last_val costs = costs"
| "lev_row ca ((j, cb) # rest) last_val costs = (
     let new_val = (if ca \<noteq> cb then min (min last_val (costs ! j)) (costs ! (j + 1)) + 1 else last_val)
     in lev_row ca rest (costs ! (j + 1)) (costs[j + 1 := new_val]))"

fun lev_rows :: "(nat \<times> char) list \<Rightarrow> string \<Rightarrow> nat list \<Rightarrow> nat list" where
  "lev_rows [] b costs = costs"
| "lev_rows ((i, ca) # rest) b costs = lev_rows rest b (lev_row ca (enumerate 0 b) i (costs[0 := i + 1]))"

definition levenshtein_dist :: "string \<Rightarrow> string \<Rightarrow> nat" where
  "levenshtein_dist a b = lev_rows (enumerate 0 a) b [0..<length b + 1] ! length b"

section \<open>The predicates\<close>

definition high_value_brands :: "string list" where
  "high_value_brands = [''paypal'', ''google'', ''apple'', ''microsoft'', ''amazon'', ''facebook'', ''netflix'',
     ''binance'', ''coinbase'', ''whatsapp'', ''instagram'', ''chase'', ''bankofamerica'', ''wellsfargo'']"

definition immune_domains :: "string list" where
  "immune_domains = [''google.com'', ''cloudflare.com'', ''apple.com'', ''microsoft.com'', ''github.com'',
     ''wikipedia.org'', ''jsdelivr.net'', ''fly.dev'', ''ubuntu.com'', ''debian.org'', ''mozilla.org'', ''nist.gov'']"

definition is_known_immune :: "string \<Rightarrow> bool" where
  "is_known_immune domain = (
     let clean = to_ascii_lowercase (trim_end_char CHR ''.'' domain) in
     \<exists>immune \<in> set immune_domains. clean = immune \<or> ends_with clean (''.'' @ immune))"

definition replace_char :: "char \<Rightarrow> char \<Rightarrow> string \<Rightarrow> string" where
  "replace_char c d s = map (\<lambda>x. if x = c then d else x) s"

fun replace_vv :: "string \<Rightarrow> string" where
  "replace_vv (x # y # s) = (if x = CHR ''v'' \<and> y = CHR ''v'' then CHR ''w'' # replace_vv s else x # replace_vv (y # s))"
| "replace_vv s = s"

definition substituted :: "string \<Rightarrow> string" where
  "substituted s = replace_vv (replace_char CHR ''5'' CHR ''s'' (replace_char CHR ''1'' CHR ''l''
     (replace_char CHR ''0'' CHR ''o'' s)))"

definition str_contains :: "string \<Rightarrow> string \<Rightarrow> bool" where
  "str_contains s p \<longleftrightarrow> str_find_sub p s \<noteq> None"

definition is_lookalike_threat :: "string \<Rightarrow> bool" where
  "is_lookalike_threat domain = (
     let clean = to_ascii_lowercase (trim_end_char CHR ''.'' domain) in
     if is_known_immune clean then False
     else let parts = split_char CHR ''.'' clean in
     if length parts < 2 then False
     else let sld = parts ! (length parts - 2) in
     (case strip_prefix sld ''xn--'' of
        Some puny_body \<Rightarrow>
          let normalized_puny = substituted puny_body in
          \<exists>brand \<in> set high_value_brands. str_contains puny_body brand \<or> str_contains normalized_puny brand
      | None \<Rightarrow>
          let normalized = substituted sld in
          \<exists>brand \<in> set high_value_brands. sld \<noteq> brand \<and>
            (normalized = brand \<or> levenshtein_dist sld brand = 1 \<and> length sld \<ge> 5)))"

definition vowel :: "char \<Rightarrow> bool" where
  "vowel c \<longleftrightarrow> c \<in> {CHR ''a'', CHR ''e'', CHR ''i'', CHR ''o'', CHR ''u''}"

fun consonants :: "string \<Rightarrow> nat \<Rightarrow> nat \<Rightarrow> nat" where
  "consonants [] cur best = best"
| "consonants (c # s) cur best =
    (if vowel c then consonants s 0 best
     else if is_alpha_code (code c) then consonants s (cur + 1) (max best (cur + 1))
     else consonants s cur best)"

definition is_dga_threat :: "string \<Rightarrow> bool" where
  "is_dga_threat domain = (
     let clean = to_ascii_lowercase (trim_end_char CHR ''.'' domain) in
     if is_known_immune clean then False
     else let parts = split_char CHR ''.'' clean in
     if length parts < 2 then False
     else let sld = parts ! (length parts - 2) in
     if CHR ''-'' \<in> set sld then
       \<exists>token \<in> set (filter (\<lambda>s. s \<noteq> []) (split_char CHR ''-'' sld)). length token \<ge> 12 \<and> calculate_entropy token > 3.75
     else if length sld \<ge> 12 \<and> calculate_entropy sld > 3.75 then
       consonants sld 0 0 \<ge> 4 \<or> calculate_entropy sld > 3.95
     else False)"

definition cryptominer_signatures :: "string list" where
  "cryptominer_signatures = [''stratum'', ''coinhive'', ''crypto-loot'', ''webminerpool'', ''cryptonight'',
     ''xmrpool'', ''moneropool'', ''nanopool'', ''minexmr'', ''minergate'', ''hashvault'', ''supportxmr'',
     ''unmineable'', ''2miners'', ''f2pool'']"

definition is_c2_or_miner_threat :: "string \<Rightarrow> bool" where
  "is_c2_or_miner_threat domain = (
     let clean = to_ascii_lowercase (trim_end_char CHR ''.'' domain) in
     if is_known_immune clean then False
     else if \<exists>sig \<in> set cryptominer_signatures. str_contains clean sig then True
     else if length clean \<ge> 35 then
       (let first_label = hd (split_char CHR ''.'' clean) in
        length first_label \<ge> 28 \<and> calculate_entropy first_label \<ge> 4.1)
     else False)"

section \<open>The row computes the least cost of an alignment\<close>

inductive align :: "nat \<Rightarrow> 'a list \<Rightarrow> 'a list \<Rightarrow> bool" where
  stop: "align 0 [] []"
| keep: "align n xs ys \<Longrightarrow> align n (x # xs) (x # ys)"
| subst: "align n xs ys \<Longrightarrow> align (Suc n) (x # xs) (y # ys)"
| del: "align n xs ys \<Longrightarrow> align (Suc n) (x # xs) ys"
| ins: "align n xs ys \<Longrightarrow> align (Suc n) xs (y # ys)"

fun edit :: "'a list \<Rightarrow> 'a list \<Rightarrow> nat" where
  "edit [] ys = length ys"
| "edit (x # xs) [] = Suc (length xs)"
| "edit (x # xs) (y # ys) =
    (if x = y then edit xs ys else Suc (min (min (edit xs ys) (edit (x # xs) ys)) (edit xs (y # ys))))"

lemma edit_Nil [simp]: "edit xs [] = length xs"
  by (cases xs) simp_all

lemma edit_sym: "edit xs ys = edit ys xs"
  by (induction xs ys rule: edit.induct) (auto simp: min.commute min.left_commute)

text \<open>One more letter on either side changes the distance by at most one.\<close>

lemma edit_step: "edit ((x :: 'a) # xs) ys \<le> Suc (edit xs ys) \<and> edit xs ys \<le> Suc (edit (x # xs) ys)"
proof (induction "length xs + length ys" arbitrary: x xs ys rule: less_induct)
  case less
  show ?case
  proof (cases ys)
    case (Cons y ys')
    have A: "edit (u # us) vs \<le> Suc (edit us vs)" "edit us vs \<le> Suc (edit (u # us) vs)"
      if "length us + length vs < length xs + length ys" for u and us vs :: "'a list"
      using less.hyps [OF that] by blast+
    have B: "edit us (v # vs) \<le> Suc (edit us vs)" "edit us vs \<le> Suc (edit us (v # vs))"
      if "length us + length vs < length xs + length ys" for v and us vs :: "'a list"
      using less.hyps [of vs us v] that by (simp_all add: edit_sym [of us] add.commute [of "length us"])
    show ?thesis
      using A [of xs ys' x] B [of xs ys' y] Cons by (cases "x = y") (auto simp: min_def)
  qed simp
qed

lemma edit_le: "align n xs ys \<Longrightarrow> edit xs ys \<le> n"
proof (induction rule: align.induct)
  case (subst n xs ys x y)
  then show ?case by auto
next
  case (del n xs ys x)
  then show ?case using edit_step [of x xs ys] by simp
next
  case (ins n xs ys y)
  then show ?case using edit_step [of y ys xs] by (simp add: edit_sym [of xs])
qed simp_all

lemma align_edit: "align (edit xs ys) xs ys"
proof (induction xs ys rule: edit.induct)
  case (1 ys)
  show ?case by (induction ys) (auto intro: align.intros)
next
  case (2 x xs)
  have "align (length xs) xs []" by (induction xs) (auto intro: align.intros)
  then show ?case by (auto intro: align.intros)
next
  case (3 x xs y ys)
  then show ?case by (auto simp: min_def intro: align.intros)
qed

lemma edit_least: "edit xs ys = (LEAST n. align n xs ys)"
  by (rule Least_equality [symmetric]) (simp_all add: align_edit edit_le)

lemma align_append: "align n xs ys \<Longrightarrow> align m us vs \<Longrightarrow> align (n + m) (xs @ us) (ys @ vs)"
  by (induction rule: align.induct) (auto intro: align.intros)

lemma align_rev: "align n xs ys \<Longrightarrow> align n (rev xs) (rev ys)"
proof (induction rule: align.induct)
  case (keep n xs ys x)
  then show ?case using align_append [OF keep.IH align.keep [OF align.stop]] by simp
next
  case (subst n xs ys x y)
  then show ?case using align_append [OF subst.IH align.subst [OF align.stop]] by simp
next
  case (del n xs ys x)
  then show ?case using align_append [OF del.IH align.del [OF align.stop]] by simp
next
  case (ins n xs ys y)
  then show ?case using align_append [OF ins.IH align.ins [OF align.stop]] by simp
qed (auto intro: align.intros)

lemma edit_rev: "edit (rev xs) (rev ys) = edit xs ys"
  using align_rev [of _ xs ys] align_rev [of _ "rev xs" "rev ys"] by (simp add: edit_least) (metis (full_types))

text \<open>The distance of two prefixes, as the cell of the full table.\<close>

definition cell :: "string \<Rightarrow> string \<Rightarrow> nat \<Rightarrow> nat \<Rightarrow> nat" where
  "cell a b i j = edit (rev (take i a)) (rev (take j b))"

lemma cell_0: "j \<le> length b \<Longrightarrow> cell a b 0 j = j"
  by (simp add: cell_def)

lemma cell_Suc_0: "i < length a \<Longrightarrow> cell a b (Suc i) 0 = Suc i"
  by (simp add: cell_def)

lemma cell_Suc: "i < length a \<Longrightarrow> j < length b \<Longrightarrow> cell a b (Suc i) (Suc j) =
  (if a ! i = b ! j then cell a b i j else Suc (min (min (cell a b i j) (cell a b (Suc i) j)) (cell a b i (Suc j))))"
  by (simp add: cell_def take_Suc_conv_app_nth)

lemma lev_row_cells:
  assumes "i < length a"
  shows "length costs = length b + 1 \<Longrightarrow> j \<le> length b \<Longrightarrow> last_val = cell a b i j \<Longrightarrow>
    (\<forall>k \<le> j. costs ! k = cell a b (Suc i) k) \<Longrightarrow> (\<forall>k. j < k \<and> k \<le> length b \<longrightarrow> costs ! k = cell a b i k) \<Longrightarrow>
    lev_row (a ! i) (enumerate j (drop j b)) last_val costs = map (cell a b (Suc i)) [0..<length b + 1]"
proof (induction "length b - j" arbitrary: j last_val costs)
  case 0
  then show ?case by (intro nth_equalityI) (simp_all add: nth_append less_Suc_eq_le del: upt_Suc)
next
  case (Suc n)
  then have j: "j < length b" by simp
  let ?new = "if a ! i \<noteq> b ! j then min (min last_val (costs ! j)) (costs ! (j + 1)) + 1 else last_val"
  have new: "?new = cell a b (Suc i) (Suc j)"
    using Suc.prems j assms by (simp add: cell_Suc)
  have "enumerate j (drop j b) = (j, b ! j) # enumerate (Suc j) (drop (Suc j) b)"
    by (simp add: Cons_nth_drop_Suc [OF j, symmetric])
  then have "lev_row (a ! i) (enumerate j (drop j b)) last_val costs =
      lev_row (a ! i) (enumerate (Suc j) (drop (Suc j) b)) (costs ! (j + 1)) (costs[j + 1 := ?new])"
    by (simp add: Let_def)
  also have "\<dots> = map (cell a b (Suc i)) [0..<length b + 1]"
  proof (rule Suc.hyps(1))
    show "n = length b - Suc j" using Suc.hyps(2) by simp
    show "costs ! (j + 1) = cell a b i (Suc j)" using Suc.prems(5) j by simp
    show "\<forall>k \<le> Suc j. costs[j + 1 := ?new] ! k = cell a b (Suc i) k"
      using Suc.prems(1,4) j new by (auto simp: nth_list_update le_Suc_eq)
    show "\<forall>k. Suc j < k \<and> k \<le> length b \<longrightarrow> costs[j + 1 := ?new] ! k = cell a b i k"
      using Suc.prems(5) by simp
  qed (use Suc.prems(1) j in simp_all)
  finally show ?case .
qed

lemma lev_rows_cells: "i \<le> length a \<Longrightarrow>
  lev_rows (enumerate i (drop i a)) b (map (cell a b i) [0..<length b + 1]) = map (cell a b (length a)) [0..<length b + 1]"
proof (induction "length a - i" arbitrary: i)
  case (Suc n)
  then have i: "i < length a" by simp
  let ?c = "(map (cell a b i) [0..<length b + 1])[0 := i + 1]"
  have c: "?c ! k = (if k = 0 then Suc i else cell a b i k)" if "k \<le> length b" for k
    using that by (simp add: nth_list_update del: upt_Suc)
  have "lev_row (a ! i) (enumerate 0 (drop 0 b)) i ?c = map (cell a b (Suc i)) [0..<length b + 1]"
  proof (rule lev_row_cells [OF i])
    show "i = cell a b i 0" using i by (simp add: cell_def)
    show "\<forall>k\<le>0. ?c ! k = cell a b (Suc i) k" using c [of 0] i by (simp add: cell_Suc_0)
    show "\<forall>k. 0 < k \<and> k \<le> length b \<longrightarrow> ?c ! k = cell a b i k" using c by (simp del: upt_Suc)
  qed (simp_all del: upt_Suc)
  moreover have "enumerate i (drop i a) = (i, a ! i) # enumerate (Suc i) (drop (Suc i) a)"
    by (simp add: Cons_nth_drop_Suc [OF i, symmetric])
  ultimately show ?case using Suc.hyps i by (simp del: upt_Suc)
qed simp

text \<open>
  The one-row computation of the Levenshtein distance gives the least number of substituted,
  deleted and inserted bytes in an alignment of the two words.
\<close>

lemma levenshtein_least:
  "levenshtein_dist a b = (LEAST n. align n a b)"
proof -
  have "[0..<length b + 1] = map (cell a b 0) [0..<length b + 1]"
    by (rule nth_equalityI) (simp_all add: cell_0 del: upt_Suc)
  then have "levenshtein_dist a b = lev_rows (enumerate 0 (drop 0 a)) b (map (cell a b 0) [0..<length b + 1]) ! length b"
    unfolding levenshtein_dist_def by simp
  also have "\<dots> = cell a b (length a) (length b)"
    unfolding lev_rows_cells [OF le0] by (simp add: nth_append del: upt_Suc)
  also have "\<dots> = edit a b" by (simp add: cell_def edit_rev)
  finally show ?thesis by (simp add: edit_least)
qed

section \<open>The table counts every byte, and the entropy is bounded\<close>

abbreviation le_value :: "bytes \<Rightarrow> nat" where
  "le_value bs \<equiv> foldr (\<lambda>b v. unat b + 256 * v) bs 0"

lemma le_value_less: "le_value bs < 256 ^ length bs"
proof (induction bs)
  case (Cons b bs)
  have "unat b < 256" by simp
  with Cons have "unat b + 256 * le_value bs < 256 * 256 ^ length bs" by linarith
  then show ?case by simp
qed simp

lemma le_value_digit: "k < length bs \<Longrightarrow> le_value bs div 256 ^ k mod 256 = unat (bs ! k)"
proof (induction bs arbitrary: k)
  case (Cons b bs)
  show ?case
  proof (cases k)
    case 0
    then show ?thesis by simp
  next
    case (Suc j)
    have "(unat b + 256 * le_value bs) div 256 = le_value bs" using unat_u8 [of b] by linarith
    then have "(unat b + 256 * le_value bs) div (256 * 256 ^ j) = le_value bs div 256 ^ j"
      by (simp add: div_mult2_eq)
    with Suc Cons show ?thesis by simp
  qed
qed simp

lemma chunk_bytes_le64: "length bs = 8 \<Longrightarrow> chunk_bytes (le64 bs) = bs"
proof (rule nth_equalityI)
  assume l: "length bs = 8"
  fix k assume "k < length (chunk_bytes (le64 bs))"
  then have k: "k < 8" by (simp add: chunk_bytes_def)
  have "le_value bs < 2 ^ 64" using le_value_less [of bs] l by simp
  then have v: "unat (le64 bs) = le_value bs" by (simp add: le64_def unat_of_nat)
  have "unat (ucast (drop_bit (8 * k) (le64 bs) AND 0xFF) :: u8) = unat (le64 bs) div 2 ^ (8 * k) mod 256"
  proof -
    have "x AND 0xFF = take_bit 8 x" for x :: u64 by (simp add: take_bit_eq_mask mask_eq_exp_minus_1)
    then have "(ucast (drop_bit (8 * k) (le64 bs) AND 0xFF) :: u8) = ucast (drop_bit (8 * k) (le64 bs))"
      by (intro bit_word_eqI) (simp add: bit_simps)
    moreover have "unat (drop_bit (8 * k) (le64 bs)) = unat (le64 bs) div 2 ^ (8 * k)"
      by (simp only: unat_drop_bit_eq) (simp add: drop_bit_eq_div)
    ultimately show ?thesis by (simp add: unsigned_ucast_eq take_bit_eq_mod del: drop_bit_eq_div)
  qed
  also have "\<dots> = unat (bs ! k)"
    unfolding v using le_value_digit [of k bs] k l by (simp add: power_mult)
  finally show "chunk_bytes (le64 bs) ! k = bs ! k"
    using k unfolding word_unat_eq_iff [symmetric] by (simp add: chunk_bytes_def)
qed (simp add: chunk_bytes_def)

lemma frequencies_fold: "frequencies bs = foldl bump (replicate 128 0) bs"
proof -
  have chunks: "foldl (count_chunk bs) freq [0..<n] = foldl bump freq (take (8 * n) bs)" if "8 * n \<le> length bs" for freq n
    using that
  proof (induction n)
    case (Suc n)
    then have "length (take 8 (drop (n * 8) bs)) = 8" by simp
    then have "count_chunk bs f n = foldl bump f (take 8 (drop (n * 8) bs))" for f
      by (simp add: count_chunk_def chunk_bytes_le64)
    moreover have "take (8 * Suc n) bs = take (8 * n) bs @ take 8 (drop (n * 8) bs)"
      using take_add [of "8 * n" 8 bs] by (simp add: mult.commute add.commute)
    ultimately show ?case using Suc by (simp del: take_append)
  qed simp
  have "8 * (length bs div 8) + length bs mod 8 = length bs" by simp
  then have "take (8 * (length bs div 8)) bs @ take (length bs mod 8) (drop (length bs div 8 * 8) bs) = bs"
    by (simp add: take_add [symmetric] mult.commute)
  with chunks [of "length bs div 8"] show ?thesis
    unfolding frequencies_def Let_def by (simp flip: foldl_append)
qed

definition class_count :: "bytes \<Rightarrow> nat \<Rightarrow> nat" where
  "class_count bs i = length (filter (\<lambda>b. freq_index (norm_byte b) = i) bs)"

lemma frequencies_count: "frequencies bs = map (class_count bs) [0..<128]"
proof -
  have "foldl bump freq bs = map (\<lambda>i. freq ! i + class_count bs i) [0..<128]" if "length freq = 128" for freq
    using that
  proof (induction bs arbitrary: freq)
    case Nil
    then show ?case by (intro nth_equalityI) (simp_all add: class_count_def)
  next
    case (Cons b bs)
    have "length (bump freq b) = 128" using Cons.prems by (simp add: bump_def Let_def)
    from Cons.IH [OF this] have "foldl bump freq (b # bs) = map (\<lambda>i. bump freq b ! i + class_count bs i) [0..<128]" by simp
    also have "\<dots> = map (\<lambda>i. freq ! i + class_count (b # bs) i) [0..<128]"
      using Cons.prems by (intro map_cong) (auto simp: bump_def Let_def class_count_def nth_list_update)
    finally show ?case .
  qed
  then show ?thesis by (simp add: frequencies_fold)
qed

lemma class_count_sum: "(\<Sum>i<128. class_count bs i) = length bs"
proof (induction bs)
  case (Cons b bs)
  have "(\<Sum>i<128. class_count (b # bs) i) = (\<Sum>i<128. class_count bs i + (if i = freq_index (norm_byte b) then 1 else 0))"
    by (intro sum.cong) (auto simp: class_count_def)
  also have "\<dots> = length bs + 1" using Cons by (simp add: sum.distrib sum.delta freq_index_def)
  finally show ?case by simp
qed (simp add: class_count_def)

lemma foldl_minus: "foldl (\<lambda>e c. e - f c) (a :: real) xs = a - sum_list (map f xs)"
  by (induction xs arbitrary: a) simp_all

lemma entropy_sum: "domain \<noteq> [] \<Longrightarrow>
  calculate_entropy domain = (\<Sum>i<128. - entropy_term (real (length domain)) (class_count (map char_byte domain) i))"
proof -
  assume "domain \<noteq> []"
  then have "calculate_entropy domain = - sum_list (map (entropy_term (real (length domain))) (frequencies (map char_byte domain)))"
    by (simp add: calculate_entropy_def Let_def foldl_minus)
  also have "\<dots> = - (\<Sum>i<128. entropy_term (real (length domain)) (class_count (map char_byte domain) i))"
    unfolding frequencies_count map_map comp_def interv_sum_list_conv_sum_set_nat by (simp add: atLeast0LessThan)
  finally show ?thesis by (simp add: sum_negf)
qed

lemma norm_byte_lower: "norm_byte b = lower_u8 b"
proof (cases "is_upper_code (unat b)")
  case True
  then have "65 \<le> unat b" "unat b \<le> 90" by (simp_all add: is_upper_code_def)
  then have "unat b \<in> set [65..<91]" unfolding set_upt by auto
  then have "word_of_nat (unat b) \<in> set (map word_of_nat [65..<91] :: u8 list)" by (metis image_eqI list.set_map)
  then have "b \<in> set (map word_of_nat [65..<91])" by simp
  moreover have "\<forall>b \<in> set (map word_of_nat [65..<91]). (b :: u8) OR 0x20 = b + 32" by code_simp
  ultimately have "b OR 0x20 = b + 32" by blast
  with True show ?thesis by (simp add: norm_byte_def lower_u8_def)
qed (simp add: norm_byte_def lower_u8_def)

lemma entropy_term_bounds:
  assumes "0 < n" "c \<le> n"
  shows "0 \<le> - entropy_term (real n) c" "- entropy_term (real n) c \<le> real c / real n * log 2 (real n)"
proof -
  show "0 \<le> - entropy_term (real n) c"
  proof (cases "c = 0")
    case False
    with assms have "0 < real c / real n" "real c / real n \<le> 1" by simp_all
    then have "log 2 (real c / real n) \<le> 0" by simp
    then have "real c / real n * log 2 (real c / real n) \<le> 0" by (intro mult_nonneg_nonpos) simp_all
    with False show ?thesis by (simp add: entropy_term_def Let_def)
  qed (simp add: entropy_term_def)
  show "- entropy_term (real n) c \<le> real c / real n * log 2 (real n)"
  proof (cases "c = 0")
    case False
    then have "log 2 (real c / real n) = log 2 (real c) - log 2 (real n)" using assms by (simp add: log_divide)
    moreover have "0 \<le> log 2 (real c)" using False by simp
    ultimately have "- log 2 (real c / real n) \<le> log 2 (real n)" by simp
    then have "real c / real n * - log 2 (real c / real n) \<le> real c / real n * log 2 (real n)"
      by (intro mult_left_mono) simp_all
    with False show ?thesis by (simp add: entropy_term_def Let_def)
  qed (simp add: entropy_term_def)
qed

lemma class_count_le: "class_count bs i \<le> length bs"
  by (simp add: class_count_def)

text \<open>
  Counting eight bytes at a time gives the frequency of every byte class (the byte in lower
  case, modulo 128), and the entropy of a name is the Shannon entropy of these frequencies. It lies
  between 0 and the logarithm of the length of the name, and does not depend on ASCII case.
\<close>

theorem entropy_spec:
  "frequencies bs = map (class_count bs) [0..<128] \<and>
   calculate_entropy (c # s) = - (\<Sum>i \<in> {i. i < 128 \<and> 0 < class_count (map char_byte (c # s)) i}.
      let p = real (class_count (map char_byte (c # s)) i) / real (length (c # s)) in p * log 2 p) \<and>
   0 \<le> calculate_entropy d \<and> calculate_entropy (c # s) \<le> log 2 (real (length (c # s))) \<and>
   calculate_entropy (to_ascii_lowercase d) = calculate_entropy d"
proof (intro conjI)
  let ?n = "\<lambda>d. length d" and ?cc = "\<lambda>d. class_count (map char_byte d)"
  have le: "?cc d i \<le> ?n d" for d i using class_count_le [of "map char_byte d" i] by simp
  show "frequencies bs = map (class_count bs) [0..<128]" by (rule frequencies_count)
  have "(\<Sum>i<128. entropy_term (real (?n (c # s))) (?cc (c # s) i)) =
      (\<Sum>i \<in> {i. i < 128 \<and> 0 < ?cc (c # s) i}. entropy_term (real (?n (c # s))) (?cc (c # s) i))"
    by (rule sum.mono_neutral_right) (auto simp: entropy_term_def)
  also have "\<dots> = (\<Sum>i \<in> {i. i < 128 \<and> 0 < ?cc (c # s) i}.
      let p = real (?cc (c # s) i) / real (?n (c # s)) in p * log 2 p)"
    by (rule sum.cong) (simp_all add: entropy_term_def)
  finally show "calculate_entropy (c # s) = - (\<Sum>i \<in> {i. i < 128 \<and> 0 < ?cc (c # s) i}.
      let p = real (?cc (c # s) i) / real (?n (c # s)) in p * log 2 p)"
    unfolding entropy_sum [OF list.simps(3)] sum_negf by (simp only:)
  show "0 \<le> calculate_entropy d"
  proof (cases "d = []")
    case False
    then show ?thesis
      unfolding entropy_sum [OF False] using le [of d] by (intro sum_nonneg entropy_term_bounds(1)) simp_all
  qed (simp add: calculate_entropy_def)
  have "calculate_entropy (c # s) \<le> (\<Sum>i<128. real (?cc (c # s) i) / real (?n (c # s)) * log 2 (real (?n (c # s))))"
    unfolding entropy_sum [OF list.simps(3)] using le [of "c # s"] by (intro sum_mono entropy_term_bounds(2)) simp_all
  also have "\<dots> = log 2 (real (?n (c # s)))"
  proof -
    have "(\<Sum>i<128. real (?cc (c # s) i)) = real (?n (c # s))"
      using class_count_sum [of "map char_byte (c # s)"] by (simp only: of_nat_sum [symmetric] length_map)
    then show ?thesis by (simp only: sum_distrib_right [symmetric] sum_divide_distrib [symmetric]) simp
  qed
  finally show "calculate_entropy (c # s) \<le> log 2 (real (?n (c # s)))" .
  have "norm_byte (char_byte (lower_char x)) = norm_byte (char_byte x)" for x
  proof -
    have "\<not> is_upper_code (unat (lower_u8 b))" for b :: u8
      by (simp add: unat_lower_u8) (auto simp: is_upper_code_def)
    then have "norm_byte (lower_u8 (char_byte x)) = lower_u8 (char_byte x)" by (simp add: norm_byte_def)
    moreover have "norm_byte (char_byte x) = lower_u8 (char_byte x)" by (rule norm_byte_lower)
    ultimately have "norm_byte (lower_u8 (char_byte x)) = norm_byte (char_byte x)" by simp
    moreover have "char_byte (lower_char x) = lower_u8 (char_byte x)"
      using byte_char_lower_u8 [of "char_byte x"] by (metis byte_char_char_byte char_byte_byte_char)
    ultimately show ?thesis by simp
  qed
  then have "?cc (to_ascii_lowercase d) = ?cc d"
    by (simp add: fun_eq_iff class_count_def to_ascii_lowercase_def filter_map comp_def)
  then show "calculate_entropy (to_ascii_lowercase d) = calculate_entropy d"
    by (cases "d = []") (simp_all add: entropy_sum to_ascii_lowercase_def)
qed

text \<open>
  Typosquatting. A name outside the immune domains whose second-level label is not Punycode is
  flagged exactly when that label is not itself the brand in question and either reads as a brand
  after the digit substitutions, or has at least five letters and is one edit away from a brand;
  names at or below an immune domain pass all three heuristics.
\<close>

theorem typosquat_spec:
  assumes "split_char CHR ''.'' (to_ascii_lowercase (trim_end_char CHR ''.'' d)) = pre @ [sld, tld]"
    and "\<not> starts_with sld ''xn--''"
  shows "(\<not> is_known_immune d \<longrightarrow> is_lookalike_threat d = (\<exists>brand \<in> set high_value_brands. sld \<noteq> brand \<and>
      (substituted sld = brand \<or> (LEAST n. align n sld brand) = 1 \<and> 5 \<le> length sld))) \<and>
    (is_known_immune d \<longrightarrow> \<not> is_lookalike_threat d \<and> \<not> is_dga_threat d \<and> \<not> is_c2_or_miner_threat d)"
proof -
  let ?c = "to_ascii_lowercase (trim_end_char CHR ''.'' d)"
  have "trim_end_char CHR ''.'' ?c = ?c"
    by (simp add: trim_end_char_lower [symmetric])
  then have i: "is_known_immune ?c = is_known_immune d" by (simp add: is_known_immune_def Let_def)
  have "(pre @ [sld, tld]) ! (length (pre @ [sld, tld]) - 2) = sld" by (simp add: nth_append)
  with assms(2) show ?thesis
    unfolding is_lookalike_threat_def is_dga_threat_def is_c2_or_miner_threat_def Let_def i assms(1)
    by (simp add: strip_prefix_def levenshtein_least [symmetric])
qed

theorem typosquat_spec_witness:
  "is_lookalike_threat ''www.paypa1.com'' \<and> is_lookalike_threat ''gooogle.net.'' \<and> \<not> is_lookalike_threat ''www.google.com''"
proof -
  have l: "split_char CHR ''.'' (to_ascii_lowercase (trim_end_char CHR ''.'' ''www.paypa1.com'')) = [''www''] @ [''paypa1'', ''com'']"
    "split_char CHR ''.'' (to_ascii_lowercase (trim_end_char CHR ''.'' ''gooogle.net.'')) = [] @ [''gooogle'', ''net'']"
    "split_char CHR ''.'' (to_ascii_lowercase (trim_end_char CHR ''.'' ''www.google.com'')) = [''www''] @ [''google'', ''com'']"
    by code_simp+
  have p: "\<not> starts_with ''paypa1'' ''xn--''" "\<not> starts_with ''gooogle'' ''xn--''" "\<not> starts_with ''google'' ''xn--''" by code_simp+
  have i: "\<not> is_known_immune ''www.paypa1.com''" "\<not> is_known_immune ''gooogle.net.''" "is_known_immune ''www.google.com''"
    by code_simp+
  have s: "substituted ''paypa1'' = ''paypal''" by code_simp
  have b: "''paypal'' \<in> set high_value_brands" "''google'' \<in> set high_value_brands" by (simp_all add: high_value_brands_def)
  have "levenshtein_dist ''gooogle'' ''google'' = 1" by code_simp
  then have a: "(LEAST n. align n ''gooogle'' ''google'') = 1" unfolding levenshtein_least .
  have "is_lookalike_threat ''www.paypa1.com''"
    unfolding typosquat_spec [OF l(1) p(1), THEN conjunct1, rule_format, OF i(1)] by (rule bexI [OF _ b(1)]) (simp add: s)
  moreover have "is_lookalike_threat ''gooogle.net.''"
    unfolding typosquat_spec [OF l(2) p(2), THEN conjunct1, rule_format, OF i(2)] by (rule bexI [OF _ b(2)]) (simp add: a)
  ultimately show ?thesis using typosquat_spec [OF l(3) p(3)] i(3) by blast
qed

end
