(* ===== verification/Client_Tracker.thy ===== *)
theory Client_Tracker
  imports Heuristics Ip_Addr
begin

text \<open>
  The tracker of suspicious clients (\<open>ClientFingerprintTracker\<close> in
  \<open>src/src/security/heuristics.rs\<close>): per client address the names of the current minute, counters
  and a flag which lasts an hour, and the share of NXDOMAIN answers of the last two minutes. Clocks
  are arguments, in nanoseconds; \<open>duration_since\<close> saturates at zero. The key which a full map
  evicts is the first of its iteration order, a parameter.
\<close>

definition millis :: "instant \<Rightarrow> instant \<Rightarrow> nat" where
  "millis since now = (now - since) div 1000000"

definition fp_window_ms :: nat where "fp_window_ms = 60000"
definition fp_scan_uniq :: nat where "fp_scan_uniq = 60"
definition fp_flood_count :: u32 where "fp_flood_count = 150"
definition fp_tunnel_payload_len :: nat where "fp_tunnel_payload_len = 28"
definition fp_tunnel_entropy :: real where "fp_tunnel_entropy = 39 / 10"
definition nx_window_ms :: nat where "nx_window_ms = 120000"
definition flag_expiry_ms :: nat where "flag_expiry_ms = 3600000"

record client_fp =
  uniq_domains :: "string set"
  queries :: u32
  tunnel_hits :: u32
  fp_start :: instant
  flagged :: "string option"
  flagged_at :: "instant option"

record client_nx =
  nx_count :: u32
  total_count :: u32
  nx_start :: instant

record suspicious_event =
  event_ip :: ip_addr
  event_flag :: string
  event_query :: string

record tracker =
  fp_map :: "ip_addr \<rightharpoonup> client_fp"
  nx_map :: "ip_addr \<rightharpoonup> client_nx"
  suspicious_history :: "suspicious_event list"
  total_fp_events :: u64

definition tracker_new :: tracker where
  "tracker_new = \<lparr>fp_map = Map.empty, nx_map = Map.empty, suspicious_history = [], total_fp_events = 0\<rparr>"

definition fp_new :: "u32 \<Rightarrow> instant \<Rightarrow> client_fp" where
  "fp_new n now = \<lparr>uniq_domains = {}, queries = n, tunnel_hits = 0, fp_start = now, flagged = None, flagged_at = None\<rparr>"

definition retain :: "('v \<Rightarrow> bool) \<Rightarrow> ('k \<rightharpoonup> 'v) \<Rightarrow> 'k \<rightharpoonup> 'v" where
  "retain P m = (\<lambda>k. case m k of Some v \<Rightarrow> if P v then Some v else None | None \<Rightarrow> None)"

definition worth_keeping :: "instant \<Rightarrow> client_fp \<Rightarrow> bool" where
  "worth_keeping now v \<longleftrightarrow> (now - fp_start v) div 1000000000 < 120 \<or>
     flagged v \<noteq> None \<and> (case flagged_at v of Some t \<Rightarrow> millis t now < flag_expiry_ms | None \<Rightarrow> False)"

definition flag_client :: "ip_addr \<Rightarrow> string \<Rightarrow> string \<Rightarrow> instant \<Rightarrow> tracker \<Rightarrow> tracker" where
  "flag_client client_ip flag_type query now tr = (
     let ip = to_canonical client_ip;
         fp = unwrap_or (fp_new 0 now) (fp_map tr ip);
         fp = fp\<lparr>queries := queries fp + 1, flagged := Some flag_type, flagged_at := Some now\<rparr>;
         hist = (if length (suspicious_history tr) \<ge> 50 then butlast (suspicious_history tr) else suspicious_history tr)
     in tr\<lparr>fp_map := (fp_map tr)(ip \<mapsto> fp), total_fp_events := total_fp_events tr + 1,
           suspicious_history := \<lparr>event_ip = ip, event_flag = flag_type, event_query = query\<rparr> # hist\<rparr>)"

text \<open>\<open>record_query\<close>, in the steps of the code: room in the map, the sliding window, the expiry
  of the flag, the counters, the three detectors.\<close>

definition fp_room :: "((ip_addr \<rightharpoonup> client_fp) \<Rightarrow> ip_addr) \<Rightarrow> ip_addr \<Rightarrow> instant \<Rightarrow> (ip_addr \<rightharpoonup> client_fp) \<Rightarrow> ip_addr \<rightharpoonup> client_fp" where
  "fp_room first_key ip now m =
    (if card (dom m) \<ge> 3000 then
       (let m = retain (worth_keeping now) m in
        if card (dom m) \<ge> 3000 \<and> ip \<notin> dom m then m(first_key m := None) else m)
     else m)"

definition slide_window :: "instant \<Rightarrow> client_fp \<Rightarrow> client_fp" where
  "slide_window now fp =
    (if millis (fp_start fp) now > fp_window_ms
     then fp\<lparr>uniq_domains := {}, queries := 0, tunnel_hits := 0, fp_start := now\<rparr> else fp)"

definition expire_flag :: "instant \<Rightarrow> client_fp \<Rightarrow> client_fp" where
  "expire_flag now fp = (case flagged_at fp of
     Some t \<Rightarrow> if millis t now > flag_expiry_ms then fp\<lparr>flagged := None, flagged_at := None, tunnel_hits := 0\<rparr> else fp
   | None \<Rightarrow> fp)"

definition raise_flag :: "string \<Rightarrow> instant \<Rightarrow> client_fp \<Rightarrow> client_fp" where
  "raise_flag flag now fp = fp\<lparr>flagged := Some flag, flagged_at := Some now\<rparr>"

definition detect_volume :: "instant \<Rightarrow> client_fp \<Rightarrow> string option \<times> client_fp" where
  "detect_volume now fp =
    (if card (uniq_domains fp) > fp_scan_uniq \<and> flagged fp = None
     then (Some ''DNS_SCAN'', raise_flag ''DNS_SCAN'' now fp)
     else if queries fp > fp_flood_count \<and> flagged fp = None
     then (Some ''QUERY_STRESS'', raise_flag ''QUERY_STRESS'' now fp)
     else (None, fp))"

definition detect_tunnel :: "string \<Rightarrow> bool \<Rightarrow> instant \<Rightarrow> string option \<times> client_fp \<Rightarrow> string option \<times> client_fp" where
  "detect_tunnel clean is_legit now = (\<lambda>(newly, fp).
     if \<not> is_legit \<and> length clean \<ge> 35 \<and> flagged fp = None then
       (let first_label = hd (split_char CHR ''.'' clean) in
        if length first_label \<ge> fp_tunnel_payload_len then
          (let ent = calculate_entropy first_label in
           if ent \<ge> fp_tunnel_entropy then
             (let fp = fp\<lparr>tunnel_hits := tunnel_hits fp + 1\<rparr> in
              if ent \<ge> 42 / 10 \<or> tunnel_hits fp \<ge> 2
              then (Some ''DNS_TUNNEL_SUSPECT'', raise_flag ''DNS_TUNNEL_SUSPECT'' now fp)
              else (newly, fp))
           else (newly, fp))
        else (newly, fp))
     else (newly, fp))"

definition count_query :: "string \<Rightarrow> instant \<Rightarrow> client_fp \<Rightarrow> string option \<times> client_fp" where
  "count_query domain now fp = (
     let fp = expire_flag now (slide_window now fp);
         fp = fp\<lparr>queries := queries fp + 1\<rparr>;
         clean = to_ascii_lowercase (trim_end_char CHR ''.'' domain);
         is_legit = is_known_immune clean;
         fp = (if card (uniq_domains fp) \<le> fp_scan_uniq + 10 \<and> clean \<noteq> [] \<and> \<not> is_legit
               then fp\<lparr>uniq_domains := insert clean (uniq_domains fp)\<rparr> else fp)
     in detect_tunnel clean is_legit now (detect_volume now fp))"

definition record_query ::
  "((ip_addr \<rightharpoonup> client_fp) \<Rightarrow> ip_addr) \<Rightarrow> ip_addr \<Rightarrow> string \<Rightarrow> instant \<Rightarrow> tracker \<Rightarrow> string option \<times> tracker" where
  "record_query first_key client_ip domain now tr = (
     let ip = to_canonical client_ip;
         m = fp_room first_key ip now (fp_map tr);
         (newly, fp) = count_query domain now (unwrap_or (fp_new 0 now) (m ip))
     in (newly, tr\<lparr>fp_map := m(ip \<mapsto> fp),
           total_fp_events := (if newly = None then total_fp_events tr else total_fp_events tr + 1)\<rparr>))"

definition nx_room :: "((ip_addr \<rightharpoonup> client_nx) \<Rightarrow> ip_addr) \<Rightarrow> ip_addr \<Rightarrow> instant \<Rightarrow> (ip_addr \<rightharpoonup> client_nx) \<Rightarrow> ip_addr \<rightharpoonup> client_nx" where
  "nx_room first_key ip now m =
    (if card (dom m) \<ge> 3000 then
       (let m = retain (\<lambda>v. millis (nx_start v) now < nx_window_ms) m in
        if card (dom m) \<ge> 3000 \<and> ip \<notin> dom m then m(first_key m := None) else m)
     else m)"

definition record_response ::
  "((ip_addr \<rightharpoonup> client_nx) \<Rightarrow> ip_addr) \<Rightarrow> ip_addr \<Rightarrow> u16 \<Rightarrow> instant \<Rightarrow> tracker \<Rightarrow> string option \<times> tracker" where
  "record_response first_key client_ip rcode now tr = (
     let ip = to_canonical client_ip;
         m = nx_room first_key ip now (nx_map tr);
         r = unwrap_or \<lparr>nx_count = 0, total_count = 0, nx_start = now\<rparr> (m ip);
         r = (if millis (nx_start r) now > nx_window_ms then \<lparr>nx_count = 0, total_count = 0, nx_start = now\<rparr> else r);
         r = r\<lparr>total_count := total_count r + 1\<rparr>;
         r = (if rcode = 3 then r\<lparr>nx_count := nx_count r + 1\<rparr> else r);
         rate = (if total_count r \<ge> 10 then real (unat (nx_count r)) / real (unat (total_count r)) else 0);
         tr = tr\<lparr>nx_map := m(ip \<mapsto> r)\<rparr>
     in if rate \<ge> 6 / 10 then
          (let fp = unwrap_or (fp_new (total_count r) now) (fp_map tr ip) in
           if flagged fp = None
           then (Some ''NX_SCANNER'', tr\<lparr>fp_map := (fp_map tr)(ip \<mapsto> raise_flag ''NX_SCANNER'' now fp),
                   total_fp_events := total_fp_events tr + 1\<rparr>)
           else (None, tr\<lparr>fp_map := (fp_map tr)(ip \<mapsto> fp)\<rparr>))
        else (None, tr))"

definition tracker_prune :: "instant \<Rightarrow> tracker \<Rightarrow> tracker" where
  "tracker_prune now tr = tr\<lparr>fp_map := retain (worth_keeping now) (fp_map tr),
     nx_map := retain (\<lambda>v. millis (nx_start v) now < nx_window_ms) (nx_map tr)\<rparr>"

definition tracker_clear :: "tracker \<Rightarrow> tracker" where
  "tracker_clear tr = tracker_new"

section \<open>Flags\<close>

definition clean_query :: "string \<Rightarrow> string" where
  "clean_query d = to_ascii_lowercase (trim_end_char CHR ''.'' d)"

text \<open>The names a scan is counted by, and the names that can look like a tunnel.\<close>

definition counted_names :: "string list \<Rightarrow> string set" where
  "counted_names ds = {c \<in> clean_query ` set ds. c \<noteq> [] \<and> \<not> is_known_immune c}"

definition tunnel_shaped :: "string \<Rightarrow> bool" where
  "tunnel_shaped d \<longleftrightarrow> 35 \<le> length (clean_query d) \<and> 28 \<le> length (hd (split_char CHR ''.'' (clean_query d)))"

lemma counted_snoc: "counted_names (ds @ [d]) =
  (if clean_query d \<noteq> [] \<and> \<not> is_known_immune (clean_query d) then insert (clean_query d) (counted_names ds) else counted_names ds)"
  by (auto simp: counted_names_def)

lemma detect_tunnel_flag:
  "flagged fp \<noteq> None \<Longrightarrow> detect_tunnel clean legit now (newly, fp) = (newly, fp)"
  "detect_tunnel clean legit now (newly, fp) = (r, fp') \<Longrightarrow> uniq_domains fp' = uniq_domains fp \<and> queries fp' = queries fp \<and> fp_start fp' = fp_start fp"
  "\<not> (35 \<le> length clean \<and> 28 \<le> length (hd (split_char CHR ''.'' clean))) \<Longrightarrow> detect_tunnel clean legit now (newly, fp) = (newly, fp)"
  "detect_tunnel clean legit now (newly, fp) = (r, fp') \<Longrightarrow> flagged_at fp' = flagged_at fp \<or> flagged_at fp' = Some now"
  by (auto simp: detect_tunnel_def raise_flag_def fp_tunnel_payload_len_def Let_def split: if_splits)

lemma detect_volume_facts:
  "detect_volume now fp = (newly, fp') \<Longrightarrow> uniq_domains fp' = uniq_domains fp \<and> queries fp' = queries fp \<and> fp_start fp' = fp_start fp \<and>
     (flagged_at fp' = flagged_at fp \<or> flagged_at fp' = Some now) \<and>
     (flagged fp' = None \<longleftrightarrow> flagged fp = None \<and> card (uniq_domains fp) \<le> 60 \<and> queries fp \<le> 150)"
  by (auto simp: detect_volume_def raise_flag_def fp_scan_uniq_def fp_flood_count_def not_less split: if_splits)

text \<open>One client, within one minute: its record after the queries \<open>ds\<close>.\<close>

definition minute_record :: "instant \<Rightarrow> string list \<Rightarrow> client_fp \<Rightarrow> bool" where
  "minute_record t0 ds fp \<longleftrightarrow> fp_start fp = t0 \<and> queries fp = word_of_nat (length ds) \<and>
     uniq_domains fp \<subseteq> counted_names ds \<and> (card (uniq_domains fp) \<le> 70 \<longrightarrow> uniq_domains fp = counted_names ds) \<and>
     (\<forall>t. flagged_at fp = Some t \<longrightarrow> t0 \<le> t) \<and>
     (card (uniq_domains fp) > 60 \<longrightarrow> flagged fp \<noteq> None) \<and>
     (card (counted_names ds) \<le> 60 \<and> length ds \<le> 150 \<and> \<not> (\<exists>d \<in> set ds. tunnel_shaped d) \<longrightarrow> flagged fp = None)"

lemma minute_record_step:
  assumes fp: "minute_record t0 ds fp" and now: "t0 \<le> now" "millis t0 now \<le> 60000" and l: "length ds < 2 ^ 32 - 1"
    and r: "count_query d now fp = (newly, fp')"
  shows "minute_record t0 (ds @ [d]) fp'"
proof -
  have nw: "slide_window now fp = fp" using fp now by (simp add: slide_window_def minute_record_def fp_window_ms_def)
  have "millis t now \<le> 60000" if "flagged_at fp = Some t" for t
  proof -
    from that fp have "t0 \<le> t" by (simp add: minute_record_def)
    then have "millis t now \<le> millis t0 now" unfolding millis_def by (intro div_le_mono) simp
    with now show ?thesis by simp
  qed
  then have ne: "expire_flag now fp = fp" by (fastforce simp: expire_flag_def flag_expiry_ms_def split: option.split)
  let ?c = "clean_query d"
  define fp1 where "fp1 = (if card (uniq_domains fp) \<le> 70 \<and> ?c \<noteq> [] \<and> \<not> is_known_immune ?c
     then fp\<lparr>queries := queries fp + 1, uniq_domains := insert ?c (uniq_domains fp)\<rparr> else fp\<lparr>queries := queries fp + 1\<rparr>)"
  have f1: "fp_start fp1 = t0" "queries fp1 = word_of_nat (length (ds @ [d]))" "flagged fp1 = flagged fp" "flagged_at fp1 = flagged_at fp"
    using fp by (simp_all add: fp1_def minute_record_def)
  have fin: "finite (counted_names xs)" for xs by (simp add: counted_names_def)
  have u: "uniq_domains fp1 \<subseteq> counted_names (ds @ [d])"
    "card (uniq_domains fp1) \<le> 70 \<longrightarrow> uniq_domains fp1 = counted_names (ds @ [d])"
  proof -
    have "card (insert ?c (uniq_domains fp)) \<ge> card (uniq_domains fp)" by (rule card_insert_le)
    with fp show "uniq_domains fp1 \<subseteq> counted_names (ds @ [d])"
      "card (uniq_domains fp1) \<le> 70 \<longrightarrow> uniq_domains fp1 = counted_names (ds @ [d])"
      unfolding counted_snoc fp1_def minute_record_def by auto
  qed
  obtain n2 fp2 where v: "detect_volume now fp1 = (n2, fp2)" by fastforce
  note V = detect_volume_facts [OF v]
  have t: "detect_tunnel ?c (is_known_immune ?c) now (n2, fp2) = (newly, fp')"
  proof -
    have "count_query d now fp = detect_tunnel ?c (is_known_immune ?c) now (detect_volume now fp1)"
      unfolding count_query_def Let_def nw ne fp1_def by (simp add: clean_query_def fp_scan_uniq_def)
    with r v show ?thesis by simp
  qed
  note T = detect_tunnel_flag(2,4) [OF t]
  have keep: "flagged fp2 \<noteq> None \<Longrightarrow> fp' = fp2" using t detect_tunnel_flag(1) by fastforce
  have q: "queries fp1 \<le> 150 \<longleftrightarrow> length (ds @ [d]) \<le> 150"
  proof -
    have "unat (word_of_nat (length (ds @ [d])) :: u32) = length (ds @ [d])"
      using l by (simp only: unat_of_nat length_append) simp
    then show ?thesis unfolding f1(2) word_le_nat_alt by simp
  qed
  show ?thesis unfolding minute_record_def
  proof (intro conjI impI allI)
    show "fp_start fp' = t0" "queries fp' = word_of_nat (length (ds @ [d]))" using T V f1 by simp_all
    show "uniq_domains fp' \<subseteq> counted_names (ds @ [d])" using T V u by simp
    show "uniq_domains fp' = counted_names (ds @ [d])" if "card (uniq_domains fp') \<le> 70" using that T V u by simp
    show "t0 \<le> s" if "flagged_at fp' = Some s" for s
      using that T V f1 fp now by (auto simp: minute_record_def)
    show "flagged fp' \<noteq> None" if "60 < card (uniq_domains fp')" using that T V keep by fastforce
    assume a: "card (counted_names (ds @ [d])) \<le> 60 \<and> length (ds @ [d]) \<le> 150 \<and> \<not> (\<exists>d \<in> set (ds @ [d]). tunnel_shaped d)"
    have "card (uniq_domains fp1) \<le> 60" using card_mono [OF fin u(1)] a by simp
    moreover have "card (counted_names ds) \<le> 60"
    proof -
      have "counted_names ds \<subseteq> counted_names (ds @ [d])" by (auto simp: counted_names_def)
      from card_mono [OF fin this] a show ?thesis by linarith
    qed
    then have "flagged fp = None" using a fp by (auto simp: minute_record_def)
    ultimately have "flagged fp2 = None" using V f1 q a by simp
    moreover have "fp' = fp2" using a t detect_tunnel_flag(3) [of ?c] by (auto simp: tunnel_shaped_def)
    ultimately show "flagged fp' = None" by simp
  qed
qed

fun query_run :: "((ip_addr \<rightharpoonup> client_fp) \<Rightarrow> ip_addr) \<Rightarrow> ip_addr \<Rightarrow> (instant \<times> string) list \<Rightarrow> tracker \<Rightarrow> tracker" where
  "query_run first_key ip [] tr = tr"
| "query_run first_key ip ((now, d) # qs) tr = query_run first_key ip qs (snd (record_query first_key ip d now tr))"



text \<open>The map of records is bounded by the queries only: a flag set from outside or by the
  responses adds a record without looking at the size.\<close>

lemma flag_client_grows:
  "finite (dom (fp_map tr)) \<Longrightarrow> to_canonical ip \<notin> dom (fp_map tr) \<Longrightarrow>
   card (dom (fp_map (flag_client ip f q now tr))) = Suc (card (dom (fp_map tr)))"
  by (simp add: flag_client_def Let_def)

end
