(* ===== verification/Ai_Brain.thy ===== *)
theory Ai_Brain
  imports Heuristics "HOL-Library.List_Lexorder" "HOL-Library.Char_ord"
begin

text \<open>
  The online learner (\<open>src/src/security/ai.rs\<close>): eight weights over eight features of a name, a
  bigram table, a repository of per-name scores, the transition table behind prefetching, and the
  ring of recent decisions. Its \<open>f32\<close> values are real numbers here. Clocks are arguments; the key
  which a full map evicts and the order of a map are parameters.
\<close>

record domain_knowledge =
  dk_query_count :: u64
  threat_score :: real
  dk_entropy :: real
  safe_resolutions :: u32
  dk_last_seen :: u64

record decision =
  dec_id :: u64
  dec_time :: u64
  dec_domain :: string
  dec_entropy :: real
  dec_score :: real
  dec_features :: "real list"
  dec_action :: string
  dec_reason :: string
  dec_proof :: string

record brain =
  domain_iq :: "string \<rightharpoonup> domain_knowledge"
  markov_model :: "string \<rightharpoonup> u32"
  neural_weights :: "real list"
  domain_transitions :: "string \<rightharpoonup> (string \<rightharpoonup> u32)"
  last_query_sequence :: "(string \<times> instant) option"
  training_cycles :: u64
  decisions_made :: u64
  recent_decisions :: "decision list"
  last_sync_time :: u64

definition brain_new :: "u64 \<Rightarrow> brain" where
  "brain_new now_sec = \<lparr>domain_iq = Map.empty, markov_model = Map.empty,
     neural_weights = [10/100, 25/100, -50/100, 35/100, 30/100, 35/100, 40/100, -60/100],
     domain_transitions = Map.empty, last_query_sequence = None, training_cycles = 0, decisions_made = 0,
     recent_decisions = [], last_sync_time = now_sec\<rparr>"

definition brain_clean :: "string \<Rightarrow> string" where
  "brain_clean domain = to_ascii_lowercase (trim_end_char CHR ''.'' (trim domain))"

definition sat_succ32 :: "u32 \<Rightarrow> u32" where
  "sat_succ32 n = (if n = - 1 then n else n + 1)"

definition sat_succ64 :: "u64 \<Rightarrow> u64" where
  "sat_succ64 n = (if n = - 1 then n else n + 1)"

section \<open>Transitions\<close>

definition record_sequence :: "((string \<rightharpoonup> (string \<rightharpoonup> u32)) \<Rightarrow> string) \<Rightarrow> string \<Rightarrow> instant \<Rightarrow> brain \<Rightarrow> brain" where
  "record_sequence first_key domain now b = (
     let clean = brain_clean domain in
     if clean = [] then b
     else let b = (case last_query_sequence b of
             Some (prev_domain, prev_time) \<Rightarrow>
               if now - prev_time \<le> 2500000000 \<and> prev_domain \<noteq> clean then
                 (let t = domain_transitions b;
                      t = (if card (dom t) \<ge> 500 \<and> prev_domain \<notin> dom t then t(first_key t := None) else t);
                      child_map = unwrap_or Map.empty (t prev_domain);
                      child_map = (if card (dom child_map) < 8 \<or> clean \<in> dom child_map
                        then child_map(clean \<mapsto> sat_succ32 (unwrap_or 0 (child_map clean))) else child_map)
                  in b\<lparr>domain_transitions := t(prev_domain \<mapsto> child_map)\<rparr>)
               else b
           | None \<Rightarrow> b)
       in b\<lparr>last_query_sequence := Some (clean, now)\<rparr>)"

definition get_prefetch_candidates :: "((string \<rightharpoonup> u32) \<Rightarrow> (string \<times> u32) list) \<Rightarrow> string \<Rightarrow> brain \<Rightarrow> string list" where
  "get_prefetch_candidates order domain b = (case domain_transitions b (brain_clean domain) of
     Some children \<Rightarrow> map fst (take 2 (sort_key (\<lambda>(d, n). - int (unat n)) (filter (\<lambda>(d, n). n \<ge> 2) (order children))))
   | None \<Rightarrow> [])"

section \<open>Features\<close>

definition windows2 :: "string \<Rightarrow> string list" where
  "windows2 s = map (\<lambda>(a, b). [a, b]) (zip s (tl s))"

definition utf8_pair :: "string \<Rightarrow> bool" where
  "utf8_pair w = (case map code w of
     [a, b] \<Rightarrow> a < 0x80 \<and> b < 0x80 \<or> 0xC2 \<le> a \<and> a \<le> 0xDF \<and> 0x80 \<le> b \<and> b \<le> 0xBF
   | _ \<Rightarrow> False)"

definition letter_step :: "nat \<times> nat \<times> nat \<times> nat \<Rightarrow> char \<Rightarrow> nat \<times> nat \<times> nat \<times> nat" where
  "letter_step = (\<lambda>(vowels, digits, max_cons, curr_cons) c.
     if vowel c then (vowels + 1, digits, max_cons, 0)
     else if is_alpha_code (code c) then (vowels, digits, max max_cons (curr_cons + 1), curr_cons + 1)
     else if is_digit_code (code c) then (vowels, digits + 1, max_cons, 0)
     else (vowels, digits, max_cons, 0))"

definition char_counts :: "string \<Rightarrow> nat list" where
  "char_counts s = foldl (\<lambda>cs c. cs[code c := cs ! code c + 1]) (replicate 256 0) s"

definition extract_features :: "brain \<Rightarrow> string \<Rightarrow> real list \<times> real" where
  "extract_features b domain = (
     let len = real (length domain);
         (vowels, digits, max_cons, curr_cons) = foldl letter_step (0, 0, 0, 0) domain;
         entropy = foldl (\<lambda>e n. e - entropy_term len n) 0 (char_counts domain);
         unknown_bigrams = length (filter (\<lambda>w. utf8_pair w \<and> unwrap_or 0 (markov_model b w) = 0) (windows2 domain));
         total_bigrams = max (length domain - 1) 1;
         f0 = min (len / 32) (3 / 2);
         f1 = min (entropy / 4) (3 / 2);
         f2 = min (real vowels / max len 1) 1;
         f3 = min (real digits / max len 1) 1;
         f4 = min (real max_cons / 8) (3 / 2);
         f5 = real unknown_bigrams / real total_bigrams;
         f6 = (if str_contains domain ''paypal'' \<or> str_contains domain ''google'' \<or> str_contains domain ''apple''
               then 8 / 10 else 0);
         f7 = (case domain_iq b domain of
             Some entry \<Rightarrow> if safe_resolutions entry > 0 \<and> threat_score entry < 2 / 10 then 1
                           else if threat_score entry > 8 / 10 then - 1 else 0
           | None \<Rightarrow> 0)
     in ([f0, f1, f2, f3, f4, f5, f6, f7], entropy))"

definition dot :: "real list \<Rightarrow> real list \<Rightarrow> real" where
  "dot ws fs = sum_list (map2 (\<lambda>w f. w * f) ws fs)"

definition sigmoid :: "real \<Rightarrow> real" where
  "sigmoid x = 1 / (1 + exp (- x))"

definition clamp_real :: "real \<Rightarrow> real \<Rightarrow> real \<Rightarrow> real" where
  "clamp_real lo hi x = (if x < lo then lo else if x > hi then hi else x)"

section \<open>Training and evaluation\<close>

definition learn_bigram :: "(string \<rightharpoonup> u32) \<Rightarrow> string \<Rightarrow> string \<rightharpoonup> u32" where
  "learn_bigram m w =
    (if utf8_pair w \<and> (card (dom m) < 3000 \<or> w \<in> dom m) then m(w \<mapsto> unwrap_or 0 (m w) + 1) else m)"

definition gradient_step :: "bool \<Rightarrow> real list \<Rightarrow> real list \<Rightarrow> real list" where
  "gradient_step is_threat features weights = (
     let target = (if is_threat then 1 else 0);
         err = target - sigmoid (dot weights features)
     in map2 (\<lambda>w f. clamp_real (- 3) 3 (w + 1 / 100 * err * f)) weights features)"

definition update_iq :: "((string \<rightharpoonup> domain_knowledge) \<Rightarrow> string) \<Rightarrow> string \<Rightarrow> bool \<Rightarrow> u16 \<Rightarrow> real \<Rightarrow> u64 \<Rightarrow>
   (string \<rightharpoonup> domain_knowledge) \<Rightarrow> string \<rightharpoonup> domain_knowledge" where
  "update_iq first_key clean is_threat rcode entropy now iq = (
     let iq = (if card (dom iq) \<ge> 3000 \<and> clean \<notin> dom iq then iq(first_key iq := None) else iq);
         entry = unwrap_or \<lparr>dk_query_count = 0, threat_score = (if is_threat then 95 / 100 else 5 / 100),
                   dk_entropy = entropy, safe_resolutions = 0, dk_last_seen = now\<rparr> (iq clean);
         entry = entry\<lparr>dk_query_count := sat_succ64 (dk_query_count entry), dk_last_seen := now\<rparr>;
         entry = (if is_threat then entry\<lparr>threat_score := min (threat_score entry * (7 / 10) + 3 / 10) 1\<rparr>
                  else if rcode = 0 then entry\<lparr>safe_resolutions := sat_succ32 (safe_resolutions entry),
                    threat_score := max (threat_score entry * (85 / 100)) (1 / 100)\<rparr>
                  else entry)
     in iq(clean \<mapsto> entry))"

definition train :: "((string \<rightharpoonup> domain_knowledge) \<Rightarrow> string) \<Rightarrow> string \<Rightarrow> bool \<Rightarrow> u16 \<Rightarrow> u64 \<Rightarrow> brain \<Rightarrow> brain" where
  "train first_key domain is_threat rcode now b = (
     let clean = brain_clean domain in
     if clean = [] \<or> length clean < 3 then b
     else let b = b\<lparr>markov_model := foldl learn_bigram (markov_model b) (windows2 clean)\<rparr>;
              (features, entropy) = extract_features b clean
          in b\<lparr>neural_weights := gradient_step is_threat features (neural_weights b),
               domain_iq := update_iq first_key clean is_threat rcode entropy now (domain_iq b),
               training_cycles := training_cycles b + 1, last_sync_time := now\<rparr>)"

definition evaluate_internal :: "brain \<Rightarrow> string \<Rightarrow> real \<times> string" where
  "evaluate_internal b domain = (
     let clean = brain_clean domain in
     if clean = [] then (0, ''clean'')
     else let (features, _) = extract_features b clean;
              score = sigmoid (dot (neural_weights b) features)
          in (score, if score > 80 / 100 then ''ai_neural_threat''
                     else if score > 60 / 100 then ''ai_elevated_risk'' else ''benign''))"

definition evaluate :: "brain \<Rightarrow> string \<Rightarrow> (real \<times> string) \<times> brain" where
  "evaluate b domain = (evaluate_internal b domain, b\<lparr>decisions_made := decisions_made b + 1\<rparr>)"

definition record_decision :: "string \<Rightarrow> real \<Rightarrow> real \<Rightarrow> real list \<Rightarrow> string \<Rightarrow> string \<Rightarrow> string \<Rightarrow> u64 \<Rightarrow> brain \<Rightarrow> brain" where
  "record_decision domain entropy score features action reason proof' now b = (
     let ds = recent_decisions b;
         i = (if ds = [] then 1 else dec_id (last ds) + 1);
         ds = ds @ [\<lparr>dec_id = i, dec_time = now, dec_domain = domain, dec_entropy = entropy, dec_score = score,
                     dec_features = features, dec_action = action, dec_reason = reason, dec_proof = proof'\<rparr>]
     in b\<lparr>recent_decisions := drop (length ds - 150) ds\<rparr>)"

definition get_recent_decisions :: "nat \<Rightarrow> brain \<Rightarrow> decision list" where
  "get_recent_decisions limit b = take (min limit (length (recent_decisions b))) (rev (recent_decisions b))"

section \<open>Bounds of the learned state\<close>

definition weights_ok :: "real list \<Rightarrow> bool" where
  "weights_ok ws \<longleftrightarrow> length ws = 8 \<and> (\<forall>w \<in> set ws. - 3 \<le> w \<and> w \<le> 3)"

definition knowledge_ok :: "domain_knowledge \<Rightarrow> bool" where
  "knowledge_ok e \<longleftrightarrow> 1 / 100 \<le> threat_score e \<and> threat_score e \<le> 1"

definition transitions_ok :: "(string \<rightharpoonup> (string \<rightharpoonup> u32)) \<Rightarrow> bool" where
  "transitions_ok t \<longleftrightarrow> finite (dom t) \<and> card (dom t) \<le> 500 \<and> (\<forall>m \<in> ran t. finite (dom m) \<and> card (dom m) \<le> 8)"

definition brain_inv :: "brain \<Rightarrow> bool" where
  "brain_inv b \<longleftrightarrow> weights_ok (neural_weights b) \<and>
     finite (dom (domain_iq b)) \<and> card (dom (domain_iq b)) \<le> 3000 \<and> (\<forall>e \<in> ran (domain_iq b). knowledge_ok e) \<and>
     finite (dom (markov_model b)) \<and> card (dom (markov_model b)) \<le> 3000 \<and>
     transitions_ok (domain_transitions b) \<and> length (recent_decisions b) \<le> 150"

datatype brain_op = Train string bool u16 u64 | Sequence string instant | Evaluate string
  | Decide string real real "real list" string string string u64

fun brain_run :: "((string \<rightharpoonup> domain_knowledge) \<Rightarrow> string) \<Rightarrow> ((string \<rightharpoonup> (string \<rightharpoonup> u32)) \<Rightarrow> string) \<Rightarrow> brain_op \<Rightarrow> brain \<Rightarrow> brain" where
  "brain_run fk ft (Train d t rc now) b = train fk d t rc now b"
| "brain_run fk ft (Sequence d now) b = record_sequence ft d now b"
| "brain_run fk ft (Evaluate d) b = snd (evaluate b d)"
| "brain_run fk ft (Decide d e s fs a r p now) b = record_decision d e s fs a r p now b"

text \<open>A map which gives up a key before it takes a new one stays within its bound.\<close>

lemma bounded_put:
  fixes m :: "'k \<rightharpoonup> 'v"
  assumes "finite (dom m)" "card (dom m) \<le> n" "0 < n" and fk: "dom m \<noteq> {} \<Longrightarrow> fk m \<in> dom m"
    and m': "m' = (if card (dom m) \<ge> n \<and> k \<notin> dom m then m(fk m := None) else m)"
  shows "finite (dom m') \<and> card (insert k (dom m')) \<le> n \<and> ran m' \<subseteq> ran m \<and> (m' k = m k)"
proof (cases "card (dom m) \<ge> n \<and> k \<notin> dom m")
  case True
  then have "dom m \<noteq> {}" using assms(3) by auto
  with fk have f: "fk m \<in> dom m" by blast
  with True assms(1,2) have "card (dom m - {fk m}) + 1 = card (dom m)"
    using card_Suc_Diff1 [of "dom m" "fk m"] by simp
  with True assms f show ?thesis by (auto simp: card_insert_if ran_def split: if_splits)
next
  case False
  with assms show ?thesis by (auto simp: card_insert_if insert_absorb)
qed

lemma learn_bigrams_bounded: "finite (dom m) \<Longrightarrow> card (dom m) \<le> 3000 \<Longrightarrow>
  finite (dom (foldl learn_bigram m ws)) \<and> card (dom (foldl learn_bigram m ws)) \<le> 3000"
proof (induction ws arbitrary: m)
  case (Cons w ws)
  have "finite (dom (learn_bigram m w)) \<and> card (dom (learn_bigram m w)) \<le> 3000"
    using Cons.prems by (auto simp: learn_bigram_def card_insert_if insert_absorb)
  with Cons.IH show ?case by simp
qed simp

lemma length_features: "length (fst (extract_features b d)) = 8"
  by (simp add: extract_features_def Let_def split: prod.split)

lemma gradient_ok: "weights_ok ws \<Longrightarrow> length fs = 8 \<Longrightarrow> weights_ok (gradient_step t fs ws)"
  by (auto simp: weights_ok_def gradient_step_def Let_def clamp_real_def in_set_zip)

lemma ran_put: "\<forall>e \<in> ran m. P e \<Longrightarrow> P v \<Longrightarrow> \<forall>e \<in> ran (m(k \<mapsto> v)). P e"
  by (auto simp: ran_def)

lemma update_iq_ok:
  assumes "finite (dom iq)" "card (dom iq) \<le> 3000" "\<forall>e \<in> ran iq. knowledge_ok e" and fk: "dom iq \<noteq> {} \<Longrightarrow> fk iq \<in> dom iq"
  shows "finite (dom (update_iq fk c t rc ent now iq)) \<and> card (dom (update_iq fk c t rc ent now iq)) \<le> 3000 \<and>
    (\<forall>e \<in> ran (update_iq fk c t rc ent now iq). knowledge_ok e)"
proof -
  define iq' where "iq' = (if card (dom iq) \<ge> 3000 \<and> c \<notin> dom iq then iq(fk iq := None) else iq)"
  define e0 where "e0 = unwrap_or \<lparr>dk_query_count = 0, threat_score = (if t then 95 / 100 else 5 / 100),
                   dk_entropy = ent, safe_resolutions = 0, dk_last_seen = now\<rparr> (iq' c)"
  define e1 where "e1 = e0\<lparr>dk_query_count := sat_succ64 (dk_query_count e0), dk_last_seen := now\<rparr>"
  define e2 where "e2 = (if t then e1\<lparr>threat_score := min (threat_score e1 * (7 / 10) + 3 / 10) 1\<rparr>
                  else if rc = 0 then e1\<lparr>safe_resolutions := sat_succ32 (safe_resolutions e1),
                    threat_score := max (threat_score e1 * (85 / 100)) (1 / 100)\<rparr> else e1)"
  have f: "update_iq fk c t rc ent now iq = iq'(c \<mapsto> e2)"
    by (simp add: update_iq_def Let_def iq'_def e0_def e1_def e2_def)
  have B: "finite (dom iq') \<and> card (insert c (dom iq')) \<le> 3000 \<and> ran iq' \<subseteq> ran iq \<and> iq' c = iq c"
    using bounded_put [where fk = fk, OF assms(1,2) _ fk iq'_def] by simp
  have all: "\<forall>e \<in> ran iq'. knowledge_ok e" using B assms(3) by auto
  then have "knowledge_ok e0" by (auto simp: e0_def unwrap_or_def knowledge_ok_def ran_def split: option.split)
  then have "knowledge_ok e2" by (auto simp: e1_def e2_def knowledge_ok_def min_def max_def)
  from ran_put [OF all this] B show ?thesis unfolding f by simp
qed

lemma record_sequence_ok:
  assumes t: "transitions_ok (domain_transitions b)"
    and ft: "\<And>m. finite (dom m) \<Longrightarrow> dom m \<noteq> {} \<Longrightarrow> ft m \<in> dom m"
  shows "transitions_ok (domain_transitions (record_sequence ft d now b))"
proof -
  have put: "transitions_ok (t'(p \<mapsto> (if card (dom c) < 8 \<or> x \<in> dom c then c(x \<mapsto> v) else c)))"
    if t': "t' = (if card (dom t) \<ge> 500 \<and> p \<notin> dom t then t(ft t := None) else t)"
      and c: "c = unwrap_or Map.empty (t' p)" and t: "transitions_ok t" for t t' p c x v
  proof -
    from t have f: "finite (dom t)" "card (dom t) \<le> 500" by (simp_all add: transitions_ok_def)
    have B: "finite (dom t') \<and> card (insert p (dom t')) \<le> 500 \<and> ran t' \<subseteq> ran t \<and> (t' p = t p)"
      using bounded_put [where fk = ft, OF f _ _ t'] ft [OF f(1)] by simp
    have r: "\<forall>m \<in> ran t'. finite (dom m) \<and> card (dom m) \<le> 8" using B t by (auto simp: transitions_ok_def)
    then have "finite (dom c) \<and> card (dom c) \<le> 8" by (auto simp: c unwrap_or_def ran_def split: option.split)
    then have fc: "finite (dom c)" "card (dom c) \<le> 8" by simp_all
    define c' where "c' = (if card (dom c) < 8 \<or> x \<in> dom c then c(x \<mapsto> v) else c)"
    have "finite (dom c') \<and> card (dom c') \<le> 8"
    proof (cases "card (dom c) < 8 \<or> x \<in> dom c")
      case True
      then have "card (insert x (dom c)) \<le> 8" using fc by (auto simp: card_insert_if)
      with True fc show ?thesis by (simp add: c'_def)
    qed (simp add: c'_def fc)
    from ran_put [where P = "\<lambda>m. finite (dom m) \<and> card (dom m) \<le> 8", OF r this]
    have "\<forall>m \<in> ran (t'(p \<mapsto> c')). finite (dom m) \<and> card (dom m) \<le> 8" .
    moreover have "dom (t'(p \<mapsto> c')) = insert p (dom t')" by simp
    ultimately show ?thesis unfolding c'_def [symmetric] transitions_ok_def using B by (simp only: finite_insert)
  qed
  show ?thesis
  proof (cases "brain_clean d = [] \<or> last_query_sequence b = None")
    case True
    then show ?thesis using t by (auto simp: record_sequence_def Let_def)
  next
    case False
    then obtain p pt where p: "last_query_sequence b = Some (p, pt)" by auto
    show ?thesis
    proof (cases "now - pt \<le> 2500000000 \<and> p \<noteq> brain_clean d")
      case True
      show ?thesis using put [OF refl refl t] False True p unfolding record_sequence_def Let_def p option.case prod.case by simp
    next
      case no: False
      from t False show ?thesis unfolding record_sequence_def Let_def p option.case prod.case if_not_P [OF no] by simp
    qed
  qed
qed

lemma brain_run_inv:
  assumes b: "brain_inv b"
    and fk: "\<And>m. finite (dom m) \<Longrightarrow> dom m \<noteq> {} \<Longrightarrow> fk m \<in> dom m" and ft: "\<And>m. finite (dom m) \<Longrightarrow> dom m \<noteq> {} \<Longrightarrow> ft m \<in> dom m"
  shows "brain_inv (brain_run fk ft op b)"
proof (cases op)
  case (Train d t rc now)
  let ?c = "brain_clean d"
  show ?thesis
  proof (cases "?c = [] \<or> length ?c < 3")
    case False
    define b1 where "b1 = b\<lparr>markov_model := foldl learn_bigram (markov_model b) (windows2 ?c)\<rparr>"
    obtain fs ent where fe: "extract_features b1 ?c = (fs, ent)" by fastforce
    then have l: "length fs = 8" using length_features [of b1 ?c] by simp
    have r: "brain_run fk ft op b = b1\<lparr>neural_weights := gradient_step t fs (neural_weights b1),
         domain_iq := update_iq fk ?c t rc ent now (domain_iq b1), training_cycles := training_cycles b1 + 1, last_sync_time := now\<rparr>"
      using False fe unfolding Train brain_run.simps train_def Let_def b1_def [symmetric] by simp
    have iq: "finite (dom (domain_iq b))" "card (dom (domain_iq b)) \<le> 3000" "\<forall>e \<in> ran (domain_iq b). knowledge_ok e"
      using b by (simp_all add: brain_inv_def)
    from update_iq_ok [where fk = fk, OF iq fk [OF iq(1)], of ?c t rc ent now] learn_bigrams_bounded [of "markov_model b" "windows2 ?c"]
      gradient_ok [OF _ l, of "neural_weights b" t] b
    show ?thesis unfolding r brain_inv_def by (simp add: b1_def)
  qed (use b Train in \<open>auto simp: train_def Let_def\<close>)
next
  case (Sequence d now)
  have "transitions_ok (domain_transitions (record_sequence ft d now b))"
    using record_sequence_ok [OF _ ft] b by (simp add: brain_inv_def)
  moreover have "neural_weights (record_sequence ft d now b) = neural_weights b" "domain_iq (record_sequence ft d now b) = domain_iq b"
    "markov_model (record_sequence ft d now b) = markov_model b" "recent_decisions (record_sequence ft d now b) = recent_decisions b"
    by (simp_all add: record_sequence_def Let_def split: option.split prod.split)
  ultimately show ?thesis using b by (simp add: Sequence brain_inv_def)
next
  case (Evaluate d)
  with b show ?thesis by (simp add: evaluate_def brain_inv_def)
next
  case (Decide d e s fs a r p now)
  with b show ?thesis by (simp add: record_decision_def Let_def brain_inv_def)
qed

section \<open>Training moves the score towards the target\<close>

lemma sigmoid_range: "0 < sigmoid x \<and> sigmoid x < 1"
proof -
  have "0 < exp (- x)" by simp
  then have p: "0 < 1 + exp (- x)" "1 < 1 + exp (- x)" by linarith+
  have "1 / (1 + exp (- x)) < 1" unfolding pos_divide_less_eq [OF p(1)] using p(2) by (simp only: mult_1)
  with divide_pos_pos [OF zero_less_one p(1)] show ?thesis unfolding sigmoid_def by blast
qed

lemma sigmoid_mono: "x \<le> y \<Longrightarrow> sigmoid x \<le> sigmoid y"
proof -
  assume "x \<le> y"
  then have "1 + exp (- y) \<le> 1 + exp (- x)" by simp
  then show ?thesis unfolding sigmoid_def by (intro divide_left_mono) (simp_all add: add_pos_pos)
qed

lemma clamp_between:
  assumes "- 3 \<le> w" "w \<le> 3"
  shows "w \<le> v \<Longrightarrow> w \<le> clamp_real (- 3) 3 v" and "v \<le> w \<Longrightarrow> clamp_real (- 3) 3 v \<le> w"
  using assms by (auto simp: clamp_real_def)

lemma gradient_term:
  assumes "- 3 \<le> w" "w \<le> 3"
  shows "0 \<le> err \<Longrightarrow> w * f \<le> clamp_real (- 3) 3 (w + 1 / 100 * err * f) * f"
    and "err \<le> 0 \<Longrightarrow> clamp_real (- 3) 3 (w + 1 / 100 * err * f) * f \<le> w * f"
proof -
  let ?v = "w + 1 / 100 * err * f"
  show "w * f \<le> clamp_real (- 3) 3 ?v * f" if e: "0 \<le> err"
  proof (cases "0 \<le> f")
    case True
    with e have "w \<le> ?v" by simp
    then have "w \<le> clamp_real (- 3) 3 ?v" by (rule clamp_between(1) [OF assms])
    with True show ?thesis by (rule mult_right_mono [rotated])
  next
    case False
    with e have "?v \<le> w" by (simp add: mult_nonneg_nonpos)
    then have "clamp_real (- 3) 3 ?v \<le> w" by (rule clamp_between(2) [OF assms])
    with False show ?thesis by (intro mult_right_mono_neg) simp_all
  qed
  show "clamp_real (- 3) 3 ?v * f \<le> w * f" if e: "err \<le> 0"
  proof (cases "0 \<le> f")
    case True
    with e have "?v \<le> w" by (simp add: mult_nonpos_nonneg)
    then have "clamp_real (- 3) 3 ?v \<le> w" by (rule clamp_between(2) [OF assms])
    with True show ?thesis by (rule mult_right_mono [rotated])
  next
    case False
    with e have "0 \<le> err * f" by (intro mult_nonpos_nonpos) simp_all
    then have "w \<le> ?v" by simp
    then have "w \<le> clamp_real (- 3) 3 ?v" by (rule clamp_between(1) [OF assms])
    with False show ?thesis by (intro mult_right_mono_neg) simp_all
  qed
qed

lemma dot_Cons: "dot (w # ws) (f # fs) = w * f + dot ws fs"
  by (simp add: dot_def)

lemma dot_gradient:
  assumes "\<forall>w \<in> set ws. - 3 \<le> w \<and> w \<le> 3" "length ws = length fs"
  shows "0 \<le> err \<Longrightarrow> dot ws fs \<le> dot (map2 (\<lambda>w f. clamp_real (- 3) 3 (w + 1 / 100 * err * f)) ws fs) fs"
    and "err \<le> 0 \<Longrightarrow> dot (map2 (\<lambda>w f. clamp_real (- 3) 3 (w + 1 / 100 * err * f)) ws fs) fs \<le> dot ws fs"
  using assms(2,1)
proof (induction ws fs rule: list_induct2)
  case (Cons w ws f fs)
  {
    case 1
    with Cons show ?case unfolding zip_Cons_Cons list.map prod.case dot_Cons
      by (intro add_mono gradient_term) simp_all
  next
    case 2
    with Cons show ?case unfolding zip_Cons_Cons list.map prod.case dot_Cons
      by (intro add_mono gradient_term) simp_all
  }
qed simp_all

lemma gradient_moves:
  assumes "weights_ok ws" "length fs = 8"
  shows "sigmoid (dot ws fs) \<le> sigmoid (dot (gradient_step True fs ws) fs) \<and>
    sigmoid (dot (gradient_step False fs ws) fs) \<le> sigmoid (dot ws fs)"
proof -
  from assms have a: "\<forall>w \<in> set ws. - 3 \<le> w \<and> w \<le> 3" "length ws = length fs" by (simp_all add: weights_ok_def)
  from sigmoid_range [of "dot ws fs"] have "0 \<le> 1 - sigmoid (dot ws fs)" "0 - sigmoid (dot ws fs) \<le> 0" by simp_all
  from dot_gradient(1) [OF a this(1)] dot_gradient(2) [OF a this(2)] show ?thesis
    unfolding gradient_step_def Let_def by (intro conjI sigmoid_mono) simp_all
qed



end
