(* ===== verification/Rules.thy ===== *)
theory Rules
  imports Pattern Bloom Schedule Ai_Brain
begin

text \<open>
  The blocking rules (\<open>AppState\<close> in \<open>src/src/state.rs\<close>): the lists and filters, the predicates
  over them, the decision \<open>check_domain\<close> with all its effects, its read-only twin, and the
  operations that record what was decided. The fast negative filter is a map: its expiry and
  eviction are the operation \<open>forget_negative\<close>. The clock is an argument in milliseconds; the
  iteration order of the hash maps (\<open>order\<close>), the key which a full table evicts (\<open>fk\<close>) and the
  printer of floating point numbers (\<open>fmt\<close>) are parameters.
\<close>

section \<open>State\<close>

record block_entry =
  be_domain :: string
  be_reason :: string
  be_source :: string
  be_tag :: string
  be_auto :: bool
  be_created :: u64

record log_entry =
  log_t :: u64
  log_kind :: string
  log_text :: string

record rules =
  blocking_enabled :: bool
  threat_bloom :: bloom_filter
  whitelist_bloom :: bloom_filter
  whitelist_exact :: "string set"
  whitelist_wildcards :: "string set"
  custom_blocklist :: "string \<rightharpoonup> block_entry"
  custom_whitelist :: "string set"
  custom_bypasslist :: "string set"
  instant_block_enabled :: bool
  instant_block_domains :: "string set"
  instant_block_wildcards :: "string list"
  instant_block_sources :: "string list"
  fast_neg_filter :: "string \<rightharpoonup> string \<times> bool"
  schedule_rules :: schedule_store
  the_brain :: brain
  recent_actions :: "log_entry list"
  recent_anomalies :: "log_entry list"
  threat_blocks :: u64
  fast_neg_hits :: u64
  schedule_blocks :: u64
  alike_blocks :: u64
  dga_blocks :: u64
  dcc_hits :: u64
  auto_blocks :: u64
  typo_blocks :: u64
  zero_day_blocks :: u64

definition clean_of :: "string \<Rightarrow> string" where
  "clean_of domain = to_ascii_lowercase (trim_end_char CHR ''.'' domain)"

definition wild :: "string \<Rightarrow> string" where
  "wild d = ''*.'' @ d"

section \<open>Parents of a name\<close>

text \<open>The cursor loops: everything behind the next dot.\<close>

lemma str_find_le: "str_find c s = Some i \<Longrightarrow> i < length s"
  by (rule str_find_Some [THEN conjunct1])

function parent_suffixes :: "string \<Rightarrow> string list" where
  "parent_suffixes cursor = (case str_find CHR ''.'' cursor of
     None \<Rightarrow> []
   | Some idx \<Rightarrow> drop (idx + 1) cursor # parent_suffixes (drop (idx + 1) cursor))"
  by pat_completeness auto
termination by (relation "measure length") (auto dest: str_find_le)

declare parent_suffixes.simps [simp del]

text \<open>The index loops \<open>for i in 1..parts.len().saturating_sub(1)\<close>.\<close>

definition inner_parents :: "string \<Rightarrow> string list" where
  "inner_parents domain = (let parts = split_char CHR ''.'' domain
     in map (\<lambda>i. join_char CHR ''.'' (drop i parts)) [1..<length parts - 1])"

section \<open>Predicates\<close>

definition bloom_has :: "bloom_filter \<Rightarrow> string \<Rightarrow> bool rust" where
  "bloom_has f d = contains_bytes f (map char_byte d)"

fun bloom_has_any :: "bloom_filter \<Rightarrow> string list \<Rightarrow> bool rust" where
  "bloom_has_any f [] = ret False"
| "bloom_has_any f (d # ds) = do { b \<leftarrow> bloom_has f d; if b then ret True else bloom_has_any f ds }"

definition is_bypassed :: "rules \<Rightarrow> string \<Rightarrow> bool" where
  "is_bypassed s domain = (
     let clean = clean_of domain; guard = custom_bypasslist s in
     if guard = {} then False
     else if clean \<in> guard \<or> wild clean \<in> guard then True
     else if \<exists>cursor \<in> set (parent_suffixes clean). cursor \<in> guard \<or> wild cursor \<in> guard then True
     else \<exists>key \<in> guard. domain_matches_pattern key clean)"

definition is_instant_blocked :: "rules \<Rightarrow> string \<Rightarrow> bool" where
  "is_instant_blocked s domain = (
     if \<not> instant_block_enabled s then False
     else let clean = clean_of domain in
       if is_bypassed s clean then False
       else if clean \<in> instant_block_domains s \<or> (\<exists>cursor \<in> set (parent_suffixes clean). cursor \<in> instant_block_domains s)
       then True
       else \<exists>pat \<in> set (instant_block_wildcards s). domain_matches_pattern pat clean)"

definition is_exact_whitelisted :: "rules \<Rightarrow> string \<Rightarrow> bool" where
  "is_exact_whitelisted s domain \<longleftrightarrow>
     domain \<in> whitelist_exact s \<or> domain \<in> custom_whitelist s \<and> CHR ''*'' \<notin> set domain"

definition block_reason_tag :: "string \<Rightarrow> string" where
  "block_reason_tag reason =
    (if reason \<in> {''threat_feed_abir'', ''FEED'', ''THREAT''} then ''threat_feed_abir''
     else if reason \<in> {''dga_threat'', ''DGA''} then ''dga_threat''
     else if reason \<in> {''c2_miner_threat'', ''MINER'', ''C2''} then ''c2_miner_threat''
     else if reason \<in> {''lookalike_threat'', ''TYPOSQUAT''} then ''lookalike_threat''
     else if reason \<in> {''threat_negative_cache'', ''THREAT_CACHE''} then ''threat_negative_cache''
     else ''custom_block'')"

definition is_exact_blocked :: "rules \<Rightarrow> string \<Rightarrow> string option rust" where
  "is_exact_blocked s domain = (
     let is_wl_apex = domain \<in> whitelist_wildcards s in
     case custom_blocklist s domain of
       Some entry \<Rightarrow>
         if CHR ''*'' \<notin> set (be_domain entry) then ret (Some (block_reason_tag (be_reason entry)))
         else if \<not> is_wl_apex then do { b \<leftarrow> bloom_has (threat_bloom s) domain; ret (if b then Some ''threat_feed_abir'' else None) }
         else ret None
     | None \<Rightarrow>
         if \<not> is_wl_apex then do { b \<leftarrow> bloom_has (threat_bloom s) domain; ret (if b then Some ''threat_feed_abir'' else None) }
         else ret None)"

definition is_whitelist_wildcard :: "rules \<Rightarrow> string \<Rightarrow> bool" where
  "is_whitelist_wildcard s domain = (
     let guard = whitelist_wildcards s in
     if guard = {} then False
     else if domain \<in> guard \<or> wild domain \<in> guard then True
     else if \<exists>parent \<in> set (inner_parents domain). parent \<in> guard \<or> wild parent \<in> guard then True
     else \<exists>key \<in> guard. CHR ''*'' \<in> set key \<and> domain_matches_pattern key domain)"

definition is_whitelist_bloom :: "rules \<Rightarrow> string \<Rightarrow> bool rust" where
  "is_whitelist_bloom s domain =
     bloom_has_any (whitelist_bloom s)
       (domain # wild domain # concat (map (\<lambda>suffix. [suffix, wild suffix]) (inner_parents domain)))"

definition is_custom_wildcard_whitelisted :: "rules \<Rightarrow> string \<Rightarrow> bool" where
  "is_custom_wildcard_whitelisted s domain = (
     let guard_wl = custom_whitelist s in
     if guard_wl = {} then False
     else if wild domain \<in> guard_wl then True
     else if \<exists>parent \<in> set (inner_parents domain). parent \<in> guard_wl \<or> wild parent \<in> guard_wl then True
     else \<exists>key \<in> guard_wl. CHR ''*'' \<in> set key \<and> domain_matches_pattern key domain)"

definition is_wildcard_whitelisted :: "rules \<Rightarrow> string \<Rightarrow> bool rust" where
  "is_wildcard_whitelisted s domain =
    (if is_whitelist_wildcard s domain then ret True
     else if is_custom_wildcard_whitelisted s domain then ret True
     else is_whitelist_bloom s domain)"

fun first_parent :: "(string \<rightharpoonup> block_entry) \<Rightarrow> string list \<Rightarrow> block_entry option" where
  "first_parent guard [] = None"
| "first_parent guard (parent # ps) = (case guard parent of
     Some entry \<Rightarrow> Some entry
   | None \<Rightarrow> (case guard (wild parent) of Some entry \<Rightarrow> Some entry | None \<Rightarrow> first_parent guard ps))"

fun first_pattern :: "(string \<times> block_entry) list \<Rightarrow> string \<Rightarrow> block_entry option" where
  "first_pattern [] domain = None"
| "first_pattern ((key, entry) # kes) domain =
    (if CHR ''*'' \<in> set key \<and> domain_matches_pattern key domain then Some entry else first_pattern kes domain)"

type_synonym order = "(string \<rightharpoonup> block_entry) \<Rightarrow> (string \<times> block_entry) list"

definition is_wildcard_custom_blocked :: "order \<Rightarrow> rules \<Rightarrow> string \<Rightarrow> string option" where
  "is_wildcard_custom_blocked order s domain = (
     let guard = custom_blocklist s in
     if guard = Map.empty then None
     else case first_parent guard (inner_parents domain) of
       Some entry \<Rightarrow> Some (block_reason_tag (be_reason entry))
     | None \<Rightarrow> map_option (\<lambda>entry. block_reason_tag (be_reason entry)) (first_pattern (order guard) domain))"

function threat_loop :: "bloom_filter \<Rightarrow> string \<Rightarrow> bool rust" where
  "threat_loop f sub = (case str_find CHR ''.'' sub of
     None \<Rightarrow> ret False
   | Some idx \<Rightarrow>
       let sub' = drop (idx + 1) sub in
       if CHR ''.'' \<notin> set sub' then ret False
       else do {
         b \<leftarrow> bloom_has f sub';
         if b then ret True
         else do { w \<leftarrow> bloom_has f (wild sub'); if w then ret True else threat_loop f sub' } })"
  by pat_completeness auto
termination by (relation "measure (\<lambda>(f, sub). length sub)") (auto dest: str_find_le)

declare threat_loop.simps [simp del]

definition is_threat_bloom :: "rules \<Rightarrow> string \<Rightarrow> bool rust" where
  "is_threat_bloom s domain = do {
     b \<leftarrow> bloom_has (threat_bloom s) domain;
     if b then ret True else threat_loop (threat_bloom s) domain }"

definition is_exempt_domain :: "rules \<Rightarrow> string \<Rightarrow> bool rust" where
  "is_exempt_domain s domain = (
     let clean = clean_of domain in
     if is_bypassed s clean then ret True
     else if is_exact_whitelisted s clean then ret True
     else do {
       exact \<leftarrow> is_exact_blocked s clean;
       revoked \<leftarrow> (if exact \<noteq> None then ret True else is_threat_bloom s clean);
       if revoked then ret False else is_wildcard_whitelisted s clean })"

definition is_domain_blocked :: "order \<Rightarrow> rules \<Rightarrow> string \<Rightarrow> bool rust" where
  "is_domain_blocked order s domain =
    (if \<not> blocking_enabled s then ret False
     else let clean = clean_of domain in
     if is_bypassed s clean then ret False
     else if is_instant_blocked s clean then ret True
     else if is_exact_whitelisted s clean then ret False
     else if fast_neg_filter s clean \<noteq> None then ret True
     else do {
       exact \<leftarrow> is_exact_blocked s clean;
       if exact \<noteq> None then ret True
       else do {
         wl \<leftarrow> is_wildcard_whitelisted s clean;
         if wl then ret False
         else if is_wildcard_custom_blocked order s clean \<noteq> None then ret True
         else do {
           threat \<leftarrow> is_threat_bloom s clean;
           if threat then ret True
           else if is_lookalike_threat clean then ret True
           else if is_dga_threat clean then ret True
           else if is_c2_or_miner_threat clean then ret True
           else ret (fst (evaluate_internal (the_brain s) clean) > 90 / 100) } } })"

section \<open>Recording\<close>

definition ms64 :: "nat \<Rightarrow> u64" where
  "ms64 now = word_of_nat now"

definition push_log :: "u64 \<Rightarrow> string \<Rightarrow> string \<Rightarrow> log_entry list \<Rightarrow> log_entry list" where
  "push_log t kind txt' guard = (
     let guard = guard @ [\<lparr>log_t = t, log_kind = kind, log_text = txt'\<rparr>]
     in if length guard > 100 then drop 40 guard else guard)"

definition log_action :: "string \<Rightarrow> string \<Rightarrow> nat \<Rightarrow> rules \<Rightarrow> rules" where
  "log_action action reason now s = s\<lparr>recent_actions := push_log (ms64 now) action reason (recent_actions s)\<rparr>"

definition log_anomaly :: "string \<Rightarrow> string \<Rightarrow> nat \<Rightarrow> rules \<Rightarrow> rules" where
  "log_anomaly kind err now s = s\<lparr>recent_anomalies := push_log (ms64 now) kind err (recent_anomalies s)\<rparr>"

definition record_detected_whitelist :: "string \<Rightarrow> rules \<Rightarrow> rules" where
  "record_detected_whitelist domain s = (
     let clean = clean_of domain in
     if clean = [] then s
     else if card (custom_whitelist s) < 500 \<and> clean \<notin> custom_whitelist s
     then s\<lparr>custom_whitelist := insert clean (custom_whitelist s)\<rparr> else s)"

text \<open>\<open>min_by_key\<close>: the first of the least.\<close>

fun oldest_entry :: "(string \<times> block_entry) list \<Rightarrow> (string \<times> block_entry) option" where
  "oldest_entry [] = None"
| "oldest_entry (x # xs) = (case oldest_entry xs of
     None \<Rightarrow> Some x
   | Some y \<Rightarrow> if be_created (snd x) \<le> be_created (snd y) then Some x else Some y)"

definition entry_kind :: "string \<Rightarrow> string \<times> string \<times> bool" where
  "entry_kind reason =
    (if str_contains reason ''dga'' \<or> str_contains reason ''lookalike'' \<or> str_contains reason ''ai'' \<or> str_contains reason ''typosquat''
     then (''AI'', ''ai'', True)
     else if str_contains reason ''instant'' then (''FEED'', ''instant'', False)
     else if str_contains reason ''rebind'' \<or> str_contains reason ''REBIND'' then (''FEED'', ''rebind'', False)
     else if str_contains reason ''feed'' \<or> str_contains reason ''gsb'' \<or> str_contains reason ''threat'' \<or> str_contains reason ''safe_browsing''
     then (''FEED'', ''feed'', False)
     else if str_contains reason ''manual'' \<or> str_contains reason ''custom_block'' then (''MANUAL'', ''manual'', False)
     else (''FEED'', ''system'', False))"

definition insert_block :: "order \<Rightarrow> string \<Rightarrow> string \<Rightarrow> nat \<Rightarrow> (string \<rightharpoonup> block_entry) \<Rightarrow> string \<rightharpoonup> block_entry" where
  "insert_block order clean reason now guard = (
     let room = (if card (dom guard) \<ge> 2000 \<and> clean \<notin> dom guard then
                   (case oldest_entry (filter (\<lambda>(k, v). be_source v \<noteq> ''manual'') (order guard)) of
                      Some (oldest_key, _) \<Rightarrow> Some (guard(oldest_key := None))
                    | None \<Rightarrow> if card (dom guard) \<ge> 2500 then None else Some guard)
                 else Some guard) in
     case room of
       None \<Rightarrow> guard
     | Some guard \<Rightarrow>
         (case guard clean of
            Some e \<Rightarrow> guard
          | None \<Rightarrow> let (tag, source, auto') = entry_kind reason in
              guard(clean \<mapsto> \<lparr>be_domain = clean, be_reason = reason, be_source = source, be_tag = tag,
                             be_auto = auto', be_created = ms64 now\<rparr>)))"

type_synonym iq_order = "(string \<rightharpoonup> domain_knowledge) \<Rightarrow> string"

definition record_detected_block :: "order \<Rightarrow> iq_order \<Rightarrow> string \<Rightarrow> string \<Rightarrow> nat \<Rightarrow> rules \<Rightarrow> rules" where
  "record_detected_block order fk domain reason now s = (
     let clean = clean_of domain in
     if clean = [] then s
     else let s = s\<lparr>the_brain := train fk clean True 3 (ms64 now) (the_brain s)\<rparr> in
       if reason = ''cache'' \<or> reason = ''NEG_HIT'' then s
       else s\<lparr>custom_blocklist := insert_block order clean reason now (custom_blocklist s)\<rparr>)"

definition forget_negative :: "string \<Rightarrow> rules \<Rightarrow> rules" where
  "forget_negative k s = s\<lparr>fast_neg_filter := (fast_neg_filter s)(k := None)\<rparr>"

definition remember_negative :: "string \<Rightarrow> string \<Rightarrow> bool \<Rightarrow> rules \<Rightarrow> rules" where
  "remember_negative clean reason nx s = s\<lparr>fast_neg_filter := (fast_neg_filter s)(clean \<mapsto> (reason, nx))\<rparr>"

section \<open>The decision\<close>

type_synonym verdict = "bool \<times> bool \<times> string"

text \<open>The three branches that end with a block of a known reason.\<close>

definition block_known :: "order \<Rightarrow> iq_order \<Rightarrow> string \<Rightarrow> string \<Rightarrow> string \<Rightarrow> nat \<Rightarrow> rules \<Rightarrow> verdict \<times> rules" where
  "block_known order fk clean reason action now s = (
     let s = remember_negative clean reason True s;
         s = s\<lparr>threat_blocks := threat_blocks s + 1\<rparr>;
         s = record_detected_block order fk clean reason now s;
         s = log_action action clean now s
     in ((True, True, reason), s))"

text \<open>What the heuristic branches have in common after their counters.\<close>

definition block_heuristic :: "order \<Rightarrow> iq_order \<Rightarrow> string \<Rightarrow> string \<Rightarrow> real \<Rightarrow> string \<Rightarrow> string \<Rightarrow> string \<Rightarrow>
   string \<Rightarrow> (real \<Rightarrow> string) \<Rightarrow> nat \<Rightarrow> rules \<Rightarrow> verdict \<times> rules" where
  "block_heuristic order fk clean reason score why proof' action anomaly err now s = (
     let (feats, ent) = extract_features (the_brain s) clean;
         s = s\<lparr>the_brain := record_decision clean ent score feats ''HARD_BLOCK'' why proof' (ms64 now) (the_brain s)\<rparr>;
         s = record_detected_block order fk clean reason now s;
         s = log_action action clean now s;
         s = log_anomaly anomaly (err ent) now s
     in ((True, True, reason), s))"

definition check_heuristics :: "order \<Rightarrow> iq_order \<Rightarrow> (nat \<Rightarrow> real \<Rightarrow> string) \<Rightarrow> string \<Rightarrow> nat \<Rightarrow> rules \<Rightarrow> verdict \<times> rules" where
  "check_heuristics order fk fmt clean now s =
    (if is_lookalike_threat clean then
       (let s = remember_negative clean ''lookalike_threat'' True s;
            s = s\<lparr>alike_blocks := alike_blocks s + 1, auto_blocks := auto_blocks s + 1, typo_blocks := typo_blocks s + 1\<rparr>
        in block_heuristic order fk clean ''lookalike_threat'' (95 / 100) ''typosquat_lookalike''
             ''Prevented brand impersonation phishing trap; blocked before credential theft''
             ''alike_domain_block'' ''lookalike_threat'' (\<lambda>ent. ''Brand impersonation phishing: '' @ clean) now s)
     else if is_dga_threat clean then
       (let s = remember_negative clean ''DGA'' True s;
            s = s\<lparr>dga_blocks := dga_blocks s + 1, dcc_hits := dcc_hits s + 1, auto_blocks := auto_blocks s + 1,
                  zero_day_blocks := zero_day_blocks s + 1\<rparr>
        in block_heuristic order fk clean ''DGA'' (98 / 100) ''dga_algorithmic_threat''
             ''Intercepted Zero-Day algorithmic DGA domain (Entropy > 3.8); not in static lists''
             ''dga_block'' ''dga_algorithmic_threat''
             (\<lambda>ent. ''DGA botnet signature (Entropy '' @ fmt 2 ent @ ''): '' @ clean) now s)
     else if is_c2_or_miner_threat clean then
       (let s = remember_negative clean ''c2_miner_threat'' True s;
            s = s\<lparr>threat_blocks := threat_blocks s + 1, dcc_hits := dcc_hits s + 1, auto_blocks := auto_blocks s + 1,
                  zero_day_blocks := zero_day_blocks s + 1\<rparr>
        in block_heuristic order fk clean ''c2_miner_threat'' (99 / 100) ''c2_miner_threat''
             ''Intercepted unauthorized cryptominer / C2 botnet endpoint; prevented CPU hijacking and exfiltration''
             ''c2_miner_block'' ''c2_miner_threat''
             (\<lambda>ent. ''Unauthorized Cryptominer / C2 botnet endpoint: '' @ clean) now s)
     else
       (let ((score, verdict), b) = evaluate (the_brain s) clean;
            s = s\<lparr>the_brain := b\<rparr> in
        if score > 90 / 100 then
          (let s = remember_negative clean verdict True s;
               s = s\<lparr>dga_blocks := dga_blocks s + 1, dcc_hits := dcc_hits s + 1, auto_blocks := auto_blocks s + 1,
                     zero_day_blocks := zero_day_blocks s + 1\<rparr>
           in block_heuristic order fk clean verdict score verdict
                ''Classified malicious domain via 8-layer neural weights; autonomous zero-day shield''
                ''neural_brain_block'' ''neural_zero_day''
                (\<lambda>ent. ''Autonomous Zero-Day Shield ('' @ fmt 0 (score * 100) @ ''% score): '' @ clean) now s)
        else ((False, False, ''none''), s)))"

definition check_domain :: "order \<Rightarrow> iq_order \<Rightarrow> (nat \<Rightarrow> real \<Rightarrow> string) \<Rightarrow> string \<Rightarrow> nat \<Rightarrow> rules \<Rightarrow> (verdict \<times> rules) rust" where
  "check_domain order fk fmt domain now s =
    (if \<not> blocking_enabled s then ret ((False, False, ''none''), s)
     else let clean = clean_of domain in
     if is_bypassed s clean then ret ((False, False, ''bypassed''), s)
     else if is_instant_blocked s clean then
       (let s = s\<lparr>threat_blocks := threat_blocks s + 1\<rparr>;
            s = record_detected_block order fk clean ''instant_shield_block'' now s;
            s = log_action ''instant_shield_block'' clean now s
        in ret ((True, True, ''instant_shield_block''), s))
     else if is_exact_whitelisted s clean then
       ret ((False, False, ''whitelisted''), record_detected_whitelist clean s)
     else (case fast_neg_filter s clean of
       Some (reason, is_nx) \<Rightarrow>
         ret ((True, is_nx, reason), s\<lparr>threat_blocks := threat_blocks s + 1, fast_neg_hits := fast_neg_hits s + 1\<rparr>)
     | None \<Rightarrow>
       if is_blocked_now (schedule_rules s) clean (now div 1000) \<noteq> None then
         (let s = s\<lparr>threat_blocks := threat_blocks s + 1, schedule_blocks := schedule_blocks s + 1\<rparr>
          in ret ((True, False, ''schedule_block''), remember_negative clean ''schedule_block'' False s))
       else do {
         exact \<leftarrow> is_exact_blocked s clean;
         case exact of
           Some reason \<Rightarrow>
             ret (block_known order fk clean reason (if reason = ''threat_feed_abir'' then ''feed_block'' else ''custom_block'') now s)
         | None \<Rightarrow> do {
             wl \<leftarrow> is_wildcard_whitelisted s clean;
             if wl then ret ((False, False, ''whitelist_feed''), record_detected_whitelist clean s)
             else (case is_wildcard_custom_blocked order s clean of
               Some reason \<Rightarrow> ret (block_known order fk clean reason ''custom_block'' now s)
             | None \<Rightarrow> do {
                 threat \<leftarrow> is_threat_bloom s clean;
                 if threat then ret (block_known order fk clean ''threat_feed_abir'' ''feed_block'' now s)
                 else ret (check_heuristics order fk fmt clean now s) }) } }))"

section \<open>Lists and caches\<close>

definition split_rules :: "string list \<Rightarrow> string set \<times> string list" where
  "split_rules rs = (set (filter (\<lambda>r. CHR ''*'' \<notin> set r) rs), filter (\<lambda>r. CHR ''*'' \<in> set r) rs)"

definition is_url :: "string \<Rightarrow> bool" where
  "is_url line \<longleftrightarrow> starts_with line ''http://'' \<or> starts_with line ''https://''"

definition source_lines :: "string list \<Rightarrow> string list" where
  "source_lines sources = filter (\<lambda>t. t \<noteq> [] \<and> \<not> starts_with t ''#'') (map trim sources)"

definition compile_instant_blocklist :: "(string list \<Rightarrow> string list list) \<Rightarrow> string list \<Rightarrow> rules \<Rightarrow> (nat \<times> nat) \<times> rules" where
  "compile_instant_blocklist fetched sources s = (
     let lines = source_lines sources;
         valid_sources = filter (\<lambda>t. is_url t \<or> normalize_instant_block_line t \<noteq> None) lines;
         local_rules = List.map_filter normalize_instant_block_line (filter (\<lambda>t. \<not> is_url t) lines);
         remote_rules = List.map_filter normalize_instant_block_line (concat (fetched (filter is_url lines)));
         (exact, wildcards) = split_rules (local_rules @ remote_rules)
     in ((length valid_sources, card exact + length wildcards),
         s\<lparr>instant_block_domains := exact, instant_block_wildcards := wildcards, instant_block_sources := valid_sources\<rparr>))"

definition flush_negatives :: "rules \<Rightarrow> rules" where
  "flush_negatives s = s\<lparr>fast_neg_filter := Map.empty\<rparr>"

section \<open>The fast paths are the pattern scan\<close>

text \<open>A name as queries bring it: visible characters, no star.\<close>

definition query_name :: "string \<Rightarrow> bool" where
  "query_name d \<longleftrightarrow> (\<forall>c \<in> set d. visible c \<and> c \<noteq> CHR ''*'')"

lemma parent_suffixes_iff: "r \<in> set (parent_suffixes d) \<longleftrightarrow> (\<exists>p. d = p @ CHR ''.'' # r)"
proof (induction d rule: parent_suffixes.induct)
  case (1 d)
  show ?case
  proof (cases "str_find CHR ''.'' d")
    case None
    then have "CHR ''.'' \<notin> set d" by (simp add: str_find_None)
    with None show ?thesis by (subst parent_suffixes.simps) auto
  next
    case (Some i)
    note i = str_find_Some [OF Some]
    have d: "d = take i d @ CHR ''.'' # drop (i + 1) d" using i by (metis Suc_eq_plus1 id_take_nth_drop)
    have "(\<exists>p. d = p @ CHR ''.'' # r) \<longleftrightarrow> r = drop (i + 1) d \<or> (\<exists>p. drop (i + 1) d = p @ CHR ''.'' # r)" (is "?l = ?r")
    proof
      assume ?l
      then obtain p where p: "d = p @ CHR ''.'' # r" ..
      have "\<not> length p < i"
      proof
        assume l: "length p < i"
        have "take i d ! length p \<in> set (take i d)" using l i by (intro nth_mem) simp
        moreover have "take i d ! length p = CHR ''.''" unfolding nth_take [OF l] p by simp
        ultimately show False using i by simp
      qed
      then consider "length p = i" | "length p > i" by linarith
      then show ?r
      proof cases
        case 2
        then have "drop (i + 1) d = drop (i + 1) p @ CHR ''.'' # r" using p by simp
        then show ?thesis by blast
      qed (use p in auto)
    next
      assume ?r
      then show ?l by (metis append.assoc append_Cons d)
    qed
    then show ?thesis using "1.IH" [OF Some] by (subst parent_suffixes.simps) (auto simp: Some)
  qed
qed

lemma clean_of_facts: "clean_of d = [] \<or> last (clean_of d) \<noteq> CHR ''.''" "no_upper (clean_of d)"
proof -
  have "clean_of d = trim_end_char CHR ''.'' (to_ascii_lowercase d)"
    unfolding clean_of_def by (rule trim_end_char_lower [symmetric]) simp_all
  then show "clean_of d = [] \<or> last (clean_of d) \<noteq> CHR ''.''" using trim_end_char_last by metis
qed (simp add: clean_of_def no_upper_lower)

text \<open>Rules and names that the matchers compare as they are.\<close>

definition settled :: "string \<Rightarrow> bool" where
  "settled p \<longleftrightarrow> no_upper p \<and> (\<forall>c \<in> set p. visible c) \<and> (p = [] \<or> last p \<noteq> CHR ''.'')"

lemma settled_clean: "settled p \<Longrightarrow> clean_name p = p"
proof -
  assume p: "settled p"
  then have "trim p = p" by (intro trim_visible) (auto simp: settled_def)
  with p show ?thesis by (simp add: settled_def clean_name_def trim_end_char_id lower_id)
qed

lemma settled_matches:
  assumes "settled p" and "settled d" "CHR ''*'' \<notin> set d"
  shows "domain_matches_pattern p d =
    (p = d \<or> (case strip_prefix p ''*.'' of Some r \<Rightarrow> ends_with d (''.'' @ r)
      | None \<Rightarrow> if CHR ''*'' \<notin> set p then ends_with d (''.'' @ p) else wildcard_match p d))"
  using assms(1,2) [THEN settled_clean]
  by (simp add: domain_matches_pattern_def clean_name_def Let_def cong: option.case_cong)

lemma settled_suffix: "settled (p @ c # r) \<Longrightarrow> r \<noteq> [] \<Longrightarrow> settled r"
  by (auto simp: settled_def no_upper_def)

lemma settled_wild: "settled r \<Longrightarrow> r \<noteq> [] \<Longrightarrow> settled (wild r)"
  by (auto simp: settled_def no_upper_def wild_def visible_def is_upper_code_def code_def)

lemma settled_query: "query_name (clean_of d) \<Longrightarrow> settled (clean_of d)"
  using clean_of_facts [of d] by (auto simp: settled_def query_name_def)

lemma plain_rule_parents:
  assumes "settled p" "CHR ''*'' \<notin> set p" "settled d" "CHR ''*'' \<notin> set d"
  shows "domain_matches_pattern p d \<longleftrightarrow> p = d \<or> p \<in> set (parent_suffixes d)"
proof -
  have "strip_prefix p ''*.'' = None" using assms(2) by (auto simp: strip_prefix_def starts_with_iff)
  then show ?thesis using assms
    by (auto simp: settled_matches parent_suffixes_iff ends_with_iff)
qed

lemma wild_rule_parents:
  assumes "settled r" "r \<noteq> []" "settled d" "CHR ''*'' \<notin> set d"
  shows "domain_matches_pattern (wild r) d \<longleftrightarrow> r \<in> set (parent_suffixes d)"
proof -
  have "strip_prefix (wild r) ''*.'' = Some r" unfolding wild_def by (rule strip_prefix_append)
  moreover have "wild r \<noteq> d" using assms(4) by (auto simp: wild_def)
  ultimately show ?thesis using assms settled_wild [OF assms(1,2)]
    by (simp add: settled_matches parent_suffixes_iff ends_with_iff)
qed

lemma bypass_is_pattern:
  assumes q: "query_name (clean_of domain)"
  shows "is_bypassed s domain \<longleftrightarrow>
    (\<exists>key \<in> custom_bypasslist s. key = wild (clean_of domain) \<or> domain_matches_pattern key (clean_of domain))"
proof -
  define d where "d = clean_of domain"
  have d: "settled d" "CHR ''*'' \<notin> set d" using settled_query [OF q] q by (auto simp: d_def query_name_def)
  have parent: "domain_matches_pattern r d \<and> domain_matches_pattern (wild r) d" if r: "r \<in> set (parent_suffixes d)" for r
  proof -
    from r obtain p where p: "d = p @ CHR ''.'' # r" by (auto simp: parent_suffixes_iff)
    have ne: "r \<noteq> []" using clean_of_facts(1) [of domain] p by (auto simp: d_def)
    have sr: "settled r" using d(1) ne unfolding p by (rule settled_suffix)
    have "CHR ''*'' \<notin> set r" using d(2) p by auto
    with plain_rule_parents [OF sr _ d] wild_rule_parents [OF sr ne d] r show ?thesis by blast
  qed
  have self: "domain_matches_pattern d d" using d by (simp add: settled_matches)
  show ?thesis unfolding is_bypassed_def Let_def d_def [symmetric] using parent self by auto
qed

lemma hosts_free: "rule_ok h \<Longrightarrow> last h \<noteq> CHR ''.'' \<Longrightarrow> settled h"
  by (auto simp: rule_ok_def settled_def rule_char_visible)

lemma instant_is_pattern:
  assumes q: "query_name (clean_of domain)" and r: "split_rules rs = (exact, wildcards)" and rs: "\<forall>h \<in> set rs. settled h"
  shows "is_instant_blocked (s\<lparr>instant_block_domains := exact, instant_block_wildcards := wildcards\<rparr>) domain \<longleftrightarrow>
    instant_block_enabled s \<and> \<not> is_bypassed s (clean_of domain) \<and> (\<exists>h \<in> set rs. domain_matches_pattern h (clean_of domain))"
proof -
  define d where "d = clean_of domain"
  have d: "settled d" "CHR ''*'' \<notin> set d" using settled_query [OF q] q by (auto simp: d_def query_name_def)
  have ex: "exact = {h \<in> set rs. CHR ''*'' \<notin> set h}" "set wildcards = {h \<in> set rs. CHR ''*'' \<in> set h}"
    using r by (auto simp: split_rules_def)
  have plain: "(d \<in> exact \<or> (\<exists>r \<in> set (parent_suffixes d). r \<in> exact)) \<longleftrightarrow>
      (\<exists>h \<in> set rs. CHR ''*'' \<notin> set h \<and> domain_matches_pattern h d)"
    using plain_rule_parents [OF _ _ d] rs unfolding ex(1) by blast
  have by': "is_bypassed (s\<lparr>instant_block_domains := exact, instant_block_wildcards := wildcards\<rparr>) d = is_bypassed s d"
    by (simp add: is_bypassed_def)
  show ?thesis unfolding is_instant_blocked_def Let_def d_def [symmetric] by' using plain ex(2) by auto
qed

text \<open>What a source list compiles to, read as one list of rules.\<close>

definition compiled_rules :: "(string list \<Rightarrow> string list list) \<Rightarrow> string list \<Rightarrow> string list" where
  "compiled_rules fetched sources = List.map_filter normalize_instant_block_line
     (filter (\<lambda>t. \<not> is_url t) (source_lines sources) @ concat (fetched (filter is_url (source_lines sources))))"

lemma split_rules_card: "split_rules rs = (exact, wildcards) \<Longrightarrow> card exact + length wildcards \<le> length rs"
proof -
  assume r: "split_rules rs = (exact, wildcards)"
  have "card exact \<le> length (filter (\<lambda>r. CHR ''*'' \<notin> set r) rs)"
    using r card_length [of "filter (\<lambda>r. CHR ''*'' \<notin> set r) rs"] by (simp add: split_rules_def)
  moreover have "length (filter (\<lambda>r. CHR ''*'' \<notin> set r) rs) + length wildcards = length rs"
    using r sum_length_filter_compl [of "\<lambda>r. CHR ''*'' \<in> set r" rs] by (auto simp: split_rules_def)
  ultimately show ?thesis by linarith
qed

lemma map_filter_range: "h \<in> set (List.map_filter f xs) \<longleftrightarrow> (\<exists>x \<in> set xs. f x = Some h)"
  by (induction xs) (auto simp: List.map_filter_simps split: option.split)

lemma compiled_rule_ok: "h \<in> set (compiled_rules fetched sources) \<Longrightarrow> rule_ok h"
  by (auto simp: compiled_rules_def map_filter_range dest: normalize_instant_ok)

lemma compile_form: "compile_instant_blocklist fetched sources s =
   (let (exact, wildcards) = split_rules (compiled_rules fetched sources);
        valid = filter (\<lambda>t. is_url t \<or> normalize_instant_block_line t \<noteq> None) (source_lines sources)
    in ((length valid, card exact + length wildcards),
        s\<lparr>instant_block_domains := exact, instant_block_wildcards := wildcards, instant_block_sources := valid\<rparr>))"
proof -
  have "List.map_filter f (xs @ ys) = List.map_filter f xs @ List.map_filter f ys" for f :: "string \<Rightarrow> string option" and xs ys
    by (induction xs) (auto simp: List.map_filter_simps split: option.split)
  then show ?thesis
    by (simp add: compile_instant_blocklist_def compiled_rules_def Let_def split: prod.split)
qed

text \<open>
  C15: The lists. For a name of visible characters without a star, in any case and with any final
  dots, the constant-time look-ups of the parents decide what a scan of all rules with the
  matcher decides: a name is bypassed when a rule of the bypass list matches it (or is the star
  rule of the name itself), and after a list of sources has been compiled it is instantly blocked
  when one of the compiled rules matches it, the shield is on and no bypass applies, provided no
  rule ends with a dot (a hosts line such as \<open>0.0.0.0 a. .\<close> compiles to one). Every compiled
  rule is well formed, and the count that is reported is at most their number.
\<close>

theorem rule_lists_spec:
  assumes q: "query_name (clean_of domain)"
    and s': "((n, cnt), s') = compile_instant_blocklist fetched sources s"
    and dots: "\<forall>h \<in> set (compiled_rules fetched sources). last h \<noteq> CHR ''.''"
  shows "(is_bypassed s domain \<longleftrightarrow>
      (\<exists>key \<in> custom_bypasslist s. key = wild (clean_of domain) \<or> domain_matches_pattern key (clean_of domain))) \<and>
    (is_instant_blocked s' domain \<longleftrightarrow> instant_block_enabled s \<and> \<not> is_bypassed s (clean_of domain) \<and>
      (\<exists>h \<in> set (compiled_rules fetched sources). domain_matches_pattern h (clean_of domain))) \<and>
    (\<forall>h \<in> instant_block_domains s' \<union> set (instant_block_wildcards s'). rule_ok h) \<and>
    cnt \<le> length (compiled_rules fetched sources)"
proof -
  obtain exact wildcards where r: "split_rules (compiled_rules fetched sources) = (exact, wildcards)" by fastforce
  define valid where "valid = filter (\<lambda>t. is_url t \<or> normalize_instant_block_line t \<noteq> None) (source_lines sources)"
  have s: "s' = s\<lparr>instant_block_sources := valid\<rparr>\<lparr>instant_block_domains := exact, instant_block_wildcards := wildcards\<rparr>"
      "cnt = card exact + length wildcards"
    using s' unfolding compile_form r valid_def Let_def by simp_all
  have "\<forall>h \<in> set (compiled_rules fetched sources). settled h"
    using dots compiled_rule_ok hosts_free by blast
  from instant_is_pattern [OF q r this, of "s\<lparr>instant_block_sources := valid\<rparr>"]
  have "is_instant_blocked s' domain \<longleftrightarrow> instant_block_enabled s \<and> \<not> is_bypassed s (clean_of domain) \<and>
      (\<exists>h \<in> set (compiled_rules fetched sources). domain_matches_pattern h (clean_of domain))"
    unfolding s by (simp add: is_bypassed_def)
  moreover have "\<forall>h \<in> exact \<union> set wildcards. rule_ok h"
    using r compiled_rule_ok by (auto simp: split_rules_def)
  ultimately show ?thesis using bypass_is_pattern [OF q, of s] split_rules_card [OF r] by (simp add: s)
qed

definition no_rules :: rules where
  "no_rules = \<lparr>blocking_enabled = True, threat_bloom = empty_filter 512 3, whitelist_bloom = empty_filter 512 3,
     whitelist_exact = {}, whitelist_wildcards = {}, custom_blocklist = Map.empty, custom_whitelist = {},
     custom_bypasslist = {}, instant_block_enabled = True, instant_block_domains = {},
     instant_block_wildcards = [], instant_block_sources = [], fast_neg_filter = Map.empty,
     schedule_rules = schedule_new, the_brain = brain_new 0, recent_actions = [], recent_anomalies = [],
     threat_blocks = 0, fast_neg_hits = 0, schedule_blocks = 0, alike_blocks = 0, dga_blocks = 0,
     dcc_hits = 0, auto_blocks = 0, typo_blocks = 0, zero_day_blocks = 0\<rparr>"

theorem rule_lists_spec_witness:
  "is_instant_blocked (snd (compile_instant_blocklist (\<lambda>urls. []) [''ads.com''] no_rules)) ''X.Ads.com.''"
proof -
  have c: "clean_of ''X.Ads.com.'' = ''x.ads.com''" by code_simp
  then have q: "query_name (clean_of ''X.Ads.com.'')" unfolding query_name_def c by code_simp
  have r: "compiled_rules (\<lambda>urls. []) [''ads.com''] = [''ads.com'']" by code_simp
  have m: "domain_matches_pattern ''ads.com'' ''x.ads.com''" by code_simp
  obtain n k s' where s': "((n, k), s') = compile_instant_blocklist (\<lambda>urls. []) [''ads.com''] no_rules"
    by (metis surj_pair)
  have "\<forall>h \<in> set (compiled_rules (\<lambda>urls. []) [''ads.com'']). last h \<noteq> CHR ''.''" unfolding r by simp
  from rule_lists_spec [OF q s' this] have "is_instant_blocked s' ''X.Ads.com.''"
    unfolding r c using m by (simp add: no_rules_def is_bypassed_def)
  then show ?thesis by (simp flip: s')
qed

end
