(* ===== verification/Rule_Decision.thy ===== *)
theory Rule_Decision
  imports Rules
begin

text \<open>
  What \<open>AppState::check_domain\<close> decides and what it leaves behind: the verdict is the first row of
  a table that applies, the read-only twin \<open>is_domain_blocked\<close> agrees with it, a block is
  remembered by the lists, and every run keeps the bounds of the tables.
\<close>

section \<open>The filters as sets\<close>

definition feed_has :: "bloom_filter \<Rightarrow> string \<Rightarrow> bool" where
  "feed_has f d \<longleftrightarrow> bloom_has f d = ret True"

lemma bloom_has_total: "bloom_ok f \<Longrightarrow> bloom_has f d = ret (feed_has f d)"
  by (simp add: feed_has_def bloom_has_def contains_bytes_form)

lemma bloom_has_any_total: "bloom_ok f \<Longrightarrow> bloom_has_any f ds = ret (\<exists>d \<in> set ds. feed_has f d)"
  by (induction ds) (auto simp: bloom_has_total)

text \<open>The names under which a feed can list a name below it: its parents of two labels or more.\<close>

definition listed_parent :: "string \<Rightarrow> string \<Rightarrow> bool" where
  "listed_parent d r \<longleftrightarrow> CHR ''.'' \<in> set r \<and> (\<exists>p. d = p @ CHR ''.'' # r)"

lemma threat_loop_total: "bloom_ok f \<Longrightarrow>
  threat_loop f d = ret (\<exists>r. listed_parent d r \<and> (feed_has f r \<or> feed_has f (wild r)))"
proof (induction f d rule: threat_loop.induct)
  case (1 f d)
  have lp: "listed_parent d r \<longleftrightarrow> CHR ''.'' \<in> set r \<and> r \<in> set (parent_suffixes d)" for r
    by (simp add: listed_parent_def parent_suffixes_iff)
  show ?case
  proof (cases "str_find CHR ''.'' d")
    case None
    then have "parent_suffixes d = []" by (subst parent_suffixes.simps) simp
    with None show ?thesis by (subst threat_loop.simps) (simp add: lp)
  next
    case (Some i)
    define t where "t = drop (i + 1) d"
    have ps: "parent_suffixes d = t # parent_suffixes t" by (subst parent_suffixes.simps) (simp add: Some t_def)
    show ?thesis
    proof (cases "CHR ''.'' \<in> set t")
      case False
      then have "parent_suffixes t = []" by (subst parent_suffixes.simps) (simp add: str_find_None [symmetric] option.case_eq_if)
      then have "\<not> listed_parent d r" for r using False by (auto simp: lp ps)
      with False show ?thesis by (subst threat_loop.simps) (simp add: Some t_def [symmetric, simplified])
    next
      case True
      have split: "listed_parent d r \<longleftrightarrow> r = t \<or> listed_parent t r" for r
        using True by (auto simp: lp ps listed_parent_def parent_suffixes_iff [symmetric])
      have "threat_loop f t = ret (\<exists>r. listed_parent t r \<and> (feed_has f r \<or> feed_has f (wild r)))"
        if "\<not> feed_has f t" "\<not> feed_has f (wild t)"
        using "1.IH" [OF Some t_def] True that "1.prems" by (simp add: bloom_has_total)
      then have "threat_loop f d = ret (feed_has f t \<or> feed_has f (wild t) \<or>
          (\<exists>r. listed_parent t r \<and> (feed_has f r \<or> feed_has f (wild r))))"
        using True by (subst threat_loop.simps) (simp add: Some t_def [symmetric, simplified] bloom_has_total "1.prems")
      then show ?thesis by (auto simp: split)
    qed
  qed
qed

definition threat_listed :: "rules \<Rightarrow> string \<Rightarrow> bool" where
  "threat_listed s d \<longleftrightarrow> feed_has (threat_bloom s) d \<or>
     (\<exists>r. listed_parent d r \<and> (feed_has (threat_bloom s) r \<or> feed_has (threat_bloom s) (wild r)))"

definition exact_reason :: "rules \<Rightarrow> string \<Rightarrow> string option" where
  "exact_reason s d = (case custom_blocklist s d of
     Some e \<Rightarrow> if CHR ''*'' \<notin> set (be_domain e) then Some (block_reason_tag (be_reason e))
               else if d \<notin> whitelist_wildcards s \<and> feed_has (threat_bloom s) d then Some ''threat_feed_abir'' else None
   | None \<Rightarrow> if d \<notin> whitelist_wildcards s \<and> feed_has (threat_bloom s) d then Some ''threat_feed_abir'' else None)"

definition white_listed :: "rules \<Rightarrow> string \<Rightarrow> bool" where
  "white_listed s d \<longleftrightarrow> is_whitelist_wildcard s d \<or> is_custom_wildcard_whitelisted s d \<or>
     (\<exists>r \<in> insert d (set (inner_parents d)). feed_has (whitelist_bloom s) r \<or> feed_has (whitelist_bloom s) (wild r))"

definition filters_ok :: "rules \<Rightarrow> bool" where
  "filters_ok s \<longleftrightarrow> bloom_ok (threat_bloom s) \<and> bloom_ok (whitelist_bloom s)"

lemma lookups_total:
  assumes "filters_ok s"
  shows "is_exact_blocked s d = ret (exact_reason s d)" "is_wildcard_whitelisted s d = ret (white_listed s d)"
    "is_threat_bloom s d = ret (threat_listed s d)"
proof -
  note b = assms [unfolded filters_ok_def, THEN conjunct1] assms [unfolded filters_ok_def, THEN conjunct2]
  show "is_exact_blocked s d = ret (exact_reason s d)"
    by (auto simp: is_exact_blocked_def exact_reason_def Let_def bloom_has_total b split: option.split)
  show "is_wildcard_whitelisted s d = ret (white_listed s d)"
    by (auto simp: is_wildcard_whitelisted_def white_listed_def is_whitelist_bloom_def bloom_has_any_total [OF b(2)]
        simp del: bloom_has_any.simps)
  show "is_threat_bloom s d = ret (threat_listed s d)"
    by (auto simp: is_threat_bloom_def threat_listed_def bloom_has_total threat_loop_total b)
qed

section \<open>The table of rules\<close>

type_synonym row = "verdict option"

definition row_when :: "bool \<Rightarrow> verdict \<Rightarrow> row" where
  "row_when b v = (if b then Some v else None)"

definition decision_table :: "order \<Rightarrow> rules \<Rightarrow> string \<Rightarrow> nat \<Rightarrow> row list" where
  "decision_table order s d now =
    [row_when (is_bypassed s d) (False, False, ''bypassed''),
     row_when (is_instant_blocked s d) (True, True, ''instant_shield_block''),
     row_when (is_exact_whitelisted s d) (False, False, ''whitelisted''),
     map_option (\<lambda>(reason, nx). (True, nx, reason)) (fast_neg_filter s d),
     row_when (is_blocked_now (schedule_rules s) d (now div 1000) \<noteq> None) (True, False, ''schedule_block''),
     map_option (\<lambda>reason. (True, True, reason)) (exact_reason s d),
     row_when (white_listed s d) (False, False, ''whitelist_feed''),
     map_option (\<lambda>reason. (True, True, reason)) (is_wildcard_custom_blocked order s d),
     row_when (threat_listed s d) (True, True, ''threat_feed_abir''),
     row_when (is_lookalike_threat d) (True, True, ''lookalike_threat''),
     row_when (is_dga_threat d) (True, True, ''DGA''),
     row_when (is_c2_or_miner_threat d) (True, True, ''c2_miner_threat''),
     row_when (fst (evaluate_internal (the_brain s) d) > 90 / 100) (True, True, snd (evaluate_internal (the_brain s) d))]"

fun first_row :: "row list \<Rightarrow> verdict" where
  "first_row [] = (False, False, ''none'')"
| "first_row (None # rs) = first_row rs"
| "first_row (Some v # rs) = v"

lemma first_row_when [simp]: "first_row (row_when b v # rs) = (if b then v else first_row rs)"
  by (simp add: row_when_def)

lemma first_row_map [simp]: "first_row (map_option f r # rs) = (case r of Some x \<Rightarrow> f x | None \<Rightarrow> first_row rs)"
  by (cases r) simp_all

lemma clean_of_idem [simp]: "clean_of (clean_of d) = clean_of d"
  using clean_of_facts [of d] by (simp add: clean_of_def trim_end_char_id)

text \<open>What a decision never touches.\<close>

definition same_config :: "rules \<Rightarrow> rules \<Rightarrow> bool" where
  "same_config s s' \<longleftrightarrow> blocking_enabled s' = blocking_enabled s \<and> threat_bloom s' = threat_bloom s \<and>
     whitelist_bloom s' = whitelist_bloom s \<and> whitelist_exact s' = whitelist_exact s \<and>
     whitelist_wildcards s' = whitelist_wildcards s \<and> custom_bypasslist s' = custom_bypasslist s \<and>
     instant_block_enabled s' = instant_block_enabled s \<and> instant_block_domains s' = instant_block_domains s \<and>
     instant_block_wildcards s' = instant_block_wildcards s \<and> instant_block_sources s' = instant_block_sources s \<and>
     schedule_rules s' = schedule_rules s"

lemma same_config_refl [simp]: "same_config s s"
  by (simp add: same_config_def)

lemma same_config_trans: "same_config s s' \<Longrightarrow> same_config s' s'' \<Longrightarrow> same_config s s''"
  by (simp add: same_config_def)

named_theorems step_frame

lemma frame_whitelist [step_frame]: "same_config s (record_detected_whitelist d s) \<and>
    custom_blocklist (record_detected_whitelist d s) = custom_blocklist s \<and>
    fast_neg_filter (record_detected_whitelist d s) = fast_neg_filter s \<and>
    the_brain (record_detected_whitelist d s) = the_brain s"
  by (simp add: record_detected_whitelist_def same_config_def Let_def)

lemma frame_block [step_frame]: "same_config s (record_detected_block order fk d reason now s) \<and>
    custom_whitelist (record_detected_block order fk d reason now s) = custom_whitelist s \<and>
    fast_neg_filter (record_detected_block order fk d reason now s) = fast_neg_filter s"
  by (simp add: record_detected_block_def same_config_def Let_def)

lemma frame_known [step_frame]:
  "fst (block_known order fk clean reason action now s) = (True, True, reason) \<and>
   same_config s (snd (block_known order fk clean reason action now s)) \<and>
   custom_whitelist (snd (block_known order fk clean reason action now s)) = custom_whitelist s \<and>
   fast_neg_filter (snd (block_known order fk clean reason action now s)) = (fast_neg_filter s)(clean \<mapsto> (reason, True))"
  by (simp add: block_known_def remember_negative_def record_detected_block_def log_action_def same_config_def Let_def)

lemma frame_heuristic [step_frame]:
  "fst (block_heuristic order fk clean reason score why pf action anomaly err now s) = (True, True, reason) \<and>
   same_config s (snd (block_heuristic order fk clean reason score why pf action anomaly err now s)) \<and>
   custom_whitelist (snd (block_heuristic order fk clean reason score why pf action anomaly err now s)) = custom_whitelist s \<and>
   fast_neg_filter (snd (block_heuristic order fk clean reason score why pf action anomaly err now s)) = fast_neg_filter s"
  by (simp add: block_heuristic_def record_detected_block_def log_action_def log_anomaly_def same_config_def Let_def split: prod.split)

text \<open>The blocklist behind each way to block.\<close>

lemma block_list_known: "custom_blocklist (snd (block_known order fk clean reason action now s)) =
    custom_blocklist (record_detected_block order fk clean reason now s)"
  by (simp add: block_known_def remember_negative_def record_detected_block_def log_action_def Let_def)

lemma block_list_heuristic:
  "custom_blocklist (snd (block_heuristic order fk clean reason score why pf action anomaly err now s)) =
    custom_blocklist (record_detected_block order fk clean reason now s)"
  by (simp add: block_heuristic_def record_detected_block_def log_action_def log_anomaly_def Let_def split: prod.split)

text \<open>A block of \<open>d\<close> that is remembered, in the negative filter and in the list.\<close>

definition blocked_as :: "order \<Rightarrow> iq_order \<Rightarrow> nat \<Rightarrow> rules \<Rightarrow> string \<Rightarrow> string \<Rightarrow> verdict \<times> rules \<Rightarrow> bool" where
  "blocked_as order fk now s d reason r \<longleftrightarrow> fst r = (True, True, reason) \<and> same_config s (snd r) \<and>
     custom_whitelist (snd r) = custom_whitelist s \<and>
     fast_neg_filter (snd r) = (fast_neg_filter s)(d \<mapsto> (reason, True)) \<and>
     (\<exists>u. custom_blocklist u = custom_blocklist s \<and>
        custom_blocklist (snd r) = custom_blocklist (record_detected_block order fk d reason now u))"

lemma heuristic_blocks:
  assumes "same_config s t" "custom_whitelist t = custom_whitelist s" "custom_blocklist t = custom_blocklist s"
    "fast_neg_filter t = (fast_neg_filter s)(d \<mapsto> (reason, True))"
  shows "blocked_as order fk now s d reason (block_heuristic order fk d reason score why pf act anomaly err now t)"
  unfolding blocked_as_def
  using frame_heuristic [of order fk d reason score why pf act anomaly err now t]
    block_list_heuristic [of order fk d reason score why pf act anomaly err now t] assms same_config_trans by metis

lemma known_blocks: "blocked_as order fk now s d reason (block_known order fk d reason act now s)"
  unfolding blocked_as_def using frame_known [of order fk d reason act now s] block_list_known [of order fk d reason act now s]
  by blast

definition heuristic_rows :: "rules \<Rightarrow> string \<Rightarrow> row list" where
  "heuristic_rows s d =
    [row_when (is_lookalike_threat d) (True, True, ''lookalike_threat''),
     row_when (is_dga_threat d) (True, True, ''DGA''),
     row_when (is_c2_or_miner_threat d) (True, True, ''c2_miner_threat''),
     row_when (fst (evaluate_internal (the_brain s) d) > 90 / 100) (True, True, snd (evaluate_internal (the_brain s) d))]"

lemma heuristics_outcome:
  "fst (check_heuristics order fk fmt d now s) = first_row (heuristic_rows s d) \<and>
   (if fst (first_row (heuristic_rows s d))
    then blocked_as order fk now s d (snd (snd (first_row (heuristic_rows s d)))) (check_heuristics order fk fmt d now s)
    else snd (check_heuristics order fk fmt d now s) = s\<lparr>the_brain := snd (evaluate (the_brain s) d)\<rparr>)"
proof (cases "is_lookalike_threat d \<or> is_dga_threat d \<or> is_c2_or_miner_threat d")
  case True
  have "blocked_as order fk now s d (snd (snd (first_row (heuristic_rows s d)))) (check_heuristics order fk fmt d now s)"
    using True unfolding check_heuristics_def heuristic_rows_def Let_def
    by (auto intro!: heuristic_blocks simp: remember_negative_def same_config_def simp del: first_row.simps)
  then show ?thesis using True by (auto simp: blocked_as_def heuristic_rows_def)
next
  case False
  then have f: "\<not> is_lookalike_threat d" "\<not> is_dga_threat d" "\<not> is_c2_or_miner_threat d" by simp_all
  obtain score v where e: "evaluate_internal (the_brain s) d = (score, v)" by fastforce
  show ?thesis
  proof (cases "score > 90 / 100")
    case True
    then have r: "first_row (heuristic_rows s d) = (True, True, v)" by (simp add: heuristic_rows_def f e)
    have "blocked_as order fk now s d v (check_heuristics order fk fmt d now s)"
      using True f unfolding check_heuristics_def evaluate_def e Let_def
      by (auto intro!: heuristic_blocks simp: remember_negative_def same_config_def)
    then show ?thesis unfolding r by (simp add: blocked_as_def)
  next
    case n: False
    then have "first_row (heuristic_rows s d) = (False, False, ''none'')" by (simp add: heuristic_rows_def f e)
    with n show ?thesis by (simp add: check_heuristics_def f evaluate_def e)
  qed
qed

section \<open>The decision\<close>

text \<open>The decision with the filters read as sets.\<close>

lemma check_domain_form:
  assumes "filters_ok s"
  shows "check_domain order fk fmt domain now s = ret (
    if \<not> blocking_enabled s then ((False, False, ''none''), s)
    else let d = clean_of domain in
    if is_bypassed s d then ((False, False, ''bypassed''), s)
    else if is_instant_blocked s d then
      ((True, True, ''instant_shield_block''), log_action ''instant_shield_block'' d now
         (record_detected_block order fk d ''instant_shield_block'' now (s\<lparr>threat_blocks := threat_blocks s + 1\<rparr>)))
    else if is_exact_whitelisted s d then ((False, False, ''whitelisted''), record_detected_whitelist d s)
    else (case fast_neg_filter s d of
       Some (reason, nx) \<Rightarrow> ((True, nx, reason), s\<lparr>threat_blocks := threat_blocks s + 1, fast_neg_hits := fast_neg_hits s + 1\<rparr>)
     | None \<Rightarrow>
       if is_blocked_now (schedule_rules s) d (now div 1000) \<noteq> None then
         ((True, False, ''schedule_block''), remember_negative d ''schedule_block'' False
            (s\<lparr>threat_blocks := threat_blocks s + 1, schedule_blocks := schedule_blocks s + 1\<rparr>))
       else (case exact_reason s d of
          Some reason \<Rightarrow> block_known order fk d reason (if reason = ''threat_feed_abir'' then ''feed_block'' else ''custom_block'') now s
        | None \<Rightarrow>
          if white_listed s d then ((False, False, ''whitelist_feed''), record_detected_whitelist d s)
          else (case is_wildcard_custom_blocked order s d of
             Some reason \<Rightarrow> block_known order fk d reason ''custom_block'' now s
           | None \<Rightarrow>
             if threat_listed s d then block_known order fk d ''threat_feed_abir'' ''feed_block'' now s
             else check_heuristics order fk fmt d now s))))"
  by (cases "is_blocked_now (schedule_rules s) (clean_of domain) (now div 1000)"; cases "exact_reason s (clean_of domain)";
      cases "is_wildcard_custom_blocked order s (clean_of domain)"; cases "fast_neg_filter s (clean_of domain)")
    (simp_all add: check_domain_def lookups_total [OF assms] Let_def split: prod.split)

definition decided :: "order \<Rightarrow> rules \<Rightarrow> string \<Rightarrow> nat \<Rightarrow> verdict" where
  "decided order s domain now =
    (if blocking_enabled s then first_row (decision_table order s (clean_of domain) now) else (False, False, ''none''))"

lemma table_heuristic_rows: "decision_table order s d now =
    [row_when (is_bypassed s d) (False, False, ''bypassed''),
     row_when (is_instant_blocked s d) (True, True, ''instant_shield_block''),
     row_when (is_exact_whitelisted s d) (False, False, ''whitelisted''),
     map_option (\<lambda>(reason, nx). (True, nx, reason)) (fast_neg_filter s d),
     row_when (is_blocked_now (schedule_rules s) d (now div 1000) \<noteq> None) (True, False, ''schedule_block''),
     map_option (\<lambda>reason. (True, True, reason)) (exact_reason s d),
     row_when (white_listed s d) (False, False, ''whitelist_feed''),
     map_option (\<lambda>reason. (True, True, reason)) (is_wildcard_custom_blocked order s d),
     row_when (threat_listed s d) (True, True, ''threat_feed_abir'')] @ heuristic_rows s d"
  by (simp add: decision_table_def heuristic_rows_def)

lemma check_verdict:
  "filters_ok s \<Longrightarrow> \<exists>s'. check_domain order fk fmt domain now s = ret (decided order s domain now, s')"
  using heuristics_outcome [of order fk fmt "clean_of domain" now s] known_blocks
  by (simp add: check_domain_form decided_def table_heuristic_rows blocked_as_def Let_def prod_eq_iff
      split: option.split prod.split)

lemma blocked_agrees:
  assumes "filters_ok s" and "is_blocked_now (schedule_rules s) (clean_of domain) (now div 1000) = None"
  shows "is_domain_blocked order s domain = ret (fst (decided order s domain now))"
  unfolding is_domain_blocked_def decided_def decision_table_def Let_def lookups_total [OF assms(1)]
  by (simp add: assms(2) split: option.split)

text \<open>What a decision leaves of the state.\<close>

definition after_decision :: "verdict \<Rightarrow> rules \<Rightarrow> rules \<Rightarrow> bool" where
  "after_decision v s s' \<longleftrightarrow> same_config s s' \<and>
     (if fst v then custom_whitelist s' = custom_whitelist s
      else custom_blocklist s' = custom_blocklist s \<and> fast_neg_filter s' = fast_neg_filter s)"

lemma check_frame:
  assumes "filters_ok s" and c: "check_domain order fk fmt domain now s = ret (v, s')"
  shows "after_decision v s s'"
proof -
  define d where "d = clean_of domain"
  have known: "after_decision (fst (block_known order fk d reason act now s)) s (snd (block_known order fk d reason act now s))" for reason act
    using frame_known [of order fk d reason act now s] by (simp add: after_decision_def)
  have heur: "after_decision (fst (check_heuristics order fk fmt d now s)) s (snd (check_heuristics order fk fmt d now s))"
    using heuristics_outcome [of order fk fmt d now s]
    by (auto simp: after_decision_def blocked_as_def same_config_def split: if_splits)
  have white: "after_decision (False, x) s (record_detected_whitelist d s)" for x
    using frame_whitelist [of s d] by (simp add: after_decision_def)
  have instant: "after_decision (True, x) s (log_action a d now
      (record_detected_block order fk d r now (s\<lparr>threat_blocks := n\<rparr>)))" for x a r n
    using frame_block [of "s\<lparr>threat_blocks := n\<rparr>" order fk d r now]
    by (simp add: after_decision_def same_config_def log_action_def)
  from c show ?thesis
    unfolding check_domain_form [OF assms(1)] Let_def d_def [symmetric]
    using known heur white instant
    by (auto split: if_splits option.splits prod.splits simp: prod_eq_iff)
      (auto simp: after_decision_def same_config_def remember_negative_def)
qed

section \<open>The blocklist\<close>

definition order_ok :: "order \<Rightarrow> bool" where
  "order_ok order \<longleftrightarrow> (\<forall>m. finite (dom m) \<longrightarrow> set (order m) = {(k, e). m k = Some e})"

definition blocklist_ok :: "(string \<rightharpoonup> block_entry) \<Rightarrow> bool" where
  "blocklist_ok m \<longleftrightarrow> finite (dom m) \<and> card (dom m) \<le> 2500 \<and> (\<forall>k e. m k = Some e \<longrightarrow> be_domain e = k)"

lemma oldest_entry_in: "oldest_entry xs = Some x \<Longrightarrow> x \<in> set xs"
  by (induction xs arbitrary: x) (auto split: option.splits if_splits)

lemma insert_block_ok:
  assumes o: "order_ok order" and m: "blocklist_ok m"
  shows "blocklist_ok (insert_block order d reason now m)" (is ?ok)
    "card (dom m) < 2500 \<Longrightarrow> \<exists>e. insert_block order d reason now m d = Some e \<and> be_domain e = d" (is "_ \<Longrightarrow> ?there")
proof -
  obtain tag src au where k: "entry_kind reason = (tag, src, au)" by (cases "entry_kind reason") auto
  define e where "e = \<lparr>be_domain = d, be_reason = reason, be_source = src, be_tag = tag, be_auto = au, be_created = ms64 now\<rparr>"
  define put where "put g = (case g d of Some _ \<Rightarrow> g | None \<Rightarrow> g(d \<mapsto> e))" for g :: "string \<rightharpoonup> block_entry"
  define old where "old = oldest_entry (filter (\<lambda>(k, v). be_source v \<noteq> ''manual'') (order m))"
  have form: "insert_block order d reason now m =
     (if card (dom m) \<ge> 2000 \<and> d \<notin> dom m then
        (case old of Some (k, _) \<Rightarrow> put (m(k := None)) | None \<Rightarrow> if card (dom m) \<ge> 2500 then m else put m)
      else put m)"
    by (auto simp: insert_block_def Let_def k e_def put_def old_def split: option.split prod.split)
  have put_there: "\<exists>x. put g d = Some x \<and> be_domain x = d" if "blocklist_ok g" for g
    using that by (auto simp: put_def e_def blocklist_ok_def split: option.split)
  have put_ok: "blocklist_ok (put g)" if "blocklist_ok g" "d \<in> dom g \<or> card (dom g) < 2500" for g
    using that by (auto simp: put_def e_def blocklist_ok_def card_insert_if split: option.split)
  have "?ok \<and> (card (dom m) < 2500 \<longrightarrow> ?there)"
  proof (cases "card (dom m) \<ge> 2000 \<and> d \<notin> dom m")
    case full: True
    show ?thesis
    proof (cases old)
      case None
      then show ?thesis using full m put_ok [OF m] put_there [OF m] by (simp add: form)
    next
      case (Some x)
      obtain k v where x: "x = (k, v)" by fastforce
      have "x \<in> set (order m)" using oldest_entry_in Some unfolding old_def by fastforce
      with o m have k: "m k = Some v" by (auto simp: order_ok_def blocklist_ok_def x)
      then have "card (dom (m(k := None))) < card (dom m)"
        using m by (auto simp: blocklist_ok_def intro: card_Diff1_less)
      moreover from this have g: "blocklist_ok (m(k := None))" using m by (auto simp: blocklist_ok_def)
      ultimately have "card (dom (m(k := None))) < 2500" using m by (simp add: blocklist_ok_def)
      then show ?thesis using full put_ok [OF g] put_there [OF g] by (simp add: form Some x)
    qed
  next
    case False
    then have "d \<in> dom m \<or> card (dom m) < 2500" by auto
    then show ?thesis unfolding form if_not_P [OF False] using put_ok [OF m] put_there [OF m] by blast
  qed
  then show ?ok "card (dom m) < 2500 \<Longrightarrow> ?there" by blast+
qed

lemma record_block_ok: "order_ok order \<Longrightarrow> blocklist_ok (custom_blocklist s) \<Longrightarrow>
  blocklist_ok (custom_blocklist (record_detected_block order fk d reason now s))"
  by (simp add: record_detected_block_def insert_block_ok(1) Let_def)

lemma record_block_there:
  assumes "order_ok order" "blocklist_ok (custom_blocklist s)" "card (dom (custom_blocklist s)) < 2500"
    "clean_of d = d" "d \<noteq> []" "reason \<noteq> ''cache''" "reason \<noteq> ''NEG_HIT''"
  shows "\<exists>e. custom_blocklist (record_detected_block order fk d reason now s) d = Some e \<and> be_domain e = d"
  using insert_block_ok(2) [OF assms(1-3), of d reason now] assms(4-)
  by (simp add: record_detected_block_def Let_def)

text \<open>No reason for a block is one of the two that are not recorded.\<close>

definition recorded :: "string \<Rightarrow> bool" where
  "recorded reason \<longleftrightarrow> reason \<noteq> ''cache'' \<and> reason \<noteq> ''NEG_HIT''"

lemma recorded_reasons [simp]: "recorded ''threat_feed_abir''" "recorded ''instant_shield_block''" "recorded ''lookalike_threat''"
    "recorded ''DGA''" "recorded ''c2_miner_threat''" "recorded (block_reason_tag r)"
  by (simp_all add: recorded_def block_reason_tag_def)

lemma recorded_verdict: "recorded (snd (evaluate_internal b d))"
  by (simp add: recorded_def evaluate_internal_def Let_def split: prod.split)

lemma recorded_exact: "exact_reason s d = Some r \<Longrightarrow> recorded r"
  by (auto simp: exact_reason_def split: option.splits if_splits)

lemma recorded_wildcard: "is_wildcard_custom_blocked order s d = Some r \<Longrightarrow> recorded r"
  by (auto simp: is_wildcard_custom_blocked_def Let_def split: option.splits if_splits)

lemma recorded_heuristic: "first_row (heuristic_rows s d) = (True, x, r) \<Longrightarrow> recorded r"
  using recorded_verdict [of "the_brain s" d] by (auto simp: heuristic_rows_def split: if_splits)

lemma block_is_recorded:
  assumes f: "filters_ok s" and c: "check_domain order fk fmt domain now s = ret ((True, True, reason), s')"
    and n: "fast_neg_filter s (clean_of domain) = None"
  shows "recorded reason \<and> (\<exists>u. custom_blocklist u = custom_blocklist s \<and>
    custom_blocklist s' = custom_blocklist (record_detected_block order fk (clean_of domain) reason now u))"
proof -
  define d where "d = clean_of domain"
  have known: "recorded reason \<and> (\<exists>u. custom_blocklist u = custom_blocklist s \<and>
      custom_blocklist s' = custom_blocklist (record_detected_block order fk d reason now u))"
    if "block_known order fk d r act now s = ((True, True, reason), s')" "recorded r" for r act
    using known_blocks [of order fk now s d r act] that by (auto simp: blocked_as_def)
  have heur: "recorded reason \<and> (\<exists>u. custom_blocklist u = custom_blocklist s \<and>
      custom_blocklist s' = custom_blocklist (record_detected_block order fk d reason now u))"
    if h: "check_heuristics order fk fmt d now s = ((True, True, reason), s')"
  proof -
    from heuristics_outcome [of order fk fmt d now s] h have r: "first_row (heuristic_rows s d) = (True, True, reason)" by simp
    from heuristics_outcome [of order fk fmt d now s] recorded_heuristic [OF r] show ?thesis by (simp add: r h blocked_as_def)
  qed
  have instant: "\<exists>u. custom_blocklist u = custom_blocklist s \<and> custom_blocklist (log_action a d now
      (record_detected_block order fk d r now (s\<lparr>threat_blocks := k\<rparr>))) = custom_blocklist (record_detected_block order fk d r now u)" for a r k
    by (rule exI [of _ "s\<lparr>threat_blocks := k\<rparr>"]) (simp add: log_action_def)
  from c n show ?thesis
    unfolding check_domain_form [OF f] Let_def d_def [symmetric]
    using heur
    by (auto split: if_splits option.splits intro: known [OF _ recorded_exact, THEN conjunct1] known [OF _ recorded_exact, THEN conjunct2]
        known [OF _ recorded_wildcard, THEN conjunct1] known [OF _ recorded_wildcard, THEN conjunct2]
        known [OF _ recorded_reasons(1), THEN conjunct1] known [OF _ recorded_reasons(1), THEN conjunct2] instant)
qed

section \<open>Runs\<close>

datatype rules_op = Check string nat | Block string string nat | White string | Forget string
  | Anomaly string string nat | Compile "string list" | Flush

definition rules_step :: "order \<Rightarrow> iq_order \<Rightarrow> (nat \<Rightarrow> real \<Rightarrow> string) \<Rightarrow> (string list \<Rightarrow> string list list) \<Rightarrow> rules_op \<Rightarrow> rules \<Rightarrow> rules rust" where
  "rules_step order fk fmt fetched op s = (case op of
     Check domain now \<Rightarrow> do { (v, s) \<leftarrow> check_domain order fk fmt domain now s; ret s }
   | Block domain reason now \<Rightarrow> ret (record_detected_block order fk domain reason now s)
   | White domain \<Rightarrow> ret (record_detected_whitelist domain s)
   | Forget k \<Rightarrow> ret (forget_negative k s)
   | Anomaly kind err now \<Rightarrow> ret (log_anomaly kind err now s)
   | Compile sources \<Rightarrow> ret (snd (compile_instant_blocklist fetched sources s))
   | Flush \<Rightarrow> ret (flush_negatives s))"

fun rules_run :: "order \<Rightarrow> iq_order \<Rightarrow> (nat \<Rightarrow> real \<Rightarrow> string) \<Rightarrow> (string list \<Rightarrow> string list list) \<Rightarrow> rules_op list \<Rightarrow> rules \<Rightarrow> rules rust" where
  "rules_run order fk fmt fetched [] s = ret s"
| "rules_run order fk fmt fetched (op # ops) s = do { s \<leftarrow> rules_step order fk fmt fetched op s; rules_run order fk fmt fetched ops s }"

definition tables_ok :: "rules \<Rightarrow> bool" where
  "tables_ok s \<longleftrightarrow> brain_inv (the_brain s) \<and> blocklist_ok (custom_blocklist s) \<and> finite (custom_whitelist s) \<and>
     length (recent_actions s) \<le> 100 \<and> length (recent_anomalies s) \<le> 100"

definition keeps_tables :: "rules \<Rightarrow> rules \<Rightarrow> bool" where
  "keeps_tables s s' \<longleftrightarrow> (tables_ok s \<longrightarrow> tables_ok s') \<and>
     (finite (custom_whitelist s) \<longrightarrow> finite (custom_whitelist s') \<and> card (custom_whitelist s') \<le> max 500 (card (custom_whitelist s)))"

lemma keeps_trans: "keeps_tables s t \<Longrightarrow> keeps_tables t u \<Longrightarrow> keeps_tables s u"
  by (auto simp: keeps_tables_def)

lemma keeps_refl: "keeps_tables s s"
  by (simp add: keeps_tables_def)

definition fk_ok :: "iq_order \<Rightarrow> bool" where
  "fk_ok fk \<longleftrightarrow> (\<forall>m. finite (dom m) \<longrightarrow> dom m \<noteq> {} \<longrightarrow> fk m \<in> dom m)"

lemma train_ok: "fk_ok fk \<Longrightarrow> brain_inv b \<Longrightarrow> brain_inv (train fk d t rc now b)"
proof -
  assume fk: "fk_ok fk" and b: "brain_inv b"
  have "Min (dom m) \<in> dom m" if "finite (dom m)" "dom m \<noteq> {}" for m :: "string \<rightharpoonup> string \<rightharpoonup> u32"
    using that by (rule Min_in)
  from brain_run_inv [OF b, of fk, OF _ this, where op = "Train d t rc now"] fk show ?thesis by (simp add: fk_ok_def)
qed

lemma brain_log_ok: "brain_inv b \<Longrightarrow> brain_inv (record_decision d e sc fs a r p now b)"
  "brain_inv b \<Longrightarrow> brain_inv (snd (evaluate b d))"
  by (simp_all add: brain_inv_def record_decision_def evaluate_def Let_def)

lemma push_log_bound: "length l \<le> 100 \<Longrightarrow> length (push_log t k x l) \<le> 100"
  by (auto simp: push_log_def Let_def)

lemma keeps_white: "keeps_tables s (record_detected_whitelist d s)"
  by (auto simp: keeps_tables_def tables_ok_def record_detected_whitelist_def Let_def card_insert_if)

lemma keeps_block: "order_ok order \<Longrightarrow> fk_ok fk \<Longrightarrow> keeps_tables s (record_detected_block order fk d r now s)"
  by (simp add: keeps_tables_def tables_ok_def record_detected_block_def Let_def train_ok insert_block_ok(1))

lemma keeps_log: "keeps_tables s (log_action a d now s)" "keeps_tables s (log_anomaly a d now s)"
  by (simp_all add: keeps_tables_def tables_ok_def log_action_def log_anomaly_def push_log_bound)

lemma keeps_counters: "custom_whitelist t = custom_whitelist s \<Longrightarrow> custom_blocklist t = custom_blocklist s \<Longrightarrow>
    recent_actions t = recent_actions s \<Longrightarrow> recent_anomalies t = recent_anomalies s \<Longrightarrow>
    brain_inv (the_brain s) \<longrightarrow> brain_inv (the_brain t) \<Longrightarrow> keeps_tables s t"
  by (simp add: keeps_tables_def tables_ok_def)

lemma keeps_known: "order_ok order \<Longrightarrow> fk_ok fk \<Longrightarrow> keeps_tables s (snd (block_known order fk d r act now s))"
  unfolding block_known_def Let_def snd_conv
  by (rule keeps_trans [OF _ keeps_log(1)], rule keeps_trans [OF _ keeps_block], rule keeps_counters)
    (simp_all add: remember_negative_def)

lemma keeps_heuristic:
  assumes "order_ok order" "fk_ok fk" and t: "keeps_tables s t"
  shows "keeps_tables s (snd (block_heuristic order fk d r sc why pf act anomaly err now t))"
proof -
  obtain fs ent where e: "extract_features (the_brain t) d = (fs, ent)" by fastforce
  show ?thesis
    unfolding block_heuristic_def Let_def e prod.case snd_conv
    by (rule keeps_trans [OF t], rule keeps_trans [OF _ keeps_log(2)], rule keeps_trans [OF _ keeps_log(1)],
        rule keeps_trans [OF _ keeps_block [OF assms(1,2)]], rule keeps_counters) (simp_all add: brain_log_ok)
qed

lemma keeps_heuristics:
  assumes "order_ok order" "fk_ok fk"
  shows "keeps_tables s (snd (check_heuristics order fk fmt d now s))"
proof -
  obtain sc v where e: "evaluate_internal (the_brain s) d = (sc, v)" by fastforce
  have "brain_inv (the_brain s) \<longrightarrow> brain_inv (the_brain s\<lparr>decisions_made := decisions_made (the_brain s) + 1\<rparr>)"
    by (simp add: brain_inv_def)
  then show ?thesis
    unfolding check_heuristics_def Let_def evaluate_def e prod.case
    by (auto intro!: keeps_heuristic [OF assms] keeps_counters simp: remember_negative_def)
qed

lemma keeps_check:
  assumes o: "order_ok order" "fk_ok fk" and f: "filters_ok s" and c: "check_domain order fk fmt domain now s = ret (v, s')"
  shows "keeps_tables s s'"
proof -
  define d where "d = clean_of domain"
  have c0: "keeps_tables s t" if "t \<in> {s, s\<lparr>threat_blocks := a, fast_neg_hits := b\<rparr>, s\<lparr>threat_blocks := a\<rparr>,
      remember_negative d r nx (s\<lparr>threat_blocks := a, schedule_blocks := b\<rparr>)}" for t a b r nx
    using that by (auto intro!: keeps_counters simp: remember_negative_def)
  have instant: "keeps_tables s (log_action a d now (record_detected_block order fk d r now (s\<lparr>threat_blocks := n\<rparr>)))" for a r n
    by (rule keeps_trans [OF _ keeps_log(1)], rule keeps_trans [OF _ keeps_block [OF o]], rule keeps_counters) simp_all
  note known = keeps_known [OF o, of s d] and heur = keeps_heuristics [OF o, of s fmt d now]
  have eq: "keeps_tables s s'" if "p = (v, s')" "keeps_tables s (snd p)" for p :: "verdict \<times> rules"
    using that by simp
  from c show ?thesis
    unfolding check_domain_form [OF f] Let_def d_def [symmetric]
    by (auto split: if_splits option.splits intro: keeps_refl c0 instant keeps_white eq [OF _ known] eq [OF _ heur])
qed

lemma config_facts: "same_config s s' \<Longrightarrow> filters_ok s' = filters_ok s \<and>
    custom_bypasslist s' = custom_bypasslist s \<and> whitelist_exact s' = whitelist_exact s"
  by (simp add: same_config_def filters_ok_def)

lemma rules_step_ok:
  assumes o: "order_ok order" "fk_ok fk" and f: "filters_ok s"
  shows "\<exists>s'. rules_step order fk fmt fetched op s = ret s' \<and> filters_ok s' \<and> keeps_tables s s' \<and>
    custom_bypasslist s' = custom_bypasslist s \<and> whitelist_exact s' = whitelist_exact s"
proof (cases op)
  case (Check domain now)
  from check_verdict [OF f] obtain s' where c: "check_domain order fk fmt domain now s = ret (decided order s domain now, s')" by blast
  from check_frame [OF f c] have "same_config s s'" by (simp add: after_decision_def)
  from config_facts [OF this] keeps_check [OF o f c] f show ?thesis by (simp add: rules_step_def Check c)
next
  case (Block domain reason now)
  then show ?thesis using config_facts [OF frame_block [THEN conjunct1]] keeps_block [OF o] f
    by (simp add: rules_step_def)
next
  case (White domain)
  then show ?thesis using config_facts [OF frame_whitelist [THEN conjunct1]] keeps_white f
    by (simp add: rules_step_def)
next
  case (Anomaly kind err now)
  then show ?thesis using keeps_log(2) f by (simp add: rules_step_def) (simp add: log_anomaly_def filters_ok_def)
next
  case (Compile sources)
  have "keeps_tables s (snd (compile_instant_blocklist fetched sources s))"
    by (rule keeps_counters) (simp_all add: compile_form Let_def split: prod.split)
  then show ?thesis using f Compile
    by (simp add: rules_step_def) (simp add: compile_form filters_ok_def Let_def split: prod.split)
qed (use f in \<open>simp_all add: rules_step_def forget_negative_def flush_negatives_def filters_ok_def keeps_counters\<close>)

lemma rules_run_ok:
  assumes o: "order_ok order" "fk_ok fk"
  shows "filters_ok s \<Longrightarrow> \<exists>s'. rules_run order fk fmt fetched ops s = ret s' \<and> filters_ok s' \<and> keeps_tables s s' \<and>
    custom_bypasslist s' = custom_bypasslist s \<and> whitelist_exact s' = whitelist_exact s"
proof (induction ops arbitrary: s)
  case Nil
  then show ?case by (simp add: keeps_tables_def)
next
  case (Cons op ops)
  from rules_step_ok [OF o Cons.prems] obtain t where t: "rules_step order fk fmt fetched op s = ret t" "filters_ok t"
    "keeps_tables s t" "custom_bypasslist t = custom_bypasslist s" "whitelist_exact t = whitelist_exact s" by blast
  from Cons.IH [OF t(2)] keeps_trans [OF t(3)] t show ?case by auto
qed

section \<open>Properties\<close>

text \<open>
  C14: The decision. With filters that are well formed no check of a name panics, and its verdict is
  the first row of the table that applies: bypass, instant shield, exact whitelist, negative
  filter, schedule, exact block, whitelist by wildcard or feed, block by wildcard, threat feed,
  look-alike, generated name, miner, score above 0.9. The read-only check gives the same answer
  whenever no schedule rule is active for the name. A decision changes none of the configured
  lists; an allowed name leaves the block list and the negative filter as they were, a blocked
  name the whitelist.
\<close>

theorem check_domain_spec:
  assumes f: "filters_ok s"
  shows "\<exists>s'. check_domain order fk fmt domain now s = ret (decided order s domain now, s') \<and>
    same_config s s' \<and>
    (if fst (decided order s domain now) then custom_whitelist s' = custom_whitelist s
     else custom_blocklist s' = custom_blocklist s \<and> fast_neg_filter s' = fast_neg_filter s) \<and>
    (is_blocked_now (schedule_rules s) (clean_of domain) (now div 1000) = None \<longrightarrow>
      is_domain_blocked order s domain = ret (fst (decided order s domain now)))"
proof -
  from check_verdict [OF f] obtain s' where c: "check_domain order fk fmt domain now s = ret (decided order s domain now, s')" by blast
  from check_frame [OF f c] blocked_agrees [OF f] show ?thesis by (auto simp: c after_decision_def)
qed


text \<open>
  C17: Runs. Any sequence of checks, recorded blocks and whitelistings, expiries of the negative
  filter, anomaly reports, compilations of sources and flushes runs without a panic. The block
  list stays within 2500 names stored under themselves, the two logs within 100 entries and the
  learner within its bounds; automatic entries never push the whitelist beyond 500 (or beyond
  what an administrator had put there), and nothing touches the bypass list.
\<close>

theorem rules_run_spec:
  assumes o: "order_ok order" and fk: "fk_ok fk" and f: "filters_ok s" and t: "tables_ok s"
  shows "\<exists>s'. rules_run order fk fmt fetched ops s = ret s' \<and> filters_ok s' \<and> tables_ok s' \<and>
    card (custom_whitelist s') \<le> max 500 (card (custom_whitelist s)) \<and>
    custom_bypasslist s' = custom_bypasslist s \<and> whitelist_exact s' = whitelist_exact s"
proof -
  from rules_run_ok [OF o fk f] obtain s' where s': "rules_run order fk fmt fetched ops s = ret s'" "filters_ok s'"
    "keeps_tables s s'" "custom_bypasslist s' = custom_bypasslist s" "whitelist_exact s' = whitelist_exact s" by blast
  moreover have "finite (custom_whitelist s)" using t by (simp add: tables_ok_def)
  ultimately show ?thesis using t by (auto simp: keeps_tables_def)
qed

subsection \<open>Witnesses\<close>

definition sorted_order :: order where
  "sorted_order m = map (\<lambda>k. (k, the (m k))) (sorted_list_of_set (dom m))"

lemma sorted_order_ok: "order_ok sorted_order"
  by (auto simp: order_ok_def sorted_order_def image_iff dom_def)

lemma no_rules_ok: "filters_ok (no_rules\<lparr>custom_bypasslist := b, instant_block_domains := ds\<rparr>)"
    "tables_ok (no_rules\<lparr>custom_bypasslist := b, instant_block_domains := ds\<rparr>)"
  by (simp_all add: filters_ok_def no_rules_def bloom_ok_def empty_filter_def tables_ok_def blocklist_ok_def brain_inv_def
      brain_new_def weights_ok_def transitions_ok_def)

theorem check_domain_spec_witness:
  "\<exists>s'. check_domain sorted_order (\<lambda>m. Min (dom m)) (\<lambda>n x. []) ''Ads.com.'' 0 (no_rules\<lparr>custom_bypasslist := {''ads.com''}, instant_block_domains := {''ads.com''}\<rparr>)
     = ret ((False, False, ''bypassed''), s')"
proof -
  let ?s = "no_rules\<lparr>custom_bypasslist := {''ads.com''}, instant_block_domains := {''ads.com''}\<rparr>"
  have c: "clean_of ''Ads.com.'' = ''ads.com''" by code_simp
  have "clean_of ''ads.com'' = ''ads.com''" by code_simp
  then have "is_bypassed ?s ''ads.com''" by (simp add: is_bypassed_def)
  then have "decided sorted_order ?s ''Ads.com.'' 0 = (False, False, ''bypassed'')"
    by (simp add: decided_def c decision_table_def) (simp add: no_rules_def)
  with check_domain_spec [OF no_rules_ok(1), of sorted_order "\<lambda>m. Min (dom m)" "\<lambda>n x. []" "''Ads.com.''" 0 "{''ads.com''}" "{''ads.com''}"]
  show ?thesis by (simp del: no_rules_ok) blast
qed


theorem rules_run_spec_witness:
  "\<exists>s'. rules_run sorted_order (\<lambda>m. Min (dom m)) (\<lambda>n x. []) (\<lambda>us. []) [Check ''a.b'' 0, White ''c.d'', Flush]
       (no_rules\<lparr>custom_bypasslist := {}, instant_block_domains := {}\<rparr>) = ret s' \<and> tables_ok s'"
proof -
  have "fk_ok (\<lambda>m. Min (dom m))" by (simp add: fk_ok_def)
  from rules_run_spec [OF sorted_order_ok this no_rules_ok, of "\<lambda>n x. []" "\<lambda>us. []" "[Check ''a.b'' 0, White ''c.d'', Flush]" "{}" "{}"]
  show ?thesis by blast
qed

end
