(* ===== verification/Dnssec_Order.thy ===== *)
theory Dnssec_Order
  imports Pattern "HOL-Library.List_Lexorder"
begin

text \<open>
  Names and hashes in order, \<open>src/src/dns/dnssec.rs\<close>: the canonical order of domain names,
  the intervals of NSEC and NSEC3 records and the type bit maps. Byte strings compare as
  Rust slices do, which is the lexicographic order of \<open>List_Lexorder\<close> on bytes.

  The interface \<open>cyclic_chain\<close> states what an interval test promises about three points of
  a ring; from it follows that the records of a whole ring deny exactly the points that are
  not on it. Both kinds of record interpret it.
\<close>

section \<open>The canonical order\<close>

datatype ordering = Less | Equal | Greater

definition cmp :: "'a::linorder \<Rightarrow> 'a \<Rightarrow> ordering" where
  "cmp a b = (if a < b then Less else if a = b then Equal else Greater)"

definition label_bytes :: "string \<Rightarrow> bytes list" where
  "label_bytes s = map (map char_byte) (split_char CHR ''.'' s)"

text \<open>The two indices run down from the ends of the label lists.\<close>

fun cmp_loop :: "bytes list \<Rightarrow> bytes list \<Rightarrow> nat \<Rightarrow> nat \<Rightarrow> ordering" where
  "cmp_loop la lb (Suc i) (Suc j) = (if la ! i \<noteq> lb ! j then cmp (la ! i) (lb ! j) else cmp_loop la lb i j)"
| "cmp_loop la lb i j = cmp (length la) (length lb)"

definition lower_name :: "string \<Rightarrow> string" where
  "lower_name a = to_ascii_lowercase (trim_end_char CHR ''.'' a)"

definition canonical_name_cmp :: "string \<Rightarrow> string \<Rightarrow> ordering" where
  "canonical_name_cmp a b = (
     let clean_a = lower_name a; clean_b = lower_name b in
     if clean_a = clean_b then Equal
     else let la = label_bytes clean_a; lb = label_bytes clean_b in cmp_loop la lb (length la) (length lb))"

definition eq_ignore_ascii_case :: "string \<Rightarrow> string \<Rightarrow> bool" where
  "eq_ignore_ascii_case a b \<longleftrightarrow> to_ascii_lowercase a = to_ascii_lowercase b"

section \<open>NSEC and NSEC3\<close>

text \<open>
  The loop of \<open>type_bit_maps_contain_type\<close>; \<open>target_window\<close>, \<open>target_offset\<close> and
  \<open>target_bit\<close> come from the type.
\<close>

function bitmap_loop :: "bytes \<Rightarrow> u8 \<Rightarrow> nat \<Rightarrow> nat \<Rightarrow> nat \<Rightarrow> bool rust" where
  "bitmap_loop bitmaps target_window target_offset target_bit pos =
    (if pos + 2 \<le> length bitmaps then
       (let window = bitmaps ! pos; len = unat (bitmaps ! (pos + 1)); pos = pos + 2 in
        if pos + len > length bitmaps then ret False
        else if window = target_window then
          (if target_offset < len then do {
             byte \<leftarrow> rd bitmaps (pos + target_offset);
             ret (byte AND push_bit target_bit 1 \<noteq> 0) }
           else ret False)
        else bitmap_loop bitmaps target_window target_offset target_bit (pos + len))
     else ret False)"
  by pat_completeness auto
termination
  by (relation "measure (\<lambda>(bitmaps, w, off, b, pos). length bitmaps - pos)") auto

declare bitmap_loop.simps [simp del]

definition type_bit_maps_contain_type :: "bytes \<Rightarrow> u16 \<Rightarrow> bool rust" where
  "type_bit_maps_contain_type bitmaps qtype =
     bitmap_loop bitmaps (ucast (qtype div 256)) (unat (qtype mod 256 div 8)) (7 - unat (qtype mod 256 mod 8)) 0"

record nsec_record =
  ns_name :: string
  next_domain_name :: string
  ns_bit_maps :: bytes

definition nsec_has_type :: "nsec_record \<Rightarrow> u16 \<Rightarrow> bool rust" where
  "nsec_has_type r qtype = type_bit_maps_contain_type (ns_bit_maps r) qtype"

definition nsec_matches :: "nsec_record \<Rightarrow> string \<Rightarrow> bool" where
  "nsec_matches r qname = eq_ignore_ascii_case (trim_end_char CHR ''.'' (ns_name r)) (trim_end_char CHR ''.'' qname)"

definition nsec_covers :: "nsec_record \<Rightarrow> string \<Rightarrow> bool" where
  "nsec_covers r qname = (
     let q = trim_end_char CHR ''.'' qname;
         owner = trim_end_char CHR ''.'' (ns_name r);
         nxt = trim_end_char CHR ''.'' (next_domain_name r) in
     if eq_ignore_ascii_case owner nxt then False
     else if canonical_name_cmp owner nxt = Less
     then canonical_name_cmp owner q = Less \<and> canonical_name_cmp q nxt = Less
     else canonical_name_cmp q owner = Greater \<or> canonical_name_cmp q nxt = Less)"

definition nsec3_hash_covers :: "bytes \<Rightarrow> bytes \<Rightarrow> bytes \<Rightarrow> bool" where
  "nsec3_hash_covers owner_hash next_hash target_hash =
    (if owner_hash = [] \<or> next_hash = [] \<or> target_hash = [] then False
     else if owner_hash < next_hash then owner_hash < target_hash \<and> target_hash < next_hash
     else target_hash > owner_hash \<or> target_hash < next_hash)"

record nsec3_record =
  n3_name :: string
  hash_algorithm :: u8
  n3_flags :: u8
  iterations :: u16
  salt :: bytes
  next_hashed_owner :: bytes
  next_hashed_owner_b32 :: string
  n3_bit_maps :: bytes
  owner_hash :: bytes

definition is_opt_out :: "nsec3_record \<Rightarrow> bool" where
  "is_opt_out r \<longleftrightarrow> n3_flags r AND 0x01 \<noteq> 0"

definition nsec3_has_type :: "nsec3_record \<Rightarrow> u16 \<Rightarrow> bool rust" where
  "nsec3_has_type r qtype = type_bit_maps_contain_type (n3_bit_maps r) qtype"

definition matches_hash :: "nsec3_record \<Rightarrow> bytes \<Rightarrow> bool" where
  "matches_hash r hashed_name \<longleftrightarrow> owner_hash r = hashed_name"

definition covers_hash :: "nsec3_record \<Rightarrow> bytes \<Rightarrow> bool" where
  "covers_hash r hashed_name = nsec3_hash_covers (owner_hash r) (next_hashed_owner r) hashed_name"

section \<open>The order is the lexicographic order of the reversed labels\<close>

definition name_key :: "string \<Rightarrow> bytes list" where
  "name_key a = rev (label_bytes (lower_name a))"

lemma Nil_less: "[] < (xs :: 'a::linorder list) \<longleftrightarrow> xs \<noteq> []"
  by (cases xs) auto

lemma cmp_loop_lex:
  "i \<le> length la \<Longrightarrow> j \<le> length lb \<Longrightarrow> length la - i = length lb - j \<Longrightarrow>
   cmp_loop la lb i j = cmp (rev (take i la)) (rev (take j lb))"
proof (induction la lb i j rule: cmp_loop.induct)
  case (1 la lb i j)
  then show ?case by (auto simp: take_Suc_conv_app_nth cmp_def)
qed (auto simp: cmp_def Nil_less)

lemma label_bytes_inject: "label_bytes a = label_bytes b \<longleftrightarrow> a = b"
proof
  assume "label_bytes a = label_bytes b"
  moreover have "inj (map char_byte)"
    by (rule inj_mapI) (metis injI byte_char_char_byte)
  ultimately have "split_char CHR ''.'' a = split_char CHR ''.'' b"
    unfolding label_bytes_def by (simp add: inj_map_eq_map)
  then show "a = b" by (metis join_split)
qed simp

lemma canonical_cmp_key: "canonical_name_cmp a b = cmp (name_key a) (name_key b)"
proof -
  have "label_bytes (lower_name a) \<noteq> label_bytes (lower_name b)" if "lower_name a \<noteq> lower_name b"
    using that by (simp add: label_bytes_inject)
  then show ?thesis
    by (auto simp: canonical_name_cmp_def name_key_def Let_def cmp_loop_lex cmp_def label_bytes_inject)
qed

lemma name_key_eq: "name_key a = name_key b \<longleftrightarrow> lower_name a = lower_name b"
  by (simp add: name_key_def label_bytes_inject)

lemma lower_name_trim [simp]: "lower_name (trim_end_char CHR ''.'' a) = lower_name a"
  by (simp add: lower_name_def)

lemma name_key_trim [simp]: "name_key (trim_end_char CHR ''.'' a) = name_key a"
  by (simp add: name_key_def)

lemma eq_ignore_trim: "eq_ignore_ascii_case (trim_end_char CHR ''.'' a) (trim_end_char CHR ''.'' b) \<longleftrightarrow> name_key a = name_key b"
  by (simp add: eq_ignore_ascii_case_def name_key_eq lower_name_def)

lemma cmp_simps [simp]: "cmp a b = Less \<longleftrightarrow> a < b" "cmp a b = Greater \<longleftrightarrow> b < a" "cmp a b = Equal \<longleftrightarrow> a = b"
  by (auto simp: cmp_def)

lemma nsec_covers_key: "nsec_covers r q \<longleftrightarrow>
   (let o' = name_key (ns_name r); n = name_key (next_domain_name r) in
    o' \<noteq> n \<and> (if o' < n then o' < name_key q \<and> name_key q < n else o' < name_key q \<or> name_key q < n))"
  by (simp add: nsec_covers_def eq_ignore_trim canonical_cmp_key Let_def)

section \<open>Rings of denial\<close>

text \<open>The links of a ring: every point with the one after it, the last with the first.\<close>

definition links :: "'a list \<Rightarrow> ('a \<times> 'a) list" where
  "links xs = map (\<lambda>i. (xs ! i, if i + 1 < length xs then xs ! (i + 1) else xs ! 0)) [0..<length xs]"

lemma in_links: "(a, b) \<in> set (links xs) \<longleftrightarrow>
    (\<exists>i < length xs. a = xs ! i \<and> b = (if i + 1 < length xs then xs ! (i + 1) else xs ! 0))"
  by (auto simp: links_def)

locale cyclic_chain =
  fixes key :: "'a \<Rightarrow> 'k::linorder" and covers :: "'a \<Rightarrow> 'a \<Rightarrow> 'a \<Rightarrow> bool" and point :: "'a \<Rightarrow> bool"
  assumes between: "point a \<Longrightarrow> point b \<Longrightarrow> point q \<Longrightarrow> key a < key b \<Longrightarrow> covers a b q \<longleftrightarrow> key a < key q \<and> key q < key b"
    and wraps: "point a \<Longrightarrow> point b \<Longrightarrow> point q \<Longrightarrow> key b < key a \<Longrightarrow> covers a b q \<longleftrightarrow> key a < key q \<or> key q < key b"
    and alone: "key a = key b \<Longrightarrow> covers a b q \<Longrightarrow> key q \<noteq> key a"
begin

definition ring :: "'a list \<Rightarrow> bool" where
  "ring xs \<longleftrightarrow> sorted_wrt (\<lambda>a b. key a < key b) xs \<and> (\<forall>x \<in> set xs. point x)"

lemma ring_nth: "ring xs \<Longrightarrow> i < length xs \<Longrightarrow> j < length xs \<Longrightarrow> key (xs ! i) < key (xs ! j) \<longleftrightarrow> i < j"
  unfolding ring_def by (metis linorder_cases order_less_asym' order_less_irrefl sorted_wrt_nth_less)

lemma ring_point: "ring xs \<Longrightarrow> i < length xs \<Longrightarrow> point (xs ! i)"
  by (simp add: ring_def)

lemma denies_only_absent:
  assumes r: "ring xs" and l: "(a, b) \<in> set (links xs)" and q: "point q" and c: "covers a b q"
  shows "key q \<notin> key ` set xs"
proof
  assume "key q \<in> key ` set xs"
  then obtain j where j: "j < length xs" "key q = key (xs ! j)" by (auto simp: in_set_conv_nth)
  from l obtain i where i: "i < length xs" "a = xs ! i" "b = (if i + 1 < length xs then xs ! (i + 1) else xs ! 0)"
    by (auto simp: in_links)
  note lt = ring_nth [OF r]
  show False
  proof (cases "i + 1 < length xs")
    case True
    then have "key a < key b" using i lt by simp
    then have "key a < key (xs ! j) \<and> key (xs ! j) < key b"
      using between [of a b q] c q i True ring_point [OF r] j(2) by simp
    then show False using lt i j(1) True by auto
  next
    case last: False
    show False
    proof (cases "i = 0")
      case True
      then have "a = b" "j = 0" using i last j by simp_all
      with alone [of a b q] c j i True show False by simp
    next
      case False
      moreover have "xs \<noteq> []" using i by auto
      ultimately have "key b < key a" using i last lt [of 0 i] by auto
      then have "key a < key (xs ! j) \<or> key (xs ! j) < key b"
        using wraps [of a b q] c q i last ring_point [OF r] j by (metis gr_implies_not0 neq0_conv)
      moreover have "xs \<noteq> []" using i by auto
      ultimately show False using lt [of i j] lt [of j 0] i j(1) last False by auto
    qed
  qed
qed

lemma denies_all_absent:
  assumes r: "ring xs" and n: "2 \<le> length xs" and q: "point q" and absent: "key q \<notin> key ` set xs"
  shows "\<exists>(a, b) \<in> set (links xs). covers a b q"
proof -
  note lt = ring_nth [OF r]
  define n where "n = length xs"
  have link: "\<exists>(a, b) \<in> set (links xs). covers a b q" if "i < length xs"
      "covers (xs ! i) (if i + 1 < length xs then xs ! (i + 1) else xs ! 0) q" for i
  proof -
    have "(xs ! i, if i + 1 < length xs then xs ! (i + 1) else xs ! 0) \<in> set (links xs)" using that(1) by (auto simp: in_links)
    then show ?thesis by (rule rev_bexI) (use that(2) in simp)
  qed
  show ?thesis
  proof (cases "key q < key (xs ! 0) \<or> key (xs ! (n - 1)) < key q")
    case True
    have l: "n - 1 < length xs" "0 < length xs" "\<not> n - 1 + 1 < length xs" using n n_def by auto
    moreover have "key (xs ! 0) < key (xs ! (n - 1))" using lt [of 0 "n - 1", OF l(2,1)] n n_def by simp
    ultimately have "covers (xs ! (n - 1)) (xs ! 0) q"
      using wraps [of "xs ! (n - 1)" "xs ! 0" q] ring_point [OF r] q True by auto
    with link [of "n - 1"] l show ?thesis by simp
  next
    case False
    define P where "P i \<longleftrightarrow> i < length xs \<and> key q < key (xs ! i)" for i
    have ne: "key q \<noteq> key (xs ! i)" if "i < length xs" for i using absent that by auto
    have p0: "\<not> P 0" using False n by (auto simp: P_def)
    have l: "n - 1 < length xs" using n by (simp add: n_def)
    have pn: "P (n - 1)" using False ne [OF l] l unfolding P_def by force
    from ex_least_nat_less [of P "n - 1", OF pn p0] obtain k where k: "k < n - 1" "\<forall>i \<le> k. \<not> P i" "P (k + 1)" by auto
    then have k': "k < length xs" "k + 1 < length xs" by (auto simp: n_def)
    then have "key (xs ! k) < key q" using k(2) ne [of k] by (auto simp: P_def)
    moreover have "key (xs ! k) < key (xs ! (k + 1))" using lt k' by simp
    ultimately have "covers (xs ! k) (xs ! (k + 1)) q"
      using between [of "xs ! k" "xs ! (k + 1)" q] k(3) k' ring_point [OF r] q by (simp add: P_def)
    with link [of k] k' show ?thesis by simp
  qed
qed

end

definition nsec_link :: "string \<Rightarrow> string \<Rightarrow> string \<Rightarrow> bool" where
  "nsec_link a b q = nsec_covers \<lparr>ns_name = a, next_domain_name = b, ns_bit_maps = []\<rparr> q"

interpretation nsec: cyclic_chain name_key nsec_link "\<lambda>a. True"
  by unfold_locales (auto simp: nsec_link_def nsec_covers_key Let_def split: if_splits)

interpretation nsec3: cyclic_chain "\<lambda>h. h" nsec3_hash_covers "\<lambda>h. h \<noteq> []"
  by unfold_locales (auto simp: nsec3_hash_covers_def split: if_splits)

section \<open>Type bit maps\<close>

text \<open>The windows of a bit map: a number and up to 32 bytes, most significant bit first.\<close>

definition window_bytes :: "u8 \<times> bytes \<Rightarrow> bytes" where
  "window_bytes w = fst w # word_of_nat (length (snd w)) # snd w"

definition window_has :: "u8 \<times> bytes \<Rightarrow> nat \<Rightarrow> bool" where
  "window_has w k \<longleftrightarrow> k div 8 < length (snd w) \<and> bit (snd w ! (k div 8)) (7 - k mod 8)"

definition windows_ok :: "(u8 \<times> bytes) list \<Rightarrow> bool" where
  "windows_ok ws \<longleftrightarrow> distinct (map fst ws) \<and> (\<forall>w \<in> set ws. length (snd w) \<le> 32)"

lemma and_bit_nonzero: "(b :: u8) AND push_bit k 1 \<noteq> 0 \<longleftrightarrow> bit b k"
proof
  assume b: "bit b k"
  then have "k < 8" using bit_imp_le_length [of b k] by simp
  with b have "bit (b AND push_bit k 1) k" by (simp add: bit_simps)
  then show "b AND push_bit k 1 \<noteq> 0" by (metis bit_0_eq bot_apply bot_bool_def)
next
  assume "b AND push_bit k 1 \<noteq> 0"
  then obtain n where "bit (b AND push_bit k 1) n" by (metis bit_eq_iff bit_0_eq bot_apply bot_bool_def)
  then show "bit b k" by (auto simp: bit_simps)
qed

lemmas and_bit = and_bit_nonzero and_bit_nonzero [unfolded push_bit_of_1]

lemma bitmap_loop_windows:
  assumes "windows_ok ws"
  shows "bitmap_loop (pre @ concat (map window_bytes ws)) n (k div 8) (7 - k mod 8) (length pre) =
    ret (\<exists>w \<in> set ws. fst w = n \<and> window_has w k)"
  using assms
proof (induction ws arbitrary: pre)
  case Nil
  then show ?case by (subst bitmap_loop.simps) simp
next
  case (Cons w ws)
  obtain m d where w: "w = (m, d)" by fastforce
  have d: "unat (word_of_nat (length d) :: u8) = length d"
    using Cons.prems by (simp add: windows_ok_def w unsigned_of_nat take_bit_eq_mod)
  have ok: "windows_ok ws" "m \<notin> fst ` set ws" using Cons.prems by (auto simp: windows_ok_def w)
  define B where "B = pre @ concat (map window_bytes (w # ws))"
  have b: "B ! length pre = m" "unat (B ! (length pre + 1)) = length d" "length pre + 2 \<le> length B"
      "length pre + 2 + length d \<le> length B"
    by (simp_all add: B_def w window_bytes_def nth_append d)
  have "bitmap_loop B n (k div 8) (7 - k mod 8) (length pre) = ret (\<exists>w' \<in> set (w # ws). fst w' = n \<and> window_has w' k)"
  proof (cases "m = n")
    case True
    have "B ! (length pre + 2 + k div 8) = d ! (k div 8)" if "k div 8 < length d"
      using that by (simp add: B_def w window_bytes_def nth_append)
    moreover have "\<not> (\<exists>w \<in> set ws. fst w = n)" using ok(2) True by auto
    ultimately show ?thesis using b True
      by (subst bitmap_loop.simps) (auto simp: Let_def and_bit w window_has_def)
  next
    case False
    have "bitmap_loop B n (k div 8) (7 - k mod 8) (length (pre @ window_bytes w)) =
        ret (\<exists>w \<in> set ws. fst w = n \<and> window_has w k)"
      using Cons.IH [OF ok(1), of "pre @ window_bytes w"] by (simp add: B_def)
    moreover have "length (pre @ window_bytes w) = length pre + 2 + length d" by (simp add: w window_bytes_def)
    ultimately show ?thesis using b False
      by (subst bitmap_loop.simps) (simp add: Let_def w)
  qed
  then show ?case by (simp only: B_def)
qed

lemma bitmap_loop_total [simp]: "bitmap_loop b w off k pos \<noteq> None"
  by (induction b w off k pos rule: bitmap_loop.induct) (subst bitmap_loop.simps, auto simp: Let_def)

lemma contains_type_total [simp]: "type_bit_maps_contain_type b t \<noteq> None"
  by (simp add: type_bit_maps_contain_type_def)

lemma contains_type_windows:
  assumes ok: "windows_ok ws"
  shows "type_bit_maps_contain_type (concat (map window_bytes ws)) qtype =
      ret (\<exists>w \<in> set ws. unat (fst w) = unat qtype div 256 \<and> window_has w (unat qtype mod 256))"
proof -
  have n: "unat (ucast (qtype div 256) :: u8) = unat qtype div 256"
    using unat_u16 [of qtype] by (simp add: unat_div unsigned_ucast_eq take_bit_eq_mod del: unat_u16)
  have k: "unat (qtype mod 256 div 8) = unat qtype mod 256 div 8" "unat (qtype mod 256 mod 8) = unat qtype mod 256 mod 8"
    by (simp_all add: unat_div unat_mod)
  have e: "fst w = ucast (qtype div 256) \<longleftrightarrow> unat (fst w) = unat qtype div 256" for w :: "u8 \<times> bytes"
    using n by (metis word_unat_eq_iff)
  have "type_bit_maps_contain_type (concat (map window_bytes ws)) qtype =
      ret (\<exists>w \<in> set ws. fst w = ucast (qtype div 256) \<and> window_has w (unat qtype mod 256))"
    unfolding type_bit_maps_contain_type_def k
    using bitmap_loop_windows [OF ok, of "[]" "ucast (qtype div 256)" "unat qtype mod 256"] by simp
  then show ?thesis unfolding e .
qed

text \<open>
  The type bit maps of NSEC and NSEC3 records. No byte string makes the test panic, and on
  the encoding of windows with distinct numbers it finds a type exactly when the window of its
  high byte has the bit of its low byte.
\<close>

theorem type_bitmap_spec:
  "(\<exists>r. type_bit_maps_contain_type bitmaps qtype = ret r) \<and>
   (windows_ok ws \<longrightarrow> type_bit_maps_contain_type (concat (map window_bytes ws)) qtype =
      ret (\<exists>w \<in> set ws. unat (fst w) = unat qtype div 256 \<and> window_has w (unat qtype mod 256)))"
  using contains_type_total [of bitmaps qtype] contains_type_windows [of ws qtype] by (auto simp del: contains_type_total)

text \<open>The map of A, NS, SOA and RRSIG.\<close>

theorem type_bitmap_spec_witness:
  "type_bit_maps_contain_type [0, 6, 0x62, 0, 0, 0, 0, 2] 46 = ret True \<and>
   type_bit_maps_contain_type [0, 6, 0x62, 0, 0, 0, 0, 2] 5 = ret False"
proof -
  have w: "concat (map window_bytes [(0, [0x62, 0, 0, 0, 0, 2])]) = [0, 6, 0x62, 0, 0, 0, 0, 2]"
    by (simp add: window_bytes_def)
  have ok: "windows_ok [(0, [0x62, 0, 0, 0, 0, 2])]" by (simp add: windows_ok_def)
  have h: "window_has (0, [0x62, 0, 0, 0, 0, 2]) 46" "\<not> window_has (0, [0x62, 0, 0, 0, 0, 2]) 5" by code_simp+
  show ?thesis using type_bitmap_spec [of "[]" 46 "[(0, [0x62, 0, 0, 0, 0, 2])]"]
      type_bitmap_spec [of "[]" 5 "[(0, [0x62, 0, 0, 0, 0, 2])]"] ok h unfolding w by simp
qed

section \<open>Denial by NSEC\<close>

definition verify_nsec_nxdomain :: "string \<Rightarrow> nsec_record list \<Rightarrow> bool" where
  "verify_nsec_nxdomain qname nsecs \<longleftrightarrow> (if nsecs = [] then False else \<exists>r \<in> set nsecs. nsec_covers r qname)"

fun verify_nsec_nodata :: "string \<Rightarrow> u16 \<Rightarrow> nsec_record list \<Rightarrow> bool rust" where
  "verify_nsec_nodata qname qtype [] = ret False"
| "verify_nsec_nodata qname qtype (r # nsecs) =
    (if nsec_matches r qname then do {
       t \<leftarrow> nsec_has_type r qtype;
       if t then ret False
       else if qtype = 5 then ret True
       else do { c \<leftarrow> nsec_has_type r 5; ret (\<not> c) } }
     else verify_nsec_nodata qname qtype nsecs)"

text \<open>A zone: its names in canonical order, each with the windows of its types.\<close>

type_synonym zone = "(string \<times> (u8 \<times> bytes) list) list"

definition zone_ok :: "zone \<Rightarrow> bool" where
  "zone_ok z \<longleftrightarrow> nsec.ring (map fst z) \<and> (\<forall>w \<in> set (map snd z). windows_ok w)"

definition zone_has :: "zone \<Rightarrow> string \<Rightarrow> bool" where
  "zone_has z q \<longleftrightarrow> name_key q \<in> name_key ` fst ` set z"

definition types_at :: "zone \<Rightarrow> string \<Rightarrow> u16 \<Rightarrow> bool" where
  "types_at z q t \<longleftrightarrow> (\<exists>(n, ws) \<in> set z. name_key n = name_key q \<and>
     (\<exists>w \<in> set ws. unat (fst w) = unat t div 256 \<and> window_has w (unat t mod 256)))"

text \<open>The NSEC records that a signed zone publishes.\<close>

definition zone_nsecs :: "zone \<Rightarrow> nsec_record list" where
  "zone_nsecs z = map (\<lambda>i. \<lparr>ns_name = fst (z ! i), next_domain_name = fst (if i + 1 < length z then z ! (i + 1) else z ! 0),
     ns_bit_maps = concat (map window_bytes (snd (z ! i)))\<rparr>) [0..<length z]"

lemma nsec_covers_link: "nsec_covers r q \<longleftrightarrow> nsec_link (ns_name r) (next_domain_name r) q"
  by (simp add: nsec_link_def nsec_covers_key)

lemma zone_nsecs_links: "map (\<lambda>r. (ns_name r, next_domain_name r)) (zone_nsecs z) = links (map fst z)"
  by (cases "z = []") (auto simp: zone_nsecs_def links_def)

lemma zone_nsec_link: "r \<in> set (zone_nsecs z) \<Longrightarrow> (ns_name r, next_domain_name r) \<in> set (links (map fst z))"
  unfolding zone_nsecs_links [symmetric] by auto

lemma zone_link_nsec: "(a, b) \<in> set (links (map fst z)) \<Longrightarrow> \<exists>r \<in> set (zone_nsecs z). ns_name r = a \<and> next_domain_name r = b"
  unfolding zone_nsecs_links [symmetric] by auto

text \<open>A name of the zone has one entry.\<close>

lemma ring_distinct: "nsec.ring (map fst z) \<Longrightarrow> x \<in> set z \<Longrightarrow> y \<in> set z \<Longrightarrow> name_key (fst x) = name_key (fst y) \<Longrightarrow> x = y"
proof -
  assume r: "nsec.ring (map fst z)" and xy: "x \<in> set z" "y \<in> set z" and k: "name_key (fst x) = name_key (fst y)"
  from xy obtain i j where i: "i < length z" "x = z ! i" and j: "j < length z" "y = z ! j" by (auto simp: in_set_conv_nth)
  from nsec.ring_nth [OF r, of i j] nsec.ring_nth [OF r, of j i] i j k have "i = j" by simp
  with i j show "x = y" by simp
qed

lemma nodata_at:
  assumes z: "zone_ok z" and n: "set nsecs \<subseteq> set (zone_nsecs z)" and v: "verify_nsec_nodata q t nsecs = ret True"
  shows "zone_has z q \<and> \<not> types_at z q t \<and> (t = 5 \<or> \<not> types_at z q 5)"
  using n v
proof (induction nsecs)
  case (Cons r nsecs)
  show ?case
  proof (cases "nsec_matches r q")
    case False
    with Cons show ?thesis by simp
  next
    case True
    from Cons.prems(1) obtain i where i: "i < length z" "ns_name r = fst (z ! i)" "ns_bit_maps r = concat (map window_bytes (snd (z ! i)))"
      by (auto simp: zone_nsecs_def)
    obtain a ws where e: "z ! i = (a, ws)" by fastforce
    have mem: "(a, ws) \<in> set z" using i(1) e by (metis nth_mem)
    have k: "name_key a = name_key q" using True i(2) e by (simp add: nsec_matches_def eq_ignore_trim)
    have ok: "windows_ok ws" using z mem by (force simp: zone_ok_def)
    have same: "us = ws" if "(n, us) \<in> set z" "name_key n = name_key q" for n us
      using ring_distinct [OF z [unfolded zone_ok_def, THEN conjunct1] that(1) mem] that(2) k by simp
    have only: "types_at z q s \<longleftrightarrow> (\<exists>w \<in> set ws. unat (fst w) = unat s div 256 \<and> window_has w (unat s mod 256))" for s
    proof
      assume "types_at z q s"
      then obtain n us where "(n, us) \<in> set z" "name_key n = name_key q"
        "\<exists>w \<in> set us. unat (fst w) = unat s div 256 \<and> window_has w (unat s mod 256)" unfolding types_at_def by blast
      with same show "\<exists>w \<in> set ws. unat (fst w) = unat s div 256 \<and> window_has w (unat s mod 256)" by blast
    qed (use mem k in \<open>auto simp: types_at_def\<close>)
    have t: "nsec_has_type r s = ret (types_at z q s)" for s
      using i(3) e by (simp add: nsec_has_type_def only contains_type_windows [OF ok])
    have "zone_has z q" using imageI [OF imageI [OF mem, of fst], of name_key] k by (simp add: zone_has_def)
    with Cons.prems(2) True show ?thesis by (auto simp: t split: if_splits)
  qed
qed simp

text \<open>
  The canonical order of names. The loop over labels from the right is the lexicographic
  order of the reversed label lists in lower case, so it is a total order up to case and final
  dots, and a name comes before every name below it.
\<close>

theorem canonical_order_spec:
  "canonical_name_cmp a b = cmp (name_key a) (name_key b) \<and>
   (canonical_name_cmp a b = Equal \<longleftrightarrow> lower_name a = lower_name b) \<and>
   (canonical_name_cmp a b = Less \<longleftrightarrow> canonical_name_cmp b a = Greater) \<and>
   (canonical_name_cmp a b = Less \<longrightarrow> canonical_name_cmp b c = Less \<longrightarrow> canonical_name_cmp a c = Less) \<and>
   (lower_name b = l @ CHR ''.'' # lower_name a \<longrightarrow> canonical_name_cmp a b = Less)"
proof -
  have "name_key a < name_key b" if h: "lower_name b = l @ CHR ''.'' # lower_name a"
  proof -
    obtain ls where ls: "ls \<noteq> []" "split_char CHR ''.'' (lower_name b) = ls @ split_char CHR ''.'' (lower_name a)"
      using ends_with_dot_labels [of "lower_name b" "lower_name a"] h unfolding ends_with_iff by blast
    have "xs < xs @ ys" if "ys \<noteq> []" for xs ys :: "bytes list"
      using that by (induction xs) (auto simp: Nil_less)
    then show ?thesis using ls by (simp add: name_key_def label_bytes_def)
  qed
  then show ?thesis by (auto simp: canonical_cmp_key name_key_eq)
qed

theorem canonical_order_spec_witness:
  "canonical_name_cmp ''Example.'' ''a.example'' = Less \<and> canonical_name_cmp ''a.example'' ''B.example'' = Less \<and>
   canonical_name_cmp ''Example.'' ''B.example'' = Less"
proof -
  have k: "lower_name ''a.example'' = ''a'' @ CHR ''.'' # lower_name ''Example.''" by code_simp
  have l: "canonical_name_cmp ''a.example'' ''B.example'' = Less" by code_simp
  show ?thesis using canonical_order_spec [of "''Example.''" "''a.example''" "''B.example''" "''a''"] k l by blast
qed

text \<open>
  C27: Denial by NSEC. Let the records of a response be among the records that a zone publishes
  for its names in canonical order. When the check for NXDOMAIN accepts them, the name is not in
  the zone; when the check for NODATA accepts them, the name is there, without the type and
  without a CNAME. With all records of a zone of two names or more the check accepts exactly the
  absent names; the one record of a zone with one name is never accepted.
\<close>

theorem nsec_denial_spec:
  assumes z: "zone_ok z" and n: "set nsecs \<subseteq> set (zone_nsecs z)"
  shows "(verify_nsec_nxdomain q nsecs \<longrightarrow> \<not> zone_has z q) \<and>
    (verify_nsec_nodata q t nsecs = ret True \<longrightarrow> zone_has z q \<and> \<not> types_at z q t \<and> (t = 5 \<or> \<not> types_at z q 5)) \<and>
    (2 \<le> length z \<longrightarrow> set (zone_nsecs z) \<subseteq> set nsecs \<longrightarrow> (verify_nsec_nxdomain q nsecs \<longleftrightarrow> \<not> zone_has z q)) \<and>
    (length z = 1 \<longrightarrow> \<not> verify_nsec_nxdomain q nsecs)"
proof -
  have r: "nsec.ring (map fst z)" using z by (simp add: zone_ok_def)
  have sound: "\<not> zone_has z q" if "verify_nsec_nxdomain q nsecs"
  proof -
    from that obtain rec where rec: "rec \<in> set nsecs" "nsec_covers rec q" by (auto simp: verify_nsec_nxdomain_def split: if_splits)
    with n have "(ns_name rec, next_domain_name rec) \<in> set (links (map fst z))" using zone_nsec_link by blast
    from nsec.denies_only_absent [OF r this _ rec(2) [unfolded nsec_covers_link]] show ?thesis by (simp add: zone_has_def)
  qed
  moreover have "verify_nsec_nxdomain q nsecs" if "2 \<le> length z" "set (zone_nsecs z) \<subseteq> set nsecs" "\<not> zone_has z q"
  proof -
    from nsec.denies_all_absent [OF r _ _ , of q] that obtain a b where ab: "(a, b) \<in> set (links (map fst z))" "nsec_link a b q"
      by (auto simp: zone_has_def)
    from zone_link_nsec [OF ab(1)] ab(2) obtain rec where "rec \<in> set (zone_nsecs z)" "nsec_covers rec q"
      by (auto simp: nsec_covers_link)
    with that(2) show ?thesis by (auto simp: verify_nsec_nxdomain_def)
  qed
  moreover have "\<not> verify_nsec_nxdomain q nsecs" if "length z = 1"
  proof -
    have "\<not> nsec_covers rec q" if "rec \<in> set nsecs" for rec
      using subsetD [OF n that] \<open>length z = 1\<close> by (auto simp: zone_nsecs_def nsec_covers_key Let_def)
    then show ?thesis by (auto simp: verify_nsec_nxdomain_def)
  qed
  ultimately show ?thesis using nodata_at [OF z n] by blast
qed

definition small_zone :: zone where
  "small_zone = [(''example'', [(0, [0x62])]), (''a.example'', [(0, [0x40])]), (''z.example'', [(0, [0x40])])]"

lemma small_zone_ok: "zone_ok small_zone"
proof -
  have "name_key ''example'' < name_key ''a.example''" "name_key ''a.example'' < name_key ''z.example''"
    by (simp_all flip: cmp_simps canonical_cmp_key) code_simp+
  then show ?thesis by (auto simp: zone_ok_def nsec.ring_def small_zone_def windows_ok_def)
qed

theorem nsec_denial_spec_witness:
  "verify_nsec_nxdomain ''M.example.'' (zone_nsecs small_zone) \<and> \<not> zone_has small_zone ''M.example.''"
proof -
  have "verify_nsec_nxdomain ''M.example.'' (zone_nsecs small_zone)" by code_simp
  with nsec_denial_spec [OF small_zone_ok subset_refl] show ?thesis by blast
qed

end
