(* ===== verification/Dnssec_Codec.thy ===== *)
theory Dnssec_Codec
  imports Dnssec_Order Wire_Walk
begin

text \<open>
  The encodings of DNSSEC, \<open>src/src/dns/dnssec.rs\<close>: base32hex, hexadecimal, canonical wire
  names, key tags, DS digests, NSEC3 hashing and the DER form of RSA keys; and the DER reader
  of \<open>src/src/dns/pkcs7.rs\<close>. The hash functions of the crate \<open>ring\<close> are the parameters
  \<open>sha1\<close>, \<open>sha256\<close> and \<open>sha384\<close>.
\<close>

section \<open>Base 32\<close>

definition base32hex_chars :: string where
  "base32hex_chars = ''0123456789abcdefghijklmnopqrstuv''"

text \<open>\<open>while bits_left >= 5\<close>: at most two rounds after a byte; the first argument bounds them.\<close>

fun emit5 :: "nat \<Rightarrow> u64 \<Rightarrow> nat \<Rightarrow> string \<times> nat" where
  "emit5 rounds buffer bits_left =
    (if 5 \<le> bits_left \<and> rounds \<noteq> 0 then
       (let (s, left) = emit5 (rounds - 1) buffer (bits_left - 5)
        in (base32hex_chars ! unat (drop_bit (bits_left - 5) buffer AND 0x1F) # s, left))
     else ([], bits_left))"

declare emit5.simps [simp del]

fun base32_loop :: "bytes \<Rightarrow> u64 \<Rightarrow> nat \<Rightarrow> string" where
  "base32_loop [] buffer bits_left =
    (if bits_left > 0 then [base32hex_chars ! unat (push_bit (5 - bits_left) buffer AND 0x1F)] else [])"
| "base32_loop (byte # data) buffer bits_left = (
     let buffer = push_bit 8 buffer OR ucast byte;
         (s, left) = emit5 (bits_left + 8) buffer (bits_left + 8)
     in s @ base32_loop data buffer left)"

definition base32hex_encode :: "bytes \<Rightarrow> string" where
  "base32hex_encode data = base32_loop data 0 0"

definition base32_value :: "char \<Rightarrow> u64 option" where
  "base32_value c =
    (if 48 \<le> code c \<and> code c \<le> 57 then Some (word_of_nat (code c - 48))
     else if 97 \<le> code c \<and> code c \<le> 118 then Some (word_of_nat (code c - 97 + 10))
     else None)"

fun unbase32_loop :: "string \<Rightarrow> u64 \<Rightarrow> nat \<Rightarrow> bytes option" where
  "unbase32_loop [] buffer bits_left = Some []"
| "unbase32_loop (c # s) buffer bits_left = (case base32_value c of
     None \<Rightarrow> None
   | Some val \<Rightarrow>
       let buffer = push_bit 5 buffer OR val; bits_left = bits_left + 5 in
       if bits_left \<ge> 8
       then map_option (Cons (ucast (drop_bit (bits_left - 8) buffer AND 0xFF))) (unbase32_loop s buffer (bits_left - 8))
       else unbase32_loop s buffer bits_left)"

definition base32hex_decode :: "string \<Rightarrow> bytes option" where
  "base32hex_decode s = unbase32_loop (to_ascii_lowercase (trim s)) 0 0"

section \<open>Hexadecimal\<close>

definition hex_value :: "char \<Rightarrow> nat option" where
  "hex_value c =
    (if 48 \<le> code c \<and> code c \<le> 57 then Some (code c - 48)
     else if 97 \<le> code c \<and> code c \<le> 102 then Some (code c - 87)
     else if 65 \<le> code c \<and> code c \<le> 70 then Some (code c - 55)
     else None)"

text \<open>\<open>u8::from_str_radix(s, 16)\<close> of a string of two bytes: a leading plus sign is accepted.\<close>

definition from_hex2 :: "char \<Rightarrow> char \<Rightarrow> u8 option" where
  "from_hex2 a b =
    (if a = CHR ''+'' then map_option word_of_nat (hex_value b)
     else (case (hex_value a, hex_value b) of
         (Some x, Some y) \<Rightarrow> Some (word_of_nat (16 * x + y))
       | _ \<Rightarrow> None))"

text \<open>The slices \<open>clean[i..i + 2]\<close> panic inside a character.\<close>

function hex_loop :: "string \<Rightarrow> nat \<Rightarrow> bytes option rust" where
  "hex_loop clean i =
    (if i + 1 < length clean then
       (if char_boundary clean i \<and> char_boundary clean (i + 2) then
          (case from_hex2 (clean ! i) (clean ! (i + 1)) of
             None \<Rightarrow> ret None
           | Some byte \<Rightarrow> do { r \<leftarrow> hex_loop clean (i + 2); ret (map_option (Cons byte) r) })
        else panic)
     else ret (Some []))"
  by pat_completeness auto
termination by (relation "measure (\<lambda>(clean, i). length clean - i)") auto

declare hex_loop.simps [simp del]

definition hex_decode :: "string \<Rightarrow> bytes option rust" where
  "hex_decode hex_str = (
     let clean = trim hex_str in
     if length clean mod 2 \<noteq> 0 then ret None else hex_loop clean 0)"

section \<open>Names, key tags and digests\<close>

definition canonical_wire_name :: "string \<Rightarrow> bytes" where
  "canonical_wire_name domain = (
     let clean = trim_end_char CHR ''.'' (trim domain) in
     if clean = [] then [0]
     else concat (map (\<lambda>label. let l_bytes = map char_byte (to_ascii_lowercase label)
                               in word_of_nat (length l_bytes) # l_bytes) (split_char CHR ''.'' clean)) @ [0])"

fun key_tag_loop :: "nat \<Rightarrow> bytes \<Rightarrow> u32 \<Rightarrow> u32" where
  "key_tag_loop i [] ac = ac"
| "key_tag_loop i (b # bs) ac =
     key_tag_loop (i + 1) bs (if i mod 2 = 0 then ac + push_bit 8 (ucast b) else ac + ucast b)"

definition calculate_key_tag :: "bytes \<Rightarrow> u16" where
  "calculate_key_tag dnskey_rdata =
    (if dnskey_rdata = [] then 0
     else let ac = key_tag_loop 0 dnskey_rdata 0;
              ac = ac + (drop_bit 16 ac AND 0xFFFF)
          in ucast (ac AND 0xFFFF))"

type_synonym digest = "bytes \<Rightarrow> bytes"

definition hash_nsec3_name :: "digest \<Rightarrow> string \<Rightarrow> u8 \<Rightarrow> u16 \<Rightarrow> bytes \<Rightarrow> bytes option" where
  "hash_nsec3_name sha1 name hash_alg iters salt' =
    (if hash_alg \<noteq> 1 then None
     else if iters > 150 then None
     else Some (((\<lambda>digest. sha1 (digest @ salt')) ^^ unat iters) (sha1 (canonical_wire_name name @ salt'))))"

definition calculate_ds_digest :: "digest \<Rightarrow> digest \<Rightarrow> string \<Rightarrow> bytes \<Rightarrow> u8 \<Rightarrow> bytes option" where
  "calculate_ds_digest sha256 sha384 owner_name raw_rdata digest_type = (
     let input = canonical_wire_name owner_name @ raw_rdata in
     if digest_type = 2 then Some (sha256 input)
     else if digest_type = 4 then Some (sha384 input) else None)"

section \<open>DER\<close>

definition encode_asn1_length :: "nat \<Rightarrow> bytes" where
  "encode_asn1_length len =
    (if len < 128 then [word_of_nat len]
     else if len \<le> 0xFF then [0x81, word_of_nat len]
     else [0x82, word_of_nat (len div 256), word_of_nat (len mod 256)])"

fun trim_zeros :: "bytes \<Rightarrow> bytes" where
  "trim_zeros (a # b # bs) = (if a = 0 then trim_zeros (b # bs) else a # b # bs)"
| "trim_zeros bs = bs"

definition encode_asn1_integer :: "bytes \<Rightarrow> bytes" where
  "encode_asn1_integer val = (
     let trimmed = trim_zeros val;
         needs_zero_prefix = (trimmed = [] \<or> hd trimmed AND 0x80 \<noteq> 0);
         content_len = length trimmed + (if needs_zero_prefix then 1 else 0)
     in 0x02 # encode_asn1_length content_len @ (if needs_zero_prefix then [0] else []) @ trimmed)"

definition rsa_dnskey_to_pkcs1_der :: "bytes \<Rightarrow> bytes option rust" where
  "rsa_dnskey_to_pkcs1_der public_key =
    (if public_key = [] then ret None
     else if public_key ! 0 = 0 \<and> length public_key < 3 then ret None
     else do {
       (exp_len, offset) \<leftarrow> (if public_key ! 0 = 0
          then do { l \<leftarrow> count16 public_key 1; ret (l, 3) } else ret (unat (public_key ! 0), 1));
       if length public_key < offset + exp_len then ret None
       else do {
         exponent \<leftarrow> slice public_key offset (offset + exp_len);
         modulus \<leftarrow> slice public_key (offset + exp_len) (length public_key);
         if modulus = [] \<or> exponent = [] then ret None
         else (let mod_der = encode_asn1_integer modulus; exp_der = encode_asn1_integer exponent
               in ret (Some (0x30 # encode_asn1_length (length mod_der + length exp_der) @ mod_der @ exp_der))) } })"

record der_element =
  der_tag :: u8
  header_len :: nat
  der_content :: bytes
  full_bytes :: bytes

definition der_length :: "bytes \<Rightarrow> nat" where
  "der_length octets = foldl (\<lambda>l b. 256 * l + unat b) 0 octets"

text \<open>\<open>DerElement::parse\<close>; the error texts are not modelled.\<close>

definition der_parse :: "bytes \<Rightarrow> (der_element \<times> bytes) option rust" where
  "der_parse input =
    (if input = [] then ret None
     else if length input < 2 then ret None
     else (let header =
         (if input ! 1 AND 0x80 = 0 then Some (unat (input ! 1), 2)
          else let num_octets = unat (input ! 1 AND 0x7f) in
            if num_octets = 0 \<or> num_octets > 4 \<or> length input < 2 + num_octets then None
            else Some (der_length (take num_octets (drop 2 input)), 2 + num_octets)) in
       case header of
         None \<Rightarrow> ret None
       | Some (len, hl) \<Rightarrow>
           if length input < hl + len then ret None
           else do {
             full \<leftarrow> slice input 0 (hl + len);
             content \<leftarrow> slice input hl (hl + len);
             remainder \<leftarrow> slice input (hl + len) (length input);
             ret (Some (\<lparr>der_tag = input ! 0, header_len = hl, der_content = content, full_bytes = full\<rparr>, remainder)) }))"

section \<open>Base 32 reads back\<close>

text \<open>Bits, most significant first; \<open>low n w\<close> are the last \<open>n\<close> bits of a word.\<close>

definition low :: "nat \<Rightarrow> 'a::len word \<Rightarrow> bool list" where
  "low n w = map (bit w) (rev [0..<n])"

fun bval :: "bool list \<Rightarrow> nat" where
  "bval [] = 0"
| "bval (b # bs) = of_bool b * 2 ^ length bs + bval bs"

lemma low_0 [simp]: "low 0 w = []"
  by (simp add: low_def)

lemma low_Suc: "low (Suc n) w = bit w n # low n w"
  by (simp add: low_def)

lemma length_low [simp]: "length (low n w) = n"
  by (simp add: low_def)

lemma low_split: "low (m + n) w = low m (drop_bit n w) @ low n w"
  by (induction m) (simp_all add: low_Suc bit_drop_bit_eq add.commute)

lemma low_cong: "(\<And>i. i < n \<Longrightarrow> bit v i = bit w i) \<Longrightarrow> low n v = low n w"
  by (simp add: low_def)

lemma bval_less: "bval bs < 2 ^ length bs"
  by (induction bs) auto

lemma bval_low: "bval (low n w) = take_bit n (unat w)"
proof (induction n)
  case (Suc n)
  have "int (take_bit (Suc n) (unat w)) = int (2 ^ n * of_bool (bit (unat w) n) + take_bit n (unat w))"
    using take_bit_Suc_from_most [of n "uint w"] by (simp add: of_nat_take_bit bit_unsigned_iff)
  then have "take_bit (Suc n) (unat w) = 2 ^ n * of_bool (bit (unat w) n) + take_bit n (unat w)" by linarith
  then show ?case by (simp add: low_Suc Suc bit_unsigned_iff)
qed simp

lemma bit_word_nat: "bit (word_of_nat m :: 'a::len word) n \<longleftrightarrow> n < LENGTH('a) \<and> bit m n"
proof -
  have "(word_of_nat m :: 'a word) = word_of_int (int m)" by simp
  then show ?thesis by (simp only: bit_word_of_int_iff bit_of_nat_iff_bit)
qed

lemma low_bval: "length bs \<le> LENGTH('a) \<Longrightarrow> low (length bs) (word_of_nat (bval bs) :: 'a::len word) = bs"
proof (induction bs)
  case (Cons b bs)
  let ?n = "length bs"
  have less: "bval bs < 2 ^ ?n" by (rule bval_less)
  have "bit (word_of_nat (bval (b # bs)) :: 'a word) ?n = bit (bval (b # bs)) ?n"
    unfolding bit_word_nat using Cons.prems by simp
  also have "\<dots> = b" using less by (cases b) (simp_all add: bit_iff_odd div_add_self1)
  finally have top: "bit (word_of_nat (bval (b # bs)) :: 'a word) ?n = b" .
  have "bit (bval (b # bs)) i = bit (bval bs) i" if "i < ?n" for i
  proof -
    have "(2::nat) ^ ?n = 2 ^ i * (2 * 2 ^ (?n - i - 1))" using that
      by (metis Suc_diff_Suc add_diff_inverse_nat diff_Suc_1 diff_diff_left not_less_iff_gr_or_eq power_Suc power_add plus_1_eq_Suc add.commute)
    then show ?thesis by (cases b) (simp_all add: bit_iff_odd)
  qed
  then have "low ?n (word_of_nat (bval (b # bs)) :: 'a word) = low ?n (word_of_nat (bval bs) :: 'a word)"
    unfolding low_def using Cons.prems by (auto simp: bit_word_nat simp del: bval.simps of_nat_add)
  with Cons top show ?case by (simp add: low_Suc)
qed simp

lemma low_append:
  fixes w :: u64 and v :: "'b::len word"
  assumes "n + k \<le> 64" and "k \<le> LENGTH('b)" and "\<And>i. bit v i \<Longrightarrow> i < k"
  shows "low (n + k) (push_bit k w OR ucast v) = low n w @ low k v"
proof -
  have "low n (drop_bit k (push_bit k w OR ucast v)) = low n w"
    by (rule low_cong) (use assms in \<open>auto simp: bit_simps\<close>)
  moreover have "low k (push_bit k w OR ucast v) = low k v"
    by (rule low_cong) (use assms in \<open>auto simp: bit_simps\<close>)
  ultimately show ?thesis by (simp add: low_split)
qed

definition bits8 :: "u8 \<Rightarrow> bool list" where
  "bits8 b = low 8 b"

definition b32_digit :: "bool list \<Rightarrow> char" where
  "b32_digit g = base32hex_chars ! bval g"

text \<open>Groups of five bits, the last one filled with zeros.\<close>

function groups5 :: "bool list \<Rightarrow> string" where
  "groups5 bs = (if bs = [] then []
     else if length bs < 5 then [b32_digit (bs @ replicate (5 - length bs) False)]
     else b32_digit (take 5 bs) # groups5 (drop 5 bs))"
  by pat_completeness auto
termination by (relation "measure length") auto

declare groups5.simps [simp del]

lemma groups5_5: "length g = 5 \<Longrightarrow> groups5 (g @ bs) = b32_digit g # groups5 bs"
  by (subst groups5.simps) auto

lemma mask_low: "unat (w AND mask n) = bval (low n w)"
  by (simp add: bval_low unsigned_take_bit_eq flip: take_bit_eq_mask)

lemma mask5: "unat (w AND 0x1F :: u64) = bval (low 5 w)"
proof -
  have m: "(0x1F :: u64) = mask 5" by (simp add: mask_eq_exp_minus_1)
  show ?thesis unfolding m by (rule mask_low)
qed

lemma mask8: "ucast (w AND 0xFF :: u64) = (word_of_nat (bval (low 8 w)) :: u8)"
proof -
  have m: "(0xFF :: u64) = mask 8" by (simp add: mask_eq_exp_minus_1)
  show ?thesis unfolding m mask_low [symmetric] by (rule of_nat_unat [symmetric])
qed

lemma emit5_groups: "n \<le> rounds \<Longrightarrow> emit5 rounds buffer n = (s, left) \<Longrightarrow>
   left < 5 \<and> s @ groups5 (low left buffer @ rest) = groups5 (low n buffer @ rest)"
proof (induction rounds arbitrary: n s left)
  case 0
  then show ?case by (simp add: emit5.simps)
next
  case (Suc rounds)
  show ?case
  proof (cases "5 \<le> n")
    case False
    with Suc.prems show ?thesis by (simp add: emit5.simps)
  next
    case True
    obtain s' where s': "emit5 rounds buffer (n - 5) = (s', left)"
        "s = base32hex_chars ! unat (drop_bit (n - 5) buffer AND 0x1F) # s'"
      using Suc.prems(2) True by (subst (asm) emit5.simps) (auto split: prod.splits)
    have "low n buffer = low 5 (drop_bit (n - 5) buffer) @ low (n - 5) buffer"
      using low_split [of 5 "n - 5" buffer] True by simp
    then have "groups5 (low n buffer @ rest) = b32_digit (low 5 (drop_bit (n - 5) buffer)) # groups5 (low (n - 5) buffer @ rest)"
      by (simp add: groups5_5)
    with Suc.IH [OF _ s'(1)] Suc.prems(1) True s'(2) show ?thesis by (simp add: b32_digit_def mask5)
  qed
qed

lemma base32_loop_groups: "left < 5 \<Longrightarrow> base32_loop data buffer left = groups5 (low left buffer @ concat (map bits8 data))"
proof (induction data arbitrary: buffer left)
  case Nil
  have "low 5 (push_bit (5 - left) buffer) = low left buffer @ replicate (5 - left) False"
  proof -
    have "low (5 - left) (push_bit (5 - left) buffer) = replicate (5 - left) False"
      by (rule nth_equalityI) (auto simp: low_def bit_simps rev_nth)
    moreover have "low left (drop_bit (5 - left) (push_bit (5 - left) buffer)) = low left buffer"
      by (rule low_cong) (use Nil in \<open>auto simp: bit_simps\<close>)
    ultimately show ?thesis using low_split [of left "5 - left" "push_bit (5 - left) buffer"] Nil by simp
  qed
  moreover have "low left buffer = [] \<longleftrightarrow> left = 0" by (metis length_low length_0_conv)
  ultimately show ?case using Nil by (subst groups5.simps) (auto simp: mask5 b32_digit_def)
next
  case (Cons byte data)
  define b where "b = push_bit 8 buffer OR (ucast byte :: u64)"
  obtain s l where e: "emit5 (left + 8) b (left + 8) = (s, l)" by fastforce
  have "low (left + 8) b = low left buffer @ bits8 byte"
    unfolding b_def bits8_def by (rule low_append) (use Cons.prems bit_imp_le_length [of byte] in auto)
  with emit5_groups [OF le_refl e, of "concat (map bits8 data)"] Cons.IH [of l b] show ?case
    by (simp add: Let_def b_def [symmetric] e)
qed

text \<open>The reader: bytes out of the bits of the digits; what is left over is dropped.\<close>

function chunks8 :: "bool list \<Rightarrow> bytes" where
  "chunks8 bs = (if length bs < 8 then [] else word_of_nat (bval (take 8 bs)) # chunks8 (drop 8 bs))"
  by pat_completeness auto
termination by (relation "measure length") auto

declare chunks8.simps [simp del]

lemma chunks8_8: "length g = 8 \<Longrightarrow> chunks8 (g @ bs) = word_of_nat (bval g) # chunks8 bs"
  by (subst chunks8.simps) auto

lemma digit_value:
  assumes "length g = 5"
  shows "base32_value (b32_digit g) = Some (word_of_nat (bval g))" "visible (b32_digit g) \<and> lower_char (b32_digit g) = b32_digit g"
proof -
  have "\<forall>n \<in> set [0..<32]. base32_value (base32hex_chars ! n) = Some (word_of_nat n) \<and>
      visible (base32hex_chars ! n) \<and> lower_char (base32hex_chars ! n) = base32hex_chars ! n" by code_simp
  moreover have "bval g \<in> set [0..<32]" using bval_less [of g] assms by simp
  ultimately show "base32_value (b32_digit g) = Some (word_of_nat (bval g))"
      "visible (b32_digit g) \<and> lower_char (b32_digit g) = b32_digit g" unfolding b32_digit_def by blast+
qed

lemma unbase32_chunks:
  "\<forall>g \<in> set gs. length g = 5 \<Longrightarrow> left < 8 \<Longrightarrow>
    unbase32_loop (map b32_digit gs) buffer left = Some (chunks8 (low left buffer @ concat gs))"
proof (induction gs arbitrary: buffer left)
  case Nil
  then show ?case by (subst chunks8.simps) simp
next
  case (Cons g gs)
  then have l5: "length g = 5" by simp
  define b where "b = push_bit 5 buffer OR (word_of_nat (bval g) :: u64)"
  have gv: "low 5 (word_of_nat (bval g) :: u64) = g" using low_bval [of g, where 'a = 64] l5 by simp
  have small: "i < 5" if i: "bit (word_of_nat (bval g) :: u64) i" for i
  proof (rule ccontr)
    assume "\<not> i < 5"
    then have "bval g < 2 ^ i" using bval_less [of g] l5 power_increasing [of 5 i "2 :: nat"] by simp
    moreover have "bit (bval g) i" using i unfolding bit_word_nat ..
    ultimately show False by (simp add: bit_iff_odd)
  qed
  have e: "low (left + 5) b = low left buffer @ g"
    using low_append [of left 5 "word_of_nat (bval g) :: u64" buffer] Cons.prems(2) small gv by (simp add: b_def)
  show ?case
  proof (cases "8 \<le> left + 5")
    case True
    then have s: "8 + (left - 3) = left + 5" by simp
    have "low left buffer @ g = low 8 (drop_bit (left - 3) b) @ low (left - 3) b"
      using low_split [of 8 "left - 3" b] unfolding s e .
    then have "chunks8 (low left buffer @ g @ concat gs) =
        word_of_nat (bval (low 8 (drop_bit (left - 3) b))) # chunks8 (low (left - 3) b @ concat gs)"
      by (metis append.assoc chunks8_8 length_low)
    with Cons.IH [of "left - 3" b] Cons.prems True show ?thesis
      by (simp add: digit_value(1) [OF l5] Let_def b_def [symmetric] mask8)
  next
    case False
    have c: "low left buffer @ concat (g # gs) = low (left + 5) b @ concat gs" by (simp add: e)
    show ?thesis unfolding c using Cons.IH [of "left + 5" b] Cons.prems False
      by (simp add: digit_value(1) [OF l5] Let_def b_def [symmetric])
  qed
qed

text \<open>What the groups hold: the bits and fewer than five zeros.\<close>

lemma groups5_groups: "\<exists>gs pad. groups5 bs = map b32_digit gs \<and> (\<forall>g \<in> set gs. length g = 5) \<and> concat gs = bs @ pad \<and> length pad < 5"
proof (induction bs rule: groups5.induct)
  case (1 bs)
  consider "bs = []" | "bs \<noteq> []" "length bs < 5" | "5 \<le> length bs" by linarith
  then show ?case
  proof cases
    case 1
    then show ?thesis by (intro exI [of _ "[]"]) (simp add: groups5.simps)
  next
    case 2
    then show ?thesis
      by (intro exI [of _ "[bs @ replicate (5 - length bs) False]"] exI [of _ "replicate (5 - length bs) False"])
        (auto simp: groups5.simps)
  next
    case 3
    then have "bs \<noteq> []" "\<not> length bs < 5" by auto
    from "1.IH" [OF this] obtain gs pad where gs: "groups5 (drop 5 bs) = map b32_digit gs" "\<forall>g \<in> set gs. length g = 5"
      "concat gs = drop 5 bs @ pad" "length pad < 5" by blast
    with 3 show ?thesis by (intro exI [of _ "take 5 bs # gs"] exI [of _ pad]) (auto simp: groups5.simps [of bs])
  qed
qed

lemma chunks8_bits: "length pad < 8 \<Longrightarrow> chunks8 (concat (map bits8 data) @ pad) = data"
proof (induction data)
  case Nil
  then show ?case by (subst chunks8.simps) simp
next
  case (Cons b data)
  have "word_of_nat (bval (bits8 b)) = b" by (simp add: bits8_def bval_low take_bit_eq_mod)
  with Cons show ?case using chunks8_8 [of "bits8 b" "concat (map bits8 data) @ pad"] length_low [of 8 b]
    by (simp flip: bits8_def)
qed

lemma base32_round: "base32hex_decode (base32hex_encode data) = Some data"
proof -
  have enc: "base32hex_encode data = groups5 (concat (map bits8 data))"
    by (simp add: base32hex_encode_def base32_loop_groups)
  obtain gs pad where gs: "groups5 (concat (map bits8 data)) = map b32_digit gs" "\<forall>g \<in> set gs. length g = 5"
      "concat gs = concat (map bits8 data) @ pad" "length pad < 5" using groups5_groups by blast
  have "trim (map b32_digit gs) = map b32_digit gs"
    using gs(2) digit_value(2) by (intro trim_visible) (auto simp: hd_map last_map)
  moreover have "to_ascii_lowercase (map b32_digit gs) = map b32_digit gs"
    using gs(2) digit_value(2) by (auto simp: to_ascii_lowercase_def)
  ultimately show ?thesis
    using unbase32_chunks [OF gs(2), of 0 0] gs(4) chunks8_bits [of pad data] by (simp add: base32hex_decode_def enc gs(1,3))
qed

text \<open>
  Base 32 with the extended hex alphabet, in which NSEC3 owner names are written: decoding the
  encoding of any byte string gives it back, in any case of letters and between blanks, and the
  encoding has one digit for every five bits.
\<close>

theorem base32hex_round_trip:
  "base32hex_decode (base32hex_encode data) = Some data \<and>
   (to_ascii_lowercase (trim s) = base32hex_encode data \<longrightarrow> base32hex_decode s = Some data) \<and>
   length (base32hex_encode data) = (8 * length data + 4) div 5"
proof (intro conjI impI)
  show r: "base32hex_decode (base32hex_encode data) = Some data" by (rule base32_round)
  have "groups5 bs = map b32_digit gs \<Longrightarrow> \<forall>g \<in> set gs. length g = 5 \<Longrightarrow> concat gs = bs @ pad \<Longrightarrow> length pad < 5 \<Longrightarrow>
      length (groups5 bs) = (length bs + 4) div 5" for bs gs pad
  proof -
    assume g: "groups5 bs = map b32_digit gs" "\<forall>g \<in> set gs. length g = 5" "concat gs = bs @ pad" "length pad < 5"
    have "length (concat gs) = 5 * length gs" using g(2) by (induction gs) auto
    with g show "length (groups5 bs) = (length bs + 4) div 5" by simp
  qed
  moreover have "length (concat (map bits8 data)) = 8 * length data" by (induction data) (simp_all add: bits8_def)
  ultimately show "length (base32hex_encode data) = (8 * length data + 4) div 5"
    using groups5_groups [of "concat (map bits8 data)"] by (auto simp: base32hex_encode_def base32_loop_groups)
  assume s: "to_ascii_lowercase (trim s) = base32hex_encode data"
  have "trim (base32hex_encode data) = base32hex_encode data \<and>
      to_ascii_lowercase (base32hex_encode data) = base32hex_encode data"
  proof -
    obtain gs pad where gs: "groups5 (concat (map bits8 data)) = map b32_digit gs" "\<forall>g \<in> set gs. length g = 5"
      using groups5_groups by blast
    then show ?thesis using digit_value(2)
      by (auto simp: base32hex_encode_def base32_loop_groups to_ascii_lowercase_def hd_map last_map intro!: trim_visible)
  qed
  with r s show "base32hex_decode s = Some data" by (simp add: base32hex_decode_def)
qed

theorem base32hex_round_trip_witness:
  "base32hex_decode ''CPNMUOG '' = Some [102, 111, 111, 98]"
proof -
  have e: "base32hex_encode [102, 111, 111, 98] = ''cpnmuog''" by code_simp
  have t: "to_ascii_lowercase (trim ''CPNMUOG '') = ''cpnmuog''" by code_simp
  show ?thesis using base32hex_round_trip [of "[102, 111, 111, 98]" "''CPNMUOG ''"] e t by simp
qed

section \<open>Key tags\<close>

text \<open>The sum of the rdata as 16-bit words, padded with a zero byte.\<close>

fun word_sum :: "bytes \<Rightarrow> nat" where
  "word_sum [] = 0"
| "word_sum [a] = 256 * unat a"
| "word_sum (a # b # bs) = 256 * unat a + unat b + word_sum bs"

lemma word_sum_bound: "word_sum bs \<le> 65535 * ((length bs + 1) div 2)"
proof (induction bs rule: word_sum.induct)
  case (2 a)
  have "256 * unat a \<le> 65535" using unat_u8 [of a] by linarith
  then show ?case by simp
next
  case (3 a b bs)
  have "256 * unat a + unat b \<le> 65535" using unat_u8 [of a] unat_u8 [of b] by linarith
  with 3 show ?case by simp
qed simp

lemma key_tag_loop_sum: "even i \<Longrightarrow> key_tag_loop i bs ac = ac + word_of_nat (word_sum bs)"
proof (induction bs arbitrary: i ac rule: word_sum.induct)
  case (3 a b bs)
  have "push_bit 8 (ucast a :: u32) = word_of_nat (256 * unat a)" "(ucast b :: u32) = word_of_nat (unat b)"
    by (simp_all add: push_bit_eq_mult of_nat_unat)
  moreover have "odd (i + 1)" "even (i + 1 + 1)" using 3(2) by simp_all
  ultimately show ?case using 3 by (simp add: algebra_simps even_iff_mod_2_eq_zero)
next
  case (2 a)
  have "push_bit 8 (ucast a :: u32) = word_of_nat (256 * unat a)" by (simp add: push_bit_eq_mult of_nat_unat)
  with 2 show ?case by (simp add: even_iff_mod_2_eq_zero)
qed simp

text \<open>
  Key tags. For the data of a record (at most 65535 bytes) the 32-bit sum does not wrap, so the
  tag is the sum of the 16-bit words with its carries added once.
\<close>

theorem key_tag_spec:
  assumes "length rdata \<le> 65535"
  shows "unat (calculate_key_tag rdata) = (word_sum rdata + word_sum rdata div 65536) mod 65536"
proof -
  define S where "S = word_sum rdata"
  define ac where "ac = (word_of_nat S :: u32)"
  have "65535 * ((length rdata + 1) div 2) \<le> 65535 * 32768" using assms by (intro mult_le_mono2) simp
  then have S: "S \<le> 2147450880" unfolding S_def using word_sum_bound [of rdata] by linarith
  have u: "unat ac = S" using S by (simp add: ac_def unsigned_of_nat take_bit_eq_mod)
  have m: "(0xFFFF :: u32) = mask 16" by (simp add: mask_eq_exp_minus_1)
  have c: "unat (drop_bit 16 ac AND 0xFFFF) = S div 65536"
  proof -
    have "unat (drop_bit 16 ac AND 0xFFFF) = take_bit 16 (drop_bit 16 (unat ac))"
      unfolding m take_bit_eq_mask [symmetric] unsigned_take_bit_eq unat_drop_bit_eq by simp
    also have "\<dots> = S div 65536" using S by (simp add: u drop_bit_eq_div take_bit_eq_mod)
    finally show ?thesis .
  qed
  have "S + S div 65536 < 4294967296" using S by linarith
  then have a: "unat (ac + (drop_bit 16 ac AND 0xFFFF)) = S + S div 65536" using u c by (simp add: unat_word_ariths)
  have t: "unat (ucast (w AND 0xFFFF) :: u16) = unat w mod 65536" for w :: u32
    unfolding m take_bit_eq_mask [symmetric]
    by (simp add: unsigned_ucast_eq take_bit_eq_mod unat_mod_distrib)
  have "unat (ucast ((ac + (drop_bit 16 ac AND 0xFFFF)) AND 0xFFFF) :: u16) =
      unat (ac + (drop_bit 16 ac AND 0xFFFF)) mod 65536" by (rule t)
  also have "\<dots> = (S + S div 65536) mod 65536" by (simp only: a)
  finally have r: "unat (ucast ((ac + (drop_bit 16 ac AND 0xFFFF)) AND 0xFFFF) :: u16) = (S + S div 65536) mod 65536" .
  show ?thesis
  proof (cases "rdata = []")
    case True
    then show ?thesis by (simp add: calculate_key_tag_def)
  next
    case False
    then have "calculate_key_tag rdata = ucast ((ac + (drop_bit 16 ac AND 0xFFFF)) AND 0xFFFF)"
      unfolding calculate_key_tag_def Let_def ac_def S_def using key_tag_loop_sum [of 0 rdata 0] by simp
    then show ?thesis unfolding r [symmetric] S_def [symmetric] by (rule arg_cong)
  qed
qed

theorem key_tag_spec_witness: "calculate_key_tag [1, 1, 3, 8] = 1033"
proof -
  have "unat (calculate_key_tag [1, 1, 3, 8]) = 1033" using key_tag_spec [of "[1, 1, 3, 8]"] by simp
  then show ?thesis by (simp add: word_unat_eq_iff)
qed

section \<open>DER reads back\<close>

lemma der_length_append: "der_length (xs @ ys) = der_length xs * 256 ^ length ys + der_length ys"
proof -
  have f: "foldl (\<lambda>l b. 256 * l + unat b) n ys = n * 256 ^ length ys + der_length ys" for n
  proof (induction ys arbitrary: n)
    case (Cons y ys)
    have y: "der_length (y # ys) = unat y * 256 ^ length ys + der_length ys"
      using Cons.IH [of "unat y"] by (simp add: der_length_def)
    show ?case using Cons.IH [of "256 * n + unat y"] y by (simp add: algebra_simps)
  qed (simp add: der_length_def)
  have "der_length (xs @ ys) = foldl (\<lambda>l b. 256 * l + unat b) (der_length xs) ys" by (simp add: der_length_def)
  with f show ?thesis by simp
qed

lemma der_length_Cons: "der_length (b # bs) = unat b * 256 ^ length bs + der_length bs"
  using der_length_append [of "[b]" bs] by (simp add: der_length_def)

lemma der_length_trim_zeros: "der_length (trim_zeros bs) = der_length bs"
  by (induction bs rule: trim_zeros.induct) (simp_all add: der_length_Cons)

lemma trim_zeros_length: "length (trim_zeros bs) \<le> length bs \<and> (bs \<noteq> [] \<longrightarrow> trim_zeros bs \<noteq> [])"
  by (induction bs rule: trim_zeros.induct) auto

lemma unat_small8: "n < 256 \<Longrightarrow> unat (word_of_nat n :: u8) = n"
  by (simp add: unsigned_of_nat take_bit_eq_mod)

lemma high_bit_clear: "n < 128 \<Longrightarrow> (word_of_nat n :: u8) AND 0x80 = 0"
proof -
  assume n: "n < 128"
  have "\<not> bit (word_of_nat n :: u8) 7" unfolding bit_word_nat using n by (simp add: bit_iff_odd)
  then have "\<not> bit ((word_of_nat n :: u8) AND push_bit 7 1) i" for i
    by (cases "i = 7", simp_all only: bit_simps) (auto simp: not_le)
  then have "(word_of_nat n :: u8) AND push_bit 7 1 = 0" by (intro bit_word_eqI) simp
  then show ?thesis by simp
qed

lemma der_parse_encoded:
  assumes "length c < 65536"
  shows "\<exists>el. der_parse (t # encode_asn1_length (length c) @ c @ rest) = ret (Some (el, rest)) \<and>
    der_tag el = t \<and> der_content el = c \<and> full_bytes el = t # encode_asn1_length (length c) @ c"
proof -
  consider "length c < 128" | "128 \<le> length c" "length c \<le> 255" | "256 \<le> length c" by linarith
  then show ?thesis
  proof cases
    case 1
    then show ?thesis by (simp add: der_parse_def encode_asn1_length_def high_bit_clear unat_small8)
  next
    case 2
    have b: "(0x81 :: u8) AND 0x80 \<noteq> 0" "unat ((0x81 :: u8) AND 0x7f) = 1" by simp_all
    from 2 b show ?thesis
      by (simp add: der_parse_def encode_asn1_length_def unat_small8 der_length_def take_Cons' drop_Cons')
  next
    case 3
    have b: "(0x82 :: u8) AND 0x80 \<noteq> 0" "unat ((0x82 :: u8) AND 0x7f) = 2" by simp_all
    have "length c div 256 < 256" "length c mod 256 < 256" using assms by auto
    then have l: "der_length [word_of_nat (length c div 256), word_of_nat (length c mod 256)] = length c"
      by (simp add: der_length_def unat_small8)
    from 3 b l show ?thesis
      by (simp add: der_parse_def encode_asn1_length_def numeral_2_eq_2)
  qed
qed

lemma encode_asn1_integer_content:
  assumes "val \<noteq> []" "length val < 65535"
  shows "\<exists>c. encode_asn1_integer val = 0x02 # encode_asn1_length (length c) @ c \<and> der_length c = der_length val \<and>
    c \<noteq> [] \<and> length c \<le> length val + 1 \<and> hd c AND 0x80 = 0"
proof -
  define p where "p = (trim_zeros val = [] \<or> hd (trim_zeros val) AND 0x80 \<noteq> 0)"
  define c where "c = (if p then [0] else []) @ trim_zeros val"
  have "encode_asn1_integer val = 0x02 # encode_asn1_length (length c) @ c"
    by (simp add: encode_asn1_integer_def c_def p_def Let_def)
  moreover have "der_length c = der_length val"
    by (simp add: c_def der_length_Cons der_length_trim_zeros)
  moreover have "c \<noteq> [] \<and> length c \<le> length val + 1 \<and> hd c AND 0x80 = 0"
    using trim_zeros_length [of val] by (auto simp: c_def p_def)
  ultimately show ?thesis by blast
qed

lemma encode_asn1_length_length: "length (encode_asn1_length n) \<le> 3"
  by (simp add: encode_asn1_length_def)

lemma rsa_der_shape:
  "rsa_dnskey_to_pkcs1_der pk \<noteq> panic \<and> (\<forall>der. rsa_dnskey_to_pkcs1_der pk = ret (Some der) \<longrightarrow>
    (\<exists>pre e m. pk = pre @ e @ m \<and> e \<noteq> [] \<and> m \<noteq> [] \<and>
      (pre = [word_of_nat (length e)] \<and> length e < 256 \<or> pre = 0 # to_be16 (word_of_nat (length e)) \<and> length e < 65536) \<and>
      der = 0x30 # encode_asn1_length (length (encode_asn1_integer m @ encode_asn1_integer e)) @
        encode_asn1_integer m @ encode_asn1_integer e))"
proof (cases "pk = [] \<or> pk ! 0 = 0 \<and> length pk < 3")
  case True
  then show ?thesis by (auto simp: rsa_dnskey_to_pkcs1_der_def)
next
  case False
  define l where "l = (if pk ! 0 = 0 then unat (get16 pk 1) else unat (pk ! 0))"
  define k where "k = (if pk ! 0 = 0 then 3 else 1 :: nat)"
  have head: "(if pk ! 0 = 0 then do { l \<leftarrow> count16 pk 1; ret (l, 3) } else ret (unat (pk ! 0), 1)) = ret (l, k)"
    using False by (auto simp: l_def k_def)
  show ?thesis
  proof (cases "length pk < k + l")
    case True
    with False head show ?thesis by (auto simp: rsa_dnskey_to_pkcs1_der_def)
  next
    case l: False
    define e m where "e = take l (drop k pk)" and "m = drop (k + l) pk"
    have "pk = take k pk @ e @ m"
      by (metis append_take_drop_id drop_drop e_def m_def add.commute)
    moreover have "length e = l" using l by (simp add: e_def)
    moreover have "take k pk = [word_of_nat l] \<and> l < 256 \<or> take k pk = 0 # to_be16 (word_of_nat l) \<and> l < 65536"
    proof (cases "pk ! 0 = 0")
      case True
      with False obtain b c r where "pk = 0 # b # c # r" by (cases pk; cases "tl pk"; cases "tl (tl pk)") auto
      then show ?thesis using unsigned_less [of "be16 b c"] by (simp add: l_def k_def get16_def)
    next
      case nz: False
      with False obtain b r where "pk = b # r" by (cases pk) auto
      with nz show ?thesis using unsigned_less [of b] by (simp add: l_def k_def)
    qed
    moreover have "m \<noteq> [] \<longleftrightarrow> length pk \<noteq> k + l" "take (length pk - (k + l)) m = m" using l by (auto simp: m_def)
    then have "rsa_dnskey_to_pkcs1_der pk = ret (if m = [] \<or> e = [] then None
        else Some (0x30 # encode_asn1_length (length (encode_asn1_integer m @ encode_asn1_integer e)) @
          encode_asn1_integer m @ encode_asn1_integer e))"
      unfolding rsa_dnskey_to_pkcs1_der_def head using False l
      by (auto simp: e_def [symmetric] m_def [symmetric] Let_def)
    ultimately show ?thesis
      by (intro conjI allI impI, simp) (intro exI [of _ "take k pk"] exI [of _ e] exI [of _ m], auto split: if_splits)
  qed
qed

text \<open>
  RSA keys. Converting the public key of a DNSKEY record never panics. The result parses back: an
  outer SEQUENCE with nothing after it, in it two INTEGERs with nothing after them, the first
  with the value of the modulus and the second with the value of the exponent, both positive
  (the top bit of the content is clear) and not longer than one byte more than the key's.
\<close>

theorem rsa_der_round_trip:
  assumes "length pk \<le> 65500"
  shows "rsa_dnskey_to_pkcs1_der pk \<noteq> panic \<and>
    (\<forall>der. rsa_dnskey_to_pkcs1_der pk = ret (Some der) \<longrightarrow>
      (\<exists>pre e m s i j r. pk = pre @ e @ m \<and> e \<noteq> [] \<and> m \<noteq> [] \<and>
        (pre = [word_of_nat (length e)] \<and> length e < 256 \<or> pre = 0 # to_be16 (word_of_nat (length e))) \<and>
        der_parse der = ret (Some (s, [])) \<and> der_tag s = 0x30 \<and>
        der_parse (der_content s) = ret (Some (i, r)) \<and> der_parse r = ret (Some (j, [])) \<and>
        der_tag i = 2 \<and> der_length (der_content i) = der_length m \<and> hd (der_content i) AND 0x80 = 0 \<and>
        der_tag j = 2 \<and> der_length (der_content j) = der_length e \<and> hd (der_content j) AND 0x80 = 0))"
proof (intro conjI allI impI)
  show "rsa_dnskey_to_pkcs1_der pk \<noteq> panic" using rsa_der_shape by blast
  fix der
  assume "rsa_dnskey_to_pkcs1_der pk = ret (Some der)"
  then obtain pre e m where pk: "pk = pre @ e @ m" "e \<noteq> []" "m \<noteq> []"
      "pre = [word_of_nat (length e)] \<and> length e < 256 \<or> pre = 0 # to_be16 (word_of_nat (length e))"
    and der: "der = 0x30 # encode_asn1_length (length (encode_asn1_integer m @ encode_asn1_integer e)) @
        encode_asn1_integer m @ encode_asn1_integer e" using rsa_der_shape [of pk] by metis
  have len: "length e + length m < 65500" "length e < 65535" "length m < 65535" using assms pk by auto
  obtain cm where cm: "encode_asn1_integer m = 0x02 # encode_asn1_length (length cm) @ cm" "der_length cm = der_length m"
      "length cm \<le> length m + 1" "hd cm AND 0x80 = 0"
    using encode_asn1_integer_content [OF pk(3) len(3)] by blast
  obtain ce where ce: "encode_asn1_integer e = 0x02 # encode_asn1_length (length ce) @ ce" "der_length ce = der_length e"
      "length ce \<le> length e + 1" "hd ce AND 0x80 = 0"
    using encode_asn1_integer_content [OF pk(2) len(2)] by blast
  have "length (encode_asn1_integer m @ encode_asn1_integer e) < 65536"
    using len(1) cm(1,3) ce(1,3) encode_asn1_length_length [of "length cm"] encode_asn1_length_length [of "length ce"] by simp
  from der_parse_encoded [OF this, where t = "0x30" and rest = "[]"] obtain s where
    s: "der_parse der = ret (Some (s, []))" "der_tag s = 0x30" "der_content s = encode_asn1_integer m @ encode_asn1_integer e"
    unfolding der by auto
  obtain i where i: "der_parse (der_content s) = ret (Some (i, encode_asn1_integer e))" "der_tag i = 2" "der_content i = cm"
    using der_parse_encoded [of cm 2 "encode_asn1_integer e"] cm(1,3) len s(3) by auto
  obtain j where j: "der_parse (encode_asn1_integer e) = ret (Some (j, []))" "der_tag j = 2" "der_content j = ce"
    using der_parse_encoded [of ce 2 "[]"] ce(1,3) len by auto
  have "der_length (der_content i) = der_length m" "hd (der_content i) AND 0x80 = 0"
      "der_length (der_content j) = der_length e" "hd (der_content j) AND 0x80 = 0"
    using cm ce i(3) j(3) by simp_all
  with pk s i j show "\<exists>pre e m s i j r. pk = pre @ e @ m \<and> e \<noteq> [] \<and> m \<noteq> [] \<and>
        (pre = [word_of_nat (length e)] \<and> length e < 256 \<or> pre = 0 # to_be16 (word_of_nat (length e))) \<and>
        der_parse der = ret (Some (s, [])) \<and> der_tag s = 0x30 \<and>
        der_parse (der_content s) = ret (Some (i, r)) \<and> der_parse r = ret (Some (j, [])) \<and>
        der_tag i = 2 \<and> der_length (der_content i) = der_length m \<and> hd (der_content i) AND 0x80 = 0 \<and>
        der_tag j = 2 \<and> der_length (der_content j) = der_length e \<and> hd (der_content j) AND 0x80 = 0"
    by blast
qed

theorem rsa_der_round_trip_witness:
  "\<exists>s i r j. der_parse [0x30, 9, 2, 2, 0, 200, 2, 3, 1, 0, 1] = ret (Some (s, [])) \<and>
     der_parse (der_content s) = ret (Some (i, r)) \<and> der_parse r = ret (Some (j, [])) \<and> der_tag i = 2 \<and> der_tag j = 2"
proof -
  have "rsa_dnskey_to_pkcs1_der [3, 1, 0, 1, 200] = ret (Some [0x30, 9, 2, 2, 0, 200, 2, 3, 1, 0, 1])" by code_simp
  moreover have "length [3, 1, 0, 1, 200 :: u8] \<le> 65500" by simp
  ultimately show ?thesis using rsa_der_round_trip [of "[3, 1, 0, 1, 200]"] by blast
qed

section \<open>Where the hexadecimal reader is lenient\<close>

text \<open>\<open>from_str_radix\<close> accepts a sign, and a slice inside a character panics.\<close>

lemma hex_decode_sign: "hex_decode ''+5'' = ret (Some [5])"
  by code_simp

lemma hex_decode_inside_char: "hex_decode (map char_of [0xE2, 0x82, 0xAC, 0x41 :: nat]) = panic"
  by code_simp

lemma hex_loop_ascii: "\<forall>c \<in> set s. code c < 128 \<Longrightarrow> hex_loop s i \<noteq> panic"
proof (induction s i rule: hex_loop.induct)
  case (1 s i)
  show ?case
  proof (cases "i + 1 < length s")
    case True
    have a: "code (s ! j) < 128" if "j < length s" for j using that "1.prems" by simp
    have "char_boundary s i" using True a [of i] by (simp add: char_boundary_def)
    moreover have "char_boundary s (i + 2)" using True a [of "i + 2"]
      by (cases "i + 2 = length s") (simp_all add: char_boundary_def)
    ultimately show ?thesis using "1.IH" [OF True] "1.prems" True
      by (subst hex_loop.simps) (auto split: option.split)
  qed (simp add: hex_loop.simps)
qed

end
