(* ===== verification/Dnssec_Records.thy ===== *)
theory Dnssec_Records
  imports Dnssec_Codec Dns_Message
begin

text \<open>
  The records that DNSSEC validation reads from a response, \<open>src/src/dns/dnssec.rs\<close>: the
  algorithms, the parsers of the record data, the two loops over the records of a message
  (\<open>extract_covered_rrset\<close>, \<open>extract_dnssec_records\<close>) and the data that a signature covers.
  \<open>each_record\<close> is the loop that both share, \<open>break\<close> included; \<open>read_rr\<close> is the head of its body.
\<close>

section \<open>Algorithms and records\<close>

datatype dnssec_algorithm = RsaSha1 | DsaSha1 | RsaSha256 | RsaSha512 | EcdsaP256Sha256 | EcdsaP384Sha384
  | Ed25519 | Ed448 | Unknown u8

definition algorithm_from :: "u8 \<Rightarrow> dnssec_algorithm" where
  "algorithm_from val =
    (if val = 5 then RsaSha1 else if val = 3 then DsaSha1 else if val = 8 then RsaSha256
     else if val = 10 then RsaSha512 else if val = 13 then EcdsaP256Sha256 else if val = 14 then EcdsaP384Sha384
     else if val = 15 then Ed25519 else if val = 16 then Ed448 else Unknown val)"

fun algorithm_text :: "dnssec_algorithm \<Rightarrow> string" where
  "algorithm_text EcdsaP256Sha256 = ''ECDSA P-256 (Alg 13)''"
| "algorithm_text Ed25519 = ''Ed25519 (Alg 15)''"
| "algorithm_text RsaSha256 = ''RSA/SHA-256 (Alg 8)''"
| "algorithm_text EcdsaP384Sha384 = ''ECDSA P-384 (Alg 14)''"
| "algorithm_text Ed448 = ''Ed448 (Alg 16)''"
| "algorithm_text RsaSha512 = ''RSA/SHA-512 (Alg 10)''"
| "algorithm_text RsaSha1 = ''RSA/SHA-1 (Alg 5)''"
| "algorithm_text DsaSha1 = ''DSA/SHA-1 (Alg 3)''"
| "algorithm_text (Unknown n) = ''Unknown (Alg '' @ decimal (unat n) @ '')''"

record rrsig_record =
  sig_name :: string
  type_covered :: u16
  sig_algorithm :: dnssec_algorithm
  sig_labels :: u8
  original_ttl :: u32
  sig_expiration :: u32
  sig_inception :: u32
  sig_key_tag :: u16
  signer_name :: string
  signature :: bytes
  rdata_header_bytes :: bytes

record dnskey_record =
  key_name :: string
  key_flags :: u16
  key_protocol :: u8
  key_algorithm :: dnssec_algorithm
  public_key :: bytes
  raw_rdata :: bytes

record ds_record =
  ds_name :: string
  ds_key_tag :: u16
  ds_algorithm :: dnssec_algorithm
  ds_digest_type :: u8
  ds_digest :: bytes

record extracted_dnssec_records =
  rrsigs :: "rrsig_record list"
  dnskeys :: "dnskey_record list"
  ds_records :: "ds_record list"
  nsecs :: "nsec_record list"
  nsec3s :: "nsec3_record list"

section \<open>Record data\<close>

definition parse_rrsig_rdata :: "bytes \<Rightarrow> string \<Rightarrow> rrsig_record option rust" where
  "parse_rrsig_rdata rdata name =
    (if length rdata < 18 then ret None
     else do {
       covered \<leftarrow> rd16 rdata 0;
       alg \<leftarrow> rd rdata 2;
       labels \<leftarrow> rd rdata 3;
       ttl \<leftarrow> rd32 rdata 4;
       expiration \<leftarrow> rd32 rdata 8;
       inception \<leftarrow> rd32 rdata 12;
       tag \<leftarrow> rd16 rdata 16;
       r \<leftarrow> parse_name_with_offset rdata 18;
       case r of
         None \<Rightarrow> ret None
       | Some (signer, next_offset) \<Rightarrow>
           if next_offset > length rdata then ret None
           else do {
             sig \<leftarrow> slice rdata next_offset (length rdata);
             header \<leftarrow> slice rdata 0 18;
             ret (Some \<lparr>sig_name = name, type_covered = covered, sig_algorithm = algorithm_from alg,
               sig_labels = labels, original_ttl = ttl, sig_expiration = expiration, sig_inception = inception,
               sig_key_tag = tag, signer_name = signer, signature = sig, rdata_header_bytes = header\<rparr>) } })"

definition parse_dnskey_rdata :: "bytes \<Rightarrow> string \<Rightarrow> dnskey_record option rust" where
  "parse_dnskey_rdata rdata name =
    (if length rdata < 4 then ret None
     else do {
       flags \<leftarrow> rd16 rdata 0;
       protocol \<leftarrow> rd rdata 2;
       alg \<leftarrow> rd rdata 3;
       pk \<leftarrow> slice rdata 4 (length rdata);
       ret (Some \<lparr>key_name = name, key_flags = flags, key_protocol = protocol,
         key_algorithm = algorithm_from alg, public_key = pk, raw_rdata = rdata\<rparr>) })"

definition is_zone_key :: "dnskey_record \<Rightarrow> bool" where
  "is_zone_key k \<longleftrightarrow> key_flags k AND 0x0100 \<noteq> 0"

definition is_secure_entry_point :: "dnskey_record \<Rightarrow> bool" where
  "is_secure_entry_point k \<longleftrightarrow> key_flags k AND 0x0001 \<noteq> 0"

definition key_tag_of :: "dnskey_record \<Rightarrow> u16" where
  "key_tag_of k = calculate_key_tag (raw_rdata k)"

definition parse_ds_rdata :: "bytes \<Rightarrow> string \<Rightarrow> ds_record option rust" where
  "parse_ds_rdata rdata name =
    (if length rdata < 4 then ret None
     else do {
       tag \<leftarrow> rd16 rdata 0;
       alg \<leftarrow> rd rdata 2;
       dtype \<leftarrow> rd rdata 3;
       dg \<leftarrow> slice rdata 4 (length rdata);
       ret (Some \<lparr>ds_name = name, ds_key_tag = tag, ds_algorithm = algorithm_from alg,
         ds_digest_type = dtype, ds_digest = dg\<rparr>) })"

definition parse_nsec_rdata :: "bytes \<Rightarrow> nat \<Rightarrow> nat \<Rightarrow> string \<Rightarrow> nsec_record option rust" where
  "parse_nsec_rdata wire rdata_offset rdlen name = do {
     r \<leftarrow> parse_name_with_offset wire rdata_offset;
     case r of
       None \<Rightarrow> ret None
     | Some (next, next_offset) \<Rightarrow>
         if next_offset > rdata_offset + rdlen then ret None
         else do {
           maps \<leftarrow> slice wire next_offset (rdata_offset + rdlen);
           ret (Some \<lparr>ns_name = name, next_domain_name = next, ns_bit_maps = maps\<rparr>) } }"

definition owner_hash_of :: "string \<Rightarrow> bytes" where
  "owner_hash_of name = unwrap_or [] (base32hex_decode (hd (split_char CHR ''.'' (trim_end_char CHR ''.'' name))))"

definition parse_nsec3_rdata :: "bytes \<Rightarrow> string \<Rightarrow> nsec3_record option rust" where
  "parse_nsec3_rdata rdata name =
    (if length rdata < 5 then ret None
     else do {
       alg \<leftarrow> rd rdata 0;
       flags \<leftarrow> rd rdata 1;
       iters \<leftarrow> rd16 rdata 2;
       salt_len \<leftarrow> rd rdata 4;
       let salt_end = 5 + unat salt_len;
       if salt_end > length rdata then ret None
       else do {
         s \<leftarrow> slice rdata 5 salt_end;
         if salt_end \<ge> length rdata then ret None
         else do {
           hash_len \<leftarrow> rd rdata salt_end;
           let hash_end = salt_end + 1 + unat hash_len;
           if hash_end > length rdata then ret None
           else do {
             next \<leftarrow> slice rdata (salt_end + 1) hash_end;
             maps \<leftarrow> slice rdata hash_end (length rdata);
             ret (Some \<lparr>n3_name = name, hash_algorithm = alg, n3_flags = flags, iterations = iters, salt = s,
               next_hashed_owner = next, next_hashed_owner_b32 = base32hex_encode next,
               n3_bit_maps = maps, owner_hash = owner_hash_of name\<rparr>) } } } })"

section \<open>The loop over the records of a message\<close>

record rr_view =
  rr_name :: string
  rr_type :: u16
  rr_class :: u16
  rr_start :: nat
  rr_len :: nat
  rr_data :: bytes

text \<open>The head of the loops' body: \<open>None\<close> is \<open>break\<close>, otherwise the record and the position after it.\<close>

definition read_rr :: "bytes \<Rightarrow> nat \<Rightarrow> (rr_view \<times> nat) option rust" where
  "read_rr wire pos =
    (if pos \<ge> length wire then ret None
     else do {
       r \<leftarrow> parse_name_with_offset wire pos;
       case r of
         None \<Rightarrow> ret None
       | Some (name, p) \<Rightarrow>
           if p + 10 > length wire then ret None
           else do {
             rtype \<leftarrow> rd16 wire p;
             rclass \<leftarrow> rd16 wire (p + 2);
             rdlen \<leftarrow> count16 wire (p + 8);
             if p + 10 + rdlen > length wire then ret None
             else do {
               rdata \<leftarrow> slice wire (p + 10) (p + 10 + rdlen);
               ret (Some (\<lparr>rr_name = name, rr_type = rtype, rr_class = rclass, rr_start = p + 10,
                           rr_len = rdlen, rr_data = rdata\<rparr>, p + 10 + rdlen)) } } })"

primrec each_record :: "(rr_view \<Rightarrow> 's \<Rightarrow> 's rust) \<Rightarrow> nat \<Rightarrow> bytes \<Rightarrow> nat \<Rightarrow> 's \<Rightarrow> 's rust" where
  "each_record body 0 wire pos records = ret records"
| "each_record body (Suc n) wire pos records = do {
     r \<leftarrow> read_rr wire pos;
     case r of
       None \<Rightarrow> ret records
     | Some (rr, pos) \<Rightarrow> do { records \<leftarrow> body rr records; each_record body n wire pos records } }"

text \<open>The counters, the questions skipped, then the loop; \<open>records\<close> is returned on every early exit.\<close>

definition scan_records :: "(rr_view \<Rightarrow> 's \<Rightarrow> 's rust) \<Rightarrow> bytes \<Rightarrow> 's \<Rightarrow> 's rust" where
  "scan_records body wire records =
    (if length wire < 12 then ret records
     else do {
       qdcount \<leftarrow> count16 wire 4;
       ancount \<leftarrow> count16 wire 6;
       nscount \<leftarrow> count16 wire 8;
       arcount \<leftarrow> count16 wire 10;
       q \<leftarrow> walk question_step qdcount wire 12;
       case q of
         None \<Rightarrow> ret records
       | Some pos \<Rightarrow> each_record body (ancount + nscount + arcount) wire pos records })"

record raw_resource_record =
  owner_wire :: bytes
  raw_type :: u16
  raw_class :: u16
  raw_data :: bytes

definition covered_body :: "u16 \<Rightarrow> string \<Rightarrow> rr_view \<Rightarrow> raw_resource_record list \<Rightarrow> raw_resource_record list rust" where
  "covered_body covered_type owner_name rr records =
    ret (if rr_type rr = covered_type \<and>
            eq_ignore_ascii_case (trim_end_char CHR ''.'' (rr_name rr)) (trim_end_char CHR ''.'' owner_name)
         then records @ [\<lparr>owner_wire = canonical_wire_name owner_name, raw_type = rr_type rr,
                          raw_class = rr_class rr, raw_data = rr_data rr\<rparr>]
         else records)"

text \<open>\<open>dedup_by(|a, b| a.rdata == b.rdata)\<close> keeps the first of a run.\<close>

fun dedup_by_rdata :: "raw_resource_record list \<Rightarrow> raw_resource_record list" where
  "dedup_by_rdata (a # b # rs) =
    (if raw_data a = raw_data b then dedup_by_rdata (a # rs) else a # dedup_by_rdata (b # rs))"
| "dedup_by_rdata rs = rs"

text \<open>An early exit returns no records, which sorting leaves alone.\<close>

definition extract_covered_rrset :: "bytes \<Rightarrow> u16 \<Rightarrow> string \<Rightarrow> raw_resource_record list rust" where
  "extract_covered_rrset wire covered_type owner_name = do {
     records \<leftarrow> scan_records (covered_body covered_type owner_name) wire [];
     ret (dedup_by_rdata (sort_key raw_data records)) }"

definition extract_body :: "bytes \<Rightarrow> rr_view \<Rightarrow> extracted_dnssec_records \<Rightarrow> extracted_dnssec_records rust" where
  "extract_body wire rr records =
    (if rr_type rr = 46 then do {
       r \<leftarrow> parse_rrsig_rdata (rr_data rr) (rr_name rr);
       ret (case r of Some x \<Rightarrow> records\<lparr>rrsigs := rrsigs records @ [x]\<rparr> | None \<Rightarrow> records) }
     else if rr_type rr = 48 then do {
       r \<leftarrow> parse_dnskey_rdata (rr_data rr) (rr_name rr);
       ret (case r of Some x \<Rightarrow> records\<lparr>dnskeys := dnskeys records @ [x]\<rparr> | None \<Rightarrow> records) }
     else if rr_type rr = 43 then do {
       r \<leftarrow> parse_ds_rdata (rr_data rr) (rr_name rr);
       ret (case r of Some x \<Rightarrow> records\<lparr>ds_records := ds_records records @ [x]\<rparr> | None \<Rightarrow> records) }
     else if rr_type rr = 47 then do {
       r \<leftarrow> parse_nsec_rdata wire (rr_start rr) (rr_len rr) (rr_name rr);
       ret (case r of Some x \<Rightarrow> records\<lparr>nsecs := nsecs records @ [x]\<rparr> | None \<Rightarrow> records) }
     else if rr_type rr = 50 then do {
       r \<leftarrow> parse_nsec3_rdata (rr_data rr) (rr_name rr);
       ret (case r of Some x \<Rightarrow> records\<lparr>nsec3s := nsec3s records @ [x]\<rparr> | None \<Rightarrow> records) }
     else ret records)"

definition no_dnssec_records :: extracted_dnssec_records where
  "no_dnssec_records = \<lparr>rrsigs = [], dnskeys = [], ds_records = [], nsecs = [], nsec3s = []\<rparr>"

definition extract_dnssec_records :: "bytes \<Rightarrow> extracted_dnssec_records rust" where
  "extract_dnssec_records wire = scan_records (extract_body wire) wire no_dnssec_records"

section \<open>What a signature covers\<close>

definition rr_signed_form :: "rrsig_record \<Rightarrow> raw_resource_record \<Rightarrow> bytes" where
  "rr_signed_form rrsig rr =
     owner_wire rr @ to_be16 (raw_type rr) @ to_be16 (raw_class rr) @ to_be32 (original_ttl rrsig) @
     to_be16 (word_of_nat (length (raw_data rr))) @ raw_data rr"

definition build_rrsig_signed_data :: "rrsig_record \<Rightarrow> raw_resource_record list \<Rightarrow> bytes" where
  "build_rrsig_signed_data rrsig rrset =
     rdata_header_bytes rrsig @ canonical_wire_name (signer_name rrsig) @ concat (map (rr_signed_form rrsig) rrset)"

section \<open>The parsers never panic\<close>

lemma parse_name_outcome: "\<exists>r. parse_name_with_offset buf pos = ret r"
  using parse_name_total [of buf pos True] by (cases "parse_name_with_offset buf pos") (simp_all add: parse_name_with_offset_def)

lemma parse_rrsig_total [simp]: "parse_rrsig_rdata rdata name \<noteq> None"
proof (cases "length rdata < 18")
  case False
  obtain r where r: "parse_name_with_offset rdata 18 = Some r" using parse_name_outcome by blast
  with False show ?thesis by (cases r) (auto simp: parse_rrsig_rdata_def)
qed (simp add: parse_rrsig_rdata_def)

lemma parse_dnskey_total [simp]: "parse_dnskey_rdata rdata name \<noteq> None"
  by (cases "length rdata < 4") (simp_all add: parse_dnskey_rdata_def)

lemma parse_ds_total [simp]: "parse_ds_rdata rdata name \<noteq> None"
  by (cases "length rdata < 4") (simp_all add: parse_ds_rdata_def)

lemma parse_nsec_total:
  assumes "off + len \<le> length wire" shows "parse_nsec_rdata wire off len name \<noteq> None"
proof -
  obtain r where r: "parse_name_with_offset wire off = Some r" using parse_name_outcome by blast
  with assms show ?thesis by (cases r) (auto simp: parse_nsec_rdata_def)
qed

lemma parse_nsec3_total [simp]: "parse_nsec3_rdata rdata name \<noteq> None"
proof (cases "length rdata < 5")
  case False
  then have ne: "rdata \<noteq> []" by auto
  consider "length rdata < 5 + unat (rdata ! 4)" | "length rdata = 5 + unat (rdata ! 4)" |
    "5 + unat (rdata ! 4) < length rdata" "length rdata < 6 + unat (rdata ! 4) + unat (rdata ! (5 + unat (rdata ! 4)))" |
    "6 + unat (rdata ! 4) + unat (rdata ! (5 + unat (rdata ! 4))) \<le> length rdata" by linarith
  then show ?thesis using False ne by cases (simp_all add: parse_nsec3_rdata_def Let_def)
qed (simp add: parse_nsec3_rdata_def)

lemma read_rr_cases:
  "read_rr wire pos = ret None \<or> (\<exists>rr q. read_rr wire pos = ret (Some (rr, q)) \<and> rr_start rr + rr_len rr = q \<and>
     q \<le> length wire \<and> rr_data rr = take (rr_len rr) (drop (rr_start rr) wire))"
proof (cases "length wire \<le> pos")
  case False
  obtain r where r: "parse_name_with_offset wire pos = Some r" using parse_name_outcome by blast
  show ?thesis
  proof (cases r)
    case None
    with r False show ?thesis by (simp add: read_rr_def)
  next
    case (Some np)
    obtain n p where np: "np = (n, p)" by fastforce
    show ?thesis
    proof (cases "p + 10 > length wire \<or> p + 10 + unat (get16 wire (p + 8)) > length wire")
      case True
      with r False Some np show ?thesis by (cases "p + 10 > length wire") (simp_all add: read_rr_def)
    next
      case inside: False
      with r False Some np show ?thesis by (simp add: read_rr_def)
    qed
  qed
qed (simp add: read_rr_def)

lemma read_rr_inside:
  "read_rr wire pos = ret (Some (rr, q)) \<Longrightarrow> rr_start rr + rr_len rr = q \<and> q \<le> length wire \<and>
    rr_data rr = take (rr_len rr) (drop (rr_start rr) wire)"
  using read_rr_cases [of wire pos] by auto

section \<open>Both loops fold over the records of the message\<close>

text \<open>The records a loop visits, up to the first one that does not parse.\<close>

primrec views :: "nat \<Rightarrow> bytes \<Rightarrow> nat \<Rightarrow> rr_view list" where
  "views 0 wire pos = []"
| "views (Suc n) wire pos = (case read_rr wire pos of
     Some (Some (rr, p)) \<Rightarrow> rr # views n wire p | _ \<Rightarrow> [])"

definition all_records :: "bytes \<Rightarrow> rr_view list" where
  "all_records wire = (if length wire < 12 then []
     else case walk question_step (unat (get16 wire 4)) wire 12 of
       Some (Some pos) \<Rightarrow> views (unat (get16 wire 6) + unat (get16 wire 8) + unat (get16 wire 10)) wire pos
     | _ \<Rightarrow> [])"

lemma views_inside: "rr \<in> set (views n wire pos) \<Longrightarrow> rr_start rr + rr_len rr \<le> length wire \<and>
    rr_data rr = take (rr_len rr) (drop (rr_start rr) wire)"
proof (induction n arbitrary: pos)
  case (Suc n)
  from read_rr_cases [of wire pos] show ?case
  proof (elim disjE exE conjE)
    fix v p assume v: "read_rr wire pos = ret (Some (v, p))" "rr_start v + rr_len v = p" "p \<le> length wire"
      "rr_data v = take (rr_len v) (drop (rr_start v) wire)"
    with Suc.prems have "rr = v \<or> rr \<in> set (views n wire p)" by simp
    with v Suc.IH [of p] show ?thesis by auto
  next
    assume "read_rr wire pos = ret None"
    with Suc.prems show ?thesis by simp
  qed
qed simp

lemma all_records_inside: "rr \<in> set (all_records wire) \<Longrightarrow> rr_start rr + rr_len rr \<le> length wire \<and>
    rr_data rr = take (rr_len rr) (drop (rr_start rr) wire)"
  by (auto simp: all_records_def dest: views_inside split: if_splits option.splits)

text \<open>
  A body that does not panic on a record inside the message. The laws are the two the loops
  need; the conclusion is that a scan is a fold over \<open>all_records\<close>.
\<close>

locale record_reader =
  fixes wire :: bytes and body :: "rr_view \<Rightarrow> 's \<Rightarrow> 's rust" and act :: "rr_view \<Rightarrow> 's \<Rightarrow> 's"
  assumes body_act: "rr_start rr + rr_len rr \<le> length wire \<Longrightarrow> body rr s = ret (act rr s)"
begin

lemma each_record_fold: "each_record body n wire pos s = ret (fold act (views n wire pos) s)"
proof (induction n arbitrary: pos s)
  case (Suc n)
  obtain r where r: "read_rr wire pos = Some r" using read_rr_cases [of wire pos] by blast
  show ?case
  proof (cases r)
    case (Some rp)
    obtain rr p where "rp = (rr, p)" by fastforce
    with r Some read_rr_inside [of wire pos rr p] show ?thesis by (simp add: Suc.IH body_act)
  qed (simp add: r)
qed simp

lemma scan_fold: "scan_records body wire s = ret (fold act (all_records wire) s)"
proof (cases "length wire < 12")
  case False
  obtain q where "walk question_step (unat (get16 wire 4)) wire 12 = Some q"
    using questions.walk_total by blast
  with False show ?thesis by (cases q) (simp_all add: scan_records_def all_records_def each_record_fold)
qed (simp add: scan_records_def all_records_def)

end

definition covered_act :: "u16 \<Rightarrow> string \<Rightarrow> rr_view \<Rightarrow> raw_resource_record list \<Rightarrow> raw_resource_record list" where
  "covered_act covered_type owner_name rr records = the (covered_body covered_type owner_name rr records)"

interpretation covered: record_reader wire "covered_body t owner" "covered_act t owner" for wire t owner
  by unfold_locales (simp add: covered_act_def covered_body_def)

definition extract_act :: "bytes \<Rightarrow> rr_view \<Rightarrow> extracted_dnssec_records \<Rightarrow> extracted_dnssec_records" where
  "extract_act wire rr records = the (extract_body wire rr records)"

lemma bind_ret_total: "m \<noteq> None \<Longrightarrow> m \<bind> (\<lambda>r. ret (g r)) \<noteq> None"
  by auto

lemma extract_body_total: "rr_start rr + rr_len rr \<le> length wire \<Longrightarrow> extract_body wire rr s \<noteq> None"
  unfolding extract_body_def if_split [of "\<lambda>x. x \<noteq> None"]
  by (intro conjI impI bind_ret_total parse_rrsig_total parse_dnskey_total parse_ds_total parse_nsec3_total parse_nsec_total)
    simp_all

interpretation extracting: record_reader wire "extract_body wire" "extract_act wire" for wire
  by unfold_locales (use extract_body_total in \<open>fastforce simp: extract_act_def\<close>)

section \<open>The canonical record set\<close>

definition covers_rr :: "u16 \<Rightarrow> string \<Rightarrow> rr_view \<Rightarrow> bool" where
  "covers_rr t owner rr \<longleftrightarrow> rr_type rr = t \<and>
     eq_ignore_ascii_case (trim_end_char CHR ''.'' (rr_name rr)) (trim_end_char CHR ''.'' owner)"

definition raw_of :: "string \<Rightarrow> rr_view \<Rightarrow> raw_resource_record" where
  "raw_of owner rr = \<lparr>owner_wire = canonical_wire_name owner, raw_type = rr_type rr, raw_class = rr_class rr,
     raw_data = rr_data rr\<rparr>"

lemma fold_covered: "fold (covered_act t owner) rs acc = acc @ map (raw_of owner) (filter (covers_rr t owner) rs)"
  by (induction rs arbitrary: acc) (auto simp: covered_act_def covered_body_def covers_rr_def raw_of_def)

lemma extract_covered: "extract_covered_rrset wire t owner =
    ret (dedup_by_rdata (sort_key raw_data (map (raw_of owner) (filter (covers_rr t owner) (all_records wire)))))"
  unfolding extract_covered_rrset_def covered.scan_fold fold_covered by simp

lemma dedup_sorted:
  "sorted (map raw_data rs) \<Longrightarrow> sorted_wrt (\<lambda>a b. raw_data a < raw_data b) (dedup_by_rdata rs) \<and>
     raw_data ` set (dedup_by_rdata rs) = raw_data ` set rs \<and> set (dedup_by_rdata rs) \<subseteq> set rs"
proof (induction rs rule: dedup_by_rdata.induct)
  case (1 a b rs)
  show ?case
  proof (cases "raw_data a = raw_data b")
    case True
    with 1 show ?thesis by auto
  next
    case False
    with 1 have ih: "sorted_wrt (\<lambda>a b. raw_data a < raw_data b) (dedup_by_rdata (b # rs))"
      "raw_data ` set (dedup_by_rdata (b # rs)) = raw_data ` set (b # rs)" "set (dedup_by_rdata (b # rs)) \<subseteq> set (b # rs)" by auto
    have "raw_data a < raw_data x" if "x \<in> set (dedup_by_rdata (b # rs))" for x
    proof -
      have "raw_data a < raw_data b" using False "1.prems" by auto
      moreover have "raw_data b \<le> raw_data x" using that ih(3) "1.prems" by auto
      ultimately show ?thesis by simp
    qed
    with False ih show ?thesis by auto
  qed
qed auto

lemma covered_set:
  assumes "extract_covered_rrset wire t owner = ret rs"
  shows "sorted_wrt (\<lambda>a b. raw_data a < raw_data b) rs"
    and "raw_data ` set rs = rr_data ` {rr \<in> set (all_records wire). covers_rr t owner rr}"
    and "\<forall>r \<in> set rs. \<exists>rr \<in> set (all_records wire). covers_rr t owner rr \<and> r = raw_of owner rr"
proof -
  let ?raw = "sort_key raw_data (map (raw_of owner) (filter (covers_rr t owner) (all_records wire)))"
  have rs: "rs = dedup_by_rdata ?raw" using assms by (simp add: extract_covered)
  have s: "sorted (map raw_data ?raw)" by (rule sorted_sort_key)
  from dedup_sorted [OF s] show "sorted_wrt (\<lambda>a b. raw_data a < raw_data b) rs"
      "raw_data ` set rs = rr_data ` {rr \<in> set (all_records wire). covers_rr t owner rr}"
      "\<forall>r \<in> set rs. \<exists>rr \<in> set (all_records wire). covers_rr t owner rr \<and> r = raw_of owner rr"
    by (auto simp: rs image_image raw_of_def)
qed

lemma strict_data_unique:
  "sorted_wrt (\<lambda>a b. raw_data a < raw_data b) rs \<Longrightarrow> sorted_wrt (\<lambda>a b. raw_data a < raw_data b) rs' \<Longrightarrow>
    raw_data ` set rs = raw_data ` set rs' \<Longrightarrow> map raw_data rs = map raw_data rs'"
  by (rule strict_sorted_equal) (simp_all add: sorted_wrt_map)

text \<open>
  The record set that a signature covers. Reading it never panics. The result holds the data
  of exactly the records of the message with that type and that owner, letters of either case
  and a final dot apart, each once and in strictly ascending order of the data, all under the
  canonical form of the owner name given. So two messages that hold the same data under the
  owner, in one class, give the same bytes to verify, in whatever order and however often each
  holds them.
\<close>

theorem rrset_canonical:
  "\<exists>rs. extract_covered_rrset wire t owner = ret rs \<and>
     sorted_wrt (\<lambda>a b. raw_data a < raw_data b) rs \<and>
     raw_data ` set rs = rr_data ` {rr \<in> set (all_records wire). covers_rr t owner rr} \<and>
     (\<forall>r \<in> set rs. owner_wire r = canonical_wire_name owner \<and> raw_type r = t) \<and>
     ((\<forall>rr \<in> set (all_records wire @ all_records wire'). covers_rr t owner rr \<longrightarrow> rr_class rr = c) \<and>
      rr_data ` {rr \<in> set (all_records wire). covers_rr t owner rr} = rr_data ` {rr \<in> set (all_records wire'). covers_rr t owner rr} \<longrightarrow>
      extract_covered_rrset wire' t owner = ret rs)"
proof -
  obtain rs where rs: "extract_covered_rrset wire t owner = ret rs" by (simp add: extract_covered)
  obtain rs' where rs': "extract_covered_rrset wire' t owner = ret rs'" by (simp add: extract_covered)
  have eq: "rs' = rs" if "\<forall>rr \<in> set (all_records wire @ all_records wire'). covers_rr t owner rr \<longrightarrow> rr_class rr = c"
    and "rr_data ` {rr \<in> set (all_records wire). covers_rr t owner rr} = rr_data ` {rr \<in> set (all_records wire'). covers_rr t owner rr}"
  proof -
    let ?mk = "\<lambda>d. \<lparr>owner_wire = canonical_wire_name owner, raw_type = t, raw_class = c, raw_data = d\<rparr>"
    have "map raw_data rs' = map raw_data rs"
      using covered_set(1,2) [OF rs] covered_set(1,2) [OF rs'] that(2) by (intro strict_data_unique) auto
    then have "map ?mk (map raw_data rs') = map ?mk (map raw_data rs)" by simp
    moreover have "\<forall>r \<in> set rs. ?mk (raw_data r) = r" "\<forall>r \<in> set rs'. ?mk (raw_data r) = r"
      using covered_set(3) [OF rs] covered_set(3) [OF rs'] that(1) by (fastforce simp: raw_of_def covers_rr_def)+
    ultimately show ?thesis by (simp add: map_idI)
  qed
  have "\<forall>r \<in> set rs. owner_wire r = canonical_wire_name owner \<and> raw_type r = t"
    using covered_set(3) [OF rs] by (fastforce simp: raw_of_def covers_rr_def)
  with rs rs' eq covered_set(1,2) [OF rs] show ?thesis by blast
qed

definition two_answers :: bytes where
  "two_answers = [0, 0, 0x80, 0, 0, 0, 0, 2, 0, 0, 0, 0,
     1, 0x61, 0, 0, 1, 0, 1, 0, 0, 0, 9, 0, 4, 9, 9, 9, 9,
     1, 0x41, 0, 0, 1, 0, 1, 0, 0, 0, 5, 0, 4, 8, 8, 8, 8]"

definition two_answers_swapped :: bytes where
  "two_answers_swapped = [0, 0, 0x80, 0, 0, 0, 0, 3, 0, 0, 0, 0,
     1, 0x61, 0, 0, 1, 0, 1, 0, 0, 0, 9, 0, 4, 8, 8, 8, 8,
     1, 0x41, 0, 0, 1, 0, 1, 0, 0, 0, 7, 0, 4, 9, 9, 9, 9,
     1, 0x61, 0, 0, 1, 0, 1, 0, 0, 0, 7, 0, 4, 8, 8, 8, 8]"

theorem rrset_canonical_witness:
  "\<exists>rs. extract_covered_rrset two_answers 1 ''A'' = ret rs \<and> extract_covered_rrset two_answers_swapped 1 ''A'' = ret rs \<and>
     map raw_data rs = [[8, 8, 8, 8], [9, 9, 9, 9]]"
proof -
  have c: "\<forall>rr \<in> set (all_records two_answers @ all_records two_answers_swapped). covers_rr 1 ''A'' rr \<longrightarrow> rr_class rr = 1"
    by code_simp
  have d: "set (map rr_data (filter (covers_rr 1 ''A'') (all_records two_answers))) =
      set (map rr_data (filter (covers_rr 1 ''A'') (all_records two_answers_swapped)))" by code_simp
  have r: "map_option (map raw_data) (extract_covered_rrset two_answers 1 ''A'') = Some [[8, 8, 8, 8], [9, 9, 9, 9]]" by code_simp
  from d have "rr_data ` {rr \<in> set (all_records two_answers). covers_rr 1 ''A'' rr} =
      rr_data ` {rr \<in> set (all_records two_answers_swapped). covers_rr 1 ''A'' rr}" by simp
  with c have same: "extract_covered_rrset two_answers_swapped 1 ''A'' = extract_covered_rrset two_answers 1 ''A''"
    using rrset_canonical [of two_answers 1 "''A''" two_answers_swapped 1] by metis
  obtain rs where "extract_covered_rrset two_answers 1 ''A'' = ret rs" by (simp add: extract_covered)
  with same r show ?thesis by simp
qed

section \<open>The signed data\<close>

lemma unat16: "n < 65536 \<Longrightarrow> unat (word_of_nat n :: u16) = n"
  by (simp add: unsigned_of_nat take_bit_eq_mod)

lemma rr_signed_form_prefix:
  assumes "rr_signed_form s a @ xs = rr_signed_form s b @ ys" and "owner_wire a = owner_wire b"
    and "length (raw_data a) < 65536" and "length (raw_data b) < 65536"
  shows "a = b \<and> xs = ys"
proof -
  have be: "to_be16 v @ us = to_be16 w @ vs \<longleftrightarrow> v = w \<and> us = vs" for v w us vs
  proof -
    have "v = w" if h: "to_be16 v = to_be16 w" using h by (metis be16_to_be16 list.inject to_be16_def)
    moreover have "to_be16 v @ us = to_be16 w @ vs \<longleftrightarrow> to_be16 v = to_be16 w \<and> us = vs"
      by (rule append_eq_append_conv) simp
    ultimately show ?thesis by blast
  qed
  have eqs: "raw_type a = raw_type b \<and> raw_class a = raw_class b \<and> to_be16 (word_of_nat (length (raw_data a))) =
      to_be16 (word_of_nat (length (raw_data b))) \<and> raw_data a @ xs = raw_data b @ ys"
    using assms(1) unfolding rr_signed_form_def append_assoc assms(2) same_append_eq be by simp
  then have "word_of_nat (length (raw_data a)) = (word_of_nat (length (raw_data b)) :: u16)"
    using be [of _ "[]" _ "[]"] by blast
  then have "length (raw_data a) = length (raw_data b)"
    using assms(3,4) by (metis unat16)
  with eqs have "raw_data a = raw_data b \<and> xs = ys" by simp
  with eqs assms(2) show ?thesis by (simp add: raw_resource_record.equality)
qed

lemma rr_signed_form_nonempty: "owner_wire a \<noteq> [] \<Longrightarrow> rr_signed_form s a \<noteq> []"
  by (simp add: rr_signed_form_def)

text \<open>
  C28: Signed data is unambiguous: with the same signature record, two record sets under one owner
  name (data of less than 65536 bytes each) give the same bytes only if they are the same list
  of records. So a signature over one record set is never a signature over another.
\<close>

theorem signed_data_injective:
  assumes "\<forall>r \<in> set (rs @ rs'). owner_wire r = o' \<and> length (raw_data r) < 65536" and "o' \<noteq> []"
    and "build_rrsig_signed_data s rs = build_rrsig_signed_data s rs'"
  shows "rs = rs'"
proof -
  have "concat (map (rr_signed_form s) rs) = concat (map (rr_signed_form s) rs')"
    using assms(3) by (simp add: build_rrsig_signed_data_def)
  with assms(1) show ?thesis
  proof (induction rs arbitrary: rs')
    case Nil
    then show ?case using assms(2) rr_signed_form_nonempty by (cases rs') auto
  next
    case (Cons a rs)
    have "rr_signed_form s a \<noteq> []" using Cons.prems(1) assms(2) by (intro rr_signed_form_nonempty) simp
    then obtain b bs where b: "rs' = b # bs" using Cons.prems(2) by (cases rs') simp_all
    with Cons.prems have "a = b \<and> concat (map (rr_signed_form s) rs) = concat (map (rr_signed_form s) bs)"
      by (intro rr_signed_form_prefix [of s]) auto
    with Cons.IH [of bs] Cons.prems b show ?case by simp
  qed
qed

section \<open>RRSIG data\<close>

definition rrsig_header :: "rrsig_record \<Rightarrow> u8 \<Rightarrow> bytes" where
  "rrsig_header s alg = to_be16 (type_covered s) @ [alg, sig_labels s] @ to_be32 (original_ttl s) @
     to_be32 (sig_expiration s) @ to_be32 (sig_inception s) @ to_be16 (sig_key_tag s)"

lemma be32_inject: "get32 (xs @ to_be32 v @ ys) (length xs) = v"
  by (simp add: get32_def to_be32_def nth_append)

lemma be16_inject: "get16 (xs @ to_be16 v @ ys) (length xs) = v"
  by (simp add: get16_def to_be16_def nth_append)

text \<open>\<open>canonical_wire_name\<close> of a name whose labels are plain hostnames.\<close>

definition plain_label :: "bytes \<Rightarrow> bool" where
  "plain_label l \<longleftrightarrow> l \<noteq> [] \<and> (\<forall>b \<in> set l. hostname_byte b)"

lemma hostname_char:
  assumes "hostname_byte b"
  shows "byte_char b \<noteq> CHR ''.''" "visible (byte_char b)" "lower_char (byte_char b) \<noteq> CHR ''.''" "visible (lower_char (byte_char b))"
  using assms by (auto simp: hostname_byte_def visible_def is_alnum_code_def is_alpha_code_def is_digit_code_def is_upper_code_def
      code_lower_char byte_char_eq simp flip: code_inject)

lemma escape_plain: "\<forall>b \<in> set l. hostname_byte b \<Longrightarrow> escape_label l = map (\<lambda>b. lower_char (byte_char b)) l"
  by (induction l) (simp_all add: escape_label.simps)

lemma canonical_wire_plain:
  assumes "\<forall>l \<in> set ls. plain_label l"
  shows "canonical_wire_name (render_name ls) = encode_name (map (map lower_u8) ls)"
proof (cases "ls = []")
  case True
  then show ?thesis by (simp add: canonical_wire_name_def render_name_def encode_name_def trim_end_char_def)
next
  case False
  define ps where "ps = map escape_label ls"
  have ps: "ps = map (map (\<lambda>b. lower_char (byte_char b))) ls"
    using assms escape_plain by (auto simp: ps_def plain_label_def)
  have p: "p \<noteq> [] \<and> (\<forall>c \<in> set p. c \<noteq> CHR ''.'' \<and> visible c \<and> lower_char c = c)" if p: "p \<in> set ps" for p
  proof -
    obtain l where l: "l \<in> set ls" "p = map (\<lambda>b. lower_char (byte_char b)) l" using p by (auto simp: ps)
    with assms have "l \<noteq> []" "\<forall>b \<in> set l. hostname_byte b" by (auto simp: plain_label_def)
    with l(2) hostname_char(3,4) show ?thesis by (auto simp: eq_commute [of "CHR ''.''" "lower_char _"])
  qed
  have ends: "join_char CHR ''.'' ps \<noteq> [] \<and> hd (join_char CHR ''.'' ps) = hd (hd ps) \<and> last (join_char CHR ''.'' ps) = last (last ps)"
    if "ps \<noteq> []" "\<forall>p \<in> set ps. p \<noteq> []" for ps
    using that by (induction ps) (auto simp: join_char_Cons)
  have ne: "ps \<noteq> []" using False by (simp add: ps)
  with p have e: "join_char CHR ''.'' ps \<noteq> []" "hd (join_char CHR ''.'' ps) = hd (hd ps)" "last (join_char CHR ''.'' ps) = last (last ps)"
    using ends by auto
  have h: "visible (hd (hd ps))" "visible (last (last ps))" "last (last ps) \<noteq> CHR ''.''"
    using ne p [of "hd ps"] p [of "last ps"] by auto
  have t: "trim_end_char CHR ''.'' (trim (join_char CHR ''.'' ps)) = join_char CHR ''.'' ps"
    using e h by (simp add: trim_visible trim_end_char_id)
  have "split_char CHR ''.'' (join_char CHR ''.'' ps) = ps" using ne p by (intro split_join) auto
  moreover have "map char_byte (to_ascii_lowercase (map (\<lambda>b. lower_char (byte_char b)) l)) = map lower_u8 l" for l
    by (simp add: to_ascii_lowercase_def)
  ultimately show ?thesis unfolding render_name_def ps_def [symmetric] canonical_wire_name_def Let_def t
    using e by (simp add: ps encode_name_def encode_label_def comp_def)
qed

definition sample_rrsig :: rrsig_record where
  "sample_rrsig = \<lparr>sig_name = ''a'', type_covered = 1, sig_algorithm = Ed25519, sig_labels = 1, original_ttl = 60,
     sig_expiration = 2, sig_inception = 1, sig_key_tag = 5, signer_name = ''a'', signature = [], rdata_header_bytes = []\<rparr>"

definition sample_rr :: "bytes \<Rightarrow> raw_resource_record" where
  "sample_rr d = \<lparr>owner_wire = [1, 0x61, 0], raw_type = 1, raw_class = 1, raw_data = d\<rparr>"

theorem signed_data_injective_witness:
  "build_rrsig_signed_data sample_rrsig [sample_rr [8, 8, 8, 8]] \<noteq> build_rrsig_signed_data sample_rrsig [sample_rr [8, 8, 8, 9]]"
proof
  assume e: "build_rrsig_signed_data sample_rrsig [sample_rr [8, 8, 8, 8]] = build_rrsig_signed_data sample_rrsig [sample_rr [8, 8, 8, 9]]"
  have "\<forall>r \<in> set ([sample_rr [8, 8, 8, 8]] @ [sample_rr [8, 8, 8, 9]]). owner_wire r = [1, 0x61, 0] \<and> length (raw_data r) < 65536"
    by (simp add: sample_rr_def)
  from signed_data_injective [OF this _ e] show False by (simp add: sample_rr_def)
qed

lemma rrsig_header_length [simp]: "length (rrsig_header s alg) = 18"
  by (simp add: rrsig_header_def)

lemma rrsig_header_reads:
  "get16 (rrsig_header s alg @ ys) 0 = type_covered s" "(rrsig_header s alg @ ys) ! 2 = alg"
  "(rrsig_header s alg @ ys) ! 3 = sig_labels s" "get32 (rrsig_header s alg @ ys) 4 = original_ttl s"
  "get32 (rrsig_header s alg @ ys) 8 = sig_expiration s" "get32 (rrsig_header s alg @ ys) 12 = sig_inception s"
  "get16 (rrsig_header s alg @ ys) 16 = sig_key_tag s"
  by (simp_all add: rrsig_header_def get16_def get32_def to_be16_def to_be32_def nth_Cons')

text \<open>
  RRSIG data reads back. The parser returns every field of a record written as RFC 4034 lays it
  out, with the signer's name in presentation form, for any name that RFC 1035 allows, and
  keeps the first 18 bytes. When the signer's labels are plain hostnames, the signed data
  starts with exactly the record data up to the signature, the letters of the name in lower
  case, followed by the record set.
\<close>

theorem rrsig_round_trip:
  assumes "wire_labels ls"
  shows "parse_rrsig_rdata (rrsig_header s alg @ encode_name ls @ signature s) (sig_name s) =
      ret (Some (s\<lparr>sig_algorithm := algorithm_from alg, signer_name := render_name ls,
                   rdata_header_bytes := rrsig_header s alg\<rparr>)) \<and>
    ((\<forall>l \<in> set ls. plain_label l) \<longrightarrow>
      build_rrsig_signed_data (s\<lparr>sig_algorithm := algorithm_from alg, signer_name := render_name ls,
          rdata_header_bytes := rrsig_header s alg\<rparr>) [] = rrsig_header s alg @ encode_name (map (map lower_u8) ls))"
proof
  let ?rd = "rrsig_header s alg @ encode_name ls @ signature s"
  have n: "parse_name_with_offset ?rd 18 = ret (Some (render_name ls, 18 + length (encode_name ls)))"
    using parse_encode_name [OF assms, of "rrsig_header s alg" "signature s"] by simp
  show "parse_rrsig_rdata ?rd (sig_name s) = ret (Some (s\<lparr>sig_algorithm := algorithm_from alg, signer_name := render_name ls,
                   rdata_header_bytes := rrsig_header s alg\<rparr>))"
    unfolding parse_rrsig_rdata_def by (simp add: n rrsig_header_reads)
  show "(\<forall>l \<in> set ls. plain_label l) \<longrightarrow>
      build_rrsig_signed_data (s\<lparr>sig_algorithm := algorithm_from alg, signer_name := render_name ls,
          rdata_header_bytes := rrsig_header s alg\<rparr>) [] = rrsig_header s alg @ encode_name (map (map lower_u8) ls)"
    by (simp add: build_rrsig_signed_data_def canonical_wire_plain)
qed

theorem rrsig_round_trip_witness:
  "map_option (map_option signer_name) (parse_rrsig_rdata
     ([0, 1, 15, 1, 0, 0, 0, 60, 0, 0, 0, 9, 0, 0, 0, 3, 0, 7] @ encode_name [[0x41, 0x62]] @ [1, 2]) ''x'') = Some (Some ''ab'')"
proof -
  let ?s = "\<lparr>sig_name = ''x'', type_covered = 1, sig_algorithm = Ed25519, sig_labels = 1, original_ttl = 60,
     sig_expiration = 9, sig_inception = 3, sig_key_tag = 7, signer_name = [], signature = [1, 2], rdata_header_bytes = []\<rparr> :: rrsig_record"
  have h: "rrsig_header ?s 15 = [0, 1, 15, 1, 0, 0, 0, 60, 0, 0, 0, 9, 0, 0, 0, 3, 0, 7]"
    by (simp add: rrsig_header_def to_be16_def to_be32_def)
  have "wire_labels [[0x41, 0x62]]" by code_simp
  from rrsig_round_trip [OF this, of ?s 15]
  have "parse_rrsig_rdata (rrsig_header ?s 15 @ encode_name [[0x41, 0x62]] @ [1, 2]) ''x'' =
      ret (Some (?s\<lparr>sig_algorithm := algorithm_from 15, signer_name := render_name [[0x41, 0x62]],
        rdata_header_bytes := rrsig_header ?s 15\<rparr>))" by simp
  moreover have "render_name [[0x41, 0x62]] = ''ab''" by code_simp
  ultimately show ?thesis unfolding h by simp
qed

text \<open>A label with an escaped dot is split by \<open>canonical_wire_name\<close>.\<close>

lemma canonical_wire_escaped:
  "canonical_wire_name (render_name [[0x61, 0x2E, 0x62]]) \<noteq> encode_name [[0x61, 0x2E, 0x62]]"
  by code_simp

end
