(* ===== verification/Dnssec_Anchors.thy ===== *)
theory Dnssec_Anchors
  imports Dnssec_Records
begin

text \<open>
  The store of root trust anchors, \<open>src/src/dns/dnssec.rs\<close>: the two anchors built in, the reader
  of IANA's \<open>root-anchors.xml\<close>, the update of the store from a fetched file and the check of a
  key against it. The store is the list behind the lock. Parameters: \<open>rfc3339\<close> is
  \<open>chrono::DateTime::parse_from_rfc3339\<close> followed by \<open>timestamp\<close>; \<open>smime_ok\<close> is
  \<open>verify_iana_root_anchors_smime\<close>; \<open>sha256\<close> and \<open>sha384\<close> are those of \<open>ring\<close>. The two
  downloads are arguments: \<open>None\<close> is a failed request, otherwise the status and the body.
\<close>

section \<open>Anchors\<close>

record trust_anchor =
  ta_key_tag :: u16
  ta_algorithm :: dnssec_algorithm
  ta_digest_type :: u8
  ta_digest :: bytes
  ta_digest_hex :: string
  ta_valid_from :: "string option"
  ta_valid_until :: "string option"
  ta_public_key :: "bytes option"
  ta_flags :: u16

text \<open>\<open>hex_decode(..).unwrap_or_default()\<close>.\<close>

definition hex_or_empty :: "string \<Rightarrow> bytes rust" where
  "hex_or_empty s = do { r \<leftarrow> hex_decode s; ret (unwrap_or [] r) }"

definition baseline_anchors :: "trust_anchor list rust" where
  "baseline_anchors = do {
     d1 \<leftarrow> hex_or_empty ''E06D44B80B8F1D39A95C0B0D7C65D08458E880409BBC683457104237C7F8EC8D'';
     d2 \<leftarrow> hex_or_empty ''683D2D0ACB8C9B712A1948B27F741219298D0A450D612C483AF444A4C0FB2B16'';
     ret [\<lparr>ta_key_tag = 20326, ta_algorithm = RsaSha256, ta_digest_type = 2, ta_digest = d1,
            ta_digest_hex = ''E06D44B80B8F1D39A95C0B0D7C65D08458E880409BBC683457104237C7F8EC8D'',
            ta_valid_from = Some ''2017-02-02T00:00:00+00:00'', ta_valid_until = None,
            ta_public_key = None, ta_flags = 257\<rparr>,
          \<lparr>ta_key_tag = 38696, ta_algorithm = RsaSha256, ta_digest_type = 2, ta_digest = d2,
            ta_digest_hex = ''683D2D0ACB8C9B712A1948B27F741219298D0A450D612C483AF444A4C0FB2B16'',
            ta_valid_from = Some ''2024-07-18T00:00:00+00:00'', ta_valid_until = None,
            ta_public_key = None, ta_flags = 257\<rparr>] }"

definition anchor_matches :: "digest \<Rightarrow> digest \<Rightarrow> dnskey_record \<Rightarrow> trust_anchor \<Rightarrow> bool" where
  "anchor_matches sha256 sha384 dnskey anchor \<longleftrightarrow>
     ta_key_tag anchor = key_tag_of dnskey \<and> ta_algorithm anchor = key_algorithm dnskey \<and>
     calculate_ds_digest sha256 sha384 ''.'' (raw_rdata dnskey) (ta_digest_type anchor) = Some (ta_digest anchor)"

definition verify_root_anchor :: "digest \<Rightarrow> digest \<Rightarrow> trust_anchor list \<Rightarrow> dnskey_record \<Rightarrow> trust_anchor option" where
  "verify_root_anchor sha256 sha384 anchors dnskey = find (anchor_matches sha256 sha384 dnskey) anchors"

section \<open>IANA's file\<close>

text \<open>\<open>s.split(pat)\<close> for a pattern that is not empty.\<close>

function split_sub :: "string \<Rightarrow> string \<Rightarrow> string list" where
  "split_sub p s = (case (if p = [] then None else str_find_sub p s) of
     None \<Rightarrow> [s]
   | Some i \<Rightarrow> take i s # split_sub p (drop (i + length p) s))"
  by pat_completeness auto

lemma str_find_sub_Some: "str_find_sub p s = Some i \<Longrightarrow> i + length p \<le> length s \<and> take (length p) (drop i s) = p"
proof (induction p s arbitrary: i rule: str_find_sub.induct)
  case (2 p x xs)
  show ?case
  proof (cases "starts_with (x # xs) p")
    case True
    then have "length p \<le> length (x # xs)" unfolding starts_with_def by (metis length_take min.cobounded1)
    with True 2 show ?thesis by (simp add: starts_with_def)
  next
    case False
    with 2 show ?thesis by auto
  qed
qed (auto split: if_splits)

termination split_sub
  by (relation "measure (\<lambda>(p, s). length s)") (auto dest!: str_find_sub_Some simp: neq_Nil_conv split: if_splits)

declare split_sub.simps [simp del]

definition extract_xml_tag :: "string \<Rightarrow> string \<Rightarrow> string option" where
  "extract_xml_tag content tag = (
     let open_tag = ''<'' @ tag @ ''>''; close_tag = ''</'' @ tag @ ''>'' in
     case str_find_sub open_tag content of
       None \<Rightarrow> None
     | Some i \<Rightarrow> (let rem = drop (i + length open_tag) content in
         case str_find_sub close_tag rem of
           None \<Rightarrow> None
         | Some e \<Rightarrow> Some (trim (take e rem))))"

text \<open>The value of an attribute: the text from \<open>name="\<close> to the next quote.\<close>

definition quoted_after :: "string \<Rightarrow> string \<Rightarrow> string option" where
  "quoted_after mark block = (case str_find_sub mark block of
     None \<Rightarrow> None
   | Some i \<Rightarrow> (let rem = drop (i + length mark) block in
       case str_find CHR 0x22 rem of None \<Rightarrow> None | Some e \<Rightarrow> Some (take e rem)))"

text \<open>\<open>str::parse\<close> for an unsigned integer with the given largest value.\<close>

definition parse_uint :: "nat \<Rightarrow> string \<Rightarrow> nat option" where
  "parse_uint limit s = (let ds = (case s of [] \<Rightarrow> [] | c # cs \<Rightarrow> if c = CHR ''+'' then cs else s) in
     if ds = [] \<or> \<not> list_all (\<lambda>c. is_digit_code (code c)) ds then None
     else (let n = foldl (\<lambda>n c. 10 * n + (code c - 48)) 0 ds in if n \<le> limit then Some n else None))"

definition parse_u16 :: "string \<Rightarrow> u16 option" where
  "parse_u16 s = map_option word_of_nat (parse_uint 65535 s)"

definition parse_u8 :: "string \<Rightarrow> u8 option" where
  "parse_u8 s = map_option word_of_nat (parse_uint 255 s)"

definition upper_char :: "char \<Rightarrow> char" where
  "upper_char c = (if 97 \<le> code c \<and> code c \<le> 122 then char_of (code c - 32) else c)"

definition valid_until_mark :: string where
  "valid_until_mark = ''validUntil='' @ [CHR 0x22]"

definition valid_from_mark :: string where
  "valid_from_mark = ''validFrom='' @ [CHR 0x22]"

definition is_expired :: "(string \<Rightarrow> int option) \<Rightarrow> nat \<Rightarrow> string \<Rightarrow> bool" where
  "is_expired rfc3339 now block = (case quoted_after valid_until_mark block of
     None \<Rightarrow> False
   | Some u \<Rightarrow> (case rfc3339 u of None \<Rightarrow> False | Some ts \<Rightarrow> int now > ts))"

definition parse_anchor :: "string \<Rightarrow> trust_anchor option rust" where
  "parse_anchor block = (
     case (Option.bind (extract_xml_tag block ''KeyTag'') parse_u16,
           map_option algorithm_from (Option.bind (extract_xml_tag block ''Algorithm'') parse_u8),
           Option.bind (extract_xml_tag block ''DigestType'') parse_u8,
           extract_xml_tag block ''Digest'') of
       (Some tag, Some alg, Some dtype, Some dhex) \<Rightarrow> do {
         let clean_hex = map upper_char (trim dhex);
         d \<leftarrow> hex_decode clean_hex;
         ret (map_option (\<lambda>digest_bytes.
           \<lparr>ta_key_tag = tag, ta_algorithm = alg, ta_digest_type = dtype, ta_digest = digest_bytes,
            ta_digest_hex = clean_hex, ta_valid_from = quoted_after valid_from_mark block,
            ta_valid_until = quoted_after valid_until_mark block, ta_public_key = None,
            ta_flags = unwrap_or 257 (Option.bind (extract_xml_tag block ''Flags'') parse_u16)\<rparr>) d) }
     | _ \<Rightarrow> ret None)"

fun parse_blocks :: "(string \<Rightarrow> int option) \<Rightarrow> nat \<Rightarrow> string list \<Rightarrow> trust_anchor list rust" where
  "parse_blocks rfc3339 now [] = ret []"
| "parse_blocks rfc3339 now (block # blocks) = (
     let block_content = hd (split_sub ''</KeyDigest>'' block) in
     if is_expired rfc3339 now block_content then parse_blocks rfc3339 now blocks
     else do {
       a \<leftarrow> parse_anchor block_content;
       rest \<leftarrow> parse_blocks rfc3339 now blocks;
       ret (case a of Some x \<Rightarrow> x # rest | None \<Rightarrow> rest) })"

definition parse_iana_root_anchors_xml :: "(string \<Rightarrow> int option) \<Rightarrow> nat \<Rightarrow> string \<Rightarrow> trust_anchor list rust" where
  "parse_iana_root_anchors_xml rfc3339 now xml = parse_blocks rfc3339 now (drop 1 (split_sub ''<KeyDigest'' xml))"

section \<open>Updates\<close>

text \<open>The new store and the count that is returned.\<close>

definition parse_and_update ::
  "(string \<Rightarrow> int option) \<Rightarrow> nat \<Rightarrow> string \<Rightarrow> trust_anchor list \<Rightarrow> (nat \<times> trust_anchor list) rust" where
  "parse_and_update rfc3339 now xml store = do {
     parsed \<leftarrow> parse_iana_root_anchors_xml rfc3339 now xml;
     ret (if parsed \<noteq> [] then (length parsed, parsed) else (0, store)) }"

definition load_from_cache ::
  "(string \<Rightarrow> int option) \<Rightarrow> nat \<Rightarrow> string option \<Rightarrow> trust_anchor list \<Rightarrow> (bool \<times> trust_anchor list) rust" where
  "load_from_cache rfc3339 now contents store = (case contents of
     None \<Rightarrow> ret (False, store)
   | Some xml \<Rightarrow> do {
       (count, store) \<leftarrow> parse_and_update rfc3339 now xml store;
       ret (count > 0, store) })"

datatype sync_error = RequestFailed | BadStatus nat | BadSignature | NotUtf8 | NoActiveAnchors

definition sync_from_iana ::
  "(string \<Rightarrow> int option) \<Rightarrow> (bytes \<Rightarrow> bytes \<Rightarrow> bool) \<Rightarrow> nat \<Rightarrow> (nat \<times> bytes) option \<Rightarrow> (nat \<times> bytes) option \<Rightarrow>
   trust_anchor list \<Rightarrow> ((sync_error + nat) \<times> trust_anchor list) rust" where
  "sync_from_iana rfc3339 smime_ok now xml_resp p7s_resp store = (case xml_resp of
     None \<Rightarrow> ret (Inl RequestFailed, store)
   | Some (status, xml_bytes) \<Rightarrow>
       if \<not> (200 \<le> status \<and> status < 300) then ret (Inl (BadStatus status), store)
       else if (case p7s_resp of
           Some (st, p7s_bytes) \<Rightarrow> 200 \<le> st \<and> st < 300 \<and> \<not> smime_ok xml_bytes p7s_bytes
         | None \<Rightarrow> False) then ret (Inl BadSignature, store)
       else if utf8_valid_up_to xml_bytes \<noteq> length xml_bytes then ret (Inl NotUtf8, store)
       else do {
         (count, store) \<leftarrow> parse_and_update rfc3339 now (map byte_char xml_bytes) store;
         ret (if count = 0 then (Inl NoActiveAnchors, store) else (Inr count, store)) })"

section \<open>What a file contributes\<close>

definition unexpired :: "(string \<Rightarrow> int option) \<Rightarrow> nat \<Rightarrow> trust_anchor \<Rightarrow> bool" where
  "unexpired rfc3339 now a \<longleftrightarrow> (\<forall>u ts. ta_valid_until a = Some u \<longrightarrow> rfc3339 u = Some ts \<longrightarrow> int now \<le> ts)"

definition digest_read :: "trust_anchor \<Rightarrow> bool" where
  "digest_read a \<longleftrightarrow> hex_decode (ta_digest_hex a) = ret (Some (ta_digest a))"

lemma parse_anchor_Some:
  assumes "parse_anchor block = ret (Some a)"
  shows "digest_read a \<and> ta_valid_until a = quoted_after valid_until_mark block"
proof -
  from assms obtain dhex d where "hex_decode (map upper_char (trim dhex)) = Some (Some d)"
    "ta_digest_hex a = map upper_char (trim dhex)" "ta_digest a = d" "ta_valid_until a = quoted_after valid_until_mark block"
    unfolding parse_anchor_def by (auto simp: Let_def bind_eq_Some_conv split: option.splits)
  then show ?thesis by (simp add: digest_read_def)
qed

lemma parse_blocks_anchors:
  "parse_blocks rfc3339 now blocks = ret as \<Longrightarrow> a \<in> set as \<Longrightarrow> digest_read a \<and> unexpired rfc3339 now a"
proof (induction blocks arbitrary: as)
  case (Cons block blocks)
  let ?b = "hd (split_sub ''</KeyDigest>'' block)"
  show ?case
  proof (cases "is_expired rfc3339 now ?b")
    case True
    with Cons show ?thesis by (simp add: Let_def)
  next
    case False
    with Cons.prems(1) obtain x rest where x: "parse_anchor ?b = ret x" "parse_blocks rfc3339 now blocks = ret rest"
      "as = (case x of Some x \<Rightarrow> x # rest | None \<Rightarrow> rest)" by (auto simp: Let_def bind_eq_Some_conv)
    show ?thesis
    proof (cases "x = Some a")
      case True
      with x parse_anchor_Some [of ?b a] False show ?thesis
        by (auto simp: unexpired_def is_expired_def)
    next
      case False
      with x Cons.prems(2) have "a \<in> set rest" by (auto split: option.splits)
      with Cons.IH x(2) show ?thesis by simp
    qed
  qed
qed simp

lemma update_cases:
  assumes "parse_and_update rfc3339 now xml store = ret (n, store')"
  shows "n = 0 \<and> store' = store \<or> n = length store' \<and> store' \<noteq> [] \<and> (\<forall>a \<in> set store'. digest_read a \<and> unexpired rfc3339 now a)"
  using assms parse_blocks_anchors [of rfc3339 now "drop 1 (split_sub ''<KeyDigest'' xml)"]
  by (auto simp: parse_and_update_def parse_iana_root_anchors_xml_def bind_eq_Some_conv split: if_splits)

section \<open>The store over any run\<close>

datatype store_event =
    LoadCache nat "string option"
  | Sync nat "(nat \<times> bytes) option" "(nat \<times> bytes) option"

inductive store_reach :: "(string \<Rightarrow> int option) \<Rightarrow> (bytes \<Rightarrow> bytes \<Rightarrow> bool) \<Rightarrow> store_event list \<Rightarrow> trust_anchor list \<Rightarrow> bool"
  for rfc3339 smime_ok where
  store_new: "baseline_anchors = ret s \<Longrightarrow> store_reach rfc3339 smime_ok [] s"
| store_load: "store_reach rfc3339 smime_ok es s \<Longrightarrow> load_from_cache rfc3339 now contents s = ret (b, s') \<Longrightarrow>
    store_reach rfc3339 smime_ok (LoadCache now contents # es) s'"
| store_sync: "store_reach rfc3339 smime_ok es s \<Longrightarrow> sync_from_iana rfc3339 smime_ok now xml p7s s = ret (r, s') \<Longrightarrow>
    store_reach rfc3339 smime_ok (Sync now xml p7s # es) s'"

inductive_cases store_reachE: "store_reach rfc3339 smime_ok es s"

lemma sync_cases:
  assumes "sync_from_iana rfc3339 smime_ok now xml p7s store = ret (r, store')"
  shows "(\<exists>e. r = Inl e) \<and> store' = store \<or>
    (\<exists>n st body. r = Inr n \<and> n > 0 \<and> xml = Some (st, body) \<and> 200 \<le> st \<and> st < 300 \<and>
      utf8_valid_up_to body = length body \<and>
      (\<forall>st' sig. p7s = Some (st', sig) \<longrightarrow> 200 \<le> st' \<longrightarrow> st' < 300 \<longrightarrow> smime_ok body sig) \<and>
      parse_and_update rfc3339 now (map byte_char body) store = ret (n, store'))"
proof (cases xml)
  case (Some sb)
  obtain st body where sb: "sb = (st, body)" by fastforce
  show ?thesis
  proof (cases "200 \<le> st \<and> st < 300 \<and> (\<forall>st' sig. p7s = Some (st', sig) \<longrightarrow> 200 \<le> st' \<longrightarrow> st' < 300 \<longrightarrow> smime_ok body sig) \<and>
      utf8_valid_up_to body = length body")
    case True
    then have "\<not> (case p7s of Some (st, p7s_bytes) \<Rightarrow> 200 \<le> st \<and> st < 300 \<and> \<not> smime_ok body p7s_bytes | None \<Rightarrow> False)"
      by (auto split: option.splits)
    with assms True Some sb obtain n s1 where u: "parse_and_update rfc3339 now (map byte_char body) store = ret (n, s1)"
      "(r, store') = (if n = 0 then (Inl NoActiveAnchors, s1) else (Inr n, s1))"
      by (auto simp: sync_from_iana_def bind_eq_Some_conv)
    show ?thesis
    proof (cases "n = 0")
      case True
      with u update_cases [OF u(1)] show ?thesis by auto
    next
      case False
      with u False True Some sb \<open>200 \<le> st \<and> st < 300 \<and> _\<close> show ?thesis by auto
    qed
  next
    case False
    with assms Some sb show ?thesis by (auto simp: sync_from_iana_def split: if_splits option.splits)
  qed
qed (use assms in \<open>auto simp: sync_from_iana_def\<close>)

lemma baseline_Some: "baseline_anchors \<noteq> None"
  by code_simp

lemma baseline_read: "length (the baseline_anchors) = 2 \<and> (\<forall>a \<in> set (the baseline_anchors).
    hex_decode (ta_digest_hex a) = ret (Some (ta_digest a)) \<and> length (ta_digest a) = 32)"
  by code_simp

lemma baseline:
  assumes "baseline_anchors = ret s"
  shows "length s = 2" and "\<forall>a \<in> set s. digest_read a \<and> length (ta_digest a) = 32"
  using baseline_read unfolding assms option.sel digest_read_def by blast+

text \<open>
  C29: The store of trust anchors. In every run of loads and synchronizations, whatever the files and
  the clock, the store is never empty, and every anchor has the digest that its hexadecimal text
  reads as. A key passes the check only if an anchor of the store has its key tag, its algorithm
  and the digest of the root name and the key's data.
\<close>

theorem trust_store_invariant:
  assumes "store_reach rfc3339 smime_ok es s"
  shows "s \<noteq> [] \<and> (\<forall>a \<in> set s. digest_read a) \<and>
    (verify_root_anchor sha256 sha384 s k = Some a \<longrightarrow> a \<in> set s \<and> ta_key_tag a = key_tag_of k \<and> ta_algorithm a = key_algorithm k \<and>
      (ta_digest_type a = 2 \<and> ta_digest a = sha256 (0 # raw_rdata k) \<or> ta_digest_type a = 4 \<and> ta_digest a = sha384 (0 # raw_rdata k)))"
proof -
  from assms have "s \<noteq> [] \<and> (\<forall>a \<in> set s. digest_read a)"
  proof induction
    case (store_new s)
    from baseline [OF this] show ?case by auto
  next
    case (store_load es s now contents b s')
    then show ?case using update_cases [of rfc3339 now _ s _ s']
      by (fastforce simp: load_from_cache_def bind_eq_Some_conv split: option.splits)
  next
    case (store_sync es s now xml p7s r s')
    with sync_cases [OF store_sync.hyps(2)] show ?case using update_cases [of rfc3339 now _ s _ s'] by fastforce
  qed
  moreover have "canonical_wire_name ''.'' = [0]" by code_simp
  ultimately show ?thesis
    by (auto simp: verify_root_anchor_def find_Some_iff anchor_matches_def calculate_ds_digest_def Let_def split: if_splits)
qed

theorem trust_store_invariant_witness:
  "\<exists>s. baseline_anchors = ret s \<and> s \<noteq> [] \<and> digest_read (hd s)"
proof -
  obtain s where s: "baseline_anchors = ret s" using baseline_Some by blast
  have "store_reach (\<lambda>_. None) (\<lambda>_ _. True) [] s" by (rule store_reach.store_new [OF s])
  from trust_store_invariant [OF this] s show ?thesis by (metis list.set_sel(1))
qed


text \<open>Without a signature file the verification is skipped.\<close>

lemma sync_without_signature:
  "sync_from_iana rfc3339 smime_ok now xml None store = sync_from_iana rfc3339 (\<lambda>_ _. True) now xml p7s store"
  by (cases xml) (auto simp: sync_from_iana_def split: option.split)

lemma tag_read: "extract_xml_tag ''<KeyTag> 7</KeyTag>'' ''KeyTag'' = Some ''7''"
  by code_simp


end
