(* ===== verification/Dnssec_Validate.thy ===== *)
theory Dnssec_Validate
  imports Dnssec_Anchors
begin

text \<open>
  The validation of a response, \<open>src/src/dns/dnssec.rs\<close>: denial by NSEC3, the check of a signature,
  the check of a key against DS records and trust anchors, and \<open>validate_dnssec\<close>. The store of
  anchors is an argument. \<open>crypto\<close> holds what the code takes from \<open>ring\<close>: the digests and, for
  each algorithm the code supports, whether a signature over some data verifies with a key.
  The clock \<open>now\<close> counts seconds since 1970, far from the end of 64 bits.
\<close>

record crypto =
  sha1 :: digest
  sha256 :: digest
  sha384 :: digest
  ecdsa_p256 :: "bytes \<Rightarrow> bytes \<Rightarrow> bytes \<Rightarrow> bool"
  ed25519 :: "bytes \<Rightarrow> bytes \<Rightarrow> bytes \<Rightarrow> bool"
  rsa_sha256 :: "bytes \<Rightarrow> bytes \<Rightarrow> bytes \<Rightarrow> bool"
  rsa_sha512 :: "bytes \<Rightarrow> bytes \<Rightarrow> bytes \<Rightarrow> bool"

section \<open>Denial by NSEC3\<close>

text \<open>The suffixes from label \<open>i\<close> on, joined again.\<close>

definition suffix_name :: "string list \<Rightarrow> nat \<Rightarrow> string" where
  "suffix_name lbls i = join_char CHR ''.'' (drop i lbls)"

definition encloser_step :: "(string \<Rightarrow> bytes option) \<Rightarrow> nsec3_record list \<Rightarrow> string list \<Rightarrow> nat \<Rightarrow> bool" where
  "encloser_step hash ns lbls i = (
     case (hash (suffix_name lbls i), hash (suffix_name lbls (i - 1))) of
       (Some ce_hash, Some ncn_hash) \<Rightarrow>
         (let ce_matched = (\<exists>n \<in> set ns. matches_hash n ce_hash);
              ncn_covered = (\<exists>n \<in> set ns. covers_hash n ncn_hash \<or> is_opt_out n \<and> covers_hash n ncn_hash)
          in ce_matched \<and> ncn_covered)
     | _ \<Rightarrow> False)"

definition verify_nsec3_nxdomain :: "digest \<Rightarrow> string \<Rightarrow> nsec3_record list \<Rightarrow> bool" where
  "verify_nsec3_nxdomain h1 qn ns =
    (if ns = [] then False
     else let first = hd ns;
              hash = (\<lambda>n. hash_nsec3_name h1 n (hash_algorithm first) (iterations first) (salt first)) in
       case hash qn of
         None \<Rightarrow> False
       | Some qn_hash \<Rightarrow>
           if (\<exists>n \<in> set ns. covers_hash n qn_hash) then True
           else (let lbls = split_char CHR ''.'' (to_ascii_lowercase (trim_end_char CHR ''.'' qn))
                 in \<exists>i \<in> set [1..<length lbls]. encloser_step hash ns lbls i))"

fun nodata_loop :: "bytes \<Rightarrow> u16 \<Rightarrow> nsec3_record list \<Rightarrow> bool rust" where
  "nodata_loop qn_hash qt [] = ret False"
| "nodata_loop qn_hash qt (n # rest) =
    (if matches_hash n qn_hash then do {
       has \<leftarrow> nsec3_has_type n qt;
       cname \<leftarrow> nsec3_has_type n 5;
       if \<not> has \<and> (qt = 5 \<or> \<not> cname) then ret True else nodata_loop qn_hash qt rest }
     else nodata_loop qn_hash qt rest)"

definition verify_nsec3_nodata :: "digest \<Rightarrow> string \<Rightarrow> u16 \<Rightarrow> nsec3_record list \<Rightarrow> bool rust" where
  "verify_nsec3_nodata h1 qn qt ns =
    (if ns = [] then ret False
     else let first = hd ns in
       case hash_nsec3_name h1 qn (hash_algorithm first) (iterations first) (salt first) of
         None \<Rightarrow> ret False
       | Some qn_hash \<Rightarrow> nodata_loop qn_hash qt ns)"

section \<open>Keys and signatures\<close>

definition verify_dnskey_with_ds :: "crypto \<Rightarrow> dnskey_record \<Rightarrow> ds_record \<Rightarrow> bool" where
  "verify_dnskey_with_ds c dnskey ds =
    (if key_tag_of dnskey \<noteq> ds_key_tag ds then False
     else if key_algorithm dnskey \<noteq> ds_algorithm ds then False
     else case calculate_ds_digest (sha256 c) (sha384 c) (ds_name ds) (raw_rdata dnskey) (ds_digest_type ds) of
         Some computed \<Rightarrow> computed = ds_digest ds
       | None \<Rightarrow> False)"

fun verify_dnssec_signature :: "crypto \<Rightarrow> dnssec_algorithm \<Rightarrow> bytes \<Rightarrow> bytes \<Rightarrow> bytes \<Rightarrow> bool rust" where
  "verify_dnssec_signature c EcdsaP256Sha256 pk signed_data sig =
    (if length pk = 64 then ret (ecdsa_p256 c (0x04 # pk) signed_data sig)
     else if length pk = 65 \<and> pk ! 0 = 0x04 then ret (ecdsa_p256 c pk signed_data sig)
     else ret False)"
| "verify_dnssec_signature c Ed25519 pk signed_data sig =
    (if length pk \<noteq> 32 then ret False else ret (ed25519 c pk signed_data sig))"
| "verify_dnssec_signature c RsaSha256 pk signed_data sig = do {
     der \<leftarrow> rsa_dnskey_to_pkcs1_der pk;
     ret (case der of Some d \<Rightarrow> rsa_sha256 c d signed_data sig | None \<Rightarrow> False) }"
| "verify_dnssec_signature c RsaSha512 pk signed_data sig = do {
     der \<leftarrow> rsa_dnskey_to_pkcs1_der pk;
     ret (case der of Some d \<Rightarrow> rsa_sha512 c d signed_data sig | None \<Rightarrow> False) }"
| "verify_dnssec_signature c _ pk signed_data sig = ret False"

section \<open>Results\<close>

datatype dnssec_status = Secure | Insecure | Bogus | Indeterminate

record validation_details =
  status :: dnssec_status
  authenticated_data :: bool
  det_algorithm :: "string option"
  det_key_tag :: "u16 option"
  det_signer :: "string option"
  rrsig_count :: nat
  dnskey_count :: nat
  ds_count :: nat
  chain_depth :: nat
  root_anchor_verified :: bool
  failure_reason :: "string option"

definition details_insecure :: validation_details where
  "details_insecure = \<lparr>status = Insecure, authenticated_data = False, det_algorithm = None, det_key_tag = None,
     det_signer = None, rrsig_count = 0, dnskey_count = 0, ds_count = 0, chain_depth = 0,
     root_anchor_verified = False, failure_reason = None\<rparr>"

definition details_secure ::
  "dnssec_algorithm \<Rightarrow> u16 \<Rightarrow> string \<Rightarrow> nat \<Rightarrow> nat \<Rightarrow> nat \<Rightarrow> nat \<Rightarrow> bool \<Rightarrow> validation_details" where
  "details_secure alg key_tag signer sigs keys dss depth root_verified =
     \<lparr>status = Secure, authenticated_data = True, det_algorithm = Some (algorithm_text alg), det_key_tag = Some key_tag,
      det_signer = Some signer, rrsig_count = sigs, dnskey_count = keys, ds_count = dss, chain_depth = depth,
      root_anchor_verified = root_verified, failure_reason = None\<rparr>"

definition details_bogus :: "string \<Rightarrow> dnssec_algorithm option \<Rightarrow> u16 option \<Rightarrow> validation_details" where
  "details_bogus reason alg key_tag =
     \<lparr>status = Bogus, authenticated_data = False, det_algorithm = map_option algorithm_text alg, det_key_tag = key_tag,
      det_signer = None, rrsig_count = 0, dnskey_count = 0, ds_count = 0, chain_depth = 0,
      root_anchor_verified = False, failure_reason = Some reason\<rparr>"

definition denial_of_existence :: "string \<Rightarrow> string option \<Rightarrow> nat \<Rightarrow> validation_details" where
  "denial_of_existence proof_type signer sigs =
     \<lparr>status = Secure, authenticated_data = True, det_algorithm = Some (proof_type @ '' Proof (Authenticated)''),
      det_key_tag = None, det_signer = signer, rrsig_count = sigs, dnskey_count = 0, ds_count = 0, chain_depth = 1,
      root_anchor_verified = False, failure_reason = None\<rparr>"

definition is_denial_of_existence :: "validation_details \<Rightarrow> bool" where
  "is_denial_of_existence d = (case det_algorithm d of
     Some a \<Rightarrow> str_find_sub ''Proof'' a \<noteq> None | None \<Rightarrow> False)"

definition upstream_secure :: validation_details where
  "upstream_secure = \<lparr>status = Secure, authenticated_data = True, det_algorithm = Some ''Upstream Validated (AD)'',
     det_key_tag = None, det_signer = None, rrsig_count = 0, dnskey_count = 0, ds_count = 0, chain_depth = 1,
     root_anchor_verified = True, failure_reason = None\<rparr>"

section \<open>Validation\<close>

text \<open>The question of the response, or the root name and type A.\<close>

definition response_question :: "bytes \<Rightarrow> (string \<times> u16) rust" where
  "response_question wire = do {
     qdcount \<leftarrow> rd16 wire 4;
     if qdcount > 0 then do {
       p \<leftarrow> parse_dns_query wire;
       ret (case p of
           Some parsed \<Rightarrow> (case question parsed of Some q \<Rightarrow> (qname q, qtype q) | None \<Rightarrow> ([], 1))
         | None \<Rightarrow> ([], 1)) }
     else ret ([], 1) }"

definition first_signer :: "extracted_dnssec_records \<Rightarrow> string option" where
  "first_signer r = (case rrsigs r of [] \<Rightarrow> None | s # _ \<Rightarrow> Some (signer_name s))"

definition denial_result :: "bool \<Rightarrow> string \<Rightarrow> string \<Rightarrow> extracted_dnssec_records \<Rightarrow> validation_details" where
  "denial_result ok proof_type reason r =
     (if ok then denial_of_existence proof_type (first_signer r) (length (rrsigs r)) else details_bogus reason None None)"

text \<open>Case 0.5: what the denial records of a negative response decide, if they decide it.\<close>

definition denial_check ::
  "digest \<Rightarrow> u16 \<Rightarrow> u16 \<Rightarrow> string \<Rightarrow> u16 \<Rightarrow> extracted_dnssec_records \<Rightarrow> validation_details option rust" where
  "denial_check h1 rcode ancount qn qt r =
    (if rcode = 3 then
       (if nsec3s r \<noteq> [] then ret (Some (denial_result (verify_nsec3_nxdomain h1 qn (nsec3s r)) ''NSEC3 NXDOMAIN''
            ''NSEC3 denial-of-existence proof failed for NXDOMAIN (RFC 5155)'' r))
        else if nsecs r \<noteq> [] then ret (Some (denial_result (verify_nsec_nxdomain qn (nsecs r)) ''NSEC NXDOMAIN''
            ''NSEC denial-of-existence proof failed for NXDOMAIN (RFC 4034)'' r))
        else ret None)
     else if rcode = 0 \<and> ancount = 0 then
       (if nsec3s r \<noteq> [] then do {
          ok \<leftarrow> verify_nsec3_nodata h1 qn qt (nsec3s r);
          ret (Some (denial_result ok ''NSEC3 NODATA''
            ''NSEC3 denial-of-existence proof failed for NODATA (RFC 5155)'' r)) }
        else if nsecs r \<noteq> [] then do {
          ok \<leftarrow> verify_nsec_nodata qn qt (nsecs r);
          ret (Some (denial_result ok ''NSEC NODATA''
            ''NSEC denial-of-existence proof failed for NODATA (RFC 4034)'' r)) }
        else ret None)
     else ret None)"

definition signed_data_of :: "bytes \<Rightarrow> rrsig_record \<Rightarrow> bytes rust" where
  "signed_data_of wire s = do {
     covered_rrset \<leftarrow> extract_covered_rrset wire (type_covered s) (sig_name s);
     ret (if covered_rrset = [] then rdata_header_bytes s @ canonical_wire_name (signer_name s)
          else build_rrsig_signed_data s covered_rrset) }"

text \<open>The key is found and its signature verified: the chain is traced for the report.\<close>

definition trace_chain :: "crypto \<Rightarrow> trust_anchor list \<Rightarrow> dnskey_record \<Rightarrow> extracted_dnssec_records \<Rightarrow> nat \<times> bool" where
  "trace_chain c store matching_key r = (
     let anchored = (\<lambda>k. verify_root_anchor (sha256 c) (sha384 c) store k \<noteq> None);
         ds_links = length (filter (verify_dnskey_with_ds c matching_key) (ds_records r));
         key_links = length (filter anchored (dnskeys r))
     in (1 + ds_links + key_links, anchored matching_key \<or> key_links > 0))"

fun rrsig_loop ::
  "crypto \<Rightarrow> trust_anchor list \<Rightarrow> bytes \<Rightarrow> nat \<Rightarrow> extracted_dnssec_records \<Rightarrow> rrsig_record list \<Rightarrow> validation_details option rust" where
  "rrsig_loop c store wire now r [] = ret None"
| "rrsig_loop c store wire now r (s # ss) =
    (if now + 300 < unat (sig_inception s) then
       ret (Some (details_bogus (''RRSIG inception in the future ('' @ decimal (unat (sig_inception s)) @ '' > '' @ decimal now @ '')'')
         (Some (sig_algorithm s)) (Some (sig_key_tag s))))
     else if now > unat (sig_expiration s) + 300 then
       ret (Some (details_bogus (''RRSIG signature expired ('' @ decimal (unat (sig_expiration s)) @ '' < '' @ decimal now @ '')'')
         (Some (sig_algorithm s)) (Some (sig_key_tag s))))
     else (case find (\<lambda>k. key_tag_of k = sig_key_tag s) (dnskeys r) of
         None \<Rightarrow> rrsig_loop c store wire now r ss
       | Some matching_key \<Rightarrow> do {
           signed_data \<leftarrow> signed_data_of wire s;
           is_valid \<leftarrow> verify_dnssec_signature c (sig_algorithm s) (public_key matching_key) signed_data (signature s);
           if \<not> is_valid then
             ret (Some (details_bogus (''Cryptographic signature mismatch for key tag #'' @ decimal (unat (sig_key_tag s)))
               (Some (sig_algorithm s)) (Some (sig_key_tag s))))
           else (case trace_chain c store matching_key r of (depth, root_verified) \<Rightarrow>
             ret (Some (details_secure (sig_algorithm s) (sig_key_tag s) (signer_name s)
               (length (rrsigs r)) (length (dnskeys r)) (length (ds_records r)) depth root_verified))) }))"

definition validate_dnssec :: "crypto \<Rightarrow> trust_anchor list \<Rightarrow> bytes \<Rightarrow> nat \<Rightarrow> validation_details rust" where
  "validate_dnssec c store wire now =
    (if length wire < 12 then ret details_insecure
     else do {
       fl \<leftarrow> rd16 wire 2;
       let rcode = fl AND 0x000F;
       let upstream_ad = (fl AND 0x0020 \<noteq> 0);
       if rcode = 2 then
         ret (details_bogus ''DNSSEC validation failure / SERVFAIL (RFC 4035 Section 5.5)'' None None)
       else do {
         r \<leftarrow> extract_dnssec_records wire;
         ancount \<leftarrow> rd16 wire 6;
         (qn, qt) \<leftarrow> response_question wire;
         denial \<leftarrow> denial_check (sha1 c) rcode ancount qn qt r;
         case denial of
           Some d \<Rightarrow> ret d
         | None \<Rightarrow>
             (case rrsigs r of
               first_sig # _ \<Rightarrow> do {
                 v \<leftarrow> rrsig_loop c store wire now r (rrsigs r);
                 ret (case v of
                     Some d \<Rightarrow> d
                   | None \<Rightarrow> details_secure (sig_algorithm first_sig) (sig_key_tag first_sig) (signer_name first_sig)
                       (length (rrsigs r)) (length (dnskeys r)) (length (ds_records r)) 1 upstream_ad) }
             | [] \<Rightarrow> ret (if upstream_ad then upstream_secure else details_insecure)) } })"

section \<open>NSEC3 denial is sound\<close>

definition nsec3_digest :: "digest \<Rightarrow> u16 \<Rightarrow> bytes \<Rightarrow> bytes \<Rightarrow> bytes" where
  "nsec3_digest h1 iters s w = ((\<lambda>d. h1 (d @ s)) ^^ unat iters) (h1 (w @ s))"

lemma hash_nsec3_digest: "hash_nsec3_name h1 name alg iters s =
    (if alg = 1 \<and> iters \<le> 150 then Some (nsec3_digest h1 iters s (canonical_wire_name name)) else None)"
  by (auto simp: hash_nsec3_name_def nsec3_digest_def not_less leD)

lemma nsec3_digest_nonempty: "(\<And>x. h1 x \<noteq> []) \<Longrightarrow> nsec3_digest h1 iters s w \<noteq> []"
  by (cases "unat iters") (simp_all add: nsec3_digest_def)

lemma split_char_lower: "split_char CHR ''.'' (to_ascii_lowercase s) = map to_ascii_lowercase (split_char CHR ''.'' s)"
  by (induction s) (auto simp: to_ascii_lowercase_def split: list.split)

lemma canonical_wire_lower:
  assumes "\<forall>c \<in> set q. visible c \<and> visible (lower_char c)"
  shows "canonical_wire_name (to_ascii_lowercase (trim_end_char CHR ''.'' q)) = canonical_wire_name q"
proof -
  let ?t = "trim_end_char CHR ''.'' q"
  obtain u where "q = ?t @ u" using trim_end_char_prefix by blast
  then have "set ?t \<subseteq> set q" by (metis Un_iff set_append subsetI)
  then have v: "\<forall>c \<in> set (to_ascii_lowercase ?t). visible c" using assms by (auto simp: to_ascii_lowercase_def)
  have "trim q = q" using assms by (cases "q = []") (auto intro!: trim_visible)
  moreover have "trim (to_ascii_lowercase ?t) = to_ascii_lowercase ?t"
    using v by (cases "to_ascii_lowercase ?t = []") (auto intro!: trim_visible)
  moreover have "trim_end_char CHR ''.'' (to_ascii_lowercase ?t) = to_ascii_lowercase ?t" by (simp add: trim_end_char_lower)
  moreover have "to_ascii_lowercase (to_ascii_lowercase l) = to_ascii_lowercase l" for l
    by (simp add: to_ascii_lowercase_def)
  moreover have "to_ascii_lowercase ?t = [] \<longleftrightarrow> ?t = []" by (simp add: to_ascii_lowercase_def)
  ultimately show ?thesis by (simp add: canonical_wire_name_def Let_def split_char_lower comp_def)
qed

lemma zone_hash_present:
  assumes r: "nsec3.ring hs" and l: "(owner_hash n, next_hashed_owner n) \<in> set (links hs)" and "covers_hash n h" "h \<noteq> []"
  shows "h \<notin> set hs"
  using nsec3.denies_only_absent [OF r l] assms(3,4) by (auto simp: covers_hash_def)

lemma link_owner: "(a, b) \<in> set (links xs) \<Longrightarrow> a \<in> set xs"
  by (auto simp: in_links)

text \<open>
  What a signed zone promises: \<open>zone\<close> are the names that exist, in canonical wire form, empty ones
  between two others included; \<open>hs\<close> are their hashes, sorted; the records of the response are
  among the zone's.
\<close>

definition nsec3_zone :: "digest \<Rightarrow> u16 \<Rightarrow> bytes \<Rightarrow> bytes set \<Rightarrow> bytes list \<Rightarrow> nsec3_record list \<Rightarrow> bool" where
  "nsec3_zone h1 iters s zone hs ns \<longleftrightarrow> nsec3.ring hs \<and> set hs = nsec3_digest h1 iters s ` zone \<and>
     (\<forall>n \<in> set ns. (owner_hash n, next_hashed_owner n) \<in> set (links hs) \<and> hash_algorithm n = 1 \<and> iterations n = iters \<and> salt n = s)"

text \<open>The canonical wire form of the question without its first \<open>i\<close> labels.\<close>

definition ancestor :: "string \<Rightarrow> nat \<Rightarrow> bytes" where
  "ancestor qn i = canonical_wire_name (suffix_name (split_char CHR ''.'' (to_ascii_lowercase (trim_end_char CHR ''.'' qn))) i)"

text \<open>
  C31: Denial by NSEC3. Let the records of a response be among the records of a zone, one for each
  name that exists; let every name between a name that exists and an ancestor of it that exists
  exist too; and let no ancestor of the question collide in its hash with the zone. If the check
  accepts the denial of a name without blanks, the name does not exist in the zone, whether its
  own hash is covered or a closest encloser is proved.
\<close>

theorem nsec3_denial_sound:
  assumes z: "nsec3_zone h1 iters s zone hs ns" and h1: "\<And>x. h1 x \<noteq> []"
    and vis: "\<forall>c \<in> set qn. visible c \<and> visible (lower_char c)"
    and closed: "\<And>i. 0 < i \<Longrightarrow> ancestor qn 0 \<in> zone \<Longrightarrow> ancestor qn i \<in> zone \<Longrightarrow> ancestor qn (i - 1) \<in> zone"
    and coll: "\<And>i. 0 < i \<Longrightarrow> nsec3_digest h1 iters s (ancestor qn i) \<in> set hs \<Longrightarrow> ancestor qn i \<in> zone"
    and v: "verify_nsec3_nxdomain h1 qn ns"
  shows "canonical_wire_name qn \<notin> zone"
proof
  define lbls where "lbls = split_char CHR ''.'' (to_ascii_lowercase (trim_end_char CHR ''.'' qn))"
  define dg where "dg = (\<lambda>n. nsec3_digest h1 iters s (canonical_wire_name n))"
  have anc: "canonical_wire_name (suffix_name lbls i) = ancestor qn i" for i by (simp add: ancestor_def lbls_def)
  assume q: "canonical_wire_name qn \<in> zone"
  have full: "ancestor qn 0 = canonical_wire_name qn"
    using canonical_wire_lower [OF vis] by (simp add: suffix_name_def ancestor_def)
  have ne: "ns \<noteq> []" using v by (auto simp: verify_nsec3_nxdomain_def)
  then have first: "hash_algorithm (hd ns) = 1" "iterations (hd ns) = iters" "salt (hd ns) = s"
    using z by (auto simp: nsec3_zone_def)
  have hash: "hash_nsec3_name h1 name (hash_algorithm (hd ns)) (iterations (hd ns)) (salt (hd ns)) =
      (if iters \<le> 150 then Some (dg name) else None)" for name by (simp add: first hash_nsec3_digest dg_def)
  have absent: "dg name \<notin> set hs" if "n \<in> set ns" "covers_hash n (dg name)" for n name
    using z that nsec3_digest_nonempty [OF h1] by (intro zone_hash_present [of hs n]) (auto simp: nsec3_zone_def dg_def)
  have present: "dg name \<in> set hs" if "canonical_wire_name name \<in> zone" for name
    using z that by (auto simp: nsec3_zone_def dg_def)
  have "\<not> covers_hash n (dg qn)" if "n \<in> set ns" for n using absent [OF that, of qn] present [OF q] by blast
  with v ne hash obtain i where i: "0 < i" "encloser_step (\<lambda>n. if iters \<le> 150 then Some (dg n) else None) ns lbls i"
    by (auto simp: verify_nsec3_nxdomain_def Let_def lbls_def Suc_le_eq split: if_splits)
  then obtain n m where n: "n \<in> set ns" "owner_hash n = dg (suffix_name lbls i)" and m: "m \<in> set ns" "covers_hash m (dg (suffix_name lbls (i - 1)))"
    by (auto simp: encloser_step_def matches_hash_def Let_def split: if_splits)
  have "owner_hash n \<in> set hs" using z n(1) link_owner by (fastforce simp: nsec3_zone_def)
  then have "ancestor qn i \<in> zone" using coll [OF i(1)] n(2) by (simp add: dg_def anc)
  with closed [OF i(1)] q full have "canonical_wire_name (suffix_name lbls (i - 1)) \<in> zone" by (simp add: anc)
  with absent [OF m] present show False by blast
qed

definition tiny_hash :: digest where
  "tiny_hash x = x @ [7]"

definition tiny_nsec3 :: nsec3_record where
  "tiny_nsec3 = \<lparr>n3_name = ''x'', hash_algorithm = 1, n3_flags = 0, iterations = 0, salt = [], next_hashed_owner = [1, 0x61, 0, 7],
     next_hashed_owner_b32 = [], n3_bit_maps = [], owner_hash = [1, 0x61, 0, 7]\<rparr>"

theorem nsec3_denial_sound_witness:
  "verify_nsec3_nxdomain tiny_hash ''b.a'' [tiny_nsec3] \<and> canonical_wire_name ''b.a'' \<notin> {[1, 0x61, 0]}"
proof -
  have z: "nsec3_zone tiny_hash 0 [] {[1, 0x61, 0]} [[1, 0x61, 0, 7]] [tiny_nsec3]"
    by (auto simp: nsec3_zone_def nsec3.ring_def nsec3_digest_def tiny_hash_def links_def tiny_nsec3_def)
  have v: "verify_nsec3_nxdomain tiny_hash ''b.a'' [tiny_nsec3]" by code_simp
  have a0: "ancestor ''b.a'' 0 = [1, 0x62, 1, 0x61, 0]" by code_simp
  have vis: "\<forall>c \<in> set ''b.a''. visible c \<and> visible (lower_char c)" by code_simp
  have "ancestor ''b.a'' i \<in> {[1, 0x61, 0]}" if "nsec3_digest tiny_hash 0 [] (ancestor ''b.a'' i) \<in> set [[1, 0x61, 0, 7]]" for i
    using that by (simp add: nsec3_digest_def tiny_hash_def)
  with nsec3_denial_sound [OF z _ vis _ _ v] a0 v show ?thesis by (simp add: tiny_hash_def)
qed

section \<open>What a verdict means\<close>

lemma has_type_outcome: "\<exists>b. nsec_has_type n t = ret b" "\<exists>b. nsec3_has_type m t = ret b"
  using contains_type_total by (auto simp: nsec_has_type_def nsec3_has_type_def simp del: contains_type_total)

lemma verify_nsec_nodata_total [simp]: "verify_nsec_nodata q t ns \<noteq> None"
proof (induction ns)
  case (Cons n ns)
  obtain b1 b2 where "nsec_has_type n t = Some b1" "nsec_has_type n 5 = Some b2" using has_type_outcome(1) by metis
  with Cons show ?case by auto
qed simp

lemma nodata_loop_total [simp]: "nodata_loop h t ns \<noteq> None"
proof (induction ns)
  case (Cons n ns)
  obtain b1 b2 where "nsec3_has_type n t = Some b1" "nsec3_has_type n 5 = Some b2" using has_type_outcome(2) by metis
  with Cons show ?case by auto
qed simp

lemma verify_nsec3_nodata_total [simp]: "verify_nsec3_nodata h1 q t ns \<noteq> None"
  using nodata_loop_total by (simp add: verify_nsec3_nodata_def Let_def split: option.split del: not_None_eq)

lemma denial_check_total: "denial_check h1 rcode ancount q t r \<noteq> None"
  unfolding denial_check_def if_split [of "\<lambda>x. x \<noteq> None"]
  by (intro conjI impI bind_ret_total verify_nsec3_nodata_total verify_nsec_nodata_total) simp_all

lemma verify_signature_total: "verify_dnssec_signature c alg pk d s \<noteq> None"
  using rsa_der_shape [of pk] by (cases alg) auto

lemma signed_data_of_total: "signed_data_of wire s \<noteq> None"
  unfolding signed_data_of_def extract_covered by simp

lemma rrsig_loop_total: "rrsig_loop c store wire now r ss \<noteq> None"
proof (induction ss)
  case (Cons s ss)
  obtain d where d: "signed_data_of wire s = Some d" using signed_data_of_total [of wire s] by blast
  show ?case
  proof (cases "find (\<lambda>k. key_tag_of k = sig_key_tag s) (dnskeys r)")
    case None
    with Cons show ?thesis by simp
  next
    case (Some k)
    obtain v where "verify_dnssec_signature c (sig_algorithm s) (public_key k) d (signature s) = Some v"
      using verify_signature_total by blast
    with Some d show ?thesis by (auto split: prod.split)
  qed
qed simp

lemma response_question_total: "12 \<le> length wire \<Longrightarrow> response_question wire \<noteq> None"
proof -
  assume l: "12 \<le> length wire"
  obtain p where "parse_dns_query wire = Some p" using parse_query_total' [of wire] by blast
  with l show ?thesis by (auto simp: response_question_def)
qed

definition in_window :: "nat \<Rightarrow> rrsig_record \<Rightarrow> bool" where
  "in_window now s \<longleftrightarrow> unat (sig_inception s) \<le> now + 300 \<and> now \<le> unat (sig_expiration s) + 300"

definition key_for :: "extracted_dnssec_records \<Rightarrow> rrsig_record \<Rightarrow> dnskey_record option" where
  "key_for r s = find (\<lambda>k. key_tag_of k = sig_key_tag s) (dnskeys r)"

text \<open>A signature passes: its key is in the response and it verifies over the covered record set.\<close>

definition verified :: "crypto \<Rightarrow> bytes \<Rightarrow> nat \<Rightarrow> extracted_dnssec_records \<Rightarrow> rrsig_record \<Rightarrow> bool" where
  "verified c wire now r s \<longleftrightarrow> in_window now s \<and> (\<exists>k data. key_for r s = Some k \<and> signed_data_of wire s = ret data \<and>
     verify_dnssec_signature c (sig_algorithm s) (public_key k) data (signature s) = ret True)"

text \<open>The first signature that is out of its window or has a key decides; without one the loop ends.\<close>

lemma rrsig_loop_cases:
  assumes "rrsig_loop c store wire now r ss = ret v"
  shows "v = None \<and> (\<forall>s \<in> set ss. in_window now s \<and> key_for r s = None) \<or>
    (\<exists>s d. find (\<lambda>s. \<not> in_window now s \<or> key_for r s \<noteq> None) ss = Some s \<and> v = Some d \<and>
      (if verified c wire now r s
       then \<exists>k. key_for r s = Some k \<and> d = details_secure (sig_algorithm s) (sig_key_tag s) (signer_name s) (length (rrsigs r))
         (length (dnskeys r)) (length (ds_records r)) (fst (trace_chain c store k r)) (snd (trace_chain c store k r))
       else \<exists>reason. d = details_bogus reason (Some (sig_algorithm s)) (Some (sig_key_tag s))))"
  using assms
proof (induction ss)
  case (Cons s ss)
  show ?case
  proof (cases "in_window now s")
    case False
    with Cons.prems show ?thesis by (auto simp: in_window_def verified_def split: if_splits)
  next
    case win: True
    then have w: "\<not> now + 300 < unat (sig_inception s)" "\<not> now > unat (sig_expiration s) + 300"
      by (auto simp: in_window_def)
    show ?thesis
    proof (cases "key_for r s")
      case None
      with Cons w have "rrsig_loop c store wire now r ss = ret v" by (simp add: key_for_def)
      with Cons.IH win None show ?thesis by simp
    next
      case (Some k)
      obtain d where d: "signed_data_of wire s = Some d" using signed_data_of_total [of wire s] by blast
      obtain b where b: "verify_dnssec_signature c (sig_algorithm s) (public_key k) d (signature s) = Some b"
        using verify_signature_total by blast
      have "verified c wire now r s \<longleftrightarrow> b" using win Some d b by (simp add: verified_def)
      with Cons.prems w Some d b show ?thesis by (auto simp: key_for_def split: prod.splits)
    qed
  qed
qed simp

lemma trace_chain_anchored:
  assumes "snd (trace_chain c store k r)" "k \<in> set (dnskeys r)"
  shows "\<exists>key \<in> set (dnskeys r). \<exists>a \<in> set store. anchor_matches (sha256 c) (sha384 c) key a"
proof -
  have "\<exists>a \<in> set store. anchor_matches (sha256 c) (sha384 c) key a" if "verify_root_anchor (sha256 c) (sha384 c) store key \<noteq> None" for key
    using that by (auto simp: verify_root_anchor_def find_Some_iff) 
  with assms show ?thesis by (fastforce simp: trace_chain_def Let_def filter_empty_conv)
qed

definition upstream_ad :: "bytes \<Rightarrow> bool" where
  "upstream_ad wire \<longleftrightarrow> get16 wire 2 AND 0x0020 \<noteq> 0"

lemma validate_total: "validate_dnssec c store wire now \<noteq> None"
proof (cases "length wire < 12 \<or> get16 wire 2 AND 0x000F = 2")
  case True
  then show ?thesis by (cases "length wire < 12") (simp_all add: validate_dnssec_def Let_def)
next
  case False
  obtain r where r: "extract_dnssec_records wire = Some r"
    using extracting.scan_fold by (auto simp: extract_dnssec_records_def)
  obtain q t where q: "response_question wire = Some (q, t)" using response_question_total [of wire] False by fastforce
  obtain dn where dn: "denial_check (sha1 c) (get16 wire 2 AND 0x000F) (get16 wire 6) q t r = Some dn" using denial_check_total by blast
  obtain v where v: "rrsig_loop c store wire now r (rrsigs r) = Some v" using rrsig_loop_total by blast
  from False r q dn v show ?thesis
    unfolding validate_dnssec_def Let_def by (cases dn; cases "rrsigs r") (simp_all del: rrsig_loop.simps)
qed

text \<open>The cases of a validation, in the order in which they are decided.\<close>

lemma validate_cases:
  assumes "validate_dnssec c store wire now = ret d" "extract_dnssec_records wire = ret r"
  shows "d = details_insecure \<and> (length wire < 12 \<or> rrsigs r = [] \<and> \<not> upstream_ad wire) \<or>
    (\<exists>reason. d = details_bogus reason None None) \<or>
    (\<exists>proof_type. d = denial_of_existence proof_type (first_signer r) (length (rrsigs r)) \<and> (nsecs r \<noteq> [] \<or> nsec3s r \<noteq> [])) \<or>
    d = upstream_secure \<and> rrsigs r = [] \<and> upstream_ad wire \<or>
    (\<exists>s d'. find (\<lambda>s. \<not> in_window now s \<or> key_for r s \<noteq> None) (rrsigs r) = Some s \<and> rrsig_loop c store wire now r (rrsigs r) = ret (Some d) \<and> d' = d) \<or>
    rrsigs r \<noteq> [] \<and> (\<forall>s \<in> set (rrsigs r). in_window now s \<and> key_for r s = None) \<and>
      d = details_secure (sig_algorithm (hd (rrsigs r))) (sig_key_tag (hd (rrsigs r))) (signer_name (hd (rrsigs r)))
        (length (rrsigs r)) (length (dnskeys r)) (length (ds_records r)) 1 (upstream_ad wire)"
proof (cases "length wire < 12")
  case True
  with assms show ?thesis by (simp add: validate_dnssec_def)
next
  case False
  then have wire: "wire \<noteq> []" by auto
  obtain q t where q: "response_question wire = Some (q, t)" using response_question_total [of wire] False by fastforce
  obtain dn where dn: "denial_check (sha1 c) (get16 wire 2 AND 0x000F) (get16 wire 6) q t r = Some dn" using denial_check_total by blast
  obtain v where v: "rrsig_loop c store wire now r (rrsigs r) = Some v" using rrsig_loop_total by blast
  show ?thesis
  proof (cases "get16 wire 2 AND 0x000F = 2")
    case True
    with assms False show ?thesis by (auto simp: validate_dnssec_def Let_def)
  next
    case nofail: False
    show ?thesis
    proof (cases dn)
      case (Some dd)
      with assms False nofail q dn have "d = dd" by (simp add: validate_dnssec_def Let_def)
      moreover have "(\<exists>reason. dd = details_bogus reason None None) \<or>
          (\<exists>proof_type. dd = denial_of_existence proof_type (first_signer r) (length (rrsigs r)) \<and> (nsecs r \<noteq> [] \<or> nsec3s r \<noteq> []))"
        using dn Some by (auto simp: denial_check_def denial_result_def bind_eq_Some_conv split: if_splits)
      ultimately show ?thesis by blast
    next
      case None
      note run = assms(1) [unfolded validate_dnssec_def Let_def]
      show ?thesis
      proof (cases "rrsigs r")
        case Nil
        with run assms(2) False nofail q dn None show ?thesis by (auto simp: upstream_ad_def split: if_splits)
      next
        case (Cons s ss)
        with run assms(2) False nofail q dn None v have d: "d = (case v of Some d \<Rightarrow> d
            | None \<Rightarrow> details_secure (sig_algorithm s) (sig_key_tag s) (signer_name s)
               (length (rrsigs r)) (length (dnskeys r)) (length (ds_records r)) 1 (upstream_ad wire))"
          unfolding upstream_ad_def by simp
        from rrsig_loop_cases [OF v] show ?thesis
        proof (elim disjE exE conjE)
          assume "v = None" "\<forall>s \<in> set (rrsigs r). in_window now s \<and> key_for r s = None"
          with d Cons show ?thesis by simp
        next
          fix s' d' assume "find (\<lambda>s. \<not> in_window now s \<or> key_for r s \<noteq> None) (rrsigs r) = Some s'" "v = Some d'"
          with d v show ?thesis by auto
        qed
      qed
    qed
  qed
qed


definition no_crypto :: crypto where
  "no_crypto = \<lparr>sha1 = \<lambda>_. [0], sha256 = \<lambda>_. [0], sha384 = \<lambda>_. [0], ecdsa_p256 = \<lambda>_ _ _. False, ed25519 = \<lambda>_ _ _. False,
     rsa_sha256 = \<lambda>_ _ _. False, rsa_sha512 = \<lambda>_ _ _. False\<rparr>"

text \<open>A response with one signature record, valid from the given second, and no key.\<close>

definition lone_rrsig :: "u8 \<Rightarrow> bytes" where
  "lone_rrsig inception = [0, 0, 0x81, 0x80, 0, 0, 0, 1, 0, 0, 0, 0,
     0, 0, 46, 0, 1, 0, 0, 0, 0, 0, 19, 0, 1, 15, 0, 0, 0, 0, 0, 0xFF, 0xFF, 0xFF, 0xFF, 0, 0, inception, 0, 0, 7, 0]"

lemma lone_extract:
  "\<exists>r s. extract_dnssec_records (lone_rrsig 0) = ret r \<and> nsecs r = [] \<and> nsec3s r = [] \<and> dnskeys r = [] \<and> rrsigs r = [s] \<and>
     sig_inception s = 0 \<and> sig_expiration s = 0xFFFFFFFF \<and> sig_key_tag s = 7"
  "\<exists>r s. extract_dnssec_records (lone_rrsig 2) = ret r \<and> nsecs r = [] \<and> nsec3s r = [] \<and> dnskeys r = [] \<and> rrsigs r = [s] \<and>
     sig_inception s = 512 \<and> sig_expiration s = 0xFFFFFFFF \<and> sig_key_tag s = 7"
proof -
  have x: "\<exists>r s. e = ret r \<and> nsecs r = [] \<and> nsec3s r = [] \<and> dnskeys r = [] \<and> rrsigs r = [s] \<and>
     sig_inception s = i \<and> sig_expiration s = x \<and> sig_key_tag s = 7"
    if "map_option (\<lambda>r. (nsecs r, nsec3s r, dnskeys r, map (\<lambda>s. (sig_inception s, sig_expiration s, sig_key_tag s)) (rrsigs r))) e
      = Some ([], [], [], [(i, x, 7)])" for e i x using that by auto
  show "\<exists>r s. extract_dnssec_records (lone_rrsig 0) = ret r \<and> nsecs r = [] \<and> nsec3s r = [] \<and> dnskeys r = [] \<and> rrsigs r = [s] \<and>
     sig_inception s = 0 \<and> sig_expiration s = 0xFFFFFFFF \<and> sig_key_tag s = 7" by (rule x) code_simp
  show "\<exists>r s. extract_dnssec_records (lone_rrsig 2) = ret r \<and> nsecs r = [] \<and> nsec3s r = [] \<and> dnskeys r = [] \<and> rrsigs r = [s] \<and>
     sig_inception s = 512 \<and> sig_expiration s = 0xFFFFFFFF \<and> sig_key_tag s = 7" by (rule x) code_simp
qed

text \<open>The signature of a response without keys is never looked at.\<close>

lemma keyless_signature_ignored: "\<exists>d. validate_dnssec c store (lone_rrsig 0) 0 = ret d \<and> status d = Secure"
proof -
  obtain r s where r: "extract_dnssec_records (lone_rrsig 0) = ret r" "nsecs r = []" "nsec3s r = []" "dnskeys r = []" "rrsigs r = [s]"
      "sig_inception s = 0" "sig_expiration s = 0xFFFFFFFF" using lone_extract(1) by blast
  have w: "get16 (lone_rrsig 0) 2 AND 0x000F = 0" "get16 (lone_rrsig 0) 6 = 1" "get16 (lone_rrsig 0) 4 = 0" "\<not> length (lone_rrsig 0) < 12"
    by code_simp+
  have q: "response_question (lone_rrsig 0) = ret ([], 1)" using w by (simp add: response_question_def)
  show ?thesis unfolding validate_dnssec_def Let_def using w q r by (simp add: denial_check_def details_secure_def)
qed


text \<open>
  Tampering is noticed. When a response that is not a denial carries signatures, the first of
  them that is out of its window (with five minutes of grace) or has a key in the response
  decides: out of the window, or with a signature that does not verify over the covered record
  set, the verdict is bogus with that signature's key tag.
\<close>

theorem bad_signature_bogus:
  assumes "extract_dnssec_records wire = ret r" and "nsecs r = []" and "nsec3s r = []" and "12 \<le> length wire"
    and "get16 wire 2 AND 0x000F \<noteq> 2"
    and "find (\<lambda>s. \<not> in_window now s \<or> key_for r s \<noteq> None) (rrsigs r) = Some s" and "\<not> verified c wire now r s"
  shows "\<exists>d. validate_dnssec c store wire now = ret d \<and> status d = Bogus \<and> \<not> authenticated_data d \<and> det_key_tag d = Some (sig_key_tag s)"
proof -
  obtain q t where q: "response_question wire = Some (q, t)" using response_question_total [of wire] assms(4) by fastforce
  obtain v where v: "rrsig_loop c store wire now r (rrsigs r) = Some v" using rrsig_loop_total by blast
  have "s \<in> set (rrsigs r)" "\<not> (in_window now s \<and> key_for r s = None)" using assms(6) by (auto simp: find_Some_iff)
  with rrsig_loop_cases [OF v] assms(6,7) obtain reason where d: "v = Some (details_bogus reason (Some (sig_algorithm s)) (Some (sig_key_tag s)))"
    by auto
  obtain s0 ss where ne: "rrsigs r = s0 # ss" using assms(6) by (cases "rrsigs r") auto
  have dn: "denial_check (sha1 c) (get16 wire 2 AND 0x000F) (get16 wire 6) q t r = Some None"
    using assms(2,3) by (simp add: denial_check_def)
  have "validate_dnssec c store wire now = ret (details_bogus reason (Some (sig_algorithm s)) (Some (sig_key_tag s)))"
    unfolding validate_dnssec_def Let_def using assms(1,4,5) q dn v d ne by (simp del: rrsig_loop.simps)
  then show ?thesis by (simp add: details_bogus_def)
qed

theorem bad_signature_bogus_witness:
  "\<exists>d. validate_dnssec no_crypto [] (lone_rrsig 2) 0 = ret d \<and> status d = Bogus \<and> \<not> authenticated_data d \<and> det_key_tag d = Some 7"
proof -
  obtain r s where r: "extract_dnssec_records (lone_rrsig 2) = ret r" and f: "nsecs r = []" "nsec3s r = []" "rrsigs r = [s]"
      "sig_inception s = 512" "sig_key_tag s = 7" using lone_extract(2) by blast
  have w: "\<not> in_window 0 s" by (simp add: in_window_def f)
  have l: "12 \<le> length (lone_rrsig 2)" "get16 (lone_rrsig 2) 2 AND 0x000F \<noteq> 2" by code_simp+
  have "find (\<lambda>s. \<not> in_window 0 s \<or> key_for r s \<noteq> None) (rrsigs r) = Some s" "\<not> verified no_crypto (lone_rrsig 2) 0 r s"
    using w by (simp_all add: f verified_def)
  from bad_signature_bogus [OF r f(1,2) l this] f(5) show ?thesis by simp
qed

end
