(* ===== verification/Metrics.thy ===== *)
theory Metrics
  imports Client_Tracker Dnssec_Validate
begin

text \<open>
  Telemetry, \<open>src/src/telemetry/metrics.rs\<close>: the counters, the latency histogram, the ring of one
  bucket per second, the tables of devices and users, and the two burst detectors. A counter is
  an element of \<open>counter\<close>, named as the field of the struct; the seven counters that
  \<open>check_domain\<close> updates too (\<open>threat_blocks\<close>, \<open>alike_blocks\<close>, \<open>dga_blocks\<close>, \<open>auto_blocks\<close>, \<open>dcc_hits\<close>,
  \<open>fast_neg_hits\<close>, \<open>schedule_blocks\<close>) are fields of \<open>rules\<close> in \<open>Rules\<close>. The clock is an argument, in
  milliseconds since 1970; locks are never poisoned; \<open>fk\<close> is the first key of a table's iteration
  order. Rates and peaks are real numbers, without the rounding of floating point.
\<close>

section \<open>State\<close>

datatype counter = Requests | Cache_hits | Cache_misses | Gsb_blocks
  | Rebind_blocks | Rep_blocks | Burst_events | Nx_alarms | Answer_drifts | Swarm_alarms
  | Dot_queries | Doh_queries | Doq_queries | Doh3_queries | Plain_queries
  | Dnssec_validations | Dnssec_secure | Dnssec_bogus | Dnssec_insecure | Dnssec_denial
  | Lat_sub_1ms | Lat_1_to_5ms | Lat_5_to_15ms | Lat_15_to_50ms | Lat_above_50ms | Total_lat_micros
  | Swr_serves | Prefetch_triggers | Prefetch_hits | Ttl_guard_blocks | Cname_flattened
  | Race_wins | Auth_fails | Upstream_last_sync

record device_entry =
  dev_id :: string
  dev_ip :: string
  dev_type :: string
  dev_count :: u64
  dev_last_seen :: nat

record metrics =
  counts :: "counter \<Rightarrow> u64"
  rps_buckets :: "nat list"
  rps_idx :: nat
  rps_peak :: real
  devices :: "string \<rightharpoonup> device_entry"
  users :: "string \<rightharpoonup> nat"
  nx_window :: "string \<rightharpoonup> nat list"
  swarm_window :: "string \<rightharpoonup> nat list \<times> nat"

definition metrics_new :: "nat \<Rightarrow> metrics" where
  "metrics_new now_unix = \<lparr>counts = (\<lambda>_. 0), rps_buckets = replicate 60 0, rps_idx = now_unix, rps_peak = 0,
     devices = Map.empty, users = Map.empty, nx_window = Map.empty, swarm_window = Map.empty\<rparr>"

definition count_by :: "u64 \<Rightarrow> counter \<Rightarrow> metrics \<Rightarrow> metrics" where
  "count_by n c m = m\<lparr>counts := (counts m)(c := counts m c + n)\<rparr>"

abbreviation count_one :: "counter \<Rightarrow> metrics \<Rightarrow> metrics" where
  "count_one \<equiv> count_by 1"

section \<open>Latency and validation\<close>

definition record_latency :: "nat \<Rightarrow> metrics \<Rightarrow> metrics" where
  "record_latency micros m = (
     let m = count_by (word_of_nat micros) Total_lat_micros m in
     if micros < 1000 then count_one Lat_sub_1ms m
     else if micros < 5000 then count_one Lat_1_to_5ms m
     else if micros < 15000 then count_one Lat_5_to_15ms m
     else if micros < 50000 then count_one Lat_15_to_50ms m
     else count_one Lat_above_50ms m)"

definition record_dnssec :: "validation_details \<Rightarrow> metrics \<Rightarrow> metrics" where
  "record_dnssec details m = (
     let m = count_one Dnssec_validations m in
     case status details of
       Secure \<Rightarrow> count_one Dnssec_secure m
     | Bogus \<Rightarrow> count_one Dnssec_bogus m
     | _ \<Rightarrow> if is_denial_of_existence details then count_one Dnssec_denial m else count_one Dnssec_insecure m)"

definition get_latency_distribution :: "metrics \<Rightarrow> u64 \<times> u64 \<times> u64 \<times> u64 \<times> u64" where
  "get_latency_distribution m = (counts m Lat_sub_1ms, counts m Lat_1_to_5ms, counts m Lat_5_to_15ms,
     counts m Lat_15_to_50ms, counts m Lat_above_50ms)"

section \<open>Tables\<close>

text \<open>Room for a key: with a full table, entries that fail the test go, then the first one.\<close>

definition make_room_for :: "nat \<Rightarrow> ('v \<Rightarrow> bool) \<Rightarrow> ((string \<rightharpoonup> 'v) \<Rightarrow> string) \<Rightarrow> string \<Rightarrow> (string \<rightharpoonup> 'v) \<Rightarrow> string \<rightharpoonup> 'v" where
  "make_room_for cap keep fk key tbl =
    (if card (dom tbl) \<ge> cap then
       (let tbl = retain keep tbl in
        if card (dom tbl) \<ge> cap \<and> key \<notin> dom tbl then tbl(fk tbl := None) else tbl)
     else tbl)"

definition touch_device :: "((string \<rightharpoonup> device_entry) \<Rightarrow> string) \<Rightarrow> string \<Rightarrow> string \<Rightarrow> nat \<Rightarrow> metrics \<Rightarrow> metrics" where
  "touch_device fk clean_ip device_type now_ms m = (
     let tbl = make_room_for 10000 (\<lambda>v. dev_last_seen v \<ge> now_ms - 300000) fk clean_ip (devices m);
         entry = unwrap_or \<lparr>dev_id = clean_ip, dev_ip = clean_ip, dev_type = device_type, dev_count = 0, dev_last_seen = now_ms\<rparr> (tbl clean_ip)
     in m\<lparr>devices := tbl(clean_ip \<mapsto> entry\<lparr>dev_count := dev_count entry + 1, dev_last_seen := now_ms\<rparr>)\<rparr>)"

definition touch_user :: "((string \<rightharpoonup> nat) \<Rightarrow> string) \<Rightarrow> string \<Rightarrow> nat \<Rightarrow> metrics \<Rightarrow> metrics" where
  "touch_user fk clean_ip now_ms m = (
     let tbl = make_room_for 10000 (\<lambda>last. last \<ge> now_ms - 300000) fk clean_ip (users m)
     in m\<lparr>users := tbl(clean_ip \<mapsto> now_ms)\<rparr>)"

section \<open>The ring of seconds\<close>

text \<open>The seconds that passed since the last query are cleared, at most sixty of them.\<close>

definition roll_forward :: "nat \<Rightarrow> metrics \<Rightarrow> metrics" where
  "roll_forward now_sec m =
    (if now_sec > rps_idx m then
       (let elapsed = min (now_sec - rps_idx m) 60;
            buckets = fold (\<lambda>s b. b[(rps_idx m + s) mod 60 := 0]) [1..<elapsed + 1] (rps_buckets m)
        in m\<lparr>rps_buckets := buckets, rps_idx := now_sec\<rparr>)
     else m)"

definition count_second :: "nat \<Rightarrow> metrics \<Rightarrow> metrics" where
  "count_second now_sec m = (
     let m = roll_forward now_sec m;
         count = min (rps_buckets m ! (now_sec mod 60) + 1) 0xFFFFFFFF
     in m\<lparr>rps_buckets := (rps_buckets m)[now_sec mod 60 := count], rps_peak := max (rps_peak m) (real count)\<rparr>)"

definition metrics_query ::
  "((string \<rightharpoonup> device_entry) \<Rightarrow> string) \<Rightarrow> ((string \<rightharpoonup> nat) \<Rightarrow> string) \<Rightarrow> string \<Rightarrow> string \<Rightarrow> nat \<Rightarrow> metrics \<Rightarrow> metrics" where
  "metrics_query fk fk' client_ip device_type now_ms m = (
     let m = count_one Requests m;
         m = count_one
           (if device_type = ''dot'' then Dot_queries
            else if device_type = ''doq'' then Doq_queries
            else if device_type = ''doh3'' then Doh3_queries
            else if starts_with device_type ''plain'' \<or> starts_with device_type ''Plain'' then Plain_queries
            else Doh_queries) m;
         clean_ip = (if client_ip = [] then ''127.0.0.1'' else client_ip);
         m = touch_device fk clean_ip device_type now_ms m;
         m = touch_user fk' clean_ip now_ms m
     in count_second (now_ms div 1000) m)"

definition get_rps :: "nat \<Rightarrow> metrics \<Rightarrow> real \<times> metrics" where
  "get_rps now_ms m = (
     let now_sec = now_ms div 1000;
         m = roll_forward now_sec m;
         frac = real (now_ms mod 1000) / 1000;
         curr = real (rps_buckets m ! (now_sec mod 60));
         prev = real (rps_buckets m ! ((now_sec - 1) mod 60));
         live_rate = max (curr + (1 - frac) * prev) 0;
         peak = fold (\<lambda>b p. max p (real b)) (rps_buckets m) (max (max (max (rps_peak m) live_rate) curr) prev)
     in (real_of_int \<lfloor>live_rate * 10 + 1 / 2\<rfloor> / 10, m\<lparr>rps_peak := peak\<rparr>))"

section \<open>Bursts\<close>

text \<open>Time stamps outside the window leave at the front; of twenty, one more goes.\<close>

definition push_stamp :: "nat \<Rightarrow> nat \<Rightarrow> nat list \<Rightarrow> nat list" where
  "push_stamp cutoff now_ms queue = (
     let queue = dropWhile (\<lambda>t. t < cutoff) queue;
         queue = (if length queue \<ge> 20 then tl queue else queue)
     in queue @ [now_ms])"

definition fresh_queue :: "nat \<Rightarrow> nat list \<Rightarrow> bool" where
  "fresh_queue cutoff q \<longleftrightarrow> q \<noteq> [] \<and> last q \<ge> cutoff"

definition detect_nx_burst :: "((string \<rightharpoonup> nat list) \<Rightarrow> string) \<Rightarrow> string \<Rightarrow> nat \<Rightarrow> metrics \<Rightarrow> bool \<times> metrics" where
  "detect_nx_burst fk client_ip now_ms m = (
     let cutoff = now_ms - 60000;
         tbl = make_room_for 5000 (fresh_queue cutoff) fk client_ip (nx_window m);
         queue = push_stamp cutoff now_ms (unwrap_or [] (tbl client_ip))
     in (length queue \<ge> 10, m\<lparr>nx_window := tbl(client_ip \<mapsto> queue)\<rparr>))"

definition detect_swarm :: "((string \<rightharpoonup> nat list \<times> nat) \<Rightarrow> string) \<Rightarrow> string \<Rightarrow> nat \<Rightarrow> metrics \<Rightarrow> bool \<times> metrics" where
  "detect_swarm fk domain now_ms m = (
     let cutoff = now_ms - 10000;
         tbl = make_room_for 2000 (\<lambda>(q, _). fresh_queue cutoff q) fk domain (swarm_window m);
         (queue, ip_count) = unwrap_or ([], 0) (tbl domain);
         queue = push_stamp cutoff now_ms queue;
         ip_count = min (min (ip_count + 1) 0xFFFFFFFF) (length queue)
     in (length queue \<ge> 5, m\<lparr>swarm_window := tbl(domain \<mapsto> (queue, ip_count))\<rparr>))"

section \<open>Reset and pruning\<close>

definition metrics_reset :: "metrics \<Rightarrow> metrics" where
  "metrics_reset m = m\<lparr>counts := (\<lambda>c. if c = Auth_fails \<or> c = Upstream_last_sync then counts m c else 0),
     rps_buckets := replicate 60 0, rps_peak := 0, devices := Map.empty, users := Map.empty,
     nx_window := Map.empty, swarm_window := Map.empty\<rparr>"

definition metrics_prune :: "nat \<Rightarrow> metrics \<Rightarrow> metrics" where
  "metrics_prune now_ms m = m\<lparr>devices := retain (\<lambda>v. dev_last_seen v \<ge> now_ms - 300000) (devices m),
     users := retain (\<lambda>last. last \<ge> now_ms - 300000) (users m),
     nx_window := retain (fresh_queue (now_ms - 60000)) (nx_window m),
     swarm_window := retain (\<lambda>(q, _). fresh_queue (now_ms - 10000) q) (swarm_window m)\<rparr>"

definition active_device_count :: "nat \<Rightarrow> metrics \<Rightarrow> nat \<times> metrics" where
  "active_device_count now_ms m = (let tbl = retain (\<lambda>v. dev_last_seen v \<ge> now_ms - 300000) (devices m)
     in (card (dom tbl), m\<lparr>devices := tbl\<rparr>))"

definition active_ip_count :: "nat \<Rightarrow> metrics \<Rightarrow> nat \<times> metrics" where
  "active_ip_count now_ms m = (let tbl = retain (\<lambda>last. last \<ge> now_ms - 300000) (users m)
     in (card (dom tbl), m\<lparr>users := tbl\<rparr>))"

definition online_since :: "nat \<Rightarrow> string" where
  "online_since s =
    (if s < 60 then decimal s @ ''s'' else if s < 3600 then decimal (s div 60) @ ''m''
     else if s < 86400 then decimal (s div 3600) @ ''h'' else decimal (s div 86400) @ ''d'')"

section \<open>The tables are bounded\<close>

definition first_key_ok :: "((string \<rightharpoonup> 'v) \<Rightarrow> string) \<Rightarrow> bool" where
  "first_key_ok fk \<longleftrightarrow> (\<forall>tbl. tbl \<noteq> Map.empty \<longrightarrow> fk tbl \<in> dom tbl)"

lemma retain_dom: "dom (retain P m) \<subseteq> dom m"
  by (auto simp: retain_def split: option.splits if_splits)

lemma retain_Some: "retain P m k = Some v \<longleftrightarrow> m k = Some v \<and> P v"
  by (auto simp: retain_def split: option.splits)

lemma retain_card: "finite (dom m) \<Longrightarrow> card (dom (retain P m)) \<le> card (dom m) \<and> finite (dom (retain P m))"
  by (meson card_mono finite_subset retain_dom)

lemma make_room_sub: "make_room_for cap keep fk key tbl k = Some v \<Longrightarrow> tbl k = Some v"
  by (auto simp: make_room_for_def Let_def retain_Some split: if_splits)

lemma table_room_card:
  assumes "finite (dom tbl)" "card (dom tbl) \<le> cap" "0 < cap" "first_key_ok fk"
  shows "finite (dom (make_room_for cap keep fk key tbl)) \<and> card (insert key (dom (make_room_for cap keep fk key tbl))) \<le> cap"
proof -
  let ?r = "retain keep tbl"
  have r: "finite (dom ?r)" "card (dom ?r) \<le> cap" using retain_card [OF assms(1), of keep] assms(2) by auto
  consider "card (dom tbl) < cap" | "cap \<le> card (dom tbl)" "card (dom ?r) < cap" |
    "cap \<le> card (dom tbl)" "card (dom ?r) = cap" "key \<in> dom ?r" | "cap \<le> card (dom tbl)" "card (dom ?r) = cap" "key \<notin> dom ?r"
    using r(2) by linarith
  then show ?thesis
  proof cases
    case 4
    then have "?r \<noteq> Map.empty" using assms(3) by auto
    then have "fk ?r \<in> dom ?r" using assms(4) by (simp add: first_key_ok_def)
    with 4 r assms(3) show ?thesis by (simp add: make_room_for_def Let_def card_insert_if card_Diff_singleton)
  qed (use assms r in \<open>auto simp: make_room_for_def Let_def card_insert_if insert_absorb\<close>)
qed

datatype metrics_op = Query string string nat | Nx string nat | Swarm string nat | Latency nat | Validation validation_details
  | Rps nat | Devices nat | Ips nat | Prune nat | Reset

fun metrics_step :: "((string \<rightharpoonup> device_entry) \<Rightarrow> string) \<Rightarrow> ((string \<rightharpoonup> nat) \<Rightarrow> string) \<Rightarrow> ((string \<rightharpoonup> nat list) \<Rightarrow> string) \<Rightarrow>
  ((string \<rightharpoonup> nat list \<times> nat) \<Rightarrow> string) \<Rightarrow> metrics_op \<Rightarrow> metrics \<Rightarrow> metrics" where
  "metrics_step fd fu fn fs (Query ip ty t) m = metrics_query fd fu ip ty t m"
| "metrics_step fd fu fn fs (Nx ip t) m = snd (detect_nx_burst fn ip t m)"
| "metrics_step fd fu fn fs (Swarm d t) m = snd (detect_swarm fs d t m)"
| "metrics_step fd fu fn fs (Latency us) m = record_latency us m"
| "metrics_step fd fu fn fs (Validation d) m = record_dnssec d m"
| "metrics_step fd fu fn fs (Rps t) m = snd (get_rps t m)"
| "metrics_step fd fu fn fs (Devices t) m = snd (active_device_count t m)"
| "metrics_step fd fu fn fs (Ips t) m = snd (active_ip_count t m)"
| "metrics_step fd fu fn fs (Prune t) m = metrics_prune t m"
| "metrics_step fd fu fn fs Reset m = metrics_reset m"

definition metrics_run where
  "metrics_run fd fu fn fs t0 ops = fold (metrics_step fd fu fn fs) ops (metrics_new t0)"

definition table_ok :: "nat \<Rightarrow> ('v \<Rightarrow> bool) \<Rightarrow> (string \<rightharpoonup> 'v) \<Rightarrow> bool" where
  "table_ok cap good tbl \<longleftrightarrow> finite (dom tbl) \<and> card (dom tbl) \<le> cap \<and> (\<forall>k v. tbl k = Some v \<longrightarrow> good v)"

definition metrics_ok :: "metrics \<Rightarrow> bool" where
  "metrics_ok m \<longleftrightarrow> length (rps_buckets m) = 60 \<and> (\<forall>b \<in> set (rps_buckets m). b \<le> 0xFFFFFFFF) \<and>
     table_ok 10000 (\<lambda>_. True) (devices m) \<and> table_ok 10000 (\<lambda>_. True) (users m) \<and>
     table_ok 5000 (\<lambda>q. q \<noteq> [] \<and> length q \<le> 20) (nx_window m) \<and>
     table_ok 2000 (\<lambda>(q, n). q \<noteq> [] \<and> length q \<le> 20 \<and> n \<le> length q) (swarm_window m)"

lemma table_ok_retain: "table_ok cap good tbl \<Longrightarrow> table_ok cap good (retain P tbl)"
  unfolding table_ok_def using retain_card [of tbl P] by (auto simp: retain_Some)

lemma table_ok_put:
  assumes "table_ok cap good tbl" "0 < cap" "first_key_ok fk" "good v"
  shows "table_ok cap good ((make_room_for cap keep fk key tbl)(key \<mapsto> v))"
proof -
  have "finite (dom tbl)" "card (dom tbl) \<le> cap" using assms(1) by (auto simp: table_ok_def)
  from table_room_card [OF this assms(2,3), of keep key] assms(1,4) make_room_sub [of cap keep fk key tbl]
  show ?thesis by (auto simp: table_ok_def)
qed

lemma push_stamp_length: "length q \<le> 20 \<Longrightarrow> push_stamp c t q \<noteq> [] \<and> length (push_stamp c t q) \<le> 20"
  using length_dropWhile_le [of "\<lambda>t. t < c" q] by (auto simp: push_stamp_def Let_def)

lemma roll_forward_simps [simp]: "counts (roll_forward t m) = counts m" "devices (roll_forward t m) = devices m"
  "users (roll_forward t m) = users m" "nx_window (roll_forward t m) = nx_window m"
  "swarm_window (roll_forward t m) = swarm_window m" "rps_peak (roll_forward t m) = rps_peak m"
  by (simp_all add: roll_forward_def Let_def)

lemma count_by_simps [simp]: "rps_buckets (count_by n c m) = rps_buckets m" "rps_idx (count_by n c m) = rps_idx m"
  "devices (count_by n c m) = devices m" "users (count_by n c m) = users m" "nx_window (count_by n c m) = nx_window m"
  "swarm_window (count_by n c m) = swarm_window m" "rps_peak (count_by n c m) = rps_peak m"
  by (simp_all add: count_by_def)

lemma fold_clear:
  "length (fold (\<lambda>s b. b[f s := (0 :: nat)]) xs b) = length b"
  "i < length b \<Longrightarrow> fold (\<lambda>s b. b[f s := (0 :: nat)]) xs b ! i = (if i \<in> f ` set xs then 0 else b ! i)"
  by (induction xs arbitrary: b) (auto simp: nth_list_update)

lemma roll_forward_buckets:
  assumes "length (rps_buckets m) = 60" "\<forall>b \<in> set (rps_buckets m). b \<le> n"
  shows "length (rps_buckets (roll_forward t m)) = 60 \<and> (\<forall>b \<in> set (rps_buckets (roll_forward t m)). b \<le> n)"
proof (cases "t > rps_idx m")
  case True
  define xs where "xs = [1..<min (t - rps_idx m) 60 + 1]"
  have "rps_buckets (roll_forward t m) = fold (\<lambda>s b. b[(rps_idx m + s) mod 60 := 0]) xs (rps_buckets m)"
    using True by (simp only: roll_forward_def Let_def xs_def if_True) simp
  with assms fold_clear [where f = "\<lambda>s. (rps_idx m + s) mod 60" and xs = xs] show ?thesis
    by (auto simp: in_set_conv_nth) (metis nth_mem)
qed (use assms in \<open>simp add: roll_forward_def\<close>)

lemma count_second_ok: "metrics_ok m \<Longrightarrow> metrics_ok (count_second t m)"
  using roll_forward_buckets [of m "0xFFFFFFFF" t] unfolding metrics_ok_def count_second_def Let_def
  by (auto dest!: subsetD [OF set_update_subset_insert])

lemma record_latency_simps [simp]: "metrics_ok (record_latency us m) = metrics_ok m" "metrics_ok (record_dnssec d m) = metrics_ok m"
  by (simp_all add: metrics_ok_def record_latency_def record_dnssec_def Let_def split: dnssec_status.split)

lemma metrics_query_ok:
  assumes "metrics_ok m" "first_key_ok fd" "first_key_ok fu"
  shows "metrics_ok (metrics_query fd fu ip ty t m)"
proof -
  have "metrics_ok (touch_user fu i t (touch_device fd i ty t (count_one c (count_one Requests m))))" for i c
    using assms table_ok_put [of 10000 "\<lambda>_. True" "devices m" fd] table_ok_put [of 10000 "\<lambda>_. True" "users m" fu]
    by (simp add: metrics_ok_def touch_user_def touch_device_def Let_def)
  then show ?thesis unfolding metrics_query_def Let_def by (intro count_second_ok)
qed

lemma metrics_step_ok:
  assumes "metrics_ok m" "first_key_ok fd" "first_key_ok fu" "first_key_ok fn" "first_key_ok fs"
  shows "metrics_ok (metrics_step fd fu fn fs op m)"
proof (cases op)
  case (Nx ip t)
  let ?r = "make_room_for 5000 (fresh_queue (t - 60000)) fn ip (nx_window m)"
  have "length (unwrap_or [] (?r ip)) \<le> 20" using assms(1) make_room_sub [of 5000 _ fn ip "nx_window m" ip]
    by (cases "?r ip") (fastforce simp: metrics_ok_def table_ok_def)+
  with assms Nx push_stamp_length show ?thesis
    by (simp add: metrics_ok_def detect_nx_burst_def Let_def table_ok_put)
next
  case (Swarm d t)
  let ?r = "make_room_for 2000 (\<lambda>(q, _). fresh_queue (t - 10000) q) fs d (swarm_window m)"
  obtain q n where qn: "unwrap_or ([], 0) (?r d) = (q, n)" by fastforce
  have "length q \<le> 20" using assms(1) make_room_sub [of 2000 _ fs d "swarm_window m" d] qn
    by (cases "?r d") (fastforce simp: metrics_ok_def table_ok_def)+
  with assms Swarm qn push_stamp_length show ?thesis
    by (simp add: metrics_ok_def detect_swarm_def Let_def table_ok_put)
next
  case (Rps t)
  with assms(1) roll_forward_buckets [of m "0xFFFFFFFF" "t div 1000"] show ?thesis by (simp add: metrics_ok_def get_rps_def Let_def)
next
  case (Query ip ty t)
  with metrics_query_ok assms show ?thesis by simp
next
  case Reset
  then show ?thesis by (simp add: metrics_ok_def metrics_reset_def table_ok_def)
next
  case (Latency us)
  with assms(1) show ?thesis by simp
next
  case (Validation d)
  with assms(1) show ?thesis by simp
qed (use assms(1) in \<open>simp_all add: metrics_ok_def metrics_prune_def active_device_count_def active_ip_count_def Let_def table_ok_retain\<close>)

lemma metrics_run_ok:
  assumes "first_key_ok fd" "first_key_ok fu" "first_key_ok fn" "first_key_ok fs"
  shows "metrics_ok (metrics_run fd fu fn fs t0 ops)"
proof -
  have step: "metrics_ok m \<Longrightarrow> metrics_ok (fold (metrics_step fd fu fn fs) ops m)" for m
    by (induction ops arbitrary: m) (simp_all add: metrics_step_ok assms)
  show ?thesis unfolding metrics_run_def by (rule step) (simp add: metrics_ok_def metrics_new_def table_ok_def)
qed

section \<open>The ring counts the queries of the last minute\<close>

text \<open>
  The specification keeps every query's second; the ring keeps sixty counters. With a clock that
  does not run backwards the counter of each of the last sixty seconds is the number of queries
  of that second, up to the largest 32-bit number.
\<close>

definition ring_shows :: "nat list \<Rightarrow> metrics \<Rightarrow> bool" where
  "ring_shows secs m \<longleftrightarrow> length (rps_buckets m) = 60 \<and> (\<forall>s \<in> set secs. s \<le> rps_idx m) \<and>
     (\<forall>s \<le> rps_idx m. rps_idx m < s + 60 \<longrightarrow> rps_buckets m ! (s mod 60) = min (count_list secs s) 0xFFFFFFFF)"

lemma mod_window:
  assumes "s \<le> r" "r < s + 60" "s mod 60 = r mod 60"
  shows "s = (r :: nat)"
proof -
  from assms(1,3) have "60 dvd r - s" by (metis mod_eq_dvd_iff_nat)
  with assms(1,2) show ?thesis by (auto dest!: dvd_imp_le)
qed

lemma cleared_slot:
  assumes "s \<le> t" "t < s + 60" "i < t"
  shows "s mod 60 \<in> (\<lambda>k. (i + k) mod 60) ` set [1..<min (t - i) 60 + 1] \<longleftrightarrow> i < (s :: nat)"
proof
  assume "s mod 60 \<in> (\<lambda>k. (i + k) mod 60) ` set [1..<min (t - i) 60 + 1]"
  then obtain k where "k \<in> set [1..<min (t - i) 60 + 1]" "s mod 60 = (i + k) mod 60" by blast
  then have k: "1 \<le> k" "k \<le> t - i" "s mod 60 = (i + k) mod 60" unfolding set_upt atLeastLessThan_iff by linarith+
  show "i < s"
  proof (rule ccontr)
    assume "\<not> i < s"
    with mod_window [of s "i + k"] k assms show False by linarith
  qed
next
  assume "i < s"
  define k where "k = (s - i - 1) mod 60 + 1"
  have "(s - i - 1) mod 60 \<le> s - i - 1" "(s - i - 1) mod 60 < 60" by simp_all
  then have "1 \<le> k" "k \<le> t - i" "k \<le> 60" using \<open>i < s\<close> assms unfolding k_def by linarith+
  moreover have "(i + k) mod 60 = (i + 1 + (s - i - 1)) mod 60" unfolding k_def
    using mod_add_right_eq [of "i + 1" "s - i - 1" 60] by (simp only: add.assoc add.commute add.left_commute)
  then have "s mod 60 = (i + k) mod 60" using \<open>i < s\<close> by simp
  ultimately show "s mod 60 \<in> (\<lambda>k. (i + k) mod 60) ` set [1..<min (t - i) 60 + 1]" by (intro image_eqI [of _ _ k]) auto
qed

lemma count_list_none: "\<forall>x \<in> set xs. x \<le> i \<Longrightarrow> i < s \<Longrightarrow> count_list xs s = 0" for i s :: nat
  by (meson count_notin leD)

lemma roll_forward_shows:
  assumes "ring_shows secs m" "rps_idx m \<le> t"
  shows "ring_shows secs (roll_forward t m) \<and> rps_idx (roll_forward t m) = t"
proof (cases "rps_idx m < t")
  case True
  define xs where "xs = [1..<min (t - rps_idx m) 60 + 1]"
  have b: "rps_buckets (roll_forward t m) = fold (\<lambda>s b. b[(rps_idx m + s) mod 60 := 0]) xs (rps_buckets m)"
    "rps_idx (roll_forward t m) = t"
    using True by (simp_all only: roll_forward_def Let_def xs_def if_True) simp_all
  note cl = fold_clear [where f = "\<lambda>s. (rps_idx m + s) mod 60" and xs = xs]
  have "rps_buckets (roll_forward t m) ! (s mod 60) = min (count_list secs s) 0xFFFFFFFF" if "s \<le> t" "t < s + 60" for s
  proof -
    have "s mod 60 < length (rps_buckets m)" using assms(1) by (simp add: ring_shows_def)
    from cl(2) [OF this] cleared_slot [OF that True]
    have "rps_buckets (roll_forward t m) ! (s mod 60) = (if rps_idx m < s then 0 else rps_buckets m ! (s mod 60))"
      unfolding b(1) xs_def [symmetric] by simp
    with assms(1) count_list_none [of secs "rps_idx m" s] that True show ?thesis by (auto simp: ring_shows_def)
  qed
  moreover have "\<forall>s \<in> set secs. s \<le> t" using assms by (auto simp: ring_shows_def)
  ultimately show ?thesis using assms(1) b(2) by (simp add: ring_shows_def) (simp add: b(1) cl(1))
qed (use assms in \<open>simp add: roll_forward_def\<close>)

lemma count_second_shows:
  assumes "ring_shows secs m" "rps_idx m \<le> t"
  shows "ring_shows (secs @ [t]) (count_second t m) \<and> rps_idx (count_second t m) = t"
proof -
  let ?m = "roll_forward t m"
  from roll_forward_shows [OF assms] have r: "ring_shows secs ?m" "rps_idx ?m = t" by auto
  have "(rps_buckets ?m)[t mod 60 := min (rps_buckets ?m ! (t mod 60) + 1) 0xFFFFFFFF] ! (s mod 60) = min (count_list (secs @ [t]) s) 0xFFFFFFFF"
    if "s \<le> t" "t < s + 60" for s
    using that r mod_window [of s t] by (cases "s = t") (auto simp: ring_shows_def nth_list_update)
  with r show ?thesis by (auto simp: ring_shows_def count_second_def Let_def)
qed

lemma touch_ring [simp]: "ring_shows secs (touch_device fd ip ty t m) = ring_shows secs m" "rps_idx (touch_device fd ip ty t m) = rps_idx m"
  "ring_shows secs (touch_user fu ip t m) = ring_shows secs m" "rps_idx (touch_user fu ip t m) = rps_idx m"
  "ring_shows secs (count_by n c m) = ring_shows secs m"
  by (simp_all add: ring_shows_def touch_device_def touch_user_def Let_def)

definition queries_run ::
  "((string \<rightharpoonup> device_entry) \<Rightarrow> string) \<Rightarrow> ((string \<rightharpoonup> nat) \<Rightarrow> string) \<Rightarrow> nat \<Rightarrow> (string \<times> string \<times> nat) list \<Rightarrow> metrics" where
  "queries_run fd fu t0 qs = fold (\<lambda>(ip, ty, t). metrics_query fd fu ip ty t) qs (metrics_new t0)"

lemma queries_run_shows:
  assumes "sorted (map (\<lambda>(ip, ty, t). t) qs)" "\<forall>(ip, ty, t) \<in> set qs. t0 \<le> t div 1000"
  shows "ring_shows (map (\<lambda>(ip, ty, t). t div 1000) qs) (queries_run fd fu t0 qs) \<and>
    rps_idx (queries_run fd fu t0 qs) = (if qs = [] then t0 else (case last qs of (ip, ty, t) \<Rightarrow> t div 1000))"
  using assms
proof (induction qs rule: rev_induct)
  case Nil
  show ?case by (simp add: queries_run_def metrics_new_def ring_shows_def)
next
  case (snoc q qs)
  obtain ip ty t where q: "q = (ip, ty, t)" by (cases q)
  let ?m = "queries_run fd fu t0 qs"
  from snoc have IH: "ring_shows (map (\<lambda>(ip, ty, t). t div 1000) qs) ?m"
    "rps_idx ?m = (if qs = [] then t0 else (case last qs of (ip, ty, t) \<Rightarrow> t div 1000))" by (auto simp: sorted_append)
  have "rps_idx ?m \<le> t div 1000"
  proof (cases "qs = []")
    case False
    obtain i y u where l: "last qs = (i, y, u)" by (cases "last qs")
    then have "(i, y, u) \<in> set qs" using False last_in_set by metis
    then have "u \<le> t" using snoc.prems(1) q by (auto simp: sorted_append)
    with IH(2) False l show ?thesis by (simp add: div_le_mono)
  qed (use IH(2) snoc.prems(2) q in auto)
  with count_second_shows [where t = "t div 1000"] IH(1) show ?case
    by (simp add: q queries_run_def metrics_query_def Let_def)
qed

section \<open>The burst alarm counts the last minute\<close>

definition from_cutoff :: "nat \<Rightarrow> nat list \<Rightarrow> nat list" where
  "from_cutoff cutoff ts = filter (\<lambda>t. cutoff \<le> t) ts"

definition last_n :: "nat \<Rightarrow> 'a list \<Rightarrow> 'a list" where
  "last_n n xs = drop (length xs - n) xs"

lemma from_cutoff_id: "\<forall>t \<in> set ts. c \<le> t \<Longrightarrow> from_cutoff c ts = ts"
  by (simp add: from_cutoff_def)

lemma dropWhile_sorted: "sorted ts \<Longrightarrow> dropWhile (\<lambda>t. t < c) ts = from_cutoff c ts" for c :: nat
proof (induction ts)
  case (Cons a ts)
  show ?case
  proof (cases "a < c")
    case False
    with Cons.prems have "\<forall>t \<in> set (a # ts). c \<le> t" by auto
    with False from_cutoff_id show ?thesis by simp
  qed (use Cons in \<open>simp add: from_cutoff_def\<close>)
qed (simp add: from_cutoff_def)

lemma from_cutoff_drop: "sorted ts \<Longrightarrow> \<exists>k \<le> length ts. from_cutoff c ts = drop k ts"
  by (metis dropWhile_eq_drop dropWhile_sorted length_takeWhile_le)

lemma window_of_last_n:
  assumes "sorted ts"
  shows "from_cutoff c (last_n n ts) = last_n n (from_cutoff c ts)"
proof -
  have s: "sorted (last_n n ts)" using assms by (simp add: last_n_def)
  have app: "from_cutoff c ts = from_cutoff c (take (length ts - n) ts) @ from_cutoff c (last_n n ts)"
    unfolding from_cutoff_def last_n_def filter_append [symmetric] by simp
  show ?thesis
  proof (cases "from_cutoff c (take (length ts - n) ts) = []")
    case True
    have "length (from_cutoff c (last_n n ts)) \<le> n"
      using length_filter_le [of "\<lambda>t. c \<le> t" "last_n n ts"] by (simp add: from_cutoff_def last_n_def)
    with app True show ?thesis by (simp add: last_n_def)
  next
    case False
    then obtain x where x: "x \<in> set (take (length ts - n) ts)" "c \<le> x"
      by (auto simp: from_cutoff_def filter_empty_conv)
    have "\<forall>t \<in> set (last_n n ts). x \<le> t"
      using assms x(1) append_take_drop_id [of "length ts - n" ts] unfolding last_n_def by (metis sorted_append)
    with x(2) have id: "from_cutoff c (last_n n ts) = last_n n ts" by (intro from_cutoff_id) auto
    have "length ts > n" using False by (cases "n < length ts") (auto simp: from_cutoff_def)
    with app id show ?thesis by (simp add: last_n_def)
  qed
qed

lemma push_stamp_spec:
  assumes "sorted ts" "\<forall>u \<in> set ts. u \<le> t" "c \<le> c'"
    and q: "q = last_n 20 (from_cutoff c ts)"
  shows "push_stamp c' t q = last_n 20 (from_cutoff c' ts @ [t])"
proof -
  have srt: "sorted (from_cutoff c ts)" "sorted q" using assms(1) unfolding q from_cutoff_def last_n_def by (auto intro: sorted_wrt_drop sorted_wrt_filter)
  have "from_cutoff c' (from_cutoff c ts) = from_cutoff c' ts" using assms(3) by (auto simp: from_cutoff_def intro: filter_cong)
  then have d: "dropWhile (\<lambda>u. u < c') q = last_n 20 (from_cutoff c' ts)"
    using dropWhile_sorted [OF srt(2)] window_of_last_n [OF srt(1)] q by simp
  define w where "w = from_cutoff c' ts"
  show ?thesis unfolding push_stamp_def d w_def [symmetric]
    by (cases "20 \<le> length w") (simp_all add: last_n_def Let_def tl_drop drop_Suc [symmetric] Suc_diff_le [symmetric] eval_nat_numeral)
qed

text \<open>Two runs of the alarm: the queue of one client, and the alarm that the last answer gives.\<close>

definition nx_run :: "((string \<rightharpoonup> nat list) \<Rightarrow> string) \<Rightarrow> string \<Rightarrow> nat list \<Rightarrow> metrics \<Rightarrow> bool \<times> metrics" where
  "nx_run fn ip stamps m = fold (\<lambda>t (_, m). detect_nx_burst fn ip t m) stamps (False, m)"

lemma nx_run_queue:
  assumes "sorted stamps" "nx_window m = Map.empty" "stamps \<noteq> []"
  shows "dom (nx_window (snd (nx_run fn ip stamps m))) = {ip} \<and>
    (let w = from_cutoff (last stamps - 60000) stamps in
       nx_window (snd (nx_run fn ip stamps m)) ip = Some (last_n 20 w) \<and> fst (nx_run fn ip stamps m) = (10 \<le> length w))"
  using assms
proof (induction stamps rule: rev_induct)
  case (snoc t stamps)
  let ?m = "snd (nx_run fn ip stamps m)"
  have run: "nx_run fn ip (stamps @ [t]) m = detect_nx_burst fn ip t ?m" by (simp add: nx_run_def case_prod_beta)
  have small: "make_room_for 5000 P fn ip tbl = tbl" if "card (dom tbl) \<le> 1" for P and tbl :: "string \<rightharpoonup> nat list"
    using that by (simp add: make_room_for_def)
  have srt: "sorted stamps" "\<forall>u \<in> set stamps. u \<le> t" using snoc.prems(1) by (auto simp: sorted_append)
  define c where "c = t - 60000"
  have w: "from_cutoff c (stamps @ [t]) = from_cutoff c stamps @ [t]" by (simp add: from_cutoff_def c_def)
  have alarm: "10 \<le> length (last_n 20 xs) \<longleftrightarrow> 10 \<le> length xs" for xs :: "nat list" by (auto simp: last_n_def)
  show ?case
  proof (cases "stamps = []")
    case True
    then show ?thesis using snoc.prems(2) small [of "Map.empty"]
      by (simp add: nx_run_def detect_nx_burst_def Let_def push_stamp_def from_cutoff_def last_n_def) (simp add: dom_def)
  next
    case False
    then have q: "nx_window ?m ip = Some (last_n 20 (from_cutoff (last stamps - 60000) stamps))" "dom (nx_window ?m) = {ip}"
      using snoc.IH [OF srt(1) snoc.prems(2)] by (auto simp: Let_def)
    have "last stamps \<le> t" using srt(2) False by simp
    then have "push_stamp c t (last_n 20 (from_cutoff (last stamps - 60000) stamps)) = last_n 20 (from_cutoff c (stamps @ [t]))"
      unfolding w by (intro push_stamp_spec [where ts = stamps and c = "last stamps - 60000"]) (use srt c_def in auto)
    with q small [of "nx_window ?m"] alarm show ?thesis
      unfolding run by (simp add: detect_nx_burst_def Let_def c_def) (auto simp: dom_def split: if_splits)
  qed
qed simp

section \<open>Properties\<close>

definition some_key :: "(string \<rightharpoonup> 'v) \<Rightarrow> string" where
  "some_key tbl = (SOME k. k \<in> dom tbl)"

lemma some_key_ok: "first_key_ok some_key"
  unfolding first_key_ok_def some_key_def by (metis dom_eq_empty_conv ex_in_conv someI_ex)

text \<open>
  C33: Whatever happens to the metrics after the start, in whatever order (queries, answers that do
  not exist, swarm checks, latencies, validations, readings of the rate and of the active clients,
  pruning, reset), the tables stay within their bounds: at most 10000 devices and users, 5000
  clients and 2000 names watched for bursts, each with one to twenty time stamps, the client count
  of a name never above its number of stamps, and sixty buckets of at most 32 bits.
\<close>

theorem metrics_bounded:
  assumes "first_key_ok fd" "first_key_ok fu" "first_key_ok fn" "first_key_ok fs"
  shows "metrics_ok (metrics_run fd fu fn fs t0 ops)"
  by (rule metrics_run_ok [OF assms])

theorem metrics_bounded_witness:
  "metrics_ok (metrics_run some_key some_key some_key some_key 0
     [Query ''10.0.0.1'' ''dot'' 5000, Nx ''10.0.0.1'' 5001, Swarm ''a.com'' 5002, Rps 65000, Prune 400000])"
  by (intro metrics_bounded some_key_ok)

text \<open>
  C34: The ring of sixty counters is a faithful summary of the full history of queries: with a clock
  that does not run backwards, after any sequence of queries, the counter of every second among the
  sixty that end with the last query is the number of queries of that second (up to the largest
  32-bit number), however long the pauses between them; what happened before is forgotten.
\<close>

theorem ring_refines_history:
  assumes "sorted (map (\<lambda>(ip, ty, t). t) qs)" "\<forall>(ip, ty, t) \<in> set qs. t0 \<le> t div 1000" "qs \<noteq> []"
    and "now = (case last qs of (ip, ty, t) \<Rightarrow> t div 1000)" "s \<le> now" "now < s + 60"
  shows "rps_buckets (queries_run fd fu t0 qs) ! (s mod 60) =
    min (length (filter (\<lambda>(ip, ty, t). t div 1000 = s) qs)) 0xFFFFFFFF"
proof -
  have "count_list (map (\<lambda>(ip, ty, t). t div 1000) qs) s = length (filter (\<lambda>(ip, ty, t). t div 1000 = s) qs)"
    by (induction qs) auto
  with queries_run_shows [OF assms(1,2), of fd fu] assms(3-) show ?thesis by (simp add: ring_shows_def)
qed

theorem ring_refines_history_witness:
  "rps_buckets (queries_run some_key some_key 0
      [(''10.0.0.1'', ''dot'', 5000), (''10.0.0.2'', ''doh'', 5900), (''10.0.0.1'', ''dot'', 64999)]) ! 5 = 2 \<and>
   rps_buckets (queries_run some_key some_key 0
      [(''10.0.0.1'', ''dot'', 5000), (''10.0.0.2'', ''doh'', 5900), (''10.0.0.1'', ''dot'', 64999)]) ! 4 = 1"
  using ring_refines_history
      [of "[(''10.0.0.1'', ''dot'', 5000), (''10.0.0.2'', ''doh'', 5900), (''10.0.0.1'', ''dot'', 64999)]" 0 64 5 some_key some_key]
    ring_refines_history
      [of "[(''10.0.0.1'', ''dot'', 5000), (''10.0.0.2'', ''doh'', 5900), (''10.0.0.1'', ''dot'', 64999)]" 0 64 64 some_key some_key]
  by simp

text \<open>
  The alarm for bursts of names that do not exist is exact: when the answers for one client come
  at the given times (in milliseconds, not running backwards), the last one raises the alarm if and
  only if at least ten of them lie in the sixty seconds that end with it, although the queue keeps
  only the last twenty.
\<close>

theorem nx_burst_exact:
  assumes "sorted stamps" "stamps \<noteq> []"
  shows "fst (nx_run fn ip stamps (metrics_new t0)) \<longleftrightarrow>
    10 \<le> length (filter (\<lambda>t. last stamps - 60000 \<le> t) stamps)"
  using nx_run_queue [OF assms(1) _ assms(2)] by (simp add: metrics_new_def from_cutoff_def Let_def)

theorem nx_burst_exact_witness:
  "\<not> fst (nx_run some_key ''10.0.0.1'' [1000, 2000, 3000, 4000, 5000, 6000, 7000, 8000, 9000, 61001] (metrics_new 0))"
  using nx_burst_exact [of "[1000, 2000, 3000, 4000, 5000, 6000, 7000, 8000, 9000, 61001]" some_key "''10.0.0.1''" 0] by simp

end
