(* ===== verification/App_State.thy ===== *)
theory App_State
  imports Rule_Decision Cache Passive_Dns Ttl_Learner Wal Metrics
begin

text \<open>
  The state that all servers share (\<open>AppState\<close> in \<open>src/src/state.rs\<close>) as the record of the states of
  its components, with what it adds to them: the cache of finished replies of the instant blocker,
  the ring of recent queries, the heat map, the revoked tokens, the counting semaphore of the
  prefetcher and the tasks that were spawned and have not run. Everything the program reads from outside during a
  query is the record \<open>outside\<close>: the clocks, the elapsed times, the iteration orders of hash maps, the
  printer of floating point numbers, zstd, the cryptographic library, and the network (the upstream
  resolvers and the safe browsing service) as functions of what is asked.

  A query reads each clock once. The broadcast of log lines to listeners of the console is not
  modelled: it reads the state and changes none of it.
\<close>

section \<open>The world outside\<close>

record heat_record =
  hourly :: "nat list"
  heat_total :: u64
  heat_last_seen :: u64

record outside =
  now_ms :: nat
  now_ns :: instant
  took_us :: nat
  waited_ms :: nat
  block_order :: order
  iq_key :: iq_order
  seq_key :: "(string \<rightharpoonup> (string \<rightharpoonup> u32)) \<Rightarrow> string"
  children_order :: "(string \<rightharpoonup> u32) \<Rightarrow> (string \<times> u32) list"
  fp_key :: "(ip_addr \<rightharpoonup> client_fp) \<Rightarrow> ip_addr"
  nx_key :: "(ip_addr \<rightharpoonup> client_nx) \<Rightarrow> ip_addr"
  device_key :: "(string \<rightharpoonup> device_entry) \<Rightarrow> string"
  user_key :: "(string \<rightharpoonup> nat) \<Rightarrow> string"
  burst_key :: "(string \<rightharpoonup> nat list) \<Rightarrow> string"
  swarm_key :: "(string \<rightharpoonup> nat list \<times> nat) \<Rightarrow> string"
  heat_key :: "(string \<rightharpoonup> heat_record) \<Rightarrow> string"
  passive_key :: "(string \<rightharpoonup> domain_record) \<Rightarrow> string"
  ttl_key :: "ttl_learner \<Rightarrow> string"
  show_real :: "nat \<Rightarrow> real \<Rightarrow> string"
  zip :: "bytes \<Rightarrow> bytes option"
  unzip :: "bytes \<Rightarrow> nat \<Rightarrow> bytes option"
  library :: crypto
  anchors :: "trust_anchor list"
  resolve :: "bytes \<Rightarrow> (bytes \<times> string) option"
  resolve_race :: "bytes \<Rightarrow> (bytes \<times> string) option"
  resolve_root_hints :: "bytes \<Rightarrow> (bytes \<times> string) option"
  safe_browsing :: "string \<Rightarrow> string option"

section \<open>State\<close>

record query_entry =
  log_no :: u64
  log_time :: u64
  log_domain :: string
  log_qtype :: string
  log_client :: string
  log_proto :: string
  log_status :: string
  log_rcode :: u16
  log_lat :: u32
  log_reason :: string
  log_upstream :: string
  log_dnssec :: string
  log_dnssec_alg :: "string option"
  log_key_tag :: "u16 option"
  log_ad :: bool

datatype task = Prefetch string | Swarm_Check string ip_addr | Refresh string u16 bytes

record server =
  the_rules :: rules
  the_cache :: dns_cache
  fingerprint :: tracker
  the_metrics :: metrics
  the_wal :: wal_storage
  passive_dns :: passive_store
  learner :: ttl_learner
  instant_cache :: "string \<times> u16 \<rightharpoonup> bytes \<times> instant"
  recent_queries :: "query_entry list"
  next_log_id :: u64
  heatmap :: "string \<rightharpoonup> heat_record"
  canary_domain :: string
  canary_hits :: u64
  ttl_guard_enabled :: bool
  rfc1035_8bit_labels :: bool
  brain_prefetches :: u64
  fp_suppressions :: u64
  prefetch_permits :: nat
  tasks :: "task list"

section \<open>The replies of the instant blocker\<close>

text \<open>moka keeps an entry for sixty seconds.\<close>

definition get_blocked_response :: "string \<Rightarrow> u16 \<Rightarrow> u16 \<Rightarrow> instant \<Rightarrow> server \<Rightarrow> bytes option" where
  "get_blocked_response domain qt tx now s = (case instant_cache s (to_ascii_lowercase domain, qt) of
     Some (w, t) \<Rightarrow> if now - t < 60000000000
       then Some (if length w \<ge> 2 then (to_be16 tx) @ drop 2 w else w) else None
   | None \<Rightarrow> None)"

definition insert_blocked_response :: "string \<Rightarrow> u16 \<Rightarrow> bytes \<Rightarrow> instant \<Rightarrow> server \<Rightarrow> server" where
  "insert_blocked_response domain qt w now s =
     s\<lparr>instant_cache := (instant_cache s)((to_ascii_lowercase domain, qt) \<mapsto> (w, now))\<rparr>"

definition invalidate_all :: "server \<Rightarrow> server" where
  "invalidate_all s = s\<lparr>instant_cache := Map.empty\<rparr>"

section \<open>The log of queries\<close>

text \<open>\<open>normalize_provider_name\<close>; names of providers are ASCII.\<close>

definition has_word :: "string \<Rightarrow> string \<Rightarrow> bool" where
  "has_word w s \<longleftrightarrow> str_find_sub w s \<noteq> None"

definition alphanumeric :: "char \<Rightarrow> bool" where
  "alphanumeric c \<longleftrightarrow> (CHR ''0'' \<le> c \<and> c \<le> CHR ''9'') \<or> (CHR ''a'' \<le> c \<and> c \<le> CHR ''z'') \<or> (CHR ''A'' \<le> c \<and> c \<le> CHR ''Z'')"

definition first_word :: "string \<Rightarrow> string" where
  "first_word s = takeWhile alphanumeric (dropWhile (\<lambda>c. \<not> alphanumeric c) s)"

definition capital_char :: "char \<Rightarrow> char" where
  "capital_char c = (if CHR ''a'' \<le> c \<and> c \<le> CHR ''z'' then char_of (of_char c - 32 :: nat) else c)"

definition provider_table :: "(string list \<times> string) list" where
  "provider_table = [([''mullvad''], ''Mullvad''), ([''quad9''], ''Quad9''), ([''adguard''], ''AdGuard''),
     ([''cloudflare''], ''Cloudflare''), ([''digitale''], ''Digitale''), ([''nextdns''], ''NextDNS''),
     ([''control''], ''ControlD''), ([''sb''], ''DNSSB''), ([''google''], ''Google''), ([''opendns''], ''OpenDNS''),
     ([''rethink''], ''Rethink''), ([''aerocache'', ''cache''], ''AeroCache''), ([''root''], ''Root''),
     ([''filter'', ''block'', ''0.0.0.0''], ''Filter''), ([''rebind''], ''RebindGuard''), ([''ttl''], ''TTLGuard''),
     ([''dnssec''], ''DNSSEC''), ([''amardns''], ''AmarDNS'')]"

definition normalize_provider_name :: "string \<Rightarrow> string" where
  "normalize_provider_name name = (
     let lower = to_ascii_lowercase name in
     case find (\<lambda>(ws, p). \<exists>w \<in> set ws. has_word w lower) provider_table of
       Some (ws, p) \<Rightarrow> p
     | None \<Rightarrow>
         if lower = [] \<or> lower = ''none'' \<or> lower = ''-'' then ''None''
         else (case first_word name of [] \<Rightarrow> ''Upstream'' | c # cs \<Rightarrow> capital_char c # cs))"

definition log_query_dnssec ::
  "string \<Rightarrow> u16 \<Rightarrow> string \<Rightarrow> string \<Rightarrow> string \<Rightarrow> u16 \<Rightarrow> u32 \<Rightarrow> string \<Rightarrow> string \<Rightarrow> string \<Rightarrow> string option \<Rightarrow> u16 option \<Rightarrow> bool \<Rightarrow>
   nat \<Rightarrow> server \<Rightarrow> server" where
  "log_query_dnssec domain qt client proto status' rcode lat reason up dnssec alg tag ad now s = (
     let entry = \<lparr>log_no = next_log_id s, log_time = ms64 now, log_domain = domain, log_qtype = qtype_to_str qt,
           log_client = client, log_proto = proto, log_status = status', log_rcode = rcode, log_lat = lat,
           log_reason = reason, log_upstream = normalize_provider_name up, log_dnssec = dnssec, log_dnssec_alg = alg,
           log_key_tag = tag, log_ad = ad\<rparr>;
         guard = recent_queries s @ [entry]
     in s\<lparr>next_log_id := next_log_id s + 1,
          recent_queries := (if length guard > 150 then drop 75 guard else guard)\<rparr>)"

definition log_query ::
  "string \<Rightarrow> u16 \<Rightarrow> string \<Rightarrow> string \<Rightarrow> string \<Rightarrow> u16 \<Rightarrow> u32 \<Rightarrow> string \<Rightarrow> string \<Rightarrow> nat \<Rightarrow> server \<Rightarrow> server" where
  "log_query domain qt client proto status' rcode lat reason up now s =
     log_query_dnssec domain qt client proto status' rcode lat reason up ''INSECURE'' None None False now s"

section \<open>The heat map\<close>

definition on_rules :: "(rules \<Rightarrow> rules) \<Rightarrow> server \<Rightarrow> server" where
  "on_rules f s = s\<lparr>the_rules := f (the_rules s)\<rparr>"

definition reinforce_safe :: "iq_order \<Rightarrow> string \<Rightarrow> nat \<Rightarrow> brain \<Rightarrow> brain" where
  "reinforce_safe fk clean now b = (
     let b = train fk clean False 0 (ms64 now) b in
     if length (recent_decisions b) < 30 \<or> training_cycles b mod 10 = 0 then
       (let (feats, ent) = extract_features b clean;
            (score, _) = evaluate_internal b clean
        in record_decision clean ent score feats ''ALLOW_SAFE'' ''reputation_reinforced''
             ''Safe domain resolution rewarded; threat score reduced; 0ms local response'' (ms64 now) b)
     else b)"

definition record_heatmap :: "((string \<rightharpoonup> heat_record) \<Rightarrow> string) \<Rightarrow> iq_order \<Rightarrow> string \<Rightarrow> nat \<Rightarrow> server \<Rightarrow> server" where
  "record_heatmap first_key fk domain now s = (
     let clean = clean_of domain in
     if clean = [] then s
     else let s = on_rules (\<lambda>r. r\<lparr>the_brain := reinforce_safe fk clean now (the_brain r)\<rparr>) s;
              s = s\<lparr>fp_suppressions := fp_suppressions s + 1\<rparr>;
              now_sec = now div 1000;
              hour = (now_sec div 3600) mod 24;
              guard = heatmap s;
              guard = (if card (dom guard) \<ge> 1000 \<and> clean \<notin> dom guard then guard(first_key guard := None) else guard);
              entry = unwrap_or \<lparr>hourly = replicate 24 0, heat_total = 0, heat_last_seen = word_of_nat (now_sec * 1000)\<rparr> (guard clean)
          in s\<lparr>heatmap := guard(clean \<mapsto> entry\<lparr>hourly := (hourly entry)[hour := min (hourly entry ! hour + 1) 65535],
                 heat_total := sat_succ64 (heat_total entry), heat_last_seen := word_of_nat (now_sec * 1000)\<rparr>)\<rparr>)"

section \<open>Revoked tokens\<close>

record revocations =
  revoked_tokens :: "string set"
  revocation_epoch :: u64

definition revoke_token :: "(string set \<Rightarrow> string) \<Rightarrow> string \<Rightarrow> revocations \<Rightarrow> revocations" where
  "revoke_token first token r = (
     let guard = revoked_tokens r;
         guard = (if card guard \<ge> 10000 \<and> token \<notin> guard then guard - {first guard} else guard)
     in r\<lparr>revoked_tokens := insert token guard\<rparr>)"

definition revoke_all_tokens_before :: "u64 \<Rightarrow> revocations \<Rightarrow> revocations" where
  "revoke_all_tokens_before t r = r\<lparr>revocation_epoch := t\<rparr>"

definition is_token_revoked :: "string \<Rightarrow> u64 \<Rightarrow> revocations \<Rightarrow> bool" where
  "is_token_revoked token issued r \<longleftrightarrow> issued < revocation_epoch r \<or> token \<in> revoked_tokens r"

end
