(* ===== verification/Pipeline.thy ===== *)
theory Pipeline
  imports App_State
begin

text \<open>
  The path of a query (\<open>process_dns_wire_packet_full\<close> in \<open>src/src/server/doh.rs\<close>), which all
  transports share: admission, discovery and ANY answers, prefetching, the client tracker, the
  canary, the blocking decision, the instant blocker, the negative cache, safe browsing, the answer
  cache and the upstream resolvers with the checks of their answers. Each stage either answers or
  leaves the query to the next one; \<open>stages\<close> runs them in the order of the code. Spawned tasks go
  to \<open>tasks\<close> and run later, as the operation \<open>run_task\<close>.
\<close>

section \<open>Queries and replies\<close>

record ask =
  ask_wire :: bytes
  ask_ip :: ip_addr
  ask_log :: string
  ask_proto :: string
  ask_tx :: u16
  ask_flags :: u16
  ask_len :: nat
  ask_name :: string
  ask_type :: u16
  ask_class :: u16

record reply =
  reply_wire :: bytes
  cache_status :: string
  reply_dnssec :: string
  block_reason :: "string option"

definition plain_reply :: "bytes \<Rightarrow> string \<Rightarrow> string option \<Rightarrow> reply" where
  "plain_reply w st reason = \<lparr>reply_wire = w, cache_status = st, reply_dnssec = ''INSECURE'', block_reason = reason\<rparr>"

type_synonym stage = "server \<Rightarrow> (reply option \<times> server) rust"

fun stages :: "stage list \<Rightarrow> stage" where
  "stages [] s = ret (None, s)"
| "stages (f # fs) s = do {
     (r, s) \<leftarrow> f s;
     case r of Some a \<Rightarrow> ret (Some a, s) | None \<Rightarrow> stages fs s }"

section \<open>Effects\<close>

definition tally :: "counter \<Rightarrow> server \<Rightarrow> server" where
  "tally c s = s\<lparr>the_metrics := count_one c (the_metrics s)\<rparr>"

definition bump_threat :: "server \<Rightarrow> server" where
  "bump_threat = on_rules (\<lambda>r. r\<lparr>threat_blocks := threat_blocks r + 1\<rparr>)"

definition bump_dcc :: "server \<Rightarrow> server" where
  "bump_dcc = on_rules (\<lambda>r. r\<lparr>dcc_hits := dcc_hits r + 1\<rparr>)"

definition latency :: "outside \<Rightarrow> server \<Rightarrow> server" where
  "latency e s = s\<lparr>the_metrics := record_latency (took_us e) (the_metrics s)\<rparr>"

definition response_code :: "outside \<Rightarrow> ip_addr \<Rightarrow> u16 \<Rightarrow> server \<Rightarrow> string option \<times> server" where
  "response_code e ip rcode s = (case record_response (nx_key e) ip rcode (now_ns e) (fingerprint s) of
     (flag, tr) \<Rightarrow> (flag, s\<lparr>fingerprint := tr\<rparr>))"

definition flag_asker :: "outside \<Rightarrow> ask \<Rightarrow> string \<Rightarrow> server \<Rightarrow> server" where
  "flag_asker e a reason s = s\<lparr>fingerprint := flag_client (ask_ip a) reason (ask_name a) (now_ns e) (fingerprint s)\<rparr>"

definition wal_query :: "ask \<Rightarrow> u16 \<Rightarrow> u32 \<Rightarrow> string \<Rightarrow> server \<Rightarrow> server" where
  "wal_query a rcode lat tag s = s\<lparr>the_wal := append_query (ask_name a) (ask_type a) (ask_log a) rcode lat tag (the_wal s)\<rparr>"

definition wal_threat :: "ask \<Rightarrow> string \<Rightarrow> server \<Rightarrow> server" where
  "wal_threat a reason s = s\<lparr>the_wal := append_threat_event (ask_name a) reason (ask_log a) (the_wal s)\<rparr>"

definition action :: "outside \<Rightarrow> string \<Rightarrow> string \<Rightarrow> server \<Rightarrow> server" where
  "action e kind txt' = on_rules (log_action kind txt' (now_ms e))"

definition anomaly :: "outside \<Rightarrow> string \<Rightarrow> string \<Rightarrow> server \<Rightarrow> server" where
  "anomaly e kind txt' = on_rules (log_anomaly kind txt' (now_ms e))"

definition detected :: "outside \<Rightarrow> ask \<Rightarrow> string \<Rightarrow> server \<Rightarrow> server" where
  "detected e a reason = on_rules (record_detected_block (block_order e) (iq_key e) (ask_name a) reason (now_ms e))"

definition negative :: "outside \<Rightarrow> ask \<Rightarrow> u32 \<Rightarrow> server \<Rightarrow> server" where
  "negative e a ttl s = s\<lparr>the_cache := insert_negative (the_cache s) (ask_name a) (ask_type a) ttl (now_ns e)\<rparr>"

text \<open>The line of a query that was answered here.\<close>

definition log_local :: "outside \<Rightarrow> ask \<Rightarrow> string \<Rightarrow> u16 \<Rightarrow> u32 \<Rightarrow> string \<Rightarrow> string \<Rightarrow> server \<Rightarrow> server" where
  "log_local e a st rcode lat reason up =
     log_query_dnssec (ask_name a) (ask_type a) (ask_log a) (ask_proto a) st rcode lat reason up ''INSECURE'' None None False (now_ms e)"

definition waited :: "outside \<Rightarrow> u32" where
  "waited e = word_of_nat (waited_ms e)"

definition spawn :: "task \<Rightarrow> server \<Rightarrow> server" where
  "spawn t s = s\<lparr>tasks := tasks s @ [t]\<rparr>"

section \<open>Admission\<close>

definition proto_metric :: "string \<Rightarrow> string" where
  "proto_metric proto =
    (if has_word ''DoT'' proto \<or> eq_ignore_ascii_case proto ''dot'' then ''dot''
     else if has_word ''DoQ'' proto \<or> eq_ignore_ascii_case proto ''doq'' then ''doq''
     else if has_word ''DoH3'' proto \<or> eq_ignore_ascii_case proto ''doh3'' then ''doh3''
     else if has_word ''Plain'' proto \<or> eq_ignore_ascii_case proto ''plain'' then ''plain''
     else ''doh'')"

definition set_rcode :: "bytes \<Rightarrow> u8 \<Rightarrow> bytes rust" where
  "set_rcode w rcode = do { b \<leftarrow> rd w 3; wr w 3 [(b AND 0xF0) OR rcode] }"

text \<open>A refusal that only the latency shows.\<close>

definition turn_away :: "outside \<Rightarrow> bytes \<Rightarrow> string \<Rightarrow> server \<Rightarrow> (reply + ask) \<times> server" where
  "turn_away e w st s = (Inl (plain_reply w st None), latency e s)"

definition admit :: "outside \<Rightarrow> bytes \<Rightarrow> ip_addr \<Rightarrow> string option \<Rightarrow> string \<Rightarrow> server \<Rightarrow> ((reply + ask) \<times> server) rust" where
  "admit e w ip dev_tag proto s = do {
     let log_id = unwrap_or (show_ip ip) dev_tag;
     let s = s\<lparr>the_metrics := metrics_query (device_key e) (user_key e) log_id (proto_metric proto) (now_ms e) (the_metrics s)\<rparr>;
     p \<leftarrow> parse_dns_query_opts w (rfc1035_8bit_labels s);
     case p of
       None \<Rightarrow> do { fail \<leftarrow> build_servfail_response w; ret (turn_away e fail ''MALFORMED'' s) }
     | Some parsed \<Rightarrow>
         if flags parsed AND 0x8000 \<noteq> 0 then ret (turn_away e [] ''UNSOLICITED_RESPONSE'' s)
         else if drop_bit 11 (flags parsed) AND 0x0F \<noteq> 0 then do {
           notimp \<leftarrow> build_servfail_response w;
           notimp \<leftarrow> set_rcode notimp 0x04;
           ret (turn_away e notimp ''NOT_IMPLEMENTED'' s) }
         else (case question parsed of
           None \<Rightarrow> do { fail \<leftarrow> build_servfail_response w; ret (turn_away e fail ''NO_QUESTION'' s) }
         | Some q \<Rightarrow>
             if qtype q = 252 \<or> qtype q = 251 then do {
               refused \<leftarrow> build_servfail_response w;
               refused \<leftarrow> set_rcode refused 0x05;
               ret (turn_away e refused ''ZONE_TRANSFER_REFUSED'' s) }
             else ret (Inr \<lparr>ask_wire = w, ask_ip = ip, ask_log = log_id, ask_proto = proto, ask_tx = tx_id parsed,
               ask_flags = flags parsed, ask_len = question_bytes_len parsed, ask_name = qname q, ask_type = qtype q,
               ask_class = qclass q\<rparr>, s)) }"

section \<open>Answers of the server itself\<close>

definition discovery :: "outside \<Rightarrow> ask \<Rightarrow> stage" where
  "discovery e a s = do {
     ddr \<leftarrow> build_ddr_response (ask_wire a);
     case ddr of
       Some w \<Rightarrow> (
         let s = wal_query a 0 0 ''DDR_SVCB'' s;
             s = log_query_dnssec (ask_name a) (ask_type a) (ask_log a) (ask_proto a) ''RESOLVED'' 0 0 ''ddr_discovery''
               ''AmarDNS'' ''SECURE'' (Some ''SVCB (RFC 9462)'') None True (now_ms e) s;
             s = latency e s
         in ret (Some \<lparr>reply_wire = w, cache_status = ''DDR'', reply_dnssec = ''SECURE'', block_reason = None\<rparr>, s))
     | None \<Rightarrow>
         if ask_type a = 255 then do {
           any \<leftarrow> build_any_minimal_response (ask_wire a);
           case any of
             Some w \<Rightarrow> ret (Some (plain_reply w ''ANY_HINFO'' None), latency e (wal_query a 0 0 ''ANY_HINFO'' s))
           | None \<Rightarrow> ret (None, s) }
         else ret (None, s) }"

section \<open>What a query teaches\<close>

definition prefetch :: "outside \<Rightarrow> string \<Rightarrow> server \<Rightarrow> server rust" where
  "prefetch e cand s = do {
     blocked \<leftarrow> is_domain_blocked (block_order e) (the_rules s) cand;
     ret (if \<not> blocked \<and> prefetch_permits s > 0
          then spawn (Prefetch cand) (s\<lparr>prefetch_permits := prefetch_permits s - 1\<rparr>) else s) }"

fun prefetch_all :: "outside \<Rightarrow> string list \<Rightarrow> server \<Rightarrow> server rust" where
  "prefetch_all e [] s = ret s"
| "prefetch_all e (cand # cands) s = do { s \<leftarrow> prefetch e cand s; prefetch_all e cands s }"

definition track_client :: "outside \<Rightarrow> ask \<Rightarrow> server \<Rightarrow> server" where
  "track_client e a s = (case record_query (fp_key e) (ask_ip a) (ask_name a) (now_ns e) (fingerprint s) of
     (None, tr) \<Rightarrow> s\<lparr>fingerprint := tr\<rparr>
   | (Some flag, tr) \<Rightarrow> (
       let s = s\<lparr>fingerprint := tr\<rparr>;
           s = (if flag = ''QUERY_STRESS'' \<or> flag = ''DNS_SCAN'' then tally Burst_events s else s);
           s = action e ''rogue_client_detected'' (show_ip (ask_ip a) @ '': '' @ flag) s
       in anomaly e ''rogue_client_scanner'' (show_ip (ask_ip a) @ '': '' @ flag) s))"

definition observe_query :: "outside \<Rightarrow> ask \<Rightarrow> stage" where
  "observe_query e a s = do {
     let s = on_rules (\<lambda>r. r\<lparr>the_brain := record_sequence (seq_key e) (ask_name a) (now_ns e) (the_brain r)\<rparr>) s;
     s \<leftarrow> prefetch_all e (get_prefetch_candidates (children_order e) (ask_name a) (the_brain (the_rules s))) s;
     let s = track_client e a s;
     ret (None, record_heatmap (heat_key e) (iq_key e) (ask_name a) (now_ms e) s) }"

section \<open>Blocking\<close>

definition canary :: "outside \<Rightarrow> ask \<Rightarrow> stage" where
  "canary e a s =
    (if clean_of (ask_name a) = canary_domain s then do {
       let s = s\<lparr>canary_hits := canary_hits s + 1\<rparr>;
       let s = action e ''canary_query'' (''Canary domain queried by '' @ show_ip (ask_ip a)) s;
       nxdomain \<leftarrow> build_blocked_response (ask_wire a) True;
       nxdomain \<leftarrow> append_ede_to_response nxdomain 15 ''CANARY'';
       ret (Some (plain_reply nxdomain ''CANARY'' None), latency e s) }
     else ret (None, s))"

definition count_reason :: "string \<Rightarrow> rules \<Rightarrow> rules" where
  "count_reason reason r = (
     let r = (if reason \<in> {''neural_brain_block'', ''AI_BRAIN'', ''dga_threat'', ''DGA'', ''lookalike_threat'', ''TYPOSQUAT'',
                ''ai_block'', ''c2_miner_threat''} then r\<lparr>auto_blocks := auto_blocks r + 1\<rparr> else r);
         r = (if reason = ''lookalike_threat'' \<or> reason = ''TYPOSQUAT'' then r\<lparr>alike_blocks := alike_blocks r + 1\<rparr> else r)
     in if reason = ''c2_miner_threat'' \<or> reason = ''DGA'' \<or> reason = ''dga_threat'' then r\<lparr>dcc_hits := dcc_hits r + 1\<rparr> else r)"

text \<open>The sinkhole answer with the reason, for a client that speaks EDNS or for all.\<close>

definition sinkhole_if_edns :: "ask \<Rightarrow> string \<Rightarrow> bytes rust" where
  "sinkhole_if_edns a reason = do {
     w \<leftarrow> build_sinkhole_response (ask_wire a);
     append_ede_if_edns w (ask_wire a) 15 reason }"

definition sinkhole_ede :: "ask \<Rightarrow> string \<Rightarrow> bytes rust" where
  "sinkhole_ede a reason = do {
     w \<leftarrow> build_sinkhole_response (ask_wire a);
     append_ede_to_response w 15 reason }"

definition policy :: "outside \<Rightarrow> ask \<Rightarrow> stage" where
  "policy e a s = do {
     ((is_blocked, is_nxdomain, reason), r) \<leftarrow>
       check_domain (block_order e) (iq_key e) (show_real e) (ask_name a) (now_ms e) (the_rules s);
     let s = s\<lparr>the_rules := r\<rparr>;
     if is_blocked then do {
       let s = detected e a reason s;
       let s = snd (response_code e (ask_ip a) 3 s);
       let s = flag_asker e a reason s;
       let s = tally Rep_blocks s;
       let s = on_rules (count_reason reason) s;
       let s = wal_query a 3 0 ''BLOCKED'' (wal_threat a reason s);
       let s = log_local e a ''BLOCKED'' 3 0 reason ''Filter'' s;
       let s = negative e a 60 s;
       w \<leftarrow> sinkhole_if_edns a reason;
       ret (Some (plain_reply w ''BLOCKED'' (Some reason)), latency e s) }
     else ret (None, s) }"

definition watch_swarm :: "ask \<Rightarrow> stage" where
  "watch_swarm a s = ret (None, spawn (Swarm_Check (ask_name a) (ask_ip a)) s)"

text \<open>The question of the query as it was sent, identifier and case included, goes over the answer's.\<close>

definition echo_question :: "ask \<Rightarrow> bytes \<Rightarrow> bytes rust" where
  "echo_question a w =
    (if ask_len a > 0 \<and> length w \<ge> 12 + ask_len a \<and> length (ask_wire a) \<ge> 12 + ask_len a then do {
       q \<leftarrow> slice (ask_wire a) 12 (12 + ask_len a);
       wr w 12 q }
     else ret w)"

definition address_reply :: "ask \<Rightarrow> bytes \<Rightarrow> bytes rust" where
  "address_reply a w = do {
     w \<leftarrow> (if length w \<ge> 2 then wr w 0 (to_be16 (ask_tx a)) else ret w);
     echo_question a w }"

definition instant_blocker :: "outside \<Rightarrow> ask \<Rightarrow> stage" where
  "instant_blocker e a s =
    (if \<not> is_bypassed (the_rules s) (ask_name a) \<and> is_instant_blocked (the_rules s) (ask_name a) then do {
       let s = bump_threat s;
       let s = snd (response_code e (ask_ip a) 3 s);
       let s = action e ''instant_block'' (ask_name a) s;
       let s = wal_query a 3 0 ''INSTANT_BLOCK'' (wal_threat a ''INSTANT_BLOCK'' s);
       let s = log_local e a ''INSTANT_BLOCK'' 3 0 ''INSTANT_BLOCK'' ''InstantBlocker'' s;
       (w, s) \<leftarrow> (case get_blocked_response (ask_name a) (ask_type a) (ask_tx a) (now_ns e) s of
           Some cached \<Rightarrow> do { w \<leftarrow> echo_question a cached; ret (w, s) }
         | None \<Rightarrow> do {
             fresh \<leftarrow> sinkhole_if_edns a ''INSTANT_BLOCK'';
             ret (fresh, insert_blocked_response (ask_name a) (ask_type a) fresh (now_ns e) s) });
       ret (Some (plain_reply w ''BLOCKED'' (Some ''INSTANT_BLOCK'')), latency e s) }
     else ret (None, s))"

definition negative_hit :: "outside \<Rightarrow> ask \<Rightarrow> stage" where
  "negative_hit e a s =
    (if is_bypassed (the_rules s) (ask_name a) then ret (None, s)
     else do {
       exempt \<leftarrow> is_exempt_domain (the_rules s) (ask_name a);
       if exempt then ret (None, s)
       else (case get_negative (the_cache s) (ask_name a) (ask_type a) (now_ns e) of
         (False, c) \<Rightarrow> ret (None, s\<lparr>the_cache := c\<rparr>)
       | (True, c) \<Rightarrow> do {
           let s = bump_threat (s\<lparr>the_cache := c\<rparr>);
           let (feats, ent) = extract_features (the_brain (the_rules s)) (ask_name a);
           let s = on_rules (\<lambda>r. r\<lparr>the_brain := record_decision (ask_name a) ent (96 / 100) feats ''AEROCACHE_DROP'' ''THREAT_CACHE''
             ''Preemptively dropped in 0ms from RAM; saved upstream DNS roundtrip and CPU cycles'' (ms64 (now_ms e)) (the_brain r)\<rparr>) s;
           w \<leftarrow> sinkhole_if_edns a ''THREAT_CACHE'';
           let s = wal_query a 3 0 ''NEG_HIT'' s;
           let s = log_local e a ''NEG_HIT'' 3 0 ''THREAT_CACHE'' ''AeroCache'' s;
           ret (Some (plain_reply w ''NEG_HIT'' (Some ''THREAT_CACHE'')), latency e s) }) })"

definition browse_check :: "outside \<Rightarrow> ask \<Rightarrow> stage" where
  "browse_check e a s =
    (if \<not> blocking_enabled (the_rules s) \<or> is_bypassed (the_rules s) (ask_name a) then ret (None, s)
     else do {
       exempt \<leftarrow> is_exempt_domain (the_rules s) (ask_name a);
       if exempt then ret (None, s)
       else (case safe_browsing e (ask_name a) of
         None \<Rightarrow> ret (None, s)
       | Some threat_type \<Rightarrow> do {
           let s = bump_dcc (tally Gsb_blocks (bump_threat s));
           let s = snd (response_code e (ask_ip a) 3 s);
           let s = flag_asker e a ''GSB_THREAT'' s;
           let s = action e ''gsb_block'' (ask_name a @ '' ['' @ threat_type @ '']'') s;
           let s = detected e a ''GSB'' s;
           let s = wal_query a 3 0 ''GSB_BLOCK'' (wal_threat a ''GSB'' s);
           let s = log_local e a ''GSB_BLOCK'' 3 0 ''GSB'' ''Google'' s;
           let s = negative e a 120 s;
           w \<leftarrow> sinkhole_ede a ''GSB'';
           ret (Some (plain_reply w ''BLOCKED'' (Some ''GSB'')), latency e s) }) })"

section \<open>The rebind guard\<close>

definition guard_on :: "ask \<Rightarrow> server \<Rightarrow> bool" where
  "guard_on a s \<longleftrightarrow> blocking_enabled (the_rules s) \<and> \<not> is_bypassed (the_rules s) (ask_name a) \<and>
     \<not> is_rebind_exempt_domain (ask_name a)"

definition refused_address :: "ask \<Rightarrow> bytes \<Rightarrow> server \<Rightarrow> ip_addr option rust" where
  "refused_address a w s = (if guard_on a s then extract_rebind_ip w else ret None)"

section \<open>Answers from the cache\<close>

definition status_text :: "dnssec_status \<Rightarrow> string" where
  "status_text st = (case st of Secure \<Rightarrow> ''SECURE'' | Insecure \<Rightarrow> ''INSECURE'' | Bogus \<Rightarrow> ''BOGUS'' | Indeterminate \<Rightarrow> ''INDETERMINATE'')"

definition validate :: "outside \<Rightarrow> bytes \<Rightarrow> validation_details rust" where
  "validate e w = validate_dnssec (library e) (anchors e) w (now_ms e div 1000)"

definition count_validation :: "validation_details \<Rightarrow> server \<Rightarrow> server" where
  "count_validation d s = s\<lparr>the_metrics := record_dnssec d (the_metrics s)\<rparr>"

definition log_validated :: "outside \<Rightarrow> ask \<Rightarrow> string \<Rightarrow> u16 \<Rightarrow> u32 \<Rightarrow> string \<Rightarrow> string \<Rightarrow> validation_details \<Rightarrow> server \<Rightarrow> server" where
  "log_validated e a st rcode lat reason up d =
     log_query_dnssec (ask_name a) (ask_type a) (ask_log a) (ask_proto a) st rcode lat reason up (status_text (status d))
       (det_algorithm d) (det_key_tag d) (authenticated_data d) (now_ms e)"

definition intercept :: "outside \<Rightarrow> ask \<Rightarrow> string \<Rightarrow> ip_addr \<Rightarrow> stage" where
  "intercept e a source ip s = do {
     let s = s\<lparr>the_cache := invalidate (the_cache s) (ask_name a) (ask_type a)\<rparr>;
     let s = tally Rebind_blocks (negative e a 120 s);
     let s = anomaly e ''dns_rebind_cache_intercept'' (''Intercepted private IP from '' @ source @ '': '' @ ask_name a @ '' -> '' @ show_ip ip) s;
     w \<leftarrow> sinkhole_ede a ''REBIND'';
     ret (Some (plain_reply w ''BLOCKED'' (Some ''REBIND'')), s) }"

text \<open>The hit, fresh or stale; a stale one asks for a refresh.\<close>

definition serve_cached :: "outside \<Rightarrow> ask \<Rightarrow> bool \<Rightarrow> bytes \<Rightarrow> stage" where
  "serve_cached e a stale cached s = do {
     let s = s\<lparr>learner := learner_record_hit (ask_name a) (learner s)\<rparr>;
     let s = tally Cache_hits s;
     let s = (if stale then tally Swr_serves s else s);
     let s = snd (response_code e (ask_ip a) 0 s);
     let st = (if stale then ''STALE_HIT'' else ''HIT'');
     let s = wal_query a 0 0 st s;
     d \<leftarrow> validate e cached;
     let s = count_validation d s;
     let s = log_validated e a st 0 0 (if stale then ''swr_serve_stale'' else ''none'') ''AeroCache'' d s;
     let s = (if stale then spawn (Refresh (ask_name a) (ask_type a) (ask_wire a)) s else s);
     let s = latency e s;
     w \<leftarrow> address_reply a cached;
     ret (Some \<lparr>reply_wire = w, cache_status = st, reply_dnssec = status_text (status d), block_reason = None\<rparr>, s) }"

definition cache_lookup :: "outside \<Rightarrow> ask \<Rightarrow> stage" where
  "cache_lookup e a s = do {
     (found, c) \<leftarrow> get_with_swr (unzip e) (the_cache s) (ask_name a) (ask_type a) (ask_tx a) (now_ns e);
     let s = s\<lparr>the_cache := c\<rparr>;
     case found of
       Fresh cached \<Rightarrow> do {
         bad \<leftarrow> refused_address a cached s;
         case bad of Some ip \<Rightarrow> intercept e a ''AeroCache'' ip s | None \<Rightarrow> serve_cached e a False cached s }
     | Stale cached \<Rightarrow> do {
         bad \<leftarrow> refused_address a cached s;
         case bad of Some ip \<Rightarrow> intercept e a ''AeroCache (Stale)'' ip s | None \<Rightarrow> serve_cached e a True cached s }
     | Miss \<Rightarrow> ret (None, tally Cache_misses s) }"

section \<open>Answers from upstream\<close>

definition resolve_chain :: "outside \<Rightarrow> bytes \<Rightarrow> server \<Rightarrow> (bytes \<times> string) option \<times> server" where
  "resolve_chain e w s = (case resolve e w of
     Some r \<Rightarrow> (Some r, s)
   | None \<Rightarrow> (case resolve_race e w of
       Some r \<Rightarrow> (Some r, tally Race_wins s)
     | None \<Rightarrow> (resolve_root_hints e w, s)))"

text \<open>The question of the answer, where it is another one.\<close>

definition other_question :: "ask \<Rightarrow> bytes \<Rightarrow> dns_question option rust" where
  "other_question a w = do {
     p \<leftarrow> parse_dns_query w;
     ret (case p of None \<Rightarrow> None
       | Some parsed \<Rightarrow> (case question parsed of None \<Rightarrow> None
         | Some q \<Rightarrow> if qname q \<noteq> ask_name a \<or> qtype q \<noteq> ask_type a \<or> qclass q \<noteq> ask_class a then Some q else None)) }"

definition reject_spoof :: "outside \<Rightarrow> ask \<Rightarrow> string \<Rightarrow> dns_question \<Rightarrow> stage" where
  "reject_spoof e a up q s = do {
     let s = anomaly e ''upstream_spoof_attempt'' (''Mismatched upstream response from '' @ up @ '': expected '' @ ask_name a @ '':''
       @ decimal (unat (ask_type a)) @ '', got '' @ qname q @ '':'' @ decimal (unat (qtype q))) s;
     fail \<leftarrow> build_servfail_response (ask_wire a);
     fail \<leftarrow> append_ede_to_response fail 6 ''Upstream question mismatch'';
     ret (Some (plain_reply fail ''SPOOF_REJECTED'' (Some ''upstream_spoof'')), latency e s) }"

definition unreachable :: "outside \<Rightarrow> ask \<Rightarrow> stage" where
  "unreachable e a s = do {
     let s = snd (response_code e (ask_ip a) 2 s);
     let s = wal_query a 2 0 ''FAIL'' s;
     let s = log_local e a ''FAIL'' 2 0 ''servfail'' ''none'' s;
     fail \<leftarrow> build_servfail_response (ask_wire a);
     fail \<leftarrow> append_ede_to_response fail 22 ''All upstream resolvers unreachable'';
     ret (Some (plain_reply fail ''FAIL'' None), latency e s) }"

definition answer_rcode :: "bytes \<Rightarrow> u16" where
  "answer_rcode w = (if length w \<ge> 4 then ucast (w ! 3 AND 0x0F) else 0)"

text \<open>The debug form of a list.\<close>

definition show_list :: "(string \<Rightarrow> string) \<Rightarrow> string list \<Rightarrow> string" where
  "show_list f xs = ''['' @ (case map f xs of [] \<Rightarrow> [] | y # ys \<Rightarrow> y @ concat (map (\<lambda>z. '', '' @ z) ys)) @ '']''"

definition quoted :: "string \<Rightarrow> string" where
  "quoted s = CHR 0x22 # s @ [CHR 0x22]"

definition note_addresses :: "outside \<Rightarrow> ask \<Rightarrow> ip_addr list \<Rightarrow> server \<Rightarrow> server rust" where
  "note_addresses e a ips s =
    (if ips = [] then ret s
     else (case record_ips (passive_key e) (word_of_nat (now_ms e div 1000)) (ask_name a) ips (passive_dns s) of
       (None, st) \<Rightarrow> ret (s\<lparr>passive_dns := st\<rparr>)
     | (Some old, st) \<Rightarrow> do {
         let s = tally Answer_drifts (s\<lparr>passive_dns := st\<rparr>);
         exempt \<leftarrow> is_exempt_domain (the_rules s) (ask_name a);
         ret (if exempt then s
              else anomaly e ''passive_dns_drift'' (''IP change detected for '' @ ask_name a @ '': '' @ show_list quoted old
                @ '' -> '' @ show_list id (map show_ip ips)) s) }))"

definition note_burst :: "outside \<Rightarrow> ask \<Rightarrow> u16 \<Rightarrow> server \<Rightarrow> server" where
  "note_burst e a rcode s =
    (if rcode = 3 then
       (case detect_nx_burst (burst_key e) (show_ip (ask_ip a)) (now_ms e) (the_metrics s) of
         (alarm, m) \<Rightarrow>
           let s = s\<lparr>the_metrics := m\<rparr> in
           if alarm then anomaly e ''nx_alarm'' (''NX domain burst detected from client '' @ show_ip (ask_ip a)
             @ map char_of [0x20, 0xE2, 0x80, 0x94 :: nat] @ '' possible DGA/C2 scanner'') (tally Nx_alarms s) else s)
     else s)"

definition note_answer :: "outside \<Rightarrow> ask \<Rightarrow> bytes \<Rightarrow> server \<Rightarrow> server rust" where
  "note_answer e a w s = do {
     let rcode = answer_rcode w;
     let (flag, s) = response_code e (ask_ip a) rcode s;
     let s = (case flag of None \<Rightarrow> s
       | Some f \<Rightarrow> action e ''rogue_client_detected'' (show_ip (ask_ip a) @ '': '' @ f)
           (if f = ''NX_SCANNER'' then tally Nx_alarms s else s));
     soa \<leftarrow> (if rcode = 3 then extract_soa_minimum_ttl w else ret None);
     let s = (if rcode = 3 then negative e a (unwrap_or 60 soa) s else s);
     ips \<leftarrow> extract_a_records w;
     s \<leftarrow> note_addresses e a ips s;
     ret (note_burst e a rcode s) }"

section \<open>The lifetime guard\<close>

definition guard_lifetimes :: "ask \<Rightarrow> bytes \<Rightarrow> server \<Rightarrow> bool rust" where
  "guard_lifetimes a w s =
    (if ttl_guard_enabled s \<and> blocking_enabled (the_rules s) \<and> \<not> is_bypassed (the_rules s) (ask_name a) then do {
       exempt \<leftarrow> is_exempt_domain (the_rules s) (ask_name a);
       ret (\<not> exempt \<and> answer_rcode w = 0) }
     else ret False)"

definition fast_flux :: "ask \<Rightarrow> u32 \<Rightarrow> server \<Rightarrow> bool" where
  "fast_flux a min_ttl s = (
     let (ai_score, _) = evaluate_internal (the_brain (the_rules s)) (ask_name a);
         learned_ttl = smart_ttl (learner s) (ask_name a) 300
     in min_ttl \<le> 5 \<and> (is_dga_threat (ask_name a) \<or> ai_score > 50 / 100 \<or> learned_ttl \<ge> 60 \<and> ai_score > 35 / 100))"

definition block_flux :: "outside \<Rightarrow> ask \<Rightarrow> u32 \<Rightarrow> stage" where
  "block_flux e a min_ttl s = do {
     let (ai_score, _) = evaluate_internal (the_brain (the_rules s)) (ask_name a);
     let s = bump_dcc (bump_threat (tally Ttl_guard_blocks s));
     let s = action e ''ttl_guard_block'' (ask_name a @ '' TTL='' @ decimal (unat min_ttl) @ ''s (fast-flux/DGA confirmed, AI=''
       @ show_real e 2 ai_score @ '')'') s;
     let s = anomaly e ''ttl_manipulation_guard'' (''Fast-flux botnet blocked: low TTL '' @ decimal (unat min_ttl)
       @ ''s + DGA/AI pattern (AI='' @ show_real e 2 ai_score @ '') on '' @ ask_name a) s;
     let s = wal_query a 3 (waited e) ''TTL_GUARD_BLOCK'' s;
     let s = log_local e a ''TTL_GUARD_BLOCK'' 3 (waited e) ''TTL_GUARD'' ''TTLGuard'' s;
     let s = negative e a 30 s;
     w \<leftarrow> sinkhole_ede a ''TTL_GUARD'';
     ret (Some (plain_reply w ''BLOCKED'' (Some ''TTL_GUARD'')), latency e s) }"

definition lifetime_guard :: "outside \<Rightarrow> ask \<Rightarrow> bytes \<Rightarrow> server \<Rightarrow> (reply option \<times> bytes \<times> server) rust" where
  "lifetime_guard e a w s = do {
     on \<leftarrow> guard_lifetimes a w s;
     m \<leftarrow> (if on then extract_min_ttl w else ret None);
     case m of
       None \<Rightarrow> ret (None, w, s)
     | Some min_ttl \<Rightarrow>
         if fast_flux a min_ttl s then do { (r, s) \<leftarrow> block_flux e a min_ttl s; ret (r, w, s) }
         else if min_ttl > 86400 then do { w \<leftarrow> cap_response_ttl w 86400; ret (None, w, s) }
         else ret (None, w, s) }"

section \<open>Rebinding and validation\<close>

definition block_rebind :: "outside \<Rightarrow> ask \<Rightarrow> ip_addr \<Rightarrow> stage" where
  "block_rebind e a ip s = do {
     let s = bump_threat (tally Rebind_blocks s);
     let s = snd (response_code e (ask_ip a) 3 s);
     let s = flag_asker e a ''REBIND_ATTACK'' s;
     let s = action e ''rebind_block'' (ask_name a @ '' -> '' @ show_ip ip) s;
     let s = anomaly e ''dns_rebind_attack'' (''Private IP leak blocked: '' @ ask_name a @ '' -> '' @ show_ip ip) s;
     let s = wal_query a 3 (waited e) ''REBIND_BLOCK'' (wal_threat a ''REBIND'' s);
     let s = log_local e a ''REBIND_BLOCK'' 3 (waited e) ''REBIND'' ''RebindGuard'' s;
     let s = negative e a 120 s;
     w \<leftarrow> sinkhole_ede a ''REBIND'';
     ret (Some (plain_reply w ''BLOCKED'' (Some ''REBIND'')), latency e s) }"

definition checking_disabled :: "ask \<Rightarrow> bool" where
  "checking_disabled a \<longleftrightarrow> ask_flags a AND 0x0010 \<noteq> 0"

definition set_ad :: "validation_details \<Rightarrow> bytes \<Rightarrow> bytes rust" where
  "set_ad d w = (if authenticated_data d \<and> length w \<ge> 4 then do { b \<leftarrow> rd w 3; wr w 3 [b OR 0x20] } else ret w)"

definition refuse_bogus :: "outside \<Rightarrow> ask \<Rightarrow> validation_details \<Rightarrow> stage" where
  "refuse_bogus e a d s = do {
     let s = wal_query a 2 (waited e) ''DNSSEC_BOGUS'' s;
     let s = log_query_dnssec (ask_name a) (ask_type a) (ask_log a) (ask_proto a) ''SERVFAIL'' 2 (waited e) ''dnssec_bogus''
       ''DNSSEC'' ''BOGUS'' (det_algorithm d) (det_key_tag d) False (now_ms e) s;
     servfail \<leftarrow> build_servfail_response (ask_wire a);
     servfail \<leftarrow> append_ede_to_response servfail 6 (unwrap_or ''DNSSEC validation failure (RFC 4035 Section 5.5)'' (failure_reason d));
     ret (Some \<lparr>reply_wire = servfail, cache_status = ''DNSSEC_BOGUS'', reply_dnssec = ''BOGUS'', block_reason = Some ''dnssec_bogus''\<rparr>,
          latency e s) }"

section \<open>Keeping and sending an answer\<close>

text \<open>The lifetimes of the entry; what the learner sees.\<close>

definition smart_lifetimes :: "outside \<Rightarrow> string \<Rightarrow> bytes \<Rightarrow> server \<Rightarrow> ((u32 \<times> u32) \<times> server) rust" where
  "smart_lifetimes e name w s = do {
     t \<leftarrow> extract_answer_ttl w;
     ret (case t of
         Some raw_ttl \<Rightarrow> (
           let l = learner_observe (ttl_key e) name raw_ttl (learner s);
               (sttl, sgrace) = smart_ttl_and_grace l name raw_ttl
           in ((min raw_ttl sttl, sgrace), s\<lparr>learner := l\<rparr>))
       | None \<Rightarrow> ((300, 300), s)) }"

definition keep_answer :: "outside \<Rightarrow> string \<Rightarrow> u16 \<Rightarrow> bytes \<Rightarrow> u32 \<times> u32 \<Rightarrow> bool \<Rightarrow> server \<Rightarrow> server rust" where
  "keep_answer e name qt w = (\<lambda>(ttl, grace) allowed s. do {
     c \<leftarrow> insert_with_grace_allowed (zip e) (the_cache s) name qt w ttl grace allowed (now_ns e);
     ret (s\<lparr>the_cache := c\<rparr>) })"

definition deliver :: "outside \<Rightarrow> ask \<Rightarrow> string \<Rightarrow> u16 \<Rightarrow> bytes \<Rightarrow> validation_details \<Rightarrow> stage" where
  "deliver e a up rcode w d s = do {
     (lifetimes, s) \<leftarrow> smart_lifetimes e (ask_name a) w s;
     let s = (if rcode = 0 then s\<lparr>the_cache := invalidate_negative_qtype (the_cache s) (ask_name a) (ask_type a)\<rparr> else s);
     s \<leftarrow> keep_answer e (ask_name a) (ask_type a) w lifetimes (is_bypassed (the_rules s) (ask_name a)) s;
     let s = wal_query a rcode (waited e) ''RESOLVED'' s;
     let s = log_validated e a ''RESOLVED'' rcode (waited e) (if status d = Bogus then ''bogus_dnssec'' else ''none'') up d s;
     let s = latency e s;
     w \<leftarrow> address_reply a w;
     ret (Some \<lparr>reply_wire = w, cache_status = ''MISS'', reply_dnssec = status_text (status d), block_reason = None\<rparr>, s) }"

definition validated_answer :: "outside \<Rightarrow> ask \<Rightarrow> string \<Rightarrow> u16 \<Rightarrow> bytes \<Rightarrow> stage" where
  "validated_answer e a up rcode w s = do {
     d \<leftarrow> validate e w;
     let s = count_validation d s;
     w \<leftarrow> set_ad d w;
     if status d = Bogus \<and> \<not> checking_disabled a then refuse_bogus e a d s
     else do {
       w \<leftarrow> (if status d = Bogus
             then append_ede_to_response w 6 (unwrap_or ''DNSSEC validation failure'' (failure_reason d)) else ret w);
       deliver e a up rcode w d s } }"

definition upstream_answer :: "outside \<Rightarrow> ask \<Rightarrow> string \<Rightarrow> bytes \<Rightarrow> stage" where
  "upstream_answer e a up w s = do {
     other \<leftarrow> other_question a w;
     case other of
       Some q \<Rightarrow> reject_spoof e a up q s
     | None \<Rightarrow> do {
         s \<leftarrow> note_answer e a w s;
         let rcode = answer_rcode w;
         (r, w, s) \<leftarrow> lifetime_guard e a w s;
         case r of
           Some reply \<Rightarrow> ret (Some reply, s)
         | None \<Rightarrow> do {
             bad \<leftarrow> refused_address a w s;
             case bad of
               Some ip \<Rightarrow> block_rebind e a ip s
             | None \<Rightarrow> validated_answer e a up rcode w s } } }"

definition ask_upstream :: "outside \<Rightarrow> ask \<Rightarrow> stage" where
  "ask_upstream e a s = (case resolve_chain e (ask_wire a) s of
     (None, s) \<Rightarrow> unreachable e a s
   | (Some (w, up), s) \<Rightarrow> upstream_answer e a up w s)"

section \<open>The pipeline\<close>

definition pipeline :: "outside \<Rightarrow> ask \<Rightarrow> stage list" where
  "pipeline e a = [discovery e a, observe_query e a, canary e a, policy e a, watch_swarm a, instant_blocker e a,
     negative_hit e a, browse_check e a, cache_lookup e a, ask_upstream e a]"

definition process_query :: "outside \<Rightarrow> bytes \<Rightarrow> ip_addr \<Rightarrow> string option \<Rightarrow> string \<Rightarrow> server \<Rightarrow> (reply option \<times> server) rust" where
  "process_query e w ip dev_tag proto s = do {
     (adm, s) \<leftarrow> admit e w ip dev_tag proto s;
     case adm of Inl r \<Rightarrow> ret (Some r, s) | Inr a \<Rightarrow> stages (pipeline e a) s }"

section \<open>Spawned tasks\<close>

definition prefetch_label :: "string \<Rightarrow> bytes" where
  "prefetch_label l = (if l = [] then [] else word_of_nat (length l) # ascii l)"

definition prefetch_wire :: "string \<Rightarrow> bytes" where
  "prefetch_wire cand = [0x53, 0x57, 0x01, 0x00, 0x00, 0x01, 0x00, 0x00, 0x00, 0x00, 0x00, 0x00]
     @ concat (map prefetch_label (split_char CHR ''.'' cand)) @ [0x00] @ to_be16 1 @ to_be16 1"

definition run_prefetch :: "outside \<Rightarrow> string \<Rightarrow> server \<Rightarrow> server rust" where
  "run_prefetch e cand s = do {
     let s = tally Prefetch_triggers s;
     let s = s\<lparr>brain_prefetches := brain_prefetches s + 1\<rparr>;
     s \<leftarrow> (case resolve e (prefetch_wire cand) of
         None \<Rightarrow> ret s
       | Some (resp, _) \<Rightarrow> do {
           bad \<leftarrow> (if \<not> is_bypassed (the_rules s) cand \<and> \<not> is_rebind_exempt_domain cand
                   then extract_rebind_ip resp else ret None);
           if bad \<noteq> None then ret s
           else do {
             c \<leftarrow> cache_insert (zip e) (the_cache s) cand 1 resp 300 (now_ns e);
             ret (s\<lparr>the_cache := c\<rparr>) } });
     ret (s\<lparr>prefetch_permits := prefetch_permits s + 1\<rparr>) }"

definition run_swarm_check :: "outside \<Rightarrow> string \<Rightarrow> ip_addr \<Rightarrow> server \<Rightarrow> server" where
  "run_swarm_check e domain ip s = (case detect_swarm (swarm_key e) domain (now_ms e) (the_metrics s) of
     (alarm, m) \<Rightarrow>
       let s = s\<lparr>the_metrics := m\<rparr> in
       if alarm then anomaly e ''swarm_flood'' (''Swarm burst: '' @ domain @ '' queried by many clients simultaneously'')
         (tally Swarm_alarms s)
       else s)"

definition run_refresh :: "outside \<Rightarrow> string \<Rightarrow> u16 \<Rightarrow> bytes \<Rightarrow> server \<Rightarrow> server rust" where
  "run_refresh e name qt w s = (case resolve e w of
     None \<Rightarrow> ret s
   | Some (resp, _) \<Rightarrow> do {
       let bypassed = is_bypassed (the_rules s) name;
       bad \<leftarrow> (if blocking_enabled (the_rules s) \<and> \<not> bypassed \<and> \<not> is_rebind_exempt_domain name
               then extract_rebind_ip resp else ret None);
       case bad of
         Some ip \<Rightarrow> (
           let s = tally Rebind_blocks s;
               s = anomaly e ''dns_rebind_swr_poison'' (''Blocked SWR revalidation private IP poisoning: '' @ name @ '' -> '' @ show_ip ip) s
           in ret (s\<lparr>the_cache := insert_negative (the_cache s) name qt 120 (now_ns e)\<rparr>))
       | None \<Rightarrow> do {
           (lifetimes, s) \<leftarrow> smart_lifetimes e name resp s;
           keep_answer e name qt resp lifetimes bypassed s } })"

fun run_task :: "outside \<Rightarrow> task \<Rightarrow> server \<Rightarrow> server rust" where
  "run_task e (Prefetch cand) s = run_prefetch e cand s"
| "run_task e (Swarm_Check domain ip) s = ret (run_swarm_check e domain ip s)"
| "run_task e (Refresh name qt w) s = run_refresh e name qt w s"

section \<open>The server\<close>

text \<open>
  A step answers a query, runs one of the tasks that wait, or is one of the events the model
  leaves to the environment: the blocking switch and a lapse of entries in the instant cache and the
  negative filter.
\<close>

datatype event = Answer bytes ip_addr "string option" string | Run nat | Switch_Blocking bool | Lapse "string \<times> u16" | Forget_Verdict string

fun server_step :: "outside \<Rightarrow> event \<Rightarrow> server \<Rightarrow> server rust" where
  "server_step e (Answer w ip dev proto) s = map_option snd (process_query e w ip dev proto s)"
| "server_step e (Run i) s = (if i < length (tasks s)
     then run_task e (tasks s ! i) (s\<lparr>tasks := take i (tasks s) @ drop (i + 1) (tasks s)\<rparr>) else ret s)"
| "server_step e (Switch_Blocking on) s = ret (on_rules (\<lambda>r. r\<lparr>blocking_enabled := on\<rparr>) s)"
| "server_step e (Lapse k) s = ret (s\<lparr>instant_cache := (instant_cache s)(k := None)\<rparr>)"
| "server_step e (Forget_Verdict k) s = ret (on_rules (forget_negative k) s)"

fun server_run :: "(outside \<times> event) list \<Rightarrow> server \<Rightarrow> server rust" where
  "server_run [] s = ret s"
| "server_run ((e, ev) # evs) s = do { s \<leftarrow> server_step e ev s; server_run evs s }"

end
