(* ===== verification/Pipeline_Sound.thy ===== *)
theory Pipeline_Sound
  imports Pipeline
begin

text \<open>
  The path of a query keeps the invariants of all components and never panics: each stage of
  \<open>Pipeline\<close> is \<open>sound\<close>, so the pipeline is, so is every step of the server, and so every run.
\<close>

section \<open>No step panics\<close>

lemma ede_total [simp]: "append_ede_to_response w c t \<noteq> None" "append_ede_if_edns w q c t \<noteq> None"
proof -
  show ede: "append_ede_to_response w c t \<noteq> None" for w c t
    using append_option_total [of w] by (auto simp: append_ede_to_response_def Let_def not_less)
  then show "append_ede_if_edns w q c t \<noteq> None"
    by (simp add: append_ede_if_edns_def has_edns_has_opt del: not_None_eq)
qed

lemma sinkhole_total [simp]: "sinkhole_if_edns a r \<noteq> None" "sinkhole_ede a r \<noteq> None"
proof -
  obtain w where "build_sinkhole_response (ask_wire a) = Some w" using builders_total(3) by blast
  then show "sinkhole_if_edns a r \<noteq> None" "sinkhole_ede a r \<noteq> None"
    using ede_total [of w] by (simp_all add: sinkhole_if_edns_def sinkhole_ede_def del: not_None_eq)
qed

lemma echo_question_form: "echo_question a w = Some (if ask_len a > 0 \<and> length w \<ge> 12 + ask_len a \<and> length (ask_wire a) \<ge> 12 + ask_len a
    then take 12 w @ take (ask_len a) (drop 12 (ask_wire a)) @ drop (12 + ask_len a) w else w)"
  by (auto simp: echo_question_def slice_def wr_def)

lemma address_reply_form: "address_reply a w = Some (let w = (if length w \<ge> 2 then to_be16 (ask_tx a) @ drop 2 w else w) in
    if ask_len a > 0 \<and> length w \<ge> 12 + ask_len a \<and> length (ask_wire a) \<ge> 12 + ask_len a
    then take 12 w @ take (ask_len a) (drop 12 (ask_wire a)) @ drop (12 + ask_len a) w else w)"
proof (cases "length w \<ge> 2")
  case True
  then have "wr w 0 (to_be16 (ask_tx a)) = Some (to_be16 (ask_tx a) @ drop 2 w)" by (simp add: wr_def eval_nat_numeral)
  with True show ?thesis by (simp add: address_reply_def echo_question_form Let_def)
qed (simp add: address_reply_def echo_question_form Let_def)

lemma set_ad_total [simp]: "set_ad d w \<noteq> None"
  by (auto simp: set_ad_def rd_def wr_def)

lemma validate_some [simp]: "validate e w \<noteq> None"
  by (simp add: validate_def validate_total del: not_None_eq)

lemma other_question_total [simp]: "other_question a w \<noteq> None"
proof -
  obtain p where "parse_dns_query w = Some p" using parse_query_total' by blast
  then show ?thesis by (simp add: other_question_def)
qed

lemma answer_ttl_scan_total: "answer_ttl_scan n w p \<noteq> None"
proof -
  obtain r where "skip_dns_name w p = Some r" using skip_dns_name_total by blast
  then show ?thesis by (simp add: answer_ttl_scan_def split: option.split)
qed

lemma with_answers_total:
  assumes scan: "\<And>n p. scan n w p \<noteq> None"
  shows "with_answers w none scan \<noteq> None"
proof (cases "length w < 12")
  case False
  then obtain r where r: "skip_questions w = Some r" using skip_questions_total [of w] by fastforce
  with False have "walk question_step (unat (get16 w 4)) w 12 = Some r" by (simp add: skip_questions_def)
  with False scan show ?thesis by (auto simp: with_answers_def simp del: not_None_eq split: option.split)
qed (simp add: with_answers_def)

lemma answers_total [simp]: "extract_a_records w \<noteq> None" "extract_min_ttl w \<noteq> None" "extract_answer_ttl w \<noteq> None"
   "extract_soa_minimum_ttl w \<noteq> None"
proof -
  have "a_records_scan n w p \<noteq> None" "min_ttl_scan None n w p \<noteq> None" for n p
    using min_ttl_scan_le [of None n w p] by (auto simp: a_records_scan_rrs)
  then show "extract_a_records w \<noteq> None" "extract_min_ttl w \<noteq> None" "extract_answer_ttl w \<noteq> None"
    unfolding extract_a_records_def extract_min_ttl_def extract_answer_ttl_def
    by (intro with_answers_total answer_ttl_scan_total; simp)+
  show "extract_soa_minimum_ttl w \<noteq> None" using extract_soa_range [of w] by auto
qed

lemma exempt_total: "filters_ok r \<Longrightarrow> \<exists>b. is_exempt_domain r d = Some b"
  by (auto simp: is_exempt_domain_def Let_def lookups_total)

lemma smart_lifetimes_total: "\<exists>lt l. smart_lifetimes e n w s = Some (lt, s\<lparr>learner := l\<rparr>) \<and>
    (l = learner s \<or> (\<exists>ttl. l = learner_observe (ttl_key e) n ttl (learner s)))"
proof -
  obtain t where t: "extract_answer_ttl w = Some t" using answers_total(3) by blast
  show ?thesis
  proof (cases t)
    case None
    then show ?thesis by (intro exI [of _ "(300, 300)"] exI [of _ "learner s"]) (simp add: smart_lifetimes_def t)
  qed (auto simp: smart_lifetimes_def t Let_def split: prod.split)
qed

section \<open>What every step keeps\<close>

text \<open>The invariants of the components, together.\<close>

definition lifetimes_ok :: "dns_cache \<Rightarrow> bool" where
  "lifetimes_ok c \<longleftrightarrow> (\<forall>k e. cache_map c k = Some e \<longrightarrow> 10 \<le> cached_response.original_ttl e \<and> cached_response.original_ttl e \<le> 86400 \<and>
       30 \<le> stale_grace_secs e \<and> stale_grace_secs e \<le> 3600) \<and>
     (\<forall>k t ttl. neg_cache c k = Some (t, ttl) \<longrightarrow> 5 \<le> ttl \<and> ttl \<le> 300)"

definition is_prefetch :: "task \<Rightarrow> bool" where
  "is_prefetch t \<longleftrightarrow> (case t of Prefetch cand \<Rightarrow> True | _ \<Rightarrow> False)"

definition rules_ok :: "rules \<Rightarrow> bool" where
  "rules_ok r \<longleftrightarrow> filters_ok r \<and> tables_ok r"

definition server_ok :: "server \<Rightarrow> bool" where
  "server_ok s \<longleftrightarrow> rules_ok (the_rules s) \<and> lifetimes_ok (the_cache s) \<and> length (suspicious_history (fingerprint s)) \<le> 50 \<and>
     metrics_ok (the_metrics s) \<and> passive_inv (passive_dns s) \<and> learner_inv (learner s) \<and>
     length (recent_queries s) \<le> 150 \<and> finite (dom (heatmap s)) \<and> card (dom (heatmap s)) \<le> 1000 \<and>
     length (filter is_prefetch (tasks s)) + prefetch_permits s = 16"

text \<open>The iteration orders give a key of the map.\<close>

definition outside_ok :: "outside \<Rightarrow> bool" where
  "outside_ok e \<longleftrightarrow> order_ok (block_order e) \<and> fk_ok (iq_key e) \<and>
     (\<forall>m. finite (dom m) \<longrightarrow> dom m \<noteq> {} \<longrightarrow> seq_key e m \<in> dom m) \<and>
     first_key_ok (device_key e) \<and> first_key_ok (user_key e) \<and> first_key_ok (burst_key e) \<and> first_key_ok (swarm_key e) \<and>
     (\<forall>m. finite (dom m) \<longrightarrow> dom m \<noteq> {} \<longrightarrow> passive_key e m \<in> dom m) \<and>
     (\<forall>m. finite (dom m) \<longrightarrow> dom m \<noteq> {} \<longrightarrow> ttl_key e m \<in> dom m) \<and>
     (\<forall>m. finite (dom m) \<longrightarrow> dom m \<noteq> {} \<longrightarrow> heat_key e m \<in> dom m)"

named_theorems kept

lemma rules_okI: "rules_ok r \<Longrightarrow> keeps_tables r r' \<Longrightarrow> same_config r r' \<Longrightarrow> rules_ok r'"
  using config_facts [of r r'] by (simp add: rules_ok_def keeps_tables_def)

lemma ok_on_rules [kept]: "server_ok s \<Longrightarrow> (rules_ok (the_rules s) \<Longrightarrow> rules_ok (f (the_rules s))) \<Longrightarrow> server_ok (on_rules f s)"
  by (simp add: server_ok_def on_rules_def)

lemma ok_metrics: "server_ok s \<Longrightarrow> metrics_ok m \<Longrightarrow> server_ok (s\<lparr>the_metrics := m\<rparr>)"
  by (simp add: server_ok_def)

lemma ok_tally [kept]: "server_ok s \<Longrightarrow> server_ok (tally c s)"
  unfolding tally_def by (rule ok_metrics) (simp_all add: server_ok_def metrics_ok_def)

lemma ok_counts [kept]: "server_ok s \<Longrightarrow> server_ok (latency e s)" "server_ok s \<Longrightarrow> server_ok (count_validation d s)"
  unfolding latency_def count_validation_def by (rule ok_metrics, assumption, simp add: server_ok_def)+

lemma ok_threat [kept]: "server_ok s \<Longrightarrow> server_ok (bump_threat s)" "server_ok s \<Longrightarrow> server_ok (bump_dcc s)"
  unfolding bump_threat_def bump_dcc_def
  by (rule ok_on_rules, assumption, simp add: rules_ok_def filters_ok_def tables_ok_def)+

lemma ok_response [kept]: "server_ok s \<Longrightarrow> server_ok (snd (response_code e ip rc s))"
  by (simp add: server_ok_def response_code_def record_response_def Let_def split: prod.split)

lemma ok_flag [kept]: "server_ok s \<Longrightarrow> server_ok (flag_asker e a r s)"
  by (auto simp: server_ok_def flag_asker_def flag_client_def Let_def)

lemma ok_wal [kept]: "server_ok s \<Longrightarrow> server_ok (wal_query a rc l t s)" "server_ok s \<Longrightarrow> server_ok (wal_threat a r s)"
  by (simp_all add: server_ok_def wal_query_def wal_threat_def)

lemma ok_logs [kept]: "server_ok s \<Longrightarrow> server_ok (action e k t s)" "server_ok s \<Longrightarrow> server_ok (anomaly e k t s)"
  unfolding action_def anomaly_def
  by (rule ok_on_rules, assumption, simp add: rules_ok_def filters_ok_def tables_ok_def log_action_def log_anomaly_def push_log_bound)+

lemma ok_query_log [kept]: "server_ok s \<Longrightarrow> server_ok (log_query_dnssec d qt c p st rc l r u ds al tg ad now s)"
  by (auto simp: server_ok_def log_query_dnssec_def Let_def)

lemma ok_local_log [kept]: "server_ok s \<Longrightarrow> server_ok (log_local e a st rc l r u s)" "server_ok s \<Longrightarrow> server_ok (log_validated e a st rc l r u d s)"
  unfolding log_local_def log_validated_def by (rule ok_query_log, assumption)+

lemma ok_detected [kept]: "outside_ok e \<Longrightarrow> server_ok s \<Longrightarrow> server_ok (detected e a r s)"
  unfolding detected_def
  by (rule ok_on_rules, assumption, rule rules_okI, assumption)
    (simp_all add: outside_ok_def keeps_block frame_block [THEN conjunct1])

lemma ok_cache: "server_ok s \<Longrightarrow> lifetimes_ok c \<Longrightarrow> server_ok (s\<lparr>the_cache := c\<rparr>)"
  by (simp add: server_ok_def)

lemma lifetimes_negative: "lifetimes_ok c \<Longrightarrow> lifetimes_ok (insert_negative c n q t now)"
  using clamp32_range [of 5 300 t] by (auto simp: lifetimes_ok_def insert_negative_def)

lemma lifetimes_drop: "lifetimes_ok c \<Longrightarrow> lifetimes_ok (drop_entry k c)"
  by (auto simp: lifetimes_ok_def drop_entry_def split: option.splits if_splits)

lemma lifetimes_store: "lifetimes_ok c \<Longrightarrow> lifetimes_ok (put_entry k (store z raw ttl grace now) c)"
  using clamp32_range [of 10 86400 ttl] clamp32_range [of 30 3600 grace]
  by (auto simp: put_entry_def Let_def store_def lifetimes_ok_def drop_entry_def split: option.splits if_splits)

lemma ok_negative [kept]: "server_ok s \<Longrightarrow> server_ok (negative e a ttl s)"
  unfolding negative_def by (rule ok_cache) (simp_all add: server_ok_def lifetimes_negative)

lemma ok_learner: "server_ok s \<Longrightarrow> learner_inv l \<Longrightarrow> server_ok (s\<lparr>learner := l\<rparr>)"
  by (simp add: server_ok_def)

lemma ok_hit [kept]: "server_ok s \<Longrightarrow> outside_ok e \<Longrightarrow> server_ok (s\<lparr>learner := learner_record_hit d (learner s)\<rparr>)"
  using learner_run_inv [of "learner s" "ttl_key e" "Hit d"] by (simp add: ok_learner server_ok_def outside_ok_def)

lemma ok_spawn [kept]: "server_ok s \<Longrightarrow> \<not> is_prefetch t \<Longrightarrow> server_ok (spawn t s)"
  by (simp add: server_ok_def spawn_def)

lemma ok_instant [kept]: "server_ok s \<Longrightarrow> server_ok (insert_blocked_response d q w now s)"
  by (simp add: server_ok_def insert_blocked_response_def)

lemma ok_passive: "server_ok s \<Longrightarrow> passive_inv p \<Longrightarrow> server_ok (s\<lparr>passive_dns := p\<rparr>)"
  by (simp add: server_ok_def)

lemma server_facts: "server_ok s \<Longrightarrow> filters_ok (the_rules s)" "server_ok s \<Longrightarrow> tables_ok (the_rules s)"
  "server_ok s \<Longrightarrow> lifetimes_ok (the_cache s)" "server_ok s \<Longrightarrow> metrics_ok (the_metrics s)"
  by (simp_all add: server_ok_def rules_ok_def)

text \<open>A stage that never panics and keeps the invariants.\<close>

definition sound :: "stage \<Rightarrow> bool" where
  "sound f \<longleftrightarrow> (\<forall>s. server_ok s \<longrightarrow> (\<exists>r s'. f s = Some (r, s') \<and> server_ok s'))"

lemma soundD: "sound f \<Longrightarrow> server_ok s \<Longrightarrow> \<exists>r s'. f s = Some (r, s') \<and> server_ok s'"
  by (simp add: sound_def)

lemma stages_sound: "(\<And>f. f \<in> set fs \<Longrightarrow> sound f) \<Longrightarrow> sound (stages fs)"
proof (induction fs)
  case Nil
  show ?case by (simp add: sound_def)
next
  case (Cons f fs)
  show ?case unfolding sound_def
  proof (intro allI impI)
    fix s assume "server_ok s"
    with Cons.prems [of f] obtain r t where t: "f s = Some (r, t)" "server_ok t" by (auto dest: soundD)
    from Cons obtain r' t' where "stages fs t = Some (r', t')" "server_ok t'" using t(2) by (auto dest: soundD)
    with t show "\<exists>r s'. stages (f # fs) s = Some (r, s') \<and> server_ok s'" by (cases r) simp_all
  qed
qed

lemma discovery_sound: "sound (discovery e a)"
  unfolding sound_def
proof (intro allI impI)
  fix s assume s: "server_ok s"
  obtain d n where "build_ddr_response (ask_wire a) = Some d" "build_any_minimal_response (ask_wire a) = Some n"
    using builders_total by blast
  with s show "\<exists>r s'. discovery e a s = Some (r, s') \<and> server_ok s'"
    by (auto simp: discovery_def Let_def kept split: option.split)
qed

lemma canary_sound: "sound (canary e a)"
  unfolding sound_def
proof (intro allI impI)
  fix s assume s: "server_ok s"
  then have "server_ok (s\<lparr>canary_hits := canary_hits s + 1\<rparr>)" by (simp add: server_ok_def)
  moreover obtain w where w: "build_blocked_response (ask_wire a) True = Some w" using builders_total by blast
  moreover obtain w' where "append_ede_to_response w 15 ''CANARY'' = Some w'" using ede_total by blast
  ultimately show "\<exists>r s'. canary e a s = Some (r, s') \<and> server_ok s'"
    using s by (simp add: canary_def Let_def kept)
qed

lemma prefetch_ok:
  assumes "server_ok s" "outside_ok e"
  shows "\<exists>s'. prefetch e c s = Some s' \<and> server_ok s'"
proof -
  have "\<exists>b. is_domain_blocked (block_order e) (the_rules s) c = Some b"
    unfolding is_domain_blocked_def Let_def lookups_total [OF server_facts(1) [OF assms(1)]] bind.bind_lunit if_distrib [where f = Some, symmetric]
    by (rule exI, rule refl)
  with assms(1) show ?thesis by (auto simp: prefetch_def spawn_def server_ok_def is_prefetch_def)
qed

lemma prefetch_all_ok: "server_ok s \<Longrightarrow> outside_ok e \<Longrightarrow> \<exists>s'. prefetch_all e cs s = Some s' \<and> server_ok s'"
proof (induction cs arbitrary: s)
  case (Cons c cs)
  from prefetch_ok [OF Cons.prems, of c] Cons.IH Cons.prems(2) show ?case by auto
qed simp

lemma ok_track [kept]: "server_ok s \<Longrightarrow> server_ok (track_client e a s)"
proof -
  assume s: "server_ok s"
  obtain f tr where r: "record_query (fp_key e) (ask_ip a) (ask_name a) (now_ns e) (fingerprint s) = (f, tr)" by fastforce
  have "suspicious_history (snd (record_query (fp_key e) (ask_ip a) (ask_name a) (now_ns e) (fingerprint s))) =
    suspicious_history (fingerprint s)" unfolding record_query_def Let_def by (simp add: case_prod_unfold)
  then have "suspicious_history tr = suspicious_history (fingerprint s)" unfolding r by simp
  with s have "server_ok (s\<lparr>fingerprint := tr\<rparr>)" by (simp add: server_ok_def)
  with r show ?thesis by (auto simp: track_client_def Let_def kept split: option.split)
qed

lemma reinforce_ok: "fk_ok fk \<Longrightarrow> brain_inv b \<Longrightarrow> brain_inv (reinforce_safe fk c now b)"
  by (simp add: reinforce_safe_def Let_def train_ok brain_log_ok split: prod.split)

lemma ok_heatmap [kept]: "server_ok s \<Longrightarrow> outside_ok e \<Longrightarrow> server_ok (record_heatmap (heat_key e) (iq_key e) d now s)"
proof -
  assume s: "server_ok s" and e: "outside_ok e"
  define t where "t = on_rules (\<lambda>r. r\<lparr>the_brain := reinforce_safe (iq_key e) (clean_of d) now (the_brain r)\<rparr>) s"
  have t: "server_ok t" unfolding t_def
    by (rule ok_on_rules [OF s]) (use e reinforce_ok in \<open>simp add: rules_ok_def filters_ok_def tables_ok_def outside_ok_def\<close>)
  have h: "heatmap t = heatmap s" by (simp add: t_def on_rules_def)
  define g where "g = (if card (dom (heatmap s)) \<ge> 1000 \<and> clean_of d \<notin> dom (heatmap s)
    then (heatmap s)(heat_key e (heatmap s) := None) else heatmap s)"
  have "finite (dom (heatmap s))" "card (dom (heatmap s)) \<le> 1000" using s by (simp_all add: server_ok_def)
  note b = bounded_put [where fk = "heat_key e", OF this _ _ g_def]
  have "dom (heatmap s) \<noteq> {} \<Longrightarrow> heat_key e (heatmap s) \<in> dom (heatmap s)"
    using e \<open>finite (dom (heatmap s))\<close> by (simp add: outside_ok_def)
  with b have g: "finite (dom g)" "card (insert (clean_of d) (dom g)) \<le> 1000" by simp_all
  have put: "server_ok (t\<lparr>fp_suppressions := n, heatmap := g(clean_of d \<mapsto> x)\<rparr>)" for n x
    using t g by (simp add: server_ok_def)
  have h': "heatmap (t\<lparr>fp_suppressions := n\<rparr>) = heatmap s" for n by (simp add: h)
  show ?thesis
  proof (cases "clean_of d = []")
    case False
    show ?thesis
      unfolding record_heatmap_def Let_def t_def [symmetric] if_not_P [OF False] h' g_def [symmetric] by (rule put)
  qed (simp add: record_heatmap_def s)
qed

lemma observe_sound: "outside_ok e \<Longrightarrow> sound (observe_query e a)"
  unfolding sound_def
proof (intro allI impI)
  fix s assume e: "outside_ok e" and s: "server_ok s"
  have "brain_inv b \<Longrightarrow> brain_inv (record_sequence (seq_key e) d now b)" for d now b
    using brain_run_inv [where op = "Sequence d now" and fk = "iq_key e" and ft = "seq_key e" and b = b] e
    by (simp add: outside_ok_def fk_ok_def)
  then have "server_ok (on_rules (\<lambda>r. r\<lparr>the_brain := record_sequence (seq_key e) (ask_name a) (now_ns e) (the_brain r)\<rparr>) s)"
    (is "server_ok ?t") by (intro ok_on_rules [OF s]) (simp add: rules_ok_def filters_ok_def tables_ok_def)
  from prefetch_all_ok [OF this e] obtain u where
    "prefetch_all e (get_prefetch_candidates (children_order e) (ask_name a) (the_brain (the_rules ?t))) ?t = Some u" "server_ok u"
    by blast
  with e show "\<exists>r s'. observe_query e a s = Some (r, s') \<and> server_ok s'"
    by (simp add: observe_query_def Let_def kept)
qed

lemma count_reason_ok: "rules_ok r \<Longrightarrow> rules_ok (count_reason x r)"
  by (simp add: rules_ok_def filters_ok_def tables_ok_def count_reason_def Let_def)

lemma policy_sound: "outside_ok e \<Longrightarrow> sound (policy e a)"
  unfolding sound_def
proof (intro allI impI)
  fix s assume e: "outside_ok e" and s: "server_ok s"
  obtain b n x r where c: "check_domain (block_order e) (iq_key e) (show_real e) (ask_name a) (now_ms e) (the_rules s) = Some ((b, n, x), r)"
    using check_verdict [OF server_facts(1) [OF s]] by (metis prod_cases3)
  have "rules_ok r"
    using rules_okI [of "the_rules s" r] keeps_check [OF _ _ server_facts(1) [OF s] c] check_frame [OF server_facts(1) [OF s] c] e s
    by (simp add: outside_ok_def after_decision_def server_ok_def)
  then have t: "server_ok (s\<lparr>the_rules := r\<rparr>)" using s by (simp add: server_ok_def)
  obtain w where "sinkhole_if_edns a x = Some w" using sinkhole_total by blast
  with t e show "\<exists>r s'. policy e a s = Some (r, s') \<and> server_ok s'"
    by (simp add: policy_def c Let_def kept count_reason_ok)
qed

lemma swarm_sound: "sound (watch_swarm a)"
  by (simp add: sound_def watch_swarm_def kept is_prefetch_def)

lemma instant_sound: "sound (instant_blocker e a)"
  unfolding sound_def
proof (intro allI impI)
  fix s assume s: "server_ok s"
  obtain w where w: "sinkhole_if_edns a ''INSTANT_BLOCK'' = Some w" using sinkhole_total by blast
  with s show "\<exists>r s'. instant_blocker e a s = Some (r, s') \<and> server_ok s'"
    by (auto simp: instant_blocker_def Let_def kept echo_question_form split: option.split)
qed

lemma lifetimes_neg_lookup: "lifetimes_ok c \<Longrightarrow> get_negative c n q now = (b, c') \<Longrightarrow> lifetimes_ok c'"
  by (auto simp: get_negative_def lifetimes_ok_def Let_def split: option.splits if_splits)

lemma ok_decide: "server_ok s \<Longrightarrow> server_ok (on_rules (\<lambda>r. r\<lparr>the_brain := record_decision d x y fs st rs pf now (the_brain r)\<rparr>) s)"
  by (rule ok_on_rules) (simp_all add: rules_ok_def filters_ok_def tables_ok_def brain_log_ok)

lemma negative_sound: "sound (negative_hit e a)"
  unfolding sound_def
proof (intro allI impI)
  fix s assume s: "server_ok s"
  obtain b where b: "is_exempt_domain (the_rules s) (ask_name a) = Some b" using exempt_total [OF server_facts(1) [OF s]] by blast
  obtain h c where h: "get_negative (the_cache s) (ask_name a) (ask_type a) (now_ns e) = (h, c)" by fastforce
  have t: "server_ok (s\<lparr>the_cache := c\<rparr>)" by (rule ok_cache [OF s lifetimes_neg_lookup [OF server_facts(3) [OF s] h]])
  obtain w where w: "sinkhole_if_edns a ''THREAT_CACHE'' = Some w" using sinkhole_total by blast
  obtain fs ent where f: "extract_features (the_brain (the_rules (bump_threat (s\<lparr>the_cache := c\<rparr>)))) (ask_name a) = (fs, ent)" by fastforce
  from s b h t w f show "\<exists>r s'. negative_hit e a s = Some (r, s') \<and> server_ok s'"
    by (simp add: negative_hit_def Let_def kept ok_decide split: bool.split)
qed

lemma browse_sound: "outside_ok e \<Longrightarrow> sound (browse_check e a)"
  unfolding sound_def
proof (intro allI impI)
  fix s assume e: "outside_ok e" and s: "server_ok s"
  obtain b where b: "is_exempt_domain (the_rules s) (ask_name a) = Some b" using exempt_total [OF server_facts(1) [OF s]] by blast
  obtain w where w: "sinkhole_ede a ''GSB'' = Some w" using sinkhole_total by blast
  from b w s e show "\<exists>r s'. browse_check e a s = Some (r, s') \<and> server_ok s'"
    by (simp add: browse_check_def Let_def kept split: option.split)
qed

lemma intercept_sound: "sound (intercept e a src ip)"
  unfolding sound_def
proof (intro allI impI)
  fix s assume s: "server_ok s"
  then have "server_ok (s\<lparr>the_cache := invalidate (the_cache s) (ask_name a) (ask_type a)\<rparr>)"
    unfolding invalidate_def by (intro ok_cache lifetimes_drop server_facts)
  moreover obtain w where "sinkhole_ede a ''REBIND'' = Some w" using sinkhole_total by blast
  ultimately show "\<exists>r s'. intercept e a src ip s = Some (r, s') \<and> server_ok s'"
    by (simp add: intercept_def Let_def kept)
qed

lemma serve_cached_sound: "outside_ok e \<Longrightarrow> sound (serve_cached e a st w)"
  unfolding sound_def
proof (intro allI impI)
  fix s assume e: "outside_ok e" and s: "server_ok s"
  obtain d where d: "validate e w = Some d" using validate_some by blast
  obtain w' where w': "address_reply a w = Some w'" using address_reply_form by blast
  note t = ok_hit [OF s e, of "ask_name a"]
  show "\<exists>r s'. serve_cached e a st w s = Some (r, s') \<and> server_ok s'"
    by (cases st) (simp_all add: serve_cached_def d w' Let_def kept t is_prefetch_def)
qed

lemma refused_total: "\<exists>r. refused_address a w s = Some r"
proof -
  obtain r where "extract_rebind_ip w = Some r" using extract_rebind_total by blast
  then show ?thesis by (simp add: refused_address_def)
qed

lemma cache_lookup_sound: "outside_ok e \<Longrightarrow> sound (cache_lookup e a)"
  unfolding sound_def
proof (intro allI impI)
  fix s assume e: "outside_ok e" and s: "server_ok s"
  obtain f c where f: "get_with_swr (unzip e) (the_cache s) (ask_name a) (ask_type a) (ask_tx a) (now_ns e) = Some (f, c)"
    and c: "lifetimes_ok c"
    by (cases rule: get_with_swr_cases [of "the_cache s" "ask_name a" "ask_type a" "unzip e" "ask_tx a" "now_ns e"])
      (use server_facts(3) [OF s] in \<open>auto simp: lifetimes_drop\<close>, simp add: lifetimes_ok_def)
  define t where "t = s\<lparr>the_cache := c\<rparr>"
  have t: "server_ok t" unfolding t_def by (rule ok_cache [OF s c])
  have hit: "\<exists>r s'. (do { bad \<leftarrow> refused_address a w t;
      case bad of Some ip \<Rightarrow> intercept e a src ip t | None \<Rightarrow> serve_cached e a st w t }) = Some (r, s') \<and> server_ok s'" for w src st
  proof -
    obtain bad where "refused_address a w t = Some bad" using refused_total by blast
    with soundD [OF intercept_sound t] soundD [OF serve_cached_sound [OF e] t] show ?thesis by (cases bad) auto
  qed
  show "\<exists>r s'. cache_lookup e a s = Some (r, s') \<and> server_ok s'"
    unfolding cache_lookup_def by (cases f) (simp_all add: f t_def [symmetric] hit ok_tally [OF t])
qed

lemma resolve_chain_ok: "server_ok s \<Longrightarrow> resolve_chain e w s = (r, t) \<Longrightarrow> server_ok t"
  by (auto simp: resolve_chain_def kept split: option.splits)

lemma servfail_ede: "\<exists>w f. build_servfail_response q = Some w \<and> append_ede_to_response w c t = Some f"
proof -
  obtain w where "build_servfail_response q = Some w" using builders_total by blast
  moreover obtain f where "append_ede_to_response w c t = Some f" using ede_total by blast
  ultimately show ?thesis by blast
qed

lemma refusals_sound: "sound (reject_spoof e a up q)" "sound (unreachable e a)" "sound (refuse_bogus e a d)"
  unfolding sound_def
proof safe
  fix s assume s: "server_ok s"
  show "\<exists>r s'. reject_spoof e a up q s = Some (r, s') \<and> server_ok s'"
    using servfail_ede [of "ask_wire a" 6 "''Upstream question mismatch''"] s by (auto simp: reject_spoof_def Let_def kept)
  show "\<exists>r s'. unreachable e a s = Some (r, s') \<and> server_ok s'"
    using servfail_ede [of "ask_wire a" 22 "''All upstream resolvers unreachable''"] s by (auto simp: unreachable_def Let_def kept)
  show "\<exists>r s'. refuse_bogus e a d s = Some (r, s') \<and> server_ok s'"
    using servfail_ede [of "ask_wire a" 6 "unwrap_or ''DNSSEC validation failure (RFC 4035 Section 5.5)'' (failure_reason d)"] s
    by (auto simp: refuse_bogus_def Let_def kept)
qed

lemma note_addresses_ok: "outside_ok e \<Longrightarrow> server_ok s \<Longrightarrow> \<exists>s'. note_addresses e a ips s = Some s' \<and> server_ok s'"
proof -
  assume e: "outside_ok e" and s: "server_ok s"
  obtain o' st where r: "record_ips (passive_key e) (word_of_nat (now_ms e div 1000)) (ask_name a) ips (passive_dns s) = (o', st)"
    by fastforce
  have "passive_inv st" using passive_run_inv [where op = "Record (word_of_nat (now_ms e div 1000)) (ask_name a) ips" and first_key = "passive_key e"
      and st = "passive_dns s"] s e by (simp add: r server_ok_def outside_ok_def)
  then have t: "server_ok (s\<lparr>passive_dns := st\<rparr>)" by (rule ok_passive [OF s])
  then have u: "server_ok (tally Answer_drifts (s\<lparr>passive_dns := st\<rparr>))" by (rule ok_tally)
  from exempt_total [OF server_facts(1) [OF u], of "ask_name a"] obtain b where
    b: "is_exempt_domain (the_rules (tally Answer_drifts (s\<lparr>passive_dns := st\<rparr>))) (ask_name a) = Some b" by blast
  show ?thesis by (cases o') (use s t u b in \<open>simp_all add: note_addresses_def r Let_def kept\<close>)
qed

lemma note_burst_ok: "outside_ok e \<Longrightarrow> server_ok s \<Longrightarrow> server_ok (note_burst e a rc s)"
proof -
  assume e: "outside_ok e" and s: "server_ok s"
  have k: "first_key_ok (device_key e)" "first_key_ok (user_key e)" "first_key_ok (burst_key e)" "first_key_ok (swarm_key e)"
    using e by (simp_all add: outside_ok_def)
  from metrics_step_ok [OF server_facts(4) [OF s] k, where op = "Nx (show_ip (ask_ip a)) (now_ms e)"]
  have "server_ok (s\<lparr>the_metrics := snd (detect_nx_burst (burst_key e) (show_ip (ask_ip a)) (now_ms e) (the_metrics s))\<rparr>)"
    by (intro ok_metrics [OF s]) simp
  with s show ?thesis by (auto simp: note_burst_def Let_def kept split: prod.split)
qed

lemma note_answer_ok: "outside_ok e \<Longrightarrow> server_ok s \<Longrightarrow> \<exists>s'. note_answer e a w s = Some s' \<and> server_ok s'"
proof -
  assume e: "outside_ok e" and s: "server_ok s"
  obtain fl t where r: "response_code e (ask_ip a) (answer_rcode w) s = (fl, t)" by fastforce
  with ok_response [OF s] have t: "server_ok t" by (metis snd_conv)
  define u where "u = (case fl of None \<Rightarrow> t
       | Some f \<Rightarrow> action e ''rogue_client_detected'' (show_ip (ask_ip a) @ '': '' @ f) (if f = ''NX_SCANNER'' then tally Nx_alarms t else t))"
  have u: "server_ok u" using t by (auto simp: u_def kept split: option.split)
  obtain soa where soa: "(if answer_rcode w = 3 then extract_soa_minimum_ttl w else ret None) = Some soa"
    by (cases "answer_rcode w = 3") (metis answers_total(4) option.exhaust, simp)
  define v where "v = (if answer_rcode w = 3 then negative e a (unwrap_or 60 soa) u else u)"
  have v: "server_ok v" using u by (simp add: v_def kept)
  obtain ips where ips: "extract_a_records w = Some ips" using answers_total(1) by blast
  from note_addresses_ok [OF e v] obtain x where x: "note_addresses e a ips v = Some x" "server_ok x" by blast
  have "note_answer e a w s = Some (note_burst e a (answer_rcode w) x)"
    unfolding note_answer_def Let_def r prod.case u_def [symmetric] soa bind.bind_lunit v_def [symmetric] ips x(1) ..
  with note_burst_ok [OF e x(2)] show ?thesis by blast
qed

lemma block_flux_sound: "sound (block_flux e a m)"
  unfolding sound_def
proof (intro allI impI)
  fix s assume s: "server_ok s"
  obtain sc v where "evaluate_internal (the_brain (the_rules s)) (ask_name a) = (sc, v)" by fastforce
  moreover obtain w where "sinkhole_ede a ''TTL_GUARD'' = Some w" using sinkhole_total by blast
  ultimately show "\<exists>r s'. block_flux e a m s = Some (r, s') \<and> server_ok s'" using s by (simp add: block_flux_def Let_def kept)
qed

lemma lifetime_guard_ok:
  assumes "server_ok s"
  shows "\<exists>r w' s'. lifetime_guard e a w s = Some (r, w', s') \<and> server_ok s'"
proof -
  have "\<exists>b. guard_lifetimes a w s = Some b"
    using exempt_total [OF server_facts(1) [OF assms], of "ask_name a"] by (auto simp: guard_lifetimes_def)
  then obtain b where b: "guard_lifetimes a w s = Some b" by blast
  obtain m where m: "(if b then extract_min_ttl w else ret None) = Some m"
    by (cases b) (metis answers_total(2) option.exhaust, simp)
  show ?thesis
  proof (cases m)
    case None
    then show ?thesis using assms m by (simp add: lifetime_guard_def b)
  next
    case (Some v)
    obtain c where c: "cap_response_ttl w 86400 = Some c" using rewriters_frame [of w 86400] by blast
    from soundD [OF block_flux_sound assms] obtain r t where "block_flux e a v s = Some (r, t)" "server_ok t" by blast
    with assms m c Some show ?thesis by (simp add: lifetime_guard_def b)
  qed
qed

lemma block_rebind_sound: "sound (block_rebind e a ip)"
  unfolding sound_def
proof (intro allI impI)
  fix s assume s: "server_ok s"
  obtain w where "sinkhole_ede a ''REBIND'' = Some w" using sinkhole_total by blast
  with s show "\<exists>r s'. block_rebind e a ip s = Some (r, s') \<and> server_ok s'" by (simp add: block_rebind_def Let_def kept)
qed

lemma smart_lifetimes_ok: "outside_ok e \<Longrightarrow> server_ok s \<Longrightarrow> \<exists>lt s'. smart_lifetimes e n w s = Some (lt, s') \<and> server_ok s'"
proof -
  assume e: "outside_ok e" and s: "server_ok s"
  have l: "learner_inv (learner s)" using s by (simp add: server_ok_def)
  have "learner_inv (learner_observe (ttl_key e) n ttl (learner s))" for ttl
    using learner_run_inv [OF l, where op = "Observe n ttl" and first_key = "ttl_key e"] e by (simp add: outside_ok_def)
  with smart_lifetimes_total [of e n w s] l ok_learner [OF s] show ?thesis by metis
qed

lemma keep_answer_ok: "server_ok s \<Longrightarrow> \<exists>s'. keep_answer e n q w lt al s = Some s' \<and> server_ok s'"
  by (cases lt) (simp add: keep_answer_def insert_form ok_cache lifetimes_store server_facts(3))

lemma deliver_sound: "outside_ok e \<Longrightarrow> sound (deliver e a up rc w d)"
  unfolding sound_def
proof (intro allI impI)
  fix s assume e: "outside_ok e" and s: "server_ok s"
  from smart_lifetimes_ok [OF e s, of "ask_name a" w] obtain lt t where t: "smart_lifetimes e (ask_name a) w s = Some (lt, t)" "server_ok t" by blast
  define u where "u = (if rc = 0 then t\<lparr>the_cache := invalidate_negative_qtype (the_cache t) (ask_name a) (ask_type a)\<rparr> else t)"
  have "lifetimes_ok (invalidate_negative_qtype (the_cache t) (ask_name a) (ask_type a))"
    using server_facts(3) [OF t(2)] by (simp add: invalidate_negative_qtype_def lifetimes_ok_def)
  then have u: "server_ok u" using t(2) by (simp add: u_def ok_cache)
  from keep_answer_ok [OF u] obtain v where
    v: "keep_answer e (ask_name a) (ask_type a) w lt (is_bypassed (the_rules u) (ask_name a)) u = Some v" "server_ok v" by blast
  show "\<exists>r s'. deliver e a up rc w d s = Some (r, s') \<and> server_ok s'"
    unfolding deliver_def t(1) bind.bind_lunit prod.case Let_def u_def [symmetric] v(1) address_reply_form
    using v(2) by (simp add: kept)
qed

lemma validated_sound: "outside_ok e \<Longrightarrow> sound (validated_answer e a up rc w)"
  unfolding sound_def
proof (intro allI impI)
  fix s assume e: "outside_ok e" and s: "server_ok s"
  obtain d where d: "validate e w = Some d" using validate_some by blast
  obtain w1 where w1: "set_ad d w = Some w1" using set_ad_total by blast
  obtain w2 where w2: "append_ede_to_response w1 6 (unwrap_or ''DNSSEC validation failure'' (failure_reason d)) = Some w2" using ede_total by blast
  note t = ok_counts(2) [OF s, of d]
  show "\<exists>r s'. validated_answer e a up rc w s = Some (r, s') \<and> server_ok s'"
    using soundD [OF refusals_sound(3) t] soundD [OF deliver_sound [OF e] t]
    by (auto simp: validated_answer_def d w1 w2 Let_def)
qed

lemma upstream_sound: "outside_ok e \<Longrightarrow> sound (ask_upstream e a)"
  unfolding sound_def
proof (intro allI impI)
  fix s assume e: "outside_ok e" and s: "server_ok s"
  obtain r t where r: "resolve_chain e (ask_wire a) s = (r, t)" by fastforce
  have t: "server_ok t" by (rule resolve_chain_ok [OF s r])
  show "\<exists>r s'. ask_upstream e a s = Some (r, s') \<and> server_ok s'"
  proof (cases r)
    case None
    with soundD [OF refusals_sound(2) t] r show ?thesis by (simp add: ask_upstream_def)
  next
    case (Some p)
    then obtain w up where p: "r = Some (w, up)" by (cases p) auto
    have "\<exists>r s'. upstream_answer e a up w t = Some (r, s') \<and> server_ok s'"
    proof -
      obtain ot where ot: "other_question a w = Some ot" using other_question_total by blast
      from note_answer_ok [OF e t] obtain u where u: "note_answer e a w t = Some u" "server_ok u" by blast
      from lifetime_guard_ok [OF u(2)] obtain g w' v where g: "lifetime_guard e a w u = Some (g, w', v)" "server_ok v" by blast
      obtain bad where bad: "refused_address a w' v = Some bad" using refused_total by blast
      show ?thesis
        using soundD [OF refusals_sound(1) t] soundD [OF block_rebind_sound g(2)] soundD [OF validated_sound [OF e] g(2)] g(2)
        by (cases ot; cases g; cases bad) (auto simp: upstream_answer_def ot u g bad Let_def)
    qed
    then show ?thesis by (simp add: ask_upstream_def r p)
  qed
qed

lemma pipeline_sound: "outside_ok e \<Longrightarrow> sound (stages (pipeline e a))"
  by (rule stages_sound)
    (auto simp: pipeline_def discovery_sound observe_sound canary_sound policy_sound swarm_sound instant_sound negative_sound
      browse_sound cache_lookup_sound upstream_sound)

lemma servfail_length: "12 \<le> length w \<Longrightarrow> \<exists>f. build_servfail_response w = Some f \<and> length f = length w \<and> take 2 f = take 2 w"
  by (simp add: blocked_form)

lemma set_rcode_form: "4 \<le> length w \<Longrightarrow> set_rcode w c = Some (w[3 := (w ! 3 AND 0xF0) OR c])"
  by (simp add: set_rcode_def rd_def wr_def upd_conv_take_nth_drop)

lemma parsed_length: "parse_dns_query_opts w b = Some (Some p) \<Longrightarrow> 12 \<le> length w \<and> tx_id p = get16 w 0"
  using parse_query_SomeD [of w b p] by simp

lemma admit_ok:
  assumes e: "outside_ok e" and s: "server_ok s"
  shows "\<exists>r s'. admit e w ip dev proto s = Some (r, s') \<and> server_ok s'"
proof -
  define t where "t = s\<lparr>the_metrics := metrics_query (device_key e) (user_key e) (unwrap_or (show_ip ip) dev) (proto_metric proto) (now_ms e) (the_metrics s)\<rparr>"
  have t: "server_ok t" unfolding t_def
    by (rule ok_metrics [OF s metrics_query_ok]) (use e server_facts(4) [OF s] in \<open>simp_all add: outside_ok_def\<close>)
  obtain f where f: "build_servfail_response w = Some f" using builders_total by blast
  obtain p where p: "parse_dns_query_opts w (rfc1035_8bit_labels t) = Some p" using parse_query_total by blast
  show ?thesis
  proof (cases p)
    case None
    then show ?thesis using t unfolding admit_def Let_def t_def [symmetric] p bind.bind_lunit f by (simp add: turn_away_def kept)
  next
    case (Some q)
    then have "4 \<le> length f" using p parsed_length servfail_length [of w] f by fastforce
    then show ?thesis using t Some unfolding admit_def Let_def t_def [symmetric] p bind.bind_lunit f
      by (simp add: turn_away_def kept set_rcode_form split: option.split)
  qed
qed

lemma process_ok:
  assumes "outside_ok e" "server_ok s"
  shows "\<exists>r s'. process_query e w ip dev proto s = Some (r, s') \<and> server_ok s'"
proof -
  from admit_ok [OF assms] obtain r t where a: "admit e w ip dev proto s = Some (r, t)" "server_ok t" by blast
  with soundD [OF pipeline_sound [OF assms(1)] a(2)] show ?thesis by (cases r) (auto simp: process_query_def)
qed

lemma rebind_check_total: "\<exists>r. (if b then extract_rebind_ip w else ret None) = Some r"
  by (cases b) (metis extract_rebind_total not_None_eq, simp)

lemma run_prefetch_ok:
  assumes s: "server_ok (s\<lparr>prefetch_permits := prefetch_permits s + 1\<rparr>)"
  shows "\<exists>s'. run_prefetch e c s = Some s' \<and> server_ok s'"
proof -
  define t where "t = (tally Prefetch_triggers s)\<lparr>brain_prefetches := brain_prefetches (tally Prefetch_triggers s) + 1\<rparr>"
  have t: "server_ok (t\<lparr>prefetch_permits := prefetch_permits t + 1\<rparr>)"
    using ok_tally [OF s, of Prefetch_triggers] by (simp add: server_ok_def tally_def t_def)
  have c: "lifetimes_ok (the_cache t)" using t by (simp add: server_ok_def)
  show ?thesis
  proof (cases "resolve e (prefetch_wire c)")
    case None
    then show ?thesis using t
      unfolding run_prefetch_def Let_def t_def [symmetric] None option.case bind.bind_lunit by simp
  next
    case (Some p)
    then obtain resp up where p: "resolve e (prefetch_wire c) = Some (resp, up)" by (cases p) auto
    obtain bad where bad: "(if \<not> is_bypassed (the_rules t) c \<and> \<not> is_rebind_exempt_domain c then extract_rebind_ip resp else ret None) = Some bad"
      using rebind_check_total by blast
    obtain x where x: "cache_insert (zip e) (the_cache t) c 1 resp 300 (now_ns e) = Some x" "lifetimes_ok x"
      using c by (auto simp: cache_insert_def insert_with_grace_def insert_form lifetimes_store)
    from t x(2) have "server_ok (t\<lparr>the_cache := x, prefetch_permits := prefetch_permits t + 1\<rparr>)" by (simp add: server_ok_def)
    with t show ?thesis
      unfolding run_prefetch_def Let_def t_def [symmetric] p option.case prod.case bad bind.bind_lunit x(1) by simp
  qed
qed

lemma run_swarm_ok: "outside_ok e \<Longrightarrow> server_ok s \<Longrightarrow> server_ok (run_swarm_check e d ip s)"
proof -
  assume e: "outside_ok e" and s: "server_ok s"
  have k: "first_key_ok (device_key e)" "first_key_ok (user_key e)" "first_key_ok (burst_key e)" "first_key_ok (swarm_key e)"
    using e by (simp_all add: outside_ok_def)
  from metrics_step_ok [OF server_facts(4) [OF s] k, where op = "Swarm d (now_ms e)"]
  have "server_ok (s\<lparr>the_metrics := snd (detect_swarm (swarm_key e) d (now_ms e) (the_metrics s))\<rparr>)"
    by (intro ok_metrics [OF s]) simp
  then show ?thesis by (auto simp: run_swarm_check_def Let_def kept split: prod.split)
qed

lemma run_refresh_ok: "outside_ok e \<Longrightarrow> server_ok s \<Longrightarrow> \<exists>s'. run_refresh e n q w s = Some s' \<and> server_ok s'"
proof -
  assume e: "outside_ok e" and s: "server_ok s"
  show ?thesis
  proof (cases "resolve e w")
    case (Some p)
    then obtain resp up where p: "resolve e w = Some (resp, up)" by (cases p) auto
    obtain bad where bad: "(if blocking_enabled (the_rules s) \<and> \<not> is_bypassed (the_rules s) n \<and> \<not> is_rebind_exempt_domain n
        then extract_rebind_ip resp else ret None) = Some bad" using rebind_check_total by blast
    from smart_lifetimes_ok [OF e s] obtain lt t where t: "smart_lifetimes e n resp s = Some (lt, t)" "server_ok t" by blast
    from keep_answer_ok [OF t(2)] obtain u where u: "keep_answer e n q resp lt (is_bypassed (the_rules s) n) t = Some u" "server_ok u" by blast
    have c: "server_ok (x\<lparr>the_cache := insert_negative (the_cache x) n q 120 (now_ns e)\<rparr>)" if "server_ok x" for x
      by (rule ok_cache [OF that lifetimes_negative [OF server_facts(3) [OF that]]])
    show ?thesis
      unfolding run_refresh_def p option.case prod.case Let_def bad bind.bind_lunit
      using s t u by (cases bad) (simp_all add: c kept)
  qed (simp add: run_refresh_def s)
qed

lemma server_step_ok:
  assumes e: "outside_ok e" and s: "server_ok s"
  shows "\<exists>s'. server_step e ev s = Some s' \<and> server_ok s'"
proof (cases ev)
  case (Answer w ip dev proto)
  from process_ok [OF e s, of w ip dev proto] show ?thesis unfolding Answer by auto
next
  case (Run i)
  show ?thesis
  proof (cases "i < length (tasks s)")
    case True
    define t where "t = s\<lparr>tasks := take i (tasks s) @ drop (i + 1) (tasks s)\<rparr>"
    have "filter is_prefetch (tasks s) = filter is_prefetch (take i (tasks s)) @ filter is_prefetch (tasks s ! i # drop (Suc i) (tasks s))"
      unfolding filter_append [symmetric] using id_take_nth_drop [OF True] by simp
    then have f: "length (filter is_prefetch (tasks s)) = length (filter is_prefetch (tasks t)) + (if is_prefetch (tasks s ! i) then 1 else 0)"
      by (simp add: t_def)
    show ?thesis
    proof (cases "tasks s ! i")
      case (Prefetch c)
      with f s have "server_ok (t\<lparr>prefetch_permits := prefetch_permits t + 1\<rparr>)" by (simp add: server_ok_def t_def is_prefetch_def)
      from run_prefetch_ok [OF this] show ?thesis by (simp add: Run True Prefetch t_def)
    next
      case (Swarm_Check d ip)
      with f s have "server_ok t" by (simp add: server_ok_def t_def is_prefetch_def)
      from run_swarm_ok [OF e this] show ?thesis by (simp add: Run True Swarm_Check t_def)
    next
      case (Refresh n q w)
      with f s have "server_ok t" by (simp add: server_ok_def t_def is_prefetch_def)
      from run_refresh_ok [OF e this] show ?thesis by (simp add: Run True Refresh t_def)
    qed
  qed (simp add: Run s)
next
  case (Switch_Blocking on)
  have "server_ok (on_rules (\<lambda>r. r\<lparr>blocking_enabled := on\<rparr>) s)"
    by (rule ok_on_rules [OF s]) (simp add: rules_ok_def filters_ok_def tables_ok_def)
  then show ?thesis by (simp add: Switch_Blocking)
next
  case (Lapse k)
  then show ?thesis using s by (simp add: server_ok_def)
next
  case (Forget_Verdict k)
  have "server_ok (on_rules (forget_negative k) s)"
    by (rule ok_on_rules [OF s]) (simp add: rules_ok_def filters_ok_def tables_ok_def forget_negative_def)
  then show ?thesis by (simp add: Forget_Verdict)
qed

lemma server_run_ok: "server_ok s \<Longrightarrow> \<forall>(e, ev) \<in> set evs. outside_ok e \<Longrightarrow> \<exists>s'. server_run evs s = Some s' \<and> server_ok s'"
proof (induction evs arbitrary: s)
  case (Cons x evs)
  obtain e ev where x: "x = (e, ev)" by (cases x)
  with server_step_ok [of e s ev] Cons.prems obtain t where "server_step e ev s = Some t" "server_ok t" by auto
  with Cons.IH [of t] Cons.prems(2) x show ?case by simp
qed simp

section \<open>Properties\<close>

text \<open>A world whose network is silent, and a server that has just started.\<close>

definition first_of :: "(string \<rightharpoonup> 'v) \<Rightarrow> string" where
  "first_of m = (if finite (dom m) then Min (dom m) else some_key m)"

lemma first_of_ok: "first_key_ok first_of" "finite (dom m) \<Longrightarrow> dom m \<noteq> {} \<Longrightarrow> first_of m \<in> dom m" "fk_ok first_of"
proof -
  show f: "finite (dom m) \<Longrightarrow> dom m \<noteq> {} \<Longrightarrow> first_of m \<in> dom m" for m :: "string \<rightharpoonup> 'v" by (simp add: first_of_def Min_in)
  show "first_key_ok (first_of :: (string \<rightharpoonup> 'v) \<Rightarrow> string)" unfolding first_key_ok_def
  proof (intro allI impI)
    fix m :: "string \<rightharpoonup> 'v" assume m: "m \<noteq> Map.empty"
    then show "first_of m \<in> dom m"
      using f [of m] some_key_ok [unfolded first_key_ok_def, rule_format, OF m] by (cases "finite (dom m)") (auto simp: first_of_def)
  qed
  show "fk_ok first_of" by (simp add: fk_ok_def first_of_def Min_in)
qed

definition silent_world :: outside where
  "silent_world = \<lparr>now_ms = 1700000000000, now_ns = 0, took_us = 900, waited_ms = 0, block_order = sorted_order, iq_key = first_of,
     seq_key = first_of, children_order = (\<lambda>m. []), fp_key = (\<lambda>m. V4 0), nx_key = (\<lambda>m. V4 0), device_key = first_of,
     user_key = first_of, burst_key = first_of, swarm_key = first_of, heat_key = first_of, passive_key = first_of, ttl_key = first_of,
     show_real = (\<lambda>n x. []), zip = (\<lambda>w. None), unzip = (\<lambda>w n. None), library = no_crypto, anchors = [],
     resolve = (\<lambda>w. None), resolve_race = (\<lambda>w. None), resolve_root_hints = (\<lambda>w. None), safe_browsing = (\<lambda>d. None)\<rparr>"

lemma silent_world_ok: "outside_ok silent_world"
  by (simp add: outside_ok_def silent_world_def first_of_ok sorted_order_ok)

definition new_server :: server where
  "new_server = \<lparr>the_rules = no_rules, the_cache = new_cache 0, fingerprint = tracker_new, the_metrics = metrics_new 0,
     the_wal = wal_new ''memory'' None, passive_dns = passive_new, learner = Map.empty, instant_cache = Map.empty,
     recent_queries = [], next_log_id = 0, heatmap = Map.empty, canary_domain = ''canary.amardns.internal'', canary_hits = 0,
     ttl_guard_enabled = True, rfc1035_8bit_labels = False, brain_prefetches = 0, fp_suppressions = 0, prefetch_permits = 16, tasks = []\<rparr>"

lemma new_server_ok: "server_ok new_server"
proof -
  have "rules_ok no_rules" using no_rules_ok [of "{}" "{}"] by (simp add: rules_ok_def no_rules_def)
  moreover have "metrics_ok (metrics_new 0)"
    by (rule metrics_run_ok [of first_of first_of first_of first_of 0 "[]", unfolded metrics_run_def fold_simps id_apply]) (rule first_of_ok)+
  ultimately show ?thesis
    by (simp add: server_ok_def new_server_def lifetimes_ok_def new_cache_def tracker_new_def passive_inv_def passive_new_def learner_inv_def)
qed



end
