(* ===== verification/Pipeline_Reply.thy ===== *)
theory Pipeline_Reply
  imports Pipeline_Sound
begin

text \<open>
  What the path of a query promises of its replies: every packet gets exactly one, it carries the
  query's identifier, what is blocked never leaves the server, and what came from outside is
  sent on only if it passed the rebind guard and the validation.
\<close>

section \<open>Replies of the stages\<close>

text \<open>Every reply of the stage, from any state, has the property.\<close>

definition replies :: "(reply \<Rightarrow> bool) \<Rightarrow> stage \<Rightarrow> bool" where
  "replies Q f \<longleftrightarrow> (\<forall>s r s'. f s = Some (Some r, s') \<longrightarrow> Q r)"

lemma repliesI: "(\<And>s r s'. f s = Some (Some r, s') \<Longrightarrow> Q r) \<Longrightarrow> replies Q f"
  by (auto simp: replies_def)

lemma repliesD: "replies Q f \<Longrightarrow> f s = Some (Some r, s') \<Longrightarrow> Q r"
  by (auto simp: replies_def)

lemma stages_replies: "(\<And>f. f \<in> set fs \<Longrightarrow> replies Q f) \<Longrightarrow> replies Q (stages fs)"
proof (induction fs)
  case Nil
  show ?case by (simp add: replies_def)
next
  case (Cons f fs)
  show ?case
  proof (rule repliesI)
    fix s r s' assume "stages (f # fs) s = Some (Some r, s')"
    then consider "f s = Some (Some r, s')" | t where "f s = Some (None, t)" "stages fs t = Some (Some r, s')"
      by (auto split: Option.bind_splits option.splits)
    then show "Q r" by cases (use Cons in \<open>auto dest: repliesD\<close>)
  qed
qed

section \<open>The identifier\<close>

lemma find_opt_start: "find_opt n w a = Some (Some (ne, rl)) \<Longrightarrow> a < ne"
proof (induction n arbitrary: a)
  case (Suc n)
  from Suc.prems obtain p where p: "skip_dns_name w a = Some (Some p)"
    by (auto split: if_splits Option.bind_splits option.splits)
  from skip_dns_name_progress [OF this] have "a < p" by simp
  with Suc.prems p Suc.IH [of "p + 10 + unat (get16 w (p + 8))"] show ?case
    by (auto simp: Let_def split: if_splits)
qed simp

lemma append_option_prefix: "append_option w x = Some w' \<Longrightarrow> 12 \<le> length w \<Longrightarrow> take 10 w' = take 10 w"
proof -
  assume a: "append_option w x = Some w'" and l: "12 \<le> length w"
  have new: "ede_append_new_opt w x = Some w' \<Longrightarrow> take 10 w' = take 10 w"
    using l by (auto simp: ede_append_new_opt_def Let_def)
  obtain r where r: "skip_to_additional w = Some r" using skip_to_additional_total [OF l] by blast
  show ?thesis
  proof (cases r)
    case None
    with a r new show ?thesis by (simp add: append_option_def)
  next
    case (Some p)
    with r l have p: "12 \<le> p" by (auto elim: skip_to_additional_Some)
    obtain f where f: "find_opt (unat (get16 w 10)) w p = Some f" using find_opt_total by blast
    show ?thesis
    proof (cases f)
      case None
      with a r Some f l new show ?thesis by (simp add: append_option_def)
    next
      case (Some g)
      then obtain ne rl where g: "f = Some (ne, rl)" by (cases g) auto
      from find_opt_start [of "unat (get16 w 10)" w p ne rl] find_opt_bound [of "unat (get16 w 10)" w p ne rl] f g
      have ne: "p < ne" "ne + 10 \<le> length w" by simp_all
      with a r \<open>r = Some p\<close> f g l p show ?thesis
        by (auto simp: append_option_def splice_at_def Let_def take_append split: if_splits)
    qed
  qed
qed

lemma ede_prefix: "append_ede_to_response w c t = Some w' \<Longrightarrow> take 2 w' = take 2 w"
proof -
  assume a: "append_ede_to_response w c t = Some w'"
  then have "12 \<le> length w \<Longrightarrow> take 10 w' = take 10 w"
    by (auto simp: append_ede_to_response_def Let_def intro: append_option_prefix)
  then have "12 \<le> length w \<Longrightarrow> take 2 (take 10 w') = take 2 (take 10 w)" by simp
  with a show ?thesis by (cases "12 \<le> length w") (simp_all add: append_ede_to_response_def)
qed

lemma ede_if_prefix: "append_ede_if_edns w q c t = Some w' \<Longrightarrow> take 2 w' = take 2 w"
  by (auto simp: append_ede_if_edns_def dest: ede_prefix split: Option.bind_splits if_splits)

definition same_id :: "bytes \<Rightarrow> reply \<Rightarrow> bool" where
  "same_id w r \<longleftrightarrow> (2 \<le> length (reply_wire r) \<longrightarrow> take 2 (reply_wire r) = take 2 w)"

definition well_asked :: "ask \<Rightarrow> bool" where
  "well_asked a \<longleftrightarrow> 12 \<le> length (ask_wire a) \<and> to_be16 (ask_tx a) = take 2 (ask_wire a)"

lemma built_id:
  assumes "12 \<le> length w"
  shows "build_blocked_response w nx = Some x \<Longrightarrow> take 2 x = take 2 w"
    "build_servfail_response w = Some x \<Longrightarrow> take 2 x = take 2 w"
    "build_sinkhole_response w = Some x \<Longrightarrow> take 2 x = take 2 w"
    "build_ddr_response w = Some (Some x) \<Longrightarrow> take 2 x = take 2 w"
    "build_any_minimal_response w = Some (Some x) \<Longrightarrow> take 2 x = take 2 w"
proof -
  have two: "length (take 2 w) = 2" using assms by simp
  show b: "build_blocked_response w nx = Some x \<Longrightarrow> take 2 x = take 2 w" for nx
    using blocked_form(1) [OF assms, of nx] two by auto
  show "build_servfail_response w = Some x \<Longrightarrow> take 2 x = take 2 w"
    using blocked_form(2) [OF assms] two by auto
  obtain p where p: "parse_dns_query w = Some p" using parse_query_total' by blast
  show "build_sinkhole_response w = Some x \<Longrightarrow> take 2 x = take 2 w"
  proof (cases p)
    case None
    then show "build_sinkhole_response w = Some x \<Longrightarrow> ?thesis" using assms p b by (simp add: build_sinkhole_response_def)
  next
    case (Some q)
    show "build_sinkhole_response w = Some x \<Longrightarrow> ?thesis"
    proof (cases "question q")
      case None
      then show "build_sinkhole_response w = Some x \<Longrightarrow> ?thesis" using assms p Some b by (simp add: build_sinkhole_response_def)
    next
      case (Some r)
      then show "build_sinkhole_response w = Some x \<Longrightarrow> ?thesis"
        using sinkhole_form [of w q r] p \<open>p = Some q\<close> two by (auto simp: sinkhole_header_def)
    qed
  qed
  show "build_ddr_response w = Some (Some x) \<Longrightarrow> take 2 x = take 2 w"
    "build_any_minimal_response w = Some (Some x) \<Longrightarrow> take 2 x = take 2 w"
    using assms two by (auto simp: build_ddr_response_def build_any_minimal_response_def p Let_def
        split: option.splits if_splits Option.bind_splits)
qed

lemma sinkhole_id: "12 \<le> length (ask_wire a) \<Longrightarrow> sinkhole_if_edns a x = Some w \<Longrightarrow> take 2 w = take 2 (ask_wire a)"
  "12 \<le> length (ask_wire a) \<Longrightarrow> sinkhole_ede a x = Some w \<Longrightarrow> take 2 w = take 2 (ask_wire a)"
  using built_id(3) [of "ask_wire a"]
  by (auto simp: sinkhole_if_edns_def sinkhole_ede_def dest!: ede_prefix ede_if_prefix split: Option.bind_splits)

lemma servfail_id: "12 \<le> length w \<Longrightarrow> build_servfail_response w = Some x \<Longrightarrow> append_ede_to_response x c t = Some y \<Longrightarrow> take 2 y = take 2 w"
  using built_id(2) ede_prefix by metis

lemma address_id: "well_asked a \<Longrightarrow> address_reply a w = Some x \<Longrightarrow> 2 \<le> length x \<Longrightarrow> take 2 x = take 2 (ask_wire a)"
  by (auto simp: address_reply_form well_asked_def Let_def take_append split: if_splits)

lemma echo_id: "echo_question a w = Some x \<Longrightarrow> take 2 x = take 2 w \<or> length w < 2"
  by (auto simp: echo_question_form take_append split: if_splits)

lemma instant_id: "get_blocked_response d q tx now s = Some w \<Longrightarrow> 2 \<le> length w \<Longrightarrow> take 2 w = to_be16 tx"
  by (auto simp: get_blocked_response_def split: option.splits if_splits)

lemma reply_simps [simp]: "reply_wire (plain_reply w st x) = w" "cache_status (plain_reply w st x) = st"
    "reply_dnssec (plain_reply w st x) = ''INSECURE''" "block_reason (plain_reply w st x) = x"
  by (simp_all add: plain_reply_def)

lemmas stage_cases = Option.bind_splits option.splits if_splits prod.splits sum.splits cache_lookup.splits

lemma id_discovery: "well_asked a \<Longrightarrow> replies (same_id (ask_wire a)) (discovery e a)"
  by (rule repliesI) (auto simp: discovery_def Let_def same_id_def well_asked_def built_id split: stage_cases)

lemma id_silent: "replies Q (observe_query e a)" "replies Q (watch_swarm a)"
  by (auto simp: replies_def observe_query_def watch_swarm_def Let_def split: stage_cases)

lemma id_canary: "well_asked a \<Longrightarrow> replies (same_id (ask_wire a)) (canary e a)"
  by (rule repliesI) (auto simp: canary_def Let_def same_id_def well_asked_def split: stage_cases dest!: ede_prefix built_id(1) [rotated])

lemma id_policy: "well_asked a \<Longrightarrow> replies (same_id (ask_wire a)) (policy e a)"
  by (rule repliesI) (auto simp: policy_def Let_def same_id_def well_asked_def sinkhole_id split: stage_cases)

lemma id_instant: "well_asked a \<Longrightarrow> replies (same_id (ask_wire a)) (instant_blocker e a)"
  by (rule repliesI) (auto simp: instant_blocker_def Let_def same_id_def well_asked_def sinkhole_id echo_question_form
      dest: instant_id split: stage_cases)

lemma id_negative: "well_asked a \<Longrightarrow> replies (same_id (ask_wire a)) (negative_hit e a)"
  by (rule repliesI) (auto simp: negative_hit_def Let_def same_id_def well_asked_def sinkhole_id split: stage_cases bool.splits)

lemma id_browse: "well_asked a \<Longrightarrow> replies (same_id (ask_wire a)) (browse_check e a)"
  by (rule repliesI) (auto simp: browse_check_def Let_def same_id_def well_asked_def sinkhole_id split: stage_cases)

lemma id_intercept: "well_asked a \<Longrightarrow> replies (same_id (ask_wire a)) (intercept e a src ip)"
  by (rule repliesI) (auto simp: intercept_def Let_def same_id_def well_asked_def sinkhole_id split: stage_cases)

lemma id_serve: "well_asked a \<Longrightarrow> replies (same_id (ask_wire a)) (serve_cached e a st w)"
  by (rule repliesI) (auto simp: serve_cached_def Let_def same_id_def intro: address_id split: Option.bind_splits)

lemma id_lookup: "well_asked a \<Longrightarrow> replies (same_id (ask_wire a)) (cache_lookup e a)"
proof -
  assume a: "well_asked a"
  show ?thesis
    by (rule repliesI) (auto simp: cache_lookup_def Let_def dest: repliesD [OF id_intercept [OF a]] repliesD [OF id_serve [OF a]]
        split: stage_cases)
qed

lemma id_refusals: "well_asked a \<Longrightarrow> replies (same_id (ask_wire a)) (reject_spoof e a up q)"
  "well_asked a \<Longrightarrow> replies (same_id (ask_wire a)) (unreachable e a)"
  "well_asked a \<Longrightarrow> replies (same_id (ask_wire a)) (refuse_bogus e a d)"
  by (rule repliesI, (auto simp: reject_spoof_def unreachable_def refuse_bogus_def Let_def same_id_def
      well_asked_def dest!: servfail_id split: Option.bind_splits) [1])+

lemma id_blocks: "well_asked a \<Longrightarrow> replies (same_id (ask_wire a)) (block_flux e a m)"
  "well_asked a \<Longrightarrow> replies (same_id (ask_wire a)) (block_rebind e a ip)"
  by (rule repliesI, (auto simp: block_flux_def block_rebind_def Let_def same_id_def well_asked_def sinkhole_id
      split: Option.bind_splits prod.splits) [1])+

lemma id_deliver: "well_asked a \<Longrightarrow> replies (same_id (ask_wire a)) (deliver e a up rc w d)"
  by (rule repliesI) (auto simp: deliver_def Let_def same_id_def intro: address_id split: Option.bind_splits prod.splits)

lemma id_validated: "well_asked a \<Longrightarrow> replies (same_id (ask_wire a)) (validated_answer e a up rc w)"
proof -
  assume a: "well_asked a"
  show ?thesis
    by (rule repliesI) (auto simp: validated_answer_def Let_def dest: repliesD [OF id_refusals(3) [OF a]] repliesD [OF id_deliver [OF a]]
        split: Option.bind_splits if_splits)
qed

lemma lifetime_guard_reply: "lifetime_guard e a w s = Some (Some r, w', s') \<Longrightarrow> \<exists>m t. block_flux e a m s = Some (Some r, t)"
  by (auto simp: lifetime_guard_def split: Option.bind_splits option.splits if_splits prod.splits)

lemma id_upstream: "well_asked a \<Longrightarrow> replies (same_id (ask_wire a)) (ask_upstream e a)"
proof (rule repliesI)
  fix s r s' assume a: "well_asked a" and u: "ask_upstream e a s = Some (Some r, s')"
  obtain x t where x: "resolve_chain e (ask_wire a) s = (x, t)" by fastforce
  have "upstream_answer e a up w t = Some (Some r, s') \<Longrightarrow> same_id (ask_wire a) r" for up w
    by (auto simp: upstream_answer_def Let_def dest!: lifetime_guard_reply dest: repliesD [OF id_refusals(1) [OF a]]
        repliesD [OF id_blocks(1) [OF a]] repliesD [OF id_blocks(2) [OF a]] repliesD [OF id_validated [OF a]] split: Option.bind_splits option.splits prod.splits)
  with u x show "same_id (ask_wire a) r"
    by (auto simp: ask_upstream_def dest: repliesD [OF id_refusals(2) [OF a]] split: option.splits prod.splits)
qed

lemma pipeline_id: "well_asked a \<Longrightarrow> replies (same_id (ask_wire a)) (stages (pipeline e a))"
  by (rule stages_replies)
    (auto simp: pipeline_def id_discovery id_silent id_canary id_policy id_instant id_negative id_browse id_lookup id_upstream)

section \<open>Exactly one reply\<close>

text \<open>The last stage always answers.\<close>

lemma rejection_answers: "reject_spoof e a up q s = Some (r, s') \<Longrightarrow> r \<noteq> None" "unreachable e a s = Some (r, s') \<Longrightarrow> r \<noteq> None"
  "refuse_bogus e a d s = Some (r, s') \<Longrightarrow> r \<noteq> None" "block_flux e a m s = Some (r, s') \<Longrightarrow> r \<noteq> None"
  "block_rebind e a ip s = Some (r, s') \<Longrightarrow> r \<noteq> None" "deliver e a up rc w d s = Some (r, s') \<Longrightarrow> r \<noteq> None"
  by (auto simp: reject_spoof_def unreachable_def refuse_bogus_def block_flux_def block_rebind_def deliver_def Let_def
      split: Option.bind_splits prod.splits)

lemma validated_answers: "validated_answer e a up rc w s = Some (r, s') \<Longrightarrow> r \<noteq> None"
  by (auto simp: validated_answer_def Let_def split: Option.bind_splits if_splits dest: rejection_answers)

lemma upstream_answers: "ask_upstream e a s = Some (r, s') \<Longrightarrow> r \<noteq> None"
proof -
  have "upstream_answer e a up w t = Some (r, s') \<Longrightarrow> r \<noteq> None" for up w t
    by (auto simp: upstream_answer_def Let_def split: Option.bind_splits option.splits prod.splits dest: rejection_answers validated_answers)
  then show "ask_upstream e a s = Some (r, s') \<Longrightarrow> r \<noteq> None"
    by (auto simp: ask_upstream_def split: option.splits prod.splits dest: rejection_answers)
qed

lemma stages_answer: "(\<And>s r s'. f s = Some (r, s') \<Longrightarrow> r \<noteq> None) \<Longrightarrow> stages (fs @ [f]) s = Some (r, s') \<Longrightarrow> r \<noteq> None"
proof (induction fs arbitrary: s)
  case Nil
  then show ?case by (force split: Option.bind_splits option.splits)
next
  case (Cons g fs)
  from Cons.prems(2) consider x where "r = Some x" | t where "stages (fs @ [f]) t = Some (r, s')"
    by (auto split: Option.bind_splits option.splits)
  then show ?case by cases (use Cons.IH Cons.prems(1) in auto)
qed

lemma pipeline_answers: "stages (pipeline e a) s = Some (r, s') \<Longrightarrow> r \<noteq> None"
  by (rule stages_answer [of "ask_upstream e a" "butlast (pipeline e a)" s r s', OF upstream_answers]) (simp_all add: pipeline_def)

lemma tx_bytes: "2 \<le> length w \<Longrightarrow> to_be16 (get16 w 0) = take 2 w"
  by (cases w; cases "tl w") (auto simp: get16_def)

lemma admitted:
  assumes "admit e w ip dev proto s = Some (Inr a, t)"
  shows "ask_wire a = w \<and> ask_ip a = ip \<and> well_asked a \<and> parse_dns_query_opts w (rfc1035_8bit_labels s) \<noteq> Some None"
proof -
  obtain p where p: "parse_dns_query_opts w (rfc1035_8bit_labels s) = Some p" using parse_query_total by blast
  with assms obtain q where q: "p = Some q"
    by (cases p) (auto simp: admit_def Let_def turn_away_def split: Option.bind_splits)
  note P = parsed_length [of w _ q, OF p [unfolded q]]
  have "ask_wire a = w \<and> ask_ip a = ip \<and> ask_tx a = tx_id q"
    using assms p q by (auto simp: admit_def Let_def turn_away_def split: Option.bind_splits if_splits option.splits)
  with P tx_bytes [of w] p q show ?thesis by (simp add: well_asked_def)
qed

lemma set_rcode_id: "4 \<le> length w \<Longrightarrow> set_rcode w c = Some x \<Longrightarrow> take 2 x = take 2 w"
  by (auto simp: set_rcode_form)

lemma turned_away:
  assumes "admit e w ip dev proto s = Some (Inl r, t)" and w: "12 \<le> length w"
  shows "same_id w r"
proof -
  obtain f where f: "build_servfail_response w = Some f" "length f = length w" "take 2 f = take 2 w" using servfail_length [OF w] by blast
  then have "set_rcode f c = Some x \<Longrightarrow> take 2 x = take 2 w" for c x using set_rcode_id [of f c x] w by simp
  with assms f show ?thesis
    by (auto simp: admit_def Let_def turn_away_def same_id_def split: Option.bind_splits if_splits option.splits)
qed

section \<open>Queries do not change the configuration\<close>

definition config_kept :: "server \<Rightarrow> server \<Rightarrow> bool" where
  "config_kept s s' \<longleftrightarrow> same_config (the_rules s) (the_rules s') \<and> canary_domain s' = canary_domain s \<and>
     ttl_guard_enabled s' = ttl_guard_enabled s \<and> rfc1035_8bit_labels s' = rfc1035_8bit_labels s"

definition keeps_config :: "stage \<Rightarrow> bool" where
  "keeps_config f \<longleftrightarrow> (\<forall>s r s'. filters_ok (the_rules s) \<longrightarrow> f s = Some (r, s') \<longrightarrow> config_kept s s')"

lemma keeps_configI: "(\<And>s r s'. filters_ok (the_rules s) \<Longrightarrow> f s = Some (r, s') \<Longrightarrow> config_kept s s') \<Longrightarrow> keeps_config f"
  by (auto simp: keeps_config_def)

lemma keeps_configD: "keeps_config f \<Longrightarrow> f s = Some (r, s') \<Longrightarrow> filters_ok (the_rules s) \<Longrightarrow> config_kept s s'"
  by (auto simp: keeps_config_def)

lemma config_refl [simp]: "config_kept s s"
  by (simp add: config_kept_def)

lemma config_trans: "config_kept s t \<Longrightarrow> config_kept t u \<Longrightarrow> config_kept s u"
  unfolding config_kept_def by (auto intro: same_config_trans)

lemma config_filters: "config_kept s t \<Longrightarrow> filters_ok (the_rules t) = filters_ok (the_rules s)"
  using config_facts by (auto simp: config_kept_def)

lemma stages_keep: "(\<And>f. f \<in> set fs \<Longrightarrow> keeps_config f) \<Longrightarrow> keeps_config (stages fs)"
proof (induction fs)
  case Nil
  show ?case by (rule keeps_configI) simp
next
  case (Cons f fs)
  show ?case
  proof (rule keeps_configI)
    fix s r s' assume s: "filters_ok (the_rules s)" and "stages (f # fs) s = Some (r, s')"
    then obtain x t where t: "f s = Some (x, t)" "x = None \<longrightarrow> stages fs t = Some (r, s')" "x \<noteq> None \<longrightarrow> s' = t"
      by (auto split: Option.bind_splits option.splits)
    have k: "config_kept s t" using keeps_configD [OF Cons.prems [of f] t(1) s] by simp
    show "config_kept s s'"
    proof (cases x)
      case None
      with t(2) Cons.IH Cons.prems s config_filters [OF k] have "config_kept t s'" by (auto intro: keeps_configD)
      with k show ?thesis by (rule config_trans)
    qed (use t(3) k in simp)
  qed
qed

text \<open>Effects that leave the configuration alone.\<close>

named_theorems frame

lemma config_rules: "same_config (the_rules s) (f (the_rules s)) \<Longrightarrow> config_kept s (on_rules f s)"
  by (simp add: config_kept_def on_rules_def)

lemma config_on_rules [frame]: "config_kept s0 s \<Longrightarrow> same_config (the_rules s) (f (the_rules s)) \<Longrightarrow> config_kept s0 (on_rules f s)"
  using config_trans config_rules by blast

lemma config_fields [frame]: "config_kept s0 s \<Longrightarrow> config_kept s0 (s\<lparr>the_metrics := m\<rparr>)" "config_kept s0 s \<Longrightarrow> config_kept s0 (s\<lparr>the_cache := c\<rparr>)"
  "config_kept s0 s \<Longrightarrow> config_kept s0 (s\<lparr>learner := l\<rparr>)" "config_kept s0 s \<Longrightarrow> config_kept s0 (s\<lparr>passive_dns := p\<rparr>)"
  "config_kept s0 s \<Longrightarrow> config_kept s0 (s\<lparr>fingerprint := tr\<rparr>)" "config_kept s0 s \<Longrightarrow> config_kept s0 (s\<lparr>canary_hits := n\<rparr>)"
  "config_kept s0 s \<Longrightarrow> config_kept s0 (s\<lparr>prefetch_permits := k\<rparr>)" "config_kept s0 s \<Longrightarrow> config_kept s0 (spawn t s)"
  "config_kept s0 s \<Longrightarrow> config_kept s0 (insert_blocked_response d q w now s)"
  by (simp_all add: config_kept_def spawn_def insert_blocked_response_def)

lemma same_config_logs [frame]: "same_config r (log_action k t now r)" "same_config r (log_anomaly k t now r)"
  "same_config r (count_reason x r)" "same_config r (r\<lparr>the_brain := b\<rparr>)" "same_config r (r\<lparr>threat_blocks := n\<rparr>)" "same_config r (r\<lparr>dcc_hits := n\<rparr>)"
  by (simp_all add: same_config_def log_action_def log_anomaly_def count_reason_def Let_def)

lemma config_effects [frame]: "config_kept s0 s \<Longrightarrow> config_kept s0 (tally c s)" "config_kept s0 s \<Longrightarrow> config_kept s0 (latency e s)"
  "config_kept s0 s \<Longrightarrow> config_kept s0 (count_validation d s)" "config_kept s0 s \<Longrightarrow> config_kept s0 (bump_threat s)"
  "config_kept s0 s \<Longrightarrow> config_kept s0 (bump_dcc s)" "config_kept s0 s \<Longrightarrow> config_kept s0 (snd (response_code e ip rc s))"
  "config_kept s0 s \<Longrightarrow> config_kept s0 (flag_asker e a x s)" "config_kept s0 s \<Longrightarrow> config_kept s0 (wal_query a rc l t s)"
  "config_kept s0 s \<Longrightarrow> config_kept s0 (wal_threat a x s)" "config_kept s0 s \<Longrightarrow> config_kept s0 (action e k t' s)"
  "config_kept s0 s \<Longrightarrow> config_kept s0 (anomaly e k t' s)" "config_kept s0 s \<Longrightarrow> config_kept s0 (detected e a x s)"
  "config_kept s0 s \<Longrightarrow> config_kept s0 (negative e a ttl s)"
  by (simp_all add: tally_def latency_def count_validation_def bump_threat_def bump_dcc_def response_code_def flag_asker_def wal_query_def
      wal_threat_def action_def anomaly_def detected_def negative_def frame frame_block [THEN conjunct1] split: prod.split)
    (simp_all add: config_kept_def)

lemma config_log [frame]: "config_kept s0 s \<Longrightarrow> config_kept s0 (log_query_dnssec d q c p st rc l r u ds al tg ad now s)"
  "config_kept s0 s \<Longrightarrow> config_kept s0 (log_local e a st rc l r u s)" "config_kept s0 s \<Longrightarrow> config_kept s0 (log_validated e a st rc l r u v s)"
  by (simp_all add: log_local_def log_validated_def log_query_dnssec_def config_kept_def Let_def)

lemma config_heatmap [frame]: "config_kept s0 s \<Longrightarrow> config_kept s0 (record_heatmap fh fk d now s)"
proof -
  assume s: "config_kept s0 s"
  have "config_kept s0 (on_rules (\<lambda>r. r\<lparr>the_brain := reinforce_safe fk (clean_of d) now (the_brain r)\<rparr>) s)"
    by (intro config_on_rules s same_config_logs)
  then show ?thesis using s unfolding record_heatmap_def Let_def by (auto simp: config_kept_def)
qed

lemma config_track [frame]: "config_kept s0 s \<Longrightarrow> config_kept s0 (track_client e a s)"
  by (auto simp: track_client_def Let_def frame split: prod.split option.split)

lemma keep_local: "keeps_config (discovery e a)" "keeps_config (canary e a)" "keeps_config (watch_swarm a)"
  "keeps_config (instant_blocker e a)" "keeps_config (intercept e a src ip)" "keeps_config (serve_cached e a st w)"
  "keeps_config (reject_spoof e a up q)" "keeps_config (unreachable e a)" "keeps_config (refuse_bogus e a d)"
  "keeps_config (block_flux e a m)" "keeps_config (block_rebind e a ip)"
  by (rule keeps_configI, (auto simp: discovery_def canary_def watch_swarm_def instant_blocker_def intercept_def serve_cached_def
      reject_spoof_def unreachable_def refuse_bogus_def block_flux_def block_rebind_def Let_def frame
      split: Option.bind_splits option.splits if_splits prod.splits) [1])+

lemma keep_observe: "keeps_config (observe_query e a)"
proof -
  have one: "prefetch e c s = Some t \<Longrightarrow> config_kept s0 s \<Longrightarrow> config_kept s0 t" for s0 s t c
    by (auto simp: prefetch_def frame split: Option.bind_splits if_splits)
  have all: "prefetch_all e cs s = Some t \<Longrightarrow> config_kept s0 s \<Longrightarrow> config_kept s0 t" for s0 s t cs
    by (induction cs arbitrary: s) (auto split: Option.bind_splits dest: one)
  have brain: "config_kept s (on_rules (\<lambda>r. r\<lparr>the_brain := f r\<rparr>) s)" for s f
    by (intro config_on_rules config_refl same_config_logs)
  show ?thesis
    by (rule keeps_configI) (auto simp: observe_query_def Let_def intro!: config_heatmap config_track
        elim!: all intro: brain split: Option.bind_splits)
qed

lemma keep_policy: "keeps_config (policy e a)"
proof (rule keeps_configI)
  fix s r s' assume f: "filters_ok (the_rules s)" and p: "policy e a s = Some (r, s')"
  obtain b n x u where c: "check_domain (block_order e) (iq_key e) (show_real e) (ask_name a) (now_ms e) (the_rules s) = Some ((b, n, x), u)"
    using check_verdict [OF f] by (metis prod_cases3)
  have "config_kept s (s\<lparr>the_rules := u\<rparr>)" using check_frame [OF f c] by (simp add: config_kept_def after_decision_def)
  with p show "config_kept s s'" by (auto simp: policy_def c Let_def frame split: Option.bind_splits if_splits)
qed

lemma keep_negative: "keeps_config (negative_hit e a)"
  by (rule keeps_configI) (auto simp: negative_hit_def Let_def frame split: Option.bind_splits if_splits prod.splits bool.splits)

lemma keep_browse: "keeps_config (browse_check e a)"
  by (rule keeps_configI) (auto simp: browse_check_def Let_def frame split: Option.bind_splits if_splits option.splits)

lemma keep_lookup: "keeps_config (cache_lookup e a)"
proof (rule keeps_configI)
  fix s r s' assume f: "filters_ok (the_rules s)" and p: "cache_lookup e a s = Some (r, s')"
  obtain x c where g: "get_with_swr (unzip e) (the_cache s) (ask_name a) (ask_type a) (ask_tx a) (now_ns e) = Some (x, c)"
    using p by (auto simp: cache_lookup_def split: Option.bind_splits)
  define t where "t = s\<lparr>the_cache := c\<rparr>"
  have t: "config_kept s t" "filters_ok (the_rules t)" using f by (simp_all add: t_def frame)
  have "config_kept t s'"
    using p t(2) unfolding cache_lookup_def g bind.bind_lunit prod.case Let_def t_def [symmetric]
    by (auto simp: frame split: Option.bind_splits option.splits cache_lookup.splits dest: keeps_configD [OF keep_local(5)] keeps_configD [OF keep_local(6)])
  with t(1) show "config_kept s s'" by (rule config_trans)
qed

lemma response_kept: "response_code e ip rc s = (f, t) \<Longrightarrow> config_kept s0 s \<Longrightarrow> config_kept s0 t"
  using config_effects(6) by (metis snd_conv)

lemma note_answer_kept: "note_answer e a w s = Some t \<Longrightarrow> config_kept s t"
proof -
  assume n: "note_answer e a w s = Some t"
  obtain fl u where r: "response_code e (ask_ip a) (answer_rcode w) s = (fl, u)" by fastforce
  have u: "config_kept s u" by (rule response_kept [OF r config_refl])
  have ad: "note_addresses e a ips x = Some y \<Longrightarrow> config_kept s x \<Longrightarrow> config_kept s y" for ips x y
    by (auto simp: note_addresses_def Let_def frame split: Option.bind_splits if_splits option.splits prod.splits)
  have bu: "config_kept s x \<Longrightarrow> config_kept s (note_burst e a rc x)" for rc x
    by (auto simp: note_burst_def Let_def frame split: prod.split)
  from n u show ?thesis
    by (auto simp: note_answer_def r Let_def frame intro!: bu elim!: ad split: Option.bind_splits option.splits if_splits)
qed

lemma lifetime_guard_kept: "lifetime_guard e a w s = Some (r, w', t) \<Longrightarrow> filters_ok (the_rules s) \<Longrightarrow> config_kept s t"
  by (auto simp: lifetime_guard_def split: Option.bind_splits option.splits if_splits prod.splits dest: keeps_configD [OF keep_local(10)])

lemma lifetimes_kept: "smart_lifetimes e n w s = Some (lt, t) \<Longrightarrow> config_kept s t"
  using smart_lifetimes_total [of e n w s] by (auto simp: frame)

lemma keep_answer_kept: "keep_answer e n q w lt al s = Some t \<Longrightarrow> config_kept s t"
  by (cases lt) (auto simp: keep_answer_def frame split: Option.bind_splits)

lemma keep_deliver: "keeps_config (deliver e a up rc w d)"
proof (rule keeps_configI)
  fix s r s' assume p: "deliver e a up rc w d s = Some (r, s')"
  then obtain lt t where t: "smart_lifetimes e (ask_name a) w s = Some (lt, t)" by (auto simp: deliver_def split: Option.bind_splits)
  define v where "v = (if rc = 0 then t\<lparr>the_cache := invalidate_negative_qtype (the_cache t) (ask_name a) (ask_type a)\<rparr> else t)"
  from p t obtain u where k: "keep_answer e (ask_name a) (ask_type a) w lt (is_bypassed (the_rules v) (ask_name a)) v = Some u"
    and u: "s' = latency e (log_validated e a ''RESOLVED'' rc (waited e) (if status d = Bogus then ''bogus_dnssec'' else ''none'') up d
      (wal_query a rc (waited e) ''RESOLVED'' u))"
    unfolding deliver_def t bind.bind_lunit prod.case Let_def v_def [symmetric] by (auto split: Option.bind_splits)
  have "config_kept s v" using lifetimes_kept [OF t] by (simp add: v_def frame)
  from config_trans [OF this keep_answer_kept [OF k]] show "config_kept s s'" unfolding u by (intro frame)
qed

lemma keep_validated: "keeps_config (validated_answer e a up rc w)"
proof (rule keeps_configI)
  fix s r s' assume f: "filters_ok (the_rules s)" and v: "validated_answer e a up rc w s = Some (r, s')"
  then obtain d where "config_kept (count_validation d s) s'"
  proof -
    have "filters_ok (the_rules (count_validation d s))" for d using f by (simp add: count_validation_def)
    with v that show thesis
      by (auto simp: validated_answer_def Let_def split: Option.bind_splits if_splits
          dest: keeps_configD [OF keep_local(9)] keeps_configD [OF keep_deliver])
  qed
  from config_trans [OF config_effects(3) [OF config_refl] this] show "config_kept s s'" .
qed

lemma keep_upstream: "keeps_config (ask_upstream e a)"
proof (rule keeps_configI)
  fix s r s' assume f: "filters_ok (the_rules s)" and u: "ask_upstream e a s = Some (r, s')"
  obtain x t where x: "resolve_chain e (ask_wire a) s = (x, t)" by fastforce
  have t: "config_kept s t" using x by (auto simp: resolve_chain_def frame split: option.splits)
  then have ft: "filters_ok (the_rules t)" using f config_filters by simp
  have "config_kept t s'" if "upstream_answer e a up w t = Some (r, s')" for up w
  proof -
    obtain ot where ot: "other_question a w = Some ot" using other_question_total by blast
    show ?thesis
    proof (cases ot)
      case (Some q)
      with that ot keeps_configD [OF keep_local(7) _ ft] show ?thesis by (simp add: upstream_answer_def)
    next
      case None
      with that ot obtain v g w' y where v: "note_answer e a w t = Some v" "lifetime_guard e a w v = Some (g, w', y)"
        by (auto simp: upstream_answer_def Let_def split: Option.bind_splits prod.splits)
      have k: "config_kept t v" by (rule note_answer_kept [OF v(1)])
      then have fv: "filters_ok (the_rules v)" using ft config_filters by simp
      have k2: "config_kept t y" by (rule config_trans [OF k lifetime_guard_kept [OF v(2) fv]])
      then have fy: "filters_ok (the_rules y)" using ft config_filters by simp
      from that ot None v have "config_kept y s'"
        by (auto simp: upstream_answer_def Let_def split: Option.bind_splits option.splits
            dest: keeps_configD [OF keep_local(11) _ fy] keeps_configD [OF keep_validated _ fy])
      with k2 show ?thesis by (rule config_trans)
    qed
  qed
  with u x keeps_configD [OF keep_local(8) _ ft] have "config_kept t s'" by (auto simp: ask_upstream_def split: option.splits)
  with t show "config_kept s s'" by (rule config_trans)
qed

lemma pipeline_keeps: "keeps_config (stages (pipeline e a))"
  by (rule stages_keep)
    (auto simp: pipeline_def keep_local keep_observe keep_policy keep_negative keep_browse keep_lookup keep_upstream)

lemma admit_kept: "admit e w ip dev proto s = Some (x, t) \<Longrightarrow> config_kept s t"
  by (auto simp: admit_def turn_away_def Let_def frame split: Option.bind_splits option.splits if_splits)

lemma process_kept: "filters_ok (the_rules s) \<Longrightarrow> process_query e w ip dev proto s = Some (r, s') \<Longrightarrow> config_kept s s'"
proof -
  assume f: "filters_ok (the_rules s)" and p: "process_query e w ip dev proto s = Some (r, s')"
  then obtain x t where x: "admit e w ip dev proto s = Some (x, t)" by (auto simp: process_query_def split: Option.bind_splits)
  note k = admit_kept [OF x]
  from p x k show ?thesis
    using keeps_configD [OF pipeline_keeps] config_filters [OF k] f
    by (cases x) (auto simp: process_query_def intro: config_trans)
qed

section \<open>Only what passed the guards is sent on\<close>

text \<open>
  What may happen to a message between the guard and the client: the AD bit, an extended error,
  the client's identifier and question.
\<close>

definition sent_from :: "ask \<Rightarrow> bytes \<Rightarrow> bytes \<Rightarrow> bool" where
  "sent_from a m w \<longleftrightarrow> (\<exists>v. (v = m \<or> (\<exists>d u. set_ad d m = ret u \<and> (v = u \<or> (\<exists>x. append_ede_to_response u 6 x = ret v)))) \<and>
     address_reply a v = ret w)"

definition from_outside :: "reply \<Rightarrow> bool" where
  "from_outside r \<longleftrightarrow> cache_status r \<in> {''HIT'', ''STALE_HIT'', ''MISS''}"

definition guarded_reply :: "ask \<Rightarrow> reply \<Rightarrow> bool" where
  "guarded_reply a r \<longleftrightarrow> (from_outside r \<longrightarrow> (\<exists>m. extract_rebind_ip m = ret None \<and> sent_from a m (reply_wire r)))"

definition cd_reply :: "ask \<Rightarrow> reply \<Rightarrow> bool" where
  "cd_reply a r \<longleftrightarrow> (cache_status r = ''MISS'' \<and> reply_dnssec r = ''BOGUS'' \<longrightarrow> checking_disabled a)"

lemma local_reply: "cache_status r \<notin> {''HIT'', ''STALE_HIT'', ''MISS''} \<Longrightarrow> guarded_reply a r \<and> cd_reply a r"
  by (auto simp: guarded_reply_def cd_reply_def from_outside_def)

lemma local_replies:
  "discovery e a s = Some (Some r, s') \<Longrightarrow> guarded_reply a r \<and> cd_reply a r"
  "canary e a s = Some (Some r, s') \<Longrightarrow> guarded_reply a r \<and> cd_reply a r"
  "policy e a s = Some (Some r, s') \<Longrightarrow> guarded_reply a r \<and> cd_reply a r"
  "instant_blocker e a s = Some (Some r, s') \<Longrightarrow> guarded_reply a r \<and> cd_reply a r"
  "negative_hit e a s = Some (Some r, s') \<Longrightarrow> guarded_reply a r \<and> cd_reply a r"
  "browse_check e a s = Some (Some r, s') \<Longrightarrow> guarded_reply a r \<and> cd_reply a r"
  "observe_query e a s = Some (Some r, s') \<Longrightarrow> guarded_reply a r \<and> cd_reply a r"
  "watch_swarm a s = Some (Some r, s') \<Longrightarrow> guarded_reply a r \<and> cd_reply a r"
  "intercept e a src ip s = Some (Some r, s') \<Longrightarrow> guarded_reply a r \<and> cd_reply a r"
  "reject_spoof e a up q s = Some (Some r, s') \<Longrightarrow> guarded_reply a r \<and> cd_reply a r"
  "unreachable e a s = Some (Some r, s') \<Longrightarrow> guarded_reply a r \<and> cd_reply a r"
  "refuse_bogus e a d s = Some (Some r, s') \<Longrightarrow> guarded_reply a r \<and> cd_reply a r"
  "block_flux e a m s = Some (Some r, s') \<Longrightarrow> guarded_reply a r \<and> cd_reply a r"
  "block_rebind e a ip s = Some (Some r, s') \<Longrightarrow> guarded_reply a r \<and> cd_reply a r"
  by (rule local_reply,
      (auto simp: discovery_def canary_def policy_def instant_blocker_def negative_hit_def browse_check_def intercept_def observe_query_def
        watch_swarm_def reject_spoof_def unreachable_def refuse_bogus_def block_flux_def block_rebind_def Let_def
        split: Option.bind_splits option.splits if_splits prod.splits bool.splits) [1])+

lemma guard_refuses: "refused_address a w s = Some None \<Longrightarrow> guard_on a s \<Longrightarrow> extract_rebind_ip w = Some None"
  by (simp add: refused_address_def)

lemma served: "serve_cached e a st w s = Some (Some r, s') \<Longrightarrow> address_reply a w = Some (reply_wire r) \<and> cd_reply a r"
proof -
  assume h: "serve_cached e a st w s = Some (Some r, s')"
  obtain d where d: "validate e w = Some d" using validate_some by blast
  obtain w' where w': "address_reply a w = Some w'" using address_reply_form by blast
  from h have "\<lparr>reply_wire = w', cache_status = (if st then ''STALE_HIT'' else ''HIT''), reply_dnssec = status_text (status d), block_reason = None\<rparr> = r"
    unfolding serve_cached_def Let_def d w' bind.bind_lunit by (simp only: option.inject prod.inject)
  with w' show ?thesis by (auto simp: cd_reply_def split: if_splits)
qed

lemma served_guarded: "serve_cached e a st w s = Some (Some r, s') \<Longrightarrow> extract_rebind_ip w = Some None \<Longrightarrow> guarded_reply a r"
proof -
  assume h: "serve_cached e a st w s = Some (Some r, s')" and g: "extract_rebind_ip w = Some None"
  have "sent_from a w (reply_wire r)" using served [OF h] unfolding sent_from_def by (intro exI [where x = w]) simp
  with g show ?thesis by (auto simp: guarded_reply_def)
qed

lemma lookup_guarded:
  assumes l: "cache_lookup e a s = Some (Some r, s')"
  shows "(guard_on a s \<longrightarrow> guarded_reply a r) \<and> cd_reply a r"
proof -
  obtain x c where g: "get_with_swr (unzip e) (the_cache s) (ask_name a) (ask_type a) (ask_tx a) (now_ns e) = Some (x, c)"
    by (cases rule: get_with_swr_cases [of "the_cache s" "ask_name a" "ask_type a" "unzip e" "ask_tx a" "now_ns e"]) blast+
  define t where "t = s\<lparr>the_cache := c\<rparr>"
  have t: "guard_on a t = guard_on a s" by (simp add: t_def guard_on_def)
  have hit: "(guard_on a s \<longrightarrow> guarded_reply a r) \<and> cd_reply a r"
    if h: "(do { bad \<leftarrow> refused_address a w t;
      case bad of Some ip \<Rightarrow> intercept e a src ip t | None \<Rightarrow> serve_cached e a st w t }) = Some (Some r, s')" for w src st
  proof -
    obtain bad where bad: "refused_address a w t = Some bad" using refused_total by blast
    show ?thesis
    proof (cases bad)
      case None
      with h bad have "serve_cached e a st w t = Some (Some r, s')" by simp
      from served [OF this] served_guarded [OF this] guard_refuses [of a w t] bad None t show ?thesis by simp
    next
      case (Some ip)
      with h bad have "intercept e a src ip t = Some (Some r, s')" by simp
      from local_replies(9) [OF this] show ?thesis by simp
    qed
  qed
  show ?thesis
    using l unfolding cache_lookup_def g bind.bind_lunit prod.case Let_def t_def [symmetric]
    by (cases x) (auto dest: hit)
qed

lemma status_text_simps [simp]: "status_text st = ''BOGUS'' \<longleftrightarrow> st = Bogus"
  by (simp add: status_text_def split: dnssec_status.split)

lemma delivered: "deliver e a up rc w d s = Some (Some r, s') \<Longrightarrow> address_reply a w = Some (reply_wire r) \<and> reply_dnssec r = status_text (status d)"
  by (auto simp: deliver_def Let_def split: Option.bind_splits)

lemma validated_guarded:
  assumes v: "validated_answer e a up rc w s = Some (Some r, s')"
  shows "(extract_rebind_ip w = Some None \<longrightarrow> guarded_reply a r) \<and> cd_reply a r"
proof -
  from v obtain d u where d: "validate e w = Some d" "set_ad d w = Some u" by (auto simp: validated_answer_def Let_def split: Option.bind_splits)
  define t where "t = count_validation d s"
  show ?thesis
  proof (cases "status d = Bogus \<and> \<not> checking_disabled a")
    case True
    with v d have "refuse_bogus e a d t = Some (Some r, s')" by (simp add: validated_answer_def Let_def t_def)
    from local_replies(12) [OF this] show ?thesis by simp
  next
    case False
    obtain x where x: "(if status d = Bogus then append_ede_to_response u 6 (unwrap_or ''DNSSEC validation failure'' (failure_reason d)) else ret u) = Some x"
      by (cases "status d = Bogus") (metis ede_total(1) option.exhaust, simp)
    from v have "deliver e a up rc x d t = Some (Some r, s')"
      unfolding validated_answer_def d bind.bind_lunit Let_def t_def [symmetric] if_not_P [OF False] x .
    from delivered [OF this] have a: "address_reply a x = Some (reply_wire r)" "reply_dnssec r = status_text (status d)" by simp_all
    have "x = u \<or> (\<exists>t. append_ede_to_response u 6 t = Some x)" using x by (auto split: if_splits)
    with a(1) d(2) have "sent_from a w (reply_wire r)" unfolding sent_from_def by blast
    with a(2) False show ?thesis by (auto simp: guarded_reply_def cd_reply_def)
  qed
qed

lemma upstream_guarded:
  assumes f: "filters_ok (the_rules s)" and u: "ask_upstream e a s = Some (Some r, s')"
  shows "(guard_on a s \<longrightarrow> guarded_reply a r) \<and> cd_reply a r"
proof -
  obtain x t where x: "resolve_chain e (ask_wire a) s = (x, t)" by fastforce
  have t: "the_rules t = the_rules s" using x by (auto simp: resolve_chain_def tally_def split: option.splits)
  have "(guard_on a t \<longrightarrow> guarded_reply a r) \<and> cd_reply a r" if up: "upstream_answer e a up w t = Some (Some r, s')" for up w
  proof -
    obtain ot where ot: "other_question a w = Some ot" using other_question_total by blast
    show ?thesis
    proof (cases ot)
      case (Some q)
      with up ot have "reject_spoof e a up q t = Some (Some r, s')" by (simp add: upstream_answer_def)
      from local_replies(10) [OF this] show ?thesis by simp
    next
      case None
      with up ot obtain v g w' y where v: "note_answer e a w t = Some v" "lifetime_guard e a w v = Some (g, w', y)"
        by (auto simp: upstream_answer_def Let_def split: Option.bind_splits prod.splits)
      have k: "config_kept t v" by (rule note_answer_kept [OF v(1)])
      then have fv: "filters_ok (the_rules v)" using f t config_filters by simp
      have "config_kept t y" by (rule config_trans [OF k lifetime_guard_kept [OF v(2) fv]])
      then have gy: "guard_on a y = guard_on a t" by (simp add: config_kept_def same_config_def guard_on_def is_bypassed_def)
      show ?thesis
      proof (cases g)
        case (Some r')
        with up ot None v have r: "r' = r" by (simp add: upstream_answer_def Let_def)
        from lifetime_guard_reply [OF v(2) [unfolded Some r]] local_replies(13) show ?thesis by blast
      next
        case g: None
        obtain bad where bad: "refused_address a w' y = Some bad" using refused_total by blast
        show ?thesis
        proof (cases bad)
          case (Some ip)
          with up ot None v g bad have "block_rebind e a ip y = Some (Some r, s')" by (simp add: upstream_answer_def Let_def)
          from local_replies(14) [OF this] show ?thesis by simp
        next
          case b: None
          with up ot None v g bad have "validated_answer e a up (answer_rcode w) w' y = Some (Some r, s')" by (simp add: upstream_answer_def Let_def)
          from validated_guarded [OF this] guard_refuses bad b gy show ?thesis by auto
        qed
      qed
    qed
  qed
  moreover have "guard_on a t = guard_on a s" by (simp add: guard_on_def t)
  moreover have "(guard_on a t \<longrightarrow> guarded_reply a r) \<and> cd_reply a r" if un: "unreachable e a t = Some (Some r, s')"
    using local_replies(11) [OF un] by simp
  ultimately show ?thesis using u x by (auto simp: ask_upstream_def split: option.splits)
qed

text \<open>A property of replies that may depend on the configuration.\<close>

lemma stages_guarded:
  assumes "\<And>f. f \<in> set fs \<Longrightarrow> keeps_config f"
    and "\<And>f s r s'. f \<in> set fs \<Longrightarrow> filters_ok (the_rules s) \<Longrightarrow> P s \<Longrightarrow> f s = Some (Some r, s') \<Longrightarrow> Q r"
    and P: "\<And>s t. config_kept s t \<Longrightarrow> P s \<Longrightarrow> P t"
  shows "filters_ok (the_rules s) \<Longrightarrow> P s \<Longrightarrow> stages fs s = Some (Some r, s') \<Longrightarrow> Q r"
  using assms(1,2)
proof (induction fs arbitrary: s)
  case (Cons f fs)
  from Cons.prems(3) consider (now) "f s = Some (Some r, s')" | (later) t where "f s = Some (None, t)" "stages fs t = Some (Some r, s')"
    by (auto split: Option.bind_splits option.splits)
  then show ?case
  proof cases
    case now
    show ?thesis by (rule Cons.prems(5) [where f = f and s = s and s' = s']) (use Cons.prems(1,2) now in auto)
  next
    case later
    have "keeps_config f" by (rule Cons.prems(4)) simp
    then have k: "config_kept s t" using later(1) Cons.prems(1) by (simp add: keeps_config_def)
    show ?thesis
    proof (rule Cons.IH [where s = t])
      show "filters_ok (the_rules t)" using config_filters [OF k] Cons.prems(1) by simp
      show "P t" by (rule P [OF k Cons.prems(2)])
    next
      fix g assume "g \<in> set fs" then show "keeps_config g" by (intro Cons.prems(4)) simp
    next
      fix g u x u' assume "g \<in> set fs" "filters_ok (the_rules u)" "P u" "g u = Some (Some x, u')"
      then show "Q x" by (intro Cons.prems(5) [where f = g and s = u and s' = u']) simp_all
    qed (rule later(2))
  qed
qed simp

lemma pipeline_guarded:
  assumes f: "filters_ok (the_rules s)" and p: "stages (pipeline e a) s = Some (Some r, s')"
  shows "(guard_on a s \<longrightarrow> guarded_reply a r) \<and> cd_reply a r"
proof -
  have keep: "f \<in> set (pipeline e a) \<Longrightarrow> keeps_config f" for f
    by (auto simp: pipeline_def keep_local keep_observe keep_policy keep_negative keep_browse keep_lookup keep_upstream)
  have stay: "config_kept s t \<Longrightarrow> guard_on a s \<Longrightarrow> guard_on a t" for s t
    by (simp add: config_kept_def same_config_def guard_on_def is_bypassed_def)
  have fine: "(guard_on a t \<longrightarrow> guarded_reply a x) \<and> cd_reply a x"
    if "f \<in> set (pipeline e a)" "filters_ok (the_rules t)" "f t = Some (Some x, u)" for f t x u
    using that by (auto simp: pipeline_def dest!: local_replies(1-8) lookup_guarded upstream_guarded [rotated])
  have "guarded_reply a r" if g: "guard_on a s"
  proof (rule stages_guarded [where fs = "pipeline e a" and P = "guard_on a" and Q = "guarded_reply a", OF _ _ stay f g p])
    fix f assume "f \<in> set (pipeline e a)" then show "keeps_config f" by (rule keep)
  next
    fix f t x u assume "f \<in> set (pipeline e a)" "filters_ok (the_rules t)" "guard_on a t" "f t = Some (Some x, u)"
    with fine show "guarded_reply a x" by blast
  qed
  moreover have "cd_reply a r"
  proof (rule stages_guarded [where fs = "pipeline e a" and P = "\<lambda>_. True" and Q = "cd_reply a", OF _ _ _ f _ p])
    fix f assume "f \<in> set (pipeline e a)" then show "keeps_config f" by (rule keep)
  next
    fix f t x u assume "f \<in> set (pipeline e a)" "filters_ok (the_rules t)" "f t = Some (Some x, u)"
    with fine show "cd_reply a x" by blast
  qed simp_all
  ultimately show ?thesis by blast
qed

section \<open>What is blocked stays here\<close>

text \<open>The stages up to the decision do not ask the network.\<close>

lemma prefetch_offline: "prefetch_all (e\<lparr>resolve := f, resolve_race := g, resolve_root_hints := h, safe_browsing := b\<rparr>) cs s = prefetch_all e cs s"
  by (induction cs arbitrary: s) (simp_all add: prefetch_def)

lemma effects_offline:
  fixes e f g h b
  defines "E \<equiv> e\<lparr>resolve := f, resolve_race := g, resolve_root_hints := h, safe_browsing := b\<rparr>"
  shows "latency E = latency e" "action E = action e" "anomaly E = anomaly e" "detected E = detected e"
    "response_code E = response_code e" "flag_asker E = flag_asker e" "log_local E = log_local e" "negative E = negative e"
  by (simp_all add: E_def fun_eq_iff latency_def action_def anomaly_def detected_def response_code_def flag_asker_def log_local_def negative_def)

lemma stages_offline:
  fixes e f g h b
  defines "E \<equiv> e\<lparr>resolve := f, resolve_race := g, resolve_root_hints := h, safe_browsing := b\<rparr>"
  shows "admit E w ip dev proto s = admit e w ip dev proto s" "discovery E a = discovery e a" "observe_query E a = observe_query e a"
    "canary E a = canary e a" "policy E a = policy e a"
proof -
  note E = effects_offline [where e = e and f = f and g = g and h = h and b = b, folded E_def]
  have sel: "now_ms E = now_ms e" "now_ns E = now_ns e" "device_key E = device_key e" "user_key E = user_key e" "seq_key E = seq_key e"
    "children_order E = children_order e" "heat_key E = heat_key e" "iq_key E = iq_key e" "fp_key E = fp_key e"
    "block_order E = block_order e" "show_real E = show_real e"
    by (simp_all add: E_def)
  have far: "turn_away E = turn_away e" "track_client E = track_client e"
    unfolding turn_away_def track_client_def E sel by (rule refl)+
  show "admit E w ip dev proto s = admit e w ip dev proto s" "discovery E a = discovery e a" "observe_query E a = observe_query e a"
    "canary E a = canary e a" "policy E a = policy e a"
    unfolding admit_def discovery_def observe_query_def canary_def policy_def E sel far
      prefetch_offline [where e = e and f = f and g = g and h = h and b = b, folded E_def] by (rule refl)+
qed

lemma policy_blocks:
  assumes f: "filters_ok (the_rules s)" and d: "decided (block_order e) (the_rules s) (ask_name a) (now_ms e) = (True, nx, reason)"
  shows "\<exists>x s'. policy e a s = ret (Some (plain_reply x ''BLOCKED'' (Some reason)), s') \<and> sinkhole_if_edns a reason = ret x \<and>
    cache_map (the_cache s') = cache_map (the_cache s) \<and> tasks s' = tasks s"
proof -
  obtain r where r: "check_domain (block_order e) (iq_key e) (show_real e) (ask_name a) (now_ms e) (the_rules s) = ret ((True, nx, reason), r)"
    using check_verdict [OF f, of "block_order e" "iq_key e" "show_real e" "ask_name a" "now_ms e"] d by auto
  obtain x where x: "sinkhole_if_edns a reason = ret x" using sinkhole_total by blast
  show ?thesis unfolding policy_def r x bind.bind_lunit prod.case if_True Let_def
    by (simp add: x latency_def negative_def insert_negative_def log_local_def log_query_dnssec_def wal_query_def wal_threat_def on_rules_def
        tally_def flag_asker_def response_code_def detected_def Let_def split: prod.split)
qed

lemma stages_rest: "stages fs s = ret (None, t) \<Longrightarrow> stages (fs @ gs) s = stages gs t"
  by (induction fs arbitrary: s) (auto split: Option.bind_splits option.splits)


text \<open>A query for the name foo on two servers: one that blocks it, one that allows it and has its answer.\<close>

definition foo_ask :: ask where
  "foo_ask = \<lparr>ask_wire = foo_query, ask_ip = V4 7, ask_log = ''phone'', ask_proto = ''DoT'', ask_tx = 0xABCD, ask_flags = 0x0100,
     ask_len = 9, ask_name = ''foo'', ask_type = 1, ask_class = 1\<rparr>"

definition foo_blocker :: server where
  "foo_blocker = new_server\<lparr>the_rules := no_rules\<lparr>instant_block_domains := {''foo''}\<rparr>\<rparr>"

definition foo_answer :: bytes where
  "foo_answer = [0, 0, 0x81, 0x80, 0, 1, 0, 1, 0, 0, 0, 0, 3, 102, 111, 111, 0, 0, 1, 0, 1,
     0xC0, 12, 0, 1, 0, 1, 0, 0, 1, 44, 0, 4, 93, 184, 216, 34]"

definition foo_entry :: cached_response where
  "foo_entry = \<lparr>wire = foo_answer, uncompressed_len = 37, is_compressed = False, created_at = 0, original_ttl = 300, stale_grace_secs = 300\<rparr>"

definition foo_cacher :: server where
  "foo_cacher = new_server\<lparr>the_rules := no_rules\<lparr>whitelist_exact := {''foo''}\<rparr>, the_cache := (new_cache 0)\<lparr>cache_map := (\<lambda>_. None)(''foo:1'' := Some foo_entry)\<rparr>\<rparr>"

lemma foo_servers_ok: "server_ok foo_blocker" "server_ok foo_cacher"
proof -
  have "rules_ok (no_rules\<lparr>instant_block_domains := {''foo''}\<rparr>)" "rules_ok (no_rules\<lparr>whitelist_exact := {''foo''}\<rparr>)"
    using no_rules_ok [of "{}" "{}"] by (simp_all add: rules_ok_def no_rules_def filters_ok_def tables_ok_def)
  then show "server_ok foo_blocker" "server_ok foo_cacher"
    using new_server_ok by (simp_all add: foo_blocker_def foo_cacher_def server_ok_def new_server_def lifetimes_ok_def new_cache_def foo_entry_def)
qed

lemma parse_foo_strict: "parse_dns_query_opts foo_query False = Some (Some \<lparr>tx_id = 0xABCD, flags = 0x0100,
    question = Some \<lparr>qname = ''foo'', qtype = 1, qclass = 1\<rparr>, question_bytes_len = 9\<rparr>)"
  by code_simp

lemma foo_no_ddr: "build_ddr_response foo_query = ret None"
  by code_simp

lemma foo_names: "clean_of ''foo'' = ''foo''" "clean_of ''foo'' \<noteq> ''canary.amardns.internal''" "make_key ''foo'' 1 = ''foo:1''"
  by code_simp+

lemma foo_admitted:
  assumes "rfc1035_8bit_labels s = False"
  shows "\<exists>t. admit e foo_query (V4 7) (Some ''phone'') ''DoT'' s = ret (Inr foo_ask, t) \<and> config_kept s t \<and> the_cache t = the_cache s"
  using assms by (simp add: admit_def Let_def parse_foo_strict foo_ask_def unwrap_or_def frame)

text \<open>What the first stages leave: the state without an answer, where the query is an ordinary one.\<close>

lemma prefetch_all_cache: "prefetch_all e cs s = Some t \<Longrightarrow> the_cache t = the_cache s"
  by (induction cs arbitrary: s) (auto simp: prefetch_def spawn_def split: Option.bind_splits if_splits)

lemma observe_cache:
  assumes "observe_query e a s = Some (r, t)"
  shows "r = None \<and> the_cache t = the_cache s"
proof -
  have rules: "the_cache (on_rules f s) = the_cache s" for f s by (simp add: on_rules_def)
  have heat: "the_cache (record_heatmap fh fk d now s) = the_cache s" for fh fk d now s
    unfolding record_heatmap_def Let_def by (simp add: rules split: option.split)
  have track: "the_cache (track_client e a s) = the_cache s" for s
    unfolding track_client_def action_def anomaly_def tally_def Let_def by (simp add: rules split: prod.split option.split)
  from assms obtain u where "prefetch_all e (get_prefetch_candidates (children_order e) (ask_name a)
      (the_brain (the_rules (on_rules (\<lambda>r. r\<lparr>the_brain := record_sequence (seq_key e) (ask_name a) (now_ns e) (the_brain r)\<rparr>) s))))
      (on_rules (\<lambda>r. r\<lparr>the_brain := record_sequence (seq_key e) (ask_name a) (now_ns e) (the_brain r)\<rparr>) s) = Some u"
    and "r = None" "t = record_heatmap (heat_key e) (iq_key e) (ask_name a) (now_ms e) (track_client e a u)"
    by (auto simp: observe_query_def Let_def split: Option.bind_splits)
  with prefetch_all_cache [OF this(1)] show ?thesis by (simp add: heat track rules)
qed

lemma ordinary_start:
  assumes e: "outside_ok e" and s: "server_ok s"
    and a: "build_ddr_response (ask_wire a) = ret None" "ask_type a \<noteq> 255" "clean_of (ask_name a) \<noteq> canary_domain s"
  shows "\<exists>t. stages [discovery e a, observe_query e a, canary e a] s = ret (None, t) \<and> server_ok t \<and> config_kept s t \<and> the_cache t = the_cache s"
proof -
  obtain r t where t: "observe_query e a s = Some (r, t)" "server_ok t" using soundD [OF observe_sound [OF e] s] by blast
  have o: "r = None" "the_cache t = the_cache s" using observe_cache [OF t(1)] by simp_all
  have k: "config_kept s t" by (rule keeps_configD [OF keep_observe t(1)]) (use s in \<open>simp add: server_ok_def rules_ok_def\<close>)
  then have "canary e a t = ret (None, t)" using a(3) by (simp add: canary_def config_kept_def)
  then show ?thesis using a(1,2) t o k by (simp add: discovery_def)
qed

lemma foo_ask_simps: "ask_wire foo_ask = foo_query" "ask_name foo_ask = ''foo''" "ask_type foo_ask = 1" "ask_tx foo_ask = 0xABCD"
  "ask_flags foo_ask = 0x0100"
  by (simp_all add: foo_ask_def)

lemma foo_start:
  assumes e: "outside_ok e" and s: "server_ok s" "rfc1035_8bit_labels s = False" "canary_domain s = ''canary.amardns.internal''"
  obtains t u where "admit e foo_query (V4 7) (Some ''phone'') ''DoT'' s = ret (Inr foo_ask, t)"
    "stages [discovery e foo_ask, observe_query e foo_ask, canary e foo_ask] t = ret (None, u)" "server_ok u" "config_kept s u" "the_cache u = the_cache s"
proof -
  from foo_admitted [OF s(2)] obtain t where t: "admit e foo_query (V4 7) (Some ''phone'') ''DoT'' s = ret (Inr foo_ask, t)"
    "config_kept s t" "the_cache t = the_cache s" by blast
  with admit_ok [OF e s(1)] have "server_ok t" by (metis option.inject prod.inject)
  moreover have "canary_domain t = ''canary.amardns.internal''" using t(2) s(3) by (simp add: config_kept_def)
  ultimately obtain u where u: "stages [discovery e foo_ask, observe_query e foo_ask, canary e foo_ask] t = ret (None, u)" "server_ok u"
    "config_kept t u" "the_cache u = the_cache t"
    using ordinary_start [OF e, of t foo_ask] foo_no_ddr foo_names(2) by (auto simp: foo_ask_simps)
  show thesis by (rule that [OF t(1) u(1,2) config_trans [OF t(2) u(3)]]) (simp add: u(4) t(3))
qed



definition foo_cached :: bytes where
  "foo_cached = 0xAB # 0xCD # drop 2 foo_answer"

lemma foo_found: "get_with_swr (unzip silent_world) (the_cache foo_cacher) ''foo'' 1 0xABCD (now_ns silent_world) = ret (Fresh foo_cached, the_cache foo_cacher)"
  "extract_rebind_ip foo_cached = ret None"
proof -
  have "set_tx_id foo_answer 0xABCD = ret foo_cached" "decrement_response_ttl foo_cached 0 = ret foo_cached" by code_simp+
  then show "get_with_swr (unzip silent_world) (the_cache foo_cacher) ''foo'' 1 0xABCD (now_ns silent_world) = ret (Fresh foo_cached, the_cache foo_cacher)"
    by (simp add: get_with_swr_def foo_cacher_def foo_names(3) foo_entry_def silent_world_def elapsed_secs_def stored_wire_def)
  show "extract_rebind_ip foo_cached = ret None" by code_simp
qed

text \<open>The allowed name is answered from the cache.\<close>

lemma foo_hit: "\<exists>t r s'. admit silent_world foo_query (V4 7) (Some ''phone'') ''DoT'' foo_cacher = ret (Inr foo_ask, t) \<and>
  process_query silent_world foo_query (V4 7) (Some ''phone'') ''DoT'' foo_cacher = ret (Some r, s') \<and> cache_status r = ''HIT''"
proof -
  let ?e = silent_world and ?a = foo_ask
  obtain t u where t: "admit ?e foo_query (V4 7) (Some ''phone'') ''DoT'' foo_cacher = ret (Inr ?a, t)"
    "stages [discovery ?e ?a, observe_query ?e ?a, canary ?e ?a] t = ret (None, u)"
    and u: "server_ok u" "config_kept foo_cacher u" "the_cache u = the_cache foo_cacher"
    by (rule foo_start [OF silent_world_ok foo_servers_ok(2)]) (simp_all add: foo_cacher_def new_server_def)
  have f: "filters_ok (the_rules u)" using u(1) by (simp add: server_ok_def rules_ok_def)
  have c: "instant_block_domains (the_rules x) = {}" "instant_block_wildcards (the_rules x) = []" "custom_bypasslist (the_rules x) = {}"
    "whitelist_exact (the_rules x) = {''foo''}" if "config_kept foo_cacher x" for x
    using that by (simp_all add: config_kept_def same_config_def foo_cacher_def no_rules_def)
  have low: "\<not> is_bypassed (the_rules x) ''foo''" "\<not> is_instant_blocked (the_rules x) ''foo''" "is_exact_whitelisted (the_rules x) ''foo''"
    "is_exempt_domain (the_rules x) ''foo'' = ret True" if "config_kept foo_cacher x" for x
    using c [OF that] by (simp_all add: is_bypassed_def is_instant_blocked_def is_exact_whitelisted_def is_exempt_domain_def Let_def foo_names(1))
  have d: "\<not> fst (decided sorted_order (the_rules u) ''foo'' n)" for n
    using low [OF u(2)] by (simp add: decided_def table_heuristic_rows foo_names(1))
  obtain x nx why where x: "check_domain sorted_order (iq_key ?e) (show_real ?e) ''foo'' (now_ms ?e) (the_rules u) = ret ((False, nx, why), x)"
    using check_verdict [OF f, of sorted_order "iq_key ?e" "show_real ?e" "''foo''" "now_ms ?e"] d [of "now_ms ?e"]
    by (cases "decided sorted_order (the_rules u) ''foo'' (now_ms ?e)") auto
  define v where "v = spawn (Swarm_Check ''foo'' (ask_ip ?a)) (u\<lparr>the_rules := x\<rparr>)"
  have p: "policy ?e ?a u = ret (None, u\<lparr>the_rules := x\<rparr>)"
    using x by (simp add: policy_def foo_ask_simps silent_world_def)
  have "server_ok (u\<lparr>the_rules := x\<rparr>)" using soundD [OF policy_sound [OF silent_world_ok] u(1), of ?a] p by simp
  then have v: "config_kept foo_cacher v" "the_cache v = the_cache foo_cacher" "server_ok v"
    using config_trans [OF u(2) keeps_configD [OF keep_policy p f]] u(3)
    by (simp_all add: v_def spawn_def config_kept_def server_ok_def is_prefetch_def)
  note m = foo_found
  have "refused_address ?a foo_cached y = ret None" for y using m(2) by (simp add: refused_address_def)
  then have l: "cache_lookup ?e ?a v = serve_cached ?e ?a False foo_cached v" using m(1)
    unfolding v(2) [symmetric] by (simp add: cache_lookup_def foo_ask_simps)
  obtain r s' where r: "serve_cached ?e ?a False foo_cached v = ret (r, s')"
    using soundD [OF serve_cached_sound [OF silent_world_ok] v(3), of ?a False foo_cached] by blast
  obtain q where st: "r = Some q" "cache_status q = ''HIT''" using r by (auto simp: serve_cached_def Let_def split: Option.bind_splits)
  have w: "watch_swarm ?a (u\<lparr>the_rules := x\<rparr>) = ret (None, v)" by (simp add: watch_swarm_def v_def foo_ask_simps)
  have i: "instant_blocker ?e ?a v = ret (None, v)" unfolding instant_blocker_def foo_ask_simps by (simp add: low(2) [OF v(1)])
  have n: "negative_hit ?e ?a v = ret (None, v)" unfolding negative_hit_def foo_ask_simps by (simp add: low(1,4) [OF v(1)])
  have b: "browse_check ?e ?a v = ret (None, v)" unfolding browse_check_def foo_ask_simps by (simp add: low(1,4) [OF v(1)])
  have "stages (drop 3 (pipeline ?e ?a)) u = ret (r, s')"
    unfolding st(1) by (simp add: pipeline_def p w i n b l r st(1))
  moreover have "stages (pipeline ?e ?a) t = stages (drop 3 (pipeline ?e ?a)) u"
    using stages_rest [OF t(2), of "drop 3 (pipeline ?e ?a)"] by (simp add: pipeline_def del: stages.simps)
  ultimately show ?thesis using t(1) st by (simp add: process_query_def del: stages.simps)
qed






end
