(* ===== verification/Upstream_Pool.thy ===== *)
theory Upstream_Pool
  imports App_State Ecs
begin

text \<open>
  The upstream resolvers, \<open>src/src/dns/upstream.rs\<close>: the statistics of a node, the ranking of the pool,
  demotion and promotion, the sharing of concurrent queries (\<open>Singleflight\<close>) and the hedged race of
  three nodes. What a server answers over HTTPS, and when, is an argument.

  Nodes are shared (\<open>Arc\<close>) between the pool and its ranked list, so they live in a store and the lists hold
  their addresses. Averages are real numbers.
\<close>

section \<open>Nodes\<close>

record upstream_config =
  cfg_provider :: string
  cfg_url :: string
  cfg_aura :: string

record upstream_node =
  provider :: string
  node_url :: string
  node_aura :: string
  latency_ms :: u32
  node_errors :: u64
  pulls :: u64
  successes :: u64
  consecutive_successes :: u64
  recent_latencies :: "u32 list"

definition node_new :: "upstream_config \<Rightarrow> upstream_node" where
  "node_new cfg = \<lparr>provider = normalize_provider_name (cfg_provider cfg), node_url = cfg_url cfg, node_aura = cfg_aura cfg,
     latency_ms = 0, node_errors = 0, pulls = 0, successes = 0, consecutive_successes = 0, recent_latencies = []\<rparr>"

definition smoothed :: "u32 \<Rightarrow> u32 \<Rightarrow> u32" where
  "smoothed old latency =
    (if old = 0 \<or> old = 9999 then max latency 1
     else word_of_int \<lfloor>real (unat old) * (7 / 10) + real (unat (max latency 1)) * (3 / 10) + 1 / 2\<rfloor>)"

definition record_success :: "u32 \<Rightarrow> upstream_node \<Rightarrow> upstream_node" where
  "record_success latency n = (
     let cons = consecutive_successes n + 1;
         errs = (if cons mod 2 = 0 \<and> node_errors n > 0 then node_errors n - 1 else node_errors n);
         rec = recent_latencies n;
         rec = (if length rec \<ge> 30 then tl rec else rec)
     in n\<lparr>successes := successes n + 1, consecutive_successes := cons, node_errors := errs,
          latency_ms := max (smoothed (latency_ms n) latency) 1, recent_latencies := rec @ [max latency 1]\<rparr>)"

definition record_error :: "upstream_node \<Rightarrow> upstream_node" where
  "record_error n = n\<lparr>node_errors := node_errors n + 1, consecutive_successes := 0\<rparr>"

text \<open>\<open>(x as f64).round()\<close> of a part of a count.\<close>

definition rank_index :: "nat \<Rightarrow> nat \<Rightarrow> nat" where
  "rank_index percent n = min (nat \<lfloor>real n * (real percent / 100) + 1 / 2\<rfloor>) (n - 1)"

definition get_percentiles :: "upstream_node \<Rightarrow> u32 \<times> u32 \<times> u32" where
  "get_percentiles n = (
     let sorted = sort (recent_latencies n); k = length sorted
     in if k \<ge> 4 then (sorted ! (k div 2), sorted ! rank_index 95 k, sorted ! rank_index 99 k)
        else if k > 0 then (sorted ! (k div 2), sorted ! (k - 1), sorted ! (k - 1))
        else (latency_ms n, latency_ms n, latency_ms n))"

definition aura_rank_of :: "string \<Rightarrow> nat" where
  "aura_rank_of aura = (let a = to_ascii_lowercase aura in if a = ''high'' then 3 else if a = ''medium'' then 2 else 1)"

definition effective_latency :: "upstream_node \<Rightarrow> u32" where
  "effective_latency n = latency_ms n + ucast (min (node_errors n) 20) * 50"

definition is_degraded :: "upstream_node \<Rightarrow> bool" where
  "is_degraded n \<longleftrightarrow> node_errors n \<ge> 3 \<or> latency_ms n \<ge> 500 \<or> effective_latency n \<ge> 350"

definition score :: "upstream_node \<Rightarrow> u32" where
  "score n = (if node_errors n \<ge> 5 then 0
     else let eff = effective_latency n in if eff > 0 then min (1000 div max eff 1) 100 else 0)"

text \<open>The key of the ranking; \<open>Reverse\<close> turns the order of the aura round.\<close>

datatype rank_key = Rank bool nat u32

instantiation rank_key :: linorder
begin

fun less_eq_rank_key :: "rank_key \<Rightarrow> rank_key \<Rightarrow> bool" where
  "less_eq_rank_key (Rank bad aura lat) (Rank bad' aura' lat') \<longleftrightarrow>
     bad < bad' \<or> bad = bad' \<and> (aura > aura' \<or> aura = aura' \<and> lat \<le> lat')"

definition less_rank_key :: "rank_key \<Rightarrow> rank_key \<Rightarrow> bool" where
  "less_rank_key x y \<longleftrightarrow> x \<le> y \<and> \<not> y \<le> x"

instance
proof
  fix x y z :: rank_key
  show "x \<le> x" by (cases x) simp
  show "x \<le> y \<Longrightarrow> y \<le> z \<Longrightarrow> x \<le> z" by (cases x; cases y; cases z) auto
  show "x \<le> y \<Longrightarrow> y \<le> x \<Longrightarrow> x = y" by (cases x; cases y) auto
  show "x \<le> y \<or> y \<le> x" by (cases x; cases y) auto
qed (simp add: less_rank_key_def)

end

definition node_key :: "upstream_node \<Rightarrow> rank_key" where
  "node_key n = Rank (\<not> node_errors n < 5) (aura_rank_of (node_aura n)) (effective_latency n)"

section \<open>The built-in resolvers\<close>

definition all_default_candidate_configs :: "upstream_config list" where
  "all_default_candidate_configs = map (\<lambda>(p, u, a). \<lparr>cfg_provider = p, cfg_url = u, cfg_aura = a\<rparr>)
    [(''Mullvad'', ''https://doh.mullvad.net/dns-query'', ''high''),
     (''Quad9'', ''https://dns.quad9.net/dns-query'', ''high''),
     (''AdGuard'', ''https://dns.adguard-dns.com/dns-query'', ''high''),
     (''Cloudflare'', ''https://cloudflare-dns.com/dns-query'', ''medium''),
     (''NextDNS'', ''https://dns.nextdns.io/dns-query'', ''medium''),
     (''ControlD'', ''https://freedns.controld.com/p0'', ''medium''),
     (''DNS.SB'', ''https://doh.dns.sb/dns-query'', ''medium''),
     (''LibreDNS'', ''https://doh.libredns.gr/dns-query'', ''medium''),
     (''CleanBrowsing'', ''https://doh.cleanbrowsing.org/doh/security-filter/'', ''medium''),
     (''HageZi'', ''https://root.hagezi.org/dns-query'', ''medium''),
     (''Google Public DNS'', ''https://dns.google/dns-query'', ''low''),
     (''OpenDNS'', ''https://doh.opendns.com/dns-query'', ''low''),
     (''Hurricane Electric'', ''https://ordns.he.net/dns-query'', ''low''),
     (''DNSPod'', ''https://dns.pub/dns-query'', ''low''),
     (''OneDNS'', ''https://doh-pure.onedns.net/dns-query'', ''low''),
     (''Applied Privacy'', ''https://doh.applied-privacy.net/query'', ''high''),
     (''Digitale Gesellschaft'', ''https://dns.digitale-gesellschaft.ch/dns-query'', ''high''),
     (''UncensoredDNS'', ''https://anycast.uncensoreddns.org/dns-query'', ''medium''),
     (''dnsforge'', ''https://dnsforge.de/dns-query'', ''medium''),
     (''AhaDNS'', ''https://dns.ahadns.com/dns-query'', ''medium''),
     (''BlahDNS'', ''https://doh-jp.blahdns.com/dns-query'', ''medium''),
     (''CIRA Canadian Shield'', ''https://protected.canadianshield.cira.ca/dns-query'', ''medium''),
     (''Switch DNS'', ''https://dns.switch.ch/dns-query'', ''medium''),
     (''CZ.NIC ODVR'', ''https://odvr.nic.cz/doh'', ''medium''),
     (''dns0.eu'', ''https://dns0.eu/dns-query'', ''high''),
     (''Njalla'', ''https://dns.njal.la/dns-query'', ''high''),
     (''DNS4EU (Unfiltered)'', ''https://unfiltered.joindns4.eu/dns-query'', ''high''),
     (''SecureDNS.eu'', ''https://doh.securedns.eu/dns-query'', ''medium''),
     (''Quad101 (TWNIC)'', ''https://dns.twnic.tw/dns-query'', ''medium''),
     (''AliDNS (Alibaba)'', ''https://dns.alidns.com/dns-query'', ''low''),
     (''Yandex DNS'', ''https://common.dot.dns.yandex.net/dns-query'', ''low''),
     (''Andrews & Arnold'', ''https://dns.aa.net.uk/dns-query'', ''high''),
     (''Aquilenet'', ''https://dns.aquilenet.fr/dns-query'', ''high''),
     (''Blokada DNS'', ''https://dns.blokada.org/dns-query'', ''high''),
     (''CIRA Canadian Shield (Private)'', ''https://private.canadianshield.cira.ca/dns-query'', ''high''),
     (''Belnet'', ''https://dns.belnet.be/dns-query'', ''medium''),
     (''CERT Estonia'', ''https://dns.cert.ee/dns-query'', ''medium''),
     (''arnor.org'', ''https://nsec.arnor.org/dns-query'', ''medium''),
     (''BlahDNS (Germany)'', ''https://doh-de.blahdns.com/dns-query'', ''medium''),
     (''BlahDNS (Finland)'', ''https://doh-fi.blahdns.com/dns-query'', ''medium'')]"

definition default_upstreams_config :: "upstream_config list" where
  "default_upstreams_config = take 9 (filter (\<lambda>cfg. eq_ignore_ascii_case (cfg_aura cfg) ''high'') all_default_candidate_configs)"

lemma all_defaults_nonempty [simp]: "all_default_candidate_configs \<noteq> []"
  by (simp add: all_default_candidate_configs_def)

lemma defaults_ok [simp]: "default_upstreams_config \<noteq> []" "length default_upstreams_config \<le> 9"
  by (simp_all add: default_upstreams_config_def all_default_candidate_configs_def eq_ignore_ascii_case_def)

section \<open>The pool\<close>

record pool =
  store :: "nat \<Rightarrow> upstream_node"
  next_node :: nat
  upstreams :: "nat list"
  cached_ranked :: "nat list"
  candidates :: "upstream_config list"

definition update_node :: "nat \<Rightarrow> (upstream_node \<Rightarrow> upstream_node) \<Rightarrow> pool \<Rightarrow> pool" where
  "update_node i f p = p\<lparr>store := (store p)(i := f (store p i))\<rparr>"

definition recompute_ranks :: "pool \<Rightarrow> pool" where
  "recompute_ranks p = p\<lparr>cached_ranked := sort_key (\<lambda>i. node_key (store p i)) (upstreams p)\<rparr>"

definition select_best :: "pool \<Rightarrow> nat option" where
  "select_best p = (case cached_ranked p of [] \<Rightarrow> None | i # is \<Rightarrow> Some i)"

definition reset_cb :: "pool \<Rightarrow> pool" where
  "reset_cb p = fold (\<lambda>i. update_node i (\<lambda>n. n\<lparr>node_errors := 0\<rparr>)) (upstreams p) p"

text \<open>\<open>Arc::new\<close>.\<close>

definition alloc :: "upstream_node \<Rightarrow> pool \<Rightarrow> nat \<times> pool" where
  "alloc n p = (next_node p, p\<lparr>store := (store p)(next_node p := n), next_node := next_node p + 1\<rparr>)"

definition promoted_node :: "u32 \<times> upstream_config \<Rightarrow> upstream_node" where
  "promoted_node = (\<lambda>(lat, cfg). \<lparr>provider = normalize_provider_name (cfg_provider cfg), node_url = cfg_url cfg, node_aura = cfg_aura cfg,
     latency_ms = lat, node_errors = 0, pulls = 1, successes = 1, consecutive_successes = 1, recent_latencies = [lat]\<rparr>)"

text \<open>The degraded places take the candidates in turn; then the pool grows to nine.\<close>

fun replace_degraded :: "nat list \<Rightarrow> (u32 \<times> upstream_config) list \<Rightarrow> nat list \<Rightarrow> pool \<Rightarrow>
  nat \<times> nat list \<times> (u32 \<times> upstream_config) list \<times> pool" where
  "replace_degraded [] cands active p = (0, active, cands, p)"
| "replace_degraded (idx # degraded) [] active p = (0, active, [], p)"
| "replace_degraded (idx # degraded) (c # cands) active p = (
     let (i, p) = alloc (promoted_node c) p;
         (done', active, cands, p) = replace_degraded degraded cands (active[idx := i]) p
     in (done' + 1, active, cands, p))"

fun fill_up :: "(u32 \<times> upstream_config) list \<Rightarrow> nat list \<Rightarrow> pool \<Rightarrow> nat \<times> nat list \<times> pool" where
  "fill_up [] active p = (0, active, p)"
| "fill_up (c # cands) active p =
    (if length active < 9 then
       (let (i, p) = alloc (promoted_node c) p;
            (more, active, p) = fill_up cands (active @ [i]) p
        in (more + 1, active, p))
     else (0, active, p))"

definition candidate_key :: "u32 \<times> upstream_config \<Rightarrow> rank_key" where
  "candidate_key = (\<lambda>(lat, cfg). Rank False (aura_rank_of (cfg_aura cfg)) lat)"

definition valid_candidates :: "(bool \<times> u32 \<times> upstream_config) list \<Rightarrow> pool \<Rightarrow> (u32 \<times> upstream_config) list" where
  "valid_candidates probes p = (
     let active_urls = (\<lambda>i. node_url (store p i)) ` set (upstreams p)
     in sort_key candidate_key (map snd (filter (\<lambda>(ok, lat, cfg). ok \<and> cfg_url cfg \<notin> active_urls) probes)))"

definition degraded_places :: "pool \<Rightarrow> nat list" where
  "degraded_places p = filter (\<lambda>idx. is_degraded (store p (upstreams p ! idx))) [0..<length (upstreams p)]"

definition apply_candidate_promotions :: "(bool \<times> u32 \<times> upstream_config) list \<Rightarrow> pool \<Rightarrow> (nat \<times> nat) \<times> pool" where
  "apply_candidate_promotions probes p = (
     let degraded = degraded_places p; cands = valid_candidates probes p
     in if degraded = [] \<and> length (upstreams p) \<ge> 9 then ((0, 0), p)
        else if cands = [] then ((0, 0), p)
        else let (demoted, active, rest, p') = replace_degraded degraded cands (upstreams p) p;
                 (more, active, p') = fill_up rest active p'
             in ((demoted, demoted + more),
                 if demoted > 0 \<or> demoted + more > 0 then recompute_ranks (p'\<lparr>upstreams := active\<rparr>) else p))"

text \<open>The candidates that are probed.\<close>

definition to_probe :: "pool \<Rightarrow> upstream_config list" where
  "to_probe p =
    (if length (upstreams p) < 9 \<or> (\<exists>i \<in> set (upstreams p). is_degraded (store p i))
     then filter (\<lambda>c. cfg_url c \<notin> (\<lambda>i. node_url (store p i)) ` set (upstreams p)) (candidates p) else [])"

definition demote_degraded_and_promote_best :: "(upstream_config \<Rightarrow> bool \<times> u32) \<Rightarrow> pool \<Rightarrow> (nat \<times> nat) \<times> pool" where
  "demote_degraded_and_promote_best test p = (
     let available = to_probe p
     in if available = [] then ((0, 0), p)
        else apply_candidate_promotions (map (\<lambda>cfg. let (ok, lat) = test cfg in (ok, lat, cfg)) available) p)"

text \<open>The periodic probe of the active nodes.\<close>

definition probe_node :: "(string \<Rightarrow> u32 option) \<Rightarrow> upstream_node \<Rightarrow> upstream_node" where
  "probe_node answer n = (
     let n = n\<lparr>pulls := pulls n + 1\<rparr>
     in case answer (node_url n) of Some lat \<Rightarrow> record_success lat n | None \<Rightarrow> record_error n)"

definition probe_active_upstreams :: "(string \<Rightarrow> u32 option) \<Rightarrow> (upstream_config \<Rightarrow> bool \<times> u32) \<Rightarrow> pool \<Rightarrow> pool" where
  "probe_active_upstreams answer test p = (
     let p = fold (\<lambda>i. update_node i (probe_node answer)) (upstreams p) p;
         (_, p) = demote_degraded_and_promote_best test p
     in recompute_ranks p)"

text \<open>The rebuilt pool: the nine best of the probed candidates.\<close>

definition fresh_node :: "bool \<times> u32 \<times> upstream_config \<Rightarrow> upstream_node" where
  "fresh_node = (\<lambda>(ok, lat, cfg). \<lparr>provider = normalize_provider_name (cfg_provider cfg), node_url = cfg_url cfg, node_aura = cfg_aura cfg,
     latency_ms = lat, node_errors = (if ok then 0 else 1), pulls = 1, successes = (if ok then 1 else 0),
     consecutive_successes = (if ok then 1 else 0), recent_latencies = (if ok then [lat] else [])\<rparr>)"

definition fresh_key :: "bool \<times> u32 \<times> upstream_config \<Rightarrow> rank_key" where
  "fresh_key = (\<lambda>(ok, lat, cfg). Rank (\<not> ok) (aura_rank_of (cfg_aura cfg)) lat)"

fun alloc_all :: "upstream_node list \<Rightarrow> pool \<Rightarrow> nat list \<times> pool" where
  "alloc_all [] p = ([], p)"
| "alloc_all (n # ns) p = (let (i, p) = alloc n p; (is, p) = alloc_all ns p in (i # is, p))"

definition fetched_configs :: "upstream_config list option list \<Rightarrow> upstream_config list option" where
  "fetched_configs feeds = find (\<lambda>cfgs. cfgs \<noteq> [])
     (map (filter (\<lambda>c. starts_with (cfg_url c) ''https://'')) (map (unwrap_or []) feeds))"

definition sync_and_rank :: "upstream_config list option list \<Rightarrow> (upstream_config \<Rightarrow> bool \<times> u32) \<Rightarrow> pool \<Rightarrow>
  nat \<times> pool" where
  "sync_and_rank feeds test p = (
     let cfgs = unwrap_or all_default_candidate_configs (fetched_configs feeds);
         p = p\<lparr>candidates := cfgs\<rparr>;
         probed = sort_key fresh_key (map (\<lambda>cfg. let (ok, lat) = test cfg in (ok, lat, cfg)) cfgs);
         (active, p) = alloc_all (map fresh_node (take (min (length probed) 9) probed)) p
     in (length active, recompute_ranks (p\<lparr>upstreams := active\<rparr>)))"

section \<open>Concurrent calls for one key\<close>

text \<open>
  \<open>Singleflight::do_call\<close>: the first caller of a key leads and asks upstream, later callers subscribe and
  wait. When the leader is done, or dropped, the guard takes the key out and, where there is a result,
  sends it to all that wait; a closed channel wakes them with nothing.
\<close>

datatype phase = Idle | Leading string | Waiting string | Woken "(bytes \<times> string) option" | Done "(bytes \<times> string) option" | Dropped

record flights =
  in_flight :: "string \<rightharpoonup> nat list"
  phase_of :: "nat \<Rightarrow> phase"
  coalesced :: u64

definition no_flights :: flights where
  "no_flights = \<lparr>in_flight = Map.empty, phase_of = (\<lambda>_. Idle), coalesced = 0\<rparr>"

definition do_call :: "string \<Rightarrow> nat \<Rightarrow> flights \<Rightarrow> flights" where
  "do_call key c s = (case in_flight s key of
     Some waiters \<Rightarrow> s\<lparr>in_flight := (in_flight s)(key \<mapsto> waiters @ [c]), phase_of := (phase_of s)(c := Waiting key)\<rparr>
   | None \<Rightarrow> s\<lparr>in_flight := (in_flight s)(key \<mapsto> []), phase_of := (phase_of s)(c := Leading key)\<rparr>)"

text \<open>The guard's \<open>drop\<close>: \<open>res\<close> is the result of a call that was completed with one.\<close>

definition drop_guard :: "string \<Rightarrow> (bytes \<times> string) option \<Rightarrow> flights \<Rightarrow> flights" where
  "drop_guard key res s = (
     let waiters = unwrap_or [] (in_flight s key)
     in s\<lparr>in_flight := (in_flight s)(key := None),
          phase_of := (\<lambda>c. if c \<in> set waiters \<and> phase_of s c = Waiting key then Woken res else phase_of s c)\<rparr>)"

definition leader_done :: "string \<Rightarrow> nat \<Rightarrow> (bytes \<times> string) option \<Rightarrow> flights \<Rightarrow> flights" where
  "leader_done key c res s = (let s = drop_guard key res s in s\<lparr>phase_of := (phase_of s)(c := Done res)\<rparr>)"

definition leader_dropped :: "string \<Rightarrow> nat \<Rightarrow> flights \<Rightarrow> flights" where
  "leader_dropped key c s = (let s = drop_guard key None s in s\<lparr>phase_of := (phase_of s)(c := Dropped)\<rparr>)"

definition wake :: "nat \<Rightarrow> (bytes \<times> string) option \<Rightarrow> flights \<Rightarrow> flights" where
  "wake c res s = s\<lparr>phase_of := (phase_of s)(c := Done res), coalesced := coalesced s + (if res = None then 0 else 1)\<rparr>"

inductive flight_step :: "flights \<Rightarrow> flights \<Rightarrow> bool" where
  Call: "phase_of s c = Idle \<Longrightarrow> flight_step s (do_call key c s)"
| Finish: "phase_of s c = Leading key \<Longrightarrow> flight_step s (leader_done key c res s)"
| Abort: "phase_of s c = Leading key \<Longrightarrow> flight_step s (leader_dropped key c s)"
| Wake: "phase_of s c = Woken res \<Longrightarrow> flight_step s (wake c res s)"
| Leave: "phase_of s c = Waiting key \<or> phase_of s c = Woken res \<Longrightarrow> flight_step s (s\<lparr>phase_of := (phase_of s)(c := Dropped)\<rparr>)"

inductive_cases flight_stepE: "flight_step s t"

inductive flight_reach :: "flights \<Rightarrow> bool" where
  Start: "flight_reach no_flights"
| Step: "flight_reach s \<Longrightarrow> flight_step s t \<Longrightarrow> flight_reach t"

section \<open>The hedged race\<close>

text \<open>
  \<open>resolve\<close> asks the best node, after 8 ms a second one, after 12 more a third, and takes the first answer.
  The environment decides in which order the calls and the timers end (\<open>order\<close>); a \<open>select!\<close> takes the first of its
  branches. It polls all of them on entry, and polling a call that has completed before is a panic of the
  async block. A call or timer that was just started is not ready, and no two of them become ready at the
  same moment (then the branch that the macro happens to poll first decides).
\<close>

datatype signal = Ended nat | Timer nat

type_synonym outcome = "(bytes \<times> string) option"

definition pick :: "signal list \<Rightarrow> signal list \<Rightarrow> signal" where
  "pick order branches = hd (filter (\<lambda>x. x \<in> set branches) order)"

text \<open>A \<open>select!\<close> over calls of which \<open>over\<close> have completed.\<close>

definition select_calls :: "signal list \<Rightarrow> nat list \<Rightarrow> signal list \<Rightarrow> signal rust" where
  "select_calls order over branches =
    (if \<exists>c \<in> set over. Ended c \<in> set branches then panic else ret (pick order branches))"

definition await_call :: "(nat \<Rightarrow> outcome) \<Rightarrow> nat list \<Rightarrow> nat \<Rightarrow> outcome rust" where
  "await_call r over c = (if c \<in> set over then panic else ret (r c))"

text \<open>
  What is left of the race; a result has the answer, whether it counts as a hedged win, and the calls that
  ended. The calls that did not end are dropped.
\<close>

definition last_two :: "(nat \<Rightarrow> outcome) \<Rightarrow> signal list \<Rightarrow> nat list \<Rightarrow> nat \<Rightarrow> nat \<Rightarrow> (outcome \<times> bool \<times> nat list) rust" where
  "last_two r order over a b = do {
     s \<leftarrow> select_calls order over [Ended a, Ended b];
     let (x, y) = (if s = Ended a then (a, b) else (b, a));
     if r x \<noteq> None then ret (r x, x \<noteq> 1, over @ [x])
     else do { res \<leftarrow> await_call r (over @ [x]) y; ret (res, y \<noteq> 1 \<and> res \<noteq> None, over @ [x, y]) } }"

definition last_three :: "(nat \<Rightarrow> outcome) \<Rightarrow> signal list \<Rightarrow> nat list \<Rightarrow> (outcome \<times> bool \<times> nat list) rust" where
  "last_three r order over = do {
     s \<leftarrow> select_calls order over [Ended 1, Ended 2, Ended 3];
     let x = (if s = Ended 1 then 1 else if s = Ended 2 then 2 else 3);
     if r x \<noteq> None then ret (r x, x \<noteq> 1, over @ [x])
     else if x = 1 then last_two r order (over @ [1]) 2 3
     else if x = 2 then last_two r order (over @ [2]) 1 3
     else last_two r order (over @ [3]) 1 2 }"

text \<open>The result has the number of calls that were started, too.\<close>

definition hedged :: "nat \<Rightarrow> (nat \<Rightarrow> outcome) \<Rightarrow> signal list \<Rightarrow> (nat \<times> outcome \<times> bool \<times> nat list) rust" where
  "hedged n r order =
    (if n = 0 then ret (0, None, False, [])
     else let s = pick order [Ended 1, Timer 1]; over = (if s = Ended 1 then [1] else []) in
       if s = Ended 1 \<and> r 1 \<noteq> None then ret (1, r 1, False, over)
       else if n = 1 then do { res \<leftarrow> await_call r over 1; ret (1, res, False, [1]) }
       else do {
         s \<leftarrow> select_calls order over [Ended 1, Ended 2, Timer 2];
         let over = (if s = Ended 1 then [1] else if s = Ended 2 then [2] else []);
         if s = Ended 1 \<and> r 1 \<noteq> None then ret (2, r 1, False, over)
         else if s = Ended 2 \<and> r 2 \<noteq> None then ret (2, r 2, True, over)
         else if n = 2 then do { res \<leftarrow> last_two r order over 1 2; ret (2, res) }
         else do { res \<leftarrow> last_three r order over; ret (3, res) } })"

section \<open>What is sent\<close>

definition b64_char :: "nat \<Rightarrow> char" where
  "b64_char v = ''ABCDEFGHIJKLMNOPQRSTUVWXYZabcdefghijklmnopqrstuvwxyz0123456789-_'' ! v"

text \<open>The sextets of \<open>(b0 << 16) | (b1 << 8) | b2\<close>.\<close>

definition sextet :: "nat \<Rightarrow> u8 \<Rightarrow> u8 \<Rightarrow> u8 \<Rightarrow> char" where
  "sextet k b0 b1 b2 = b64_char ((unat b0 * 65536 + unat b1 * 256 + unat b2) div 64 ^ k mod 64)"

fun to_base64_url :: "bytes \<Rightarrow> string" where
  "to_base64_url [] = []"
| "to_base64_url [b0] = [sextet 3 b0 0 0, sextet 2 b0 0 0]"
| "to_base64_url [b0, b1] = [sextet 3 b0 b1 0, sextet 2 b0 b1 0, sextet 1 b0 b1 0]"
| "to_base64_url (b0 # b1 # b2 # bs) =
    [sextet 3 b0 b1 b2, sextet 2 b0 b1 b2, sextet 1 b0 b1 b2, sextet 0 b0 b1 b2] @ to_base64_url bs"

definition get_url :: "string \<Rightarrow> bytes \<Rightarrow> string" where
  "get_url url w = url @ (if CHR ''?'' \<in> set url then ''&dns='' else ''?dns='') @ to_base64_url w"

text \<open>POST and, where it brings no message, GET.\<close>

definition execute_query :: "(string \<Rightarrow> bytes \<Rightarrow> bytes option) \<Rightarrow> (string \<Rightarrow> bytes option) \<Rightarrow> bytes \<Rightarrow> upstream_node \<Rightarrow> outcome" where
  "execute_query post get w n = (
     let whole = (\<lambda>resp. case resp of Some b \<Rightarrow> if length b \<ge> 12 then Some b else None | None \<Rightarrow> None);
         resolved = (case whole (post (node_url n) w) of Some b \<Rightarrow> Some b | None \<Rightarrow> whole (get (get_url (node_url n) w)))
     in map_option (\<lambda>b. (b, provider n)) resolved)"

definition settle_node :: "outcome \<Rightarrow> u32 \<Rightarrow> upstream_node \<Rightarrow> upstream_node" where
  "settle_node res elapsed n = (if res = None then record_error n else record_success elapsed n)"

definition flight_key :: "(bytes \<Rightarrow> u64) \<Rightarrow> bytes \<Rightarrow> string rust" where
  "flight_key hash w = do {
     p \<leftarrow> parse_dns_query w;
     ret (case p of
         Some parsed \<Rightarrow> (case question parsed of
           Some q \<Rightarrow> qname q @ '':'' @ decimal (unat (qtype q))
         | None \<Rightarrow> ''wire-'' @ decimal (unat (hash w)))
       | None \<Rightarrow> ''wire-'' @ decimal (unat (hash w))) }"

definition upstream_wire :: "bytes \<Rightarrow> bytes rust" where
  "upstream_wire w = do { w \<leftarrow> ensure_edns0_do_bit w; process_ecs_option w Strip }"

text \<open>
  The call that the leader of a flight makes. \<open>elapsed\<close> is the time that the calls take; a call that was started counts,
  and one that ended is settled.
\<close>

definition settle_race :: "nat list \<Rightarrow> (nat \<Rightarrow> outcome) \<Rightarrow> (nat \<Rightarrow> u32) \<Rightarrow> nat \<Rightarrow> nat list \<Rightarrow> pool \<Rightarrow> pool" where
  "settle_race nodes r elapsed started over p =
     fold (\<lambda>i. update_node (nodes ! (i - 1)) (settle_node (r i) (elapsed i))) over
       (fold (\<lambda>i. update_node i (\<lambda>n. n\<lparr>pulls := pulls n + 1\<rparr>)) (take started nodes) p)"

definition resolve_call :: "(string \<Rightarrow> bytes \<Rightarrow> bytes option) \<Rightarrow> (string \<Rightarrow> bytes option) \<Rightarrow> signal list \<Rightarrow> (nat \<Rightarrow> u32) \<Rightarrow>
  bytes \<Rightarrow> pool \<Rightarrow> ((outcome \<times> bool) \<times> pool) rust" where
  "resolve_call post get order elapsed w p = (
     let nodes = take 3 (cached_ranked p)
     in if nodes = [] then ret ((None, False), p)
        else do {
          w \<leftarrow> upstream_wire w;
          let r = (\<lambda>i. execute_query post get w (store p (nodes ! (i - 1))));
          (started, res, win, over) \<leftarrow> hedged (length nodes) r order;
          ret ((res, win), settle_race nodes r elapsed started over p) })"

text \<open>
  \<open>resolve_race\<close>: all nodes with fewer than ten errors, and the first that answers, in the order \<open>order\<close> of the
  environment. The calls are tasks of their own, which run to their ends; one that fails is not counted as
  an error. Where no node is left, the code goes on with \<open>resolve\<close>: the outer \<open>None\<close>.
\<close>

definition race_answer :: "(string \<Rightarrow> bytes \<Rightarrow> bytes option) \<Rightarrow> bytes \<Rightarrow> upstream_node \<Rightarrow> outcome" where
  "race_answer post w n = (case post (node_url n) w of Some b \<Rightarrow> if length b \<ge> 12 then Some (b, provider n) else None | None \<Rightarrow> None)"

definition settle_all :: "(nat \<Rightarrow> outcome) \<Rightarrow> (nat \<Rightarrow> u32) \<Rightarrow> nat list \<Rightarrow> pool \<Rightarrow> pool" where
  "settle_all r elapsed nodes p =
     fold (\<lambda>i. update_node i (\<lambda>n. let n = n\<lparr>pulls := pulls n + 1\<rparr> in if r i = None then n else record_success (elapsed i) n)) nodes p"

definition resolve_all :: "(string \<Rightarrow> bytes \<Rightarrow> bytes option) \<Rightarrow> nat list \<Rightarrow> (nat \<Rightarrow> u32) \<Rightarrow> bytes \<Rightarrow> pool \<Rightarrow> (outcome \<times> pool) option rust" where
  "resolve_all post order elapsed w p = (
     let healthy = filter (\<lambda>i. node_errors (store p i) < 10) (cached_ranked p)
     in if healthy = [] then ret None
        else do {
          w \<leftarrow> ensure_edns0_do_bit w;
          let r = (\<lambda>i. race_answer post w (store p i));
          let first = find (\<lambda>i. i \<in> set healthy \<and> r i \<noteq> None) order;
          ret (Some (case first of Some i \<Rightarrow> r i | None \<Rightarrow> None, settle_all r elapsed healthy p)) })"

section \<open>Runs of the pool\<close>

definition pool_new :: pool where
  "pool_new = (
     let (active, p) = alloc_all (map node_new default_upstreams_config)
           \<lparr>store = (\<lambda>_. node_new \<lparr>cfg_provider = [], cfg_url = [], cfg_aura = []\<rparr>), next_node = 0, upstreams = [], cached_ranked = [],
            candidates = all_default_candidate_configs\<rparr>
     in recompute_ranks (p\<lparr>upstreams := active\<rparr>))"

datatype pool_op = Answered nat u32 | Failed nat | Re_Rank | Reset_Errors
  | Promote "(bool \<times> u32 \<times> upstream_config) list"
  | Probe "string \<Rightarrow> u32 option" "upstream_config \<Rightarrow> bool \<times> u32"
  | Sync "upstream_config list option list" "upstream_config \<Rightarrow> bool \<times> u32"

fun pool_step :: "pool_op \<Rightarrow> pool \<Rightarrow> pool" where
  "pool_step (Answered i lat) p = (if i < next_node p then update_node i (\<lambda>n. record_success lat (n\<lparr>pulls := pulls n + 1\<rparr>)) p else p)"
| "pool_step (Failed i) p = (if i < next_node p then update_node i (\<lambda>n. record_error (n\<lparr>pulls := pulls n + 1\<rparr>)) p else p)"
| "pool_step Re_Rank p = recompute_ranks p"
| "pool_step Reset_Errors p = reset_cb p"
| "pool_step (Promote probes) p = snd (apply_candidate_promotions probes p)"
| "pool_step (Probe answer test) p = probe_active_upstreams answer test p"
| "pool_step (Sync feeds test) p = snd (sync_and_rank feeds test p)"

definition node_ok :: "upstream_node \<Rightarrow> bool" where
  "node_ok n \<longleftrightarrow> length (recent_latencies n) \<le> 30"

definition pool_ok :: "pool \<Rightarrow> bool" where
  "pool_ok p \<longleftrightarrow> distinct (upstreams p) \<and> (\<forall>i \<in> set (upstreams p). i < next_node p) \<and> upstreams p \<noteq> [] \<and> length (upstreams p) \<le> 9 \<and>
     mset (cached_ranked p) = mset (upstreams p) \<and> (\<forall>i. node_ok (store p i))"

lemma node_ok_updates [simp]: "node_ok n \<Longrightarrow> node_ok (record_success lat n)" "node_ok (record_error n) = node_ok n"
  "node_ok (n\<lparr>pulls := k\<rparr>) = node_ok n" "node_ok (n\<lparr>node_errors := e\<rparr>) = node_ok n" "node_ok (promoted_node c)" "node_ok (fresh_node x)" "node_ok (node_new cfg)"
  by (auto simp: node_ok_def record_success_def record_error_def promoted_node_def fresh_node_def node_new_def Let_def split: prod.split)

lemma pool_ok_update: "pool_ok p \<Longrightarrow> node_ok (f (store p i)) \<Longrightarrow> pool_ok (update_node i f p)"
  by (simp add: pool_ok_def update_node_def)

lemma pool_ok_updates: "pool_ok p \<Longrightarrow> (\<And>n. node_ok n \<Longrightarrow> node_ok (f n)) \<Longrightarrow> pool_ok (fold (\<lambda>i. update_node i f) is p)"
  by (induction "is" arbitrary: p) (auto simp: pool_ok_def update_node_def)

lemma pool_ok_rank: "pool_ok (p\<lparr>cached_ranked := upstreams p\<rparr>) \<Longrightarrow> pool_ok (recompute_ranks p)"
  by (simp add: pool_ok_def recompute_ranks_def)

lemma ranked_ok: "pool_ok p \<Longrightarrow> pool_ok (recompute_ranks p)"
  by (rule pool_ok_rank) (simp add: pool_ok_def)

text \<open>Allocation gives new addresses.\<close>

definition grows :: "pool \<Rightarrow> pool \<Rightarrow> bool" where
  "grows p q \<longleftrightarrow> next_node p \<le> next_node q \<and> (\<forall>i < next_node p. store q i = store p i) \<and>
     ((\<forall>i. node_ok (store p i)) \<longrightarrow> (\<forall>i. node_ok (store q i))) \<and>
     upstreams q = upstreams p \<and> cached_ranked q = cached_ranked p \<and> candidates q = candidates p"

lemma grows_refl [simp]: "grows p p"
  by (simp add: grows_def)

lemma grows_trans: "grows p q \<Longrightarrow> grows q r \<Longrightarrow> grows p r"
  by (auto simp: grows_def)

lemma alloc_grows: "alloc n p = (i, q) \<Longrightarrow> node_ok n \<Longrightarrow> grows p q \<and> i = next_node p \<and> next_node q = next_node p + 1 \<and> store q i = n"
  by (auto simp: alloc_def grows_def)

lemma alloc_all_grows: "alloc_all ns p = (is, q) \<Longrightarrow> \<forall>n \<in> set ns. node_ok n \<Longrightarrow>
    grows p q \<and> is = [next_node p..<next_node p + length ns] \<and> next_node q = next_node p + length ns \<and> map (store q) is = ns"
proof (induction ns arbitrary: p "is" q)
  case (Cons n ns)
  obtain i p1 where a: "alloc n p = (i, p1)" by fastforce
  obtain js p2 where b: "alloc_all ns p1 = (js, p2)" by fastforce
  note A = alloc_grows [OF a] and B = Cons.IH [OF b]
  have "is = i # js" "q = p2" using Cons.prems(1) a b by simp_all
  moreover have "store p2 i = n" using A B Cons.prems(2) by (auto simp: grows_def)
  moreover have "[next_node p..<next_node p + length (n # ns)] = next_node p # [next_node p + 1..<next_node p + 1 + length ns]"
    by (simp add: upt_conv_Cons del: upt_Suc)
  ultimately show ?case using A B Cons.prems(2) by (auto intro: grows_trans simp del: upt_Suc)
qed simp

definition fresh_list :: "pool \<Rightarrow> nat list \<Rightarrow> bool" where
  "fresh_list p is \<longleftrightarrow> distinct is \<and> (\<forall>i \<in> set is. i < next_node p)"

lemma fresh_put: "fresh_list p active \<Longrightarrow> next_node q = next_node p + 1 \<Longrightarrow> fresh_list q (active[k := next_node p])"
  "fresh_list p active \<Longrightarrow> next_node q = next_node p + 1 \<Longrightarrow> fresh_list q (active @ [next_node p])"
  by (auto simp: fresh_list_def distinct_list_update less_Suc_eq dest!: subsetD [OF set_update_subset_insert])

lemma replace_ok: "replace_degraded ds cs active p = (n, act, rest, q) \<Longrightarrow> fresh_list p active \<Longrightarrow>
    grows p q \<and> fresh_list q act \<and> length act = length active \<and> n = min (length ds) (length cs) \<and> rest = drop n cs"
proof (induction ds cs active p arbitrary: n act rest q rule: replace_degraded.induct)
  case (3 d ds c cs active p)
  obtain i p1 where a: "alloc (promoted_node c) p = (i, p1)" by fastforce
  obtain n' act' rest' p2 where b: "replace_degraded ds cs (active[d := i]) p1 = (n', act', rest', p2)" by (metis prod_cases4)
  have A: "grows p p1 \<and> i = next_node p \<and> next_node p1 = next_node p + 1" using alloc_grows [OF a] by simp
  then have f: "fresh_list p1 (active[d := i])" using fresh_put(1) [OF "3.prems"(2)] by simp
  from "3.IH" [OF a [symmetric] refl b f] "3.prems"(1) a b A show ?case by (auto intro: grows_trans)
qed auto

lemma fill_ok: "fill_up cs active p = (n, act, q) \<Longrightarrow> fresh_list p active \<Longrightarrow>
    grows p q \<and> fresh_list q act \<and> n = min (length cs) (9 - length active) \<and> length act = length active + n"
proof (induction cs active p arbitrary: n act q rule: fill_up.induct)
  case (2 c cs active p)
  show ?case
  proof (cases "length active < 9")
    case True
    obtain i p1 where a: "alloc (promoted_node c) p = (i, p1)" by fastforce
    obtain n' act' p2 where b: "fill_up cs (active @ [i]) p1 = (n', act', p2)" by (metis prod_cases3)
    have A: "grows p p1 \<and> i = next_node p \<and> next_node p1 = next_node p + 1" using alloc_grows [OF a] by simp
    then have f: "fresh_list p1 (active @ [i])" using fresh_put(2) [OF "2.prems"(2)] by simp
    have nine: "9 - length active = Suc (9 - length (active @ [i]))" using True by simp
    from "2.IH" [OF True a [symmetric] refl b f] "2.prems"(1) a b A True show ?thesis
      by (auto intro: grows_trans simp del: length_append simp: nine) (simp_all add: nine)
  qed (use 2 in auto)
qed simp

lemma degraded_length: "length (degraded_places p) \<le> length (upstreams p)"
  unfolding degraded_places_def by (rule order_trans [OF length_filter_le]) simp

lemma promotions_form:
  assumes ok: "pool_ok p" and work: "degraded_places p \<noteq> [] \<or> length (upstreams p) < 9" and c: "valid_candidates probes p \<noteq> []"
  obtains d active rest q1 m act q where "replace_degraded (degraded_places p) (valid_candidates probes p) (upstreams p) p = (d, active, rest, q1)"
    and "fill_up rest active q1 = (m, act, q)"
    and "apply_candidate_promotions probes p = ((d, d + m), recompute_ranks (q\<lparr>upstreams := act\<rparr>))"
    and "grows p q1" "grows q1 q" "fresh_list q act" "d = min (length (degraded_places p)) (length (valid_candidates probes p))"
    and "m = min (length (valid_candidates probes p) - d) (9 - length (upstreams p))" "length act = length (upstreams p) + m"
    and "rest = drop d (valid_candidates probes p)" "length active = length (upstreams p)"
proof -
  obtain d active rest q1 where r: "replace_degraded (degraded_places p) (valid_candidates probes p) (upstreams p) p = (d, active, rest, q1)"
    by (metis prod_cases4)
  obtain m act q where f: "fill_up rest active q1 = (m, act, q)" by (metis prod_cases3)
  have up: "fresh_list p (upstreams p)" using ok by (simp add: pool_ok_def fresh_list_def)
  note R = replace_ok [OF r up]
  note F = fill_ok [OF f] R
  have "d > 0 \<or> m > 0" using work c R F by (cases "degraded_places p = []") (auto simp: min_def)
  then have "apply_candidate_promotions probes p = ((d, d + m), recompute_ranks (q\<lparr>upstreams := act\<rparr>))"
    using work c by (auto simp: apply_candidate_promotions_def Let_def r f)
  then show thesis using that [OF r f] R F by auto
qed

lemma promotions_ok:
  assumes "pool_ok p"
  shows "pool_ok (snd (apply_candidate_promotions probes p))"
proof (cases "(degraded_places p \<noteq> [] \<or> length (upstreams p) < 9) \<and> valid_candidates probes p \<noteq> []")
  case True
  show ?thesis
  proof (rule promotions_form [OF assms conjunct1 [OF True] conjunct2 [OF True]])
    fix d active rest q1 m act q
    assume a: "apply_candidate_promotions probes p = ((d, d + m), recompute_ranks (q\<lparr>upstreams := act\<rparr>))"
      and g: "grows p q1" "grows q1 q" and f: "fresh_list q act"
      and l: "m = min (length (valid_candidates probes p) - d) (9 - length (upstreams p))" "length act = length (upstreams p) + m"
    have "pool_ok (recompute_ranks (q\<lparr>upstreams := act\<rparr>))"
      using grows_trans [OF g] assms f l by (intro pool_ok_rank) (auto simp: pool_ok_def grows_def fresh_list_def)
    with a show ?thesis by simp
  qed
qed (use assms in \<open>auto simp: apply_candidate_promotions_def Let_def\<close>)

lemma demote_ok: "pool_ok p \<Longrightarrow> pool_ok (snd (demote_degraded_and_promote_best test p))"
  by (simp add: demote_degraded_and_promote_best_def Let_def promotions_ok)

lemma fetched_nonempty: "fetched_configs feeds = Some cfgs \<Longrightarrow> cfgs \<noteq> []"
  by (auto simp: fetched_configs_def find_Some_iff)

lemma new_list_ok:
  assumes "alloc_all ns p = (is, q)" "\<forall>n \<in> set ns. node_ok n" "ns \<noteq> []" "length ns \<le> 9" "\<forall>i. node_ok (store p i)"
  shows "pool_ok (recompute_ranks (q\<lparr>upstreams := is\<rparr>))"
  using alloc_all_grows [OF assms(1,2)] assms(3-5)
  by (intro pool_ok_rank) (auto simp: pool_ok_def grows_def)

lemma sync_ok:
  assumes "pool_ok p"
  shows "pool_ok (snd (sync_and_rank feeds test p))"
proof -
  define cfgs where "cfgs = unwrap_or all_default_candidate_configs (fetched_configs feeds)"
  define probed where "probed = sort_key fresh_key (map (\<lambda>cfg. let (ok, lat) = test cfg in (ok, lat, cfg)) cfgs)"
  obtain a q where a: "alloc_all (map fresh_node (take (min (length probed) 9) probed)) (p\<lparr>candidates := cfgs\<rparr>) = (a, q)" by fastforce
  have "cfgs \<noteq> []" using fetched_nonempty by (cases "fetched_configs feeds") (auto simp: cfgs_def)
  then have "length probed \<noteq> 0" unfolding probed_def length_sort length_map by simp
  then have "pool_ok (recompute_ranks (q\<lparr>upstreams := a\<rparr>))"
    using assms by (intro new_list_ok [OF a]) (auto simp: pool_ok_def)
  moreover have "snd (sync_and_rank feeds test p) = recompute_ranks (q\<lparr>upstreams := a\<rparr>)"
    unfolding sync_and_rank_def Let_def cfgs_def [symmetric] probed_def [unfolded Let_def, symmetric] a by simp
  ultimately show ?thesis by simp
qed

lemma pool_step_ok:
  assumes p: "pool_ok p"
  shows "pool_ok (pool_step op p)"
proof (cases op)
  case (Answered i lat)
  have "node_ok (store p i)" using p by (simp add: pool_ok_def)
  then show ?thesis using p by (simp add: Answered pool_ok_update)
next
  case (Failed i)
  have "node_ok (store p i)" using p by (simp add: pool_ok_def)
  then show ?thesis using p by (simp add: Failed pool_ok_update)
next
  case (Probe answer test)
  have "pool_ok (fold (\<lambda>i. update_node i (probe_node answer)) (upstreams p) p)"
    by (rule pool_ok_updates [OF p]) (auto simp: probe_node_def Let_def split: option.split)
  from ranked_ok [OF demote_ok [OF this, of test]] show ?thesis
    by (simp add: Probe probe_active_upstreams_def Let_def split_beta)
next
  case Reset_Errors
  have "pool_ok (fold (\<lambda>i. update_node i (\<lambda>n. n\<lparr>node_errors := 0\<rparr>)) (upstreams p) p)" by (rule pool_ok_updates [OF p]) simp
  then show ?thesis by (simp add: Reset_Errors reset_cb_def)
qed (simp_all add: p ranked_ok promotions_ok sync_ok)

lemma pool_runs_ok: "pool_ok (fold pool_step ops pool_new)"
proof -
  have "pool_ok pool_new" by (auto simp: pool_new_def Let_def split: prod.split intro!: new_list_ok)
  then show ?thesis by (induction ops rule: rev_induct) (simp_all add: pool_step_ok)
qed

text \<open>
  C35: The pool of upstream servers is never empty and never larger than nine, its nodes are distinct, and
  its ranked list is a permutation of it, through every run of answers, failures, rankings,
  promotions, periodic probes and reloads, whatever the servers and the feeds answer; no node remembers more than thirty latencies.
\<close>

theorem pool_invariant: "pool_ok (fold pool_step ops pool_new)"
  by (rule pool_runs_ok)

section \<open>Who is promoted\<close>

lemma replace_places:
  assumes "replace_degraded ds cs active p = (n, act, rest, q)" "distinct ds" "\<forall>d \<in> set ds. d < length active" "fresh_list p active"
  shows "\<forall>k < length active. act ! k = active ! k \<and> k \<notin> set (take n ds) \<or>
    (\<exists>j < n. ds ! j = k \<and> store q (act ! k) = promoted_node (cs ! j))"
  using assms
proof (induction ds cs active p arbitrary: n act rest q rule: replace_degraded.induct)
  case (3 d ds c cs active p)
  obtain i p1 where a: "alloc (promoted_node c) p = (i, p1)" by fastforce
  obtain n' act' rest' p2 where b: "replace_degraded ds cs (active[d := i]) p1 = (n', act', rest', p2)" by (metis prod_cases4)
  have A: "grows p p1 \<and> i = next_node p \<and> next_node p1 = next_node p + 1 \<and> store p1 i = promoted_node c" using alloc_grows [OF a] by auto
  then have f: "fresh_list p1 (active[d := i])" using fresh_put(1) [OF "3.prems"(4)] by simp
  have e: "n = Suc n'" "act = act'" "q = p2" using "3.prems"(1) a b by simp_all
  have G: "grows p1 p2 \<and> length act' = length active" using replace_ok [OF b f] by simp
  from "3.IH" [OF a [symmetric] refl b _ _ f] "3.prems"(2,3)
  have IH: "act' ! k = active[d := i] ! k \<and> k \<notin> set (take n' ds) \<or> (\<exists>j < n'. ds ! j = k \<and> store p2 (act' ! k) = promoted_node (cs ! j))"
    if "k < length active" for k using that by simp
  show ?case
  proof (intro allI impI)
    fix k assume k: "k < length active"
    show "act ! k = active ! k \<and> k \<notin> set (take n (d # ds)) \<or> (\<exists>j < n. (d # ds) ! j = k \<and> store q (act ! k) = promoted_node ((c # cs) ! j))"
    proof (cases "k = d")
      case True
      have "d \<notin> set ds" using "3.prems"(2) by simp
      then have "\<not> (\<exists>j < n'. ds ! j = k \<and> store p2 (act' ! k) = promoted_node (cs ! j))"
        using True replace_ok [OF b f] by (metis min_less_iff_conj nth_mem)
      with IH [OF k] True k have "act' ! k = i" by auto
      moreover have "store p2 i = promoted_node c" using A G by (auto simp: grows_def)
      ultimately show ?thesis using True e by (intro disjI2 exI [where x = 0]) simp
    next
      case False
      from IH [OF k] False show ?thesis unfolding e by (auto intro: exI [where x = "Suc j" for j])
    qed
  qed
qed auto

lemma fill_places:
  assumes "fill_up cs active p = (n, act, q)" "fresh_list p active"
  shows "take (length active) act = active \<and> (\<forall>j < n. store q (act ! (length active + j)) = promoted_node (cs ! j))"
  using assms
proof (induction cs active p arbitrary: n act q rule: fill_up.induct)
  case (2 c cs active p)
  show ?case
  proof (cases "length active < 9")
    case True
    obtain i p1 where a: "alloc (promoted_node c) p = (i, p1)" by fastforce
    obtain n' act' p2 where b: "fill_up cs (active @ [i]) p1 = (n', act', p2)" by (metis prod_cases3)
    have A: "grows p p1 \<and> i = next_node p \<and> next_node p1 = next_node p + 1 \<and> store p1 i = promoted_node c" using alloc_grows [OF a] by auto
    then have f: "fresh_list p1 (active @ [i])" using fresh_put(2) [OF "2.prems"(2)] by simp
    have e: "n = Suc n'" "act = act'" "q = p2" using "2.prems"(1) a b True by simp_all
    have G: "grows p1 p2" "length act' = length active + 1 + n'" using fill_ok [OF b f] by simp_all
    from "2.IH" [OF True a [symmetric] refl b f]
    have IH: "take (length active + 1) act' = active @ [i]" "\<forall>j < n'. store p2 (act' ! (length active + 1 + j)) = promoted_node (cs ! j)" by simp_all
    have t: "take (length active) act' = active" using IH(1) by (metis append_eq_conv_conj le_add1 min.absorb1 take_take)
    have "act' ! length active = i" using IH(1) by (metis Suc_eq_plus1 lessI nth_append_length nth_take)
    moreover have "store p2 i = promoted_node c" using A G(1) by (auto simp: grows_def)
    ultimately have "store p2 (act' ! (length active + j)) = promoted_node ((c # cs) ! j)" if "j < Suc n'" for j
      using IH(2) that by (cases j) auto
    with t show ?thesis by (simp add: e)
  qed (use 2 in auto)
qed simp



section \<open>The best node\<close>

lemma key_order:
  "node_key m \<le> node_key n \<Longrightarrow>
    (node_errors n < 5 \<longrightarrow> node_errors m < 5) \<and>
    ((node_errors n < 5 \<longleftrightarrow> node_errors m < 5) \<longrightarrow>
       aura_rank_of (node_aura n) \<le> aura_rank_of (node_aura m) \<and>
       (aura_rank_of (node_aura n) = aura_rank_of (node_aura m) \<longrightarrow> effective_latency m \<le> effective_latency n))"
  by (cases "node_errors n < 5"; cases "node_errors m < 5") (auto simp: node_key_def)

text \<open>
  The ranking. After ranks are recomputed, the best node is one of the active ones, and no active node is
  better: it has fewer than five errors if any node has; among those its aura is highest; and among
  nodes of this aura its latency, with 50 ms for each error, is least. With no active nodes there is no best one.
\<close>

theorem ranking_spec:
  "case select_best (recompute_ranks p) of
     None \<Rightarrow> upstreams p = []
   | Some b \<Rightarrow> b \<in> set (upstreams p) \<and>
       (\<forall>i \<in> set (upstreams p). let m = store p b; n = store p i in
          (node_errors n < 5 \<longrightarrow> node_errors m < 5) \<and>
          ((node_errors n < 5 \<longleftrightarrow> node_errors m < 5) \<longrightarrow>
             aura_rank_of (node_aura n) \<le> aura_rank_of (node_aura m) \<and>
             (aura_rank_of (node_aura n) = aura_rank_of (node_aura m) \<longrightarrow> effective_latency m \<le> effective_latency n)))"
proof (cases "sort_key (\<lambda>i. node_key (store p i)) (upstreams p)")
  case Nil
  then show ?thesis by (simp add: select_best_def recompute_ranks_def) (metis length_0_conv length_sort)
next
  case (Cons b js)
  have b: "b \<in> set (upstreams p)" by (metis Cons list.set_intros(1) set_sort)
  have "sorted (map (\<lambda>i. node_key (store p i)) (b # js))" by (metis Cons sorted_sort_key)
  moreover have "set (upstreams p) = set (b # js)" by (metis Cons set_sort)
  ultimately have "\<forall>i \<in> set (upstreams p). node_key (store p b) \<le> node_key (store p i)" by auto
  note best = ballI [OF key_order, OF bspec [OF this]]
  moreover have "select_best (recompute_ranks p) = Some b" by (simp add: select_best_def recompute_ranks_def Cons)
  ultimately show ?thesis using b unfolding Let_def by (simp only: option.case simp_thms)
qed

theorem ranking_spec_witness: "select_best (recompute_ranks pool_new) \<noteq> None"
  using ranking_spec [of pool_new] pool_runs_ok [of "[]"]
  by (cases "select_best (recompute_ranks pool_new)") (simp_all add: pool_ok_def)

section \<open>One call per key\<close>

definition flights_ok :: "flights \<Rightarrow> bool" where
  "flights_ok s \<longleftrightarrow>
     (\<forall>key. in_flight s key = None \<longleftrightarrow> (\<forall>c. phase_of s c \<noteq> Leading key)) \<and>
     (\<forall>key c d. phase_of s c = Leading key \<longrightarrow> phase_of s d = Leading key \<longrightarrow> c = d) \<and>
     (\<forall>key c. phase_of s c = Waiting key \<longrightarrow> (\<exists>ws. in_flight s key = Some ws \<and> c \<in> set ws))"

lemma flights_okD:
  assumes "flights_ok s"
  shows "in_flight s key = None \<longleftrightarrow> (\<forall>c. phase_of s c \<noteq> Leading key)"
    "phase_of s c = Leading key \<Longrightarrow> phase_of s d = Leading key \<Longrightarrow> c = d"
    "phase_of s c = Waiting key \<Longrightarrow> \<exists>ws. in_flight s key = Some ws \<and> c \<in> set ws"
  using assms unfolding flights_ok_def by blast+

lemma flights_okI:
  assumes "\<And>k. in_flight t k = None \<longleftrightarrow> (\<forall>c. phase_of t c \<noteq> Leading k)"
    "\<And>k c d. phase_of t c = Leading k \<Longrightarrow> phase_of t d = Leading k \<Longrightarrow> c = d"
    "\<And>k c. phase_of t c = Waiting k \<Longrightarrow> \<exists>ws. in_flight t k = Some ws \<and> c \<in> set ws"
  shows "flights_ok t"
  unfolding flights_ok_def using assms by blast

lemma do_call_ok:
  assumes "flights_ok s" "phase_of s c = Idle"
  shows "flights_ok (do_call key c s)"
proof (cases "in_flight s key")
  case None
  have n: "phase_of s d \<noteq> Leading key" for d using None flights_okD(1) [OF assms(1)] by blast
  have L: "phase_of (do_call key c s) d = Leading k \<longleftrightarrow> (if d = c then k = key else phase_of s d = Leading k)"
    and W: "phase_of (do_call key c s) d = Waiting k \<longleftrightarrow> d \<noteq> c \<and> phase_of s d = Waiting k" for d k
    by (auto simp: do_call_def None)
  have I: "in_flight (do_call key c s) = (in_flight s)(key \<mapsto> [])" by (simp add: do_call_def None)
  have other: "(\<forall>d. \<not> (if d = c then k = key else phase_of s d = Leading k)) \<longleftrightarrow> k \<noteq> key \<and> (\<forall>d. phase_of s d \<noteq> Leading k)" for k
    using assms(2) by (metis phase.distinct(1))
  show ?thesis
  proof (rule flights_okI, unfold L W I)
    fix k d assume "d \<noteq> c \<and> phase_of s d = Waiting k"
    moreover then have "k \<noteq> key" using None flights_okD(3) [OF assms(1)] by fastforce
    ultimately show "\<exists>ws. ((in_flight s)(key \<mapsto> [])) k = Some ws \<and> d \<in> set ws" using flights_okD(3) [OF assms(1)] by simp
  next
    fix k d e assume "if d = c then k = key else phase_of s d = Leading k" "if e = c then k = key else phase_of s e = Leading k"
    then show "d = e" using n flights_okD(2) [OF assms(1)] by (metis (full_types))
  next
    fix k show "(((in_flight s)(key \<mapsto> [])) k = None) = (\<forall>d. \<not> (if d = c then k = key else phase_of s d = Leading k))"
      unfolding other using flights_okD(1) [OF assms(1)] by simp
  qed
next
  case (Some ws)
  have L: "phase_of (do_call key c s) d = Leading k \<longleftrightarrow> phase_of s d = Leading k"
    and W: "phase_of (do_call key c s) d = Waiting k \<longleftrightarrow> (if d = c then k = key else phase_of s d = Waiting k)" for d k
    using assms(2) by (auto simp: do_call_def Some)
  have I: "in_flight (do_call key c s) = (in_flight s)(key \<mapsto> ws @ [c])" by (simp add: do_call_def Some)
  show ?thesis
  proof (rule flights_okI, unfold L W I)
    fix k d assume "if d = c then k = key else phase_of s d = Waiting k"
    then show "\<exists>v. ((in_flight s)(key \<mapsto> ws @ [c])) k = Some v \<and> d \<in> set v"
      using flights_okD(3) [OF assms(1), of d k] Some by (cases "d = c") auto
  next
    fix k d e assume "phase_of s d = Leading k" "phase_of s e = Leading k"
    then show "d = e" using flights_okD(2) [OF assms(1)] by blast
  next
    fix k show "(((in_flight s)(key \<mapsto> ws @ [c])) k = None) = (\<forall>d. phase_of s d \<noteq> Leading k)"
      using flights_okD(1) [OF assms(1), of k] Some by (cases "k = key") auto
  qed
qed

lemma phase_change:
  assumes "\<forall>k. phase_of s c \<noteq> Leading k" "\<forall>k. ph \<noteq> Leading k \<and> ph \<noteq> Waiting k" "flights_ok s"
  shows "flights_ok (s\<lparr>phase_of := (phase_of s)(c := ph)\<rparr>)"
proof -
  have L: "phase_of (s\<lparr>phase_of := (phase_of s)(c := ph)\<rparr>) d = Leading k \<longleftrightarrow> phase_of s d = Leading k"
    and W: "phase_of (s\<lparr>phase_of := (phase_of s)(c := ph)\<rparr>) d = Waiting k \<Longrightarrow> phase_of s d = Waiting k" for d k
    using assms(1,2) by (cases "d = c"; simp)+
  have I: "in_flight (s\<lparr>phase_of := (phase_of s)(c := ph)\<rparr>) = in_flight s" by simp
  show ?thesis
  proof (rule flights_okI, unfold L I)
    fix k show "(in_flight s k = None) = (\<forall>d. phase_of s d \<noteq> Leading k)" by (rule flights_okD(1) [OF assms(3)])
  next
    fix k d e assume "phase_of s d = Leading k" "phase_of s e = Leading k"
    then show "d = e" by (rule flights_okD(2) [OF assms(3)])
  next
    fix k d assume "phase_of (s\<lparr>phase_of := (phase_of s)(c := ph)\<rparr>) d = Waiting k"
    from flights_okD(3) [OF assms(3) W [OF this]] show "\<exists>ws. in_flight s k = Some ws \<and> d \<in> set ws" .
  qed
qed

lemma drop_guard_phase:
  assumes "flights_ok s"
  shows "phase_of (drop_guard key res s) c = (if phase_of s c = Waiting key then Woken res else phase_of s c)"
proof -
  have "phase_of s c = Waiting key \<Longrightarrow> c \<in> set (unwrap_or [] (in_flight s key))"
    using assms unfolding flights_ok_def by (metis unwrap_or_simps(2))
  then show ?thesis by (auto simp: drop_guard_def Let_def)
qed

lemma drop_guard_in_flight: "in_flight (drop_guard key res s) = (in_flight s)(key := None)"
  by (simp add: drop_guard_def Let_def)

lemma leader_gone:
  assumes "flights_ok s" "phase_of s c = Leading key" "\<forall>k. ph \<noteq> Leading k \<and> ph \<noteq> Waiting k"
  shows "flights_ok (drop_guard key res s\<lparr>phase_of := (phase_of (drop_guard key res s))(c := ph)\<rparr>)"
proof -
  let ?t = "drop_guard key res s\<lparr>phase_of := (phase_of (drop_guard key res s))(c := ph)\<rparr>"
  have L: "phase_of ?t d = Leading k \<longleftrightarrow> phase_of s d = Leading k \<and> k \<noteq> key" for d k
    using assms unfolding flights_ok_def by (auto simp: drop_guard_phase [OF assms(1)])
  have W: "phase_of ?t d = Waiting k \<longrightarrow> phase_of s d = Waiting k \<and> k \<noteq> key" for d k
    using assms(2,3) by (auto simp: drop_guard_phase [OF assms(1)])
  have I: "in_flight ?t = (in_flight s)(key := None)" by (simp add: drop_guard_in_flight)
  show ?thesis
  proof (rule flights_okI, unfold L I)
    fix k show "(((in_flight s)(key := None)) k = None) = (\<forall>d. \<not> (phase_of s d = Leading k \<and> k \<noteq> key))"
      using flights_okD(1) [OF assms(1), of k] by auto
  next
    fix k d e assume "phase_of s d = Leading k \<and> k \<noteq> key" "phase_of s e = Leading k \<and> k \<noteq> key"
    then show "d = e" using flights_okD(2) [OF assms(1)] by blast
  next
    fix k d assume "phase_of ?t d = Waiting k"
    with W show "\<exists>ws. ((in_flight s)(key := None)) k = Some ws \<and> d \<in> set ws"
      using flights_okD(3) [OF assms(1), of d k] by auto
  qed
qed

lemma flights_ok_coalesced: "flights_ok (s\<lparr>coalesced := n\<rparr>) = flights_ok s"
  by (simp add: flights_ok_def)

lemma flight_step_ok: "flight_step s t \<Longrightarrow> flights_ok s \<Longrightarrow> flights_ok t"
proof (induction rule: flight_step.induct)
  case (Call s c key) then show ?case by (simp add: do_call_ok)
next
  case (Finish s c key res) then show ?case using leader_gone [of s c key "Done res" res] by (simp add: leader_done_def Let_def)
next
  case (Abort s c key) then show ?case using leader_gone [of s c key Dropped None] by (simp add: leader_dropped_def Let_def)
next
  case (Wake s c res)
  then have "flights_ok (s\<lparr>phase_of := (phase_of s)(c := Done res)\<rparr>)" by (intro phase_change) auto
  then show ?case by (simp add: wake_def flights_ok_coalesced)
next
  case (Leave s c key res) then show ?case by (intro phase_change) auto
qed

lemma flight_reach_ok: "flight_reach s \<Longrightarrow> flights_ok s"
  proof (induction rule: flight_reach.induct)
  case Start
  then show ?case by (simp add: no_flights_def flights_ok_def)
qed (rule flight_step_ok)

text \<open>
  C37: Concurrent queries for one key are one call upstream. However calls come, end, are dropped or
  leave: there is at most one leading call of a key, and every call that waits for the key has one. When the leader is
  done, every waiting call is handed its result; when it is dropped, every waiting call is woken empty-handed. In both cases no other call changes and the key is free.
\<close>

theorem singleflight_spec:
  assumes "flight_reach s"
  shows "(\<forall>c d key. phase_of s c = Leading key \<and> phase_of s d = Leading key \<longrightarrow> c = d) \<and>
    (\<forall>c key. phase_of s c = Waiting key \<longrightarrow> (\<exists>d. phase_of s d = Leading key)) \<and>
    (\<forall>c key res. phase_of s c = Leading key \<longrightarrow>
       in_flight (leader_done key c res s) key = None \<and>
       (\<forall>d. phase_of (leader_done key c res s) d =
          (if d = c then Done res else if phase_of s d = Waiting key then Woken res else phase_of s d)) \<and>
       in_flight (leader_dropped key c s) key = None \<and>
       (\<forall>d. phase_of (leader_dropped key c s) d =
          (if d = c then Dropped else if phase_of s d = Waiting key then Woken None else phase_of s d)))"
proof (intro conjI allI impI)
  have ok: "flights_ok s" by (rule flight_reach_ok [OF assms])
  show "\<exists>d. phase_of s d = Leading key" if "phase_of s c = Waiting key" for c key
    using flights_okD(3) [OF ok that] flights_okD(1) [OF ok, of key] by auto
  show "c = d" if "phase_of s c = Leading key \<and> phase_of s d = Leading key" for c d key
    using that flights_okD(2) [OF ok] by blast
qed (simp_all add: drop_guard_phase [OF flight_reach_ok [OF assms]] drop_guard_in_flight leader_done_def leader_dropped_def Let_def)

theorem singleflight_spec_witness:
  "phase_of (leader_done ''a:1'' 0 (Some ([], ''Quad9'')) (do_call ''a:1'' 1 (do_call ''a:1'' 0 no_flights))) 1 =
     Woken (Some ([], ''Quad9''))"
proof -
  let ?s = "do_call ''a:1'' 1 (do_call ''a:1'' 0 no_flights)"
  have "flight_reach ?s"
    by (intro flight_reach.Step [OF _ flight_step.Call] flight_reach.Start) (simp_all add: no_flights_def do_call_def)
  moreover have "phase_of ?s 0 = Leading ''a:1''" "phase_of ?s 1 = Waiting ''a:1''" by (simp_all add: no_flights_def do_call_def)
  ultimately show ?thesis using singleflight_spec [of ?s] by simp
qed

section \<open>The race of three\<close>

text \<open>All calls and timers end some time.\<close>

definition all_end :: "signal list \<Rightarrow> bool" where
  "all_end order \<longleftrightarrow> {Ended 1, Ended 2, Ended 3, Timer 1, Timer 2} \<subseteq> set order"

lemma pick_mem:
  assumes "b \<in> set branches" "b \<in> set order"
  shows "pick order branches \<in> set branches"
proof -
  have "filter (\<lambda>x. x \<in> set branches) order \<noteq> []" using assms by (auto simp: filter_empty_conv)
  then have "pick order branches \<in> set (filter (\<lambda>x. x \<in> set branches) order)" unfolding pick_def by (rule hd_in_set)
  then show ?thesis by simp
qed

definition first_fails :: "(nat \<Rightarrow> outcome) \<Rightarrow> signal list \<Rightarrow> bool" where
  "first_fails r order \<longleftrightarrow> pick order [Ended 1, Timer 1] = Ended 1 \<and> r 1 = None"

definition second_stage_fails :: "(nat \<Rightarrow> outcome) \<Rightarrow> signal list \<Rightarrow> bool" where
  "second_stage_fails r order \<longleftrightarrow>
     pick order [Ended 1, Timer 1] = Timer 1 \<and> (\<exists>c \<in> {1, 2}. pick order [Ended 1, Ended 2, Timer 2] = Ended c \<and> r c = None)"

text \<open>A race that comes to an end: it has the first answer, or nothing after every call failed.\<close>

definition race_ok :: "nat \<Rightarrow> (nat \<Rightarrow> outcome) \<Rightarrow> nat \<times> outcome \<times> bool \<times> nat list \<Rightarrow> bool" where
  "race_ok n r = (\<lambda>(started, res, win, over).
     started \<le> n \<and> over \<noteq> [] \<and> distinct over \<and> set over \<subseteq> {1..started} \<and> res = r (last over) \<and>
     (\<forall>c \<in> set (butlast over). r c = None) \<and>
     (win \<longleftrightarrow> last over \<noteq> 1 \<and> res \<noteq> None) \<and>
     (res = None \<longrightarrow> started = n \<and> set over = {1..n}))"

definition ended_ok :: "nat set \<Rightarrow> (nat \<Rightarrow> outcome) \<Rightarrow> outcome \<times> bool \<times> nat list \<Rightarrow> bool" where
  "ended_ok cs r = (\<lambda>(res, win, over).
     over \<noteq> [] \<and> distinct over \<and> set over \<subseteq> cs \<and> res = r (last over) \<and> (\<forall>c \<in> set (butlast over). r c = None) \<and>
     (win \<longleftrightarrow> last over \<noteq> 1 \<and> res \<noteq> None) \<and> (res = None \<longrightarrow> set over = cs))"

lemma last_two_ok:
  assumes "distinct (over @ [a, b])" "\<forall>c \<in> set over. r c = None"
  shows "\<exists>x. last_two r order over a b = ret x \<and> ended_ok (set (over @ [a, b])) r x"
proof -
  have n: "select_calls order over [Ended a, Ended b] = ret (pick order [Ended a, Ended b])"
    using assms(1) by (auto simp: select_calls_def)
  obtain x y where xy: "(if pick order [Ended a, Ended b] = Ended a then (a, b) else (b, a)) = (x, y)" "{x, y} = {a, b}" "x \<noteq> y"
    using assms(1) by (cases "pick order [Ended a, Ended b] = Ended a") auto
  have d: "distinct (over @ [x, y])" "set over \<union> {x, y} = set (over @ [a, b])" using assms(1) xy(2,3) by (auto simp: doubleton_eq_iff)
  show ?thesis
  proof (cases "r x = None")
    case True
    then have "last_two r order over a b = ret (r y, y \<noteq> 1 \<and> r y \<noteq> None, over @ [x, y])"
      using d(1) by (simp add: last_two_def n xy(1) await_call_def)
    then show ?thesis using d assms(2) True by (auto simp: ended_ok_def butlast_append)
  next
    case False
    then have "last_two r order over a b = ret (r x, x \<noteq> 1, over @ [x])" by (simp add: last_two_def n xy(1))
    then show ?thesis using d assms(2) False by (auto simp: ended_ok_def butlast_append)
  qed
qed

lemma last_three_ok:
  "\<exists>x. last_three r order [] = ret x \<and> ended_ok {1, 2, 3} r x"
proof -
  let ?s = "pick order [Ended 1, Ended 2, Ended 3]"
  have n: "select_calls order [] [Ended 1, Ended 2, Ended 3] = ret ?s" by (simp add: select_calls_def)
  consider "?s = Ended 1" | "?s = Ended 2" | "?s \<noteq> Ended 1" "?s \<noteq> Ended 2" by blast
  then show ?thesis
  proof cases
    case 1
    show ?thesis
    proof (cases "r 1")
      case None
      from last_two_ok [of "[1]" 2 3 r order] None obtain x where "last_two r order [1] 2 3 = ret x" "ended_ok {1, 2, 3} r x"
        by (auto simp del: One_nat_def)
      then show ?thesis using None 1 by (simp add: last_three_def n del: One_nat_def)
    qed (simp add: last_three_def n 1 ended_ok_def del: One_nat_def)
  next
    case 2
    show ?thesis
    proof (cases "r 2")
      case None
      from last_two_ok [of "[2]" 1 3 r order] None obtain x where "last_two r order [2] 1 3 = ret x" "ended_ok {1, 2, 3} r x"
        by (auto simp: insert_commute simp del: One_nat_def)
      then show ?thesis using None 2 by (simp add: last_three_def n del: One_nat_def)
    qed (simp add: last_three_def n 2 ended_ok_def del: One_nat_def)
  next
    case 3
    show ?thesis
    proof (cases "r 3")
      case None
      from last_two_ok [of "[3]" 1 2 r order] None obtain x where "last_two r order [3] 1 2 = ret x" "ended_ok {1, 2, 3} r x"
        by (auto simp: insert_commute simp del: One_nat_def)
      then show ?thesis using None 3 by (simp add: last_three_def n del: One_nat_def)
    qed (simp add: last_three_def n 3 ended_ok_def del: One_nat_def)
  qed
qed

lemma polled_again:
  "c = a \<or> c = b \<Longrightarrow> last_two r order [c] a b = panic" "c = 1 \<or> c = 2 \<or> c = 3 \<Longrightarrow> last_three r order [c] = panic"
  by (auto simp: last_two_def last_three_def select_calls_def)

lemma interval_sets: "{1..1} = {1::nat}" "{1..2} = {1, 2::nat}" "{1..3} = {1, 2, 3::nat}"
  by auto

text \<open>
  C38: The hedged race. With one to three nodes it ends with the first answer, after the calls that ended
  before had failed, or with nothing when all nodes have failed; a hedged win is an answer of another node than the
  first. But a call that fails before its timer is polled again when it has completed: then, and only
  then, the task panics.
\<close>

theorem hedged_spec:
  assumes "1 \<le> n" "n \<le> 3" "all_end order"
  shows "if first_fails r order \<or> n \<ge> 2 \<and> second_stage_fails r order then hedged n r order = panic
    else \<exists>x. hedged n r order = ret x \<and> race_ok n r x"
proof -
  let ?s = "pick order [Ended 1, Timer 1]" and ?t = "pick order [Ended 1, Ended 2, Timer 2]"
  have s: "?s = Ended 1 \<or> ?s = Timer 1" using pick_mem [of "Ended 1" "[Ended 1, Timer 1]" order] assms(3) by (simp add: all_end_def)
  have t: "?t = Ended 1 \<or> ?t = Ended 2 \<or> ?t = Timer 2"
    using pick_mem [of "Ended 1" "[Ended 1, Ended 2, Timer 2]" order] assms(3) by (simp add: all_end_def)
  from last_two_ok [of "[]" 1 2 r order] obtain x2 where two: "last_two r order [] 1 2 = ret x2" "ended_ok {1, 2} r x2" by auto
  from last_three_ok [of r order] obtain x3 where three: "last_three r order [] = ret x3" "ended_ok {1, 2, 3} r x3" by auto
  have n: "n = 1 \<or> n = 2 \<or> n = 3" using assms(1,2) by auto
  consider (early) "?s = Ended 1" | (late) "?s = Timer 1" using s by blast
  then show ?thesis
  proof cases
    case early
    then show ?thesis
      using n by (cases "r 1") (auto simp: hedged_def first_fails_def second_stage_fails_def await_call_def select_calls_def race_ok_def)
  next
    case late
    have f: "\<not> first_fails r order" using late by (simp add: first_fails_def)
    have g: "select_calls order [] [Ended 1, Ended 2, Timer 2] = ret ?t" by (simp add: select_calls_def)
    show ?thesis
    proof (cases "n = 1")
      case True
      with late f show ?thesis by (auto simp: hedged_def await_call_def race_ok_def)
    next
      case False
      then have n2: "n = 2 \<or> n = 3" "n \<noteq> 0" "n \<ge> 2" using n by auto
      consider (a) c where "c \<in> {1, 2}" "?t = Ended c" | (b) "?t = Timer 2" using t by blast
      then show ?thesis
      proof cases
        case a
        have "hedged n r order = panic" if "r c = None"
        proof -
          have p: "last_two r order [c] 1 2 = panic" "last_three r order [c] = panic" using a(1) by (auto intro: polled_again)
          show ?thesis using n2(1)
          proof
            assume "n = 2"
            then show ?thesis using late a that p(1) unfolding hedged_def by (auto simp: g Let_def simp del: One_nat_def)
          next
            assume "n = 3"
            then show ?thesis using late a that p(2) unfolding hedged_def by (auto simp: g Let_def simp del: One_nat_def)
          qed
        qed
        moreover have "hedged n r order = ret (2, r c, c \<noteq> 1, [c])" if "r c \<noteq> None"
          using late n2 a that unfolding hedged_def by (auto simp: g Let_def simp del: One_nat_def)
        moreover have "race_ok n r (2, r c, c \<noteq> 1, [c])" if "r c \<noteq> None" using a that n2 by (auto simp: race_ok_def)
        moreover have "second_stage_fails r order \<longleftrightarrow> r c = None" using a late by (auto simp: second_stage_fails_def)
        ultimately show ?thesis using f n2 by auto
      next
        case b
        then have h: "\<not> second_stage_fails r order" by (simp add: second_stage_fails_def)
        have "hedged n r order = (if n = 2 then ret (2, x2) else ret (3, x3))"
          using late b n2 two(1) three(1) unfolding hedged_def by (auto simp: g Let_def simp del: One_nat_def)
        moreover have "race_ok 2 r (2, x2)" "race_ok 3 r (3, x3)"
          using two(2) three(2) unfolding race_ok_def ended_ok_def interval_sets by (auto split: prod.splits)
        ultimately show ?thesis using f h n2(1) by (auto simp del: split_paired_Ex)
      qed
    qed
  qed
qed

theorem hedged_spec_witness:
  "hedged 2 (\<lambda>i. if i = 1 then None else Some ([], ''Quad9'')) [Ended 1, Timer 1, Ended 2, Timer 2, Ended 3] = panic \<and>
   (\<exists>x. hedged 2 (\<lambda>i. if i = 1 then None else Some ([], ''Quad9'')) [Timer 1, Timer 2, Ended 1, Ended 2, Ended 3] = ret x)"
  using hedged_spec [of 2 "[Ended 1, Timer 1, Ended 2, Timer 2, Ended 3]" "\<lambda>i. if i = 1 then None else Some ([], ''Quad9'')"]
    hedged_spec [of 2 "[Timer 1, Timer 2, Ended 1, Ended 2, Ended 3]" "\<lambda>i. if i = 1 then None else Some ([], ''Quad9'')"]
  by (auto simp: all_end_def first_fails_def second_stage_fails_def pick_def)

end
