(* ===== verification/Auth.thy ===== *)
theory Auth
  imports App_State
begin

text \<open>
  Who may use the console, \<open>src/src/security/auth.rs\<close>: the comparison with the master key, signed
  tokens with a scope and a lifetime, where a request carries its credential, and the role it gets;
  the device names of \<open>parse_friendly_device_slug\<close>.

  SHA-256 and HMAC-SHA256 of ring are the parameters \<open>sha\<close> and \<open>mac\<close>; \<open>hmac::verify\<close> compares
  the whole tag. The clock is an argument. Headers are a map from lower-case names to
  the first value of the header; \<open>to_str\<close> reads a value of visible ASCII, blanks and tabs.
\<close>

section \<open>Roles\<close>

datatype auth_role = Admin | View | No_Role

definition is_admin :: "auth_role \<Rightarrow> bool" where
  "is_admin r \<longleftrightarrow> r = Admin"

definition is_view_or_admin :: "auth_role \<Rightarrow> bool" where
  "is_view_or_admin r \<longleftrightarrow> r = Admin \<or> r = View"

definition role_str :: "auth_role \<Rightarrow> string" where
  "role_str r = (case r of Admin \<Rightarrow> ''admin'' | View \<Rightarrow> ''view'' | No_Role \<Rightarrow> ''none'')"

definition constant_time_eq_str :: "(string \<Rightarrow> bytes) \<Rightarrow> string \<Rightarrow> string \<Rightarrow> bool" where
  "constant_time_eq_str sha a b = (fold (\<lambda>(x, y) diff. diff OR (x XOR y)) (List.zip (sha a) (sha b)) 0 = 0)"

section \<open>Tokens\<close>

definition is_token_well_formed :: "string \<Rightarrow> bool" where
  "is_token_well_formed token \<longleftrightarrow> (length token = 80 \<or> length token = 72) \<and> list_all (\<lambda>c. is_alnum_code (code c)) token"

text \<open>\<open>from_str_radix(_, 16)\<close> takes a leading plus sign.\<close>

definition parse_hex :: "nat \<Rightarrow> string \<Rightarrow> nat option" where
  "parse_hex bits s = (
     let ds = (case s of [] \<Rightarrow> [] | c # cs \<Rightarrow> if c = CHR ''+'' then cs else s) in
     if ds = [] then None
     else case Wal.hex_value 0 ds of Some n \<Rightarrow> if n < 2 ^ bits then Some n else None | None \<Rightarrow> None)"

text \<open>The slices of \<open>hex_decode\<close> panic inside a character.\<close>

function unhex_from :: "string \<Rightarrow> nat \<Rightarrow> bytes option rust" where
  "unhex_from s i =
    (if i + 1 < length s then
       (if char_boundary s i \<and> char_boundary s (i + 2) then
          (case parse_hex 8 [s ! i, s ! (i + 1)] of
             None \<Rightarrow> ret None
           | Some b \<Rightarrow> do { r \<leftarrow> unhex_from s (i + 2); ret (map_option (Cons (word_of_nat b)) r) })
        else panic)
     else ret (Some []))"
  by pat_completeness auto
termination by (relation "measure (\<lambda>(s, i). length s - i)") auto

declare unhex_from.simps [simp del]

definition unhex :: "string \<Rightarrow> bytes option rust" where
  "unhex s = (if length s mod 2 \<noteq> 0 then ret None else unhex_from s 0)"

definition hex_encode :: "bytes \<Rightarrow> string" where
  "hex_encode bs = concat (map (\<lambda>b. hex_digits 2 (unat b)) bs)"

text \<open>\<open>{:08x}\<close>, which is longer for numbers of more than 32 bits.\<close>

fun hex_text :: "nat \<Rightarrow> string" where
  "hex_text n = (if n < 16 then [hex_digit n] else hex_text (n div 16) @ [hex_digit (n mod 16)])"

declare hex_text.simps [simp del]

definition hex_08 :: "nat \<Rightarrow> string" where
  "hex_08 n = replicate (8 - length (hex_text n)) CHR ''0'' @ hex_text n"

type_synonym mac = "string \<Rightarrow> string \<Rightarrow> bytes"

definition signed_token :: "mac \<Rightarrow> string \<Rightarrow> string \<Rightarrow> nat \<Rightarrow> nat \<Rightarrow> string" where
  "signed_token mac secret scope ttl_secs now = (
     let ts_hex = hex_08 now;
         ttl_hex = hex_08 (max ttl_secs 60)
     in ts_hex @ ttl_hex @ hex_encode (mac secret (ts_hex @ ttl_hex @ scope)))"

definition generate_hmac_token :: "mac \<Rightarrow> string \<Rightarrow> string \<Rightarrow> nat \<Rightarrow> nat \<Rightarrow> string" where
  "generate_hmac_token mac secret target_path ttl_secs now =
     signed_token mac secret
       (if target_path = [] \<or> target_path = ''/'' \<or> target_path = ''/dashboard'' then ''VIEW_ONLY'' else target_path) ttl_secs now"

definition generate_admin_token :: "mac \<Rightarrow> string \<Rightarrow> nat \<Rightarrow> nat \<Rightarrow> string" where
  "generate_admin_token mac secret ttl_secs now = signed_token mac secret ''ADMIN_SESSION'' ttl_secs now"

definition verify_admin_token :: "mac \<Rightarrow> string \<Rightarrow> string \<Rightarrow> nat \<Rightarrow> bool rust" where
  "verify_admin_token mac token secret now =
    (if \<not> is_token_well_formed token then ret False
     else if secret = [] \<or> length token \<noteq> 80 then ret False
     else let ts_hex = take 8 token; ttl_hex = take 8 (drop 8 token); sig_hex = drop 16 token in
       case (parse_hex 64 ttl_hex, parse_hex 64 ts_hex) of
         (Some ttl_seconds, Some ts) \<Rightarrow>
           if now + 60 < ts \<or> now > ts + ttl_seconds then ret False
           else do {
             sig \<leftarrow> unhex sig_hex;
             ret (case sig of None \<Rightarrow> False | Some tag \<Rightarrow> mac secret (ts_hex @ ttl_hex @ ''ADMIN_SESSION'') = tag) }
       | _ \<Rightarrow> ret False)"

text \<open>The parts of a token: its time stamp, what the signature covers before the scope, its lifetime, its signature.\<close>

definition token_parts :: "string \<Rightarrow> (string \<times> string \<times> nat \<times> string) option" where
  "token_parts token =
    (if length token = 80 then
       (case parse_hex 64 (take 8 (drop 8 token)) of
          Some ttl \<Rightarrow> Some (take 8 token, take 16 token, ttl, drop 16 token)
        | None \<Rightarrow> None)
     else Some (take 8 token, take 8 token, 86400, drop 8 token))"

definition verify_hmac_token :: "mac \<Rightarrow> string \<Rightarrow> string \<Rightarrow> string \<Rightarrow> nat \<Rightarrow> bool rust" where
  "verify_hmac_token mac token secret path now =
    (if \<not> is_token_well_formed token then ret False
     else if secret = [] then ret False
     else case token_parts token of
       None \<Rightarrow> ret False
     | Some (ts_hex, prefix, ttl_seconds, sig_hex) \<Rightarrow>
         (case parse_hex 64 ts_hex of
            None \<Rightarrow> ret False
          | Some ts \<Rightarrow>
              if now + 60 < ts \<or> now > ts + ttl_seconds then ret False
              else do {
                sig \<leftarrow> unhex sig_hex;
                ret (case sig of None \<Rightarrow> False
                  | Some tag \<Rightarrow>
                      mac secret (prefix @ ''VIEW_ONLY'') = tag \<or> mac secret (prefix @ path) = tag \<or>
                      mac secret (prefix @ ''/'') = tag \<or> mac secret (prefix @ ''ADMIN_SESSION'') = tag) }))"

section \<open>Credentials of a request\<close>

type_synonym headers = "string \<rightharpoonup> string"

definition header_str :: "headers \<Rightarrow> string \<Rightarrow> string option" where
  "header_str h name = (case h name of
     Some v \<Rightarrow> if list_all (\<lambda>c. 32 \<le> code c \<and> code c < 127 \<or> code c = 9) v then Some v else None
   | None \<Rightarrow> None)"

fun url_loop :: "string \<Rightarrow> string" where
  "url_loop [] = []"
| "url_loop (b # bs) =
    (if b = CHR ''%'' \<and> length bs \<ge> 2 then
       (case parse_hex 8 (take 2 bs) of
          Some v \<Rightarrow> char_of v # url_loop (drop 2 bs)
        | None \<Rightarrow> b # url_loop bs)
     else if b = CHR ''+'' then CHR '' '' # url_loop bs
     else b # url_loop bs)"

definition url_decode :: "string \<Rightarrow> string" where
  "url_decode s = (let out = url_loop s in if is_utf8 out then out else s)"

text \<open>The value of the first cookie with one of the four names.\<close>

fun cookie_token :: "string list \<Rightarrow> string option" where
  "cookie_token [] = None"
| "cookie_token (part # parts) = (case str_find CHR ''='' part of
     None \<Rightarrow> cookie_token parts
   | Some i \<Rightarrow> (
       let k = trim (take i part); v = trim (drop (i + 1) part)
       in if k \<in> {''amardns_token'', ''amardns_key'', ''token'', ''key''} \<and> v \<noteq> [] then Some (url_decode v)
          else cookie_token parts))"

definition bearer_token :: "string \<Rightarrow> string" where
  "bearer_token auth_hdr = trim (unwrap_or auth_hdr (strip_prefix ''Bearer '' auth_hdr))"

fun key_header :: "headers \<Rightarrow> string list \<Rightarrow> string option" where
  "key_header h [] = None"
| "key_header h (name # names) = (case header_str h name of
     Some val \<Rightarrow> (let v = trim val in if v \<noteq> [] then Some v else key_header h names)
   | None \<Rightarrow> key_header h names)"

definition extract_auth_candidate :: "string option \<Rightarrow> headers \<Rightarrow> string option" where
  "extract_auth_candidate key_param h = (
     let p_clean = trim (unwrap_or [] key_param);
         auth = (case header_str h ''authorization'' of Some v \<Rightarrow> bearer_token v | None \<Rightarrow> [])
     in if p_clean \<noteq> [] \<and> p_clean \<noteq> ''dashboard'' \<and> p_clean \<noteq> ''status'' then Some p_clean
        else if auth \<noteq> [] then Some auth
        else (case key_header h [''x-auth-key'', ''x-master-key'', ''x-api-key''] of
          Some v \<Rightarrow> Some v
        | None \<Rightarrow> (case header_str h ''cookie'' of
            Some c \<Rightarrow> cookie_token (split_char CHR '';'' c)
          | None \<Rightarrow> None)))"

section \<open>The role of a request\<close>

record auth_config =
  dns_master_key :: string
  dns_token_secret :: string

definition refuse_role :: "metrics \<Rightarrow> auth_role \<times> metrics" where
  "refuse_role m = (No_Role, count_one Auth_fails m)"

definition check_auth :: "(string \<Rightarrow> bytes) \<Rightarrow> mac \<Rightarrow> auth_config \<Rightarrow> revocations \<Rightarrow> string option \<Rightarrow> headers \<Rightarrow> string \<Rightarrow> nat \<Rightarrow>
  metrics \<Rightarrow> (auth_role \<times> metrics) rust" where
  "check_auth sha mac cfg revoked key_param h path now m =
    (if h ''x-peer-sync'' = Some ''1'' then
       (case header_str h ''authorization'' of
          Some auth_hdr \<Rightarrow>
            if dns_master_key cfg \<noteq> [] \<and> constant_time_eq_str sha (bearer_token auth_hdr) (dns_master_key cfg) then ret (Admin, m)
            else ret (refuse_role m)
        | None \<Rightarrow> ret (refuse_role m))
     else (case extract_auth_candidate key_param h of
       None \<Rightarrow> ret (No_Role, m)
     | Some token \<Rightarrow>
         if dns_master_key cfg \<noteq> [] \<and> constant_time_eq_str sha token (dns_master_key cfg) then ret (Admin, m)
         else do {
           signed \<leftarrow> verify_hmac_token mac token (dns_token_secret cfg) path now;
           ret (if signed then
                  (if is_token_revoked token (word_of_nat (unwrap_or 0 (parse_hex 64 (take 8 token)))) revoked then refuse_role m
                   else (View, m))
                else refuse_role m) }))"

section \<open>Device names\<close>

definition friendly_words :: "string list" where
  "friendly_words = [
    ''acorn'', ''amber'', ''apple'', ''arrow'', ''atlas'', ''aurora'', ''beacon'', ''berry'', ''birch'', ''blaze'',
    ''bloom'', ''breeze'', ''bright'', ''brook'', ''cedar'', ''clover'', ''comet'', ''coral'', ''cosmos'', ''crest'',
    ''crystal'', ''dawn'', ''delta'', ''dove'', ''drift'', ''eagle'', ''echo'', ''ember'', ''falcon'', ''feather'',
    ''fern'', ''flame'', ''forest'', ''frost'', ''galaxy'', ''gem'', ''glade'', ''glow'', ''grove'', ''harbor'',
    ''haven'', ''hawk'', ''hazel'', ''heart'', ''honey'', ''horizon'', ''island'', ''ivy'', ''jade'', ''jasper'',
    ''joy'', ''jungle'', ''lake'', ''lark'', ''leaf'', ''light'', ''lily'', ''lion'', ''lotus'', ''love'', ''luna'',
    ''maple'', ''meadow'', ''moon'', ''moss'', ''mountain'', ''nebula'', ''nest'', ''nova'', ''oak'', ''oasis'',
    ''ocean'', ''olive'', ''onyx'', ''opal'', ''orbit'', ''otter'', ''owl'', ''panda'', ''peak'', ''pearl'',
    ''pebble'', ''petal'', ''pine'', ''planet'', ''pond'', ''pulse'', ''quartz'', ''quill'', ''rain'', ''raven'',
    ''reef'', ''ridge'', ''river'', ''robin'', ''rose'', ''ruby'', ''sage'', ''sapphire'', ''shadow'', ''shore'',
    ''silver'', ''sky'', ''solar'', ''spark'', ''spring'', ''star'', ''stone'', ''storm'', ''stream'', ''summit'',
    ''sun'', ''sunset'', ''swift'', ''tiger'', ''timber'', ''topaz'', ''trail'', ''valley'', ''wave'', ''willow'',
    ''wind'', ''winter'', ''wolf'', ''zenith'']"

definition ascii_digit :: "char \<Rightarrow> bool" where
  "ascii_digit c \<longleftrightarrow> is_digit_code (code c)"

definition parse_friendly_device_slug :: "string \<Rightarrow> string option" where
  "parse_friendly_device_slug sni_or_slug = (
     let slug = hd (split_char CHR ''.'' (to_ascii_lowercase (trim sni_or_slug)));
         word = takeWhile (\<lambda>c. \<not> ascii_digit c) slug; digits = dropWhile (\<lambda>c. \<not> ascii_digit c) slug
     in if word = [] \<or> digits = [] then None
        else if \<not> list_all (\<lambda>c. is_alpha_code (code c)) word then None
        else if \<not> list_all ascii_digit digits then None
        else if word \<notin> set friendly_words then None
        else Some slug)"

section \<open>Hexadecimal\<close>

lemma hex_text_digits: "n < 16 ^ Suc k \<Longrightarrow> length (hex_text n) \<le> Suc k \<and>
    replicate (Suc k - length (hex_text n)) CHR ''0'' @ hex_text n = hex_digits (Suc k) n"
proof (induction k arbitrary: n)
  case 0
  then show ?case by (simp add: hex_text.simps)
next
  case (Suc k)
  have z: "hex_digit 0 = CHR ''0''" by code_simp
  show ?case
  proof (cases "n < 16")
    case True
    have "hex_digits j 0 = replicate j CHR ''0''" for j
      by (induction j) (simp_all add: z replicate_append_same)
    moreover have "n div 16 = 0" "n mod 16 = n" using True by auto
    ultimately show ?thesis by (subst (1 2 3) hex_text.simps) (simp add: True replicate_append_same [symmetric])
  next
    case False
    have "n div 16 < 16 ^ Suc k" using Suc.prems by (simp add: less_mult_imp_div_less mult.commute)
    from Suc.IH [OF this] False show ?thesis by (subst (1 2 3) hex_text.simps) simp
  qed
qed

lemma hex_08_small: "n < 2 ^ 32 \<Longrightarrow> hex_08 n = hex_digits 8 n"
  using hex_text_digits [of n 7] by (simp add: hex_08_def)

lemma parse_hex_digits: "0 < k \<Longrightarrow> n < 16 ^ k \<Longrightarrow> n < 2 ^ b \<Longrightarrow> parse_hex b (hex_digits k n) = Some n"
proof -
  assume k: "0 < k" and n: "n < 16 ^ k" "n < 2 ^ b"
  have "hex_digits k n \<noteq> []" using k length_hex_digits [of k n] by auto
  moreover have "(case hex_digits k n of [] \<Rightarrow> [] | c # cs \<Rightarrow> if c = CHR ''+'' then cs else hex_digits k n) = hex_digits k n"
    using hex_digits_set [of _ k n] by (auto split: list.split)
  ultimately show ?thesis using n by (simp add: parse_hex_def hex_value_digits)
qed

lemma hex_digits_alnum: "c \<in> set (hex_digits k n) \<Longrightarrow> is_alnum_code (code c)"
proof (induction k arbitrary: n)
  case (Suc k)
  have "m < 16 \<Longrightarrow> is_alnum_code (code (hex_digit m))" for m
    by (auto simp: code_hex_digit is_alnum_code_def is_alpha_code_def is_digit_code_def split: if_splits)
  with Suc show ?case by auto
qed simp

lemma alnum_boundary: "list_all (\<lambda>c. is_alnum_code (code c)) s \<Longrightarrow> i \<le> length s \<Longrightarrow> char_boundary s i"
proof -
  assume "list_all (\<lambda>c. is_alnum_code (code c)) s" "i \<le> length s"
  then consider "i = length s" | "i < length s" "is_alnum_code (code (s ! i))" by (fastforce simp: list_all_length)
  then show ?thesis by cases (auto simp: char_boundary_def is_alnum_code_def is_alpha_code_def is_digit_code_def)
qed

text \<open>On text of letters and digits the decoder is a function on pairs of digits.\<close>

fun unhex_pairs :: "string \<Rightarrow> bytes option" where
  "unhex_pairs (a # b # s) = (case parse_hex 8 [a, b] of None \<Rightarrow> None | Some v \<Rightarrow> map_option (Cons (word_of_nat v)) (unhex_pairs s))"
| "unhex_pairs _ = Some []"

lemma unhex_from_pairs: "list_all (\<lambda>c. is_alnum_code (code c)) s \<Longrightarrow> i \<le> length s \<Longrightarrow> unhex_from s i = ret (unhex_pairs (drop i s))"
proof (induction s i rule: unhex_from.induct)
  case (1 s i)
  show ?case
  proof (cases "i + 1 < length s")
    case True
    then have d: "drop i s = s ! i # s ! (i + 1) # drop (i + 2) s" by (simp add: Cons_nth_drop_Suc)
    have b: "char_boundary s i \<and> char_boundary s (i + 2)" using True "1.prems"(1) by (auto intro: alnum_boundary)
    with True 1 show ?thesis by (subst unhex_from.simps) (simp add: d split: option.split)
  next
    case False
    then have "length (drop i s) < 2" by simp
    then have "unhex_pairs (drop i s) = Some []" by (cases "drop i s" rule: unhex_pairs.cases) auto
    with False show ?thesis by (subst unhex_from.simps) simp
  qed
qed

lemma unhex_alnum: "list_all (\<lambda>c. is_alnum_code (code c)) s \<Longrightarrow> length s mod 2 = 0 \<Longrightarrow> unhex s = ret (unhex_pairs s)"
  by (simp add: unhex_def unhex_from_pairs)

lemma unhex_encode: "unhex_pairs (hex_encode bs) = Some bs"
proof (induction bs)
  case (Cons b bs)
  have "hex_digits 2 (unat b) = [hex_digits 2 (unat b) ! 0, hex_digits 2 (unat b) ! 1]"
    using length_hex_digits [of 2 "unat b"] by (cases "hex_digits 2 (unat b)" rule: unhex_pairs.cases) auto
  then obtain x y where xy: "hex_digits 2 (unat b) = [x, y]" by blast
  have "parse_hex 8 [x, y] = Some (unat b)" using parse_hex_digits [of 2 "unat b" 8] unat_u8 [of b] by (simp add: xy)
  with Cons show ?case by (simp add: hex_encode_def xy)
qed (simp add: hex_encode_def)

lemma length_hex_encode: "length (hex_encode bs) = 2 * length bs"
  by (induction bs) (simp_all add: hex_encode_def length_hex_digits)

lemma hex_encode_alnum: "list_all (\<lambda>c. is_alnum_code (code c)) (hex_encode bs)"
  using hex_digits_alnum by (auto simp: hex_encode_def list_all_iff)

section \<open>What a token says\<close>

text \<open>
  The specification of tokens: eight digits of a time stamp, eight of a lifetime (an old token has none and
  lives a day) and 64 of a signature, which covers the digits before it and a scope.
\<close>

definition token_at :: "string \<Rightarrow> string \<Rightarrow> nat \<Rightarrow> nat \<Rightarrow> bytes \<Rightarrow> bool" where
  "token_at token cover t l tag \<longleftrightarrow> list_all (\<lambda>c. is_alnum_code (code c)) token \<and>
     (\<exists>a b sig. token = a @ b @ sig \<and> cover = a @ b \<and> length a = 8 \<and> length sig = 64 \<and> parse_hex 64 a = Some t \<and>
        (b = [] \<and> l = 86400 \<or> length b = 8 \<and> parse_hex 64 b = Some l) \<and> unhex_pairs sig = Some tag)"

definition signed_for :: "mac \<Rightarrow> string \<Rightarrow> string \<Rightarrow> nat \<Rightarrow> string \<Rightarrow> bool" where
  "signed_for mac secret path now token \<longleftrightarrow> secret \<noteq> [] \<and>
     (\<exists>cover t l tag. token_at token cover t l tag \<and> t \<le> now + 60 \<and> now \<le> t + l \<and>
        (\<exists>scope \<in> {''VIEW_ONLY'', path, ''/'', ''ADMIN_SESSION''}. mac secret (cover @ scope) = tag))"

lemma token_at_parts:
  assumes "is_token_well_formed token"
  shows "token_at token cover t l tag \<longleftrightarrow> (\<exists>ts_hex sig. token_parts token = Some (ts_hex, cover, l, sig) \<and>
    parse_hex 64 ts_hex = Some t \<and> unhex_pairs sig = Some tag)"
proof
  assume "token_at token cover t l tag"
  then obtain a b sig where h: "token = a @ b @ sig" "cover = a @ b" "length a = 8" "length sig = 64" "parse_hex 64 a = Some t"
      "unhex_pairs sig = Some tag" and b: "b = [] \<and> l = 86400 \<or> length b = 8 \<and> parse_hex 64 b = Some l"
    unfolding token_at_def by blast
  from b have "token_parts token = Some (a, cover, l, sig)"
  proof
    assume b: "b = [] \<and> l = 86400"
    then have "length token = 72" "take 8 token = a" "drop 8 token = sig" using h by simp_all
    with b h(2) show ?thesis by (simp add: token_parts_def)
  next
    assume b: "length b = 8 \<and> parse_hex 64 b = Some l"
    then have "length token = 80" "take 8 token = a" "take 8 (drop 8 token) = b" "take 16 token = a @ b" "drop 16 token = sig"
      using h by simp_all
    with b h(2) show ?thesis by (simp add: token_parts_def)
  qed
  with h show "\<exists>ts_hex sig. token_parts token = Some (ts_hex, cover, l, sig) \<and> parse_hex 64 ts_hex = Some t \<and> unhex_pairs sig = Some tag"
    by blast
next
  assume "\<exists>ts_hex sig. token_parts token = Some (ts_hex, cover, l, sig) \<and> parse_hex 64 ts_hex = Some t \<and> unhex_pairs sig = Some tag"
  then obtain ts sig where p: "token_parts token = Some (ts, cover, l, sig)" "parse_hex 64 ts = Some t" "unhex_pairs sig = Some tag" by blast
  have al: "list_all (\<lambda>c. is_alnum_code (code c)) token" using assms by (simp add: is_token_well_formed_def)
  consider (new) "length token = 80" | (old) "length token = 72" using assms by (auto simp: is_token_well_formed_def)
  then show "token_at token cover t l tag"
  proof cases
    case new
    with p(1) have q: "ts = take 8 token" "cover = take 16 token" "sig = drop 16 token" "parse_hex 64 (take 8 (drop 8 token)) = Some l"
      by (auto simp: token_parts_def split: option.splits)
    have c: "take 16 token = take 8 token @ take 8 (drop 8 token)" by (simp flip: take_add)
    have "token = take 8 token @ take 8 (drop 8 token) @ drop 16 token" by (metis append_assoc append_take_drop_id c)
    moreover have "length (take 8 (drop 8 token)) = 8" "length (take 8 token) = 8" "length (drop 16 token) = 64" using new by simp_all
    ultimately show ?thesis unfolding token_at_def using al p(2,3) q c by blast
  next
    case old
    with p(1) have q: "ts = take 8 token" "cover = take 8 token @ []" "sig = drop 8 token" "l = 86400" by (auto simp: token_parts_def)
    have "token = take 8 token @ [] @ drop 8 token" "length (take 8 token) = 8" "length (drop 8 token) = 64" using old by simp_all
    then show ?thesis unfolding token_at_def using al p(2,3) q by blast
  qed
qed

lemma signature_even:
  assumes "is_token_well_formed token" "token_parts token = Some (a, c, l, sig)"
  shows "unhex sig = ret (unhex_pairs sig)"
proof -
  have "list_all (\<lambda>c. is_alnum_code (code c)) sig \<and> length sig = 64"
    using assms by (auto simp: is_token_well_formed_def token_parts_def list_all_iff split: option.splits if_splits dest: in_set_dropD)
  then show ?thesis by (intro unhex_alnum) simp_all
qed

lemma verify_token: "verify_hmac_token mac token secret path now = ret (signed_for mac secret path now token)"
proof (cases "is_token_well_formed token \<and> secret \<noteq> []")
  case False
  moreover have "\<not> is_token_well_formed token \<Longrightarrow> \<not> token_at token cover t l tag" for cover t l tag
    by (auto simp: token_at_def is_token_well_formed_def)
  ultimately show ?thesis by (auto simp: verify_hmac_token_def signed_for_def)
next
  case True
  note at = token_at_parts [OF conjunct1 [OF True]]
  show ?thesis
  proof (cases "token_parts token")
    case None
    with True show ?thesis by (simp add: verify_hmac_token_def signed_for_def at)
  next
    case (Some p)
    obtain a c l sig where p: "token_parts token = Some (a, c, l, sig)" using Some by (cases p) simp
    have u: "unhex sig = ret (unhex_pairs sig)" by (rule signature_even [OF conjunct1 [OF True] p])
    show ?thesis using True u
      by (auto simp: verify_hmac_token_def signed_for_def at p not_less not_le split: option.split)
  qed
qed

text \<open>Equal digests are equal texts only up to a collision.\<close>

lemma fold_or_zero: "fold (\<lambda>(x, y) d. d OR (x XOR y)) ps (d :: u8) = 0 \<longleftrightarrow> d = 0 \<and> (\<forall>(x, y) \<in> set ps. x = y)"
proof -
  have "x XOR y = 0 \<longleftrightarrow> x = y" for x y :: u8 by (metis xor.left_neutral xor.right_neutral xor.assoc xor_self_eq)
  then show ?thesis by (induction ps arbitrary: d) (auto simp: or_eq_0_iff)
qed

lemma constant_time_eq:
  assumes "length (sha a) = length (sha b)"
  shows "constant_time_eq_str sha a b \<longleftrightarrow> sha a = sha b"
  using assms by (auto simp: constant_time_eq_str_def fold_or_zero list_eq_iff_nth_eq set_zip)

text \<open>The signature is read as hexadecimal digits in either case, a revoked token is found by its spelling.\<close>

lemma hex_value_lower: "Wal.hex_value a (to_ascii_lowercase s) = Wal.hex_value a s"
proof (induction s arbitrary: a)
  case (Cons c s)
  have "hex_digit_value (lower_char c) = hex_digit_value c"
    by (auto simp: hex_digit_value_def code_lower_char is_upper_code_def Let_def)
  with Cons show ?case by (simp add: to_ascii_lowercase_def split: option.split)
qed (simp add: to_ascii_lowercase_def)

lemma parse_hex_lower: "parse_hex n (to_ascii_lowercase s) = parse_hex n s"
proof -
  have plus: "lower_char c = CHR ''+'' \<longleftrightarrow> c = CHR ''+''" for c
  proof -
    have "code (CHR ''+'') = 43" by code_simp
    then show ?thesis using code_lower_char [of c] by (auto simp: is_upper_code_def simp flip: code_inject split: if_splits)
  qed
  show ?thesis
    using hex_value_lower [of 0 s] hex_value_lower [of 0 "tl s"]
    by (cases s) (auto simp: parse_hex_def Let_def plus to_ascii_lowercase_def)
qed

lemma unhex_lower: "unhex_pairs (to_ascii_lowercase s) = unhex_pairs s"
proof (induction s rule: unhex_pairs.induct)
  case (1 a b s)
  have "parse_hex 8 [lower_char a, lower_char b] = parse_hex 8 [a, b]"
    using parse_hex_lower [of 8 "[a, b]"] by (simp add: to_ascii_lowercase_def)
  with 1 show ?case by (simp add: to_ascii_lowercase_def split: option.split)
qed (simp_all add: to_ascii_lowercase_def)

lemma respelled_token:
  assumes "token_at token cover t l tag"
  shows "token_at (cover @ to_ascii_lowercase (drop (length cover) token)) cover t l tag"
proof -
  have al: "is_alnum_code (code (lower_char c)) = is_alnum_code (code c)" for c
    by (auto simp: code_lower_char is_alnum_code_def is_alpha_code_def is_upper_code_def is_digit_code_def)
  from assms obtain a b sig where h: "list_all (\<lambda>c. is_alnum_code (code c)) token" "token = a @ b @ sig" "cover = a @ b" "length a = 8"
      "length sig = 64" "parse_hex 64 a = Some t" "b = [] \<and> l = 86400 \<or> length b = 8 \<and> parse_hex 64 b = Some l" "unhex_pairs sig = Some tag"
    unfolding token_at_def by blast
  have "cover @ to_ascii_lowercase (drop (length cover) token) = a @ b @ to_ascii_lowercase sig" using h by simp
  moreover have "list_all (\<lambda>c. is_alnum_code (code c)) (a @ b @ to_ascii_lowercase sig)" "length (to_ascii_lowercase sig) = 64"
    using h by (auto simp: to_ascii_lowercase_def list_all_iff al)
  ultimately show ?thesis unfolding token_at_def using h unhex_lower [of sig] by metis
qed

lemma respelled_signed: "signed_for mac secret path now token \<Longrightarrow> \<exists>k. k \<le> 16 \<and>
    signed_for mac secret path now (take k token @ to_ascii_lowercase (drop k token))"
proof -
  assume "signed_for mac secret path now token"
  then obtain cover t l tag where h: "secret \<noteq> []" "token_at token cover t l tag" "t \<le> now + 60 \<and> now \<le> t + l"
    "\<exists>scope \<in> {''VIEW_ONLY'', path, ''/'', ''ADMIN_SESSION''}. mac secret (cover @ scope) = tag" unfolding signed_for_def by blast
  from h(2) have "take (length cover) token = cover" "length cover \<le> 16" by (auto simp: token_at_def)
  with respelled_token [OF h(2)] h show ?thesis unfolding signed_for_def by metis
qed

section \<open>Properties\<close>

text \<open>What the request presents: a peer only its bearer token.\<close>

definition credential :: "string option \<Rightarrow> headers \<Rightarrow> string option" where
  "credential key_param h =
    (if h ''x-peer-sync'' = Some ''1'' then map_option bearer_token (header_str h ''authorization'') else extract_auth_candidate key_param h)"

definition master_known :: "(string \<Rightarrow> bytes) \<Rightarrow> auth_config \<Rightarrow> string option \<Rightarrow> headers \<Rightarrow> bool" where
  "master_known sha cfg key_param h \<longleftrightarrow> dns_master_key cfg \<noteq> [] \<and> (\<exists>c. credential key_param h = Some c \<and> sha c = sha (dns_master_key cfg))"

definition view_token :: "mac \<Rightarrow> auth_config \<Rightarrow> revocations \<Rightarrow> string option \<Rightarrow> headers \<Rightarrow> string \<Rightarrow> nat \<Rightarrow> bool" where
  "view_token mac cfg revoked key_param h path now \<longleftrightarrow> h ''x-peer-sync'' \<noteq> Some ''1'' \<and>
     (\<exists>c. credential key_param h = Some c \<and> signed_for mac (dns_token_secret cfg) path now c \<and>
        \<not> is_token_revoked c (word_of_nat (unwrap_or 0 (parse_hex 64 (take 8 c)))) revoked)"

text \<open>
  C39: The role of a request. The check never panics. It grants the role of the administrator exactly to
  requests that present a credential with the digest of the master key, where there is a master key;
  the role of a viewer exactly to the others, not from peers, whose token is signed by the token
  secret for viewing, for this path, for the root or for an administrator's session, is within its lifetime
  (with a minute of clock skew) and is neither revoked nor issued before the revocation epoch. A request that presents
  something else counts as a failure, one that presents nothing does not.
\<close>

theorem roles_spec:
  assumes "\<And>s. length (sha s) = 32"
  shows "\<exists>role. check_auth sha mac cfg revoked key_param h path now m =
      ret (role, if role = No_Role \<and> (h ''x-peer-sync'' = Some ''1'' \<or> credential key_param h \<noteq> None) then count_one Auth_fails m else m) \<and>
    (role = Admin \<longleftrightarrow> master_known sha cfg key_param h) \<and>
    (role = View \<longleftrightarrow> \<not> master_known sha cfg key_param h \<and> view_token mac cfg revoked key_param h path now)"
proof (cases "h ''x-peer-sync'' = Some ''1''")
  case True
  then show ?thesis
    by (cases "header_str h ''authorization''")
      (auto simp: check_auth_def refuse_role_def credential_def master_known_def view_token_def constant_time_eq assms)
next
  case False
  then show ?thesis
    by (cases "extract_auth_candidate key_param h")
      (auto simp: check_auth_def refuse_role_def credential_def master_known_def view_token_def constant_time_eq assms verify_token)
qed

theorem roles_spec_witness:
  "check_auth (\<lambda>s. replicate 32 (word_of_nat (length s))) (\<lambda>k s. []) \<lparr>dns_master_key = ''key'', dns_token_secret = ''secret''\<rparr>
     \<lparr>revoked_tokens = {}, revocation_epoch = 0\<rparr> (Some ''key'') (\<lambda>_. None) ''/'' 0 (metrics_new 0) = ret (Admin, metrics_new 0)"
proof -
  let ?sha = "\<lambda>s :: string. replicate 32 (word_of_nat (length s) :: u8)"
  have t: "trim ''key'' = ''key''" by code_simp
  have "credential (Some ''key'') (\<lambda>_. None) = Some ''key''"
    by (simp add: credential_def extract_auth_candidate_def t)
  then have "master_known ?sha \<lparr>dns_master_key = ''key'', dns_token_secret = ''secret''\<rparr> (Some ''key'') (\<lambda>_. None)"
    by (simp add: master_known_def)
  with roles_spec [of ?sha "\<lambda>k s. []" "\<lparr>dns_master_key = ''key'', dns_token_secret = ''secret''\<rparr>"
      "\<lparr>revoked_tokens = {}, revocation_epoch = 0\<rparr>" "Some ''key''" "\<lambda>_. None" "''/''" 0 "metrics_new 0"] show ?thesis by auto
qed

text \<open>
  C40: Tokens go round. A generated token is accepted exactly within its lifetime (at least a minute, and a
  minute before it begins), for the path it was made for; a token for the root or the dashboard for every
  path. Out of its lifetime it is refused for every path.
\<close>

theorem token_round_trip:
  assumes "\<And>k s. length (mac k s) = 32" and "secret \<noteq> []" and "issued < 2 ^ 32" "ttl < 2 ^ 32"
  shows "verify_hmac_token mac (generate_hmac_token mac secret target ttl issued) secret path now =
    ret (issued \<le> now + 60 \<and> now \<le> issued + max ttl 60 \<and>
      (target \<in> {[], ''/'', ''/dashboard'', path} \<or>
       (\<exists>scope \<in> {''VIEW_ONLY'', path, ''/'', ''ADMIN_SESSION''}.
          mac secret (hex_digits 8 issued @ hex_digits 8 (max ttl 60) @ scope) = mac secret (hex_digits 8 issued @ hex_digits 8 (max ttl 60) @ target))))"
proof -
  define a b sc where "a = hex_digits 8 issued" and "b = hex_digits 8 (max ttl 60)"
    and "sc = (if target = [] \<or> target = ''/'' \<or> target = ''/dashboard'' then ''VIEW_ONLY'' else target)"
  define sig where "sig = hex_encode (mac secret (a @ b @ sc))"
  have g: "generate_hmac_token mac secret target ttl issued = a @ b @ sig"
    using assms(3,4) by (simp add: generate_hmac_token_def signed_token_def Let_def hex_08_small a_def b_def sc_def sig_def)
  have len: "length a = 8" "length b = 8" "length sig = 64"
    by (simp_all add: a_def b_def sig_def length_hex_digits length_hex_encode assms(1))
  have al: "list_all (\<lambda>c. is_alnum_code (code c)) (a @ b @ sig)"
    using hex_digits_alnum hex_encode_alnum by (auto simp: a_def b_def sig_def list_all_iff)
  have p: "parse_hex 64 a = Some issued" "parse_hex 64 b = Some (max ttl 60)"
    unfolding a_def b_def using assms(3,4) by (auto intro!: parse_hex_digits)
  have u: "unhex_pairs sig = Some (mac secret (a @ b @ sc))" by (simp add: sig_def unhex_encode)
  have w: "is_token_well_formed (a @ b @ sig)" using al len by (simp add: is_token_well_formed_def)
  have tp: "token_parts (a @ b @ sig) = Some (a, a @ b, max ttl 60, sig)"
    using len p(2) by (simp add: token_parts_def)
  have "token_at (a @ b @ sig) cover t l tag \<longleftrightarrow> cover = a @ b \<and> t = issued \<and> l = max ttl 60 \<and> tag = mac secret (a @ b @ sc)" for cover t l tag
    unfolding token_at_parts [OF w] using tp p(1) u by auto
  then show ?thesis
    unfolding g verify_token signed_for_def using assms(2) by (auto simp: sc_def a_def b_def)
qed

theorem token_round_trip_witness:
  "verify_hmac_token (\<lambda>k s. replicate 32 (word_of_nat (length s))) (generate_hmac_token (\<lambda>k s. replicate 32 (word_of_nat (length s))) ''k'' ''/api'' 3600 1000)
     ''k'' ''/api'' 2000 = ret True"
  using token_round_trip [of "\<lambda>k s. replicate 32 (word_of_nat (length s))" "''k''" 1000 3600 "''/api''" "''/api''" 2000] by simp

end
