(* ===== verification/Spec2Isabelle.thy ===== *)
theory Spec2Isabelle
  imports Dns_Cookie Cache Bloom Rate_Limit Wal Pattern Schedule Ttl_Learner Passive_Dns Client_Tracker Ai_Brain Rule_Decision Dnssec_Validate
    Metrics App_State Pipeline_Reply Upstream_Pool Auth
begin

text \<open>
  A verification library of amardns, a filtering DNS resolver written in Rust. A packet comes in over
  UDP, TCP, TLS, HTTPS or QUIC; all transports call one function, \<open>process_dns_wire_packet_full\<close> in
  \<open>src/src/server/doh.rs\<close>, which parses it, decides whether the name is blocked, and answers from the
  server itself, from the cache or from an upstream resolver whose answer it inspects (private
  addresses, lifetimes, DNSSEC). This library models that function and everything it calls short of the network.

  \<^bold>\<open>Theories and sources.\<close>

  \<^item> \<open>Prelude\<close>, \<open>Rust_Str\<close>, \<open>Ip_Addr\<close>: integers at their width, buffers whose reads, writes and slices
    panic out of range (\<open>'a rust\<close>, \<open>None\<close> is the panic), strings as UTF-8 bytes, IP addresses.
  \<^item> \<open>Dns_Name\<close>, \<open>Dns_Presentation\<close>, \<open>Dns_Message\<close> (\<open>dns/parser.rs\<close>): names on the wire and in presentation
    form, queries, synthesized responses.
  \<^item> \<open>Wire_Walk\<close> (\<open>dns/parser.rs\<close>): the loops over the sections of a message, with the interface \<open>cursor\<close>
    that questions and records interpret.
  \<^item> \<open>Edns\<close>, \<open>Truncation\<close>, \<open>Ecs\<close>, \<open>Dns_Cookie\<close> (\<open>dns/parser.rs\<close>): OPT records and extended errors,
    truncation, client subnet, cookies.
  \<^item> \<open>Answers\<close> (\<open>dns/parser.rs\<close>): the rebind guard and the readers of the answer section.
  \<^item> \<open>Ttl_Rewrite\<close>, \<open>Cache\<close> (\<open>dns/cache.rs\<close>): ageing of records, the answer cache with stale answers,
    negative entries and byte counters.
  \<^item> \<open>Bloom\<close> (\<open>security/bloom.rs\<close>): the feed filters, with the interface \<open>approximate_set\<close>.
  \<^item> \<open>Rate_Limit\<close> (\<open>security/rate_limit.rs\<close>): token buckets per address and identity in stripes.
  \<^item> \<open>Wal\<close> (\<open>storage/wal.rs\<close>): the log of list changes, its writer, replay and compaction.
  \<^item> \<open>Pattern\<close>, \<open>Rules\<close>, \<open>Rule_Decision\<close> (\<open>state.rs\<close>): patterns and feed lines, the lists and
    the decision, and the table of rows that specifies it.
  \<^item> \<open>Schedule\<close> (\<open>security/schedule.rs\<close>), \<open>Ttl_Learner\<close> (\<open>dns/ttl_learner.rs\<close>), \<open>Passive_Dns\<close>
    (\<open>dns/passive_dns.rs\<close>): daily windows, learned lifetimes, observed addresses.
  \<^item> \<open>Heuristics\<close>, \<open>Client_Tracker\<close> (\<open>security/heuristics.rs\<close>), \<open>Ai_Brain\<close> (\<open>security/ai.rs\<close>): look-alikes,
    generated names, client fingerprints, the learned score.
  \<^item> \<open>Dnssec_Codec\<close>, \<open>Dnssec_Order\<close>, \<open>Dnssec_Records\<close>, \<open>Dnssec_Anchors\<close>, \<open>Dnssec_Validate\<close>
    (\<open>dns/dnssec.rs\<close>, \<open>dns/pkcs7.rs\<close>): encodings, canonical order and denial (interface \<open>cyclic_chain\<close>,
    interpreted for NSEC and NSEC3), record sets and signed data (interface \<open>record_reader\<close>), trust
    anchors, and the validation of a message.
  \<^item> \<open>Metrics\<close> (\<open>telemetry/metrics.rs\<close>): counters, clients, the ring of seconds, burst detectors.
  \<^item> \<open>App_State\<close> (\<open>state.rs\<close>, provider names of \<open>dns/upstream.rs\<close>): the record \<open>server\<close> of all component
    states, the query log, the heat map, the instant cache, revoked tokens.
  \<^item> \<open>Pipeline\<close> (\<open>server/doh.rs\<close>): the path of a query as a list of stages, the tasks it spawns, the steps
    of the server. \<open>Pipeline_Sound\<close>: no stage panics, all invariants are kept. \<open>Pipeline_Reply\<close>: what
    the replies promise.
  \<^item> \<open>Upstream_Pool\<close> (\<open>dns/upstream.rs\<close>): the nodes and their statistics, ranking and promotion, the sharing
    of concurrent queries as a step relation, and the hedged race.
  \<^item> \<open>Auth\<close> (\<open>security/auth.rs\<close>): roles, signed tokens, the credentials of a request, device names.
\<close>

text \<open>
  \<^bold>\<open>How the code corresponds.\<close> A struct is a record, an enum a datatype, an operation with \<open>&mut self\<close> a
  function that returns the new state, a panic \<open>None\<close>, an early return a branch. Operations on shared state
  that the code runs under one lock are one step; the spawned tasks are separate steps that
  may run at any later time, in any order. Counters of fixed width wrap or saturate as written.

  \<^bold>\<open>Parameters.\<close> What is not under \<open>src/\<close> is an argument: the HMAC of cookies, the hashes and signature
  checks of ring (\<open>crypto\<close>), zstd, the S/MIME check, the printer of floating point numbers, file
  contents, the iteration order of hash maps, the clocks, and the network. The record \<open>outside\<close> holds those of
  the pipeline; \<open>outside_ok\<close> asks of them only that an iteration order gives keys of its map. The
  upstream resolvers and safe browsing are arbitrary functions of what is asked, so the properties of the
  pipeline hold for every network, hostile ones included; \<open>Upstream_Pool\<close> models the choice of a resolver, with what servers
  answer, and when, as arguments. Floating point numbers are real numbers.

  \<^bold>\<open>Loops.\<close> Loops over sections recurse on the count of the header, name decoding on the rounds
  that are left (128 at first, the bound in the code); splitting and scanning
  loops are functions with a measure. Nothing is partial, and no result depends on fuel that might not be enough.

  \<^bold>\<open>What the properties show.\<close> For the server as a whole: every run keeps the invariants of
  all components and never panics; every packet gets one reply with its identifier; a blocked
  query is answered in the same way in every network; nothing the rebind guard refuses is sent; bogus
  answers go only to clients that ask for them. For the components: decoders that are safe on all
  inputs and invert the encoders; filters without false negatives; a limiter with an admission bound that
  refines one map per level; a log whose replay refines the operations and whose compaction
  loses nothing; a decision that is the first applicable row of a table and is
  remembered; denial of existence that is sound for the records of a zone; signed data that determines its
  record set; trust anchors that are never empty; learned tables that stay bounded over all runs; a pool
  of resolvers that is never empty, one call upstream for concurrent queries, and a race whose only failure other than that of all
  nodes is named exactly; roles granted to exactly the right credentials; burst
  detectors and a ring of seconds that agree with the full history.

  \<^bold>\<open>Not modelled.\<close> Sockets, TLS, HTTP routing, JSON and HTML (the transports, the REST interface, the
  pages), ACME and dynamic DNS, the configuration, process start, the HTTP client of
  the upstream resolvers, the fallback to the root servers, the download of feeds, the console's escaping, the Prometheus text and
  memory readings, and the floating point statistics of cache and filters: they are input and
  output around the modelled functions or views of their states.
\<close>

end
